(* ===== verification/Prelude.thy ===== *)
theory Prelude
  imports Main "HOL-Library.Word"
begin

section \<open>Shared types, constants and lemmas\<close>

text \<open>
  The kernel runs on a 32-bit i386: \<open>unsigned long\<close>, \<open>unsigned int\<close>, \<open>size_t\<close> and addresses
  are \<open>u32\<close>, a byte is \<open>u8\<close>. Indices into tables and bit positions, which the code keeps far
  below \<open>2 ^ 31\<close>, are \<open>nat\<close>; \<open>int\<close> return codes are \<open>int\<close>, with \<open>-1\<close> the failure code of
  the sources. Memory behind a pointer is a function from the offset to the byte, so that a read
  or a write past the end of a buffer is visible in the model.
  The theory holds the page arithmetic of \<open>src/src/arch/x86/include/arch/page.h\<close>, the C string
  routines the components use, and the lemmas on words and lists they share.
\<close>

unbundle bit_operations_syntax

type_synonym u8 = "8 word"
type_synonym u16 = "16 word"
type_synonym u32 = "32 word"
type_synonym mem = "nat \<Rightarrow> u8"
type_synonym tid = nat

named_theorems kinv_simps \<open>unfoldings of the components' invariants\<close>
named_theorems kframe \<open>fields an operation leaves alone\<close>

subsection \<open>Page arithmetic\<close>

definition PAGE_SIZE :: u32 where
  "PAGE_SIZE = push_bit 12 1"

definition PAGE_MASK :: u32 where
  "PAGE_MASK = NOT (PAGE_SIZE - 1)"

definition PAGE_ALIGN :: "u32 \<Rightarrow> u32" where
  "PAGE_ALIGN value = (value + PAGE_SIZE - 1) AND PAGE_MASK"

definition PAGE_OFFSET :: u32 where
  "PAGE_OFFSET = 0x80000000"

text \<open>\<open>DIV_ROUND_UP(x, step)\<close> of \<open>include/math.h\<close>.\<close>

definition DIV_ROUND_UP :: "u32 \<Rightarrow> u32 \<Rightarrow> u32" where
  "DIV_ROUND_UP x step = (x + step - 1) div step"

lemma PAGE_SIZE_val: "PAGE_SIZE = 4096"
  by (simp add: PAGE_SIZE_def)

lemma PAGE_MASK_val: "PAGE_MASK = 0xfffff000"
  by (simp add: PAGE_MASK_def PAGE_SIZE_def)

lemma unat_PAGE_SIZE [simp]: "unat PAGE_SIZE = 4096"
  by (simp add: PAGE_SIZE_val)

lemma PAGE_MASK_mask: "PAGE_MASK = NOT (mask 12)"
  by (simp add: PAGE_MASK_val mask_eq_exp_minus_1)

lemma unat_and_PAGE_MASK: "unat (x AND PAGE_MASK) = unat x div 4096 * 4096"
proof -
  have "x AND PAGE_MASK = push_bit 12 (drop_bit 12 x)"
    by (rule bit_eqI) (auto simp: PAGE_MASK_mask bit_simps)
  moreover have "take_bit 32 (unat x) = unat x"
    using unsigned_less [where ?'a = nat, of x] by (intro take_bit_nat_eq_self) simp
  ultimately have "unat (x AND PAGE_MASK) = take_bit 32 (push_bit 12 (drop_bit 12 (unat x)))"
    by (simp only: unsigned_push_bit_eq unsigned_drop_bit_eq) simp
  also have "\<dots> = take_bit 32 (unat x div 4096 * 4096)"
    by (simp add: push_bit_eq_mult drop_bit_eq_div)
  also have "\<dots> = unat x div 4096 * 4096"
    using unsigned_less [where ?'a = nat, of x] by (intro take_bit_nat_eq_self) simp
  finally show ?thesis .
qed

lemma push_bit_1_and_iff: "push_bit i 1 AND w \<noteq> 0 \<longleftrightarrow> bit w i"
  for w :: "'a :: len word"
  by (simp add: push_bit_of_1 and_exp_eq_0_iff_not_bit and.commute [of _ w])

subsection \<open>Powers of two\<close>

text \<open>
  \<open>is_power_of_2\<close>, \<open>fls\<close> and \<open>roundup_pow_of_two\<close> of \<open>src/src/include/math.h\<close>. The argument of
  \<open>fls\<close> is a signed \<open>long\<close>, whose right shift keeps the sign: on a negative argument the loop
  never reaches 0, hence the \<open>option\<close>.
\<close>

definition is_power_of_2 :: "u32 \<Rightarrow> bool" where
  "is_power_of_2 n \<longleftrightarrow> n \<noteq> 0 \<and> n AND (n - 1) = 0"

partial_function (option) fls_loop :: "int \<Rightarrow> nat \<Rightarrow> nat option" where
  "fls_loop i position = (if i = 0 then Some position else fls_loop (i div 2) (Suc position))"

definition fls :: "int \<Rightarrow> nat option" where
  "fls x = (if x \<noteq> 0 then map_option Suc (fls_loop (x div 2) 0) else Some 0)"

definition roundup_pow_of_two :: "u32 \<Rightarrow> u32 option" where
  "roundup_pow_of_two x = map_option (\<lambda>p. push_bit p 1) (fls (sint (x - 1)))"

lemma fls_loop_nat:
  "\<exists>r. fls_loop (int n) p = Some (p + r) \<and> n < 2 ^ r \<and>
     (0 < n \<longrightarrow> 2 ^ (r - 1) \<le> n) \<and> (n = 0 \<longrightarrow> r = 0)"
proof (induction n arbitrary: p rule: less_induct)
  case (less n)
  show ?case
  proof (cases "n = 0")
    case True
    then show ?thesis by (intro exI [of _ 0]) (simp add: fls_loop.simps)
  next
    case False
    then have "n div 2 < n" by simp
    from less [OF this, of "Suc p"] obtain r where r: "fls_loop (int (n div 2)) (Suc p) = Some (Suc p + r)"
      "n div 2 < 2 ^ r" "0 < n div 2 \<longrightarrow> 2 ^ (r - 1) \<le> n div 2" "n div 2 = 0 \<longrightarrow> r = 0"
      by (elim exE conjE) (rule that)
    have "fls_loop (int n) p = Some (p + Suc r)"
      using False r(1) by (subst fls_loop.simps) (simp add: zdiv_int)
    moreover have "n < 2 ^ Suc r" using r(2) by simp
    moreover have "2 ^ r \<le> n"
    proof (cases r)
      case 0
      with False show ?thesis by simp
    next
      case (Suc k)
      with r(3,4) show ?thesis by (cases "0 < n div 2") auto
    qed
    ultimately show ?thesis using False by (intro exI [of _ "Suc r"]) simp
  qed
qed

lemma fls_loop_minus_1: "fls_loop (-1) p = None"
proof (rule ccontr)
  assume "fls_loop (-1) p \<noteq> None"
  then obtain r where ret: "fls_loop (-1) p = Some r" by auto
  have "(-1 :: int) \<noteq> -1"
  proof (rule fls_loop.raw_induct [where P = "\<lambda>i p r. i \<noteq> -1", OF _ ret])
    fix f :: "int \<Rightarrow> nat \<Rightarrow> nat option" and i p r
    assume IH: "\<And>i p r. f i p = Some r \<Longrightarrow> i \<noteq> -1"
      and eq: "(if i = 0 then Some p else f (i div 2) (Suc p)) = Some r"
    show "i \<noteq> -1"
    proof
      assume "i = -1"
      with eq have "f (-1) (Suc p) = Some r" by simp
      then show False using IH by blast
    qed
  qed
  then show False by simp
qed

lemma roundup_pow_of_two_spec:
  assumes "1 \<le> unat x" "unat x \<le> 2 ^ 31"
  shows "\<exists>p \<le> 31. roundup_pow_of_two x = Some (push_bit p 1) \<and> unat x \<le> 2 ^ p \<and> (0 < p \<longrightarrow> 2 ^ (p - 1) < unat x)"
proof -
  define n where "n = unat x - 1"
  have "x \<noteq> 0" using assms(1) by auto
  then have nx: "unat (x - 1) = n" by (simp add: n_def unat_minus_one)
  have "n < 2 ^ 31" using assms by (simp add: n_def)
  then have s: "sint (x - 1) = int n"
    by (simp add: sint_uint uint_nat nx signed_take_bit_int_eq_self)
  show ?thesis
  proof (cases "n = 0")
    case True
    have "sint (x - 1) = 0" using s True by simp
    moreover have "unat x = 1" using True assms(1) by (simp add: n_def)
    ultimately show ?thesis
      by (intro exI [of _ 0]) (simp add: roundup_pow_of_two_def fls_def)
  next
    case False
    obtain r where r: "fls_loop (int (n div 2)) 0 = Some r" "n div 2 < 2 ^ r"
      "0 < n div 2 \<longrightarrow> 2 ^ (r - 1) \<le> n div 2" "n div 2 = 0 \<longrightarrow> r = 0"
      using fls_loop_nat [of "n div 2" 0] by auto
    have fls: "fls (int n) = Some (Suc r)" using False r(1) by (simp add: fls_def zdiv_int)
    have up: "unat x \<le> 2 ^ Suc r" using r(2) n_def assms(1) by simp
    have low: "2 ^ r < unat x"
    proof (cases r)
      case 0
      with False show ?thesis by (simp add: n_def)
    next
      case (Suc k)
      with r(3,4) have "2 ^ k \<le> n div 2" by (cases "0 < n div 2") auto
      with Suc have "2 ^ r \<le> n" by simp
      then show ?thesis using n_def assms(1) by linarith
    qed
    have "r < 31"
    proof (rule ccontr)
      assume "\<not> r < 31"
      then have "(2 :: nat) ^ 31 \<le> 2 ^ r" by (intro power_increasing) auto
      with low assms(2) show False by linarith
    qed
    with fls s up low show ?thesis
      by (intro exI [of _ "Suc r"]) (simp add: roundup_pow_of_two_def)
  qed
qed

subsection \<open>Copying memory\<close>

definition memcpy :: "mem \<Rightarrow> nat \<Rightarrow> mem \<Rightarrow> nat \<Rightarrow> nat \<Rightarrow> mem" where
  "memcpy dst doff src soff n = (\<lambda>i. if doff \<le> i \<and> i < doff + n then src (soff + (i - doff)) else dst i)"

definition memset :: "mem \<Rightarrow> nat \<Rightarrow> u8 \<Rightarrow> nat \<Rightarrow> mem" where
  "memset dst doff v n = (\<lambda>i. if doff \<le> i \<and> i < doff + n then v else dst i)"

text \<open>The first \<open>n\<close> bytes behind a pointer, as a list.\<close>

definition bytes :: "mem \<Rightarrow> nat \<Rightarrow> u8 list" where
  "bytes m n = map m [0..<n]"

lemma length_bytes [simp]: "length (bytes m n) = n"
  by (simp add: bytes_def)

lemma nth_bytes [simp]: "i < n \<Longrightarrow> bytes m n ! i = m i"
  by (simp add: bytes_def)

lemma bytes_eqI: "(\<And>i. i < n \<Longrightarrow> m i = xs ! i) \<Longrightarrow> length xs = n \<Longrightarrow> bytes m n = xs"
  by (rule nth_equalityI) auto

lemma take_bytes: "k \<le> n \<Longrightarrow> take k (bytes m n) = bytes m k"
  by (simp add: bytes_def take_map)

subsection \<open>Words below a power of two\<close>

lemma mod_add_left_diff_nat:
  fixes a b m :: nat
  shows "a < m \<Longrightarrow> b < m \<Longrightarrow> (a + b) mod m = (if a + b < m then a + b else a + b - m)"
  by (simp add: mod_if)

lemma mod_shift_inj:
  fixes m :: nat
  assumes "(x + i) mod m = (x + j) mod m" "i < m" "j < m"
  shows "i = j"
proof -
  have "(x mod m + i) mod m = (x mod m + j) mod m" using assms(1) by (simp add: mod_add_left_eq)
  moreover have "x mod m < m" using assms(2) by simp
  ultimately show ?thesis
    using assms(2,3) by (auto simp: mod_add_left_diff_nat split: if_splits)
qed

end
