(* ===== verification/Bitmap.thy ===== *)
theory Bitmap
  imports Prelude
begin

section \<open>Bitmaps\<close>

text \<open>
  \<open>src/src/lib/bitmap.c\<close>. A bitmap is a byte length and a pointer to its bytes. \<open>bits b i\<close> is the
  byte at offset \<open>i\<close> from that pointer: offsets below \<open>byte_length b\<close> are the bitmap's own, larger
  ones are whatever memory follows. The loops of \<open>bitmap_scan\<close> are one recursive function each.
  Bit positions are \<open>nat\<close>: the kernel's bitmaps have at most 4096 bytes, so that no position
  leaves the range of \<open>long\<close>.
\<close>

record bitmap =
  byte_length :: nat
  bits :: mem

definition BITMAP_MASK :: u8 where
  "BITMAP_MASK = 1"

definition bitmap_init :: "bitmap \<Rightarrow> bitmap" where
  "bitmap_init btmp = btmp\<lparr>bits := (\<lambda>i. if i < byte_length btmp then 0 else bits btmp i)\<rparr>"

definition bitmap_scan_test :: "bitmap \<Rightarrow> nat \<Rightarrow> bool" where
  "bitmap_scan_test btmp idx =
     (let byte_idx = idx div 8; bit_odd = idx mod 8
      in bits btmp byte_idx AND push_bit bit_odd BITMAP_MASK \<noteq> 0)"

definition bitmap_set :: "bitmap \<Rightarrow> nat \<Rightarrow> bool \<Rightarrow> bitmap" where
  "bitmap_set btmp idx value =
     (let byte_idx = idx div 8; bit_odd = idx mod 8
      in if value
         then btmp\<lparr>bits := (bits btmp)(byte_idx := bits btmp byte_idx OR push_bit bit_odd BITMAP_MASK)\<rparr>
         else btmp\<lparr>bits := (bits btmp)(byte_idx := bits btmp byte_idx AND NOT (push_bit bit_odd BITMAP_MASK))\<rparr>)"

definition bitmap_change :: "bitmap \<Rightarrow> nat \<Rightarrow> u8 \<times> bitmap" where
  "bitmap_change btmp idx =
     (let byte_idx = idx div 8; bit_odd = idx mod 8;
          btmp' = btmp\<lparr>bits := (bits btmp)(byte_idx := bits btmp byte_idx XOR push_bit bit_odd BITMAP_MASK)\<rparr>
      in (bits btmp' byte_idx AND push_bit bit_odd BITMAP_MASK, btmp'))"

definition bitmap_test_and_change :: "bitmap \<Rightarrow> nat \<Rightarrow> u8 \<times> bitmap" where
  "bitmap_test_and_change btmp idx =
     (let byte_idx = idx div 8; bit_odd = idx mod 8;
          ret = bits btmp byte_idx AND push_bit bit_odd BITMAP_MASK
      in (ret, btmp\<lparr>bits := (bits btmp)(byte_idx := bits btmp byte_idx XOR push_bit bit_odd BITMAP_MASK)\<rparr>))"

text \<open>The first loop of \<open>bitmap_scan\<close>: skip the bytes that are full.\<close>

function scan_byte :: "bitmap \<Rightarrow> nat \<Rightarrow> nat" where
  "scan_byte btmp idx_byte =
     (if bits btmp idx_byte = 0xff \<and> idx_byte < byte_length btmp
      then scan_byte btmp (Suc idx_byte) else idx_byte)"
  by pat_completeness auto
termination
  by (relation "measure (\<lambda>(btmp, i). byte_length btmp - i)") auto

declare scan_byte.simps [simp del]

text \<open>The second loop: the first clear bit of the byte found.\<close>

function scan_bit :: "u8 \<Rightarrow> nat \<Rightarrow> nat" where
  "scan_bit byte idx_bit =
     (if push_bit idx_bit BITMAP_MASK AND byte \<noteq> 0 then scan_bit byte (Suc idx_bit) else idx_bit)"
  by pat_completeness auto
termination
proof (relation "measure (\<lambda>(w, i). 8 - i)")
  fix byte :: u8 and idx_bit :: nat
  assume "push_bit idx_bit BITMAP_MASK AND byte \<noteq> 0"
  then have "bit byte idx_bit"
    by (simp only: BITMAP_MASK_def push_bit_1_and_iff)
  from bit_imp_le_length [OF this] have "idx_bit < 8" by simp
  then show "((byte, Suc idx_bit), byte, idx_bit) \<in> measure (\<lambda>(w, i). 8 - i)" by simp
qed simp

declare scan_bit.simps [simp del]

text \<open>The third loop, which runs \<open>bit_left\<close> times.\<close>

fun scan_run :: "bitmap \<Rightarrow> nat \<Rightarrow> nat \<Rightarrow> nat \<Rightarrow> nat \<Rightarrow> int" where
  "scan_run btmp cnt 0 next_bit count = -1"
| "scan_run btmp cnt (Suc bit_left) next_bit count =
     (let count' = (if \<not> bitmap_scan_test btmp next_bit then Suc count else 0)
      in if count' = cnt then int next_bit - int cnt + 1
         else scan_run btmp cnt bit_left (Suc next_bit) count')"

definition bitmap_scan :: "bitmap \<Rightarrow> nat \<Rightarrow> int" where
  "bitmap_scan btmp cnt =
     (let idx_byte = scan_byte btmp 0
      in if idx_byte = byte_length btmp then -1
         else let idx_bit = scan_bit (bits btmp idx_byte) 0;
                  idx_start = idx_byte * 8 + idx_bit
              in if cnt = 1 then int idx_start
                 else scan_run btmp cnt (byte_length btmp * 8 - idx_start) (Suc idx_start) 1)"

subsection \<open>Single bits\<close>

lemma scan_test_bit: "bitmap_scan_test btmp i \<longleftrightarrow> bit (bits btmp (i div 8)) (i mod 8)"
  using push_bit_1_and_iff [of "i mod 8" "bits btmp (i div 8)"]
  by (simp only: bitmap_scan_test_def BITMAP_MASK_def Let_def and.commute)

lemma div_mod_8_eq: "(i :: nat) div 8 = j div 8 \<Longrightarrow> i mod 8 = j mod 8 \<Longrightarrow> i = j"
  by (metis div_mult_mod_eq)

lemma test_set [simp]:
  "bitmap_scan_test (bitmap_set btmp i v) j = (if i = j then v else bitmap_scan_test btmp j)"
  by (auto simp: scan_test_bit bitmap_set_def BITMAP_MASK_def bit_simps Let_def dest: div_mod_8_eq)

lemma byte_length_set [simp]: "byte_length (bitmap_set btmp i v) = byte_length btmp"
  by (simp add: bitmap_set_def Let_def)

lemma bits_set_outside: "i < 8 * byte_length btmp \<Longrightarrow> byte_length btmp \<le> k \<Longrightarrow>
    bits (bitmap_set btmp i v) k = bits btmp k"
  by (auto simp: bitmap_set_def Let_def)

lemma test_init [simp]: "i < 8 * byte_length btmp \<Longrightarrow> \<not> bitmap_scan_test (bitmap_init btmp) i"
  by (simp add: scan_test_bit bitmap_init_def less_mult_imp_div_less mult.commute)

lemma byte_length_init [simp]: "byte_length (bitmap_init btmp) = byte_length btmp"
  by (simp add: bitmap_init_def)

lemma test_change:
  "bitmap_scan_test (snd (bitmap_change btmp i)) j = (bitmap_scan_test btmp j \<noteq> (i = j))"
  by (auto simp: scan_test_bit bitmap_change_def BITMAP_MASK_def bit_simps Let_def dest: div_mod_8_eq)

subsection \<open>The interface the allocators use\<close>

text \<open>
  \<open>vmarea.c\<close> (kernel virtual pages) and \<open>memcache.c\<close> (objects of a group) drive a bitmap through
  test, set and scan. \<open>bit_array\<close> is the contract of test and set, \<open>bit_scanner\<close> adds scan with
  \<open>limit\<close>, the number of bits the structure owns.
\<close>

locale bit_array =
  fixes test :: "'b \<Rightarrow> nat \<Rightarrow> bool"
    and set_bit :: "'b \<Rightarrow> nat \<Rightarrow> bool \<Rightarrow> 'b"
  assumes test_set_bit: "test (set_bit b i v) j = (if i = j then v else test b j)"
begin

lemma test_fold_set:
  "test (fold (\<lambda>i b. set_bit b (s + i) v) [0..<n] b) j = (if s \<le> j \<and> j < s + n then v else test b j)"
  by (induction n arbitrary: j) (auto simp: test_set_bit)

lemma card_set:
  assumes "i < n" "\<not> test b i"
  shows "card {j. j < n \<and> test (set_bit b i True) j} = Suc (card {j. j < n \<and> test b j})"
proof -
  have "{j. j < n \<and> test (set_bit b i True) j} = insert i {j. j < n \<and> test b j}"
    using assms by (auto simp: test_set_bit)
  with assms show ?thesis by simp
qed

lemma card_clear:
  assumes "i < n" "test b i"
  shows "Suc (card {j. j < n \<and> test (set_bit b i False) j}) = card {j. j < n \<and> test b j}"
proof -
  have "{j. j < n \<and> test b j} = insert i {j. j < n \<and> test (set_bit b i False) j}"
    using assms by (auto simp: test_set_bit)
  then show ?thesis by (simp add: test_set_bit)
qed

end

locale bit_scanner = bit_array +
  fixes scan :: "'b \<Rightarrow> nat \<Rightarrow> int"
    and limit :: "'b \<Rightarrow> nat"
  assumes scan_free: "1 \<le> n \<Longrightarrow> scan b n = int s \<Longrightarrow> s \<le> j \<Longrightarrow> j < s + n \<Longrightarrow> \<not> test b j"
    and scan_first: "1 \<le> n \<Longrightarrow> scan b n = int s \<Longrightarrow> t < s \<Longrightarrow> \<exists>j. t \<le> j \<and> j < t + n \<and> test b j"
    and scan_none: "1 \<le> n \<Longrightarrow> scan b n = -1 \<Longrightarrow> t + n \<le> limit b \<Longrightarrow>
      \<exists>j. t \<le> j \<and> j < t + n \<and> test b j"
    and scan_cases: "1 \<le> n \<Longrightarrow> scan b n = -1 \<or> (\<exists>s. scan b n = int s)"
begin

text \<open>Two runs handed out one after the other, the first marked as used, never share a bit.\<close>

lemma scan_disjoint:
  assumes "1 \<le> n" "scan b n = int s" "1 \<le> m"
    and "scan (fold (\<lambda>i b. set_bit b (s + i) True) [0..<n] b) m = int t"
  shows "t + m \<le> s \<or> s + n \<le> t"
proof (rule ccontr)
  assume "\<not> ?thesis"
  then have "s \<le> max s t" "max s t < s + n" "t \<le> max s t" "max s t < t + m"
    using assms(1,3) by auto
  with scan_free [OF assms(3,4), of "max s t"] show False
    by (simp add: test_fold_set)
qed

text \<open>While fewer than \<open>k\<close> of the first \<open>k\<close> bits are used, a single bit is found below \<open>k\<close>.\<close>

lemma scan_one_below:
  assumes "card {j. j < k \<and> test b j} < k" "k \<le> limit b"
  obtains s where "scan b 1 = int s" "s < k" "\<not> test b s"
proof -
  have "\<exists>i < k. \<not> test b i"
  proof (rule ccontr)
    assume "\<not> ?thesis"
    then have "{j. j < k \<and> test b j} = {..<k}" by blast
    with assms(1) show False by simp
  qed
  then obtain i where i: "i < k" "\<not> test b i" by blast
  have "scan b 1 \<noteq> -1"
  proof
    assume "scan b 1 = -1"
    then obtain j where "i \<le> j" "j < i + 1" "test b j"
      using scan_none [of 1 b i] i(1) assms(2) by auto
    with i(2) show False by (cases "j = i") auto
  qed
  then obtain s where s: "scan b 1 = int s" using scan_cases [of 1 b] by auto
  moreover have "\<not> test b s" using scan_free [OF _ s, of s] by simp
  moreover have "s < k"
  proof (rule ccontr)
    assume "\<not> s < k"
    then obtain j where "i \<le> j" "j < i + 1" "test b j"
      using scan_first [OF _ s, of i] i(1) by auto
    with i(2) show False by (cases "j = i") auto
  qed
  ultimately show thesis using that by blast
qed

end

subsection \<open>Scanning\<close>

definition free_run :: "bitmap \<Rightarrow> nat \<Rightarrow> nat \<Rightarrow> bool" where
  "free_run b s n \<longleftrightarrow> (\<forall>j. s \<le> j \<and> j < s + n \<longrightarrow> \<not> bitmap_scan_test b j)"

lemma scan_byte_spec:
  "i \<le> byte_length b \<Longrightarrow> i \<le> scan_byte b i \<and> scan_byte b i \<le> byte_length b \<and>
     (\<forall>j. i \<le> j \<and> j < scan_byte b i \<longrightarrow> bits b j = 0xff) \<and>
     (scan_byte b i < byte_length b \<longrightarrow> bits b (scan_byte b i) \<noteq> 0xff)"
proof (induction b i rule: scan_byte.induct)
  case (1 b i)
  then show ?case
    by (cases "bits b i = 0xff \<and> i < byte_length b")
       (auto simp: scan_byte.simps [of b i] le_Suc_eq Suc_le_eq dest: le_neq_implies_less)
qed

lemma scan_bit_spec:
  "i \<le> scan_bit w i \<and> (\<forall>j. i \<le> j \<and> j < scan_bit w i \<longrightarrow> bit w j) \<and> \<not> bit w (scan_bit w i)"
proof (induction w i rule: scan_bit.induct)
  case (1 w i)
  have guard: "push_bit i BITMAP_MASK AND w \<noteq> 0 \<longleftrightarrow> bit w i"
    unfolding BITMAP_MASK_def by (rule push_bit_1_and_iff)
  show ?case
  proof (cases "bit w i")
    case True
    with 1 guard have IH: "Suc i \<le> scan_bit w (Suc i)"
      "\<forall>j. Suc i \<le> j \<and> j < scan_bit w (Suc i) \<longrightarrow> bit w j" "\<not> bit w (scan_bit w (Suc i))"
      by auto
    have eq: "scan_bit w i = scan_bit w (Suc i)"
      by (subst scan_bit.simps) (simp only: guard True if_True)
    from IH True show ?thesis unfolding eq by (metis Suc_leD Suc_le_eq le_neq_implies_less)
  next
    case False
    then have "scan_bit w i = i" by (subst scan_bit.simps) (simp only: guard if_False)
    with False show ?thesis by auto
  qed
qed

lemma bit_ff: "bit (0xff :: u8) j \<longleftrightarrow> j < 8"
proof -
  have "(0xff :: u8) = mask 8" by (simp add: mask_eq_exp_minus_1)
  then show ?thesis by (simp only: bit_mask_iff) simp
qed

lemma not_ff_bit: "(w :: u8) \<noteq> 0xff \<Longrightarrow> \<exists>j<8. \<not> bit w j"
  using bit_ff by (auto simp: bit_eq_iff [of w "0xff"] dest: bit_imp_le_length)

text \<open>\<open>first_free b k\<close>: the first two loops stop at bit \<open>k\<close>, the first clear one.\<close>

lemma first_free:
  assumes "scan_byte b 0 \<noteq> byte_length b"
    and k: "k = scan_byte b 0 * 8 + scan_bit (bits b (scan_byte b 0)) 0"
  shows "k < 8 * byte_length b" "\<not> bitmap_scan_test b k" "\<And>j. j < k \<Longrightarrow> bitmap_scan_test b j"
proof -
  define n where "n = scan_byte b 0"
  define m where "m = scan_bit (bits b n) 0"
  have n: "n < byte_length b" "bits b n \<noteq> 0xff" "\<And>j. j < n \<Longrightarrow> bits b j = 0xff"
    using scan_byte_spec [of 0 b] assms(1) by (auto simp: n_def)
  have m: "\<not> bit (bits b n) m" "\<And>j. j < m \<Longrightarrow> bit (bits b n) j"
    using scan_bit_spec [of 0 "bits b n"] by (auto simp: m_def)
  obtain j where "j < 8" "\<not> bit (bits b n) j" using not_ff_bit [OF n(2)] by auto
  with m(2) have m8: "m < 8" by (meson le_less_trans not_le)
  have k: "k = n * 8 + m" using k by (simp add: n_def m_def)
  show "k < 8 * byte_length b" using n(1) m8 k by simp
  show "\<not> bitmap_scan_test b k" using m8 m(1) by (simp add: k scan_test_bit)
  show "bitmap_scan_test b j" if "j < k" for j
  proof (cases "j div 8 = n")
    case True
    with that k have "j mod 8 < m" by (metis add.commute div_mult_mod_eq mult.commute nat_add_left_cancel_less)
    with True m(2) show ?thesis by (simp add: scan_test_bit)
  next
    case False
    with that k m8 have "j div 8 < n" by linarith
    then have "bits b (j div 8) = 0xff" by (rule n(3))
    then show ?thesis using bit_ff [of "j mod 8"] by (simp add: scan_test_bit)
  qed
qed

text \<open>
  The third loop, started with \<open>count < cnt\<close> clear bits just before \<open>next_bit\<close>, finds the first
  run of \<open>cnt\<close> clear bits that begins in them or later and ends at most \<open>bit_left\<close> bits on.
\<close>

lemma scan_run_spec:
  assumes "count < cnt" "count \<le> nb" "free_run b (nb - count) count"
  shows "scan_run b cnt l nb count = -1 \<and>
           (\<forall>t. nb - count \<le> t \<and> t + cnt \<le> nb + l \<longrightarrow> \<not> free_run b t cnt) \<or>
         (\<exists>s. scan_run b cnt l nb count = int s \<and> nb - count \<le> s \<and> s + cnt \<le> nb + l \<and>
           free_run b s cnt \<and> (\<forall>t. nb - count \<le> t \<and> t < s \<longrightarrow> \<not> free_run b t cnt))"
  using assms
proof (induction b cnt l nb count rule: scan_run.induct)
  case (1 b cnt nb count)
  then show ?case by auto
next
  case (2 b cnt l nb count)
  show ?case
  proof (cases "bitmap_scan_test b nb")
    case used: True
    have no: "\<not> free_run b t cnt" if "nb - count \<le> t" "t \<le> nb" for t
      using that used "2.prems" by (auto simp: free_run_def intro!: exI [of _ nb])
    have "free_run b (Suc nb - 0) 0" by (auto simp: free_run_def)
    then have IH: "scan_run b cnt l (Suc nb) 0 = -1 \<and>
           (\<forall>t. Suc nb \<le> t \<and> t + cnt \<le> Suc nb + l \<longrightarrow> \<not> free_run b t cnt) \<or>
         (\<exists>s. scan_run b cnt l (Suc nb) 0 = int s \<and> Suc nb \<le> s \<and> s + cnt \<le> Suc nb + l \<and>
           free_run b s cnt \<and> (\<forall>t. Suc nb \<le> t \<and> t < s \<longrightarrow> \<not> free_run b t cnt))"
      using "2.IH" [of 0] used "2.prems" by simp
    have eq: "scan_run b cnt (Suc l) nb count = scan_run b cnt l (Suc nb) 0"
      using used "2.prems" by simp
    show ?thesis unfolding eq
      using IH no by (elim disjE exE conjE) (force simp: not_less_eq_eq [symmetric])+
  next
    case free: False
    have run: "free_run b (nb - count) (Suc count)"
      using "2.prems" free by (auto simp: free_run_def less_Suc_eq)
    show ?thesis
    proof (cases "Suc count = cnt")
      case True
      then have "scan_run b cnt (Suc l) nb count = int (nb - count)"
        using free "2.prems" by (auto simp: of_nat_diff)
      with run True "2.prems" show ?thesis by (intro disjI2 exI [of _ "nb - count"]) auto
    next
      case False
      with "2.IH" [of "Suc count"] run free "2.prems" show ?thesis by simp
    qed
  qed
qed

lemma free_run_first: "free_run b s n \<Longrightarrow> 1 \<le> n \<Longrightarrow> \<not> bitmap_scan_test b s"
  by (simp add: free_run_def)

lemma bitmap_scan_spec:
  assumes "1 \<le> cnt"
  shows "bitmap_scan b cnt = -1 \<and>
           (\<forall>t. t < 8 * byte_length b \<and> t + cnt \<le> 8 * byte_length b + (if cnt = 1 then 0 else 1) \<longrightarrow>
             \<not> free_run b t cnt) \<or>
         (\<exists>s. bitmap_scan b cnt = int s \<and> s < 8 * byte_length b \<and>
           s + cnt \<le> 8 * byte_length b + (if cnt = 1 then 0 else 1) \<and>
           free_run b s cnt \<and> (\<forall>t < s. \<not> free_run b t cnt))"
proof (cases "scan_byte b 0 = byte_length b")
  case True
  have "bitmap_scan_test b j" if "j < 8 * byte_length b" for j
    using scan_byte_spec [of 0 b] True that bit_ff [of "j mod 8"]
    by (simp add: scan_test_bit less_mult_imp_div_less mult.commute)
  then have "\<not> free_run b t cnt" if "t < 8 * byte_length b" for t
    using that assms free_run_first [of b t cnt] by auto
  with True show ?thesis by (simp add: bitmap_scan_def)
next
  case False
  define k where "k = scan_byte b 0 * 8 + scan_bit (bits b (scan_byte b 0)) 0"
  note k = first_free [OF False k_def]
  have before: "\<not> free_run b t cnt" if "t < k" for t
    using k(3) [OF that] free_run_first [of b t cnt] assms by auto
  show ?thesis
  proof (cases "cnt = 1")
    case True
    with False have "bitmap_scan b cnt = int k" by (simp add: bitmap_scan_def k_def Let_def)
    moreover have "free_run b k cnt" using True k(2) by (auto simp: free_run_def le_Suc_eq less_Suc_eq_le)
    ultimately show ?thesis using k(1) before True by auto
  next
    case many: False
    have eq: "bitmap_scan b cnt = scan_run b cnt (byte_length b * 8 - k) (Suc k) 1"
      using many False by (simp add: bitmap_scan_def k_def Let_def)
    have range: "Suc k + (byte_length b * 8 - k) = 8 * byte_length b + 1" using k(1) by simp
    have "free_run b (Suc k - 1) 1" using k(2) by (auto simp: free_run_def less_Suc_eq_le)
    from scan_run_spec [OF _ _ this, of cnt "byte_length b * 8 - k"] many assms
    consider
        (none) "scan_run b cnt (byte_length b * 8 - k) (Suc k) 1 = -1"
          "\<And>t. k \<le> t \<Longrightarrow> t + cnt \<le> 8 * byte_length b + 1 \<Longrightarrow> \<not> free_run b t cnt"
      | (some) s where "scan_run b cnt (byte_length b * 8 - k) (Suc k) 1 = int s"
          "s + cnt \<le> 8 * byte_length b + 1" "free_run b s cnt"
          "\<And>t. k \<le> t \<Longrightarrow> t < s \<Longrightarrow> \<not> free_run b t cnt"
      unfolding range by force
    then show ?thesis
    proof cases
      case none
      have "\<not> free_run b t cnt" if "t + cnt \<le> 8 * byte_length b + 1" for t
        using before [of t] none(2) [of t] that by (cases "t < k") auto
      with none(1) many show ?thesis by (simp add: eq)
    next
      case some
      have "\<not> free_run b t cnt" if "t < s" for t
        using before [of t] some(4) [of t] that by (cases "t < k") auto
      moreover have "s < 8 * byte_length b" using some(2) many assms by simp
      ultimately show ?thesis using some(1-3) many unfolding eq
        by (intro disjI2 exI [of _ s]) simp
    qed
  qed
qed

lemma bitmap_scan_none:
  assumes "1 \<le> cnt" "bitmap_scan b cnt = -1" "t + cnt \<le> 8 * byte_length b"
  shows "\<not> free_run b t cnt"
proof -
  from assms(1,3) have "t < 8 * byte_length b" by simp
  with assms bitmap_scan_spec [OF assms(1), of b] show ?thesis by auto
qed

text \<open>The kernel's bitmap provides the interface, with \<open>8 * byte_length\<close> bits.\<close>

interpretation bm: bit_array bitmap_scan_test bitmap_set
  by unfold_locales simp

interpretation bm: bit_scanner bitmap_scan_test bitmap_set bitmap_scan "\<lambda>b. 8 * byte_length b"
proof unfold_locales
  fix b n s j
  assume n: "1 \<le> n" and s: "bitmap_scan b n = int s"
  note spec = bitmap_scan_spec [OF n, of b, unfolded s]
  show "s \<le> j \<Longrightarrow> j < s + n \<Longrightarrow> \<not> bitmap_scan_test b j"
    using spec by (auto simp: free_run_def)
  show "j < s \<Longrightarrow> \<exists>i. j \<le> i \<and> i < j + n \<and> bitmap_scan_test b i"
    using spec by (auto simp: free_run_def)
next
  fix b n t
  assume n: "1 \<le> n" and s: "bitmap_scan b n = -1"
  show "t + n \<le> 8 * byte_length b \<Longrightarrow> \<exists>j. t \<le> j \<and> j < t + n \<and> bitmap_scan_test b j"
    using bitmap_scan_none [OF n s, of t] by (auto simp: free_run_def)
next
  fix b n
  assume n: "1 \<le> (n :: nat)"
  show "bitmap_scan b n = -1 \<or> (\<exists>s. bitmap_scan b n = int s)"
    using bitmap_scan_spec [OF n, of b] by blast
qed

subsection \<open>Properties\<close>


definition example_bitmap :: bitmap where
  "example_bitmap = \<lparr>byte_length = 2, bits = (\<lambda>_. 0)(0 := 0xff, 1 := 0x05)\<rparr>"


text \<open>
  The search for a longer run reads one bit past the bitmap. When that bit of the memory behind
  the bitmap is clear, the last \<open>n\<close> bits of the bitmap are clear and no run of \<open>n + 1\<close> clear bits
  starts before them, a request for \<open>n + 1\<close> bits succeeds although the bitmap holds only \<open>n\<close>:
  the run returned leaves the bitmap.
\<close>

theorem bitmap_scan_overrun:
  assumes "1 \<le> n" "n \<le> 8 * byte_length b"
    and "free_run b (8 * byte_length b - n) (n + 1)"
    and "\<forall>t < 8 * byte_length b - n. \<not> free_run b t (n + 1)"
  shows "\<exists>s. bitmap_scan b (n + 1) = int s \<and> s + (n + 1) = 8 * byte_length b + 1"
proof -
  have spec: "bitmap_scan b (n + 1) = -1 \<and>
      (\<forall>t. t < 8 * byte_length b \<and> t + (n + 1) \<le> 8 * byte_length b + 1 \<longrightarrow> \<not> free_run b t (n + 1)) \<or>
    (\<exists>s. bitmap_scan b (n + 1) = int s \<and> free_run b s (n + 1) \<and> (\<forall>t < s. \<not> free_run b t (n + 1)))"
    using bitmap_scan_spec [of "n + 1" b] assms(1) by auto
  have last: "8 * byte_length b - n < 8 * byte_length b"
    "8 * byte_length b - n + (n + 1) \<le> 8 * byte_length b + 1"
    using assms(1,2) by auto
  with spec assms(3) obtain s where s: "bitmap_scan b (n + 1) = int s" "free_run b s (n + 1)"
    "\<forall>t < s. \<not> free_run b t (n + 1)" by blast
  with assms(3,4) have "s = 8 * byte_length b - n" by (meson linorder_neqE_nat)
  with s(1) assms(2) show ?thesis by (intro exI [of _ s]) auto
qed

definition example_empty :: bitmap where
  "example_empty = \<lparr>byte_length = 1, bits = (\<lambda>_. 0)\<rparr>"

theorem bitmap_scan_overrun_witness:
  "\<exists>s. bitmap_scan example_empty 9 = int s \<and> s + 9 = 8 * byte_length example_empty + 1"
  using bitmap_scan_overrun [of 8 example_empty]
  by (simp add: example_empty_def free_run_def scan_test_bit)

end
