(* ===== verification/FifoBuf.thy ===== *)
theory FifoBuf
  imports Prelude
begin

section \<open>The ring buffer behind pipes\<close>

text \<open>
  \<open>src/src/lib/fifobuf.c\<close> and the inline functions of \<open>src/src/include/xbook/fifobuf.h\<close>. The
  indices \<open>in\<close> and \<open>out\<close> run freely and wrap at \<open>2 ^ 32\<close>; only their low bits select a byte. The
  spin lock with interrupts off makes each operation one step on the single CPU, so it is not part
  of the state. \<open>kmalloc\<close> appears as the two outcomes of its calls.
\<close>

record fifo_buf =
  buffer :: mem
  size :: u32
  fin :: u32
  fout :: u32

definition fifo_buf_init :: "fifo_buf \<Rightarrow> mem \<Rightarrow> u32 \<Rightarrow> fifo_buf" where
  "fifo_buf_init fifo buf sz =
     (if \<not> is_power_of_2 sz then fifo
      else fifo\<lparr>buffer := buf, size := sz, fin := 0, fout := 0\<rparr>)"

text \<open>
  The outcome of \<open>fifo_buf_alloc\<close>: no return (the rounding loop runs forever), a failed assertion,
  \<open>NULL\<close>, or the new ring. \<open>buf\<close> and \<open>raw\<close> are what \<open>kmalloc\<close> returns for the data and for the
  structure (\<open>None\<close> for \<open>NULL\<close>).
\<close>

datatype 'a alloc_outcome = Diverges | AssertFails | AllocNull | Allocated 'a

definition fifo_buf_alloc :: "u32 \<Rightarrow> mem option \<Rightarrow> fifo_buf option \<Rightarrow> fifo_buf alloc_outcome" where
  "fifo_buf_alloc sz buf raw =
     (let alloc = (\<lambda>sz. case buf of None \<Rightarrow> AllocNull
            | Some b \<Rightarrow> (case raw of None \<Rightarrow> AllocNull | Some f \<Rightarrow> Allocated (fifo_buf_init f b sz)))
      in if \<not> is_power_of_2 sz
         then if \<not> sz < 0x80000000 then AssertFails
              else case roundup_pow_of_two sz of None \<Rightarrow> Diverges | Some sz' \<Rightarrow> alloc sz'
         else alloc sz)"

definition fifo_buf_put_raw :: "fifo_buf \<Rightarrow> mem \<Rightarrow> u32 \<Rightarrow> u32 \<times> fifo_buf" where
  "fifo_buf_put_raw fifo data len0 =
     (let len = min len0 (size fifo - fin fifo + fout fifo);
          off = fin fifo AND (size fifo - 1);
          l = min len (size fifo - off);
          b1 = memcpy (buffer fifo) (unat off) data 0 (unat l);
          b2 = memcpy b1 0 data (unat l) (unat (len - l))
      in (len, fifo\<lparr>buffer := b2, fin := fin fifo + len\<rparr>))"

text \<open>\<open>__fifo_buf_get\<close>: the length, the caller's buffer afterwards and the ring.\<close>

definition fifo_buf_get_raw :: "fifo_buf \<Rightarrow> mem \<Rightarrow> u32 \<Rightarrow> u32 \<times> mem \<times> fifo_buf" where
  "fifo_buf_get_raw fifo dst len0 =
     (let len = min len0 (fin fifo - fout fifo);
          off = fout fifo AND (size fifo - 1);
          l = min len (size fifo - off);
          d1 = memcpy dst 0 (buffer fifo) (unat off) (unat l);
          d2 = memcpy d1 (unat l) (buffer fifo) 0 (unat (len - l))
      in (len, d2, fifo\<lparr>fout := fout fifo + len\<rparr>))"

definition fifo_buf_put :: "fifo_buf \<Rightarrow> mem \<Rightarrow> u32 \<Rightarrow> u32 \<times> fifo_buf" where
  "fifo_buf_put fifo data len = fifo_buf_put_raw fifo data len"

definition fifo_buf_get :: "fifo_buf \<Rightarrow> mem \<Rightarrow> u32 \<Rightarrow> u32 \<times> mem \<times> fifo_buf" where
  "fifo_buf_get fifo dst len =
     (case fifo_buf_get_raw fifo dst len of (ret, d, f) \<Rightarrow>
        (ret, d, if fin f = fout f then f\<lparr>fin := 0, fout := 0\<rparr> else f))"

definition fifo_buf_reset :: "fifo_buf \<Rightarrow> fifo_buf" where
  "fifo_buf_reset fifo = fifo\<lparr>fin := 0, fout := 0\<rparr>"

definition fifo_buf_len :: "fifo_buf \<Rightarrow> u32" where
  "fifo_buf_len fifo = fin fifo - fout fifo"

definition fifo_buf_avali :: "fifo_buf \<Rightarrow> u32" where
  "fifo_buf_avali fifo = size fifo - (fin fifo - fout fifo)"

subsection \<open>The contract of a byte queue\<close>

text \<open>
  What \<open>pipe.c\<close> and \<open>fifo.c\<close> rely on: a bounded first-in first-out queue of bytes. \<open>contents\<close> is
  the queue's abstract value, \<open>capacity\<close> its bound.
\<close>

text \<open>A run of writes and reads: the bytes accepted, the bytes delivered and the queue left.\<close>

fun queue_run :: "('q \<Rightarrow> mem \<Rightarrow> u32 \<Rightarrow> u32 \<times> 'q) \<Rightarrow> ('q \<Rightarrow> mem \<Rightarrow> u32 \<Rightarrow> u32 \<times> mem \<times> 'q) \<Rightarrow>
    'q \<Rightarrow> (mem \<times> u32 + u32) list \<Rightarrow> u8 list \<times> u8 list \<times> 'q" where
  "queue_run put get q [] = ([], [], q)"
| "queue_run put get q (Inl (d, n) # ops) =
     (case put q d n of (k, q') \<Rightarrow>
        case queue_run put get q' ops of (i, out, q'') \<Rightarrow> (bytes d (unat k) @ i, out, q''))"
| "queue_run put get q (Inr n # ops) =
     (case get q (\<lambda>_. 0) n of (k, d, q') \<Rightarrow>
        case queue_run put get q' ops of (i, out, q'') \<Rightarrow> (i, bytes d (unat k) @ out, q''))"

locale byte_queue =
  fixes put :: "'q \<Rightarrow> mem \<Rightarrow> u32 \<Rightarrow> u32 \<times> 'q"
    and get :: "'q \<Rightarrow> mem \<Rightarrow> u32 \<Rightarrow> u32 \<times> mem \<times> 'q"
    and len :: "'q \<Rightarrow> u32"
    and avail :: "'q \<Rightarrow> u32"
    and contents :: "'q \<Rightarrow> u8 list"
    and capacity :: "'q \<Rightarrow> nat"
    and invar :: "'q \<Rightarrow> bool"
  assumes put_spec: "invar q \<Longrightarrow> put q d n = (k, q') \<Longrightarrow>
      unat k = min (unat n) (capacity q - length (contents q)) \<and>
      contents q' = contents q @ bytes d (unat k) \<and> capacity q' = capacity q \<and> invar q'"
    and get_spec: "invar q \<Longrightarrow> get q d n = (k, d', q') \<Longrightarrow>
      unat k = min (unat n) (length (contents q)) \<and> bytes d' (unat k) = take (unat k) (contents q) \<and>
      (\<forall>i. unat k \<le> i \<longrightarrow> d' i = d i) \<and>
      contents q' = drop (unat k) (contents q) \<and> capacity q' = capacity q \<and> invar q'"
    and len_spec: "invar q \<Longrightarrow> unat (len q) = length (contents q)"
    and avail_spec: "invar q \<Longrightarrow> unat (avail q) = capacity q - length (contents q)"
    and bound: "invar q \<Longrightarrow> length (contents q) \<le> capacity q"
begin

text \<open>Whatever the order of writes and reads, nothing is lost, duplicated or reordered.\<close>

lemma stream_fifo:
  "invar q \<Longrightarrow> queue_run put get q ops = (i, out, q') \<Longrightarrow> contents q @ i = out @ contents q' \<and> invar q'"
proof (induction ops arbitrary: q i out q')
  case Nil
  then show ?case by simp
next
  case (Cons op ops)
  show ?case
  proof (cases op)
    case (Inl dn)
    obtain d n where dn: "dn = (d, n)" by (cases dn)
    obtain k q1 where put: "put q d n = (k, q1)" by (cases "put q d n")
    obtain i1 o1 q2 where rest: "queue_run put get q1 ops = (i1, o1, q2)"
      by (cases "queue_run put get q1 ops") auto
    from put_spec [OF Cons.prems(1) put] have q1: "contents q1 = contents q @ bytes d (unat k)" "invar q1"
      by auto
    from Cons.IH [OF q1(2) rest] q1 Cons.prems(2) put rest show ?thesis by (auto simp: Inl dn)
  next
    case (Inr n)
    obtain k d q1 where get: "get q (\<lambda>_. 0) n = (k, d, q1)" by (cases "get q (\<lambda>_. 0) n") auto
    obtain i1 o1 q2 where rest: "queue_run put get q1 ops = (i1, o1, q2)"
      by (cases "queue_run put get q1 ops") auto
    from get_spec [OF Cons.prems(1) get]
    have q1: "contents q = bytes d (unat k) @ contents q1" "invar q1" by auto
    from Cons.IH [OF q1(2) rest] q1 Cons.prems(2) get rest show ?thesis by (auto simp: Inr)
  qed
qed

end

subsection \<open>The ring implements the contract\<close>

definition fifo_wf :: "fifo_buf \<Rightarrow> bool" where
  "fifo_wf f \<longleftrightarrow> (\<exists>k < 32. size f = 2 ^ k) \<and> fin f - fout f \<le> size f"

definition fifo_list :: "fifo_buf \<Rightarrow> u8 list" where
  "fifo_list f = map (\<lambda>i. buffer f ((unat (fout f) + i) mod unat (size f))) [0..<unat (fin f - fout f)]"

lemma unat_2_power: "k < 32 \<Longrightarrow> unat (2 ^ k :: u32) = 2 ^ k"
proof -
  assume "k < 32"
  then have "(2 :: nat) ^ k < 2 ^ 32" by (intro power_strict_increasing) auto
  then have "take_bit 32 ((2 :: nat) ^ k) = 2 ^ k" by (rule take_bit_nat_eq_self)
  then have "unat (of_nat (2 ^ k) :: u32) = 2 ^ k"
    by (simp add: unsigned_of_nat del: of_nat_power)
  then show ?thesis by simp
qed

lemma unat_and_size:
  assumes "k < 32"
  shows "unat (x AND (2 ^ k - 1) :: u32) = unat x mod 2 ^ k"
proof -
  have "x AND (2 ^ k - 1) = take_bit k x"
    by (simp add: take_bit_eq_mask mask_eq_exp_minus_1)
  then show ?thesis by (simp only: unsigned_take_bit_eq) (simp add: take_bit_eq_mod)
qed

lemma index_mod:
  assumes "k < 32"
  shows "unat (x :: u32) mod 2 ^ k = (unat y + unat (x - y)) mod 2 ^ k"
proof -
  have "unat x = unat (y + (x - y))" by simp
  also have "\<dots> = (unat y + unat (x - y)) mod 2 ^ 32" by (simp only: unat_word_ariths) simp
  finally have eq: "unat x = (unat y + unat (x - y)) mod 2 ^ 32" .
  have "(2 :: nat) ^ k dvd 2 ^ 32" using assms by (intro le_imp_power_dvd) simp
  then show ?thesis by (subst eq) (rule mod_mod_cancel)
qed

lemma ring_write:
  assumes "off < S" "n \<le> S" "j < S" and l: "l = min n (S - off)"
  shows "memcpy (memcpy b off d 0 l) 0 d l (n - l) ((off + j) mod S) =
    (if j < n then d j else b ((off + j) mod S))"
proof (cases "off + j < S")
  case True
  then show ?thesis using assms by (auto simp: memcpy_def mod_add_left_diff_nat min_def)
next
  case False
  then have p: "(off + j) mod S = off + j - S" using assms by (simp add: mod_add_left_diff_nat)
  show ?thesis
  proof (cases "n \<le> S - off")
    case True
    with False p l assms(1-3) show ?thesis by (auto simp: memcpy_def)
  next
    case wrap: False
    then have "l = S - off" using l by simp
    moreover have "l + (off + j - S) = j" using False assms(1) \<open>l = S - off\<close> by simp
    ultimately show ?thesis using False p wrap assms(1-3) by (auto simp: memcpy_def)
  qed
qed

lemma ring_read:
  assumes "off < S" "n \<le> S" "i < n" and l: "l = min n (S - off)"
  shows "memcpy (memcpy dst 0 b off l) l b 0 (n - l) i = b ((off + i) mod S)"
  using assms by (auto simp: memcpy_def mod_add_left_diff_nat min_def Nat.diff_diff_right add.commute)

lemma length_fifo_list [simp]: "length (fifo_list f) = unat (fin f - fout f)"
  by (simp add: fifo_list_def)

lemma unat_min: "unat (min a b :: u32) = min (unat a) (unat b)"
  by (simp add: min_def word_le_nat_alt)

lemma fifo_put_spec:
  assumes wf: "fifo_wf f" and put: "fifo_buf_put f d n = (k, f')"
  shows "unat k = min (unat n) (unat (size f) - length (fifo_list f))"
    and "fifo_list f' = fifo_list f @ bytes d (unat k)" and "size f' = size f" and "fifo_wf f'"
proof -
  obtain e where e: "e < 32" "size f = 2 ^ e" using wf by (auto simp: fifo_wf_def)
  define S where "S = unat (size f)"
  have S: "S = 2 ^ e" using e by (simp add: S_def unat_2_power)
  define N where "N = unat (fin f - fout f)"
  have N: "N \<le> S" using wf by (simp add: fifo_wf_def N_def S_def word_le_nat_alt)
  define off where "off = unat (fin f AND (size f - 1))"
  have off: "off < S" "off = (unat (fout f) + N) mod S"
    using index_mod [OF e(1), of "fin f" "fout f"]
    by (simp_all add: off_def e(2) unat_and_size [OF e(1)] S N_def)
  have space: "unat (size f - fin f + fout f) = S - N"
  proof -
    have "size f - fin f + fout f = size f - (fin f - fout f)" by simp
    then show ?thesis using wf by (simp only: fifo_wf_def unat_sub S_def N_def)
  qed
  have k: "k = min n (size f - fin f + fout f)"
    using put by (simp add: fifo_buf_put_def fifo_buf_put_raw_def Let_def)
  then show ku: "unat k = min (unat n) (unat (size f) - length (fifo_list f))"
    by (simp only: unat_min space length_fifo_list S_def [symmetric] N_def [symmetric])
  then have kS: "N + unat k \<le> S" using N by (simp add: S_def [symmetric] N_def [symmetric])
  define l where "l = min (unat k) (S - off)"
  have "fin f AND (size f - 1) \<le> size f" using off(1) by (simp add: word_le_nat_alt off_def S_def)
  then have lw: "unat (min k (size f - (fin f AND (size f - 1)))) = l"
    by (simp only: unat_min unat_sub l_def off_def S_def)
  moreover have "unat (k - min k (size f - (fin f AND (size f - 1)))) = unat k - l"
    using lw by (subst unat_sub) (auto simp: l_def)
  ultimately have f': "f' = f\<lparr>buffer := memcpy (memcpy (buffer f) off d 0 l) 0 d l (unat k - l), fin := fin f + k\<rparr>"
    using put by (simp add: fifo_buf_put_def fifo_buf_put_raw_def Let_def off_def k)
  then show "size f' = size f" by simp
  have fill: "unat (fin f' - fout f') = N + unat k"
  proof -
    have "fin f' - fout f' = (fin f - fout f) + k" by (simp add: f')
    moreover have "N + unat k < 2 ^ 32"
      using kS S e(1) by (metis le_less_trans power_strict_increasing_iff one_less_numeral_iff semiring_norm(76))
    ultimately show ?thesis by (simp add: unat_word_ariths N_def del: unat_sub_if_size)
  qed
  then show "fifo_wf f'"
    using kS e by (auto simp: fifo_wf_def f' word_le_nat_alt S_def)
  have old: "(unat (fout f) + i) mod S = (off + (i + S - N)) mod S" if "i < N" for i
  proof -
    have "unat (fout f) + N + (i + S - N) = unat (fout f) + i + S" using that N by simp
    then show ?thesis unfolding off(2) mod_add_left_eq by (simp only: mod_add_self2)
  qed
  have new: "(unat (fout f) + i) mod S = (off + (i - N)) mod S" if "N \<le> i" for i
    unfolding off(2) mod_add_left_eq using that by simp
  note ring = ring_write [OF off(1) _ _ l_def, of _ "buffer f" d]
  show "fifo_list f' = fifo_list f @ bytes d (unat k)"
  proof (rule nth_equalityI)
    show "length (fifo_list f') = length (fifo_list f @ bytes d (unat k))"
      by (simp only: length_fifo_list fill length_append length_bytes N_def)
  next
    fix i
    assume "i < length (fifo_list f')"
    then have i: "i < N + unat k" by (simp only: length_fifo_list fill)
    then have "fifo_list f' ! i = buffer f' ((unat (fout f) + i) mod S)"
      unfolding fifo_list_def fill by (simp add: f' S_def)
    also have "\<dots> = (fifo_list f @ bytes d (unat k)) ! i"
    proof (cases "i < N")
      case True
      then have "i + S - N < S" "\<not> i + S - N < unat k" using N kS by auto
      with ring [of "i + S - N"] True kS old [OF True] show ?thesis
        by (simp add: f' nth_append N_def [symmetric]) (simp add: fifo_list_def N_def S_def old)
    next
      case False
      then have "i - N < S" "i - N < unat k" using i kS by auto
      with ring [of "i - N"] False kS new [of i] show ?thesis
        by (simp add: f' nth_append N_def [symmetric])
    qed
    finally show "fifo_list f' ! i = (fifo_list f @ bytes d (unat k)) ! i" .
  qed
qed

lemma fifo_get_raw_spec:
  assumes wf: "fifo_wf f" and get: "fifo_buf_get_raw f d n = (k, d', f')"
  shows "unat k = min (unat n) (length (fifo_list f))"
    and "bytes d' (unat k) = take (unat k) (fifo_list f)"
    and "\<forall>i. unat k \<le> i \<longrightarrow> d' i = d i"
    and "fifo_list f' = drop (unat k) (fifo_list f)" and "size f' = size f" and "fifo_wf f'"
proof -
  obtain e where e: "e < 32" "size f = 2 ^ e" using wf by (auto simp: fifo_wf_def)
  define S where "S = unat (size f)"
  have S: "S = 2 ^ e" using e by (simp add: S_def unat_2_power)
  define N where "N = unat (fin f - fout f)"
  have N: "N \<le> S" using wf by (simp add: fifo_wf_def N_def S_def word_le_nat_alt)
  define off where "off = unat (fout f AND (size f - 1))"
  have off: "off < S" "off = unat (fout f) mod S"
    by (simp_all add: off_def e(2) unat_and_size [OF e(1)] S)
  have k: "k = min n (fin f - fout f)"
    using get by (simp add: fifo_buf_get_raw_def Let_def)
  then show ku: "unat k = min (unat n) (length (fifo_list f))"
    by (simp only: unat_min length_fifo_list)
  then have kN: "unat k \<le> N" by (simp add: N_def)
  define l where "l = min (unat k) (S - off)"
  have "fout f AND (size f - 1) \<le> size f" using off(1) by (simp add: word_le_nat_alt off_def S_def)
  then have lw: "unat (min k (size f - (fout f AND (size f - 1)))) = l"
    by (simp only: unat_min unat_sub l_def off_def S_def)
  moreover have "unat (k - min k (size f - (fout f AND (size f - 1)))) = unat k - l"
    using lw by (subst unat_sub) (auto simp: l_def)
  ultimately have res: "d' = memcpy (memcpy d 0 (buffer f) off l) l (buffer f) 0 (unat k - l)"
    "f' = f\<lparr>fout := fout f + k\<rparr>"
    using get by (auto simp: fifo_buf_get_raw_def Let_def off_def k)
  then show "size f' = size f" by simp
  show "bytes d' (unat k) = take (unat k) (fifo_list f)"
  proof (rule bytes_eqI)
    fix i assume i: "i < unat k"
    have "d' i = buffer f ((off + i) mod S)"
      unfolding res by (rule ring_read [OF off(1) _ i l_def]) (use kN N in simp)
    also have "\<dots> = take (unat k) (fifo_list f) ! i"
      using i kN by (simp add: fifo_list_def off(2) mod_add_left_eq S_def N_def)
    finally show "d' i = take (unat k) (fifo_list f) ! i" .
  qed (use kN in \<open>simp add: N_def\<close>)
  show "\<forall>i. unat k \<le> i \<longrightarrow> d' i = d i"
    unfolding res by (auto simp: memcpy_def l_def)
  have "k \<le> fin f - fout f" using kN by (simp add: word_le_nat_alt N_def)
  then have "unat (fin f - fout f - k) = N - unat k" by (simp only: unat_sub N_def)
  then have fill: "unat (fin f' - fout f') = N - unat k" by (simp add: res diff_diff_eq)
  show "fifo_list f' = drop (unat k) (fifo_list f)"
  proof (rule nth_equalityI)
    show "length (fifo_list f') = length (drop (unat k) (fifo_list f))"
      by (simp only: length_fifo_list fill length_drop N_def)
  next
    fix i assume "i < length (fifo_list f')"
    then have i: "i < N - unat k" by (simp only: length_fifo_list fill)
    have sum: "unat (fout f + k) mod S = (unat (fout f) + unat k) mod S"
      using index_mod [OF e(1), of "fout f + k" "fout f"] S by simp
    have "fifo_list f' ! i = buffer f ((unat (fout f + k) + i) mod S)"
      unfolding fifo_list_def fill using i by (simp add: res S_def)
    also have "(unat (fout f + k) + i) mod S = (unat (fout f) + (unat k + i)) mod S"
      by (metis sum mod_add_left_eq add.assoc)
    also have "buffer f \<dots> = fifo_list f ! (unat k + i)"
      unfolding fifo_list_def using i by (subst nth_map) (simp_all add: S_def N_def)
    finally show "fifo_list f' ! i = drop (unat k) (fifo_list f) ! i"
      using kN by (simp add: N_def)
  qed
  show "fifo_wf f'"
    using fill N e by (auto simp: fifo_wf_def res word_le_nat_alt S_def)
qed

lemma fifo_get_spec:
  assumes wf: "fifo_wf f" and get: "fifo_buf_get f d n = (k, d', f')"
  shows "unat k = min (unat n) (length (fifo_list f))"
    and "bytes d' (unat k) = take (unat k) (fifo_list f)"
    and "\<forall>i. unat k \<le> i \<longrightarrow> d' i = d i"
    and "fifo_list f' = drop (unat k) (fifo_list f)" and "size f' = size f" and "fifo_wf f'"
proof -
  obtain f1 where raw: "fifo_buf_get_raw f d n = (k, d', f1)"
    and f': "f' = (if fin f1 = fout f1 then f1\<lparr>fin := 0, fout := 0\<rparr> else f1)"
    using get by (auto simp: fifo_buf_get_def split: prod.splits)
  note spec = fifo_get_raw_spec [OF wf raw]
  show "unat k = min (unat n) (length (fifo_list f))" "bytes d' (unat k) = take (unat k) (fifo_list f)"
    "\<forall>i. unat k \<le> i \<longrightarrow> d' i = d i"
    by (fact spec)+
  show "fifo_list f' = drop (unat k) (fifo_list f)"
    using spec(4) by (auto simp: f' fifo_list_def)
  show "size f' = size f" "fifo_wf f'"
    using spec(5,6) by (auto simp: f' fifo_wf_def)
qed

lemma fifo_len_spec: "unat (fifo_buf_len f) = length (fifo_list f)"
  by (simp only: fifo_buf_len_def length_fifo_list)

lemma fifo_avail_spec:
  "fifo_wf f \<Longrightarrow> unat (fifo_buf_avali f) = unat (size f) - length (fifo_list f)"
  by (simp only: fifo_buf_avali_def fifo_wf_def length_fifo_list unat_sub)

lemma fifo_bound: "fifo_wf f \<Longrightarrow> length (fifo_list f) \<le> unat (size f)"
  by (simp only: fifo_wf_def length_fifo_list word_le_nat_alt)

interpretation fb: byte_queue fifo_buf_put fifo_buf_get fifo_buf_len fifo_buf_avali
    fifo_list "\<lambda>f. unat (size f)" fifo_wf
proof unfold_locales
  fix q d n k q'
  assume "fifo_wf q" and "fifo_buf_put q d n = (k, q')"
  note spec = fifo_put_spec [OF this]
  show "unat k = min (unat n) (unat (size q) - length (fifo_list q)) \<and>
      fifo_list q' = fifo_list q @ bytes d (unat k) \<and> unat (size q') = unat (size q) \<and> fifo_wf q'"
    by (intro conjI spec arg_cong [where f = unat])
next
  fix q d n k d' q'
  assume "fifo_wf q" and "fifo_buf_get q d n = (k, d', q')"
  note spec = fifo_get_spec [OF this]
  show "unat k = min (unat n) (length (fifo_list q)) \<and> bytes d' (unat k) = take (unat k) (fifo_list q) \<and>
      (\<forall>i. unat k \<le> i \<longrightarrow> d' i = d i) \<and>
      fifo_list q' = drop (unat k) (fifo_list q) \<and> unat (size q') = unat (size q) \<and> fifo_wf q'"
    by (intro conjI spec arg_cong [where f = unat])
qed (rule fifo_len_spec fifo_avail_spec fifo_bound; assumption)+

lemma is_power_of_2_exp:
  assumes "is_power_of_2 n"
  shows "\<exists>k < 32. n = 2 ^ k"
proof -
  have n: "n \<noteq> 0" "n AND (n - 1) = 0" using assms by (auto simp: is_power_of_2_def)
  then have "1 \<le> unat n" by (simp add: Suc_le_eq unat_gt_0)
  then obtain k where k: "2 ^ k \<le> unat n" "unat n < 2 ^ Suc k"
    using ex_power_ivl1 [of 2 "unat n"] by auto
  have "(2 :: nat) ^ k < 2 ^ 32" using k(1) unsigned_less [where ?'a = nat, of n] by simp
  then have k32: "k < 32" by (simp only: power_strict_increasing_iff one_less_numeral_iff semiring_norm)
  have "unat n = 2 ^ k"
  proof (rule ccontr)
    assume "unat n \<noteq> 2 ^ k"
    with k n(1) have "2 ^ k \<le> unat (n - 1)" "unat (n - 1) < 2 ^ Suc k" by (auto simp: unat_minus_one)
    then have "unat (n - 1) div 2 ^ k = 1" "unat n div 2 ^ k = 1"
      using k by (auto intro!: div_nat_eqI)
    then have "bit (unat n) k" "bit (unat (n - 1)) k" by (auto simp: bit_iff_odd)
    then have "bit (n AND (n - 1)) k" by (simp add: bit_and_iff bit_unsigned_iff)
    with n(2) show False by simp
  qed
  then have "n = 2 ^ k" using k32 by (simp only: word_unat_eq_iff unat_2_power)
  with k32 show ?thesis by auto
qed

lemma fifo_init_wf:
  assumes "is_power_of_2 sz"
  shows "fifo_wf (fifo_buf_init f b sz)" "fifo_list (fifo_buf_init f b sz) = []"
    "size (fifo_buf_init f b sz) = sz"
  using assms is_power_of_2_exp [OF assms] by (auto simp: fifo_buf_init_def fifo_wf_def fifo_list_def)

lemma exp_is_power_of_2: "k < 32 \<Longrightarrow> is_power_of_2 (2 ^ k)"
proof -
  assume k: "k < 32"
  have "unat (2 ^ k AND (2 ^ k - 1) :: u32) = 0"
    by (simp only: unat_and_size [OF k] unat_2_power [OF k] mod_self)
  moreover have "(2 :: u32) ^ k \<noteq> 0" using unat_2_power [OF k] by (metis power_not_zero unat_0 zero_neq_numeral)
  ultimately show ?thesis by (simp add: is_power_of_2_def unat_eq_0)
qed

subsection \<open>Properties\<close>

text \<open>
  C2. The ring is a lossless byte queue: from any well-formed ring, whatever the order and sizes of
  the writes and reads, the bytes that were in the ring followed by the bytes accepted are exactly
  the bytes delivered followed by the bytes still in the ring. The free-running indices may wrap
  at \<open>2 ^ 32\<close> any number of times.
\<close>

theorem fifo_buf_stream:
  assumes "fifo_wf f" "queue_run fifo_buf_put fifo_buf_get f ops = (accepted, delivered, f')"
  shows "fifo_list f @ accepted = delivered @ fifo_list f' \<and> fifo_wf f'"
  using fb.stream_fifo [OF assms] .

definition example_fifo :: fifo_buf where
  "example_fifo = \<lparr>buffer = (\<lambda>_. 0)(3 := 7), size = 4, fin = 0, fout = 0xffffffff\<rparr>"

lemma example_fifo_wf: "fifo_wf example_fifo"
  by (auto simp: example_fifo_def fifo_wf_def intro: exI [of _ 2])

theorem fifo_buf_stream_witness:
  "\<exists>acc del f'. queue_run fifo_buf_put fifo_buf_get example_fifo [Inl (\<lambda>i. of_nat i, 9), Inr 3] = (acc, del, f') \<and>
     [7] @ acc = del @ fifo_list f'"
proof -
  obtain acc del f' where run: "queue_run fifo_buf_put fifo_buf_get example_fifo
      [Inl (\<lambda>i. of_nat i, 9), Inr 3] = (acc, del, f')"
    by (cases "queue_run fifo_buf_put fifo_buf_get example_fifo [Inl (\<lambda>i. of_nat i, 9), Inr 3]") auto
  have "fifo_list example_fifo = [7]" by (simp add: fifo_list_def example_fifo_def)
  with fifo_buf_stream [OF example_fifo_wf run] run show ?thesis by auto
qed

text \<open>
  \<open>fifo_buf_alloc\<close> with memory available returns, for a size from 1 up to \<open>2 ^ 31\<close>, an empty
  well-formed ring whose size is the least power of two not below the request.
\<close>

theorem fifo_buf_alloc_size:
  assumes "1 \<le> unat sz" "unat sz \<le> 2 ^ 31"
  shows "\<exists>f k. fifo_buf_alloc sz (Some b) (Some f0) = Allocated f \<and> fifo_wf f \<and> fifo_list f = [] \<and>
    unat (size f) = 2 ^ k \<and> unat sz \<le> 2 ^ k \<and> (0 < k \<longrightarrow> 2 ^ (k - 1) < unat sz)"
proof (cases "is_power_of_2 sz")
  case True
  then obtain k where k: "k < 32" "sz = 2 ^ k" using is_power_of_2_exp by blast
  then have "unat sz = 2 ^ k" by (simp add: unat_2_power)
  with True show ?thesis
    by (intro exI [of _ "fifo_buf_init f0 b sz"] exI [of _ k])
      (auto simp: fifo_buf_alloc_def Let_def fifo_init_wf intro!: power_strict_increasing)
next
  case False
  obtain p where p: "p \<le> 31" "roundup_pow_of_two sz = Some (push_bit p 1)" "unat sz \<le> 2 ^ p"
    "0 < p \<longrightarrow> 2 ^ (p - 1) < unat sz"
    using roundup_pow_of_two_spec [OF assms(1,2)] by blast
  have "sz \<noteq> 0x80000000" using False exp_is_power_of_2 [of 31] by auto
  then have "unat sz \<noteq> unat (0x80000000 :: u32)" by (simp only: word_unat_eq_iff not_False_eq_True)
  then have sz: "sz < 0x80000000"
    using assms(2) by (simp add: word_less_nat_alt)
  have pow: "is_power_of_2 (2 ^ p)" "unat (2 ^ p :: u32) = 2 ^ p"
    using p(1) by (auto intro: exp_is_power_of_2 unat_2_power)
  with False sz p show ?thesis
    by (intro exI [of _ "fifo_buf_init f0 b (2 ^ p)"] exI [of _ p])
      (auto simp: fifo_buf_alloc_def Let_def fifo_init_wf push_bit_of_1)
qed

theorem fifo_buf_alloc_size_witness:
  "\<exists>f k. fifo_buf_alloc 100 (Some (\<lambda>_. 0)) (Some example_fifo) = Allocated f \<and> fifo_wf f \<and>
    unat (size f) = 2 ^ k \<and> 100 \<le> (2 :: nat) ^ k \<and> (0 < k \<longrightarrow> 2 ^ (k - 1) < (100 :: nat))"
  using fifo_buf_alloc_size [of 100 "\<lambda>_. 0" example_fifo] by auto

text \<open>
  \<open>fifo_buf_alloc (0)\<close> never returns: 0 is no power of two, it passes the assertion, and
  \<open>roundup_pow_of_two\<close> calls \<open>fls\<close> on -1, whose arithmetic right shift never becomes 0.
\<close>

theorem fifo_buf_alloc_zero: "fifo_buf_alloc 0 buf raw = Diverges"
proof -
  have "sint (0 - 1 :: u32) = -1" by simp
  then have "fls (sint (0 - 1 :: u32)) = None" by (simp only: fls_def) (simp add: fls_loop_minus_1)
  then have "roundup_pow_of_two 0 = None" by (simp only: roundup_pow_of_two_def option.map)
  then show ?thesis by (simp add: fifo_buf_alloc_def is_power_of_2_def)
qed

end
