(* ===== verification/Sched.thy ===== *)
theory Sched
  imports Prelude
begin

section \<open>The scheduler\<close>

text \<open>
  \<open>src/src/task/schedule.c\<close>, \<open>src/src/include/xbook/schedule.h\<close>, the state changes of
  \<open>src/src/task/task.c\<close> (\<open>task_init\<close>, \<open>kthread_start\<close>, \<open>task_block\<close>, \<open>task_unblock\<close>, \<open>task_yeild\<close>)
  and the timer tick of \<open>src/src/kernel/clock.c\<close>. There is one scheduling unit, as \<open>CPU_NR\<close> is 1 on
  the i386. Tasks are numbered; \<open>tasks\<close> is the memory that holds their structures, of which the
  fields the scheduler uses are kept. A ready queue is its list of tasks together with the separate
  \<open>length\<close> counter of the code. All operations run with interrupts off, so each is one step;
  \<open>switch_to\<close> is the change of \<open>cur\<close>. \<open>None\<close> stands for a failed \<open>ASSERT\<close>, a \<open>panic\<close>, or an access
  outside \<open>priority_queue[4]\<close>.
\<close>

datatype task_state = TASK_READY | TASK_RUNNING | TASK_BLOCKED | TASK_WAITING | TASK_STOPPED
  | TASK_HANGING | TASK_ZOMBIE

record task =
  state :: task_state
  priority :: nat
  static_priority :: nat
  ticks :: nat
  timeslice :: nat
  elapsed_ticks :: nat

record sched =
  tasks :: "tid \<Rightarrow> task"
  queue :: "nat \<Rightarrow> tid list"
  qlength :: "nat \<Rightarrow> nat"
  su_tasknr :: u32
  total_tasknr :: u32
  dynamic_priority :: nat
  cur :: tid

definition MAX_PRIORITY_NR :: nat where
  "MAX_PRIORITY_NR = 4"

definition upd_task :: "tid \<Rightarrow> (task \<Rightarrow> task) \<Rightarrow> sched \<Rightarrow> sched" where
  "upd_task t f s = s\<lparr>tasks := (tasks s)(t := f (tasks s t))\<rparr>"

definition init_sched_unit :: "sched \<Rightarrow> sched" where
  "init_sched_unit s = s\<lparr>su_tasknr := 0, dynamic_priority := 0,
     queue := (\<lambda>p. if p < MAX_PRIORITY_NR then [] else queue s p),
     qlength := (\<lambda>p. if p < MAX_PRIORITY_NR then 0 else qlength s p)\<rparr>"

definition is_task_in_priority_queue :: "sched \<Rightarrow> tid \<Rightarrow> bool" where
  "is_task_in_priority_queue s t \<longleftrightarrow> t \<in> set (queue s (dynamic_priority s))"

definition task_priority_queue_add_tail :: "sched \<Rightarrow> tid \<Rightarrow> sched option" where
  "task_priority_queue_add_tail s t =
     (let p = priority (tasks s t)
      in if \<not> p < MAX_PRIORITY_NR \<or> t \<in> set (queue s p) then None
         else let s = s\<lparr>queue := (queue s)(p := queue s p @ [t]),
                        qlength := (qlength s)(p := qlength s p + 1),
                        su_tasknr := su_tasknr s + 1, total_tasknr := total_tasknr s + 1\<rparr>
              in Some (if p < dynamic_priority s then s\<lparr>dynamic_priority := p\<rparr> else s))"

text \<open>The code of \<open>task_priority_queue_add_head\<close> calls \<open>list_add_tail\<close>, too.\<close>

definition task_priority_queue_add_head :: "sched \<Rightarrow> tid \<Rightarrow> sched option" where
  "task_priority_queue_add_head s t =
     (let p = priority (tasks s t)
      in if \<not> p < MAX_PRIORITY_NR \<or> t \<in> set (queue s p) then None
         else let s = s\<lparr>queue := (queue s)(p := queue s p @ [t]),
                        qlength := (qlength s)(p := qlength s p + 1),
                        su_tasknr := su_tasknr s + 1, total_tasknr := total_tasknr s + 1\<rparr>
              in Some (if p < dynamic_priority s then s\<lparr>dynamic_priority := p\<rparr> else s))"

text \<open>The loop of \<open>task_priority_queue_fetch_first\<close>, which has no bound of its own.\<close>

function find_priority :: "(nat \<Rightarrow> nat) \<Rightarrow> nat \<Rightarrow> nat option" where
  "find_priority len p =
     (if \<not> p < MAX_PRIORITY_NR then None else if len p = 0 then find_priority len (p + 1) else Some p)"
  by pat_completeness auto
termination by (relation "measure (\<lambda>(len, p). MAX_PRIORITY_NR - p)") auto

declare find_priority.simps [simp del]

definition task_priority_queue_fetch_first :: "sched \<Rightarrow> (tid \<times> sched) option" where
  "task_priority_queue_fetch_first s =
     (case find_priority (qlength s) (dynamic_priority s) of
        None \<Rightarrow> None
      | Some p \<Rightarrow> (case queue s p of [] \<Rightarrow> None
          | t # ts \<Rightarrow> Some (t, s\<lparr>dynamic_priority := p, queue := (queue s)(p := ts),
              qlength := (qlength s)(p := qlength s p - 1), su_tasknr := su_tasknr s - 1\<rparr>)))"

definition age :: "task \<Rightarrow> task" where
  "age t = t\<lparr>priority := (if priority t + 1 \<ge> MAX_PRIORITY_NR then static_priority t else priority t + 1)\<rparr>"

definition get_next_task :: "sched \<Rightarrow> (tid \<times> sched) option" where
  "get_next_task s =
     (let t = cur s
      in if state (tasks s t) = TASK_RUNNING
         then case task_priority_queue_add_tail (upd_task t age s) t of None \<Rightarrow> None
              | Some s \<Rightarrow> task_priority_queue_fetch_first
                  (upd_task t (\<lambda>k. k\<lparr>ticks := timeslice k, state := TASK_READY\<rparr>) s)
         else if state (tasks s t) = TASK_READY
         then case task_priority_queue_add_tail (upd_task t age s) t of None \<Rightarrow> None
              | Some s \<Rightarrow> task_priority_queue_fetch_first s
         else task_priority_queue_fetch_first s)"

text \<open>\<open>set_next_task\<close> and \<open>task_activate\<close>; \<open>vmm_active\<close> loads the page directory of the task.\<close>

definition task_activate :: "sched \<Rightarrow> tid \<Rightarrow> sched" where
  "task_activate s t = upd_task t (\<lambda>k. k\<lparr>state := TASK_RUNNING\<rparr>) s"

definition set_next_task :: "sched \<Rightarrow> tid \<Rightarrow> sched" where
  "set_next_task s t = task_activate (s\<lparr>cur := t\<rparr>) t"

definition schedule :: "sched \<Rightarrow> sched option" where
  "schedule s = map_option (\<lambda>(t, s). set_next_task s t) (get_next_task s)"

definition task_init :: "int \<Rightarrow> task" where
  "task_init prio0 =
     (let prio1 = (if prio0 < 0 then 0 else prio0);
          prio = (if prio1 > int MAX_PRIORITY_NR - 1 then MAX_PRIORITY_NR - 1 else nat prio1)
      in \<lparr>state = TASK_READY, priority = prio, static_priority = prio, ticks = 3, timeslice = 3,
          elapsed_ticks = 0\<rparr>)"

text \<open>\<open>kthread_start\<close> once its \<open>kmalloc\<close> has returned the structure \<open>t\<close> and the file table exists.\<close>

definition kthread_start :: "sched \<Rightarrow> tid \<Rightarrow> int \<Rightarrow> sched option" where
  "kthread_start s t prio = task_priority_queue_add_tail (upd_task t (\<lambda>_. task_init prio) s) t"

definition task_set_timeslice :: "sched \<Rightarrow> tid \<Rightarrow> nat \<Rightarrow> sched" where
  "task_set_timeslice s t ts =
     (let ts = (if ts < 1 then 1 else ts); ts = (if ts > 100 then 100 else ts)
      in upd_task t (\<lambda>k. k\<lparr>timeslice := ts\<rparr>) s)"

definition task_block :: "sched \<Rightarrow> task_state \<Rightarrow> sched option" where
  "task_block s st =
     (if st \<in> {TASK_BLOCKED, TASK_WAITING, TASK_STOPPED, TASK_HANGING, TASK_ZOMBIE}
      then schedule (upd_task (cur s) (\<lambda>k. k\<lparr>state := st\<rparr>) s) else None)"

definition task_unblock :: "sched \<Rightarrow> tid \<Rightarrow> sched option" where
  "task_unblock s t =
     (if state (tasks s t) \<notin> {TASK_BLOCKED, TASK_WAITING, TASK_STOPPED} then None
      else if state (tasks s t) \<noteq> TASK_READY
      then if is_task_in_priority_queue s t then None
           else task_priority_queue_add_head (upd_task t (\<lambda>k. k\<lparr>state := TASK_READY\<rparr>) s) t
      else Some s)"

definition task_wakeup :: "sched \<Rightarrow> tid \<Rightarrow> sched option" where
  "task_wakeup s t =
     (if state (tasks s t) \<in> {TASK_BLOCKED, TASK_WAITING, TASK_STOPPED} then task_unblock s t else Some s)"

definition task_yeild :: "sched \<Rightarrow> sched option" where
  "task_yeild s = schedule (upd_task (cur s) (\<lambda>k. k\<lparr>state := TASK_READY\<rparr>) s)"

text \<open>\<open>sched_softirq_handler\<close>: what a clock tick does to the current task.\<close>

definition sched_softirq_handler :: "sched \<Rightarrow> sched option" where
  "sched_softirq_handler s =
     (let s = upd_task (cur s) (\<lambda>k. k\<lparr>elapsed_ticks := elapsed_ticks k + 1\<rparr>) s
      in if ticks (tasks s (cur s)) \<le> 0 then schedule s
         else Some (upd_task (cur s) (\<lambda>k. k\<lparr>ticks := ticks k - 1\<rparr>) s))"

subsection \<open>The invariant\<close>

text \<open>
  Every ready queue holds distinct ready tasks of its priority, its counter agrees with its list,
  no queue above \<open>dynamic_priority\<close> has a task, the current task is the only running one.
\<close>

definition ready_count :: "(nat \<Rightarrow> tid list) \<Rightarrow> nat" where
  "ready_count q = (\<Sum>p < MAX_PRIORITY_NR. length (q p))"

definition queues_ok :: "sched \<Rightarrow> bool" where
  "queues_ok s \<longleftrightarrow>
     (\<forall>p. distinct (queue s p)) \<and>
     (\<forall>p t. t \<in> set (queue s p) \<longrightarrow>
        p < MAX_PRIORITY_NR \<and> priority (tasks s t) = p \<and> state (tasks s t) = TASK_READY) \<and>
     (\<forall>p. qlength s p = length (queue s p)) \<and>
     (\<forall>p < dynamic_priority s. queue s p = []) \<and>
     su_tasknr s = of_nat (ready_count (queue s)) \<and>
     (\<forall>t. static_priority (tasks s t) \<le> priority (tasks s t) \<and> priority (tasks s t) < MAX_PRIORITY_NR)"

lemma queues_okI:
  assumes "\<And>p. distinct (queue s p)"
    and "\<And>p t. t \<in> set (queue s p) \<Longrightarrow>
      p < MAX_PRIORITY_NR \<and> priority (tasks s t) = p \<and> state (tasks s t) = TASK_READY"
    and "\<And>p. qlength s p = length (queue s p)" "\<And>p. p < dynamic_priority s \<Longrightarrow> queue s p = []"
    and "su_tasknr s = of_nat (ready_count (queue s))"
    and "\<And>t. static_priority (tasks s t) \<le> priority (tasks s t) \<and> priority (tasks s t) < MAX_PRIORITY_NR"
  shows "queues_ok s"
  using assms by (simp add: queues_ok_def)

lemma queues_okD:
  assumes "queues_ok s"
  shows "distinct (queue s p)"
    and "t \<in> set (queue s p) \<Longrightarrow> p < MAX_PRIORITY_NR"
    and "t \<in> set (queue s p) \<Longrightarrow> priority (tasks s t) = p"
    and "t \<in> set (queue s p) \<Longrightarrow> state (tasks s t) = TASK_READY"
    and "qlength s p = length (queue s p)"
    and "p < dynamic_priority s \<Longrightarrow> queue s p = []"
    and "su_tasknr s = of_nat (ready_count (queue s))"
    and "static_priority (tasks s t) \<le> priority (tasks s t)"
    and "priority (tasks s t) < MAX_PRIORITY_NR"
  using assms by (auto simp: queues_ok_def)

definition sched_inv :: "sched \<Rightarrow> bool" where
  "sched_inv s \<longleftrightarrow> queues_ok s \<and> (\<forall>t. state (tasks s t) = TASK_RUNNING \<longleftrightarrow> t = cur s)"

lemma ready_count_upd:
  assumes "p < MAX_PRIORITY_NR"
  shows "ready_count (q(p := x)) + length (q p) = ready_count q + length x"
proof -
  have split: "ready_count f = length (f p) + (\<Sum>i \<in> {..<MAX_PRIORITY_NR} - {p}. length (f i))" for f
    unfolding ready_count_def using assms by (intro sum.remove) auto
  have "(\<Sum>i \<in> {..<MAX_PRIORITY_NR} - {p}. length ((q(p := x)) i)) =
      (\<Sum>i \<in> {..<MAX_PRIORITY_NR} - {p}. length (q i))"
    by (intro sum.cong) auto
  with split [of q] split [of "q(p := x)"] show ?thesis by simp
qed

lemma upd_task_simps [simp]:
  "queue (upd_task t f s) = queue s" "qlength (upd_task t f s) = qlength s"
  "su_tasknr (upd_task t f s) = su_tasknr s" "dynamic_priority (upd_task t f s) = dynamic_priority s"
  "cur (upd_task t f s) = cur s" "tasks (upd_task t f s) t' = (if t' = t then f (tasks s t) else tasks s t')"
  "total_tasknr (upd_task t f s) = total_tasknr s"
  by (simp_all add: upd_task_def)

lemma find_priority_Some:
  assumes "\<forall>i < p. len i = 0" "find_priority len p = Some r"
  shows "p \<le> r \<and> r < MAX_PRIORITY_NR \<and> len r \<noteq> 0 \<and> (\<forall>i < r. len i = 0)"
  using assms
proof (induction len p rule: find_priority.induct)
  case (1 len p)
  show ?case
  proof (cases "p < MAX_PRIORITY_NR \<and> len p = 0")
    case True
    with "1.prems" have "find_priority len (p + 1) = Some r" "\<forall>i < p + 1. len i = 0"
      by (subst (asm) find_priority.simps, simp, metis less_Suc_eq Suc_eq_plus1)
    with "1.IH" True show ?thesis by fastforce
  next
    case False
    with "1.prems" show ?thesis by (subst (asm) find_priority.simps) (auto split: if_splits)
  qed
qed

lemma find_priority_None: "find_priority len p = None \<Longrightarrow> p \<le> i \<Longrightarrow> i < MAX_PRIORITY_NR \<Longrightarrow> len i = 0"
proof (induction len p rule: find_priority.induct)
  case (1 len p)
  then show ?case
    by (subst (asm) (2) find_priority.simps) (cases "i = p", auto split: if_splits)
qed

subsection \<open>Enqueueing and fetching\<close>

definition enq :: "sched \<Rightarrow> tid \<Rightarrow> sched" where
  "enq s t = (let p = priority (tasks s t) in
     s\<lparr>queue := (queue s)(p := queue s p @ [t]), qlength := (qlength s)(p := qlength s p + 1),
       su_tasknr := su_tasknr s + 1, total_tasknr := total_tasknr s + 1,
       dynamic_priority := min p (dynamic_priority s)\<rparr>)"

lemma enq_simps [simp]:
  "tasks (enq s t) = tasks s" "cur (enq s t) = cur s"
  "queue (enq s t) = (queue s)(priority (tasks s t) := queue s (priority (tasks s t)) @ [t])"
  "qlength (enq s t) = (qlength s)(priority (tasks s t) := qlength s (priority (tasks s t)) + 1)"
  "su_tasknr (enq s t) = su_tasknr s + 1"
  "dynamic_priority (enq s t) = min (priority (tasks s t)) (dynamic_priority s)"
  by (simp_all add: enq_def Let_def)

lemma add_tail_enq:
  assumes "priority (tasks s t) < MAX_PRIORITY_NR" "t \<notin> set (queue s (priority (tasks s t)))"
  shows "task_priority_queue_add_tail s t = Some (enq s t)"
  using assms by (simp add: task_priority_queue_add_tail_def enq_def Let_def min_def)

lemma add_head_is_add_tail: "task_priority_queue_add_head = task_priority_queue_add_tail"
  by (intro ext) (simp add: task_priority_queue_add_head_def task_priority_queue_add_tail_def)

text \<open>
  A task outside every queue is updated by \<open>g\<close>, enqueued and updated by \<open>f\<close>: the queues stay well
  formed if it ends up ready with the priority it was enqueued with.
\<close>

lemma enq_ok:
  assumes inv: "queues_ok s" and new: "\<And>p. t \<notin> set (queue s p)"
    and g: "priority (g (tasks s t)) < MAX_PRIORITY_NR"
      "static_priority (g (tasks s t)) \<le> priority (g (tasks s t))"
    and f: "state (f (g (tasks s t))) = TASK_READY"
      "priority (f (g (tasks s t))) = priority (g (tasks s t))"
      "static_priority (f (g (tasks s t))) = static_priority (g (tasks s t))"
  shows "queues_ok (upd_task t f (enq (upd_task t g s) t))"
proof (rule queues_okI)
  let ?p = "priority (g (tasks s t))"
  note D = queues_okD [OF inv]
  fix p u
  show "distinct (queue (upd_task t f (enq (upd_task t g s) t)) p)" using D(1) new by simp
  show "u \<in> set (queue (upd_task t f (enq (upd_task t g s) t)) p) \<Longrightarrow> p < MAX_PRIORITY_NR \<and>
      priority (tasks (upd_task t f (enq (upd_task t g s) t)) u) = p \<and>
      state (tasks (upd_task t f (enq (upd_task t g s) t)) u) = TASK_READY"
    using D(2-4) new f g by (auto split: if_splits)
  show "qlength (upd_task t f (enq (upd_task t g s) t)) p =
      length (queue (upd_task t f (enq (upd_task t g s) t)) p)"
    using D(5) by simp
  show "p < dynamic_priority (upd_task t f (enq (upd_task t g s) t)) \<Longrightarrow>
      queue (upd_task t f (enq (upd_task t g s) t)) p = []"
    using D(6) by simp
  have "ready_count ((queue s)(?p := queue s ?p @ [t])) = ready_count (queue s) + 1"
    using ready_count_upd [OF g(1), of "queue s" "queue s ?p @ [t]"] by simp
  then show "su_tasknr (upd_task t f (enq (upd_task t g s) t)) =
      of_nat (ready_count (queue (upd_task t f (enq (upd_task t g s) t))))"
    using D(7) by simp
  show "static_priority (tasks (upd_task t f (enq (upd_task t g s) t)) u)
      \<le> priority (tasks (upd_task t f (enq (upd_task t g s) t)) u) \<and>
      priority (tasks (upd_task t f (enq (upd_task t g s) t)) u) < MAX_PRIORITY_NR"
    using D(8,9) g f by simp
qed

lemma upd_task_id [simp]: "upd_task t (\<lambda>k. k) s = s"
  by (simp add: upd_task_def)

lemma fetch_cases:
  assumes inv: "queues_ok s"
  obtains (empty) "task_priority_queue_fetch_first s = None" "\<And>p. queue s p = []"
  | (first) p t ts s' where "task_priority_queue_fetch_first s = Some (t, s')"
      "queue s p = t # ts" "\<And>i. i < p \<Longrightarrow> queue s i = []" "p < MAX_PRIORITY_NR"
      "queue s' = (queue s)(p := ts)" "tasks s' = tasks s" "cur s' = cur s" "dynamic_priority s' = p"
      "queues_ok s'" "\<And>i. t \<notin> set (queue s' i)"
proof (cases "find_priority (qlength s) (dynamic_priority s)")
  case None
  have "queue s p = []" for p
  proof (cases "p < dynamic_priority s \<or> \<not> p < MAX_PRIORITY_NR")
    case True
    with queues_okD(2) [OF inv, of _ p] queues_okD(6) [OF inv, of p] show ?thesis by (cases "queue s p") auto
  next
    case False
    with find_priority_None [OF None, of p] queues_okD(5) [OF inv, of p] show ?thesis by simp
  qed
  with None that(1) show ?thesis by (simp add: task_priority_queue_fetch_first_def)
next
  case (Some p)
  note D = queues_okD [OF inv]
  have "\<forall>i < dynamic_priority s. qlength s i = 0" using D(5,6) by simp
  from find_priority_Some [OF this Some]
  have p: "p < MAX_PRIORITY_NR" "queue s p \<noteq> []" "\<And>i. i < p \<Longrightarrow> queue s i = []"
    using D(5) by auto
  then obtain t ts where q: "queue s p = t # ts" by (cases "queue s p") auto
  define s' where "s' = s\<lparr>dynamic_priority := p, queue := (queue s)(p := ts),
    qlength := (qlength s)(p := qlength s p - 1), su_tasknr := su_tasknr s - 1\<rparr>"
  have s': "queue s' = (queue s)(p := ts)" "tasks s' = tasks s" "cur s' = cur s" "dynamic_priority s' = p"
    by (simp_all add: s'_def)
  have sub: "set (queue s' i) \<subseteq> set (queue s i)" for i by (auto simp: s' q)
  have "queues_ok s'"
  proof (rule queues_okI)
    fix i u
    show "distinct (queue s' i)" using D(1) [of i] q by (auto simp: s')
    show "u \<in> set (queue s' i) \<Longrightarrow> i < MAX_PRIORITY_NR \<and> priority (tasks s' u) = i \<and>
        state (tasks s' u) = TASK_READY"
      using sub [of i] D(2-4) [of u i] by (auto simp: s'(2))
    show "qlength s' i = length (queue s' i)" using D(5) q by (simp add: s'_def)
    show "i < dynamic_priority s' \<Longrightarrow> queue s' i = []" using p(3) by (simp add: s')
    have "ready_count (queue s) = ready_count ((queue s)(p := ts)) + 1"
      using ready_count_upd [OF p(1), of "queue s" ts] by (simp add: q)
    then show "su_tasknr s' = of_nat (ready_count (queue s'))" using D(7) by (simp add: s'_def)
    show "static_priority (tasks s' u) \<le> priority (tasks s' u) \<and> priority (tasks s' u) < MAX_PRIORITY_NR"
      using D(8,9) by (simp add: s')
  qed
  moreover have "t \<notin> set (queue s' i)" for i
  proof
    assume "t \<in> set (queue s' i)"
    with sub D(3) [of t i] D(3) [of t p] q have "i = p" by auto
    with \<open>t \<in> set (queue s' i)\<close> D(1) [of p] q show False by (simp add: s')
  qed
  moreover have "task_priority_queue_fetch_first s = Some (t, s')"
    using Some q by (simp add: task_priority_queue_fetch_first_def s'_def)
  ultimately show ?thesis using that(2) [of t s' p ts] p q s' by blast
qed

lemma queues_ok_upd_outside:
  assumes "queues_ok s" "\<And>p. t \<notin> set (queue s p)" "static_priority (f (tasks s t)) \<le> priority (f (tasks s t))"
    "priority (f (tasks s t)) < MAX_PRIORITY_NR"
  shows "queues_ok (upd_task t f s)"
proof (rule queues_okI)
  note D = queues_okD [OF assms(1)]
  fix p u
  show "distinct (queue (upd_task t f s) p)" using D(1) by simp
  show "u \<in> set (queue (upd_task t f s) p) \<Longrightarrow> p < MAX_PRIORITY_NR \<and>
      priority (tasks (upd_task t f s) u) = p \<and> state (tasks (upd_task t f s) u) = TASK_READY"
    using D(2-4) assms(2) by auto
  show "qlength (upd_task t f s) p = length (queue (upd_task t f s) p)" using D(5) by simp
  show "p < dynamic_priority (upd_task t f s) \<Longrightarrow> queue (upd_task t f s) p = []" using D(6) by simp
  show "su_tasknr (upd_task t f s) = of_nat (ready_count (queue (upd_task t f s)))" using D(7) by simp
  show "static_priority (tasks (upd_task t f s) u) \<le> priority (tasks (upd_task t f s) u) \<and>
      priority (tasks (upd_task t f s) u) < MAX_PRIORITY_NR" using D(8,9) assms(3,4) by simp
qed

lemma age_bounds:
  "static_priority k \<le> priority k \<Longrightarrow> priority k < MAX_PRIORITY_NR \<Longrightarrow>
     static_priority (age k) = static_priority k \<and> static_priority k \<le> priority (age k) \<and>
     priority (age k) < MAX_PRIORITY_NR"
  by (auto simp: age_def)

text \<open>The two ways the current task goes back to its queue: its time slice is over, or it yields.\<close>

definition requeue :: "sched \<Rightarrow> sched" where
  "requeue s = upd_task (cur s)
     (if state (tasks s (cur s)) = TASK_RUNNING
      then (\<lambda>k. k\<lparr>ticks := timeslice k, state := TASK_READY\<rparr>) else (\<lambda>k. k))
     (enq (upd_task (cur s) age s) (cur s))"

lemma requeue_spec:
  assumes inv: "queues_ok s" "\<And>p. cur s \<notin> set (queue s p)"
    and st: "state (tasks s (cur s)) \<in> {TASK_RUNNING, TASK_READY}"
  shows "get_next_task s = task_priority_queue_fetch_first (requeue s)" "queues_ok (requeue s)"
    "queue (requeue s) = (let p = priority (age (tasks s (cur s))) in (queue s)(p := queue s p @ [cur s]))"
    "cur (requeue s) = cur s" "\<And>t. t \<noteq> cur s \<Longrightarrow> tasks (requeue s) t = tasks s t"
    "state (tasks (requeue s) (cur s)) = TASK_READY"
    "priority (tasks (requeue s) (cur s)) = priority (age (tasks s (cur s)))"
    "static_priority (tasks (requeue s) (cur s)) = static_priority (tasks s (cur s))"
proof -
  let ?t = "cur s"
  note age = age_bounds [OF queues_okD(8,9) [OF inv(1)], of ?t]
  have "task_priority_queue_add_tail (upd_task ?t age s) ?t = Some (enq (upd_task ?t age s) ?t)"
    using age inv(2) by (intro add_tail_enq) simp_all
  then show "get_next_task s = task_priority_queue_fetch_first (requeue s)"
    using st by (auto simp: get_next_task_def requeue_def Let_def)
  show "queues_ok (requeue s)"
    unfolding requeue_def using age st by (intro enq_ok [OF inv]) (auto simp: age_def)
  show "queue (requeue s) = (let p = priority (age (tasks s ?t)) in (queue s)(p := queue s p @ [?t]))"
    by (simp add: requeue_def Let_def)
  show "state (tasks (requeue s) ?t) = TASK_READY"
    using st by (auto simp: requeue_def age_def)
qed (auto simp: requeue_def age_def)

text \<open>What a switch from a state \<open>s\<close> with well-formed queues to a task of them does.\<close>

lemma switch_cases:
  assumes inv: "queues_ok s" and none: "\<forall>t. state (tasks s t) \<noteq> TASK_RUNNING"
  obtains (empty) "task_priority_queue_fetch_first s = None" "\<And>p. queue s p = []"
  | (first) p t ts s' where
      "map_option (\<lambda>(t, s). set_next_task s t) (task_priority_queue_fetch_first s) = Some s'"
      "queue s p = t # ts" "\<And>i. i < p \<Longrightarrow> queue s i = []" "p < MAX_PRIORITY_NR"
      "queue s' = (queue s)(p := ts)" "cur s' = t" "\<And>u. u \<noteq> t \<Longrightarrow> tasks s' u = tasks s u"
      "tasks s' t = (tasks s t)\<lparr>state := TASK_RUNNING\<rparr>" "sched_inv s'"
proof (cases rule: fetch_cases [OF inv])
  case 1
  then show ?thesis using that(1) by blast
next
  case (2 p t ts s1)
  define s' where "s' = set_next_task s1 t"
  have s': "cur s' = t" "queue s' = queue s1" "\<And>u. u \<noteq> t \<Longrightarrow> tasks s' u = tasks s1 u"
    "tasks s' t = (tasks s1 t)\<lparr>state := TASK_RUNNING\<rparr>"
    by (simp_all add: s'_def set_next_task_def task_activate_def)
  have "queues_ok (s1\<lparr>cur := t\<rparr>)" using 2(9) by (simp add: queues_ok_def)
  then have "queues_ok s'"
    unfolding s'_def set_next_task_def task_activate_def
    using 2(10) queues_okD(8,9) [OF 2(9), of t] by (intro queues_ok_upd_outside) auto
  moreover have "state (tasks s' u) = TASK_RUNNING \<longleftrightarrow> u = t" for u
    using none 2(6) s' by (cases "u = t") auto
  ultimately have "sched_inv s'" by (simp add: sched_inv_def s')
  then show ?thesis using that(2) [of s' p t ts] 2 s' by (simp add: s'_def)
qed

lemma sched_inv_queues: "sched_inv s \<Longrightarrow> queues_ok s"
  by (simp add: sched_inv_def)

lemma sched_inv_running: "sched_inv s \<Longrightarrow> state (tasks s t) = TASK_RUNNING \<longleftrightarrow> t = cur s"
  by (simp add: sched_inv_def)

lemma sched_inv_cur: "sched_inv s \<Longrightarrow> cur s \<notin> set (queue s p)"
  using queues_okD(4) [OF sched_inv_queues, of s "cur s" p] sched_inv_running [of s "cur s"] by auto

definition start_user :: "sched \<Rightarrow> sched option" where
  "start_user s = schedule (upd_task (cur s) (\<lambda>k. k\<lparr>static_priority := 3, priority := 3\<rparr>) s)"

text \<open>
  A switch at the end of a time slice or on \<open>task_yeild\<close> always succeeds and picks the first task
  of the best non-empty queue, the current task having gone to the tail of its own.
\<close>

lemma schedule_requeue:
  assumes inv: "queues_ok s" "\<And>p. cur s \<notin> set (queue s p)"
    and run: "\<And>t. t \<noteq> cur s \<Longrightarrow> state (tasks s t) \<noteq> TASK_RUNNING"
    and st: "state (tasks s (cur s)) \<in> {TASK_RUNNING, TASK_READY}"
  obtains p t ts s' where "schedule s = Some s'" "queue (requeue s) p = t # ts"
    "\<And>i. i < p \<Longrightarrow> queue (requeue s) i = []" "p < MAX_PRIORITY_NR"
    "queue s' = (queue (requeue s))(p := ts)" "cur s' = t"
    "\<And>u. u \<noteq> t \<Longrightarrow> tasks s' u = tasks (requeue s) u"
    "tasks s' t = (tasks (requeue s) t)\<lparr>state := TASK_RUNNING\<rparr>" "sched_inv s'"
proof -
  note R = requeue_spec [OF inv st]
  have none: "\<forall>t. state (tasks (requeue s) t) \<noteq> TASK_RUNNING"
    using run R(4-6) by (metis task_state.distinct(1))
  show ?thesis
  proof (cases rule: switch_cases [OF R(2) none])
    case 1
    have "queue (requeue s) (priority (age (tasks s (cur s)))) \<noteq> []" by (simp add: R(3) Let_def)
    with 1 show ?thesis by simp
  next
    case (2 p t ts s')
    have "schedule s = Some s'" using 2(1) R(1) by (simp add: schedule_def)
    then show ?thesis using 2 that [of s' p t ts] by blast
  qed
qed

lemma yield_pre:
  assumes "sched_inv s"
  defines "s1 \<equiv> upd_task (cur s) (\<lambda>k. k\<lparr>state := TASK_READY\<rparr>) s"
  shows "queues_ok s1" "cur s1 \<notin> set (queue s1 p)" "t \<noteq> cur s1 \<Longrightarrow> state (tasks s1 t) \<noteq> TASK_RUNNING"
    "state (tasks s1 (cur s1)) = TASK_READY"
  using assms(1) queues_okD(8,9) [OF sched_inv_queues [OF assms(1)], of "cur s"]
  by (auto simp: s1_def sched_inv_cur sched_inv_running intro!: queues_ok_upd_outside [OF sched_inv_queues [OF assms(1)]])

lemma run_pre:
  assumes "sched_inv s" "state (f (tasks s (cur s))) = TASK_RUNNING"
    "static_priority (f (tasks s (cur s))) \<le> priority (f (tasks s (cur s)))"
    "priority (f (tasks s (cur s))) < MAX_PRIORITY_NR"
  defines "s1 \<equiv> upd_task (cur s) f s"
  shows "queues_ok s1" "cur s1 \<notin> set (queue s1 p)" "t \<noteq> cur s1 \<Longrightarrow> state (tasks s1 t) \<noteq> TASK_RUNNING"
    "state (tasks s1 (cur s1)) = TASK_RUNNING"
  using assms(1-4)
  by (auto simp: s1_def sched_inv_cur sched_inv_running intro!: queues_ok_upd_outside [OF sched_inv_queues [OF assms(1)]])

lemma sched_inv_upd_cur:
  assumes "sched_inv s" "state (f (tasks s (cur s))) = TASK_RUNNING"
    "static_priority (f (tasks s (cur s))) \<le> priority (f (tasks s (cur s)))"
    "priority (f (tasks s (cur s))) < MAX_PRIORITY_NR"
  shows "sched_inv (upd_task (cur s) f s)"
  using run_pre(1) [where f = f, OF assms] assms(2) sched_inv_running [OF assms(1)]
  by (auto simp: sched_inv_def)

lemma yield_spec: "sched_inv s \<Longrightarrow> \<exists>s'. task_yeild s = Some s' \<and> sched_inv s'"
  by (rule schedule_requeue [OF yield_pre(1,2,3)]) (auto simp: task_yeild_def yield_pre)

lemma start_user_spec: "sched_inv s \<Longrightarrow> \<exists>s'. start_user s = Some s' \<and> sched_inv s'"
  by (rule schedule_requeue
      [OF run_pre(1-3) [where s = s and f = "\<lambda>k. k\<lparr>static_priority := 3, priority := 3\<rparr>"]])
    (auto simp: start_user_def sched_inv_running MAX_PRIORITY_NR_def)

lemma tick_spec: "sched_inv s \<Longrightarrow> \<exists>s'. sched_softirq_handler s = Some s' \<and> sched_inv s'"
proof -
  assume inv: "sched_inv s"
  let ?f = "\<lambda>k. k\<lparr>elapsed_ticks := elapsed_ticks k + 1\<rparr>"
  let ?s = "upd_task (cur s) ?f s"
  note b = queues_okD(8,9) [OF sched_inv_queues [OF inv], of "cur s"]
  have pre: "state (?f (tasks s (cur s))) = TASK_RUNNING"
    "static_priority (?f (tasks s (cur s))) \<le> priority (?f (tasks s (cur s)))"
    "priority (?f (tasks s (cur s))) < MAX_PRIORITY_NR"
    using b inv by (auto simp: sched_inv_running)
  show ?thesis
  proof (cases "ticks (tasks s (cur s)) \<le> 0")
    case True
    show ?thesis
      by (rule schedule_requeue [OF run_pre(1-3) [where f = ?f, OF inv pre]])
        (use True pre in \<open>auto simp: sched_softirq_handler_def\<close>)
  next
    case False
    have "sched_inv (upd_task (cur ?s) (\<lambda>k. k\<lparr>ticks := ticks k - 1\<rparr>) ?s)"
      by (rule sched_inv_upd_cur [OF sched_inv_upd_cur [where f = ?f, OF inv pre]]) (use pre in auto)
    with False show ?thesis by (simp add: sched_softirq_handler_def Let_def)
  qed
qed

subsection \<open>Blocking, waking and starting\<close>

lemma block_spec:
  assumes inv: "sched_inv s" and st: "st \<in> {TASK_BLOCKED, TASK_WAITING, TASK_STOPPED, TASK_HANGING, TASK_ZOMBIE}"
  obtains (empty) "task_block s st = None" "\<And>p. queue s p = []"
  | (switch) p t ts s' where "task_block s st = Some s'" "sched_inv s'" "queue s p = t # ts"
      "\<And>i. i < p \<Longrightarrow> queue s i = []" "queue s' = (queue s)(p := ts)" "cur s' = t"
      "state (tasks s' (cur s)) = st"
proof -
  let ?s = "upd_task (cur s) (\<lambda>k. k\<lparr>state := st\<rparr>) s"
  have ok: "queues_ok ?s"
    using queues_okD(8,9) [OF sched_inv_queues [OF inv], of "cur s"] sched_inv_cur [OF inv]
    by (intro queues_ok_upd_outside [OF sched_inv_queues [OF inv]]) auto
  have none: "\<forall>t. state (tasks ?s t) \<noteq> TASK_RUNNING"
    using st sched_inv_running [OF inv] by auto
  have blk: "task_block s st =
      map_option (\<lambda>(t, s). set_next_task s t) (task_priority_queue_fetch_first ?s)"
    using st by (auto simp: task_block_def schedule_def get_next_task_def)
  show ?thesis
  proof (cases rule: switch_cases [OF ok none])
    case 1
    then show ?thesis using that(1) by (simp add: blk)
  next
    case (2 p t ts s')
    have "cur s \<noteq> t" using 2(2) sched_inv_cur [OF inv, of p] by auto
    then show ?thesis using 2 that(2) [of s' p t ts] by (simp add: blk)
  qed
qed

lemma enq_inv:
  assumes inv: "sched_inv s" and new: "\<And>p. t \<notin> set (queue s p)" "t \<noteq> cur s"
    and g: "priority (g (tasks s t)) < MAX_PRIORITY_NR" "static_priority (g (tasks s t)) \<le> priority (g (tasks s t))"
      "state (g (tasks s t)) = TASK_READY"
  shows "task_priority_queue_add_tail (upd_task t g s) t = Some (enq (upd_task t g s) t)"
    "sched_inv (enq (upd_task t g s) t)"
proof -
  show "task_priority_queue_add_tail (upd_task t g s) t = Some (enq (upd_task t g s) t)"
    using g new by (intro add_tail_enq) simp_all
  have "queues_ok (upd_task t (\<lambda>k. k) (enq (upd_task t g s) t))"
    using g by (intro enq_ok [OF sched_inv_queues [OF inv] new(1)]) simp_all
  moreover have "state (tasks (enq (upd_task t g s) t) u) = TASK_RUNNING \<longleftrightarrow> u = cur s" for u
    using sched_inv_running [OF inv] g(3) new(2) by simp
  ultimately show "sched_inv (enq (upd_task t g s) t)" by (simp add: sched_inv_def)
qed

lemma wakeup_spec:
  assumes inv: "sched_inv s"
  shows "\<exists>s'. task_wakeup s t = Some s' \<and> sched_inv s' \<and> cur s' = cur s \<and>
    (state (tasks s t) \<in> {TASK_BLOCKED, TASK_WAITING, TASK_STOPPED} \<longrightarrow>
       state (tasks s' t) = TASK_READY \<and>
       queue s' = (queue s)(priority (tasks s t) := queue s (priority (tasks s t)) @ [t])) \<and>
    (state (tasks s t) \<notin> {TASK_BLOCKED, TASK_WAITING, TASK_STOPPED} \<longrightarrow> s' = s)"
proof (cases "state (tasks s t) \<in> {TASK_BLOCKED, TASK_WAITING, TASK_STOPPED}")
  case True
  let ?g = "\<lambda>k. k\<lparr>state := TASK_READY\<rparr>"
  have out: "t \<notin> set (queue s p)" for p
    using queues_okD(4) [OF sched_inv_queues [OF inv], of t p] True by auto
  have "t \<noteq> cur s" using sched_inv_running [OF inv, of t] True by auto
  note E = enq_inv [where g = ?g, OF inv out this]
  have "task_wakeup s t = Some (enq (upd_task t ?g s) t)" "sched_inv (enq (upd_task t ?g s) t)"
    using True E queues_okD(8,9) [OF sched_inv_queues [OF inv], of t] out
    by (auto simp: task_wakeup_def task_unblock_def add_head_is_add_tail is_task_in_priority_queue_def)
  with True show ?thesis by (intro exI [of _ "enq (upd_task t ?g s) t"]) simp
qed (auto simp: task_wakeup_def inv)

lemma start_spec:
  assumes inv: "sched_inv s" and new: "\<And>p. t \<notin> set (queue s p)" "t \<noteq> cur s"
  shows "\<exists>s'. kthread_start s t prio = Some s' \<and> sched_inv s' \<and> cur s' = cur s \<and>
    queue s' = (queue s)(priority (task_init prio) := queue s (priority (task_init prio)) @ [t])"
proof -
  have "priority (task_init prio) < MAX_PRIORITY_NR" "static_priority (task_init prio) \<le> priority (task_init prio)"
    "state (task_init prio) = TASK_READY"
    by (auto simp: task_init_def Let_def MAX_PRIORITY_NR_def)
  with enq_inv [where g = "\<lambda>_. task_init prio", OF inv new] show ?thesis
    by (intro exI [of _ "enq (upd_task t (\<lambda>_. task_init prio) s) t"]) (simp add: kthread_start_def)
qed

subsection \<open>Runs of the scheduler\<close>

text \<open>The tasks that can run: the current one and those in the queues.\<close>

definition active :: "sched \<Rightarrow> tid set" where
  "active s = insert (cur s) (\<Union>p. set (queue s p))"

text \<open>
  One step of the system: a clock tick, a voluntary switch, the current task blocking, a task being
  woken or started. \<open>idle\<close> is the task of the idle loop, which never blocks.
\<close>

inductive sched_step :: "tid \<Rightarrow> sched \<Rightarrow> sched \<Rightarrow> bool" for idle where
  tick: "sched_softirq_handler s = Some s' \<Longrightarrow> sched_step idle s s'"
| yield: "task_yeild s = Some s' \<Longrightarrow> sched_step idle s s'"
| demote: "start_user s = Some s' \<Longrightarrow> sched_step idle s s'"
| block: "cur s \<noteq> idle \<Longrightarrow> task_block s st = Some s' \<Longrightarrow> sched_step idle s s'"
| wakeup: "task_wakeup s t = Some s' \<Longrightarrow> sched_step idle s s'"
| start: "t \<notin> active s \<Longrightarrow> kthread_start s t prio = Some s' \<Longrightarrow> sched_step idle s s'"
| timeslice: "sched_step idle s (task_set_timeslice s t ts)"

text \<open>The state after \<open>init_schedule\<close> and \<open>create_kmain_thread\<close>.\<close>

definition boot :: "tid \<Rightarrow> sched" where
  "boot kmain = \<lparr>tasks = (\<lambda>t. (task_init 0)\<lparr>state := if t = kmain then TASK_RUNNING else TASK_ZOMBIE\<rparr>),
     queue = (\<lambda>_. []), qlength = (\<lambda>_. 0), su_tasknr = 0, total_tasknr = 0, dynamic_priority = 0, cur = kmain\<rparr>"

inductive sched_reachable :: "tid \<Rightarrow> sched \<Rightarrow> bool" for idle where
  init: "sched_reachable idle (boot idle)"
| step: "sched_reachable idle s \<Longrightarrow> sched_step idle s s' \<Longrightarrow> sched_reachable idle s'"

lemma boot_inv: "sched_inv (boot k)"
  by (auto simp: sched_inv_def boot_def task_init_def MAX_PRIORITY_NR_def ready_count_def intro!: queues_okI)

lemma active_fetch:
  assumes "q p = t # ts"
  shows "insert t (\<Union>i. set ((q(p := ts)) i)) = (\<Union>i. set (q i))"
  using assms by (auto split: if_splits) (metis list.set_intros set_ConsD)+

lemma active_append: "(\<Union>i. set ((q(p := q p @ [t])) i)) = insert t (\<Union>i. set (q i))"
  by (auto split: if_splits)

lemma active_requeue:
  "\<lbrakk>queues_ok s; \<And>p. cur s \<notin> set (queue s p); state (tasks s (cur s)) \<in> {TASK_RUNNING, TASK_READY}\<rbrakk> \<Longrightarrow>
     (\<Union>i. set (queue (requeue s) i)) = active s"
  by (auto simp: requeue_spec active_def Let_def split: if_splits)

lemma active_schedule:
  assumes inv: "queues_ok s" "\<And>p. cur s \<notin> set (queue s p)"
    and run: "\<And>t. t \<noteq> cur s \<Longrightarrow> state (tasks s t) \<noteq> TASK_RUNNING"
    and st: "state (tasks s (cur s)) \<in> {TASK_RUNNING, TASK_READY}" and "schedule s = Some s'"
  shows "active s' = active s"
proof (rule schedule_requeue [OF inv run st])
  fix p t ts s1
  assume "schedule s = Some s1" "queue (requeue s) p = t # ts" "queue s1 = (queue (requeue s))(p := ts)" "cur s1 = t"
  with active_fetch [of "queue (requeue s)" p t ts] active_requeue [OF inv st] assms(5)
  show "active s' = active s" by (simp add: active_def)
qed

lemma step_inv:
  assumes inv: "sched_inv s" and idle: "idle \<in> active s" and step: "sched_step idle s s'"
  shows "sched_inv s' \<and> idle \<in> active s'"
  using step
proof (cases rule: sched_step.cases)
  case tick
  let ?f = "\<lambda>k. k\<lparr>elapsed_ticks := elapsed_ticks k + 1\<rparr>"
  have pre: "state (?f (tasks s (cur s))) = TASK_RUNNING"
    "static_priority (?f (tasks s (cur s))) \<le> priority (?f (tasks s (cur s)))"
    "priority (?f (tasks s (cur s))) < MAX_PRIORITY_NR"
    using inv queues_okD(8,9) [OF sched_inv_queues [OF inv], of "cur s"] by (auto simp: sched_inv_running)
  note R = run_pre [where f = ?f, OF inv pre]
  have "active s' = active s"
  proof (cases "ticks (tasks s (cur s)) \<le> 0")
    case True
    with tick active_schedule [OF R(1-3), of s'] pre show ?thesis
      by (auto simp: sched_softirq_handler_def active_def Let_def)
  next
    case False
    with tick show ?thesis by (auto simp: sched_softirq_handler_def active_def Let_def)
  qed
  with tick_spec [OF inv] tick idle show ?thesis by auto
next
  case yield
  have "active s' = active s"
    using active_schedule [OF yield_pre(1-3) [OF inv], of s'] yield
    by (auto simp: task_yeild_def active_def)
  with yield_spec [OF inv] yield idle show ?thesis by auto
next
  case demote
  let ?f = "\<lambda>k. k\<lparr>static_priority := 3, priority := 3\<rparr>"
  have pre: "state (?f (tasks s (cur s))) = TASK_RUNNING"
    "static_priority (?f (tasks s (cur s))) \<le> priority (?f (tasks s (cur s)))"
    "priority (?f (tasks s (cur s))) < MAX_PRIORITY_NR"
    using inv by (auto simp: sched_inv_running MAX_PRIORITY_NR_def)
  have "active s' = active s"
    using active_schedule [OF run_pre(1-3) [where f = ?f, OF inv pre], of s'] demote pre
    by (auto simp: start_user_def active_def)
  with start_user_spec [OF inv] demote idle show ?thesis by auto
next
  case (block st)
  then have st: "st \<in> {TASK_BLOCKED, TASK_WAITING, TASK_STOPPED, TASK_HANGING, TASK_ZOMBIE}"
    by (auto simp: task_block_def split: if_splits)
  show ?thesis
  proof (cases rule: block_spec [OF inv st])
    case 1
    then show ?thesis using block by simp
  next
    case (2 p t ts s1)
    with active_fetch [of "queue s" p t ts] block idle show ?thesis by (auto simp: active_def)
  qed
next
  case (wakeup t)
  from wakeup_spec [OF inv, of t] wakeup have spec: "sched_inv s'" "cur s' = cur s"
    "queue s' = (queue s)(priority (tasks s t) := queue s (priority (tasks s t)) @ [t]) \<or> s' = s"
    by auto
  then have "active s \<subseteq> active s'"
    using active_append [of "queue s" "priority (tasks s t)" t] unfolding active_def by force
  with idle spec(1) show ?thesis by blast
next
  case (start t prio)
  then have "\<And>p. t \<notin> set (queue s p)" "t \<noteq> cur s" by (auto simp: active_def)
  from start_spec [OF inv this, of prio] start have spec: "sched_inv s'" "cur s' = cur s"
    "queue s' = (queue s)(priority (task_init prio) := queue s (priority (task_init prio)) @ [t])"
    by auto
  then have "active s \<subseteq> active s'"
    using active_append [of "queue s" "priority (task_init prio)" t] unfolding active_def by force
  with idle spec(1) show ?thesis by blast
next
  case (timeslice t ts)
  then have f: "queue s' = queue s" "qlength s' = qlength s" "su_tasknr s' = su_tasknr s" "cur s' = cur s"
    "dynamic_priority s' = dynamic_priority s" "\<And>u. state (tasks s' u) = state (tasks s u)"
    "\<And>u. priority (tasks s' u) = priority (tasks s u)"
    "\<And>u. static_priority (tasks s' u) = static_priority (tasks s u)"
    by (simp_all add: task_set_timeslice_def Let_def)
  then have "queues_ok s'" using sched_inv_queues [OF inv] by (simp add: queues_ok_def)
  then show ?thesis using inv idle f by (simp add: sched_inv_def active_def)
qed

lemma reachable_inv: "sched_reachable idle s \<Longrightarrow> sched_inv s \<and> idle \<in> active s"
proof (induction rule: sched_reachable.induct)
  case init
  show ?case by (simp add: boot_inv) (simp add: active_def boot_def)
qed (auto dest: step_inv)

lemma block_some:
  assumes inv: "sched_inv s" and idle: "idle \<in> active s" "cur s \<noteq> idle"
    and st: "st \<in> {TASK_BLOCKED, TASK_WAITING, TASK_STOPPED, TASK_HANGING, TASK_ZOMBIE}"
  shows "task_block s st \<noteq> None"
proof (cases rule: block_spec [OF inv st])
  case 1
  with idle show ?thesis by (simp add: active_def)
qed simp

subsection \<open>No starvation\<close>

text \<open>
  A preemption: the current task yields, or its time slice is over at a tick. The queues after it
  has gone back to its own, one priority further down or at its static priority again:
\<close>

definition resched :: "sched \<Rightarrow> sched \<Rightarrow> bool" where
  "resched s s' \<longleftrightarrow> task_yeild s = Some s' \<or>
     ticks (tasks s (cur s)) = 0 \<and> sched_softirq_handler s = Some s'"

definition requeued :: "sched \<Rightarrow> nat \<Rightarrow> tid list" where
  "requeued s = (let p = priority (age (tasks s (cur s))) in (queue s)(p := queue s p @ [cur s]))"

lemma resched_cases:
  assumes inv: "sched_inv s" and "resched s s'"
  obtains p t ts where "requeued s p = t # ts" "\<And>i. i < p \<Longrightarrow> requeued s i = []" "p < MAX_PRIORITY_NR"
    "queue s' = (requeued s)(p := ts)" "cur s' = t" "sched_inv s'" "priority (tasks s' t) = p"
    "\<And>u. static_priority (tasks s' u) = static_priority (tasks s u)"
proof -
  obtain f where f: "schedule (upd_task (cur s) f s) = Some s'"
    and st: "state (f (tasks s (cur s))) \<in> {TASK_RUNNING, TASK_READY}"
    and same: "static_priority (f (tasks s (cur s))) = static_priority (tasks s (cur s))"
      "priority (f (tasks s (cur s))) = priority (tasks s (cur s))"
  proof (cases "task_yeild s = Some s'")
    case True
    then show ?thesis using that [of "\<lambda>k. k\<lparr>state := TASK_READY\<rparr>"] by (simp add: task_yeild_def)
  next
    case False
    with assms(2) have "sched_softirq_handler s = Some s'" "ticks (tasks s (cur s)) = 0"
      by (auto simp: resched_def)
    then show ?thesis using that [of "\<lambda>k. k\<lparr>elapsed_ticks := elapsed_ticks k + 1\<rparr>"] inv
      by (simp add: sched_softirq_handler_def Let_def sched_inv_running)
  qed
  define s1 where "s1 = upd_task (cur s) f s"
  have cur1: "cur s1 = cur s" by (simp add: s1_def)
  have ok: "queues_ok s1" "cur s1 \<notin> set (queue s1 i)" "u \<noteq> cur s1 \<Longrightarrow> state (tasks s1 u) \<noteq> TASK_RUNNING"
    "state (tasks s1 (cur s1)) \<in> {TASK_RUNNING, TASK_READY}" for i u
    using queues_okD(8,9) [OF sched_inv_queues [OF inv], of "cur s"] sched_inv_cur [OF inv] st same inv
    by (auto simp: s1_def sched_inv_running intro!: queues_ok_upd_outside [OF sched_inv_queues [OF inv]])
  note R = requeue_spec [OF ok(1,2,4)]
  have requeued: "queue (requeue s1) = requeued s"
    using R(3) same by (simp add: requeued_def s1_def age_def)
  have stat: "static_priority (tasks (requeue s1) u) = static_priority (tasks s u)" for u
  proof (cases "u = cur s")
    case True
    then show ?thesis using R(8) same by (simp add: s1_def)
  next
    case False
    then show ?thesis using R(5) [of u] by (simp add: s1_def)
  qed
  show ?thesis
  proof (rule schedule_requeue [OF ok])
    fix p t ts s2
    assume *: "schedule s1 = Some s2" "queue (requeue s1) p = t # ts" "\<And>i. i < p \<Longrightarrow> queue (requeue s1) i = []"
      "p < MAX_PRIORITY_NR" "queue s2 = (queue (requeue s1))(p := ts)" "cur s2 = t"
      "\<And>u. u \<noteq> t \<Longrightarrow> tasks s2 u = tasks (requeue s1) u"
      "tasks s2 t = (tasks (requeue s1) t)\<lparr>state := TASK_RUNNING\<rparr>" "sched_inv s2"
    have "s2 = s'" using *(1) f by (simp add: s1_def)
    moreover have "priority (tasks s2 t) = p"
      using queues_okD(3) [OF R(2), of t p] *(2,8) by simp
    moreover have "static_priority (tasks s2 u) = static_priority (tasks s u)" for u
      using stat [of u] *(7,8) by (cases "u = t") auto
    ultimately show ?thesis using that [of p t ts] * by (simp add: requeued)
  qed
qed

text \<open>
  How many preemptions a task \<open>x\<close> waiting in queue \<open>p\<close> may still see, \<open>q\<close> being the queues when the
  current task is back in its own: a task in a better queue \<open>i\<close> runs \<open>p - i\<close> times until it is behind
  \<open>x\<close>; a task before \<open>x\<close> runs once, and again from its static priority on when \<open>p\<close> is the last queue.
\<close>

definition ahead :: "(tid \<Rightarrow> nat) \<Rightarrow> (nat \<Rightarrow> tid list) \<Rightarrow> nat \<Rightarrow> tid \<Rightarrow> nat" where
  "ahead sp q p x = (\<Sum>i < p. (p - i) * length (q i)) +
     (\<Sum>u \<leftarrow> takeWhile (\<lambda>u. u \<noteq> x) (q p). if p = 3 then 4 - sp u else 1)"

lemma ahead_less:
  assumes q: "q r = t # ts" "\<And>i. i < r \<Longrightarrow> q i = []" "t \<noteq> x" "x \<in> set (q p)" "p < 4"
    and a: "a = (if r + 1 \<ge> 4 then sp t else r + 1)" "sp t \<le> r"
  shows "ahead sp ((q(r := ts))(a := (q(r := ts)) a @ [t])) p x < ahead sp q p x"
proof -
  have "r \<le> p" using q(2) [of p] q(4) by (cases "p < r") auto
  have tw: "takeWhile (\<lambda>u. u \<noteq> x) (xs @ [t]) = takeWhile (\<lambda>u. u \<noteq> x) xs" if "x \<in> set xs" for xs
    using that by (simp add: takeWhile_append1)
  have "p = 0 \<or> p = 1 \<or> p = 2 \<or> p = 3" using q(5) by auto
  moreover have "r = 0 \<or> r = 1 \<or> r = 2 \<or> r = 3" using q(5) \<open>r \<le> p\<close> by auto
  moreover have "sp t = 0 \<or> sp t = 1 \<or> sp t = 2 \<or> sp t = 3" using a(2) q(5) \<open>r \<le> p\<close> by auto
  ultimately show ?thesis
    using q(1,3,4) a \<open>r \<le> p\<close>
    by (elim disjE) (simp_all add: ahead_def numeral_eq_Suc lessThan_Suc tw)
qed

lemma sum_list_bounded: "(\<And>u. u \<in> set xs \<Longrightarrow> f u \<le> (c :: nat)) \<Longrightarrow> (\<Sum>u \<leftarrow> xs. f u) \<le> c * length xs"
  by (induction xs) (auto simp: add_mono)

lemma takeWhile_less: "x \<in> set xs \<Longrightarrow> length (takeWhile (\<lambda>u. u \<noteq> x) xs) < length xs"
  by (induction xs) auto

lemma ahead_bound:
  assumes "x \<in> set (q p)" "p < 4"
  shows "ahead sp q p x + 4 \<le> 4 * ready_count q"
proof -
  let ?tw = "takeWhile (\<lambda>u. u \<noteq> x) (q p)"
  have "length ?tw < length (q p)" using assms(1) by (rule takeWhile_less)
  moreover have "(\<Sum>u \<leftarrow> ?tw. if p = 3 then 4 - sp u else 1) \<le> 4 * length ?tw"
    by (rule sum_list_bounded) auto
  moreover have "p = 0 \<or> p = 1 \<or> p = 2 \<or> p = 3" using assms(2) by auto
  moreover have "ready_count q = length (q 0) + length (q 1) + length (q 2) + length (q 3)"
    by (simp add: ready_count_def MAX_PRIORITY_NR_def numeral_eq_Suc lessThan_Suc)
  ultimately show ?thesis
    by (elim disjE) (simp_all add: ahead_def numeral_eq_Suc lessThan_Suc)
qed

abbreviation statics :: "sched \<Rightarrow> tid \<Rightarrow> nat" where
  "statics s \<equiv> (\<lambda>u. static_priority (tasks s u))"

lemma resched_ahead:
  assumes inv: "sched_inv s" and "resched s s'" and x: "x \<noteq> cur s" "x \<in> set (queue s p)"
  shows "sched_inv s' \<and> (cur s' = x \<or> x \<noteq> cur s' \<and> x \<in> set (queue s' p) \<and>
    ahead (statics s') (requeued s') p x < ahead (statics s) (requeued s) p x)"
proof (rule resched_cases [OF assms(1,2)])
  fix r t ts
  assume *: "requeued s r = t # ts" "\<And>i. i < r \<Longrightarrow> requeued s i = []" "r < MAX_PRIORITY_NR"
    "queue s' = (requeued s)(r := ts)" "cur s' = t" "sched_inv s'" "priority (tasks s' t) = r"
    "\<And>u. static_priority (tasks s' u) = static_priority (tasks s u)"
  have xq: "x \<in> set (requeued s p)" using x by (auto simp: requeued_def Let_def)
  have p: "p < 4" using queues_okD(2) [OF sched_inv_queues [OF inv] x(2)] by (simp add: MAX_PRIORITY_NR_def)
  have sp: "statics s' = statics s" using *(8) by (intro ext)
  show ?thesis
  proof (cases "t = x")
    case True
    with * show ?thesis by simp
  next
    case False
    have "x \<in> set (queue s' p)" using xq *(1,4) False by auto
    moreover have "requeued s' = (queue s')(priority (age (tasks s' t)) := queue s' (priority (age (tasks s' t))) @ [t])"
      using *(5) by (simp add: requeued_def Let_def)
    moreover have "priority (age (tasks s' t)) = (if r + 1 \<ge> 4 then statics s t else r + 1)"
      using *(7,8) by (simp add: age_def MAX_PRIORITY_NR_def)
    moreover have "statics s t \<le> r"
      using queues_okD(8) [OF sched_inv_queues [OF *(6)], of t] *(7,8) by simp
    ultimately show ?thesis
      using ahead_less [where sp = "statics s" and q = "requeued s" and r = r and t = t and x = x and p = p,
          OF *(1,2) False xq p refl \<open>statics s t \<le> r\<close>] * False sp by auto
  qed
qed

lemma resched_reaches:
  assumes "sched_inv (run k)" "\<And>i. resched (run i) (run (Suc i))"
    and "x \<noteq> cur (run k)" "x \<in> set (queue (run k) p)"
    and "ahead (statics (run k)) (requeued (run k)) p x \<le> m"
  shows "\<exists>n \<le> k + m + 1. cur (run n) = x"
  using assms
proof (induction m arbitrary: k)
  case 0
  with resched_ahead [OF 0(1) 0(2) [of k] 0(3,4)] have "cur (run (Suc k)) = x" by auto
  then show ?case by (intro exI [of _ "Suc k"]) simp
next
  case (Suc m)
  note step = resched_ahead [OF Suc(2) Suc(3) [of k] Suc(4,5)]
  show ?case
  proof (cases "cur (run (Suc k)) = x")
    case True
    then show ?thesis by (intro exI [of _ "Suc k"]) simp
  next
    case False
    with step Suc(6) Suc(1) [of "Suc k"] Suc(3) show ?thesis by fastforce
  qed
qed

subsection \<open>Properties\<close>


definition demo_sched :: sched where
  "demo_sched = the (kthread_start (the (kthread_start (boot 0) 1 2)) 2 (-5))"

lemma demo_reachable: "sched_reachable 0 demo_sched"
proof -
  have "kthread_start (boot 0) 1 2 = Some (the (kthread_start (boot 0) 1 2))"
    using start_spec [OF boot_inv, of 1 0 2] by (auto simp: boot_def)
  then have 1: "sched_reachable 0 (the (kthread_start (boot 0) 1 2))"
    by (intro sched_reachable.step [OF sched_reachable.init] sched_step.start [of 1])
      (auto simp: active_def boot_def)
  have q: "2 \<notin> active (the (kthread_start (boot 0) 1 2))"
    using start_spec [OF boot_inv, of 1 0 2] by (auto simp: active_def boot_def task_init_def)
  then obtain s' where "kthread_start (the (kthread_start (boot 0) 1 2)) 2 (-5) = Some s'"
    using start_spec [of "the (kthread_start (boot 0) 1 2)" 2 "-5"] reachable_inv [OF 1]
    by (auto simp: active_def)
  with sched_step.start [OF q this] 1 show ?thesis
    by (auto simp: demo_sched_def intro: sched_reachable.step)
qed


text \<open>
  A switch picks the best task: after a yield or after the current task blocks, no waiting task
  has a better priority than the one that runs, and it was the first of its queue. The task that
  yielded waits at the tail of the queue one priority down, or of its static priority.
\<close>

theorem sched_best:
  assumes "sched_inv s"
    and "task_yeild s = Some s' \<and> q = requeued s \<or> task_block s st = Some s' \<and> q = queue s"
  shows "\<exists>p ts. q p = cur s' # ts \<and> queue s' = q(p := ts) \<and> (\<forall>i t. t \<in> set (queue s' i) \<longrightarrow> p \<le> i)"
  using assms(2)
proof
  assume y: "task_yeild s = Some s' \<and> q = requeued s"
  then have "resched s s'" by (simp add: resched_def)
  then show ?thesis
  proof (rule resched_cases [OF assms(1)])
    fix p t ts
    assume *: "requeued s p = t # ts" "\<And>i. i < p \<Longrightarrow> requeued s i = []"
      "queue s' = (requeued s)(p := ts)" "cur s' = t"
    then have "p \<le> i" if "u \<in> set (queue s' i)" for i u using that by (cases "i < p") auto
    with * y show ?thesis by (intro exI [of _ p] exI [of _ ts]) simp
  qed
next
  assume b: "task_block s st = Some s' \<and> q = queue s"
  then have st: "st \<in> {TASK_BLOCKED, TASK_WAITING, TASK_STOPPED, TASK_HANGING, TASK_ZOMBIE}"
    by (auto simp: task_block_def split: if_splits)
  show ?thesis
  proof (cases rule: block_spec [OF assms(1) st])
    case 1
    with b show ?thesis by simp
  next
    case (2 p t ts s1)
    then have "s1 = s'" using b by simp
    then have "p \<le> i" if "u \<in> set (queue s' i)" for i u using that 2 by (cases "i < p") auto
    with 2 b \<open>s1 = s'\<close> show ?thesis by (intro exI [of _ p] exI [of _ ts]) simp
  qed
qed

theorem sched_best_witness:
  "\<exists>s' p ts. task_yeild demo_sched = Some s' \<and> requeued demo_sched p = cur s' # ts \<and>
     (\<forall>i. p \<le> i \<or> queue s' i = [])"
proof -
  have inv: "sched_inv demo_sched" using reachable_inv [OF demo_reachable] by simp
  then obtain s' where y: "task_yeild demo_sched = Some s'" using yield_spec by blast
  with sched_best [OF inv, of s' "requeued demo_sched" TASK_BLOCKED] obtain p ts where
    *: "requeued demo_sched p = cur s' # ts" "\<forall>i t. t \<in> set (queue s' i) \<longrightarrow> p \<le> i"
    by blast
  have "p \<le> i \<or> queue s' i = []" for i
    using *(2) [rule_format, of "hd (queue s' i)" i] by (cases "queue s' i") auto
  with y *(1) show ?thesis by blast
qed

text \<open>
  C4. No ready task starves: if tasks only get preempted (by ticks or by yielding) from a state on,
  every task of the ready queues runs after at most four preemptions per ready task and one more.
  The ageing of \<open>get_next_task\<close> makes this true even for tasks of the idle priority.
\<close>

theorem sched_no_starvation:
  assumes "sched_inv (run 0)" "\<And>i :: nat. resched (run i) (run (Suc i))"
    and "x \<in> set (queue (run 0) p)"
  shows "\<exists>n \<le> 4 * ready_count (queue (run 0)) + 1. cur (run n) = x"
proof -
  note inv = assms(1)
  have "x \<noteq> cur (run 0)" using sched_inv_cur [OF inv, of p] assms(3) by auto
  have p: "p < 4" using queues_okD(2) [OF sched_inv_queues [OF inv] assms(3)] by (simp add: MAX_PRIORITY_NR_def)
  let ?a = "priority (age (tasks (run 0) (cur (run 0))))"
  have "?a < MAX_PRIORITY_NR"
    using age_bounds [OF queues_okD(8,9) [OF sched_inv_queues [OF inv]]] by blast
  then have "ready_count (requeued (run 0)) = ready_count (queue (run 0)) + 1"
    using ready_count_upd [of ?a "queue (run 0)" "queue (run 0) ?a @ [cur (run 0)]"]
    by (simp add: requeued_def Let_def)
  moreover have "x \<in> set (requeued (run 0) p)" using assms(3) by (auto simp: requeued_def Let_def)
  ultimately have "ahead (statics (run 0)) (requeued (run 0)) p x \<le> 4 * ready_count (queue (run 0))"
    using ahead_bound [of x "requeued (run 0)" p "statics (run 0)"] p by simp
  from resched_reaches [OF inv assms(2) \<open>x \<noteq> cur (run 0)\<close> assms(3) this] show ?thesis by simp
qed

primrec yields :: "nat \<Rightarrow> sched" where
  "yields 0 = demo_sched"
| "yields (Suc n) = the (task_yeild (yields n))"

theorem sched_no_starvation_witness: "\<exists>n \<le> 9. cur (yields n) = 1"
proof -
  have inv: "sched_inv (yields n)" for n
  proof (induction n)
    case 0
    then show ?case using reachable_inv [OF demo_reachable] by simp
  next
    case (Suc n)
    with yield_spec [OF this] show ?case by auto
  qed
  have run: "resched (yields i) (yields (Suc i))" for i
    using yield_spec [OF inv [of i]] by (auto simp: resched_def)
  have q: "queue demo_sched 0 = [2]" "queue demo_sched 1 = []" "queue demo_sched 2 = [1]"
    "queue demo_sched 3 = []"
    by code_simp+
  have "ready_count (queue demo_sched) = 2"
    unfolding ready_count_def MAX_PRIORITY_NR_def by code_simp
  then show ?thesis
    using sched_no_starvation [where run = yields and x = 1 and p = 2, OF inv run] q by simp
qed

end
