(* ===== verification/Pmem.thy ===== *)
theory Pmem
  imports Prelude
begin

section \<open>Physical pages\<close>

text \<open>
  \<open>src/src/arch/x86/mach-i386/mm/pmem.c\<close> and the boot allocator \<open>bootmem.c\<close>. The node table is a
  function from the node's index; \<open>mem_node_count\<close> and \<open>mem_node_base\<close> are the globals of the code. A
  node's \<open>cache\<close> and \<open>group\<close> are the pointers the object caches put there. \<open>Panic\<close> is the kernel's
  \<open>panic\<close> or a failed assertion.
\<close>

datatype 'a kret = Panic | Ret 'a

record mem_node =
  nd_count :: u32
  nd_flags :: u32
  nd_reference :: u32
  nd_cache :: "nat option"
  nd_group :: "nat option"

record pmem =
  mem_node_table :: "nat \<Rightarrow> mem_node"
  mem_node_count :: nat
  mem_node_base :: u32
  total_pmem_size :: u32

definition MEM_NODE_DMA :: u32 where
  "MEM_NODE_DMA = 1"

definition MEM_NODE_NORMAL :: u32 where
  "MEM_NODE_NORMAL = 2"

text \<open>\<open>DMA_MEM_SIZE >> PAGE_SHIFT\<close>: the nodes of the DMA zone.\<close>

definition DMA_NODES :: nat where
  "DMA_NODES = unat (drop_bit 12 (0x800000 :: u32))"

text \<open>The loop that \<open>get_free_mem_node\<close> and \<open>__get_free_page_nr\<close> share: how far to go from a node.\<close>

definition node_step :: "mem_node \<Rightarrow> nat" where
  "node_step nd = (if nd_count nd \<noteq> 0 then unat (nd_count nd) else 1)"

lemma node_step_pos [simp]: "0 < node_step nd"
  by (simp add: node_step_def unat_gt_0)

function find_free :: "(nat \<Rightarrow> mem_node) \<Rightarrow> nat \<Rightarrow> nat \<Rightarrow> nat option" where
  "find_free tab n i =
     (if i < n then if nd_reference (tab i) = 0 then Some i else find_free tab n (i + node_step (tab i))
      else None)"
  by pat_completeness auto
termination
  by (relation "measure (\<lambda>(tab, n, i). n - i)") (auto simp: diff_less_mono2)

declare find_free.simps [simp del]

definition get_free_mem_node :: "pmem \<Rightarrow> u32 \<Rightarrow> nat option kret" where
  "get_free_mem_node pm flags =
     (if flags AND MEM_NODE_DMA \<noteq> 0 then Ret (find_free (mem_node_table pm) (mem_node_count pm) 0)
      else if flags AND MEM_NODE_NORMAL \<noteq> 0
      then Ret (find_free (mem_node_table pm) (mem_node_count pm) DMA_NODES)
      else Panic)"

definition page2mem_node :: "pmem \<Rightarrow> u32 \<Rightarrow> nat option" where
  "page2mem_node pm page =
     (let index = unat (drop_bit 12 (page - mem_node_base pm))
      in if index \<ge> mem_node_count pm then None else Some index)"

definition mem_node2page :: "pmem \<Rightarrow> nat \<Rightarrow> u32" where
  "mem_node2page pm index = mem_node_base pm + push_bit 12 (of_nat index)"

function count_free :: "(nat \<Rightarrow> mem_node) \<Rightarrow> nat \<Rightarrow> nat \<Rightarrow> nat \<Rightarrow> nat" where
  "count_free tab n i free_nodes =
     (if i < n
      then count_free tab n (i + node_step (tab i))
             (if nd_reference (tab i) = 0 then free_nodes + 1 else free_nodes)
      else free_nodes)"
  by pat_completeness auto
termination
  by (relation "measure (\<lambda>(tab, n, i, f). n - i)") (auto simp: diff_less_mono2)

declare count_free.simps [simp del]

definition get_free_page_nr :: "pmem \<Rightarrow> nat" where
  "get_free_page_nr pm = count_free (mem_node_table pm) (mem_node_count pm) 0 0"

definition get_total_page_nr :: "pmem \<Rightarrow> u32" where
  "get_total_page_nr pm = total_pmem_size pm div PAGE_SIZE"

definition set_node :: "pmem \<Rightarrow> nat \<Rightarrow> mem_node \<Rightarrow> pmem" where
  "set_node pm i nd = pm\<lparr>mem_node_table := (mem_node_table pm)(i := nd)\<rparr>"

text \<open>\<open>__alloc_pages\<close>: the physical address (0 on failure) and the table. The index and the unsigned
  \<open>count\<close> are added at 32 bits.\<close>

definition alloc_pages_flags :: "pmem \<Rightarrow> u32 \<Rightarrow> u32 \<Rightarrow> (u32 \<times> pmem) kret" where
  "alloc_pages_flags pm count flags =
     (case get_free_mem_node pm flags of
        Panic \<Rightarrow> Panic
      | Ret None \<Rightarrow> Ret (0, pm)
      | Ret (Some index) \<Rightarrow>
          if of_nat index + count > of_nat (mem_node_count pm) then Ret (0, pm)
          else Ret (mem_node2page pm index,
                 set_node pm index \<lparr>nd_count = count, nd_flags = 0, nd_reference = 1,
                   nd_cache = None, nd_group = None\<rparr>))"

definition alloc_pages :: "pmem \<Rightarrow> u32 \<Rightarrow> (u32 \<times> pmem) kret" where
  "alloc_pages pm count = alloc_pages_flags pm count MEM_NODE_NORMAL"

definition free_pages :: "pmem \<Rightarrow> u32 \<Rightarrow> int \<times> pmem" where
  "free_pages pm page =
     (case page2mem_node pm page of
        None \<Rightarrow> (-1, pm)
      | Some i \<Rightarrow>
          let nd = (mem_node_table pm i)\<lparr>nd_reference := nd_reference (mem_node_table pm i) - 1\<rparr>
          in if nd_reference nd = 0 then (0, set_node pm i (nd\<lparr>nd_count := 0, nd_flags := 0\<rparr>))
             else (-1, set_node pm i nd))"

subsection \<open>The boot allocator\<close>

record boot_mem =
  start_addr :: u32
  cur_addr :: u32
  top_addr :: u32

definition ALIGN_WITH :: "u32 \<Rightarrow> u32 \<Rightarrow> u32" where
  "ALIGN_WITH x s = (x + s - 1) AND NOT (s - 1)"

definition init_boot_mem :: "u32 \<Rightarrow> u32 \<Rightarrow> boot_mem" where
  "init_boot_mem start end = \<lparr>start_addr = start, cur_addr = start, top_addr = end\<rparr>"

definition boot_mem_alloc :: "boot_mem \<Rightarrow> u32 \<Rightarrow> u32 option \<times> boot_mem" where
  "boot_mem_alloc b sz =
     (let addr = cur_addr b; b = b\<lparr>cur_addr := ALIGN_WITH (cur_addr b + sz) 32\<rparr>
      in if cur_addr b \<ge> top_addr b then (None, b) else (Some addr, b))"

definition boot_mem_pos :: "boot_mem \<Rightarrow> u32" where
  "boot_mem_pos b = cur_addr b"

definition boot_mem_size :: "boot_mem \<Rightarrow> u32" where
  "boot_mem_size b = cur_addr b - start_addr b"

definition cut_used_mem :: "pmem \<Rightarrow> boot_mem \<Rightarrow> pmem kret" where
  "cut_used_mem pm b =
     (case alloc_pages pm (DIV_ROUND_UP (boot_mem_size b) PAGE_SIZE) of
        Panic \<Rightarrow> Panic | Ret (_, pm') \<Rightarrow> Ret pm')"

subsection \<open>Disjoint blocks\<close>

text \<open>
  A node with a reference is the head of an allocated block of \<open>nd_count\<close> pages. The table is sound
  when no two blocks share a page, none leaves the table and none runs from the DMA zone into the
  normal one.
\<close>

definition allocated :: "pmem \<Rightarrow> nat \<Rightarrow> bool" where
  "allocated pm i \<longleftrightarrow> i < mem_node_count pm \<and> nd_reference (mem_node_table pm i) \<noteq> 0"

definition block_end :: "pmem \<Rightarrow> nat \<Rightarrow> nat" where
  "block_end pm i = i + unat (nd_count (mem_node_table pm i))"

definition pmem_ok :: "pmem \<Rightarrow> bool" where
  "pmem_ok pm \<longleftrightarrow>
     (\<forall>i. allocated pm i \<longrightarrow> i < block_end pm i \<and> block_end pm i \<le> mem_node_count pm \<and>
        (i < DMA_NODES \<longrightarrow> block_end pm i \<le> DMA_NODES)) \<and>
     (\<forall>i j. i < j \<longrightarrow> allocated pm i \<longrightarrow> allocated pm j \<longrightarrow> block_end pm i \<le> j)"

lemma DMA_NODES_val: "DMA_NODES = 2048"
  by (simp add: DMA_NODES_def)

lemma find_free_Some:
  assumes "find_free tab n i = Some k"
  shows "i \<le> k" "k < n" "nd_reference (tab k) = 0"
  using assms by (induction tab n i rule: find_free.induct)
    (subst (asm) find_free.simps, force split: if_splits)+

text \<open>The walk never stops inside a block that starts at or after its first node.\<close>

lemma find_free_not_inside:
  assumes "find_free tab n i = Some k"
    and ok: "\<And>u v. u < v \<Longrightarrow> u < n \<Longrightarrow> v < n \<Longrightarrow> nd_reference (tab u) \<noteq> 0 \<Longrightarrow> nd_reference (tab v) \<noteq> 0 \<Longrightarrow>
      u + unat (nd_count (tab u)) \<le> v"
    and v: "i \<le> v" "v < k" "nd_reference (tab v) \<noteq> 0"
  shows "v + unat (nd_count (tab v)) \<le> k"
  using assms
proof (induction tab n i rule: find_free.induct [case_names step])
  case (step tab n i)
  note ok = step.prems(2) and v = step.prems(3-5)
  from v(1,2) find_free_Some(2) [OF step.prems(1)] have "i < n" "v < n" by auto
  have used: "nd_reference (tab i) \<noteq> 0"
  proof
    assume "nd_reference (tab i) = 0"
    with \<open>i < n\<close> step.prems(1) v(1,2) show False by (simp add: find_free.simps [of tab n i])
  qed
  with \<open>i < n\<close> step.prems(1) have rest: "find_free tab n (i + node_step (tab i)) = Some k"
    by (simp add: find_free.simps [of tab n i])
  show ?case
  proof (cases "v = i")
    case True
    with find_free_Some(1) [OF rest] v(2) show ?thesis by (auto simp: node_step_def split: if_splits)
  next
    case False
    with v(1) have "i < v" by simp
    with ok [OF this \<open>i < n\<close> \<open>v < n\<close> used v(3)] have "i + node_step (tab i) \<le> v"
      by (auto simp: node_step_def)
    with step.IH [OF \<open>i < n\<close> used rest ok] v show ?thesis by blast
  qed
qed

lemma alloc_pages_cases:
  assumes "pmem_ok pm" and "alloc_pages_flags pm count flags = Ret (page, pm')"
  obtains (none) "page = 0" "pm' = pm"
  | (some) i where "page = mem_node2page pm i" "i < mem_node_count pm" "\<not> allocated pm i"
      "\<And>j. allocated pm j \<Longrightarrow> j < i \<Longrightarrow> block_end pm j \<le> i"
      "flags AND MEM_NODE_DMA = 0 \<longrightarrow> DMA_NODES \<le> i"
      "\<not> of_nat i + count > of_nat (mem_node_count pm)"
      "pm' = set_node pm i \<lparr>nd_count = count, nd_flags = 0, nd_reference = 1, nd_cache = None, nd_group = None\<rparr>"
proof -
  let ?tab = "mem_node_table pm" and ?n = "mem_node_count pm"
  define s where "s = (if flags AND MEM_NODE_DMA \<noteq> 0 then 0 else DMA_NODES)"
  obtain r where r: "get_free_mem_node pm flags = Ret r" "r = find_free ?tab ?n s"
    using assms(2) by (auto simp: alloc_pages_flags_def get_free_mem_node_def s_def split: if_splits)
  show ?thesis
  proof (cases r)
    case None
    with r assms(2) that(1) show ?thesis by (simp add: alloc_pages_flags_def)
  next
    case (Some i)
    with r have f: "find_free ?tab ?n s = Some i" by simp
    note fs = find_free_Some [OF f]
    have inside: "block_end pm j \<le> i" if j: "allocated pm j" "j < i" for j
    proof (cases "s \<le> j")
      case True
      have "j + unat (nd_count (?tab j)) \<le> i"
        by (rule find_free_not_inside [OF f]) (use assms(1) j True in \<open>auto simp: pmem_ok_def allocated_def block_end_def\<close>)
      then show ?thesis by (simp add: block_end_def)
    next
      case False
      then have "j < DMA_NODES" "s = DMA_NODES" by (auto simp: s_def split: if_splits)
      with assms(1) j(1) fs(1) show ?thesis by (auto simp: pmem_ok_def)
    qed
    show ?thesis
    proof (cases "of_nat i + count > of_nat ?n")
      case True
      with r(1) Some assms(2) that(1) show ?thesis by (simp add: alloc_pages_flags_def)
    next
      case False
      have zone: "flags AND MEM_NODE_DMA = 0 \<longrightarrow> DMA_NODES \<le> i"
        using fs(1) by (simp add: s_def split: if_splits)
      from False r(1) Some assms(2) have "page = mem_node2page pm i"
        "pm' = set_node pm i \<lparr>nd_count = count, nd_flags = 0, nd_reference = 1, nd_cache = None, nd_group = None\<rparr>"
        by (simp_all add: alloc_pages_flags_def)
      with False fs zone inside that(2) [of i] show ?thesis by (simp add: allocated_def)
    qed
  qed
qed

lemma allocated_set_node [simp]:
  "allocated (set_node pm i nd) j \<longleftrightarrow>
     (if j = i then i < mem_node_count pm \<and> nd_reference nd \<noteq> 0 else allocated pm j)"
  by (simp add: allocated_def set_node_def)

lemma block_end_set_node [simp]:
  "block_end (set_node pm i nd) j = (if j = i then i + unat (nd_count nd) else block_end pm j)"
  by (simp add: block_end_def set_node_def)

lemma set_node_fields [simp]:
  "mem_node_count (set_node pm i nd) = mem_node_count pm" "mem_node_base (set_node pm i nd) = mem_node_base pm"
  "mem_node_table (set_node pm i nd) j = (if j = i then nd else mem_node_table pm j)"
  by (simp_all add: set_node_def)

text \<open>A block put on a free node keeps the table sound exactly when the pages it takes are free.\<close>

lemma new_block_ok:
  assumes ok: "pmem_ok pm" and i: "i < mem_node_count pm"
    and before: "\<And>j. allocated pm j \<Longrightarrow> j < i \<Longrightarrow> block_end pm j \<le> i"
    and nd: "nd_reference nd \<noteq> 0" and free: "\<not> allocated pm i"
    and c: "1 \<le> unat (nd_count nd)" "i + unat (nd_count nd) \<le> mem_node_count pm"
      "i < DMA_NODES \<longrightarrow> i + unat (nd_count nd) \<le> DMA_NODES"
  shows "pmem_ok (set_node pm i nd) \<longleftrightarrow> (\<forall>j. i < j \<and> j < i + unat (nd_count nd) \<longrightarrow> \<not> allocated pm j)"
proof
  assume sound: "pmem_ok (set_node pm i nd)"
  have "i + unat (nd_count nd) \<le> j" if "i < j" "allocated pm j" for j
    using sound [unfolded pmem_ok_def, THEN conjunct2, rule_format, of i j] that i nd by auto
  then show "\<forall>j. i < j \<and> j < i + unat (nd_count nd) \<longrightarrow> \<not> allocated pm j" by force
next
  assume free_run: "\<forall>j. i < j \<and> j < i + unat (nd_count nd) \<longrightarrow> \<not> allocated pm j"
  have "block_end (set_node pm i nd) u \<le> v"
    if "u < v" "allocated (set_node pm i nd) u" "allocated (set_node pm i nd) v" for u v
    using that ok before free_run by (auto simp: pmem_ok_def not_le split: if_splits)
  moreover have "u < block_end (set_node pm i nd) u \<and> block_end (set_node pm i nd) u \<le> mem_node_count pm \<and>
      (u < DMA_NODES \<longrightarrow> block_end (set_node pm i nd) u \<le> DMA_NODES)"
    if "allocated (set_node pm i nd) u" for u
    using that ok c by (auto simp: pmem_ok_def split: if_splits)
  ultimately show "pmem_ok (set_node pm i nd)" by (simp add: pmem_ok_def)
qed

lemma free_block_ok:
  assumes ok: "pmem_ok pm"
  shows "pmem_ok (snd (free_pages pm page)) \<or>
    (\<exists>i. page2mem_node pm page = Some i \<and> \<not> allocated pm i)"
proof (cases "page2mem_node pm page")
  case None
  with ok show ?thesis by (simp add: free_pages_def)
next
  case (Some i)
  show ?thesis
  proof (cases "allocated pm i")
    case True
    then have "pmem_ok (snd (free_pages pm page))"
      using ok Some by (auto simp: free_pages_def Let_def pmem_ok_def block_end_def split: if_splits)
    then show ?thesis ..
  qed (use Some in blast)
qed

subsection \<open>Addresses\<close>

lemma unat_of_small: "n < 2 ^ 20 \<Longrightarrow> unat (of_nat n :: u32) = n"
  by (simp add: unsigned_of_nat take_bit_nat_eq_self)

lemma unat_page_offset:
  assumes "n < 2 ^ 20"
  shows "unat (push_bit 12 (of_nat n) :: u32) = n * 4096"
proof -
  have "unat (push_bit 12 (of_nat n) :: u32) = take_bit 32 (push_bit 12 n)"
    by (simp only: unsigned_push_bit_eq unat_of_small [OF assms]) simp
  also have "\<dots> = n * 4096"
    using assms by (simp add: push_bit_eq_mult take_bit_nat_eq_self)
  finally show ?thesis .
qed

lemma page_roundtrip:
  assumes "i < mem_node_count pm" "i < 2 ^ 20"
  shows "page2mem_node pm (mem_node2page pm i) = Some i"
proof -
  have "unat (drop_bit 12 (push_bit 12 (of_nat i) :: u32)) = i"
    using assms(2) by (simp only: unsigned_drop_bit_eq unat_page_offset [OF assms(2)])
      (simp add: drop_bit_eq_div take_bit_nat_eq_self)
  with assms(1) show ?thesis by (simp add: page2mem_node_def mem_node2page_def Let_def)
qed

subsection \<open>Properties\<close>

text \<open>
  C5. Single pages are allocated soundly: in a table whose blocks are disjoint, asking for one page
  either fails or returns the page of a node outside every block, and the table stays sound.
\<close>

theorem alloc_page_sound:
  assumes "pmem_ok pm" "mem_node_count pm < 2 ^ 20" "alloc_pages pm 1 = Ret (page, pm')"
  shows "page = 0 \<and> pm' = pm \<or>
    (\<exists>i. page = mem_node2page pm i \<and> page2mem_node pm page = Some i \<and> \<not> allocated pm i \<and>
       (\<forall>j. allocated pm j \<longrightarrow> \<not> (j \<le> i \<and> i < block_end pm j)) \<and> allocated pm' i \<and> pmem_ok pm')"
proof (rule alloc_pages_cases [OF assms(1) assms(3) [unfolded alloc_pages_def]])
  fix i
  assume *: "page = mem_node2page pm i" "i < mem_node_count pm" "\<not> allocated pm i"
    "\<And>j. allocated pm j \<Longrightarrow> j < i \<Longrightarrow> block_end pm j \<le> i"
    "pm' = set_node pm i \<lparr>nd_count = 1, nd_flags = 0, nd_reference = 1, nd_cache = None, nd_group = None\<rparr>"
  have "pmem_ok pm'"
    unfolding *(5) by (subst new_block_ok [OF assms(1) *(2,4) _ *(3)]) (use *(2) in auto)
  moreover have "\<not> (j \<le> i \<and> i < block_end pm j)" if "allocated pm j" for j
    using *(3) *(4) [OF that] that by (cases "j = i") force+
  ultimately show ?thesis using * assms(2) page_roundtrip [of i pm] by auto
qed simp

definition example_pmem :: pmem where
  "example_pmem = \<lparr>mem_node_table = (\<lambda>i. \<lparr>nd_count = (if i = 2049 then 1 else 0), nd_flags = 0,
      nd_reference = (if i = 2049 then 1 else 0), nd_cache = None, nd_group = None\<rparr>),
     mem_node_count = 4096, mem_node_base = 0x800000, total_pmem_size = 0x4000000\<rparr>"

lemma example_pmem_ok: "pmem_ok example_pmem"
  by (auto simp: pmem_ok_def allocated_def block_end_def example_pmem_def DMA_NODES_val)

lemma example_alloc:
  assumes "\<not> 2048 + c > (4096 :: u32)"
  shows "\<exists>pm'. alloc_pages example_pmem c = Ret (0x1000000, pm')"
    and "mem_node2page example_pmem 2048 = 0x1000000"
proof -
  have "find_free (mem_node_table example_pmem) 4096 2048 = Some 2048"
    by (subst find_free.simps) (simp add: example_pmem_def)
  moreover show "mem_node2page example_pmem 2048 = 0x1000000"
    by (simp add: mem_node2page_def example_pmem_def)
  moreover have "mem_node_count example_pmem = 4096" by (simp add: example_pmem_def)
  ultimately show "\<exists>pm'. alloc_pages example_pmem c = Ret (0x1000000, pm')" using assms
    by (simp add: alloc_pages_def alloc_pages_flags_def get_free_mem_node_def MEM_NODE_DMA_def
        MEM_NODE_NORMAL_def DMA_NODES_val)
qed

theorem alloc_page_sound_witness:
  "\<exists>pm'. alloc_pages example_pmem 1 = Ret (0x1000000, pm') \<and> pmem_ok pm'"
proof -
  obtain page pm' where r: "alloc_pages example_pmem 1 = Ret (page, pm')" "page = 0x1000000"
    using example_alloc(1) [of 1] by auto
  with alloc_page_sound [OF example_pmem_ok _ r(1)] show ?thesis by (auto simp: example_pmem_def)
qed

text \<open>
  Several pages at once are not: \<open>get_free_mem_node\<close> returns the first node without a reference
  and nobody looks at the nodes behind it. When a block of \<open>count\<close> pages is handed out inside the
  zone, the table stays sound exactly when the \<open>count - 1\<close> nodes behind the first are free; otherwise
  the pages of an allocated block are handed out a second time.
\<close>

theorem alloc_pages_overlap:
  assumes "pmem_ok pm" "alloc_pages pm count = Ret (mem_node2page pm i, pm')" "mem_node2page pm i \<noteq> 0"
    and "i < 2 ^ 20" "mem_node_count pm < 2 ^ 20" "1 \<le> unat count" "unat count < 2 ^ 20"
  shows "pmem_ok pm' \<longleftrightarrow> (\<forall>j. i < j \<and> j < i + unat count \<longrightarrow> \<not> allocated pm j)"
proof (rule alloc_pages_cases [OF assms(1) assms(2) [unfolded alloc_pages_def]])
  fix k
  assume *: "mem_node2page pm i = mem_node2page pm k" "k < mem_node_count pm" "\<not> allocated pm k"
    "\<And>j. allocated pm j \<Longrightarrow> j < k \<Longrightarrow> block_end pm j \<le> k"
    "MEM_NODE_NORMAL AND MEM_NODE_DMA = 0 \<longrightarrow> DMA_NODES \<le> k"
    "\<not> of_nat k + count > of_nat (mem_node_count pm)"
    "pm' = set_node pm k \<lparr>nd_count = count, nd_flags = 0, nd_reference = 1, nd_cache = None, nd_group = None\<rparr>"
  have k: "k < 2 ^ 20" using *(2) assms(5) by simp
  have "push_bit 12 (of_nat i) = (push_bit 12 (of_nat k) :: u32)"
    using *(1) by (simp only: mem_node2page_def add_left_cancel)
  then have "i * 4096 = k * 4096"
    by (simp only: unat_page_offset [OF assms(4), symmetric] unat_page_offset [OF k, symmetric])
  then have ik: "i = k" by simp
  have "unat (of_nat k + count) = k + unat count"
    using *(2) assms(5,7) by (simp add: unat_word_ariths unat_of_small)
  with *(6) assms(5) *(2) have fit: "k + unat count \<le> mem_node_count pm"
    by (simp add: word_le_nat_alt not_less unat_of_small)
  have zone: "\<not> k < DMA_NODES" using *(5) by (simp add: MEM_NODE_DMA_def MEM_NODE_NORMAL_def)
  show ?thesis
    unfolding *(7) ik by (subst new_block_ok [OF assms(1) *(2,4) _ *(3)]) (use assms(6) fit zone in auto)
qed (use assms(3) in simp)

theorem alloc_pages_overlap_witness:
  "\<exists>pm'. alloc_pages example_pmem 2 = Ret (0x1000000, pm') \<and> \<not> pmem_ok pm'"
proof -
  note page = example_alloc(2) [of 0, simplified]
  obtain pm' where r: "alloc_pages example_pmem 2 = Ret (mem_node2page example_pmem 2048, pm')"
    using example_alloc(1) [of 2] page by auto
  have "allocated example_pmem 2049" by (simp add: allocated_def example_pmem_def)
  with alloc_pages_overlap [OF example_pmem_ok r] page have "\<not> pmem_ok pm'"
    by (auto simp: example_pmem_def)
  with r page show ?thesis by simp
qed

text \<open>
  A page handed out with reference 1 comes back: freeing it right after the allocation returns 0,
  leaves the other nodes alone and makes its node free again, with the page count 0 that lets the
  search look at each of its pages.
\<close>

theorem alloc_free_roundtrip:
  assumes "pmem_ok pm" "mem_node_count pm < 2 ^ 20" "alloc_pages pm count = Ret (page, pm')" "page \<noteq> 0"
  shows "\<exists>i. page2mem_node pm page = Some i \<and> fst (free_pages pm' page) = 0 \<and>
    \<not> allocated (snd (free_pages pm' page)) i \<and>
    nd_count (mem_node_table (snd (free_pages pm' page)) i) = 0 \<and>
    (\<forall>j. j \<noteq> i \<longrightarrow> mem_node_table (snd (free_pages pm' page)) j = mem_node_table pm j)"
proof (rule alloc_pages_cases [OF assms(1) assms(3) [unfolded alloc_pages_def]])
  fix i
  assume *: "page = mem_node2page pm i" "i < mem_node_count pm"
    "pm' = set_node pm i \<lparr>nd_count = count, nd_flags = 0, nd_reference = 1, nd_cache = None, nd_group = None\<rparr>"
  have i: "page2mem_node pm page = Some i" using page_roundtrip [of i pm] *(1,2) assms(2) by simp
  then have "page2mem_node pm' page = Some i" by (simp add: *(3) page2mem_node_def)
  then show ?thesis using i by (intro exI [of _ i]) (simp add: free_pages_def *(3))
qed (use assms(4) in simp)

theorem alloc_free_roundtrip_witness:
  "\<exists>pm'. alloc_pages example_pmem 3 = Ret (0x1000000, pm') \<and> fst (free_pages pm' 0x1000000) = 0"
proof -
  obtain pm' where r: "alloc_pages example_pmem 3 = Ret (0x1000000, pm')"
    using example_alloc(1) [of 3] by auto
  with alloc_free_roundtrip [OF example_pmem_ok _ r] show ?thesis by (auto simp: example_pmem_def)
qed

end
