(* ===== verification/Paging.thy ===== *)
theory Paging
  imports Pmem
begin

section \<open>Page tables\<close>

text \<open>
  \<open>src/src/arch/x86/mach-i386/mm/page.c\<close>. The current page directory is its 1024 entries \<open>pde\<close>; the
  contents of the page tables are \<open>ptab\<close>, by the physical address of the table. The last entry of
  the directory maps the directory onto itself, so the code's \<open>*get_pte_ptr (va)\<close> is the entry
  \<open>PTE_IDX va\<close> of the table the directory entry points to; with no such table the access is a kernel
  page fault, which panics. The loops over a range of pages run on page-aligned addresses and are
  recursions over the number of pages.
\<close>

record paging =
  pde :: "nat \<Rightarrow> u32"
  ptab :: "u32 \<Rightarrow> nat \<Rightarrow> u32"
  phys :: pmem

definition PG_P_1 :: u32 where "PG_P_1 = 1"
definition PG_RW_R :: u32 where "PG_RW_R = 0"
definition PG_RW_W :: u32 where "PG_RW_W = 2"
definition PG_US_S :: u32 where "PG_US_S = 0"
definition PG_US_U :: u32 where "PG_US_U = 4"
definition PAGE_ADDR_MASK :: u32 where "PAGE_ADDR_MASK = 0xfffff000"
definition PROT_WRITE :: u32 where "PROT_WRITE = 2"
definition PROT_USER :: u32 where "PROT_USER = 0x10"
definition PROT_REMAP :: u32 where "PROT_REMAP = 0x20"
definition USER_VMM_SIZE :: u32 where "USER_VMM_SIZE = 0x80000000"

definition PDE_IDX :: "u32 \<Rightarrow> nat" where
  "PDE_IDX addr = unat (drop_bit 22 (addr AND 0xffc00000))"

definition PTE_IDX :: "u32 \<Rightarrow> nat" where
  "PTE_IDX addr = unat (drop_bit 12 (addr AND 0x003ff000))"

text \<open>The table behind a directory entry, and the value and the update of \<open>*get_pte_ptr (va)\<close>.\<close>

definition table_of :: "paging \<Rightarrow> u32 \<Rightarrow> u32" where
  "table_of m va = pde m (PDE_IDX va) AND PAGE_ADDR_MASK"

definition pte :: "paging \<Rightarrow> u32 \<Rightarrow> u32" where
  "pte m va = ptab m (table_of m va) (PTE_IDX va)"

definition set_pte :: "paging \<Rightarrow> u32 \<Rightarrow> u32 \<Rightarrow> paging" where
  "set_pte m va e = m\<lparr>ptab := (ptab m)(table_of m va := (ptab m (table_of m va))(PTE_IDX va := e))\<rparr>"

definition present :: "u32 \<Rightarrow> bool" where
  "present e \<longleftrightarrow> e AND PG_P_1 \<noteq> 0"

definition pde_present :: "paging \<Rightarrow> u32 \<Rightarrow> bool" where
  "pde_present m va \<longleftrightarrow> present (pde m (PDE_IDX va))"

text \<open>The branch without a page table: a new one is allocated, entered and cleared.\<close>

definition new_table :: "paging \<Rightarrow> u32 \<Rightarrow> u32 \<Rightarrow> paging kret" where
  "new_table m va prot =
     (case alloc_pages (phys m) 1 of
        Panic \<Rightarrow> Panic
      | Ret (page_table, pm) \<Rightarrow>
          if page_table = 0 then Panic
          else let m = m\<lparr>phys := pm, pde := (pde m)(PDE_IDX va := page_table OR prot OR PG_P_1)\<rparr>
               in Ret (m\<lparr>ptab := (ptab m)(table_of m va := (\<lambda>_. 0))\<rparr>))"

definition page_link :: "paging \<Rightarrow> u32 \<Rightarrow> u32 \<Rightarrow> u32 \<Rightarrow> paging kret" where
  "page_link m va pa prot =
     (if pde_present m va
      then if present (pte m va) then Panic else Ret (set_pte m va (pa OR prot OR PG_P_1))
      else case new_table m va prot of
             Panic \<Rightarrow> Panic
           | Ret m \<Rightarrow> if present (pte m va) then Panic else Ret (set_pte m va (pa OR prot OR PG_P_1)))"

definition drop_present :: "paging \<Rightarrow> u32 \<Rightarrow> paging" where
  "drop_present m va =
     (if present (pte m va)
      then set_pte (m\<lparr>phys := snd (free_pages (phys m) (pte m va AND PAGE_ADDR_MASK))\<rparr>) va 0
      else m)"

definition page_link_unsafe :: "paging \<Rightarrow> u32 \<Rightarrow> u32 \<Rightarrow> u32 \<Rightarrow> paging kret" where
  "page_link_unsafe m va pa prot =
     (if pde_present m va
      then let m = drop_present m va
           in if \<not> present (pte m va) then Ret (set_pte m va (pa OR prot OR PG_P_1)) else Panic
      else case new_table m va prot of
             Panic \<Rightarrow> Panic
           | Ret m \<Rightarrow> Ret (set_pte (drop_present m va) va (pa OR prot OR PG_P_1)))"

definition page_unlink :: "paging \<Rightarrow> u32 \<Rightarrow> paging kret" where
  "page_unlink m va =
     (if \<not> pde_present m va then Panic
      else if present (pte m va) then Ret (set_pte m va (pte m va AND NOT PG_P_1)) else Ret m)"

definition page_attr :: "u32 \<Rightarrow> u32" where
  "page_attr prot = (if prot AND PROT_USER \<noteq> 0 then PG_US_U else PG_US_S) OR
     (if prot AND PROT_WRITE \<noteq> 0 then PG_RW_W else PG_RW_R)"

text \<open>\<open>while (first < end)\<close> with both ends page aligned.\<close>

definition range_pages :: "u32 \<Rightarrow> u32 \<Rightarrow> nat" where
  "range_pages first end = (if first < end then unat (drop_bit 12 (end - first)) else 0)"

fun link_range :: "(paging \<Rightarrow> u32 \<Rightarrow> u32 \<Rightarrow> u32 \<Rightarrow> paging kret) \<Rightarrow> paging \<Rightarrow> u32 \<Rightarrow> u32 \<Rightarrow> u32 \<Rightarrow> nat \<Rightarrow> paging kret" where
  "link_range link m first pages attr 0 = Ret m"
| "link_range link m first pages attr (Suc n) =
     (case link m first pages attr of Panic \<Rightarrow> Panic
      | Ret m \<Rightarrow> link_range link m (first + PAGE_SIZE) (pages + PAGE_SIZE) attr n)"

definition map_pages :: "paging \<Rightarrow> u32 \<Rightarrow> u32 \<Rightarrow> u32 \<Rightarrow> (int \<times> paging) kret" where
  "map_pages m start len0 prot =
     (let first = start AND PAGE_MASK; len = PAGE_ALIGN len0; attr = page_attr prot
      in case alloc_pages (phys m) (len div PAGE_SIZE) of
           Panic \<Rightarrow> Panic
         | Ret (pages, pm) \<Rightarrow>
             if pages = 0 then Ret (-1, m\<lparr>phys := pm\<rparr>)
             else case link_range page_link (m\<lparr>phys := pm\<rparr>) first pages attr (range_pages first (first + len)) of
                    Panic \<Rightarrow> Panic | Ret m \<Rightarrow> Ret (0, m))"

definition map_pages_fixed :: "paging \<Rightarrow> u32 \<Rightarrow> u32 \<Rightarrow> u32 \<Rightarrow> u32 \<Rightarrow> (int \<times> paging) kret" where
  "map_pages_fixed m start addr len0 prot =
     (let first = start AND PAGE_MASK; len = PAGE_ALIGN len0; attr = page_attr prot;
          link = (if prot AND PROT_REMAP \<noteq> 0 then page_link_unsafe else page_link)
      in case link_range link m first addr attr (range_pages first (first + len)) of
           Panic \<Rightarrow> Panic | Ret m \<Rightarrow> Ret (0, m))"

definition addr_v2p :: "paging \<Rightarrow> u32 \<Rightarrow> u32 kret" where
  "addr_v2p m vaddr =
     (if \<not> pde_present m vaddr then Panic
      else Ret ((pte m vaddr AND 0xfffff000) + (vaddr AND 0x00000fff)))"

fun unlink_range :: "paging \<Rightarrow> u32 \<Rightarrow> nat \<Rightarrow> paging kret" where
  "unlink_range m start 0 = Ret m"
| "unlink_range m start (Suc n) =
     (case page_unlink m start of Panic \<Rightarrow> Panic | Ret m \<Rightarrow> unlink_range m (start + PAGE_SIZE) n)"

definition unmap_pages :: "paging \<Rightarrow> u32 \<Rightarrow> u32 \<Rightarrow> (int \<times> paging) kret" where
  "unmap_pages m vaddr len0 =
     (if len0 = 0 then Ret (-1, m)
      else let len = PAGE_ALIGN len0; start = vaddr AND PAGE_MASK
           in case addr_v2p m start of
                Panic \<Rightarrow> Panic
              | Ret paddr \<Rightarrow>
                  (case unlink_range m start (range_pages start (start + len)) of
                     Panic \<Rightarrow> Panic
                   | Ret m \<Rightarrow> Ret (0, m\<lparr>phys := snd (free_pages (phys m) paddr)\<rparr>)))"

text \<open>\<open>__map_pages_safe\<close>: the attribute of a page without \<open>PROT_WRITE\<close> is \<open>PG_RW_W\<close>, too.\<close>

definition page_attr_safe :: "u32 \<Rightarrow> u32" where
  "page_attr_safe prot = (if prot AND PROT_USER \<noteq> 0 then PG_US_U else PG_US_S) OR
     (if prot AND PROT_WRITE \<noteq> 0 then PG_RW_W else PG_RW_W)"

fun map_safe_range :: "paging \<Rightarrow> u32 \<Rightarrow> u32 \<Rightarrow> nat \<Rightarrow> (int \<times> paging) kret" where
  "map_safe_range m vaddr attr 0 = Ret (0, m)"
| "map_safe_range m vaddr attr (Suc n) =
     (if \<not> pde_present m vaddr \<or> \<not> present (pte m vaddr)
      then case alloc_pages (phys m) 1 of
             Panic \<Rightarrow> Panic
           | Ret (page_addr, pm) \<Rightarrow>
               if page_addr = 0 then Ret (-1, m\<lparr>phys := pm\<rparr>)
               else (case page_link (m\<lparr>phys := pm\<rparr>) vaddr page_addr attr of
                       Panic \<Rightarrow> Panic
                     | Ret m \<Rightarrow> map_safe_range m (vaddr + PAGE_SIZE) attr n)
      else map_safe_range m (vaddr + PAGE_SIZE) attr n)"

definition map_pages_safe :: "paging \<Rightarrow> u32 \<Rightarrow> u32 \<Rightarrow> u32 \<Rightarrow> (int \<times> paging) kret" where
  "map_pages_safe m start len0 prot =
     (let vaddr = start AND PAGE_MASK; len = PAGE_ALIGN len0; pages = DIV_ROUND_UP len PAGE_SIZE
      in map_safe_range m vaddr (page_attr_safe prot) (unat pages))"

text \<open>The loop of \<open>is_page_table_empty\<close> runs from 0 while \<open>i < 0\<close>.\<close>

fun table_empty_loop :: "(nat \<Rightarrow> u32) \<Rightarrow> nat list \<Rightarrow> bool" where
  "table_empty_loop t [] = True"
| "table_empty_loop t (i # is) = (if present (t i) then False else table_empty_loop t is)"

definition is_page_table_empty :: "(nat \<Rightarrow> u32) \<Rightarrow> bool" where
  "is_page_table_empty t = table_empty_loop t [0..<0]"

definition free_phys :: "paging \<Rightarrow> u32 \<Rightarrow> paging" where
  "free_phys m page = m\<lparr>phys := snd (free_pages (phys m) page)\<rparr>"

definition unmap_one :: "paging \<Rightarrow> u32 \<Rightarrow> bool \<Rightarrow> paging" where
  "unmap_one m vaddr fixed =
     (if present (pte m vaddr)
      then let e = pte m vaddr; m = (if \<not> fixed then free_phys m (e AND PAGE_ADDR_MASK) else m)
           in set_pte m vaddr (e AND NOT PG_P_1)
      else m)"

text \<open>
  The inner loop of \<open>__unmap_pages_safe\<close> for one page table: the state, the next address, the pages
  left and whether the code jumps to \<open>end\<close>.
\<close>

fun unmap_table :: "paging \<Rightarrow> u32 \<Rightarrow> nat \<Rightarrow> bool \<Rightarrow> paging \<times> u32 \<times> nat \<times> bool" where
  "unmap_table m vaddr 0 fixed = (m, vaddr, 0, True)"
| "unmap_table m vaddr (Suc pages) fixed =
     (let m = unmap_one m vaddr fixed
      in if pages = 0
         then ((if is_page_table_empty (ptab m (table_of m vaddr)) then free_phys m (table_of m vaddr) else m),
               vaddr + PAGE_SIZE, pages, True)
         else if PTE_IDX vaddr = 1023 then (m, vaddr + PAGE_SIZE, pages, False)
         else unmap_table m (vaddr + PAGE_SIZE) pages fixed)"

lemma unmap_table_pages: "fst (snd (snd (unmap_table m va n fixed))) \<le> n - 1"
  by (induction m va n fixed rule: unmap_table.induct) (auto simp: Let_def)

function unmap_safe :: "paging \<Rightarrow> u32 \<Rightarrow> nat \<Rightarrow> bool \<Rightarrow> paging" where
  "unmap_safe m vaddr pages fixed =
     (if pages = 0 then m
      else if pde_present m vaddr
      then case unmap_table m vaddr pages fixed of (m', vaddr', pages', fin) \<Rightarrow>
             if fin then m'
             else let i = PDE_IDX vaddr; m'' = free_phys m' (pde m' i AND PAGE_ADDR_MASK)
                  in unmap_safe (m''\<lparr>pde := (pde m'')(i := pde m'' i AND NOT PG_P_1)\<rparr>) vaddr' pages' fixed
      else unmap_safe m (vaddr + PAGE_SIZE) (pages - 1) fixed)"
  by pat_completeness auto
termination
proof (relation "measure (\<lambda>(m, va, pages, fixed). pages)")
  fix m vaddr pages fixed x y xa ya xb yb xc xd
  assume "pages \<noteq> 0" "(x, y) = unmap_table m vaddr pages fixed" "(xa, ya) = y" "(xb, yb) = ya"
  then have "xb \<le> pages - 1" using unmap_table_pages [of m vaddr pages fixed] by (metis fst_conv snd_conv)
  with \<open>pages \<noteq> 0\<close>
  show "((xd\<lparr>pde := (pde xd)(xc := pde xd xc AND NOT PG_P_1)\<rparr>, xa, xb, fixed), m, vaddr, pages, fixed)
      \<in> measure (\<lambda>(m, va, pages, fixed). pages)" by simp
qed auto

declare unmap_safe.simps [simp del]

definition unmap_pages_safe :: "paging \<Rightarrow> u32 \<Rightarrow> u32 \<Rightarrow> bool \<Rightarrow> int \<times> paging" where
  "unmap_pages_safe m start len0 fixed =
     (let vaddr = start AND PAGE_MASK; len = PAGE_ALIGN len0; pages = DIV_ROUND_UP len PAGE_SIZE
      in (0, unmap_safe m vaddr (unat pages) fixed))"

definition handle_no_page :: "paging \<Rightarrow> u32 \<Rightarrow> u32 \<Rightarrow> (int \<times> paging) kret" where
  "handle_no_page m addr prot = map_pages m addr PAGE_SIZE prot"

definition make_page_writable :: "paging \<Rightarrow> u32 \<Rightarrow> int \<times> paging" where
  "make_page_writable m addr =
     (if addr > USER_VMM_SIZE then (-1, m)
      else if \<not> pde_present m addr then (-1, m)
      else if \<not> present (pte m addr) then (-1, m)
      else (0, set_pte m addr (pte m addr OR PG_RW_W)))"

text \<open>\<open>do_protection_fault\<close>: the value returned, the page tables, and whether \<open>TRIGSYS\<close> is raised.\<close>

definition do_protection_fault :: "paging \<Rightarrow> u32 \<Rightarrow> u32 \<Rightarrow> bool \<Rightarrow> (int \<times> paging \<times> bool) kret" where
  "do_protection_fault m prot addr write =
     (if write
      then case make_page_writable m addr of (ret, m) \<Rightarrow>
             if ret \<noteq> 0 then Ret (-1, m, True)
             else (case handle_no_page m addr prot of
                     Panic \<Rightarrow> Panic
                   | Ret (r, m) \<Rightarrow> if r \<noteq> 0 then Ret (-1, m, True) else Ret (0, m, False))
      else Ret (-1, m, True))"

subsection \<open>Aligned addresses\<close>

definition aligned :: "u32 \<Rightarrow> bool" where
  "aligned x \<longleftrightarrow> x AND PAGE_ADDR_MASK = x"

lemma PAGE_ADDR_MASK_eq: "PAGE_ADDR_MASK = PAGE_MASK"
  by (simp add: PAGE_ADDR_MASK_def PAGE_MASK_val)

lemma aligned_unat: "aligned x \<longleftrightarrow> 4096 dvd unat x"
proof -
  have "aligned x \<longleftrightarrow> unat x div 4096 * 4096 = unat x"
    by (simp only: aligned_def PAGE_ADDR_MASK_eq word_unat_eq_iff unat_and_PAGE_MASK)
  then show ?thesis by (metis dvd_div_mult_self dvd_triv_right)
qed

lemma aligned_add: "aligned x \<Longrightarrow> aligned y \<Longrightarrow> aligned (x + y)"
  unfolding aligned_unat unat_word_ariths by (simp add: dvd_mod)

lemma aligned_page: "aligned (mem_node_base pm) \<Longrightarrow> aligned (mem_node2page pm i)"
proof -
  have "aligned (push_bit 12 (of_nat i))"
    unfolding aligned_unat by (simp add: unsigned_push_bit_eq push_bit_eq_mult) (simp add: unat_word_ariths dvd_mod)
  then show "aligned (mem_node_base pm) \<Longrightarrow> aligned (mem_node2page pm i)"
    by (simp only: mem_node2page_def aligned_add)
qed

lemma entry_addr:
  assumes "aligned a" "prot AND PAGE_ADDR_MASK = 0"
  shows "(a OR prot OR PG_P_1) AND PAGE_ADDR_MASK = a"
proof -
  have "PG_P_1 AND PAGE_ADDR_MASK = 0" by (simp add: PG_P_1_def PAGE_ADDR_MASK_def)
  with assms show ?thesis by (simp add: aligned_def bit.conj_disj_distrib2)
qed

lemma entry_present [simp]: "present (a OR prot OR PG_P_1)"
proof -
  have "bit (a OR prot OR PG_P_1) 0" by (simp add: bit_or_iff PG_P_1_def)
  then have "bit ((a OR prot OR PG_P_1) AND PG_P_1) 0" by (simp add: bit_and_iff PG_P_1_def)
  then show ?thesis unfolding present_def by force
qed

subsection \<open>The page tables are disjoint\<close>

text \<open>
  No two present directory entries share a table, and a table within the managed memory is an
  allocated page, so that no fresh page is one of the tables.
\<close>

definition paging_ok :: "paging \<Rightarrow> bool" where
  "paging_ok m \<longleftrightarrow> pmem_ok (phys m) \<and> mem_node_count (phys m) < 2 ^ 20 \<and> aligned (mem_node_base (phys m)) \<and>
     (\<forall>i j. present (pde m i) \<longrightarrow> present (pde m j) \<longrightarrow>
        pde m i AND PAGE_ADDR_MASK = pde m j AND PAGE_ADDR_MASK \<longrightarrow> i = j) \<and>
     (\<forall>i n. present (pde m i) \<longrightarrow> page2mem_node (phys m) (pde m i AND PAGE_ADDR_MASK) = Some n \<longrightarrow>
        allocated (phys m) n)"

lemma set_pte_simps [simp]:
  "pde (set_pte m va e) = pde m" "phys (set_pte m va e) = phys m" "table_of (set_pte m va e) vb = table_of m vb"
  "pde_present (set_pte m va e) vb = pde_present m vb"
  "pte (set_pte m va e) vb =
     (if table_of m vb = table_of m va \<and> PTE_IDX vb = PTE_IDX va then e else pte m vb)"
  by (auto simp: set_pte_def table_of_def pde_present_def pte_def)

lemma paging_ok_set_pte [simp]: "paging_ok (set_pte m va e) = paging_ok m"
  by (simp add: paging_ok_def)

lemma alloc_fresh:
  assumes ok: "paging_ok m" and al: "alloc_pages (phys m) 1 = Ret (page, pm)" "page \<noteq> 0"
  obtains i where "aligned page" "page2mem_node (phys m) page = Some i" "\<not> allocated (phys m) i"
    "pmem_ok pm" "\<And>x. page2mem_node pm x = page2mem_node (phys m) x"
    "mem_node_count pm = mem_node_count (phys m)" "mem_node_base pm = mem_node_base (phys m)"
    "\<And>j. allocated pm j \<longleftrightarrow> j = i \<or> allocated (phys m) j"
proof -
  have pm: "pmem_ok (phys m)" "mem_node_count (phys m) < 2 ^ 20" "aligned (mem_node_base (phys m))"
    using ok by (auto simp: paging_ok_def)
  obtain i where i: "page = mem_node2page (phys m) i" "i < mem_node_count (phys m)" "\<not> allocated (phys m) i"
    "pm = set_node (phys m) i \<lparr>nd_count = 1, nd_flags = 0, nd_reference = 1, nd_cache = None, nd_group = None\<rparr>"
    "\<And>j. allocated (phys m) j \<Longrightarrow> j < i \<Longrightarrow> block_end (phys m) j \<le> i"
    by (rule alloc_pages_cases [OF pm(1) al(1) [unfolded alloc_pages_def]]) (use al(2) in auto)
  have "pmem_ok pm"
    unfolding i(4) by (subst new_block_ok [OF pm(1) i(2,5) _ i(3)]) (use i(2) in auto)
  moreover have "page2mem_node (phys m) page = Some i"
    using page_roundtrip [of i "phys m"] i(1,2) pm(2) by simp
  ultimately show ?thesis
    using that [of i] i(2,3) aligned_page [OF pm(3)] i(1) by (simp add: i(4) page2mem_node_def)
qed

lemma paging_ok_alloc:
  assumes "paging_ok m" "alloc_pages (phys m) 1 = Ret (page, pm)" "page \<noteq> 0"
  shows "paging_ok (m\<lparr>phys := pm\<rparr>)" "aligned page"
  by (rule alloc_fresh [OF assms]; use assms(1) in \<open>simp add: paging_ok_def\<close>)+

lemma new_table_spec:
  assumes ok: "paging_ok m" and prot: "prot AND PAGE_ADDR_MASK = 0" and absent: "\<not> pde_present m va"
    and new: "new_table m va prot = Ret m'"
  shows "paging_ok m'" "pde_present m' va" "pte m' va = 0"
    "\<And>vb. pde_present m vb \<Longrightarrow> pde_present m' vb \<and> pte m' vb = pte m vb \<and> table_of m' vb = table_of m vb"
proof -
  obtain page pm where al: "alloc_pages (phys m) 1 = Ret (page, pm)" "page \<noteq> 0"
    and m': "m' = (let m = m\<lparr>phys := pm, pde := (pde m)(PDE_IDX va := page OR prot OR PG_P_1)\<rparr>
      in m\<lparr>ptab := (ptab m)(table_of m va := (\<lambda>_. 0))\<rparr>)"
    using new by (auto simp: new_table_def Let_def split: kret.splits if_splits)
  obtain i where i: "aligned page" "page2mem_node (phys m) page = Some i" "\<not> allocated (phys m) i"
    "pmem_ok pm" "\<And>x. page2mem_node pm x = page2mem_node (phys m) x"
    "mem_node_count pm = mem_node_count (phys m)" "mem_node_base pm = mem_node_base (phys m)"
    "\<And>j. allocated pm j \<longleftrightarrow> j = i \<or> allocated (phys m) j"
    using alloc_fresh [OF ok al] by blast
  have addr: "(page OR prot OR PG_P_1) AND PAGE_ADDR_MASK = page" by (rule entry_addr [OF i(1) prot])
  have fresh: "pde m k AND PAGE_ADDR_MASK \<noteq> page" if "present (pde m k)" for k
    using ok that i(2,3) by (auto simp: paging_ok_def)
  have m'_pde: "pde m' = (pde m)(PDE_IDX va := page OR prot OR PG_P_1)" "phys m' = pm"
    "ptab m' = (ptab m)(page := (\<lambda>_. 0))"
    by (simp_all add: m' Let_def table_of_def addr)
  show "paging_ok m'"
    using ok fresh i unfolding paging_ok_def m'_pde by (auto simp: addr)
  show "pde_present m' va" by (simp add: pde_present_def m'_pde)
  show "pte m' va = 0" by (simp add: pte_def table_of_def m'_pde addr)
  show "pde_present m' vb \<and> pte m' vb = pte m vb \<and> table_of m' vb = table_of m vb" if "pde_present m vb" for vb
    using that absent fresh [of "PDE_IDX vb"] by (auto simp: pde_present_def pte_def table_of_def m'_pde)
qed

lemma link_at:
  assumes ok: "paging_ok m" and "pde_present m va" and prot: "prot AND PAGE_ADDR_MASK = 0" and pa: "aligned pa"
    and "pde_present m vb" "(PDE_IDX vb, PTE_IDX vb) \<noteq> (PDE_IDX va, PTE_IDX va)"
  shows "pte (set_pte m va (pa OR prot OR PG_P_1)) vb = pte m vb"
  using assms by (auto simp: paging_ok_def pde_present_def table_of_def)

subsection \<open>Properties\<close>

text \<open>
  Linking a page makes exactly the translation asked for: afterwards \<open>addr_v2p\<close> of the address
  is the physical page plus the offset, the translation of every other mapped page is unchanged, and
  the page tables are still disjoint. This holds on both branches, with and without a page table.
\<close>

theorem page_link_translation:
  assumes "paging_ok m" "aligned pa" "prot AND PAGE_ADDR_MASK = 0" "page_link m va pa prot = Ret m'"
  shows "paging_ok m' \<and> addr_v2p m' va = Ret (pa + (va AND 0xfff)) \<and>
    (\<forall>vb. pde_present m vb \<and> (PDE_IDX vb, PTE_IDX vb) \<noteq> (PDE_IDX va, PTE_IDX va) \<longrightarrow>
       addr_v2p m' vb = addr_v2p m vb)"
proof -
  let ?e = "pa OR prot OR PG_P_1"
  have ad: "?e AND 0xfffff000 = pa" using entry_addr [OF assms(2,3)] by (simp add: PAGE_ADDR_MASK_def)
  obtain m1 where m1: "m' = set_pte m1 va ?e" "paging_ok m1" "pde_present m1 va"
    "\<And>vb. pde_present m vb \<Longrightarrow> pde_present m1 vb \<and> pte m1 vb = pte m vb"
  proof (cases "pde_present m va")
    case True
    with assms that [of m] show ?thesis by (auto simp: page_link_def split: if_splits)
  next
    case False
    with assms(4) obtain m1 where new: "new_table m va prot = Ret m1" "m' = set_pte m1 va ?e"
      by (auto simp: page_link_def split: kret.splits if_splits)
    show ?thesis using that [OF new(2)] new_table_spec [OF assms(1,3) False new(1)] by blast
  qed
  have "addr_v2p m' vb = addr_v2p m vb"
    if "pde_present m vb" "(PDE_IDX vb, PTE_IDX vb) \<noteq> (PDE_IDX va, PTE_IDX va)" for vb
    using link_at [OF m1(2,3) assms(3,2) _ that(2)] m1(1) m1(4) [OF that(1)] that(1)
    by (simp add: addr_v2p_def)
  then show ?thesis using m1 ad by (simp add: addr_v2p_def)
qed

definition example_paging :: paging where
  "example_paging = \<lparr>pde = (\<lambda>_. 0), ptab = (\<lambda>_ _. 0), phys = example_pmem\<rparr>"

lemma example_paging_ok: "paging_ok example_paging"
  using example_pmem_ok
  by (simp add: paging_ok_def example_paging_def present_def) (simp add: example_pmem_def aligned_def PAGE_ADDR_MASK_def)

lemma example_link: "\<exists>m'. page_link example_paging 0x40000abc 0x900000 4 = Ret m'"
proof -
  have absent: "\<not> pde_present example_paging v" for v by (simp add: pde_present_def example_paging_def present_def)
  obtain pm where "alloc_pages example_pmem 1 = Ret (0x1000000, pm)"
    using example_alloc(1) [of 1] by auto
  then obtain m1 where new: "new_table example_paging 0x40000abc 4 = Ret m1"
    by (simp add: new_table_def example_paging_def Let_def)
  have "pte m1 0x40000abc = 0"
    by (rule new_table_spec(3) [OF example_paging_ok _ absent new]) (simp add: PAGE_ADDR_MASK_def)
  with absent new show ?thesis by (simp add: page_link_def present_def)
qed

theorem page_link_translation_witness:
  "\<exists>m'. page_link example_paging 0x40000abc 0x900000 4 = Ret m' \<and> addr_v2p m' 0x40000abc = Ret 0x900abc"
proof -
  obtain m' where m': "page_link example_paging 0x40000abc 0x900000 4 = Ret m'" using example_link by blast
  with page_link_translation [OF example_paging_ok _ _ m'] show ?thesis
    by (simp add: aligned_def PAGE_ADDR_MASK_def)
qed

text \<open>
  A user's write to a present but write-protected page stops the kernel: \<open>do_protection_fault\<close>
  makes the entry writable and then maps a fresh page over it, where \<open>page_link\<close> asserts that the
  entry is not present. (Memory for the fresh page is available.)
\<close>

theorem write_fault_panics:
  assumes "pde_present m addr" "present (pte m addr)" "addr \<le> USER_VMM_SIZE" "addr AND PAGE_MASK = addr"
    and "alloc_pages (phys m) 1 = Ret (page, pm)" "page \<noteq> 0"
  shows "do_protection_fault m prot addr True = Panic"
proof -
  let ?m = "set_pte m addr (pte m addr OR PG_RW_W)"
  have wr: "make_page_writable m addr = (0, ?m)"
    using assms(1-3) by (simp add: make_page_writable_def)
  have al: "aligned addr" using assms(4) by (simp add: aligned_def PAGE_ADDR_MASK_eq)
  have len: "PAGE_ALIGN PAGE_SIZE = PAGE_SIZE"
    by (simp add: PAGE_ALIGN_def PAGE_SIZE_val PAGE_MASK_val)
  have one: "PAGE_SIZE div PAGE_SIZE = (1 :: u32)" by (simp add: PAGE_SIZE_val)
  have "unat addr \<le> 0x80000000" using assms(3) by (simp add: USER_VMM_SIZE_def word_le_nat_alt)
  then have "addr < addr + PAGE_SIZE" by (simp add: word_less_nat_alt unat_word_ariths PAGE_SIZE_val)
  then have n: "range_pages addr (addr + PAGE_SIZE) = Suc 0"
    by (simp add: range_pages_def PAGE_SIZE_val)
  have "bit (pte m addr OR PG_RW_W) 0"
    using assms(2) by (auto simp: present_def PG_P_1_def bit_or_iff and_exp_eq_0_iff_not_bit [of _ 0, simplified])
  then have pres: "present (pte m addr OR PG_RW_W)"
    by (auto simp: present_def PG_P_1_def and_exp_eq_0_iff_not_bit [of _ 0, simplified])
  have link: "page_link (?m\<lparr>phys := pm\<rparr>) addr page a = Panic" for a
    using assms(1) pres by (simp add: page_link_def pde_present_def pte_def table_of_def set_pte_def)
  have "map_pages ?m addr PAGE_SIZE prot = Panic"
    using assms(4-6) by (simp add: map_pages_def Let_def len one n link)
  then show ?thesis by (simp add: do_protection_fault_def wr handle_no_page_def)
qed

definition example_ro :: paging where
  "example_ro = \<lparr>pde = (\<lambda>_. 0x202007), ptab = (\<lambda>_ _. 0x900005), phys = example_pmem\<rparr>"

theorem write_fault_panics_witness: "do_protection_fault example_ro 0x12 0x40000000 True = Panic"
proof -
  have "present 0x202007" "present 0x900005" by (simp_all add: present_def PG_P_1_def)
  then have "pde_present example_ro 0x40000000" "present (pte example_ro 0x40000000)"
    by (simp_all add: pde_present_def pte_def example_ro_def)
  moreover obtain pm where "alloc_pages (phys example_ro) 1 = Ret (0x1000000, pm)"
    using example_alloc(1) [of 1] by (auto simp: example_ro_def)
  ultimately show ?thesis
    by (intro write_fault_panics) (auto simp: USER_VMM_SIZE_def PAGE_MASK_val)
qed

text \<open>
  Unmapping a user page frees its page table and keeps using it: \<open>is_page_table_empty\<close> inspects
  no entry, so \<open>__unmap_pages_safe\<close> frees the table when the last page asked for is done, whatever
  else the table maps, and the directory entry stays present. With a table of reference count 1,
  its page is free for the next allocation while the directory still points to it.
\<close>

theorem unmap_dangling_table:
  assumes "pde_present m va" "aligned va" "page2mem_node (phys m) (table_of m va) = Some n"
    and "nd_reference (mem_node_table (phys m) n) = 1"
    and "fixed \<or> page2mem_node (phys m) (pte m va AND PAGE_ADDR_MASK) \<noteq> Some n"
    and "unmap_pages_safe m va 1 fixed = (r, m')"
  shows "pde m' = pde m \<and> pde_present m' va \<and> \<not> allocated (phys m') n"
proof -
  have va: "va AND PAGE_MASK = va" using assms(2) by (simp add: aligned_def PAGE_ADDR_MASK_eq)
  have pages: "unat (DIV_ROUND_UP (PAGE_ALIGN 1) PAGE_SIZE) = Suc 0"
    by (simp add: PAGE_ALIGN_def PAGE_SIZE_val PAGE_MASK_val DIV_ROUND_UP_def)
  let ?m1 = "unmap_one m va fixed"
  have m': "m' = free_phys ?m1 (table_of ?m1 va)"
    using assms(1,6) pages
    by (simp add: unmap_pages_safe_def Let_def va unmap_safe.simps [of m va] is_page_table_empty_def)
  have pde: "pde ?m1 = pde m" by (simp add: unmap_one_def free_phys_def Let_def)
  have keep: "mem_node_table (phys ?m1) n = mem_node_table (phys m) n"
    "page2mem_node (phys ?m1) x = page2mem_node (phys m) x" for x
    using assms(5)
    by (auto simp: unmap_one_def free_phys_def free_pages_def page2mem_node_def Let_def split: option.splits)
  have tab: "table_of ?m1 va = table_of m va" by (simp add: table_of_def pde)
  have "\<not> allocated (snd (free_pages (phys ?m1) (table_of m va))) n"
    using assms(3,4) by (simp add: free_pages_def keep Let_def)
  then show ?thesis
    using pde assms(1) by (simp add: m' tab free_phys_def pde_present_def)
qed

definition example_user :: paging where
  "example_user = \<lparr>pde = (\<lambda>_. 0)(256 := 0x1001007), ptab = (\<lambda>_ _. 0x2000007), phys = example_pmem\<rparr>"

theorem unmap_dangling_table_witness:
  "\<exists>m'. unmap_pages_safe example_user 0x40000000 1 False = (0, m') \<and> pde_present m' 0x40000000 \<and>
     \<not> allocated (phys m') 2049"
proof -
  obtain r m' where u: "unmap_pages_safe example_user 0x40000000 1 False = (r, m')" by (cases "unmap_pages_safe example_user 0x40000000 1 False")
  have "r = 0" using u by (simp add: unmap_pages_safe_def Let_def)
  moreover have "pde_present example_user 0x40000000"
    by (simp add: pde_present_def example_user_def PDE_IDX_def present_def PG_P_1_def)
  moreover have "page2mem_node (phys example_user) (table_of example_user 0x40000000) = Some 2049"
    by (simp add: table_of_def page2mem_node_def example_user_def example_pmem_def PDE_IDX_def PAGE_ADDR_MASK_def)
  moreover have "nd_reference (mem_node_table (phys example_user) 2049) = 1"
    by (simp add: example_user_def example_pmem_def)
  moreover have "page2mem_node (phys example_user) (pte example_user 0x40000000 AND PAGE_ADDR_MASK) \<noteq> Some 2049"
    by (simp add: pte_def page2mem_node_def example_user_def example_pmem_def PAGE_ADDR_MASK_def)
  ultimately show ?thesis
    using unmap_dangling_table [where m = example_user and va = "0x40000000" and n = 2049 and fixed = False, OF _ _ _ _ _ u] u
    by (simp add: aligned_def PAGE_ADDR_MASK_def)
qed

text \<open>Mapping many pages: what is mapped stays mapped to the same page.\<close>

definition mapped :: "paging \<Rightarrow> u32 \<Rightarrow> bool" where
  "mapped m va \<longleftrightarrow> pde_present m va \<and> present (pte m va)"

lemma page_link_mapped:
  assumes ok: "paging_ok m" "aligned pa" "prot AND PAGE_ADDR_MASK = 0" and l: "page_link m va pa prot = Ret m'"
  shows "paging_ok m' \<and> mapped m' va \<and> (\<forall>vb. mapped m vb \<longrightarrow> mapped m' vb \<and> pte m' vb = pte m vb)"
proof (cases "pde_present m va")
  case True
  then have m': "m' = set_pte m va (pa OR prot OR PG_P_1)" "\<not> present (pte m va)"
    using l by (auto simp: page_link_def split: if_splits)
  then have "pte m vb \<noteq> pte m va" if "mapped m vb" for vb using that by (auto simp: mapped_def)
  then have "\<not> (table_of m vb = table_of m va \<and> PTE_IDX vb = PTE_IDX va)" if "mapped m vb" for vb
    using that by (metis pte_def)
  with m'(1) True ok(1) show ?thesis by (auto simp: mapped_def)
next
  case False
  with l obtain m1 where new: "new_table m va prot = Ret m1" "m' = set_pte m1 va (pa OR prot OR PG_P_1)"
    by (auto simp: page_link_def split: kret.splits if_splits)
  note t = new_table_spec [OF ok(1,3) False new(1)]
  have "\<not> (table_of m1 vb = table_of m1 va \<and> PTE_IDX vb = PTE_IDX va)" if "mapped m vb" for vb
    using that t(3) t(4) [of vb] by (auto simp: mapped_def pte_def present_def)
  with new(2) t show ?thesis by (auto simp: mapped_def)
qed

lemma map_safe_range_mapped:
  assumes "paging_ok m" "attr AND PAGE_ADDR_MASK = 0" "map_safe_range m va attr n = Ret (0, m')"
  shows "paging_ok m' \<and> (\<forall>k < n. mapped m' (va + of_nat k * PAGE_SIZE)) \<and>
    (\<forall>vb. mapped m vb \<longrightarrow> mapped m' vb \<and> pte m' vb = pte m vb)"
  using assms
proof (induction m va attr n rule: map_safe_range.induct)
  case (1 m va attr)
  then show ?case by simp
next
  case (2 m va attr n)
  obtain m1 where m1: "map_safe_range m1 (va + PAGE_SIZE) attr n = Ret (0, m')" "paging_ok m1" "mapped m1 va"
    "\<And>vb. mapped m vb \<Longrightarrow> mapped m1 vb \<and> pte m1 vb = pte m vb"
    "paging_ok m1 \<Longrightarrow> paging_ok m' \<and> (\<forall>k < n. mapped m' (va + PAGE_SIZE + of_nat k * PAGE_SIZE)) \<and>
       (\<forall>vb. mapped m1 vb \<longrightarrow> mapped m' vb \<and> pte m' vb = pte m1 vb)"
  proof (cases "mapped m va")
    case True
    then show ?thesis using that [of m] 2 by (auto simp: mapped_def)
  next
    case False
    from False "2.prems"(3) obtain page pm1 m1 where al: "alloc_pages (phys m) 1 = Ret (page, pm1)" "page \<noteq> 0"
      and l: "page_link (m\<lparr>phys := pm1\<rparr>) va page attr = Ret m1"
      and rest: "map_safe_range m1 (va + PAGE_SIZE) attr n = Ret (0, m')"
      by (auto simp: mapped_def split: kret.splits if_splits)
    note ok1 = paging_ok_alloc [OF "2.prems"(1) al]
    note L = page_link_mapped [OF ok1 "2.prems"(2) l]
    have same: "mapped (m\<lparr>phys := pm1\<rparr>) vb = mapped m vb" "pte (m\<lparr>phys := pm1\<rparr>) vb = pte m vb" for vb
      by (simp_all add: mapped_def pde_present_def pte_def table_of_def)
    have "\<not> pde_present m va \<or> \<not> present (pte m va)" using False by (simp add: mapped_def)
    note IH = "2.IH"(1) [OF this al(1) refl _ l _ "2.prems"(2) rest]
    show ?thesis using that [OF rest] L IH al(2) by (simp add: same)
  qed
  have "mapped m' (va + of_nat k * PAGE_SIZE)" if "k < Suc n" for k
  proof (cases k)
    case 0
    with m1 show ?thesis by simp
  next
    case (Suc j)
    with that m1 show ?thesis by (auto simp: algebra_simps)
  qed
  with m1 show ?case by auto
qed

text \<open>
  C6. When \<open>__map_pages_safe\<close> returns 0, every page of the range is mapped, every page that was mapped
  before still maps to the same physical page with the same attributes, and the page tables are still
  disjoint.
\<close>

theorem map_pages_safe_maps:
  assumes "paging_ok m" "map_pages_safe m start len prot = Ret (0, m')"
  shows "paging_ok m' \<and>
    (\<forall>k < unat (DIV_ROUND_UP (PAGE_ALIGN len) PAGE_SIZE). mapped m' ((start AND PAGE_MASK) + of_nat k * PAGE_SIZE)) \<and>
    (\<forall>vb. mapped m vb \<longrightarrow> mapped m' vb \<and> pte m' vb = pte m vb)"
proof -
  have "page_attr_safe prot AND PAGE_ADDR_MASK = 0"
    by (simp add: page_attr_safe_def PG_US_U_def PG_US_S_def PG_RW_W_def PAGE_ADDR_MASK_def)
  from map_safe_range_mapped [OF assms(1) this] assms(2) show ?thesis
    by (simp add: map_pages_safe_def Let_def)
qed

theorem map_pages_safe_maps_witness:
  "\<exists>m'. map_pages_safe example_paging 0x40000000 0x1000 0 = Ret (0, m') \<and> mapped m' 0x40000000"
proof -
  have "case map_pages_safe example_paging 0x40000000 0x1000 0 of Ret (r, _) \<Rightarrow> r = 0 | Panic \<Rightarrow> False"
    by code_simp
  then obtain m' where "map_pages_safe example_paging 0x40000000 0x1000 0 = Ret (0, m')"
    by (auto split: kret.splits)
  with map_pages_safe_maps [OF example_paging_ok this] show ?thesis
    by (force simp: DIV_ROUND_UP_def PAGE_ALIGN_def PAGE_SIZE_val PAGE_MASK_val)
qed

end
