(* ===== verification/VmSpace.thy ===== *)
theory VmSpace
  imports Paging
begin

section \<open>The address space of a process\<close>

text \<open>
  \<open>src/src/vmm/vmspace.c\<close> and \<open>src/src/include/xbook/vmspace.h\<close>. The singly linked list of spaces is
  a list of nodes; a node carries its identity (the address \<open>kmalloc\<close> returned for it), and
  \<open>vm_freed\<close> collects the nodes handed to \<open>kfree\<close>, so that a node that is freed while it is linked
  shows in the model. \<open>kmalloc\<close>'s answers are the arguments \<open>new\<close> (\<open>None\<close> for \<open>NULL\<close>). The state
  includes the page tables, as every map and unmap operation runs in the process it changes.
\<close>

record vmspace =
  sp_id :: nat
  sp_start :: u32
  sp_end :: u32
  page_prot :: u32
  sp_flags :: u32

record vmm =
  vm_spaces :: "vmspace list"
  vm_freed :: "nat list"
  heap_start :: u32
  heap_end :: u32
  map_start :: u32
  map_end :: u32
  vm_pages :: paging

definition VMS_MAP_FIXED :: u32 where "VMS_MAP_FIXED = 0x10"
definition VMS_MAP_HEAP :: u32 where "VMS_MAP_HEAP = 0x40"
definition VMS_MAP_SHARED :: u32 where "VMS_MAP_SHARED = 0x80"
definition VMS_MAP_REMAP :: u32 where "VMS_MAP_REMAP = 0x100"
definition MAX_VMS_HEAP_SIZE :: u32 where "MAX_VMS_HEAP_SIZE = 0x20000000"

definition vmspace_init :: "nat \<Rightarrow> u32 \<Rightarrow> u32 \<Rightarrow> u32 \<Rightarrow> u32 \<Rightarrow> vmspace" where
  "vmspace_init i start end prot flags =
     \<lparr>sp_id = i, sp_start = start, sp_end = end, page_prot = prot, sp_flags = flags\<rparr>"

fun vmspace_find_from :: "vmspace list \<Rightarrow> u32 \<Rightarrow> vmspace list" where
  "vmspace_find_from [] addr = []"
| "vmspace_find_from (s # ss) addr = (if addr < sp_end s then s # ss else vmspace_find_from ss addr)"

text \<open>\<open>vmspace_find\<close>: the first space that ends after the address, \<open>None\<close> for \<open>NULL\<close>.\<close>

definition vmspace_find :: "vmm \<Rightarrow> u32 \<Rightarrow> vmspace option" where
  "vmspace_find vm addr = (case vmspace_find_from (vm_spaces vm) addr of [] \<Rightarrow> None | s # _ \<Rightarrow> Some s)"

definition vmspace_find_intersection :: "vmm \<Rightarrow> u32 \<Rightarrow> u32 \<Rightarrow> vmspace option" where
  "vmspace_find_intersection vm start end =
     (case vmspace_find vm start of None \<Rightarrow> None | Some s \<Rightarrow> if sp_start s \<ge> end then None else Some s)"

definition vmspace_free :: "nat \<Rightarrow> vmm \<Rightarrow> vmm" where
  "vmspace_free i vm = vm\<lparr>vm_freed := i # vm_freed vm\<rparr>"

definition same_attr :: "vmspace \<Rightarrow> vmspace \<Rightarrow> bool" where
  "same_attr s t \<longleftrightarrow> page_prot s = page_prot t \<and> sp_flags s = sp_flags t"

text \<open>
  The merge of \<open>space\<close> with its predecessor: the spaces before, the space that is current afterwards
  and the nodes freed.
\<close>

definition merge_prev :: "vmspace list \<Rightarrow> vmspace \<Rightarrow> vmspace list \<times> vmspace \<times> nat list" where
  "merge_prev pre space =
     (if pre \<noteq> [] \<and> sp_end (last pre) = sp_start space \<and> same_attr (last pre) space
      then (butlast pre, (last pre)\<lparr>sp_end := sp_end space\<rparr>, [sp_id space])
      else (pre, space, []))"

text \<open>The merge with the successor, which frees the space that stays in the list.\<close>

definition merge_next :: "vmspace \<Rightarrow> vmspace list \<Rightarrow> vmspace \<times> vmspace list \<times> nat list" where
  "merge_next space post =
     (case post of [] \<Rightarrow> (space, post, [])
      | p # ps \<Rightarrow> if sp_end space = sp_start p \<and> same_attr space p
                  then (space\<lparr>sp_end := sp_end p\<rparr>, ps, [sp_id space])
                  else (space, post, []))"

definition vmspace_insert :: "vmm \<Rightarrow> vmspace \<Rightarrow> vmm" where
  "vmspace_insert vm space =
     (let pre = takeWhile (\<lambda>p. \<not> sp_end space \<le> sp_start p) (vm_spaces vm);
          post = dropWhile (\<lambda>p. \<not> sp_end space \<le> sp_start p) (vm_spaces vm)
      in case merge_prev pre space of (pre, space, f1) \<Rightarrow>
         case merge_next space post of (space, post, f2) \<Rightarrow>
           vm\<lparr>vm_spaces := pre @ space # post, vm_freed := f2 @ f1 @ vm_freed vm\<rparr>)"

fun unmaped_loop :: "u32 \<Rightarrow> u32 \<Rightarrow> u32 \<Rightarrow> vmspace list \<Rightarrow> u32" where
  "unmaped_loop addr len mend [] = addr"
| "unmaped_loop addr len mend (s # ss) =
     (if USER_VMM_SIZE - len < addr then -1
      else if addr + len \<ge> mend then -1
      else if addr + len \<le> sp_start s then addr
      else unmaped_loop (sp_end s) len mend ss)"

definition vmspace_get_unmaped :: "vmm \<Rightarrow> u32 \<Rightarrow> u32" where
  "vmspace_get_unmaped vm len =
     unmaped_loop (map_start vm) len (map_end vm) (vmspace_find_from (vm_spaces vm) (map_start vm))"

text \<open>\<open>do_vmspace_map\<close>; the result -1 is the word of all ones. The result of the mapping of the
  pages is ignored by the code.\<close>

definition do_vmspace_map :: "vmm \<Rightarrow> nat option \<Rightarrow> u32 \<Rightarrow> u32 \<Rightarrow> u32 \<Rightarrow> u32 \<Rightarrow> u32 \<Rightarrow> (u32 \<times> vmm) kret" where
  "do_vmspace_map vm new addr0 paddr len0 prot0 flags =
     (let len = PAGE_ALIGN len0
      in if prot0 = 0 then Ret (-1, vm)
         else if len = 0 then Ret (-1, vm)
         else if len > USER_VMM_SIZE \<or> addr0 > USER_VMM_SIZE \<or> addr0 > USER_VMM_SIZE - len then Ret (-1, vm)
         else let bad = (flags AND VMS_MAP_FIXED \<noteq> 0 \<and>
                    (addr0 AND NOT PAGE_MASK \<noteq> 0 \<or>
                     (case vmspace_find vm addr0 of None \<Rightarrow> False | Some p \<Rightarrow> addr0 + len > sp_start p)));
                  addr = (if flags AND VMS_MAP_FIXED \<noteq> 0 then addr0 else vmspace_get_unmaped vm len)
              in if bad then Ret (-1, vm)
                 else if flags AND VMS_MAP_FIXED = 0 \<and> addr = -1 then Ret (-1, vm)
                 else let prot = (if flags AND VMS_MAP_REMAP \<noteq> 0 then prot0 OR PROT_REMAP else prot0)
                      in case new of
                           None \<Rightarrow> Ret (-1, vm)
                         | Some i \<Rightarrow>
                             let vm = vmspace_insert vm (vmspace_init i addr (addr + len) prot flags)
                             in case (if flags AND VMS_MAP_SHARED \<noteq> 0
                                      then map_pages_fixed (vm_pages vm) addr paddr len prot
                                      else map_pages_safe (vm_pages vm) addr len prot) of
                                  Panic \<Rightarrow> Panic
                                | Ret (_, pg) \<Rightarrow> Ret (addr, vm\<lparr>vm_pages := pg\<rparr>))"

text \<open>
  \<open>do_vmspace_unmap\<close>: the list is split at the space found; \<open>left\<close> and \<open>right\<close> are the two parts
  that remain of it, and the empty ones are unlinked and freed.
\<close>

definition do_vmspace_unmap :: "vmm \<Rightarrow> nat option \<Rightarrow> u32 \<Rightarrow> u32 \<Rightarrow> int \<times> vmm" where
  "do_vmspace_unmap vm new addr len0 =
     (if addr AND NOT PAGE_MASK \<noteq> 0 \<or> addr > USER_VMM_SIZE \<or> len0 > USER_VMM_SIZE - addr then (-1, vm)
      else let len = PAGE_ALIGN len0
           in if len = 0 then (-1, vm)
              else case vmspace_find_from (vm_spaces vm) addr of
                     [] \<Rightarrow> (-1, vm)
                   | space # rest \<Rightarrow>
                       if addr < sp_start space \<or> addr + len > sp_end space then (-2, vm)
                       else let pre = take (length (vm_spaces vm) - length (space # rest)) (vm_spaces vm);
                                vm = vm\<lparr>vm_pages := snd (unmap_pages_safe (vm_pages vm) addr len
                                       (sp_flags space AND VMS_MAP_SHARED \<noteq> 0))\<rparr>
                            in case new of
                                 None \<Rightarrow> (-1, vm)
                               | Some i \<Rightarrow>
                                   let left = space\<lparr>sp_end := addr\<rparr>;
                                       right = space\<lparr>sp_id := i, sp_start := addr + len\<rparr>;
                                       el = (sp_start left = sp_end left);
                                       er = (sp_start right = sp_end right)
                                   in (0, vm\<lparr>vm_spaces := pre @ (if el then [] else [left]) @
                                              (if er then [] else [right]) @ rest,
                                            vm_freed := (if er then [sp_id right] else []) @
                                              (if el then [sp_id left] else []) @ vm_freed vm\<rparr>))"

fun set_end :: "vmspace list \<Rightarrow> nat \<Rightarrow> u32 \<Rightarrow> vmspace list" where
  "set_end [] i e = []"
| "set_end (s # ss) i e = (if sp_id s = i then s\<lparr>sp_end := e\<rparr> # ss else s # set_end ss i e)"

definition do_vmspace_heap :: "vmm \<Rightarrow> nat option \<Rightarrow> nat option \<Rightarrow> u32 \<Rightarrow> u32 \<Rightarrow> u32 \<times> vmm" where
  "do_vmspace_heap vm new1 new2 addr len0 =
     (let len = PAGE_ALIGN len0
      in if len = 0 then (addr, vm)
         else case do_vmspace_unmap vm new1 addr len of (ret, vm) \<Rightarrow>
           if ret = -1 then (-1, vm)
           else let flags = VMS_MAP_HEAP;
                    found = (if addr \<noteq> 0 then vmspace_find vm (addr - 1) else None)
                in case found of
                     Some s \<Rightarrow>
                       if sp_end s = addr \<and> sp_flags s = flags
                       then (addr, vm\<lparr>vm_spaces := set_end (vm_spaces vm) (sp_id s) (addr + len)\<rparr>)
                       else (case new2 of None \<Rightarrow> (-1, vm)
                         | Some i \<Rightarrow> (addr, vmspace_insert vm (vmspace_init i addr (addr + len) 0x16 flags)))
                   | None \<Rightarrow> (case new2 of None \<Rightarrow> (-1, vm)
                         | Some i \<Rightarrow> (addr, vmspace_insert vm (vmspace_init i addr (addr + len) 0x16 flags))))"

definition sys_vmspace_heap :: "vmm \<Rightarrow> nat option \<Rightarrow> nat option \<Rightarrow> u32 \<Rightarrow> u32 \<times> vmm" where
  "sys_vmspace_heap vm new1 new2 heap =
     (let the_end = (\<lambda>vm. (heap_end vm, vm)); set_heap = (\<lambda>vm. the_end (vm\<lparr>heap_end := heap\<rparr>));
          new_heap = PAGE_ALIGN heap; old_heap = PAGE_ALIGN (heap_end vm)
      in if heap < heap_start vm then the_end vm
         else if new_heap = old_heap then set_heap vm
         else if heap \<le> heap_end vm \<and> heap \<ge> heap_start vm
         then case do_vmspace_unmap vm new1 new_heap (old_heap - new_heap) of (r, vm) \<Rightarrow>
                if r = 0 then set_heap vm else the_end vm
         else if heap > heap_start vm + MAX_VMS_HEAP_SIZE then the_end vm
         else if vmspace_find_intersection vm old_heap (new_heap + PAGE_SIZE) \<noteq> None then the_end vm
         else case do_vmspace_heap vm new1 new2 old_heap (new_heap - old_heap) of (r, vm) \<Rightarrow>
                if r \<noteq> old_heap then the_end vm else set_heap vm)"

text \<open>\<open>src/src/vmm/vmm.c\<close>: releasing the spaces of a process.\<close>

definition vmm_release_space :: "vmm \<Rightarrow> int \<times> vmm" where
  "vmm_release_space vm = (0, vm\<lparr>vm_spaces := [], vm_freed := rev (map sp_id (vm_spaces vm)) @ vm_freed vm,
     heap_start := 0, heap_end := 0, map_start := 0, map_end := 0\<rparr>)"

fun unmap_spaces :: "(vmspace \<Rightarrow> bool) \<Rightarrow> paging \<Rightarrow> vmspace list \<Rightarrow> paging" where
  "unmap_spaces sel pg [] = pg"
| "unmap_spaces sel pg (s # ss) =
     unmap_spaces sel (if sel s then snd (unmap_pages_safe pg (sp_start s) (sp_end s - sp_start s)
       (sp_flags s AND VMS_MAP_SHARED \<noteq> 0)) else pg) ss"

definition vmm_unmap_space :: "vmm \<Rightarrow> int \<times> vmm" where
  "vmm_unmap_space vm = (0, vm\<lparr>vm_pages := unmap_spaces (\<lambda>_. True) (vm_pages vm) (vm_spaces vm)\<rparr>)"

definition vmm_unmap_space_maparea :: "vmm \<Rightarrow> int \<times> vmm" where
  "vmm_unmap_space_maparea vm = (0, vm\<lparr>vm_pages := unmap_spaces
     (\<lambda>s. sp_start s \<ge> 0x60000000 \<and> sp_end s \<le> 0x60000000 + 0x10000000) (vm_pages vm) (vm_spaces vm)\<rparr>)"

definition vmm_exit :: "vmm \<Rightarrow> int \<times> vmm" where
  "vmm_exit vm =
     (if vm_spaces vm = [] then (-1, vm)
      else case vmm_unmap_space vm of (r, vm) \<Rightarrow>
        if r \<noteq> 0 then (-1, vm)
        else case vmm_release_space vm of (r, vm) \<Rightarrow> if r \<noteq> 0 then (-1, vm) else (0, vm))"

text \<open>
  \<open>do_page_fault\<close> of \<open>page.c\<close>. The arguments are the fault address (\<open>cr2\<close>), the error code and the
  user stack pointer of the trap frame; the result tells whether \<open>TRIGSYS\<close> is forced on the task.
\<close>

definition set_start :: "vmspace list \<Rightarrow> nat \<Rightarrow> u32 \<Rightarrow> vmspace list" where
  "set_start ss i a = map (\<lambda>s. if sp_id s = i then s\<lparr>sp_start := a\<rparr> else s) ss"

definition do_expand_stack :: "vmm \<Rightarrow> vmspace \<Rightarrow> u32 \<Rightarrow> vmm" where
  "do_expand_stack vm space addr = vm\<lparr>vm_spaces := set_start (vm_spaces vm) (sp_id space) (addr AND PAGE_MASK)\<rparr>"

definition do_page_fault :: "vmm \<Rightarrow> u32 \<Rightarrow> u32 \<Rightarrow> u32 \<Rightarrow> (int \<times> vmm \<times> bool) kret" where
  "do_page_fault vm addr error_code esp =
     (let user = error_code AND 4 \<noteq> 0
      in if \<not> user \<and> addr \<ge> PAGE_OFFSET then Panic
         else if addr \<ge> USER_VMM_SIZE then Panic
         else case vmspace_find vm addr of
                None \<Rightarrow> Ret (-1, vm, True)
              | Some space \<Rightarrow>
                  let below = sp_start space > addr;
                      ok = (sp_flags space AND 0x20 \<noteq> 0 \<and> sp_end space - sp_start space < 0x1000000 \<and>
                            addr + 32 \<ge> esp)
                  in if below \<and> user \<and> \<not> ok then Ret (-1, vm, True)
                     else let vm = (if below \<and> user then do_expand_stack vm space addr else vm)
                          in if error_code AND 1 \<noteq> 0
                             then (case do_protection_fault (vm_pages vm) (page_prot space) addr (error_code AND 2 \<noteq> 0) of
                                     Panic \<Rightarrow> Panic
                                   | Ret (r, pg, t) \<Rightarrow> Ret (r, vm\<lparr>vm_pages := pg\<rparr>, t))
                             else (case handle_no_page (vm_pages vm) addr (page_prot space) of
                                     Panic \<Rightarrow> Panic
                                   | Ret (_, pg) \<Rightarrow> Ret (0, vm\<lparr>vm_pages := pg\<rparr>, False)))"

subsection \<open>Abstract view: the attributes of an address\<close>

fun attr_at :: "vmspace list \<Rightarrow> u32 \<Rightarrow> (u32 \<times> u32) option" where
  "attr_at [] a = None"
| "attr_at (s # ss) a =
     (if sp_start s \<le> a \<and> a < sp_end s then Some (page_prot s, sp_flags s) else attr_at ss a)"

text \<open>The list is sorted, its spaces are non-empty and disjoint.\<close>

definition spaces_ok :: "vmspace list \<Rightarrow> bool" where
  "spaces_ok ss \<longleftrightarrow> sorted_wrt (\<lambda>s t. sp_end s \<le> sp_start t) ss \<and> (\<forall>s \<in> set ss. sp_start s < sp_end s)"

definition apart :: "vmspace list \<Rightarrow> u32 \<Rightarrow> u32 \<Rightarrow> bool" where
  "apart ss a b \<longleftrightarrow> (\<forall>s \<in> set ss. sp_end s \<le> a \<or> b \<le> sp_start s)"

lemma attr_at_append: "attr_at (xs @ ys) a = (case attr_at xs a of None \<Rightarrow> attr_at ys a | Some r \<Rightarrow> Some r)"
  by (induction xs) auto

lemma attr_at_None: "attr_at ss a = None \<longleftrightarrow> (\<forall>s \<in> set ss. \<not> (sp_start s \<le> a \<and> a < sp_end s))"
  by (induction ss) auto

lemma attr_at_before: "\<forall>s \<in> set ss. sp_end s \<le> b \<Longrightarrow> b \<le> a \<Longrightarrow> attr_at ss a = None"
  by (force simp: attr_at_None)

lemma spaces_ok_append: "spaces_ok (xs @ ys) \<longleftrightarrow> spaces_ok xs \<and> spaces_ok ys \<and>
    (\<forall>x \<in> set xs. \<forall>y \<in> set ys. sp_end x \<le> sp_start y)"
  by (auto simp: spaces_ok_def sorted_wrt_append)

lemma spaces_ok_Cons: "spaces_ok (s # ss) \<longleftrightarrow>
    sp_start s < sp_end s \<and> (\<forall>t \<in> set ss. sp_end s \<le> sp_start t) \<and> spaces_ok ss"
  by (auto simp: spaces_ok_def)

lemma insert_split:
  assumes ok: "spaces_ok ss" and apart: "apart ss a e" and ae: "a < e"
  defines "pre \<equiv> takeWhile (\<lambda>p. \<not> e \<le> sp_start p) ss" and "post \<equiv> dropWhile (\<lambda>p. \<not> e \<le> sp_start p) ss"
  shows "ss = pre @ post" "\<forall>s \<in> set pre. sp_end s \<le> a" "\<forall>s \<in> set post. e \<le> sp_start s"
proof -
  show split: "ss = pre @ post" by (simp add: pre_def post_def)
  show "\<forall>s \<in> set pre. sp_end s \<le> a"
    using apart unfolding apart_def pre_def by (meson set_takeWhileD)
  show "\<forall>s \<in> set post. e \<le> sp_start s"
  proof (cases post)
    case (Cons p ps)
    then have "e \<le> sp_start p" unfolding post_def by (simp add: dropWhile_eq_Cons_conv)
    moreover have "spaces_ok (p # ps)" using ok split Cons by (simp add: spaces_ok_append)
    ultimately show ?thesis using Cons by (force simp: spaces_ok_Cons)
  qed simp
qed

lemma merge_prev_spec:
  assumes "spaces_ok pre" "\<forall>s \<in> set pre. sp_end s \<le> sp_start sp" "sp_start sp < sp_end sp"
    and "merge_prev pre sp = (pre', sp', f)"
  shows "spaces_ok pre'" "\<forall>s \<in> set pre'. sp_end s \<le> sp_start sp'" "sp_start sp' < sp_end sp'"
    "sp_end sp' = sp_end sp" "same_attr sp' sp"
    "attr_at (pre' @ sp' # post) a = attr_at (pre @ sp # post) a"
proof -
  consider (no) "pre' = pre" "sp' = sp"
    | (merge) l ps where "pre = ps @ [l]" "pre' = ps" "sp' = l\<lparr>sp_end := sp_end sp\<rparr>"
        "sp_end l = sp_start sp" "same_attr l sp"
    using assms(4) by (cases pre rule: rev_cases) (auto simp: merge_prev_def split: if_splits)
  then have "spaces_ok pre' \<and> (\<forall>s \<in> set pre'. sp_end s \<le> sp_start sp') \<and> sp_start sp' < sp_end sp' \<and>
      sp_end sp' = sp_end sp \<and> same_attr sp' sp \<and>
      attr_at (pre' @ sp' # post) a = attr_at (pre @ sp # post) a"
  proof cases
    case no
    with assms show ?thesis by (simp add: same_attr_def)
  next
    case merge
    then have l: "spaces_ok ps" "sp_start l < sp_end l" "\<forall>s \<in> set ps. sp_end s \<le> sp_start l"
      using assms(1) by (auto simp: spaces_ok_append spaces_ok_Cons)
    with merge assms(3) show ?thesis
      by (auto simp: same_attr_def attr_at_append split: option.splits)
  qed
  then show "spaces_ok pre'" "\<forall>s \<in> set pre'. sp_end s \<le> sp_start sp'" "sp_start sp' < sp_end sp'"
    "sp_end sp' = sp_end sp" "same_attr sp' sp"
    "attr_at (pre' @ sp' # post) a = attr_at (pre @ sp # post) a" by blast+
qed

lemma merge_next_spec:
  assumes "spaces_ok post" "\<forall>s \<in> set post. sp_end sp \<le> sp_start s" "sp_start sp < sp_end sp"
    and "merge_next sp post = (sp', post', f)"
  shows "spaces_ok (sp' # post')" "sp_start sp' = sp_start sp" "same_attr sp' sp"
    "attr_at (sp' # post') a = attr_at (sp # post) a"
  using assms by (auto simp: merge_next_def same_attr_def spaces_ok_Cons split: list.splits if_splits)

lemma vmspace_insert_spec:
  assumes ok: "spaces_ok (vm_spaces vm)" and apart: "apart (vm_spaces vm) (sp_start sp) (sp_end sp)"
    and sp: "sp_start sp < sp_end sp"
  shows "spaces_ok (vm_spaces (vmspace_insert vm sp))"
    "attr_at (vm_spaces (vmspace_insert vm sp)) a =
       (if sp_start sp \<le> a \<and> a < sp_end sp then Some (page_prot sp, sp_flags sp) else attr_at (vm_spaces vm) a)"
proof -
  define pre where "pre = takeWhile (\<lambda>p. \<not> sp_end sp \<le> sp_start p) (vm_spaces vm)"
  define post where "post = dropWhile (\<lambda>p. \<not> sp_end sp \<le> sp_start p) (vm_spaces vm)"
  note split = insert_split [OF ok apart sp, folded pre_def post_def]
  obtain pre1 sp1 f1 where m1: "merge_prev pre sp = (pre1, sp1, f1)" by (cases "merge_prev pre sp") auto
  obtain sp2 post2 f2 where m2: "merge_next sp1 post = (sp2, post2, f2)" by (cases "merge_next sp1 post") auto
  have new: "vm_spaces (vmspace_insert vm sp) = pre1 @ sp2 # post2"
    by (simp add: vmspace_insert_def pre_def [symmetric] post_def [symmetric] m1 m2 Let_def)
  have parts: "spaces_ok pre" "spaces_ok post" using ok split(1) by (simp_all add: spaces_ok_append)
  note A = merge_prev_spec [OF parts(1) split(2) sp m1]
  have "\<forall>s \<in> set post. sp_end sp1 \<le> sp_start s" using split(3) A(4) by simp
  note B = merge_next_spec [OF parts(2) this A(3) m2]
  have mono: "sp_start sp1 \<le> sp_start t" if "t \<in> set (sp2 # post2)" for t
    using B(1,2) that by (auto simp: spaces_ok_Cons)
  show "spaces_ok (vm_spaces (vmspace_insert vm sp))"
    unfolding new spaces_ok_append using A(1,2) B(1) mono by (meson order_trans)
  have "attr_at (pre1 @ sp2 # post2) a = attr_at (pre1 @ sp1 # post) a"
    by (simp only: attr_at_append B(4))
  also have "\<dots> = attr_at (pre @ sp # post) a" by (rule A(6))
  also have "\<dots> = (if sp_start sp \<le> a \<and> a < sp_end sp then Some (page_prot sp, sp_flags sp)
      else attr_at (pre @ post) a)"
    using attr_at_before [OF split(2), of a] by (auto simp: attr_at_append split: option.splits)
  finally show "attr_at (vm_spaces (vmspace_insert vm sp)) a =
      (if sp_start sp \<le> a \<and> a < sp_end sp then Some (page_prot sp, sp_flags sp) else attr_at (vm_spaces vm) a)"
    by (simp only: new split(1) [symmetric])
qed

lemma find_from_split:
  assumes "vmspace_find_from ss addr = r"
  shows "ss = take (length ss - length r) ss @ r" "\<forall>s \<in> set (take (length ss - length r) ss). sp_end s \<le> addr"
    "r \<noteq> [] \<Longrightarrow> addr < sp_end (hd r)" "length r \<le> length ss"
  using assms by (induction ss arbitrary: r) (auto simp: Suc_diff_le split: if_splits)

lemma PAGE_ALIGN_unat: "unat x \<le> 2 ^ 31 \<Longrightarrow> unat (PAGE_ALIGN x) = (unat x + 4095) div 4096 * 4096"
proof -
  assume "unat x \<le> 2 ^ 31"
  then have "unat (x + PAGE_SIZE - 1) = unat x + 4095"
    by (simp add: PAGE_SIZE_val unat_word_ariths)
  then show ?thesis by (simp only: PAGE_ALIGN_def unat_and_PAGE_MASK)
qed

lemma aligned_mask: "addr AND NOT PAGE_MASK = 0 \<longleftrightarrow> 4096 dvd unat addr"
proof -
  have "addr AND NOT PAGE_MASK = take_bit 12 addr" by (simp add: PAGE_MASK_mask take_bit_eq_mask)
  then have "addr AND NOT PAGE_MASK = 0 \<longleftrightarrow> unat addr mod 4096 = 0"
    by (simp add: word_unat_eq_iff unsigned_take_bit_eq take_bit_eq_mod unat_mod_distrib)
  then show ?thesis by (simp add: dvd_eq_mod_eq_0)
qed

lemma range_no_wrap:
  assumes "addr AND NOT PAGE_MASK = 0" "addr \<le> USER_VMM_SIZE" "len \<le> USER_VMM_SIZE - addr" "PAGE_ALIGN len \<noteq> 0"
  shows "addr < addr + PAGE_ALIGN len" "unat (addr + PAGE_ALIGN len) = unat addr + unat (PAGE_ALIGN len)"
proof -
  have a: "unat addr \<le> 2 ^ 31" using assms(2) by (simp add: USER_VMM_SIZE_def word_le_nat_alt)
  have "unat (USER_VMM_SIZE - addr) = 2 ^ 31 - unat addr"
    using unat_sub [OF assms(2)] by (simp add: USER_VMM_SIZE_def)
  then have l: "unat len \<le> 2 ^ 31 - unat addr" using assms(3) by (simp add: word_le_nat_alt)
  obtain q where q: "unat addr = 4096 * q" using assms(1) by (auto simp: aligned_mask)
  have "unat (PAGE_ALIGN len) = (unat len + 4095) div 4096 * 4096" using l by (intro PAGE_ALIGN_unat) simp
  moreover have "(unat len + 4095) div 4096 < 524289 - q"
    using q l a by (intro less_mult_imp_div_less) simp
  ultimately have bound: "unat addr + unat (PAGE_ALIGN len) \<le> 2 ^ 31" using q a by simp
  then show "unat (addr + PAGE_ALIGN len) = unat addr + unat (PAGE_ALIGN len)"
    by (simp add: unat_word_ariths)
  moreover have "unat (PAGE_ALIGN len) \<noteq> 0" using assms(4) by (simp add: unat_eq_0)
  ultimately show "addr < addr + PAGE_ALIGN len" by (simp only: word_less_nat_alt)
qed

subsection \<open>Properties\<close>

text \<open>
  C7. Inserting a space that overlaps none gives a sorted list of disjoint spaces again, whatever it
  merges with, and changes the attributes (protection and flags) of exactly the addresses it covers.
\<close>

theorem vmspace_insert_attrs:
  assumes "spaces_ok (vm_spaces vm)" "apart (vm_spaces vm) (sp_start sp) (sp_end sp)" "sp_start sp < sp_end sp"
  shows "spaces_ok (vm_spaces (vmspace_insert vm sp)) \<and>
    attr_at (vm_spaces (vmspace_insert vm sp)) a =
      (if sp_start sp \<le> a \<and> a < sp_end sp then Some (page_prot sp, sp_flags sp) else attr_at (vm_spaces vm) a)"
  using vmspace_insert_spec [OF assms] by blast

definition example_vmm :: vmm where
  "example_vmm = \<lparr>vm_spaces = [vmspace_init 1 0x1000 0x3000 6 0, vmspace_init 2 0x5000 0x6000 6 0],
     vm_freed = [], heap_start = 0, heap_end = 0, map_start = 0x1000, map_end = 0x70000000,
     vm_pages = example_ro\<rparr>"

theorem vmspace_insert_attrs_witness:
  "spaces_ok (vm_spaces (vmspace_insert example_vmm (vmspace_init 3 0x3000 0x4000 6 0))) \<and>
   attr_at (vm_spaces (vmspace_insert example_vmm (vmspace_init 3 0x3000 0x4000 6 0))) 0x3fff = Some (6, 0)"
  using vmspace_insert_attrs [of example_vmm "vmspace_init 3 0x3000 0x4000 6 0" "0x3fff"]
  by (simp add: example_vmm_def vmspace_init_def spaces_ok_def apart_def)

lemma merge_next_cases:
  assumes "merge_next sp post = (sp', post', f)"
  obtains (no) "f = []" "sp' = sp" "post' = post"
      "\<not> (post \<noteq> [] \<and> sp_end sp = sp_start (hd post) \<and> same_attr sp (hd post))"
  | (merge) "f = [sp_id sp]" "sp_id sp' = sp_id sp" "set post' \<subseteq> set post"
      "post \<noteq> [] \<and> sp_end sp = sp_start (hd post) \<and> same_attr sp (hd post)"
  using assms by (cases post) (auto simp: merge_next_def subset_insertI split: if_splits)

text \<open>
  The merge with the following space frees the wrong node: with fresh identities, some node of
  the list is a freed one after an insertion exactly when the space inserted ends where the next
  one starts and has the same attributes. The next node, which the merge unlinks, is not freed.
\<close>

theorem vmspace_insert_dangling:
  assumes "spaces_ok (vm_spaces vm)" "apart (vm_spaces vm) (sp_start sp) (sp_end sp)" "sp_start sp < sp_end sp"
    and ids: "distinct (map sp_id (vm_spaces vm))" "sp_id sp \<notin> sp_id ` set (vm_spaces vm)"
    and live: "sp_id sp \<notin> set (vm_freed vm)" "sp_id ` set (vm_spaces vm) \<inter> set (vm_freed vm) = {}"
  shows "(\<exists>s \<in> set (vm_spaces (vmspace_insert vm sp)). sp_id s \<in> set (vm_freed (vmspace_insert vm sp))) \<longleftrightarrow>
    (\<exists>p \<in> set (vm_spaces vm). sp_end sp = sp_start p \<and> same_attr sp p)"
proof -
  define pre where "pre = takeWhile (\<lambda>p. \<not> sp_end sp \<le> sp_start p) (vm_spaces vm)"
  define post where "post = dropWhile (\<lambda>p. \<not> sp_end sp \<le> sp_start p) (vm_spaces vm)"
  note split = insert_split [OF assms(1-3), folded pre_def post_def]
  have parts: "spaces_ok pre" "spaces_ok post" using assms(1) split(1) by (simp_all add: spaces_ok_append)
  have next_only: "(\<exists>p \<in> set (vm_spaces vm). sp_end sp = sp_start p \<and> same_attr sp p) \<longleftrightarrow>
      post \<noteq> [] \<and> sp_end sp = sp_start (hd post) \<and> same_attr sp (hd post)"
  proof -
    have "\<not> sp_end sp = sp_start p" if "p \<in> set pre" for p
      using split(2) that assms(3) parts(1) by (force simp: spaces_ok_def)
    moreover have "\<not> sp_end sp = sp_start p" if "p \<in> set ps" "post = q # ps" for p q ps
      using split(3) that parts(2) by (force simp: spaces_ok_Cons)
    ultimately show ?thesis using split(1) by (cases post) auto
  qed
  have ins: "vmspace_insert vm sp = (case merge_prev pre sp of (p1, s1, f1) \<Rightarrow>
      case merge_next s1 post of (s2, q2, f2) \<Rightarrow>
        vm\<lparr>vm_spaces := p1 @ s2 # q2, vm_freed := f2 @ f1 @ vm_freed vm\<rparr>)"
    by (simp only: vmspace_insert_def Let_def pre_def post_def)
  have fresh: "distinct (map sp_id (pre @ post))" "sp_id sp \<notin> sp_id ` set (pre @ post)"
    "sp_id ` set (pre @ post) \<inter> set (vm_freed vm) = {}"
    using ids live split(1) by simp_all
  consider (no) "merge_prev pre sp = (pre, sp, [])"
    | (merge) l ps where "pre = ps @ [l]" "merge_prev pre sp = (ps, l\<lparr>sp_end := sp_end sp\<rparr>, [sp_id sp])"
        "same_attr l sp"
  proof (cases "pre \<noteq> [] \<and> sp_end (last pre) = sp_start sp \<and> same_attr (last pre) sp")
    case True
    then show ?thesis
      using that(2) [of "butlast pre" "last pre"] by (simp add: merge_prev_def)
  next
    case False
    then have "merge_prev pre sp = (pre, sp, [])" unfolding merge_prev_def by (rule if_not_P)
    then show ?thesis by (rule that(1))
  qed
  then obtain p1 s1 f1 where m1: "merge_prev pre sp = (p1, s1, f1)" "set p1 \<subseteq> set pre"
    "sp_id s1 \<in> insert (sp_id sp) (sp_id ` set pre)" "sp_id s1 \<notin> set f1" "f1 = [] \<or> f1 = [sp_id sp]"
    "sp_end s1 = sp_end sp" "same_attr s1 (hd post) = same_attr sp (hd post)" "sp_id sp \<in> set f1 \<or> s1 = sp"
    by cases (use fresh(2) in \<open>auto simp: same_attr_def\<close>)
  obtain s2 q2 f2 where m2: "merge_next s1 post = (s2, q2, f2)" by (cases "merge_next s1 post") auto
  have new: "vm_spaces (vmspace_insert vm sp) = p1 @ s2 # q2"
    "vm_freed (vmspace_insert vm sp) = f2 @ f1 @ vm_freed vm" by (simp_all add: ins m1(1) m2)
  have kept: "sp_id s \<notin> set f1 \<union> set (vm_freed vm)" if "s \<in> set pre \<union> set post \<union> {s1}" for s
  proof -
    have "sp_id s \<noteq> sp_id sp" if "s \<in> set pre \<union> set post" for s using fresh(2) that by (metis image_eqI set_append)
    with that fresh(3) live(1) m1(3-5) show ?thesis by auto
  qed
  from m2 show ?thesis
    unfolding next_only new
  proof (cases rule: merge_next_cases)
    case no
    then show "(\<exists>s \<in> set (p1 @ s2 # q2). sp_id s \<in> set (f2 @ f1 @ vm_freed vm)) =
        (post \<noteq> [] \<and> sp_end sp = sp_start (hd post) \<and> same_attr sp (hd post))"
      using kept m1(2,6,7) by auto
  next
    case merge
    then show "(\<exists>s \<in> set (p1 @ s2 # q2). sp_id s \<in> set (f2 @ f1 @ vm_freed vm)) =
        (post \<noteq> [] \<and> sp_end sp = sp_start (hd post) \<and> same_attr sp (hd post))"
      using m1(6,7) by auto
  qed
qed

theorem vmspace_insert_dangling_witness:
  "\<exists>s \<in> set (vm_spaces (vmspace_insert example_vmm (vmspace_init 3 0x4000 0x5000 6 0))).
     sp_id s \<in> set (vm_freed (vmspace_insert example_vmm (vmspace_init 3 0x4000 0x5000 6 0)))"
  using vmspace_insert_dangling [of example_vmm "vmspace_init 3 0x4000 0x5000 6 0"]
  by (simp add: example_vmm_def vmspace_init_def spaces_ok_def apart_def same_attr_def)

text \<open>
  C8. Unmapping a range inside one space gives a list of disjoint spaces again and removes exactly
  that range: its addresses have no attributes any more, all others keep theirs.
\<close>

theorem vmspace_unmap_attrs:
  assumes ok: "spaces_ok (vm_spaces vm)" and un: "do_vmspace_unmap vm (Some i) addr len = (0, vm')"
  shows "spaces_ok (vm_spaces vm') \<and>
    attr_at (vm_spaces vm') a =
      (if addr \<le> a \<and> a < addr + PAGE_ALIGN len then None else attr_at (vm_spaces vm) a)"
proof -
  let ?len = "PAGE_ALIGN len"
  from un obtain sp rest where f: "vmspace_find_from (vm_spaces vm) addr = sp # rest"
    and args: "addr AND NOT PAGE_MASK = 0" "addr \<le> USER_VMM_SIZE" "len \<le> USER_VMM_SIZE - addr" "?len \<noteq> 0"
    by (auto simp: do_vmspace_unmap_def Let_def split: if_splits list.splits)
  define pre where "pre = take (length (vm_spaces vm) - length (sp # rest)) (vm_spaces vm)"
  note split = find_from_split [OF f, folded pre_def]
  have "\<not> (addr AND NOT PAGE_MASK \<noteq> 0 \<or> addr > USER_VMM_SIZE \<or> len > USER_VMM_SIZE - addr)"
    using args by auto
  with un f args(4) have inside: "sp_start sp \<le> addr" "addr + ?len \<le> sp_end sp"
    and new: "vm_spaces vm' = pre @
      (if sp_start sp = addr then [] else [sp\<lparr>sp_end := addr\<rparr>]) @
      (if addr + ?len = sp_end sp then [] else [sp\<lparr>sp_id := i, sp_start := addr + ?len\<rparr>]) @ rest"
    by (auto simp: do_vmspace_unmap_def Let_def pre_def not_less split: if_splits)
  note wrap = range_no_wrap [OF args]
  have parts: "spaces_ok pre" "\<forall>t \<in> set rest. sp_end sp \<le> sp_start t" "spaces_ok rest"
    "\<forall>x \<in> set pre. sp_end x \<le> sp_start sp \<and> (\<forall>y \<in> set rest. sp_end x \<le> sp_start y)"
    using ok split(1) by (auto simp: spaces_ok_append spaces_ok_Cons)
  have "spaces_ok (vm_spaces vm')"
    unfolding new using parts inside wrap(1)
    by (auto simp: spaces_ok_append spaces_ok_Cons spaces_ok_def [of "[]"])
  moreover have "attr_at (vm_spaces vm') a =
      (if addr \<le> a \<and> a < addr + ?len then None else attr_at (vm_spaces vm) a)"
  proof -
    have "attr_at rest a = None" if "a < sp_end sp" using parts(2) that by (force simp: attr_at_None)
    moreover have "attr_at pre a = None" if "addr \<le> a" using split(2) that by (force simp: attr_at_None)
    moreover have "vm_spaces vm = pre @ sp # rest" using split(1) by simp
    ultimately show ?thesis
      unfolding new using inside wrap(1) by (auto simp: attr_at_append split: option.splits)
  qed
  ultimately show ?thesis by blast
qed

theorem vmspace_unmap_attrs_witness:
  "\<exists>vm'. do_vmspace_unmap example_vmm (Some 9) 0x1000 0x1000 = (0, vm') \<and> spaces_ok (vm_spaces vm') \<and>
     attr_at (vm_spaces vm') 0x1800 = None \<and> attr_at (vm_spaces vm') 0x2800 = Some (6, 0)"
proof -
  have al: "PAGE_ALIGN 0x1000 = 0x1000" by (simp add: PAGE_ALIGN_def PAGE_SIZE_val PAGE_MASK_val)
  obtain vm' where u: "do_vmspace_unmap example_vmm (Some 9) 0x1000 0x1000 = (0, vm')"
    by (simp add: do_vmspace_unmap_def al Let_def example_vmm_def vmspace_init_def PAGE_MASK_val USER_VMM_SIZE_def)
  have ok: "spaces_ok (vm_spaces example_vmm)" by (simp add: example_vmm_def vmspace_init_def spaces_ok_def)
  from vmspace_unmap_attrs [OF ok u, of "0x1800"] vmspace_unmap_attrs [OF ok u, of "0x2800"] u show ?thesis
    by (simp add: al) (simp add: example_vmm_def vmspace_init_def)
qed

lemma unmaped_loop_free:
  assumes "spaces_ok ss" "unmaped_loop addr len mend ss = r" "r \<noteq> -1" "unat len \<le> 2 ^ 31"
  shows "\<forall>s \<in> set ss. sp_end s \<le> r \<or> unat r + unat len \<le> unat (sp_start s)"
  using assms
proof (induction addr len mend ss rule: unmaped_loop.induct)
  case (2 addr len mend s ss)
  have ok: "spaces_ok ss" "\<forall>t \<in> set ss. sp_end s \<le> sp_start t" "sp_start s < sp_end s"
    using "2.prems"(1) by (auto simp: spaces_ok_Cons)
  have up: "sp_end s \<le> r'" if "unmaped_loop (sp_end s) len mend ss = r'" "r' \<noteq> -1" for r'
  proof -
    have "a \<le> unmaped_loop a len mend ts" if "spaces_ok ts" "\<forall>t \<in> set ts. a \<le> sp_start t"
      "unmaped_loop a len mend ts \<noteq> -1" for a ts
      using that
    proof (induction a len mend ts rule: unmaped_loop.induct)
      case (2 a len mend t ts)
      then have "\<forall>u \<in> set ts. sp_end t \<le> sp_start u" "spaces_ok ts" "a \<le> sp_end t"
        by (auto simp: spaces_ok_Cons)
      with 2 show ?case by (auto split: if_splits)
    qed simp
    with ok that show ?thesis by blast
  qed
  show ?case
  proof (cases "USER_VMM_SIZE - len < addr \<or> addr + len \<ge> mend")
    case True
    with "2.prems"(2,3) show ?thesis by (auto split: if_splits)
  next
    case ok1: False
    show ?thesis
    proof (cases "addr + len \<le> sp_start s")
      case True
      then have r: "r = addr" using "2.prems"(2) ok1 by simp
      have "unat (USER_VMM_SIZE - len) = 2 ^ 31 - unat len"
        using "2.prems"(4) by (subst unat_sub) (simp_all add: USER_VMM_SIZE_def word_le_nat_alt)
      with ok1 have "unat addr + unat len \<le> 2 ^ 31"
        using "2.prems"(4) by (auto simp: word_le_nat_alt not_less)
      then have sum: "unat (addr + len) = unat addr + unat len" by (simp add: unat_word_ariths)
      have "unat addr + unat len \<le> unat (sp_start t)" if "t \<in> set (s # ss)" for t
        using that True ok(2,3) unfolding sum [symmetric] word_le_nat_alt [symmetric] by force
      then show ?thesis by (simp add: r)
    next
      case False
      then have rest: "unmaped_loop (sp_end s) len mend ss = r" using "2.prems"(2) ok1 by simp
      from "2.IH" [OF _ _ _ ok(1) rest "2.prems"(3,4)] ok1 False up [OF rest "2.prems"(3)]
      show ?thesis by auto
    qed
  qed
qed simp

text \<open>
  An address that \<open>vmspace_get_unmaped\<close> returns starts a free range: no space of the list
  intersects \<open>len\<close> bytes from there.
\<close>

theorem vmspace_get_unmaped_free:
  assumes "spaces_ok (vm_spaces vm)" "vmspace_get_unmaped vm len = r" "r \<noteq> -1" "unat len \<le> 2 ^ 31"
    and "map_start vm \<le> r"
  shows "\<forall>s \<in> set (vm_spaces vm). sp_end s \<le> r \<or> unat r + unat len \<le> unat (sp_start s)"
proof -
  let ?f = "vmspace_find_from (vm_spaces vm) (map_start vm)"
  define pre where "pre = take (length (vm_spaces vm) - length ?f) (vm_spaces vm)"
  note split = find_from_split [OF refl, of "vm_spaces vm" "map_start vm", folded pre_def]
  have "spaces_ok (pre @ ?f)" using assms(1) split(1) by simp
  then have "spaces_ok ?f" by (simp only: spaces_ok_append)
  from unmaped_loop_free [OF this _ assms(3,4)] assms(2)
  have "\<forall>s \<in> set ?f. sp_end s \<le> r \<or> unat r + unat len \<le> unat (sp_start s)"
    by (simp add: vmspace_get_unmaped_def)
  moreover have "\<forall>s \<in> set pre. sp_end s \<le> r" using split(2) assms(5) by force
  ultimately show ?thesis using split(1) by (metis Un_iff set_append)
qed

theorem vmspace_get_unmaped_free_witness:
  "vmspace_get_unmaped example_vmm 0x2000 = 0x3000 \<and>
   unat (0x3000 :: u32) + unat (0x2000 :: u32) \<le> unat (sp_start (vm_spaces example_vmm ! 1))"
proof -
  have r: "vmspace_get_unmaped example_vmm 0x2000 = 0x3000"
    by (simp add: vmspace_get_unmaped_def example_vmm_def vmspace_init_def USER_VMM_SIZE_def)
  have "spaces_ok (vm_spaces example_vmm)" by (simp add: example_vmm_def vmspace_init_def spaces_ok_def)
  from vmspace_get_unmaped_free [OF this r] r show ?thesis
    by (simp add: example_vmm_def vmspace_init_def)
qed

end
