(* ===== verification/VmArea.thy ===== *)
theory VmArea
  imports Bitmap Paging
begin

section \<open>Kernel virtual areas\<close>

text \<open>
  \<open>src/src/vmm/vmarea.c\<close> with \<open>ioremap.c\<close> of the machine directory: \<open>vmalloc\<close>, \<open>vfree\<close>, \<open>ioremap\<close>
  and \<open>iounmap\<close>. The two lists hold area nodes with their identity, \<open>va_freed\<close> the nodes handed to
  \<open>kfree\<close>; \<open>kmalloc\<close>'s answer is the argument \<open>new\<close>. A range of page addresses is allocated through
  the bitmap by the interface \<open>bit_scanner\<close>.
\<close>

record vmarea =
  va_id :: nat
  va_addr :: u32
  va_size :: u32

record vmareas =
  vaddr_bitmap :: bitmap
  vaddr_base :: u32
  using_list :: "vmarea list"
  free_list :: "vmarea list"
  va_freed :: "nat list"
  va_paging :: paging

definition VMAREA_BASE :: u32 where "VMAREA_BASE = 0xffffffff - (0x8000000 + 0x400000) + 1"
definition VMAREA_END :: u32 where "VMAREA_END = 0xffffffff - 0x400000 + 1"

text \<open>The loops that mark \<open>pages\<close> bits from \<open>idx\<close> on.\<close>

definition mark :: "bitmap \<Rightarrow> nat \<Rightarrow> nat \<Rightarrow> bool \<Rightarrow> bitmap" where
  "mark b idx pages v = fold (\<lambda>i b. bitmap_set b (idx + i) v) [0..<pages] b"

definition alloc_vaddr :: "vmareas \<Rightarrow> u32 \<Rightarrow> u32 \<times> vmareas" where
  "alloc_vaddr va size0 =
     (let sz = PAGE_ALIGN size0
      in if sz = 0 then (0, va)
         else let pages = unat (sz div PAGE_SIZE); idx = bitmap_scan (vaddr_bitmap va) pages
              in if idx = -1 then (0, va)
                 else (vaddr_base va + of_int idx * PAGE_SIZE,
                       va\<lparr>vaddr_bitmap := mark (vaddr_bitmap va) (nat idx) pages True\<rparr>))"

definition free_vaddr :: "vmareas \<Rightarrow> u32 \<Rightarrow> u32 \<Rightarrow> u32 \<times> vmareas" where
  "free_vaddr va vaddr size0 =
     (if size0 = 0 then (-1, va)
      else let sz = PAGE_ALIGN size0; pages = unat (sz div PAGE_SIZE);
               idx = unat ((vaddr - vaddr_base va) div PAGE_SIZE)
           in (0, va\<lparr>vaddr_bitmap := mark (vaddr_bitmap va) idx pages False\<rparr>))"

definition PROT_KERN_WRITE :: u32 where "PROT_KERN_WRITE = 0x8 OR 0x2"

text \<open>\<open>__vmalloc\<close>: when the pages cannot be mapped the area is freed but stays in the using list.\<close>

definition vmalloc_new :: "vmareas \<Rightarrow> nat option \<Rightarrow> u32 \<Rightarrow> (u32 \<times> vmareas) kret" where
  "vmalloc_new va new sz =
     (case alloc_vaddr va sz of (start, va) \<Rightarrow>
        if start = 0 then Ret (0, va)
        else case new of
               None \<Rightarrow> Ret (0, snd (free_vaddr va start sz))
             | Some i \<Rightarrow>
                 let area = \<lparr>va_id = i, va_addr = start, va_size = sz\<rparr>;
                     va = va\<lparr>using_list := using_list va @ [area]\<rparr>
                 in case map_pages (va_paging va) start sz PROT_KERN_WRITE of
                      Panic \<Rightarrow> Panic
                    | Ret (r, pg) \<Rightarrow>
                        if r \<noteq> 0
                        then Ret (0, (snd (free_vaddr (va\<lparr>va_paging := pg\<rparr>) start sz))\<lparr>va_freed := i # va_freed va\<rparr>)
                        else Ret (va_addr area, va\<lparr>va_paging := pg\<rparr>))"

text \<open>The search of the free list: the areas before the first with \<open>size \<ge> area->size\<close>, and the rest.\<close>

definition fit_split :: "u32 \<Rightarrow> vmarea list \<Rightarrow> vmarea list \<times> vmarea list" where
  "fit_split sz as = (takeWhile (\<lambda>a. \<not> sz \<ge> va_size a) as, dropWhile (\<lambda>a. \<not> sz \<ge> va_size a) as)"

definition vmalloc :: "vmareas \<Rightarrow> nat option \<Rightarrow> u32 \<Rightarrow> (u32 \<times> vmareas) kret" where
  "vmalloc va new size0 =
     (let sz = PAGE_ALIGN size0
      in if sz = 0 then Ret (0, va)
         else let sz = sz + PAGE_SIZE
              in case fit_split sz (free_list va) of
                   (pre, target # post) \<Rightarrow>
                     Ret (va_addr target, va\<lparr>free_list := pre @ post, using_list := using_list va @ [target]\<rparr>)
                 | (_, []) \<Rightarrow> vmalloc_new va new sz)"

text \<open>The insertion of \<open>__vfree\<close> and its \<open>insert\<close> flag, which stays 0 for an empty free list.\<close>

fun insert_area :: "vmarea \<Rightarrow> vmarea list \<Rightarrow> vmarea list" where
  "insert_area t [] = [t]"
| "insert_area t (a # as) = (if va_size t > va_size a then a # insert_area t as else t # a # as)"

definition vfree_area :: "vmareas \<Rightarrow> vmarea \<Rightarrow> bool \<times> vmareas" where
  "vfree_area va target =
     (free_list va \<noteq> [],
      va\<lparr>using_list := remove1 target (using_list va), free_list := insert_area target (free_list va)\<rparr>)"

definition vfree :: "vmareas \<Rightarrow> u32 \<Rightarrow> int \<times> vmareas" where
  "vfree va addr =
     (if addr = 0 then (-1, va)
      else if addr < vaddr_base va \<or> addr \<ge> VMAREA_END then (-1, va)
      else case dropWhile (\<lambda>a. va_addr a \<noteq> addr) (using_list va) of
             [] \<Rightarrow> (-1, va)
           | target # _ \<Rightarrow>
               (case vfree_area va target of (ins, va) \<Rightarrow> if ins then (0, va) else (-1, va)))"

fun io_link :: "paging \<Rightarrow> u32 \<Rightarrow> u32 \<Rightarrow> nat \<Rightarrow> paging kret" where
  "io_link m paddr vaddr 0 = Ret m"
| "io_link m paddr vaddr (Suc n) =
     (case page_link m vaddr paddr (PG_RW_W OR PG_US_S) of Panic \<Rightarrow> Panic
      | Ret m \<Rightarrow> io_link m (paddr + PAGE_SIZE) (vaddr + PAGE_SIZE) n)"

definition io_pages :: "u32 \<Rightarrow> u32 \<Rightarrow> nat" where
  "io_pages vaddr sz = (if vaddr < vaddr + sz then (unat sz + 4095) div 4096 else 0)"

definition arch_ioremap :: "paging \<Rightarrow> u32 \<Rightarrow> u32 \<Rightarrow> u32 \<Rightarrow> (int \<times> paging) kret" where
  "arch_ioremap m paddr vaddr sz =
     (case io_link m paddr vaddr (io_pages vaddr sz) of Panic \<Rightarrow> Panic | Ret m \<Rightarrow> Ret (0, m))"

definition arch_iounmap :: "paging \<Rightarrow> u32 \<Rightarrow> u32 \<Rightarrow> (int \<times> paging) kret" where
  "arch_iounmap m addr sz =
     (case unlink_range m addr (io_pages addr sz) of Panic \<Rightarrow> Panic | Ret m \<Rightarrow> Ret (0, m))"

text \<open>\<open>ioremap\<close> compares the result of \<open>alloc_vaddr\<close> with -1, although its failure value is 0.\<close>

definition ioremap :: "vmareas \<Rightarrow> nat option \<Rightarrow> u32 \<Rightarrow> u32 \<Rightarrow> (u32 \<times> vmareas) kret" where
  "ioremap va new paddr sz =
     (if paddr = 0 \<or> sz = 0 then Ret (0, va)
      else case alloc_vaddr va sz of (vaddr, va) \<Rightarrow>
        if vaddr = -1 then Ret (0, va)
        else case new of
               None \<Rightarrow> Ret (0, snd (free_vaddr va vaddr sz))
             | Some i \<Rightarrow>
                 let area = \<lparr>va_id = i, va_addr = vaddr, va_size = sz\<rparr>
                 in case arch_ioremap (va_paging va) paddr vaddr sz of
                      Panic \<Rightarrow> Panic
                    | Ret (r, pg) \<Rightarrow>
                        if r \<noteq> 0
                        then Ret (0, (snd (free_vaddr (va\<lparr>va_paging := pg\<rparr>) vaddr sz))\<lparr>va_freed := i # va_freed va\<rparr>)
                        else Ret (vaddr, va\<lparr>using_list := using_list va @ [area], va_paging := pg\<rparr>))"

definition iounmap :: "vmareas \<Rightarrow> u32 \<Rightarrow> (int \<times> vmareas) kret" where
  "iounmap va addr =
     (if addr = 0 then Ret (-1, va)
      else if addr < vaddr_base va \<or> addr \<ge> VMAREA_END then Ret (-1, va)
      else case dropWhile (\<lambda>a. va_addr a \<noteq> addr) (using_list va) of
             [] \<Rightarrow> Ret (-1, va)
           | target # _ \<Rightarrow>
               (case arch_iounmap (va_paging va) (va_addr target) (va_size target) of
                  Panic \<Rightarrow> Panic
                | Ret (r, pg) \<Rightarrow>
                    let va = va\<lparr>va_paging := pg\<rparr>
                    in if r \<noteq> 0
                       then let va = va\<lparr>using_list := remove1 target (using_list va)\<rparr>
                            in Ret (0, (snd (free_vaddr va addr (va_size target)))\<lparr>va_freed := va_id target # va_freed va\<rparr>)
                       else Ret (-1, va)))"

definition init_vmarea :: "mem \<Rightarrow> paging \<Rightarrow> vmareas" where
  "init_vmarea buf pg =
     \<lparr>vaddr_bitmap = bitmap_init \<lparr>byte_length = 4096, bits = buf\<rparr>, vaddr_base = VMAREA_BASE,
      using_list = [], free_list = [], va_freed = [], va_paging = pg\<rparr>"

subsection \<open>Marking runs\<close>

lemma test_mark [simp]:
  "bitmap_scan_test (mark b idx n v) j \<longleftrightarrow> (if idx \<le> j \<and> j < idx + n then v else bitmap_scan_test b j)"
  unfolding mark_def by (rule bm.test_fold_set)

lemma byte_length_mark [simp]: "byte_length (mark b idx n v) = byte_length b"
  unfolding mark_def by (induction n) (simp_all)

text \<open>What a successful \<open>alloc_vaddr\<close> does, in pages from the base.\<close>

lemma alloc_vaddr_cases:
  assumes "alloc_vaddr va sz = (a, va')"
  obtains (none) "a = 0" "va' = va"
  | (some) s n where "n = unat (PAGE_ALIGN sz div PAGE_SIZE)" "PAGE_ALIGN sz \<noteq> 0" "1 \<le> n"
      "bitmap_scan (vaddr_bitmap va) n = int s" "a = vaddr_base va + of_nat s * PAGE_SIZE"
      "va' = va\<lparr>vaddr_bitmap := mark (vaddr_bitmap va) s n True\<rparr>"
proof (cases "PAGE_ALIGN sz = 0 \<or> bitmap_scan (vaddr_bitmap va) (unat (PAGE_ALIGN sz div PAGE_SIZE)) = -1")
  case True
  with assms that(1) show ?thesis by (auto simp: alloc_vaddr_def Let_def split: if_splits)
next
  case False
  let ?n = "unat (PAGE_ALIGN sz div PAGE_SIZE)"
  have m: "unat (PAGE_ALIGN sz) mod 4096 = 0" by (simp add: PAGE_ALIGN_def unat_and_PAGE_MASK)
  have "unat (PAGE_ALIGN sz) \<noteq> 0" using False by (simp add: unat_eq_0)
  with m have "4096 \<le> unat (PAGE_ALIGN sz)" by (metis mod_less not_le)
  moreover have "?n = unat (PAGE_ALIGN sz) div 4096" by (simp add: unat_div_distrib)
  ultimately have n: "1 \<le> ?n" by (simp add: div_le_mono [of 4096, simplified])
  with False bm.scan_cases [OF n, of "vaddr_bitmap va"] obtain s where
    s: "bitmap_scan (vaddr_bitmap va) ?n = int s" by auto
  with assms False that(2) [OF refl _ n s] show ?thesis by (auto simp: alloc_vaddr_def Let_def)
qed

lemma page_index:
  assumes "s < 2 ^ 20"
  shows "unat ((b + of_nat s * PAGE_SIZE - b) div PAGE_SIZE) = s"
proof -
  have "unat (of_nat s * PAGE_SIZE) = s * 4096"
    using assms by (simp add: PAGE_SIZE_val unat_word_ariths unat_of_small)
  then show ?thesis by (simp add: unat_div_distrib)
qed

text \<open>The insertion of a freed area is a sorted insertion.\<close>

lemma set_insert_area [simp]: "set (insert_area t as) = insert t (set as)"
  by (induction as) auto

lemma insert_area_sorted:
  "sorted_wrt (\<lambda>a b. va_size a \<le> va_size b) as \<Longrightarrow> sorted_wrt (\<lambda>a b. va_size a \<le> va_size b) (insert_area t as)"
  by (induction as) (auto simp: not_less intro: order_trans)

subsection \<open>Properties\<close>

text \<open>
  \<open>alloc_vaddr\<close> hands out pages nobody has: the address returned is the base plus \<open>s\<close> pages
  such that the \<open>n\<close> pages from \<open>s\<close> on were free and are taken now, no other page changes state, and
  giving the range back with \<open>free_vaddr\<close> restores every bit.
\<close>

theorem alloc_vaddr_fresh:
  assumes "alloc_vaddr va sz = (a, va')" "va' \<noteq> va" "byte_length (vaddr_bitmap va) \<le> 2 ^ 17" "sz \<noteq> 0"
  shows "\<exists>s. a = vaddr_base va + of_nat s * PAGE_SIZE \<and>
    (\<forall>j. bitmap_scan_test (vaddr_bitmap va') j \<longleftrightarrow>
      bitmap_scan_test (vaddr_bitmap va) j \<or> s \<le> j \<and> j < s + unat (PAGE_ALIGN sz div PAGE_SIZE)) \<and>
    (\<forall>j. s \<le> j \<and> j < s + unat (PAGE_ALIGN sz div PAGE_SIZE) \<longrightarrow> \<not> bitmap_scan_test (vaddr_bitmap va) j) \<and>
    (\<forall>j. bitmap_scan_test (vaddr_bitmap (snd (free_vaddr va' a sz))) j \<longleftrightarrow> bitmap_scan_test (vaddr_bitmap va) j)"
proof (rule alloc_vaddr_cases [OF assms(1)])
  fix s n
  assume *: "n = unat (PAGE_ALIGN sz div PAGE_SIZE)" "1 \<le> n" "bitmap_scan (vaddr_bitmap va) n = int s"
    "a = vaddr_base va + of_nat s * PAGE_SIZE" "va' = va\<lparr>vaddr_bitmap := mark (vaddr_bitmap va) s n True\<rparr>"
  have free: "\<not> bitmap_scan_test (vaddr_bitmap va) j" if "s \<le> j" "j < s + n" for j
    by (rule bm.scan_free [OF *(2,3) that])
  have "s < 2 ^ 20" using bitmap_scan_spec [OF *(2), of "vaddr_bitmap va"] *(3) assms(3) by auto
  then have "unat ((a - vaddr_base va') div PAGE_SIZE) = s" using page_index [of s "vaddr_base va"] by (simp add: *(4,5))
  then have "vaddr_bitmap (snd (free_vaddr va' a sz)) = mark (mark (vaddr_bitmap va) s n True) s n False"
    using assms(4) by (simp add: free_vaddr_def Let_def *(1) [symmetric]) (simp add: *(5))
  then show ?thesis using free by (intro exI [of _ s]) (auto simp: *(4,5) *(1) [symmetric])
qed (use assms(2) in simp)

definition example_areas :: vmareas where
  "example_areas = (init_vmarea (\<lambda>_. 0) example_paging)
     \<lparr>using_list := [\<lparr>va_id = 1, va_addr = 0xf7c00000, va_size = 0x3000\<rparr>],
      free_list := [\<lparr>va_id = 2, va_addr = 0xf8000000, va_size = 0x2000\<rparr>]\<rparr>"

theorem alloc_vaddr_fresh_witness:
  "\<exists>s va'. alloc_vaddr example_areas 0x1800 = (VMAREA_BASE + of_nat s * PAGE_SIZE, va') \<and>
     bitmap_scan_test (vaddr_bitmap va') s \<and> \<not> bitmap_scan_test (vaddr_bitmap example_areas) s"
proof -
  have clear: "\<not> bitmap_scan_test (vaddr_bitmap example_areas) j" for j
    by (simp add: example_areas_def init_vmarea_def bitmap_init_def scan_test_bit)
  have len: "byte_length (vaddr_bitmap example_areas) = 4096" "vaddr_base example_areas = VMAREA_BASE"
    by (simp_all add: example_areas_def init_vmarea_def bitmap_init_def)
  have two: "PAGE_ALIGN 0x1800 = 0x2000" "unat (PAGE_ALIGN 0x1800 div PAGE_SIZE) = 2"
    by (simp_all add: PAGE_ALIGN_def PAGE_SIZE_val PAGE_MASK_val)
  obtain a va' where al: "alloc_vaddr example_areas 0x1800 = (a, va')" by (cases "alloc_vaddr example_areas 0x1800")
  have "bitmap_scan (vaddr_bitmap example_areas) 2 \<noteq> -1"
    using bm.scan_none [of 2 "vaddr_bitmap example_areas" 0] clear len(1) by auto
  then have "\<exists>j. bitmap_scan_test (vaddr_bitmap va') j"
    using al two
    by (intro exI [of _ "nat (bitmap_scan (vaddr_bitmap example_areas) 2)"]) (auto simp: alloc_vaddr_def Let_def)
  then have "va' \<noteq> example_areas" using clear by auto
  from alloc_vaddr_fresh [OF al this] len two al clear show ?thesis by auto
qed

text \<open>
  \<open>vfree\<close> keeps the free list sorted by size and moves the area it is asked for from the using
  list to it. It reports success only if the free list had an area before: the first \<open>vfree\<close> after
  boot, and every one that finds the free list empty, frees the area and returns -1.
\<close>

theorem vfree_moves_area:
  assumes "sorted_wrt (\<lambda>a b. va_size a \<le> va_size b) (free_list va)"
    and "using_list va = pre @ t # post" "\<forall>a \<in> set pre. va_addr a \<noteq> va_addr t" "va_addr t \<noteq> 0"
    and "vaddr_base va \<le> va_addr t" "va_addr t < VMAREA_END"
    and "vfree va (va_addr t) = (r, va')"
  shows "sorted_wrt (\<lambda>a b. va_size a \<le> va_size b) (free_list va') \<and>
    set (free_list va') = insert t (set (free_list va)) \<and> using_list va' = pre @ post \<and>
    (r = 0 \<longleftrightarrow> free_list va \<noteq> [])"
proof -
  have "dropWhile (\<lambda>a. va_addr a \<noteq> va_addr t) (using_list va) = t # post"
    using assms(2,3) by (simp add: dropWhile_append2)
  moreover have "remove1 t (using_list va) = pre @ post"
    using assms(2,3) by (auto simp: remove1_append)
  ultimately show ?thesis
    using assms(1,4-7) insert_area_sorted [OF assms(1), of t]
    by (auto simp: vfree_def vfree_area_def split: if_splits)
qed

theorem vfree_moves_area_witness:
  "\<exists>va'. vfree (example_areas\<lparr>free_list := []\<rparr>) 0xf7c00000 = (-1, va') \<and> using_list va' = [] \<and>
     va_size ` set (free_list va') = {0x3000}"
proof -
  let ?t = "\<lparr>va_id = 1, va_addr = 0xf7c00000, va_size = 0x3000\<rparr>"
  obtain r va' where f: "vfree (example_areas\<lparr>free_list := []\<rparr>) (va_addr ?t) = (r, va')"
    by (cases "vfree (example_areas\<lparr>free_list := []\<rparr>) (va_addr ?t)")
  have "using_list va' = [] \<and> set (free_list va') = {?t} \<and> r \<noteq> 0"
    using vfree_moves_area [where va = "example_areas\<lparr>free_list := []\<rparr>" and t = ?t and pre = "[]" and post = "[]",
        OF _ _ _ _ _ _ f]
    by (simp add: example_areas_def init_vmarea_def VMAREA_BASE_def VMAREA_END_def)
  moreover have "r = -1 \<or> r = 0" using f by (auto simp: vfree_def split: if_splits list.splits prod.splits)
  ultimately show ?thesis using f by auto
qed

text \<open>
  \<open>vmalloc\<close> hands out areas that are too small: its search stops at the first free area whose
  size is at most the size needed. If that area is smaller than the request, the caller gets its
  address all the same, and nothing is mapped behind its end.
\<close>

theorem vmalloc_too_small:
  assumes "free_list va = pre @ a # post" "\<forall>b \<in> set pre. PAGE_ALIGN sz + PAGE_SIZE < va_size b"
    and "va_size a < PAGE_ALIGN sz" "PAGE_ALIGN sz \<le> PAGE_ALIGN sz + PAGE_SIZE"
  shows "\<exists>va'. vmalloc va new sz = Ret (va_addr a, va') \<and> using_list va' = using_list va @ [a] \<and>
    free_list va' = pre @ post \<and> va_paging va' = va_paging va \<and> va_size a < PAGE_ALIGN sz"
proof -
  have "va_size a \<le> PAGE_ALIGN sz + PAGE_SIZE" using assms(3,4) by simp
  then have "fit_split (PAGE_ALIGN sz + PAGE_SIZE) (free_list va) = (pre, a # post)"
    using assms(1,2) by (simp add: fit_split_def takeWhile_append2 dropWhile_append2 not_le)
  moreover have "PAGE_ALIGN sz \<noteq> 0" using assms(3) by auto
  ultimately show ?thesis using assms(3) by (simp add: vmalloc_def Let_def)
qed

theorem vmalloc_too_small_witness:
  "\<exists>va'. vmalloc example_areas None 0x10000 = Ret (0xf8000000, va') \<and>
     using_list va' = using_list example_areas @ [\<lparr>va_id = 2, va_addr = 0xf8000000, va_size = 0x2000\<rparr>]"
  using vmalloc_too_small [of example_areas "[]" "\<lparr>va_id = 2, va_addr = 0xf8000000, va_size = 0x2000\<rparr>" "[]" "0x10000" None]
  by (auto simp: example_areas_def PAGE_ALIGN_def PAGE_SIZE_val PAGE_MASK_val)

text \<open>
  \<open>iounmap\<close> never succeeds: it takes the 0 that \<open>__iounmap\<close> always returns for a failure, so the
  pages are unlinked, but the area stays in the using list and its addresses stay taken.
\<close>

theorem iounmap_never_releases:
  assumes "iounmap va addr = Ret (r, va')"
  shows "r = -1 \<and> using_list va' = using_list va \<and> vaddr_bitmap va' = vaddr_bitmap va"
  using assms by (auto simp: iounmap_def arch_iounmap_def Let_def split: if_splits list.splits kret.splits)

theorem iounmap_never_releases_witness:
  "\<exists>va'. iounmap (example_areas\<lparr>va_paging := example_ro\<rparr>) 0xf7c00000 = Ret (-1, va') \<and>
     using_list va' \<noteq> []"
proof -
  have "case iounmap (example_areas\<lparr>va_paging := example_ro\<rparr>) 0xf7c00000 of Panic \<Rightarrow> False | Ret _ \<Rightarrow> True"
    by code_simp
  then obtain r va' where i: "iounmap (example_areas\<lparr>va_paging := example_ro\<rparr>) 0xf7c00000 = Ret (r, va')"
    by (auto split: kret.splits)
  from iounmap_never_releases [OF i] i show ?thesis by (simp add: example_areas_def)
qed

end
