(* ===== verification/MemCache.thy ===== *)
theory MemCache
  imports Bitmap Pmem
begin

section \<open>The object allocator\<close>

text \<open>
  \<open>src/src/vmm/memcache.c\<close>: \<open>kmalloc\<close> and \<open>kfree\<close>. A group is the page that holds its structure and
  bitmap; it is named by its kernel address, and \<open>groups\<close> is the memory of all groups. The three
  lists of a cache hold such addresses. Caches are numbered in the order of \<open>cache_size\<close>; the marks
  \<open>MEM_NODE_MARK_CHACHE_GROUP\<close> puts on a memory node are these numbers. Sizes are those of the i386:
  32 bytes for a \<open>mem_group_t\<close>, 16 for a \<open>large_mem_object_t\<close>. Printing is left out.
\<close>

record mem_group =
  g_map :: bitmap
  g_objects :: u32
  using_count :: u32
  free_count :: u32

record mem_cache =
  full_groups :: "u32 list"
  partial_groups :: "u32 list"
  free_groups :: "u32 list"
  object_size :: u32
  object_count :: u32

record large_mem_object =
  lo_addr :: u32
  lo_size :: u32
  lo_self :: u32

record kmem =
  groups :: "u32 \<Rightarrow> mem_group"
  caches :: "nat \<Rightarrow> mem_cache"
  kphys :: pmem
  large :: "large_mem_object list"

definition cache_size :: "u32 list" where
  "cache_size = [32, 64, 128, 256, 512, 1024, 2048, 4096, 8192, 16384, 32768, 65536, 131072,
     0x40000, 0x80000, 0x100000, 0x200000, 0x400000]"

text \<open>\<open>CONFIG_LARGE_ALLOCS\<close> is defined in \<open>src/src/include/xbook/config.h\<close>.\<close>

definition MAX_MEM_CACHE_SIZE :: u32 where "MAX_MEM_CACHE_SIZE = 0x200000"
definition MAX_MEM_OBJECT_SIZE :: u32 where "MAX_MEM_OBJECT_SIZE = 0x1800000"
definition SIZEOF_MEM_GROUP :: u32 where "SIZEOF_MEM_GROUP = 32"

definition v2p :: "u32 \<Rightarrow> u32" where "v2p a = a - PAGE_OFFSET"
definition p2v :: "u32 \<Rightarrow> u32" where "p2v a = a + PAGE_OFFSET"

text \<open>\<open>mem_cache_init\<close>: the number of objects of a group depends on the size class.\<close>

definition objects_per_group :: "u32 \<Rightarrow> u32" where
  "objects_per_group sz =
     (if sz < 1024 then (PAGE_SIZE - ALIGN_WITH SIZEOF_MEM_GROUP 8 - 16) div sz
      else if sz \<le> 131072 then 0x100000 div sz
      else if sz \<le> 0x400000 then 0x400000 div sz
      else 4)"

definition mem_cache_init :: "kmem \<Rightarrow> nat \<Rightarrow> u32 \<Rightarrow> int \<times> kmem" where
  "mem_cache_init km c sz =
     (if sz = 0 then (-1, km)
      else (0, km\<lparr>caches := (caches km)(c := \<lparr>full_groups = [], partial_groups = [], free_groups = [],
             object_size = sz, object_count = objects_per_group sz\<rparr>)\<rparr>))"

definition make_mem_caches :: "kmem \<Rightarrow> int \<times> kmem" where
  "make_mem_caches km = fold (\<lambda>(c, sz) (r, km). if r \<noteq> 0 then (r, km) else mem_cache_init km c sz)
     (enumerate 0 cache_size) (0, km)"

definition upd_cache :: "nat \<Rightarrow> (mem_cache \<Rightarrow> mem_cache) \<Rightarrow> kmem \<Rightarrow> kmem" where
  "upd_cache c f km = km\<lparr>caches := (caches km)(c := f (caches km c))\<rparr>"

definition upd_group :: "u32 \<Rightarrow> (mem_group \<Rightarrow> mem_group) \<Rightarrow> kmem \<Rightarrow> kmem" where
  "upd_group g f km = km\<lparr>groups := (groups km)(g := f (groups km g))\<rparr>"

definition mem_cache_alloc_pages :: "kmem \<Rightarrow> u32 \<Rightarrow> (u32 \<times> kmem) kret" where
  "mem_cache_alloc_pages km count =
     (case alloc_pages (kphys km) count of
        Panic \<Rightarrow> Panic
      | Ret (page, pm) \<Rightarrow> Ret (if page = 0 then 0 else p2v page, km\<lparr>kphys := pm\<rparr>))"

definition mem_cache_free_pages :: "kmem \<Rightarrow> u32 \<Rightarrow> int \<times> kmem" where
  "mem_cache_free_pages km addr =
     (if addr = 0 then (-1, km)
      else let page = v2p addr
           in if page = 0 then (-1, km) else (0, km\<lparr>kphys := snd (free_pages (kphys km) page)\<rparr>))"

definition mark_node :: "kmem \<Rightarrow> u32 \<Rightarrow> nat \<Rightarrow> u32 \<Rightarrow> kmem kret" where
  "mark_node km addr c g =
     (case page2mem_node (kphys km) (v2p addr) of
        None \<Rightarrow> Panic
      | Some n \<Rightarrow> Ret (km\<lparr>kphys := set_node (kphys km) n
          ((mem_node_table (kphys km) n)\<lparr>nd_cache := Some c, nd_group := Some (unat g)\<rparr>)\<rparr>))"

fun mark_nodes :: "kmem \<Rightarrow> u32 \<Rightarrow> nat \<Rightarrow> u32 \<Rightarrow> nat \<Rightarrow> kmem kret" where
  "mark_nodes km addr c g 0 = Ret km"
| "mark_nodes km addr c g (Suc n) =
     (case mark_node km addr c g of Panic \<Rightarrow> Panic | Ret km \<Rightarrow> mark_nodes km (addr + PAGE_SIZE) c g n)"

text \<open>\<open>mem_group_init\<close>; the group is in the free list of its cache from the first line on.\<close>

definition mem_group_init :: "kmem \<Rightarrow> nat \<Rightarrow> u32 \<Rightarrow> (int \<times> kmem) kret" where
  "mem_group_init km c g =
     (let km = upd_cache c (\<lambda>k. k\<lparr>free_groups := g # free_groups k\<rparr>) km;
          k = caches km c;
          map = g + SIZEOF_MEM_GROUP;
          km = upd_group g (\<lambda>gr. gr\<lparr>g_map := bitmap_init
                 \<lparr>byte_length = unat (DIV_ROUND_UP (object_count k) 8), bits = bits (g_map gr)\<rparr>\<rparr>) km;
          finish = (\<lambda>km. Ret (0, upd_group g (\<lambda>gr. gr\<lparr>using_count := 0, free_count := object_count k\<rparr>) km))
      in if object_size k < 1024
         then case mark_node (upd_group g (\<lambda>gr. gr\<lparr>g_objects := map + 16\<rparr>) km) g c g of
                Panic \<Rightarrow> Panic | Ret km \<Rightarrow> finish km
         else let pages = DIV_ROUND_UP (object_count k * object_size k) PAGE_SIZE
              in case mem_cache_alloc_pages km pages of
                   Panic \<Rightarrow> Panic
                 | Ret (objs, km) \<Rightarrow>
                     let km = upd_group g (\<lambda>gr. gr\<lparr>g_objects := objs\<rparr>) km
                     in if objs = 0 then Ret (-1, km)
                        else case mark_nodes km objs c g (unat pages) of
                               Panic \<Rightarrow> Panic | Ret km \<Rightarrow> finish km)"

definition create_mem_group :: "kmem \<Rightarrow> nat \<Rightarrow> (int \<times> kmem) kret" where
  "create_mem_group km c =
     (case mem_cache_alloc_pages km 1 of
        Panic \<Rightarrow> Panic
      | Ret (g, km) \<Rightarrow>
          if g = 0 then Ret (-1, km)
          else case mem_group_init km c g of
                 Panic \<Rightarrow> Panic
               | Ret (r, km) \<Rightarrow>
                   if r \<noteq> 0 then Ret (-1, snd (mem_cache_free_pages km g)) else Ret (0, km))"

text \<open>\<open>__mem_cache_alloc_object\<close>; 0 is \<open>NULL\<close>.\<close>

definition alloc_in_group :: "kmem \<Rightarrow> nat \<Rightarrow> u32 \<Rightarrow> u32 \<times> kmem" where
  "alloc_in_group km c g =
     (let gr = groups km g; idx = bitmap_scan (g_map gr) 1
      in if idx = -1 then (0, km)
         else let km = upd_group g (\<lambda>gr. gr\<lparr>g_map := bitmap_set (g_map gr) (nat idx) True,
                         using_count := using_count gr + 1, free_count := free_count gr - 1\<rparr>) km;
                  object = g_objects gr + of_int idx * object_size (caches km c)
              in (object,
                  if free_count (groups km g) = 0
                  then upd_cache c (\<lambda>k. k\<lparr>full_groups := full_groups k @ [g],
                         partial_groups := remove1 g (partial_groups k)\<rparr>) km
                  else km))"

text \<open>Up to the label \<open>new_group\<close>: \<open>None\<close> if the code goes there.\<close>

definition try_alloc :: "kmem \<Rightarrow> nat \<Rightarrow> (u32 \<times> kmem) option" where
  "try_alloc km c =
     (case partial_groups (caches km c) of
        g # _ \<Rightarrow> Some (alloc_in_group km c g)
      | [] \<Rightarrow> (case free_groups (caches km c) of
            [] \<Rightarrow> None
          | g # gs \<Rightarrow> Some (alloc_in_group
              (upd_cache c (\<lambda>k. k\<lparr>free_groups := gs, partial_groups := [g]\<rparr>) km) c g)))"

lemma mark_node_caches: "mark_node km a c g = Ret km' \<Longrightarrow> caches km' = caches km"
  by (auto simp: mark_node_def split: option.splits)

lemma mark_nodes_caches: "mark_nodes km a c g n = Ret km' \<Longrightarrow> caches km' = caches km"
  by (induction km a c g n rule: mark_nodes.induct) (auto dest: mark_node_caches split: kret.splits)

lemma create_group_free:
  assumes "create_mem_group km c = Ret (0, km')"
  shows "free_groups (caches km' c) \<noteq> []"
proof -
  obtain g km1 where init: "mem_group_init km1 c g = Ret (0, km')"
    using assms by (auto simp: create_mem_group_def split: kret.splits if_splits)
  then show ?thesis
    by (auto simp: mem_group_init_def upd_cache_def upd_group_def mem_cache_alloc_pages_def Let_def
        dest!: mark_node_caches mark_nodes_caches split: kret.splits if_splits)
qed

function mem_cache_alloc_object :: "kmem \<Rightarrow> nat \<Rightarrow> (u32 \<times> kmem) kret" where
  "mem_cache_alloc_object km c =
     (case try_alloc km c of
        Some r \<Rightarrow> Ret r
      | None \<Rightarrow>
          (case create_mem_group km c of
             Panic \<Rightarrow> Panic
           | Ret (r, km) \<Rightarrow> if r \<noteq> 0 then Ret (0, km) else mem_cache_alloc_object km c))"
  by pat_completeness auto
termination
  by (relation "measure (\<lambda>(km, c). if free_groups (caches km c) = [] then 1 else 0)")
    (auto simp: try_alloc_def dest: create_group_free split: list.splits)

declare mem_cache_alloc_object.simps [simp del]

text \<open>\<open>kmalloc\<close>: the first cache whose objects are large enough.\<close>

fun find_cache :: "u32 list \<Rightarrow> u32 \<Rightarrow> nat \<Rightarrow> nat" where
  "find_cache [] sz c = c"
| "find_cache (cs # rest) sz c = (if cs \<ge> sz then c else find_cache rest sz (c + 1))"

definition kmalloc_small :: "kmem \<Rightarrow> u32 \<Rightarrow> (u32 \<times> kmem) kret" where
  "kmalloc_small km sz = mem_cache_alloc_object km (find_cache cache_size sz 0)"

text \<open>\<open>__mem_cache_free_object\<close>.\<close>

definition mem_cache_free_object :: "kmem \<Rightarrow> nat \<Rightarrow> u32 \<Rightarrow> kmem kret" where
  "mem_cache_free_object km c object =
     (case page2mem_node (kphys km) (v2p object) of
        None \<Rightarrow> Panic
      | Some n \<Rightarrow>
          (case nd_group (mem_node_table (kphys km) n) of
             None \<Rightarrow> Panic
           | Some gn \<Rightarrow>
               let g = of_nat gn; gr = groups km g;
                   index = unat ((object - g_objects gr) div object_size (caches km c))
               in if index > byte_length (g_map gr) * 8 then Panic
                  else let using = using_count gr;
                           km = upd_group g (\<lambda>gr. gr\<lparr>g_map := bitmap_set (g_map gr) index False,
                                  using_count := using - 1, free_count := free_count gr + 1\<rparr>) km
                       in if using_count (groups km g) = 0
                          then Ret (upd_cache c (\<lambda>k. k\<lparr>full_groups := remove1 g (full_groups k),
                                 partial_groups := remove1 g (partial_groups k),
                                 free_groups := remove1 g (free_groups k) @ [g]\<rparr>) km)
                          else if using = object_count (caches km c)
                          then Ret (upd_cache c (\<lambda>k. k\<lparr>full_groups := remove1 g (full_groups k),
                                 partial_groups := remove1 g (partial_groups k) @ [g],
                                 free_groups := remove1 g (free_groups k)\<rparr>) km)
                          else Ret km))"

text \<open>
  \<open>kfree\<close>. An object without a cache is looked up in the list of large objects; its descriptor is
  itself an object to free.
\<close>

function kfree :: "kmem \<Rightarrow> u32 \<Rightarrow> kmem kret" where
  "kfree km object =
     (if object = 0 then Ret km
      else case page2mem_node (kphys km) (v2p object) of
             None \<Rightarrow> Panic
           | Some n \<Rightarrow>
               (case nd_cache (mem_node_table (kphys km) n) of
                  Some c \<Rightarrow> mem_cache_free_object km c object
                | None \<Rightarrow>
                    (case dropWhile (\<lambda>o'. lo_addr o' \<noteq> object) (large km) of
                       [] \<Rightarrow> Ret km
                     | obj # _ \<Rightarrow>
                         kfree (snd (mem_cache_free_pages (km\<lparr>large := remove1 obj (large km)\<rparr>) (lo_addr obj)))
                           (lo_self obj))))"
  by pat_completeness auto
termination
proof (relation "measure (\<lambda>(km, obj). length (large km))")
  fix km :: kmem and object n obj objs
  assume "dropWhile (\<lambda>o'. lo_addr o' \<noteq> object) (large km) = obj # objs"
  then have "obj \<in> set (large km)" by (metis list.set_intros(1) set_dropWhileD)
  then have "length (remove1 obj (large km)) < length (large km)"
    using length_pos_if_in_set [of obj "large km"] by (simp add: length_remove1)
  then show "((snd (mem_cache_free_pages (km\<lparr>large := remove1 obj (large km)\<rparr>) (lo_addr obj)), lo_self obj), km, object)
      \<in> measure (\<lambda>(km, obj). length (large km))"
    by (simp add: mem_cache_free_pages_def Let_def)
qed simp

declare kfree.simps [simp del]

definition kmalloc :: "kmem \<Rightarrow> u32 \<Rightarrow> (u32 \<times> kmem) kret" where
  "kmalloc km sz =
     (if sz > MAX_MEM_CACHE_SIZE
      then if sz > MAX_MEM_OBJECT_SIZE then Ret (0, km)
           else (case kmalloc_small km 16 of
                   Panic \<Rightarrow> Panic
                 | Ret (obj, km) \<Rightarrow>
                     if obj = 0 then Ret (0, km)
                     else (case mem_cache_alloc_pages km (DIV_ROUND_UP sz PAGE_SIZE) of
                             Panic \<Rightarrow> Panic
                           | Ret (addr, km) \<Rightarrow>
                               if addr = 0
                               then (case kfree km obj of Panic \<Rightarrow> Panic | Ret km \<Rightarrow> Ret (0, km))
                               else Ret (addr, km\<lparr>large := \<lparr>lo_addr = addr, lo_size = sz, lo_self = obj\<rparr> # large km\<rparr>)))
      else kmalloc_small km sz)"

definition group_destory :: "kmem \<Rightarrow> nat \<Rightarrow> u32 \<Rightarrow> int \<times> kmem" where
  "group_destory km c g =
     (let km = upd_cache c (\<lambda>k. k\<lparr>free_groups := remove1 g (free_groups k)\<rparr>) km
      in if object_size (caches km c) < 1024
         then case mem_cache_free_pages km g of (r, km) \<Rightarrow> if r \<noteq> 0 then (-1, km) else (0, km)
         else case mem_cache_free_pages km (g_objects (groups km g)) of (r, km) \<Rightarrow>
                if r \<noteq> 0 then (-1, km)
                else case mem_cache_free_pages km g of (r, km) \<Rightarrow> if r \<noteq> 0 then (-1, km) else (0, km))"

fun shrink_groups :: "kmem \<Rightarrow> nat \<Rightarrow> u32 list \<Rightarrow> u32 \<Rightarrow> u32 \<times> kmem" where
  "shrink_groups km c [] ret = (ret, km)"
| "shrink_groups km c (g # gs) ret =
     (case group_destory km c g of (r, km) \<Rightarrow> shrink_groups km c gs (if r = 0 then ret + 1 else ret))"

definition mem_cahce_shrink :: "kmem \<Rightarrow> nat \<Rightarrow> u32 \<times> kmem" where
  "mem_cahce_shrink km c =
     (case shrink_groups km c (free_groups (caches km c)) 0 of (ret, km) \<Rightarrow>
        (ret * object_count (caches km c) * object_size (caches km c), km))"

definition kmshrink :: "kmem \<Rightarrow> u32 \<times> kmem" where
  "kmshrink km = fold (\<lambda>c (sz, km). case mem_cahce_shrink km c of (r, km) \<Rightarrow> (sz + r, km))
     [0..<length cache_size] (0, km)"

subsection \<open>The invariant of a cache\<close>

definition used :: "mem_group \<Rightarrow> nat \<Rightarrow> nat" where
  "used gr n = card {j. j < n \<and> bitmap_scan_test (g_map gr) j}"

text \<open>The counters of a group agree with its bitmap, in which only objects of the group are marked.\<close>

definition group_ok :: "u32 \<Rightarrow> mem_group \<Rightarrow> bool" where
  "group_ok cnt gr \<longleftrightarrow> unat cnt \<le> 8 * byte_length (g_map gr) \<and> unat (using_count gr) = used gr (unat cnt) \<and>
     using_count gr + free_count gr = cnt"

definition cache_inv :: "kmem \<Rightarrow> nat \<Rightarrow> bool" where
  "cache_inv km c \<longleftrightarrow> (let k = caches km c in
     0 < object_count k \<and>
     distinct (full_groups k @ partial_groups k @ free_groups k) \<and>
     (\<forall>g \<in> set (full_groups k). group_ok (object_count k) (groups km g) \<and> free_count (groups km g) = 0) \<and>
     (\<forall>g \<in> set (partial_groups k). group_ok (object_count k) (groups km g) \<and> free_count (groups km g) \<noteq> 0 \<and>
        using_count (groups km g) \<noteq> 0) \<and>
     (\<forall>g \<in> set (free_groups k). group_ok (object_count k) (groups km g) \<and> using_count (groups km g) = 0))"

lemma used_bound: "used gr n \<le> n"
  unfolding used_def using card_mono [of "{..<n}" "{j. j < n \<and> bitmap_scan_test (g_map gr) j}"] by auto

lemma upd_simps [simp]:
  "caches (upd_group g f km) = caches km" "groups (upd_cache c h km) = groups km"
  "kphys (upd_group g f km) = kphys km" "kphys (upd_cache c h km) = kphys km"
  "groups (upd_group g f km) g' = (if g' = g then f (groups km g) else groups km g')"
  "caches (upd_cache c h km) c' = (if c' = c then h (caches km c) else caches km c')"
  by (simp_all add: upd_group_def upd_cache_def)

text \<open>Allocation in a group with a free object, whatever list the group is in.\<close>

lemma alloc_in_group_spec:
  assumes ok: "group_ok (object_count (caches km c)) (groups km g)" and free: "free_count (groups km g) \<noteq> 0"
    and al: "alloc_in_group km c g = (obj, km')"
  obtains i where "i < unat (object_count (caches km c))" "\<not> bitmap_scan_test (g_map (groups km g)) i"
    "obj = g_objects (groups km g) + of_nat i * object_size (caches km c)"
    "group_ok (object_count (caches km c)) (groups km' g)" "using_count (groups km' g) \<noteq> 0"
    "\<And>h. h \<noteq> g \<Longrightarrow> groups km' h = groups km h"
    "g_map (groups km' g) = bitmap_set (g_map (groups km g)) i True"
    "g_objects (groups km' g) = g_objects (groups km g)"
    "caches km' = (if free_count (groups km' g) = 0
       then (caches km)(c := (caches km c)\<lparr>full_groups := full_groups (caches km c) @ [g],
              partial_groups := remove1 g (partial_groups (caches km c))\<rparr>) else caches km)"
proof -
  let ?gr = "groups km g" and ?n = "unat (object_count (caches km c))"
  have "using_count ?gr \<noteq> object_count (caches km c)"
    using ok free by (auto simp: group_ok_def)
  then have "used ?gr ?n \<noteq> ?n" using ok by (auto simp: group_ok_def word_unat_eq_iff)
  then have less: "used ?gr ?n < ?n" using used_bound [of ?gr ?n] by simp
  obtain i where i: "bitmap_scan (g_map ?gr) 1 = int i" "i < ?n" "\<not> bitmap_scan_test (g_map ?gr) i"
    by (rule bm.scan_one_below [of ?n "g_map ?gr"]) (use less ok in \<open>auto simp: used_def group_ok_def\<close>)
  let ?gr' = "?gr\<lparr>g_map := bitmap_set (g_map ?gr) i True, using_count := using_count ?gr + 1,
      free_count := free_count ?gr - 1\<rparr>"
  have gr': "groups km' g = ?gr'" "\<And>h. h \<noteq> g \<Longrightarrow> groups km' h = groups km h"
    "obj = g_objects ?gr + of_nat i * object_size (caches km c)"
    using al i(1) by (auto simp: alloc_in_group_def Let_def)
  have used': "used ?gr' ?n = Suc (used ?gr ?n)"
    unfolding used_def using bm.card_set [OF i(2,3)] by simp
  have lt: "Suc (unat (using_count ?gr)) < 2 ^ 32"
    using less ok unsigned_less [where ?'a = nat, of "object_count (caches km c)"] by (auto simp: group_ok_def)
  then have u: "unat (using_count ?gr + 1) = Suc (unat (using_count ?gr))" by (simp add: unat_word_ariths)
  then have "group_ok (object_count (caches km c)) ?gr'"
    using ok used' by (simp add: group_ok_def)
  moreover have "using_count ?gr' \<noteq> 0" using u by auto
  moreover have "caches km' = (if free_count (groups km' g) = 0
       then (caches km)(c := (caches km c)\<lparr>full_groups := full_groups (caches km c) @ [g],
              partial_groups := remove1 g (partial_groups (caches km c))\<rparr>) else caches km)"
    using al i(1) gr'(1) by (auto simp: alloc_in_group_def Let_def upd_cache_def upd_group_def)
  ultimately show ?thesis using that [of i] i gr' by simp
qed

text \<open>The invariant seen from the lists of a cache.\<close>

lemma cache_invI:
  assumes "caches km c = k" "0 < object_count k" "distinct (full_groups k @ partial_groups k @ free_groups k)"
    and "\<And>g. g \<in> set (full_groups k) \<Longrightarrow> group_ok (object_count k) (groups km g) \<and> free_count (groups km g) = 0"
    and "\<And>g. g \<in> set (partial_groups k) \<Longrightarrow> group_ok (object_count k) (groups km g) \<and>
      free_count (groups km g) \<noteq> 0 \<and> using_count (groups km g) \<noteq> 0"
    and "\<And>g. g \<in> set (free_groups k) \<Longrightarrow> group_ok (object_count k) (groups km g) \<and> using_count (groups km g) = 0"
  shows "cache_inv km c"
  using assms by (simp add: cache_inv_def Let_def)

lemma cache_invD:
  assumes "cache_inv km c"
  shows "0 < object_count (caches km c)"
    and "distinct (full_groups (caches km c) @ partial_groups (caches km c) @ free_groups (caches km c))"
    and "g \<in> set (full_groups (caches km c)) \<Longrightarrow> group_ok (object_count (caches km c)) (groups km g) \<and>
      free_count (groups km g) = 0"
    and "g \<in> set (partial_groups (caches km c)) \<Longrightarrow> group_ok (object_count (caches km c)) (groups km g) \<and>
      free_count (groups km g) \<noteq> 0 \<and> using_count (groups km g) \<noteq> 0"
    and "g \<in> set (free_groups (caches km c)) \<Longrightarrow> group_ok (object_count (caches km c)) (groups km g) \<and>
      using_count (groups km g) = 0"
  using assms by (auto simp: cache_inv_def Let_def)

lemma free_of_unused: "group_ok cnt gr \<Longrightarrow> using_count gr = 0 \<Longrightarrow> 0 < cnt \<Longrightarrow> free_count gr \<noteq> 0"
  by (auto simp: group_ok_def)

text \<open>An allocation from a group that is first in the partial list keeps the lists right.\<close>

lemma alloc_partial:
  assumes k: "caches km c = k" "partial_groups k = g # ps" "0 < object_count k"
      "distinct (full_groups k @ partial_groups k @ free_groups k)"
    and full: "\<And>h. h \<in> set (full_groups k) \<Longrightarrow> group_ok (object_count k) (groups km h) \<and> free_count (groups km h) = 0"
    and part: "\<And>h. h \<in> set ps \<Longrightarrow> group_ok (object_count k) (groups km h) \<and> free_count (groups km h) \<noteq> 0 \<and>
      using_count (groups km h) \<noteq> 0"
    and free: "\<And>h. h \<in> set (free_groups k) \<Longrightarrow> group_ok (object_count k) (groups km h) \<and> using_count (groups km h) = 0"
    and g: "group_ok (object_count k) (groups km g)" "free_count (groups km g) \<noteq> 0"
    and al: "alloc_in_group km c g = (obj, km')"
  shows "cache_inv km' c"
proof -
  have ok: "group_ok (object_count (caches km c)) (groups km g)" using g(1) k(1) by simp
  obtain i where "i < unat (object_count k)"
    and gk: "group_ok (object_count k) (groups km' g)" "using_count (groups km' g) \<noteq> 0"
    and other: "\<And>h. h \<noteq> g \<Longrightarrow> groups km' h = groups km h"
    and cs: "caches km' = (if free_count (groups km' g) = 0
       then (caches km)(c := k\<lparr>full_groups := full_groups k @ [g], partial_groups := remove1 g (partial_groups k)\<rparr>)
       else caches km)"
    by (rule alloc_in_group_spec [OF ok g(2) al]) (simp add: k(1))
  have neq: "h \<noteq> g" if "h \<in> set (full_groups k) \<union> set ps \<union> set (free_groups k)" for h
    using that k(2,4) by auto
  show ?thesis
  proof (cases "free_count (groups km' g) = 0")
    case True
    show ?thesis
      by (rule cache_invI [where k = "k\<lparr>full_groups := full_groups k @ [g], partial_groups := ps\<rparr>"])
        (use True cs k gk neq full part free other in auto)
  next
    case False
    show ?thesis
      by (rule cache_invI [where k = k]) (use False cs k gk neq full part free other in auto)
  qed
qed

lemma try_alloc_inv:
  assumes inv: "cache_inv km c" and tr: "try_alloc km c = Some (obj, km')"
  shows "cache_inv km' c"
proof (cases "partial_groups (caches km c)")
  case (Cons g ps)
  with tr have al: "alloc_in_group km c g = (obj, km')" by (simp add: try_alloc_def)
  show ?thesis
    by (rule alloc_partial [OF refl Cons cache_invD(1,2) [OF inv] cache_invD(3) [OF inv] _ cache_invD(5) [OF inv] _ _ al])
      (use cache_invD(4) [OF inv] Cons in auto)
next
  case Nil
  with tr obtain g gs where g: "free_groups (caches km c) = g # gs"
    by (auto simp: try_alloc_def split: list.splits)
  let ?k = "(caches km c)\<lparr>free_groups := gs, partial_groups := [g]\<rparr>"
  let ?km = "upd_cache c (\<lambda>k. k\<lparr>free_groups := gs, partial_groups := [g]\<rparr>) km"
  from tr Nil g have al: "alloc_in_group ?km c g = (obj, km')" by (simp add: try_alloc_def)
  note D = cache_invD [OF inv]
  have free: "free_count (groups km g) \<noteq> 0"
    using free_of_unused [of "object_count (caches km c)" "groups km g"] D(5) [of g] g D(1) by auto
  show ?thesis
    by (rule alloc_partial [where k = ?k and ps = "[]", OF _ _ _ _ _ _ _ _ _ al])
      (use D(1,2,3,5) Nil g free in auto)
qed

text \<open>Freeing an object of a group that is full or partly used.\<close>

lemma free_object_spec:
  assumes inv: "cache_inv km c"
    and node: "page2mem_node (kphys km) (v2p object) = Some n" "nd_group (mem_node_table (kphys km) n) = Some (unat g)"
    and g: "g \<in> set (full_groups (caches km c)) \<union> set (partial_groups (caches km c))"
    and i: "i < unat (object_count (caches km c))" "bitmap_scan_test (g_map (groups km g)) i"
    and obj: "object = g_objects (groups km g) + of_nat i * object_size (caches km c)"
      "0 < object_size (caches km c)" "i * unat (object_size (caches km c)) < 2 ^ 32"
  shows "\<exists>km'. mem_cache_free_object km c object = Ret km' \<and> cache_inv km' c \<and>
    g_map (groups km' g) = bitmap_set (g_map (groups km g)) i False"
proof -
  let ?k = "caches km c" and ?gr = "groups km g"
  let ?n = "unat (object_count ?k)"
  note D = cache_invD [OF inv]
  have ok: "group_ok (object_count ?k) ?gr" using g D(3,4) by auto
  have "i < 2 ^ 32" using i(1) unsigned_less [where ?'a = nat, of "object_count ?k"] by simp
  then have "unat (of_nat i * object_size ?k) = i * unat (object_size ?k)"
    using obj(3) by (simp add: unat_word_ariths unsigned_of_nat take_bit_nat_eq_self)
  moreover have "unat (object_size ?k) \<noteq> 0" using obj(2) by (simp add: unat_eq_0)
  ultimately have index: "unat ((object - g_objects ?gr) div object_size ?k) = i"
    by (simp add: obj(1) unat_div_distrib)
  have range: "\<not> i > byte_length (g_map ?gr) * 8" using i(1) ok by (auto simp: group_ok_def)
  let ?gr' = "?gr\<lparr>g_map := bitmap_set (g_map ?gr) i False, using_count := using_count ?gr - 1,
      free_count := free_count ?gr + 1\<rparr>"
  let ?km = "upd_group g (\<lambda>_. ?gr') km"
  have used: "Suc (used ?gr' ?n) = used ?gr ?n"
    unfolding used_def using bm.card_clear [OF i] by simp
  have u0: "using_count ?gr \<noteq> 0" using used ok by (auto simp: group_ok_def)
  then have u: "unat (using_count ?gr - 1) = unat (using_count ?gr) - 1" by (rule unat_minus_one)
  have gk: "group_ok (object_count ?k) ?gr'" using ok used u by (simp add: group_ok_def)
  have full_iff: "g \<in> set (full_groups ?k) \<longleftrightarrow> using_count ?gr = object_count ?k"
    using g D(3) [of g] D(4) [of g] by (auto simp: group_ok_def)
  have not_free: "g \<notin> set (free_groups ?k)" using g D(2) by auto
  have res: "mem_cache_free_object km c object =
      (if using_count ?gr' = 0
       then Ret (upd_cache c (\<lambda>k. k\<lparr>full_groups := remove1 g (full_groups k),
              partial_groups := remove1 g (partial_groups k), free_groups := remove1 g (free_groups k) @ [g]\<rparr>) ?km)
       else if using_count ?gr = object_count ?k
       then Ret (upd_cache c (\<lambda>k. k\<lparr>full_groups := remove1 g (full_groups k),
              partial_groups := remove1 g (partial_groups k) @ [g], free_groups := remove1 g (free_groups k)\<rparr>) ?km)
       else Ret ?km)"
    using node index range
    by (simp add: mem_cache_free_object_def Let_def upd_group_def)
  have set_rm: "set (remove1 g (full_groups ?k)) = set (full_groups ?k) - {g}"
    "set (remove1 g (partial_groups ?k)) = set (partial_groups ?k) - {g}"
    "remove1 g (free_groups ?k) = free_groups ?k"
    using D(2) not_free by (auto simp: set_remove1_eq remove1_idem)
  have free1: "free_count ?gr' \<noteq> 0" if "using_count ?gr' \<noteq> 0"
  proof
    assume "free_count ?gr' = 0"
    with gk have "using_count ?gr' = object_count ?k" by (simp add: group_ok_def)
    with u i(1) ok used used_bound [of ?gr ?n] show False by (auto simp: group_ok_def)
  qed
  show ?thesis
  proof (cases "using_count ?gr' = 0")
    case True
    show ?thesis
      unfolding res if_P [OF True]
      by (intro exI conjI, rule refl, rule cache_invI [OF refl])
        (use D gk True set_rm not_free in \<open>auto simp: distinct_remove1\<close>)
  next
    case some: False
    show ?thesis
    proof (cases "using_count ?gr = object_count ?k")
      case True
      show ?thesis
        unfolding res if_not_P [OF some] if_P [OF True]
        by (intro exI conjI, rule refl, rule cache_invI [OF refl])
          (use D gk some free1 set_rm not_free in \<open>auto simp: distinct_remove1\<close>)
    next
      case False
      then have nf: "g \<notin> set (full_groups ?k)" using full_iff by simp
      show ?thesis
        unfolding res if_not_P [OF some] if_not_P [OF False]
        by (intro exI conjI, rule refl, rule cache_invI [OF refl])
          (use D gk some free1 not_free nf in auto)
    qed
  qed
qed

subsection \<open>Properties\<close>


definition example_kmem :: kmem where
  "example_kmem = \<lparr>groups = (\<lambda>_. \<lparr>g_map = \<lparr>byte_length = 1, bits = (\<lambda>_. 1)\<rparr>, g_objects = 0x81000030,
       using_count = 1, free_count = 6\<rparr>),
     caches = (\<lambda>_. \<lparr>full_groups = [], partial_groups = [0x81000000], free_groups = [], object_size = 512, object_count = 7\<rparr>),
     kphys = example_pmem\<lparr>mem_node_table := (\<lambda>_. \<lparr>nd_count = 1, nd_flags = 0, nd_reference = 1, nd_cache = Some 4,
       nd_group = Some 0x81000000\<rparr>)\<rparr>, large = []\<rparr>"

lemma example_kmem_inv: "cache_inv example_kmem 4"
proof -
  have "bitmap_scan_test \<lparr>byte_length = 1, bits = (\<lambda>_. 1)\<rparr> j \<longleftrightarrow> j = 0" if "j < 7" for j
    unfolding scan_test_bit using that by (simp add: bit_1_iff)
  then have "{j. j < 7 \<and> bitmap_scan_test \<lparr>byte_length = 1, bits = (\<lambda>_. 1)\<rparr> j} = {0}"
    by force
  then show ?thesis
    by (intro cache_invI [OF refl]) (auto simp: example_kmem_def group_ok_def used_def)
qed


text \<open>
  Freeing an object that is in use, through the marks of its page, clears exactly its bit and keeps
  the lists and counters of the cache consistent, whichever list the group moves to.
\<close>

theorem cache_free_object:
  assumes "cache_inv km c" "object = g_objects (groups km g) + of_nat i * object_size (caches km c)"
    and "page2mem_node (kphys km) (v2p object) = Some n" "nd_group (mem_node_table (kphys km) n) = Some (unat g)"
    and "g \<in> set (full_groups (caches km c)) \<union> set (partial_groups (caches km c))"
    and "i < unat (object_count (caches km c))" "bitmap_scan_test (g_map (groups km g)) i"
    and "0 < object_size (caches km c)" "i * unat (object_size (caches km c)) < 2 ^ 32"
  shows "\<exists>km'. mem_cache_free_object km c object = Ret km' \<and> cache_inv km' c \<and>
    (\<forall>j. bitmap_scan_test (g_map (groups km' g)) j \<longleftrightarrow> j \<noteq> i \<and> bitmap_scan_test (g_map (groups km g)) j)"
  using free_object_spec [OF assms(1,3,4,5,6,7,2,8,9)] by auto

theorem cache_free_object_witness:
  "\<exists>km'. mem_cache_free_object example_kmem 4 0x81000030 = Ret km' \<and> cache_inv km' 4 \<and>
     \<not> bitmap_scan_test (g_map (groups km' 0x81000000)) 0"
proof -
  have node: "page2mem_node (kphys example_kmem) (v2p 0x81000030) = Some 2048"
    by (simp add: page2mem_node_def example_kmem_def example_pmem_def v2p_def PAGE_OFFSET_def)
  have "nd_group (mem_node_table (kphys example_kmem) 2048) = Some (unat (0x81000000 :: u32))"
    by (simp add: example_kmem_def)
  moreover have "bitmap_scan_test (g_map (groups example_kmem 0x81000000)) 0"
    by (simp add: example_kmem_def scan_test_bit)
  moreover have "0x81000000 \<in> set (full_groups (caches example_kmem 4)) \<union> set (partial_groups (caches example_kmem 4))"
    "object_count (caches example_kmem 4) = 7" "object_size (caches example_kmem 4) = 512"
    "g_objects (groups example_kmem 0x81000000) = 0x81000030"
    by (simp_all add: example_kmem_def)
  ultimately have "\<exists>km'. mem_cache_free_object example_kmem 4 0x81000030 = Ret km' \<and> cache_inv km' 4 \<and>
    (\<forall>j. bitmap_scan_test (g_map (groups km' 0x81000000)) j \<longleftrightarrow>
      j \<noteq> 0 \<and> bitmap_scan_test (g_map (groups example_kmem 0x81000000)) j)"
    by (intro cache_free_object [OF example_kmem_inv _ node]) simp_all
  then show ?thesis by blast
qed

end
