(* ===== verification/Trigger.thy ===== *)
theory Trigger
  imports Sched
begin

section \<open>Triggers: the signals of the kernel\<close>

text \<open>
  \<open>src/src/lib/trigger.c\<close> (the trigger sets), \<open>src/src/include/xbook/trigger.h\<close>,
  \<open>src/src/task/trigger.c\<close>, and the two ends of a user handler, \<open>__build_trigger_frame\<close> and
  \<open>__trigger_return\<close> of \<open>src/src/arch/x86/mach-i386/task/task.c\<close>. A set is a 32-bit word whose bit
  \<open>t\<close> stands for trigger \<open>t\<close>; bit 0 is kept set. The \<open>triggers_t\<close> of a process is shared by its
  threads, so a task holds an index into \<open>trigs\<close> (\<open>NULL\<close> for a kernel thread). A function that
  keeps the trigger lock, or runs with interrupts off, is one step. \<open>None\<close> stands for a kernel that
  has stopped: a \<open>NULL\<close> access or a panic of the scheduler.
\<close>

subsection \<open>Sets\<close>

definition TRIG_NR :: int where
  "TRIG_NR = 9"

definition IS_BAD_TRIGGER :: "int \<Rightarrow> bool" where
  "IS_BAD_TRIGGER trig \<longleftrightarrow> trig < 1 \<or> trig > TRIG_NR"

abbreviation (input) TRIGSYS :: int where "TRIGSYS \<equiv> 1"
abbreviation (input) TRIGDBG :: int where "TRIGDBG \<equiv> 2"
abbreviation (input) TRIGPAUSE :: int where "TRIGPAUSE \<equiv> 3"
abbreviation (input) TRIGRESUM :: int where "TRIGRESUM \<equiv> 4"
abbreviation (input) TRIGHSOFT :: int where "TRIGHSOFT \<equiv> 5"
abbreviation (input) TRIGLSOFT :: int where "TRIGLSOFT \<equiv> 6"
abbreviation (input) TRIGUSR0 :: int where "TRIGUSR0 \<equiv> 7"
abbreviation (input) TRIGUSR1 :: int where "TRIGUSR1 \<equiv> 8"
abbreviation (input) TRIGALARM :: int where "TRIGALARM \<equiv> 9"

definition trigaddset :: "u32 \<Rightarrow> int \<Rightarrow> u32" where
  "trigaddset S trig = (if IS_BAD_TRIGGER trig then S else S OR push_bit (nat trig) 1)"

definition trigdelset :: "u32 \<Rightarrow> int \<Rightarrow> u32" where
  "trigdelset S trig = (if IS_BAD_TRIGGER trig then S else S AND NOT (push_bit (nat trig) 1))"

definition trigemptyset :: u32 where
  "trigemptyset = 1"

definition trigfillset :: u32 where
  "trigfillset = 0xffffffff"

definition trigismember :: "u32 \<Rightarrow> int \<Rightarrow> bool" where
  "trigismember S trig \<longleftrightarrow> \<not> IS_BAD_TRIGGER trig \<and> S AND push_bit (nat trig) 1 \<noteq> 0"

definition trigisempty :: "u32 \<Rightarrow> bool" where
  "trigisempty S \<longleftrightarrow> \<not> S > 1"

definition trigisfull :: "u32 \<Rightarrow> bool" where
  "trigisfull S \<longleftrightarrow> S = 0xffffffff"

definition trigorset :: "u32 \<Rightarrow> u32 \<Rightarrow> u32" where
  "trigorset S T = S OR T"

definition trigmask :: "int \<Rightarrow> int" where
  "trigmask trig = (if IS_BAD_TRIGGER trig then -1 else 2 ^ nat trig)"

subsection \<open>State\<close>

record trig_action =
  ta_handler :: u32
  ta_flags :: u32
  ta_mask :: u32

record triggers =
  blocked :: u32
  trig_set :: u32
  actions :: "int \<Rightarrow> trig_action"
  touchers :: "int \<Rightarrow> int"
  tflags :: u32

definition TRIG_ERR :: u32 where "TRIG_ERR = -1"
definition TRIG_DFL :: u32 where "TRIG_DFL = 0"
definition TRIG_IGN :: u32 where "TRIG_IGN = 1"
definition TRIG_LEFT :: u32 where "TRIG_LEFT = 1"
definition TA_ONCSHOT :: u32 where "TA_ONCSHOT = 1"
definition TA_NOMASK :: u32 where "TA_NOMASK = 2"

text \<open>The registers a trap saves; the general ones of no interest here are \<open>regs\<close>.\<close>

record trap_frame =
  eax :: u32
  eip :: u32
  esp :: u32
  cs :: u32
  ss :: u32
  dses :: "u32 list"
  eflags :: u32
  regs :: "u32 list"

record trigger_frame =
  tf_trig :: int
  tf_oldmask :: u32
  tf_trap :: trap_frame

text \<open>
  \<open>trig_ptr\<close> is the pointer \<open>task->triggers\<close>; \<open>user_stack\<close> is the user memory, of which the trigger
  frames are kept by their address.
\<close>

record kernel =
  ksched :: sched
  global_list :: "tid list"
  pid :: "tid \<Rightarrow> int"
  exit_status :: "tid \<Rightarrow> int"
  trig_ptr :: "tid \<Rightarrow> nat option"
  trigs :: "nat \<Rightarrow> triggers"
  user_stack :: "u32 \<Rightarrow> trigger_frame"

definition upd_trig :: "nat \<Rightarrow> (triggers \<Rightarrow> triggers) \<Rightarrow> kernel \<Rightarrow> kernel" where
  "upd_trig p f k = k\<lparr>trigs := (trigs k)(p := f (trigs k p))\<rparr>"

definition trigger_init :: "triggers \<Rightarrow> triggers" where
  "trigger_init tr = tr\<lparr>trig_set := trigemptyset, blocked := trigemptyset,
     actions := (\<lambda>i. if 0 \<le> i \<and> i < TRIG_NR
       then \<lparr>ta_handler = TRIG_DFL, ta_flags = 0, ta_mask = 0\<rparr> else actions tr i),
     touchers := (\<lambda>i. if 0 \<le> i \<and> i < TRIG_NR then -1 else touchers tr i), tflags := 0\<rparr>"

definition trigger_calc_left :: "triggers \<Rightarrow> triggers" where
  "trigger_calc_left tr = (if trig_set tr > 1 then tr\<lparr>tflags := tflags tr OR TRIG_LEFT\<rparr>
     else tr\<lparr>tflags := tflags tr AND NOT TRIG_LEFT\<rparr>)"

definition trigger_set_action :: "triggers \<Rightarrow> int \<Rightarrow> trig_action \<Rightarrow> triggers" where
  "trigger_set_action tr trig ta = tr\<lparr>actions := (actions tr)(trig - 1 :=
     \<lparr>ta_handler = ta_handler ta, ta_flags = ta_flags ta,
      ta_mask = trigdelset (ta_mask ta) (or (trigmask TRIGHSOFT) (trigmask TRIGPAUSE))\<rparr>)\<rparr>"

definition trigger_get_action :: "triggers \<Rightarrow> int \<Rightarrow> trig_action" where
  "trigger_get_action tr trig = actions tr (trig - 1)"

definition find_task_by_pid :: "kernel \<Rightarrow> int \<Rightarrow> tid option" where
  "find_task_by_pid k p = List.find (\<lambda>t. pid k t = p) (global_list k)"

subsection \<open>Activation\<close>

definition wake :: "kernel \<Rightarrow> tid \<Rightarrow> kernel option" where
  "wake k t = map_option (\<lambda>s. k\<lparr>ksched := s\<rparr>) (task_wakeup (ksched k) t)"

text \<open>The \<open>switch\<close> of \<open>do_active_trigger\<close>, then the rest of it.\<close>

definition trigger_effect :: "kernel \<Rightarrow> tid \<Rightarrow> nat \<Rightarrow> int \<Rightarrow> kernel option" where
  "trigger_effect k t p trig =
     (if trig = TRIGPAUSE
      then Some (upd_trig p (\<lambda>tr. tr\<lparr>blocked := trigdelset (blocked tr) TRIGRESUM\<rparr>) k)
      else if trig = TRIGRESUM \<or> trig = TRIGHSOFT
      then map_option
        (\<lambda>k. upd_trig p (\<lambda>tr. tr\<lparr>blocked := trigdelset (blocked tr) TRIGPAUSE\<rparr>)
           (k\<lparr>exit_status := (exit_status k)(t := 0)\<rparr>))
        (if state (tasks (ksched k) t) = TASK_STOPPED then wake k t else Some k)
      else Some k)"

definition trigger_record :: "kernel \<Rightarrow> tid \<Rightarrow> nat \<Rightarrow> int \<Rightarrow> int \<Rightarrow> kernel option" where
  "trigger_record k t p trig toucher =
     (if trigismember (trig_set (trigs k p)) trig then Some k
      else let k = upd_trig p (\<lambda>tr. tr\<lparr>touchers := (touchers tr)(trig - 1 := toucher),
                     trig_set := trigaddset (trig_set tr) trig\<rparr>) k
           in if \<not> trigismember (blocked (trigs k p)) trig
              then wake (upd_trig p (\<lambda>tr. tr\<lparr>tflags := tflags tr OR TRIG_LEFT\<rparr>) k) t
              else Some k)"

definition do_active_trigger :: "kernel \<Rightarrow> int \<Rightarrow> int \<Rightarrow> int \<Rightarrow> (int \<times> kernel) option" where
  "do_active_trigger k p trig toucher =
     (if IS_BAD_TRIGGER trig then Some (-1, k)
      else if toucher < 0 then Some (-1, k)
      else case find_task_by_pid k p of None \<Rightarrow> Some (-1, k)
      | Some t \<Rightarrow> (case trig_ptr k t of None \<Rightarrow> Some (-1, k)
        | Some q \<Rightarrow> (case trigger_effect k t q trig of None \<Rightarrow> None
          | Some k \<Rightarrow> (case trigger_record k t q trig toucher of None \<Rightarrow> None
            | Some k \<Rightarrow> Some (0, upd_trig q trigger_calc_left k)))))"

definition sys_trigger_active :: "kernel \<Rightarrow> int \<Rightarrow> int \<Rightarrow> (int \<times> kernel) option" where
  "sys_trigger_active k trig p = do_active_trigger k p trig (pid k (cur (ksched k)))"

definition trigger_force :: "kernel \<Rightarrow> int \<Rightarrow> int \<Rightarrow> (int \<times> kernel) option" where
  "trigger_force k trig p =
     (if IS_BAD_TRIGGER trig then Some (-1, k)
      else if p < 0 then Some (-1, k)
      else case find_task_by_pid k p of None \<Rightarrow> Some (-1, k)
      | Some t \<Rightarrow> (case trig_ptr k t of None \<Rightarrow> Some (-1, k)
        | Some q \<Rightarrow>
            let force = (\<lambda>tr. let a = actions tr (trig - 1) in
                  tr\<lparr>actions := (actions tr)(trig - 1 :=
                       if ta_handler a = TRIG_IGN then a\<lparr>ta_handler := TRIG_DFL\<rparr> else a),
                     blocked := trigdelset (blocked tr) trig\<rparr>);
                k = upd_trig q force k
            in do_active_trigger k p trig (pid k (cur (ksched k)))))"

subsection \<open>Actions and masks\<close>

text \<open>\<open>handler > 0\<close> compares a pointer, so that it only excludes \<open>TRIG_DFL\<close>.\<close>

definition sys_trigger_handler :: "kernel \<Rightarrow> int \<Rightarrow> u32 \<Rightarrow> int \<times> kernel" where
  "sys_trigger_handler k trig handler =
     (if IS_BAD_TRIGGER trig then (-1, k)
      else if trig = TRIGHSOFT \<or> trig = TRIGPAUSE then (-1, k)
      else case trig_ptr k (cur (ksched k)) of None \<Rightarrow> (-1, k)
      | Some q \<Rightarrow> (0, if handler > 0
          then upd_trig q (\<lambda>tr. trigger_set_action tr trig
            \<lparr>ta_handler = handler, ta_flags = TA_ONCSHOT OR TA_NOMASK, ta_mask = 0\<rparr>) k
          else k))"

text \<open>\<open>act\<close> is \<open>None\<close> for a \<open>NULL\<close> pointer; the old action is what \<open>oldact\<close> receives.\<close>

definition sys_trigger_action :: "kernel \<Rightarrow> int \<Rightarrow> trig_action option \<Rightarrow> int \<times> trig_action option \<times> kernel" where
  "sys_trigger_action k trig act =
     (if IS_BAD_TRIGGER trig then (-1, None, k)
      else if trig = TRIGHSOFT \<or> trig = TRIGPAUSE then (-1, None, k)
      else case trig_ptr k (cur (ksched k)) of None \<Rightarrow> (-1, None, k)
      | Some q \<Rightarrow> (0, Some (trigger_get_action (trigs k q) trig),
          case act of None \<Rightarrow> k | Some ta \<Rightarrow> upd_trig q (\<lambda>tr. trigger_set_action tr trig ta) k))"

definition TRIG_BLOCK :: int where "TRIG_BLOCK = 1"
definition TRIG_UNBLOCK :: int where "TRIG_UNBLOCK = 2"
definition TRIG_SETMASK :: int where "TRIG_SETMASK = 3"

definition proc_mask :: "int \<Rightarrow> u32 \<Rightarrow> u32 \<Rightarrow> u32" where
  "proc_mask how S b =
     (if how = TRIG_BLOCK then trigdelset (trigdelset (b OR S) TRIGHSOFT) TRIGPAUSE
      else if how = TRIG_UNBLOCK then b AND NOT S
      else if how = TRIG_SETMASK then trigdelset (trigdelset S TRIGHSOFT) TRIGPAUSE
      else b)"

definition sys_trigger_proc_mask :: "kernel \<Rightarrow> int \<Rightarrow> u32 option \<Rightarrow> (int \<times> u32 \<times> kernel) option" where
  "sys_trigger_proc_mask k how S =
     (case trig_ptr k (cur (ksched k)) of None \<Rightarrow> None
      | Some q \<Rightarrow> Some
          (if how \<in> {TRIG_BLOCK, TRIG_UNBLOCK, TRIG_SETMASK} then 0 else -1,
           blocked (trigs k q),
           case S of None \<Rightarrow> k | Some S \<Rightarrow> upd_trig q (\<lambda>tr. tr\<lparr>blocked := proc_mask how S (blocked tr)\<rparr>) k))"

definition sys_trigger_pending :: "kernel \<Rightarrow> u32 option" where
  "sys_trigger_pending k = map_option (\<lambda>q. trig_set (trigs k q)) (trig_ptr k (cur (ksched k)))"

subsection \<open>Delivery\<close>

definition USER_CODE_SEL :: u32 where "USER_CODE_SEL = push_bit 3 4 + push_bit 2 0 + 3"
definition USER_DATA_SEL :: u32 where "USER_DATA_SEL = push_bit 3 5 + push_bit 2 0 + 3"

text \<open>\<open>sizeof(trigger_frame_t)\<close> is 96: three words, the 19 of the trap frame and 8 bytes of code.\<close>

definition trigger_frame_addr :: "u32 \<Rightarrow> u32" where
  "trigger_frame_addr sp = (sp - 96) AND (-8)"

definition build_trigger_frame :: "kernel \<Rightarrow> nat \<Rightarrow> int \<Rightarrow> trig_action \<Rightarrow> trap_frame \<Rightarrow> kernel \<times> trap_frame" where
  "build_trigger_frame k q trig act frame =
     (let a = trigger_frame_addr (esp frame);
          tf = \<lparr>tf_trig = trig, tf_oldmask = blocked (trigs k q), tf_trap = frame\<rparr>
      in (k\<lparr>user_stack := (user_stack k)(a := tf)\<rparr>,
          frame\<lparr>eip := ta_handler act, esp := a, dses := replicate 4 USER_DATA_SEL,
                ss := USER_DATA_SEL, cs := USER_CODE_SEL\<rparr>))"

definition handle_trigger :: "kernel \<Rightarrow> nat \<Rightarrow> trap_frame \<Rightarrow> int \<Rightarrow> kernel \<times> trap_frame" where
  "handle_trigger k q frame trig =
     (let act = actions (trigs k q) (trig - 1);
          (k, frame) = build_trigger_frame k q trig act frame;
          k = (if ta_flags act AND TA_ONCSHOT \<noteq> 0
               then upd_trig q (\<lambda>tr. tr\<lparr>actions := (actions tr)(trig - 1 := act\<lparr>ta_handler := TRIG_DFL\<rparr>)\<rparr>) k
               else k);
          k = (if ta_flags act AND TA_NOMASK = 0
               then upd_trig q (\<lambda>tr. trigger_calc_left
                 (tr\<lparr>blocked := trigaddset (trigorset (blocked tr) (ta_mask act)) trig\<rparr>)) k
               else k)
      in (k, frame))"

text \<open>
  How the loop of \<open>do_trigger\<close> ends: all triggers seen, a handler set up (\<open>break\<close>), or the task leaves
  the processor at trigger \<open>t\<close>, for good in \<open>sys_exit(t)\<close>, or in \<open>task_block(TASK_STOPPED)\<close>, after
  which the loop goes on with \<open>t + 1\<close> in the state in which the task runs again.
\<close>

datatype outcome = Done | Caught int | Exits int | Stopped int

definition consume :: "int \<Rightarrow> triggers \<Rightarrow> triggers" where
  "consume trig tr = trigger_calc_left
     (tr\<lparr>trig_set := trigdelset (trig_set tr) trig, touchers := (touchers tr)(trig - 1 := -1)\<rparr>)"

definition INIT_PROC_PID :: int where "INIT_PROC_PID = 1"

function trigger_loop :: "kernel \<Rightarrow> tid \<Rightarrow> nat \<Rightarrow> trap_frame \<Rightarrow> int \<Rightarrow> (outcome \<times> kernel \<times> trap_frame) option" where
  "trigger_loop k t q frame trig =
     (if \<not> trig \<le> TRIG_NR then Some (Done, k, frame)
      else if trigismember (trig_set (trigs k q)) trig \<and> \<not> trigismember (blocked (trigs k q)) trig
      then let k = upd_trig q (consume trig) k;
               h = ta_handler (actions (trigs k q) (trig - 1))
           in if h = TRIG_IGN then trigger_loop k t q frame (trig + 1)
              else if h = TRIG_DFL \<and> pid k t = INIT_PROC_PID then trigger_loop k t q frame (trig + 1)
              else if h = TRIG_DFL \<and> trig \<in> {TRIGUSR0, TRIGUSR1, TRIGRESUM, TRIGALARM, TRIGDBG}
              then trigger_loop k t q frame (trig + 1)
              else if h = TRIG_DFL \<and> trig = TRIGPAUSE
              then map_option (\<lambda>s. (Stopped trig, k\<lparr>exit_status := (exit_status k)(t := trig), ksched := s\<rparr>, frame))
                     (task_block (ksched k) TASK_STOPPED)
              else if h = TRIG_DFL \<and> trig \<in> {TRIGLSOFT, TRIGHSOFT, TRIGSYS}
              then Some (Exits trig,
                (upd_trig q (\<lambda>tr. trigger_calc_left (tr\<lparr>trig_set := trigaddset (trig_set tr) trig\<rparr>)) k)
                  \<lparr>exit_status := (exit_status k)(t := trig)\<rparr>, frame)
              else Some (Caught trig, handle_trigger k q frame trig)
      else trigger_loop k t q frame (trig + 1))"
  by pat_completeness auto
termination by (relation "measure (\<lambda>(k, t, q, frame, trig). nat (TRIG_NR + 1 - trig))") auto

declare trigger_loop.simps [simp del]

text \<open>The first component is \<open>None\<close> where \<open>do_trigger\<close> returns \<open>-1\<close> at once.\<close>

definition do_trigger :: "kernel \<Rightarrow> trap_frame \<Rightarrow> (outcome option \<times> kernel \<times> trap_frame) option" where
  "do_trigger k frame =
     (case trig_ptr k (cur (ksched k)) of None \<Rightarrow> Some (None, k, frame)
      | Some q \<Rightarrow> (if tflags (trigs k q) AND TRIG_LEFT = 0 then Some (None, k, frame)
          else map_option (\<lambda>(r, k, frame). (Some r, k, frame)) (trigger_loop k (cur (ksched k)) q frame 1)))"

text \<open>
  The trap a user handler ends in: its return has popped the return address, hence the \<open>esp - 4\<close>.
  The result is the new \<open>eax\<close>.
\<close>

definition trigger_return :: "kernel \<Rightarrow> trap_frame \<Rightarrow> (u32 \<times> kernel \<times> trap_frame) option" where
  "trigger_return k frame =
     (let tf = user_stack k (esp frame - 4)
      in case trig_ptr k (cur (ksched k)) of None \<Rightarrow> None
      | Some q \<Rightarrow> Some (eax (tf_trap tf),
          upd_trig q (\<lambda>tr. trigger_calc_left (tr\<lparr>blocked := tf_oldmask tf\<rparr>)) k, tf_trap tf))"

subsection \<open>Lemmas\<close>

lemma upd_trig_simps [simp]:
  "trigs (upd_trig p f k) q = (if q = p then f (trigs k p) else trigs k q)"
  "ksched (upd_trig p f k) = ksched k" "global_list (upd_trig p f k) = global_list k"
  "pid (upd_trig p f k) = pid k" "exit_status (upd_trig p f k) = exit_status k"
  "trig_ptr (upd_trig p f k) = trig_ptr k" "user_stack (upd_trig p f k) = user_stack k"
  by (simp_all add: upd_trig_def)

lemma trigger_calc_left_simps [simp]:
  "blocked (trigger_calc_left tr) = blocked tr" "trig_set (trigger_calc_left tr) = trig_set tr"
  "actions (trigger_calc_left tr) = actions tr" "touchers (trigger_calc_left tr) = touchers tr"
  by (simp_all add: trigger_calc_left_def)

lemma consume_simps [simp]:
  "blocked (consume trig tr) = blocked tr" "actions (consume trig tr) = actions tr"
  "trig_set (consume trig tr) = trigdelset (trig_set tr) trig"
  "touchers (consume trig tr) = (touchers tr)(trig - 1 := -1)"
  by (simp_all add: consume_def)

lemma good_trigger: "\<not> IS_BAD_TRIGGER trig \<longleftrightarrow> 1 \<le> trig \<and> trig \<le> 9"
  by (auto simp: IS_BAD_TRIGGER_def TRIG_NR_def)

lemma member_bit: "trigismember S trig \<longleftrightarrow> 1 \<le> trig \<and> trig \<le> 9 \<and> bit S (nat trig)"
  by (simp add: trigismember_def good_trigger push_bit_of_1 and_exp_eq_0_iff_not_bit)

lemma bit_addset: "bit (trigaddset S trig) i \<longleftrightarrow> bit S i \<or> 1 \<le> trig \<and> trig \<le> 9 \<and> i = nat trig"
  using good_trigger [of trig] by (auto simp: trigaddset_def bit_simps)

lemma bit_delset: "bit (trigdelset S trig) i \<longleftrightarrow> bit S i \<and> \<not> (1 \<le> trig \<and> trig \<le> 9 \<and> i = nat trig)"
  using good_trigger [of trig] bit_imp_le_length [of S i] by (auto simp: trigdelset_def bit_simps)

lemma member_addset [simp]:
  "trigismember (trigaddset S trig) u \<longleftrightarrow> trigismember S u \<or> u = trig \<and> \<not> IS_BAD_TRIGGER u"
  by (auto simp: member_bit bit_addset good_trigger)

lemma member_delset [simp]: "trigismember (trigdelset S trig) u \<longleftrightarrow> trigismember S u \<and> u \<noteq> trig"
  by (auto simp: member_bit bit_delset)

lemma member_orset [simp]: "trigismember (trigorset S T) u \<longleftrightarrow> trigismember S u \<or> trigismember T u"
  by (auto simp: member_bit trigorset_def bit_simps)

subsection \<open>What activation does\<close>

abbreviation asleep :: "kernel \<Rightarrow> tid \<Rightarrow> bool" where
  "asleep k t \<equiv> state (tasks (ksched k) t) \<in> {TASK_BLOCKED, TASK_WAITING, TASK_STOPPED}"

lemma wake_spec:
  assumes "sched_inv (ksched k)"
  obtains s where "wake k t = Some (k\<lparr>ksched := s\<rparr>)" "sched_inv s" "cur s = cur (ksched k)"
    "\<not> asleep (k\<lparr>ksched := s\<rparr>) t" "\<not> asleep k t \<longrightarrow> s = ksched k"
proof -
  obtain s where s: "task_wakeup (ksched k) t = Some s" "sched_inv s" "cur s = cur (ksched k)"
      "asleep k t \<longrightarrow> state (tasks s t) = TASK_READY" "\<not> asleep k t \<longrightarrow> s = ksched k"
    using wakeup_spec [OF assms, of t] by blast
  then show ?thesis using that [of s] by (cases "asleep k t") (auto simp: wake_def)
qed

lemma trigger_effect_spec:
  assumes "sched_inv (ksched k)"
  obtains k' where "trigger_effect k t q trig = Some k'" "sched_inv (ksched k')"
    "trig_set (trigs k' q) = trig_set (trigs k q)" "touchers (trigs k' q) = touchers (trigs k q)"
    "actions (trigs k' q) = actions (trigs k q)" "pid k' = pid k" "global_list k' = global_list k"
    "trig_ptr k' = trig_ptr k" "cur (ksched k') = cur (ksched k)"
    "\<And>u. trigismember (blocked (trigs k' q)) u \<Longrightarrow> trigismember (blocked (trigs k q)) u"
    "trigismember (blocked (trigs k' q)) trig = trigismember (blocked (trigs k q)) trig"
    "\<not> asleep k t \<Longrightarrow> ksched k' = ksched k"
    "trig \<notin> {TRIGRESUM, TRIGHSOFT} \<Longrightarrow> ksched k' = ksched k"
    "state (tasks (ksched k) t) \<noteq> TASK_STOPPED \<Longrightarrow> ksched k' = ksched k"
proof (cases "trig = TRIGRESUM \<or> trig = TRIGHSOFT")
  case True
  show ?thesis
  proof (cases "state (tasks (ksched k) t) = TASK_STOPPED")
    case stopped: True
    obtain s where "wake k t = Some (k\<lparr>ksched := s\<rparr>)" "sched_inv s" "cur s = cur (ksched k)"
      by (rule wake_spec [OF assms]) 
    with True stopped show ?thesis
      by (intro that [of "upd_trig q (\<lambda>tr. tr\<lparr>blocked := trigdelset (blocked tr) TRIGPAUSE\<rparr>)
           (k\<lparr>ksched := s, exit_status := (exit_status k)(t := 0)\<rparr>)"]) (auto simp: trigger_effect_def)
  next
    case False
    with True assms show ?thesis
      by (intro that [of "upd_trig q (\<lambda>tr. tr\<lparr>blocked := trigdelset (blocked tr) TRIGPAUSE\<rparr>)
           (k\<lparr>exit_status := (exit_status k)(t := 0)\<rparr>)"]) (auto simp: trigger_effect_def)
  qed
next
  case False
  let ?k = "if trig = TRIGPAUSE
    then upd_trig q (\<lambda>tr. tr\<lparr>blocked := trigdelset (blocked tr) TRIGRESUM\<rparr>) k else k"
  from False assms show ?thesis by (intro that [of ?k]) (auto simp: trigger_effect_def split: if_splits)
qed

text \<open>
  The second half of an activation: the toucher of a trigger that is not pending yet is recorded,
  and its task is woken unless the trigger is blocked.
\<close>

lemma trigger_record_spec:
  assumes "sched_inv (ksched k)" "\<not> IS_BAD_TRIGGER trig"
  obtains k' where "trigger_record k t q trig toucher = Some k'" "sched_inv (ksched k')"
    "\<And>u. trigismember (trig_set (trigs k' q)) u \<longleftrightarrow> trigismember (trig_set (trigs k q)) u \<or> u = trig"
    "touchers (trigs k' q) (trig - 1) =
       (if trigismember (trig_set (trigs k q)) trig then touchers (trigs k q) (trig - 1) else toucher)"
    "actions (trigs k' q) = actions (trigs k q)" "blocked (trigs k' q) = blocked (trigs k q)"
    "cur (ksched k') = cur (ksched k)"
    "trigismember (trig_set (trigs k q)) trig \<or> trigismember (blocked (trigs k q)) trig \<Longrightarrow>
       ksched k' = ksched k"
    "\<not> trigismember (trig_set (trigs k q)) trig \<Longrightarrow> \<not> trigismember (blocked (trigs k q)) trig \<Longrightarrow>
       \<not> asleep k' t"
proof -
  define k1 where "k1 = upd_trig q (\<lambda>tr. tr\<lparr>touchers := (touchers tr)(trig - 1 := toucher),
    trig_set := trigaddset (trig_set tr) trig\<rparr>) k"
  define k2 where "k2 = upd_trig q (\<lambda>tr. tr\<lparr>tflags := tflags tr OR TRIG_LEFT\<rparr>) k1"
  have inv: "sched_inv (ksched k2)" using assms by (simp add: k2_def k1_def)
  show ?thesis
  proof (cases "trigismember (trig_set (trigs k q)) trig")
    case True
    with assms show ?thesis by (intro that [of k]) (auto simp: trigger_record_def)
  next
    case new: False
    show ?thesis
    proof (cases "trigismember (blocked (trigs k q)) trig")
      case True
      with new assms have "trigger_record k t q trig toucher = Some k1"
        by (simp add: trigger_record_def k1_def)
      with new True assms show ?thesis by (intro that [of k1]) (auto simp: k1_def)
    next
      case False
      obtain s where s: "wake k2 t = Some (k2\<lparr>ksched := s\<rparr>)" "sched_inv s" "cur s = cur (ksched k2)"
          "\<not> asleep (k2\<lparr>ksched := s\<rparr>) t"
        by (rule wake_spec [OF inv])
      with new False have "trigger_record k t q trig toucher = Some (k2\<lparr>ksched := s\<rparr>)"
        by (simp add: trigger_record_def k1_def k2_def Let_def)
      with new False s assms show ?thesis
        by (intro that [of "k2\<lparr>ksched := s\<rparr>"]) (auto simp: k1_def k2_def)
    qed
  qed
qed

lemma pending_gt_1: "trigismember S trig \<Longrightarrow> S > 1"
proof -
  assume "trigismember S trig"
  then have b: "1 \<le> trig" "bit S (nat trig)" by (simp_all add: member_bit)
  show "S > 1"
  proof (rule ccontr)
    assume "\<not> S > 1"
    then have "unat S \<le> 1" by (simp add: word_less_nat_alt)
    then have "unat S = unat (0 :: u32) \<or> unat S = unat (1 :: u32)" by auto
    then have "S = 0 \<or> S = 1" by (simp only: word_unat_eq_iff)
    with b show False by (auto simp: bit_1_iff)
  qed
qed

lemma find_task_simps [simp]:
  "find_task_by_pid (upd_trig q f k) p = find_task_by_pid k p"
  by (simp add: find_task_by_pid_def)

lemma left_set: "trig_set tr > 1 \<Longrightarrow> tflags (trigger_calc_left tr) AND TRIG_LEFT \<noteq> 0"
proof -
  assume "trig_set tr > 1"
  then have "tflags (trigger_calc_left tr) AND TRIG_LEFT = 1"
    by (auto simp: trigger_calc_left_def TRIG_LEFT_def bit_simps intro: bit_eqI)
  then show ?thesis by simp
qed

lemma do_active_trigger_spec:
  assumes inv: "sched_inv (ksched k)" and trig: "\<not> IS_BAD_TRIGGER trig" "0 \<le> toucher"
    and find: "find_task_by_pid k p = Some t" "trig_ptr k t = Some q"
  obtains k' where "do_active_trigger k p trig toucher = Some (0, k')" "sched_inv (ksched k')"
    "\<And>u. trigismember (trig_set (trigs k' q)) u \<longleftrightarrow> trigismember (trig_set (trigs k q)) u \<or> u = trig"
    "touchers (trigs k' q) (trig - 1) =
       (if trigismember (trig_set (trigs k q)) trig then touchers (trigs k q) (trig - 1) else toucher)"
    "actions (trigs k' q) = actions (trigs k q)"
    "\<And>u. trigismember (blocked (trigs k' q)) u \<Longrightarrow> trigismember (blocked (trigs k q)) u"
    "trigismember (blocked (trigs k' q)) trig \<longleftrightarrow> trigismember (blocked (trigs k q)) trig"
    "tflags (trigs k' q) AND TRIG_LEFT \<noteq> 0"
    "\<not> trigismember (trig_set (trigs k q)) trig \<Longrightarrow> \<not> trigismember (blocked (trigs k q)) trig \<Longrightarrow>
       \<not> asleep k' t"
    "trigismember (trig_set (trigs k q)) trig \<or> trigismember (blocked (trigs k q)) trig \<Longrightarrow>
       state (tasks (ksched k) t) \<noteq> TASK_STOPPED \<or> trig \<notin> {TRIGRESUM, TRIGHSOFT} \<Longrightarrow> ksched k' = ksched k"
proof (rule trigger_effect_spec [OF inv, of t q trig])
  fix k1 assume k1: "trigger_effect k t q trig = Some k1" "sched_inv (ksched k1)"
    "trig_set (trigs k1 q) = trig_set (trigs k q)" "touchers (trigs k1 q) = touchers (trigs k q)"
    "actions (trigs k1 q) = actions (trigs k q)" "pid k1 = pid k" "global_list k1 = global_list k"
    "trig_ptr k1 = trig_ptr k" "cur (ksched k1) = cur (ksched k)"
    "\<And>u. trigismember (blocked (trigs k1 q)) u \<Longrightarrow> trigismember (blocked (trigs k q)) u"
    "trigismember (blocked (trigs k1 q)) trig = trigismember (blocked (trigs k q)) trig"
    "\<not> asleep k t \<Longrightarrow> ksched k1 = ksched k"
    "trig \<notin> {TRIGRESUM, TRIGHSOFT} \<Longrightarrow> ksched k1 = ksched k"
    "state (tasks (ksched k) t) \<noteq> TASK_STOPPED \<Longrightarrow> ksched k1 = ksched k"
  show thesis
  proof (rule trigger_record_spec [OF k1(2) trig(1), of t q toucher])
  fix k2 assume k2: "trigger_record k1 t q trig toucher = Some k2" "sched_inv (ksched k2)"
    "\<And>u. trigismember (trig_set (trigs k2 q)) u \<longleftrightarrow> trigismember (trig_set (trigs k1 q)) u \<or> u = trig"
    "touchers (trigs k2 q) (trig - 1) =
       (if trigismember (trig_set (trigs k1 q)) trig then touchers (trigs k1 q) (trig - 1) else toucher)"
    "actions (trigs k2 q) = actions (trigs k1 q)" "blocked (trigs k2 q) = blocked (trigs k1 q)"
    "cur (ksched k2) = cur (ksched k1)"
    "trigismember (trig_set (trigs k1 q)) trig \<or> trigismember (blocked (trigs k1 q)) trig \<Longrightarrow>
       ksched k2 = ksched k1"
    "\<not> trigismember (trig_set (trigs k1 q)) trig \<Longrightarrow> \<not> trigismember (blocked (trigs k1 q)) trig \<Longrightarrow>
       \<not> asleep k2 t"
  have "trig_set (trigs k2 q) > 1" using k2(3) [of trig] by (blast intro: pending_gt_1)
  moreover have "do_active_trigger k p trig toucher = Some (0, upd_trig q trigger_calc_left k2)"
    using trig find k1(1) k2(1) by (simp add: do_active_trigger_def)
  ultimately show ?thesis
    using k1 k2 by (intro that [of "upd_trig q trigger_calc_left k2"]) (auto simp: left_set)
  qed
qed

subsection \<open>What delivery does\<close>

definition deliverable :: "kernel \<Rightarrow> nat \<Rightarrow> int \<Rightarrow> bool" where
  "deliverable k q u \<longleftrightarrow> trigismember (trig_set (trigs k q)) u \<and> \<not> trigismember (blocked (trigs k q)) u"

definition trig_handler :: "kernel \<Rightarrow> nat \<Rightarrow> int \<Rightarrow> u32" where
  "trig_handler k q u = ta_handler (actions (trigs k q) (u - 1))"

text \<open>The trigger at which a run of the loop ends.\<close>

fun stops_at :: "outcome \<Rightarrow> int" where
  "stops_at Done = TRIG_NR + 1"
| "stops_at (Caught d) = d"
| "stops_at (Exits d) = d"
| "stops_at (Stopped d) = d"

lemma deliverable_consume [simp]:
  "deliverable (upd_trig q (consume trig) k) q u \<longleftrightarrow> deliverable k q u \<and> u \<noteq> trig"
  "trig_handler (upd_trig q (consume trig) k) q u = trig_handler k q u"
  by (auto simp: deliverable_def trig_handler_def)

text \<open>The loop, split by what becomes of trigger \<open>trig\<close>.\<close>

definition passed_over :: "kernel \<Rightarrow> tid \<Rightarrow> nat \<Rightarrow> int \<Rightarrow> bool" where
  "passed_over k t q trig \<longleftrightarrow> trig_handler k q trig = TRIG_IGN \<or>
     trig_handler k q trig = TRIG_DFL \<and>
       (pid k t = INIT_PROC_PID \<or> trig \<in> {TRIGUSR0, TRIGUSR1, TRIGRESUM, TRIGALARM, TRIGDBG})"

lemma trigger_loop_skip:
  assumes "trig \<le> TRIG_NR" "\<not> deliverable k q trig"
  shows "trigger_loop k t q frame trig = trigger_loop k t q frame (trig + 1)"
  using assms by (subst trigger_loop.simps) (auto simp: deliverable_def)

lemma trigger_loop_pass:
  assumes "trig \<le> TRIG_NR" "deliverable k q trig" "passed_over k t q trig"
  shows "trigger_loop k t q frame trig = trigger_loop (upd_trig q (consume trig) k) t q frame (trig + 1)"
  using assms by (subst trigger_loop.simps)
    (auto simp: deliverable_def passed_over_def trig_handler_def Let_def)

lemma trigger_loop_stop:
  assumes "trig \<le> TRIG_NR" "deliverable k q trig" "\<not> passed_over k t q trig"
    and "trigger_loop k t q frame trig = Some (r, k', frame')"
  shows "(if trig_handler k q trig \<noteq> TRIG_DFL
          then r = Caught trig \<and> handle_trigger (upd_trig q (consume trig) k) q frame trig = (k', frame')
          else if trig = TRIGPAUSE then r = Stopped trig \<and> trigs k' = trigs (upd_trig q (consume trig) k) \<and>
            frame' = frame \<and> task_block (ksched k) TASK_STOPPED = Some (ksched k')
          else r = Exits trig \<and> frame' = frame \<and> trigs k' = trigs (upd_trig q (\<lambda>tr. trigger_calc_left
            (tr\<lparr>trig_set := trigaddset (trig_set tr) trig\<rparr>)) (upd_trig q (consume trig) k)))"
proof -
  have range: "1 \<le> trig" "trig \<le> 9" using assms(2) by (simp_all add: deliverable_def member_bit)
  then have "trig \<in> {1, 2, 3, 4, 5, 6, 7, 8, 9}" by auto
  with assms show ?thesis
    by (subst (asm) trigger_loop.simps)
      (auto simp: deliverable_def passed_over_def trig_handler_def Let_def split: if_splits)
qed

lemma deliverable_range: "deliverable k q u \<Longrightarrow> 1 \<le> u \<and> u \<le> TRIG_NR"
  by (simp add: deliverable_def member_bit TRIG_NR_def)

text \<open>
  The contract of the loop entered at \<open>trig\<close>: it stops at the first deliverable trigger that it does
  not pass over, and takes exactly the deliverable triggers it has seen out of the set. The trigger
  of \<open>sys_exit\<close> is put back.
\<close>

definition loop_result :: "kernel \<Rightarrow> tid \<Rightarrow> nat \<Rightarrow> int \<Rightarrow> outcome \<Rightarrow> kernel \<Rightarrow> bool" where
  "loop_result k t q trig r k' \<longleftrightarrow> trig \<le> stops_at r \<and>
    (r = Done \<or> deliverable k q (stops_at r) \<and> \<not> passed_over k t q (stops_at r)) \<and>
    (\<forall>u. trig \<le> u \<and> u < stops_at r \<and> deliverable k q u \<longrightarrow> passed_over k t q u) \<and>
    (\<forall>u. trigismember (trig_set (trigs k' q)) u \<longleftrightarrow> trigismember (trig_set (trigs k q)) u \<and>
       \<not> (deliverable k q u \<and> trig \<le> u \<and> (u < stops_at r \<or> u = stops_at r \<and> r \<noteq> Exits u)))"

lemma loop_result_skip:
  assumes "loop_result k t q (trig + 1) r k'" "\<not> deliverable k q trig"
  shows "loop_result k t q trig r k'"
proof -
  have "trig \<le> u \<and> deliverable k q u \<longleftrightarrow> trig + 1 \<le> u \<and> deliverable k q u" for u
    using assms(2) by (cases "u = trig") auto
  then show ?thesis using assms(1) unfolding loop_result_def by (smt (verit))
qed

lemma loop_result_pass:
  assumes "loop_result (upd_trig q (consume trig) k) t q (trig + 1) r k'"
    and "deliverable k q trig" "passed_over k t q trig"
  shows "loop_result k t q trig r k'"
proof -
  have "passed_over (upd_trig q (consume trig) k) t q u \<longleftrightarrow> passed_over k t q u" for u
    by (simp add: passed_over_def)
  with assms show ?thesis unfolding loop_result_def by (simp add: deliverable_def) (smt (verit))
qed

lemma loop_result_stop:
  assumes "stops_at r = trig" "deliverable k q trig" "\<not> passed_over k t q trig"
    and "\<And>u. trigismember (trig_set (trigs k' q)) u \<longleftrightarrow>
      trigismember (trig_set (trigs k q)) u \<and> (u = trig \<longrightarrow> r = Exits u)"
  shows "loop_result k t q trig r k'"
  using assms unfolding loop_result_def by (auto simp: deliverable_def)

lemma handle_trigger_spec:
  assumes "handle_trigger k q frame trig = (k', f')"
  shows "trig_set (trigs k' q) = trig_set (trigs k q)" "trig_ptr k' = trig_ptr k" "ksched k' = ksched k"
    "eip f' = trig_handler k q trig" "esp f' = trigger_frame_addr (esp frame)"
    "user_stack k' (esp f') = \<lparr>tf_trig = trig, tf_oldmask = blocked (trigs k q), tf_trap = frame\<rparr>"
    "trigismember (blocked (trigs k' q)) u \<longleftrightarrow> trigismember (blocked (trigs k q)) u \<or>
       ta_flags (actions (trigs k q) (trig - 1)) AND TA_NOMASK = 0 \<and>
       (trigismember (ta_mask (actions (trigs k q) (trig - 1))) u \<or> u = trig \<and> \<not> IS_BAD_TRIGGER u)"
  using assms
  by (auto simp: handle_trigger_def build_trigger_frame_def Let_def trig_handler_def split: if_splits)

lemma trigger_loop_spec:
  assumes "trigger_loop k t q frame trig = Some (r, k', frame')" "trig \<le> TRIG_NR + 1"
  shows "loop_result k t q trig r k'"
  using assms
proof (induction "nat (TRIG_NR + 1 - trig)" arbitrary: k trig)
  case 0
  then have "r = Done" "k' = k" "trig = TRIG_NR + 1" by (simp_all add: trigger_loop.simps)
  then show ?case by (auto simp: loop_result_def dest: deliverable_range)
next
  case (Suc n)
  let ?k = "upd_trig q (consume trig) k"
  have le: "trig \<le> TRIG_NR" "n = nat (TRIG_NR + 1 - (trig + 1))" using Suc.hyps(2) by auto
  consider (skip) "\<not> deliverable k q trig"
    | (pass) "deliverable k q trig" "passed_over k t q trig"
    | (stop) "deliverable k q trig" "\<not> passed_over k t q trig" by blast
  then show ?case
  proof cases
    case skip
    have "loop_result k t q (trig + 1) r k'"
      using Suc.prems(1) le by (intro Suc.hyps(1)) (simp_all add: trigger_loop_skip [OF le(1) skip])
    then show ?thesis using skip by (rule loop_result_skip)
  next
    case pass
    have "loop_result ?k t q (trig + 1) r k'"
      using Suc.prems(1) le by (intro Suc.hyps(1)) (simp_all add: trigger_loop_pass [OF le(1) pass])
    then show ?thesis using pass by (rule loop_result_pass)
  next
    case stop
    from trigger_loop_stop [OF le(1) stop Suc.prems(1)] deliverable_range [OF stop(1)]
      handle_trigger_spec(1) [of ?k q frame trig] stop
    show ?thesis
      by (intro loop_result_stop) (auto simp: deliverable_def good_trigger TRIG_NR_def split: if_splits)
  qed
qed

lemma trigger_loop_caught:
  assumes "trigger_loop k t q frame trig = Some (Caught d, k', frame')" "trig \<le> TRIG_NR + 1"
  obtains k1 where "handle_trigger k1 q frame d = (k', frame')" "trig_handler k q d \<notin> {TRIG_IGN, TRIG_DFL}"
    "trig_handler k1 q d = trig_handler k q d" "blocked (trigs k1 q) = blocked (trigs k q)"
    "actions (trigs k1 q) = actions (trigs k q)" "trig_ptr k1 = trig_ptr k" "ksched k1 = ksched k"
  using assms
proof (induction "nat (TRIG_NR + 1 - trig)" arbitrary: thesis k trig)
  case 0
  then show ?case by (simp add: trigger_loop.simps)
next
  case (Suc n)
  let ?k = "upd_trig q (consume trig) k"
  have le: "trig \<le> TRIG_NR" "n = nat (TRIG_NR + 1 - (trig + 1))" "trig + 1 \<le> TRIG_NR + 1"
    using Suc.hyps(2) by auto
  consider (skip) "\<not> deliverable k q trig"
    | (pass) "deliverable k q trig" "passed_over k t q trig"
    | (stop) "deliverable k q trig" "\<not> passed_over k t q trig" by blast
  then show ?case
  proof cases
    case skip
    have loop: "trigger_loop k t q frame (trig + 1) = Some (Caught d, k', frame')"
      using Suc.prems(2) by (simp add: trigger_loop_skip [OF le(1) skip])
    show ?thesis
      by (rule Suc.hyps(1) [OF le(2) _ loop le(3)], erule Suc.prems(1)) simp_all
  next
    case pass
    have loop: "trigger_loop ?k t q frame (trig + 1) = Some (Caught d, k', frame')"
      using Suc.prems(2) by (simp add: trigger_loop_pass [OF le(1) pass])
    show ?thesis
      by (rule Suc.hyps(1) [OF le(2) _ loop le(3)], erule Suc.prems(1)) simp_all
  next
    case stop
    from trigger_loop_stop [OF le(1) stop Suc.prems(2)]
    have "d = trig" "handle_trigger ?k q frame d = (k', frame')" "trig_handler k q d \<noteq> TRIG_DFL"
      by (auto split: if_splits)
    with stop show ?thesis by (intro Suc.prems(1) [of ?k]) (auto simp: passed_over_def)
  qed
qed

text \<open>How the loop ended, whatever it ended at.\<close>

lemma trigger_loop_end:
  assumes "trigger_loop k t q frame trig = Some (r, k', frame')" "trig \<le> TRIG_NR + 1"
  shows "case r of Done \<Rightarrow> True
     | Caught d \<Rightarrow> trig_handler k q d \<notin> {TRIG_IGN, TRIG_DFL} \<and> eip frame' = trig_handler k q d
     | Stopped d \<Rightarrow> d = TRIGPAUSE \<and> trig_handler k q d = TRIG_DFL
     | Exits d \<Rightarrow> d \<in> {TRIGSYS, TRIGHSOFT, TRIGLSOFT} \<and> trig_handler k q d = TRIG_DFL"
  using assms
proof (induction "nat (TRIG_NR + 1 - trig)" arbitrary: k trig)
  case 0
  then show ?case by (simp add: trigger_loop.simps)
next
  case (Suc n)
  let ?k = "upd_trig q (consume trig) k"
  have le: "trig \<le> TRIG_NR" "n = nat (TRIG_NR + 1 - (trig + 1))" "trig + 1 \<le> TRIG_NR + 1"
    using Suc.hyps(2) by auto
  consider (skip) "\<not> deliverable k q trig"
    | (pass) "deliverable k q trig" "passed_over k t q trig"
    | (stop) "deliverable k q trig" "\<not> passed_over k t q trig" by blast
  then show ?case
  proof cases
    case skip
    with Suc.prems(1) Suc.hyps(1) [OF le(2) _ le(3), of k] show ?thesis
      by (simp add: trigger_loop_skip [OF le(1) skip])
  next
    case pass
    with Suc.prems(1) Suc.hyps(1) [OF le(2) _ le(3), of ?k] show ?thesis
      by (cases r) (simp_all add: trigger_loop_pass [OF le(1) pass])
  next
    case stop
    then have "trig \<in> {1, 2, 3, 4, 5, 6, 7, 8, 9}" by (auto simp: deliverable_def member_bit)
    with trigger_loop_stop [OF le(1) stop Suc.prems(1)] handle_trigger_spec(4) [of ?k q frame trig k' frame'] stop
    show ?thesis by (auto simp: passed_over_def split: if_splits)
  qed
qed

lemma do_trigger_loop:
  assumes "do_trigger k frame = Some (Some r, k', frame')" "trig_ptr k (cur (ksched k)) = Some q"
  shows "trigger_loop k (cur (ksched k)) q frame 1 = Some (r, k', frame')"
  using assms by (auto simp: do_trigger_def split: if_splits)

lemma proc_mask_unblocked:
  assumes "how = TRIG_BLOCK \<or> how = TRIG_SETMASK" "t = TRIGHSOFT \<or> t = TRIGPAUSE"
  shows "\<not> trigismember (proc_mask how S b) t"
  using assms by (auto simp: proc_mask_def TRIG_BLOCK_def TRIG_UNBLOCK_def TRIG_SETMASK_def)

text \<open>The argument of \<open>trigdelset\<close> in \<open>trigger_set_action\<close> is the mask 40, which is no trigger.\<close>

lemma set_action_mask: "ta_mask (actions (trigger_set_action tr trig ta) (trig - 1)) = ta_mask ta"
  by (simp add: trigger_set_action_def trigmask_def trigdelset_def IS_BAD_TRIGGER_def TRIG_NR_def)

text \<open>A small system: process 7 (task 1) is blocked, process 5 (task 0) is running.\<close>

definition demo_kernel :: kernel where
  "demo_kernel = \<lparr>ksched = upd_task 1 (\<lambda>k. k\<lparr>state := TASK_BLOCKED\<rparr>) (boot 0), global_list = [0, 1],
     pid = (\<lambda>t. if t = 0 then 5 else 7), exit_status = (\<lambda>_. 0), trig_ptr = (\<lambda>t. Some t),
     trigs = (\<lambda>_. trigger_init \<lparr>blocked = 0, trig_set = 0,
        actions = (\<lambda>_. \<lparr>ta_handler = 0, ta_flags = 0, ta_mask = 0\<rparr>), touchers = (\<lambda>_. 0), tflags = 0\<rparr>),
     user_stack = (\<lambda>_. \<lparr>tf_trig = 0, tf_oldmask = 0,
        tf_trap = \<lparr>eax = 0, eip = 0, esp = 0, cs = 0, ss = 0, dses = [], eflags = 0, regs = []\<rparr>\<rparr>)\<rparr>"

lemma demo_kernel_inv: "sched_inv (ksched demo_kernel)"
proof -
  have "sched_inv (boot 0)" by (rule boot_inv)
  then show ?thesis
    by (auto simp: demo_kernel_def sched_inv_def queues_ok_def boot_def)
qed

lemma demo_kernel_find [simp]:
  "find_task_by_pid demo_kernel 7 = Some 1" "trig_ptr demo_kernel t = Some t"
  "find_task_by_pid demo_kernel 7 = Some (Suc 0)" "pid demo_kernel 0 = 5" "cur (ksched demo_kernel) = 0"
  by (simp_all add: find_task_by_pid_def demo_kernel_def boot_def)

subsection \<open>Properties\<close>



text \<open>
  A forced trigger ends up pending, not blocked and not ignored. The task is woken if the
  trigger was not pending before; a trigger that was pending because it was blocked is unblocked
  without a wakeup: outside \<open>TRIGRESUM\<close> and \<open>TRIGHSOFT\<close>, no task changes its state.
\<close>

theorem trigger_force_delivers:
  assumes "sched_inv (ksched k)" "\<not> IS_BAD_TRIGGER trig" "0 \<le> pid k (cur (ksched k))" "0 \<le> p"
    and "find_task_by_pid k p = Some t" "trig_ptr k t = Some q"
  shows "\<exists>k'. trigger_force k trig p = Some (0, k') \<and> sched_inv (ksched k') \<and>
    deliverable k' q trig \<and> trig_handler k' q trig \<noteq> TRIG_IGN \<and>
    (\<not> trigismember (trig_set (trigs k q)) trig \<longrightarrow> \<not> asleep k' t) \<and>
    (trigismember (trig_set (trigs k q)) trig \<and> trig \<notin> {TRIGRESUM, TRIGHSOFT} \<longrightarrow> ksched k' = ksched k)"
proof -
  define force :: "triggers \<Rightarrow> triggers" where "force = (\<lambda>tr. let a = actions tr (trig - 1) in
    tr\<lparr>actions := (actions tr)(trig - 1 := if ta_handler a = TRIG_IGN then a\<lparr>ta_handler := TRIG_DFL\<rparr> else a),
       blocked := trigdelset (blocked tr) trig\<rparr>)"
  let ?k = "upd_trig q force k"
  have force: "trig_set (force tr) = trig_set tr" "blocked (force tr) = trigdelset (blocked tr) trig"
    "ta_handler (actions (force tr) (trig - 1)) \<noteq> TRIG_IGN" for tr
    by (simp_all add: force_def Let_def TRIG_IGN_def TRIG_DFL_def)
  have eq: "trigger_force k trig p = do_active_trigger ?k p trig (pid k (cur (ksched k)))"
    using assms by (simp add: trigger_force_def force_def Let_def)
  show ?thesis
  proof (rule do_active_trigger_spec [of ?k trig "pid k (cur (ksched k))" p t q])
    fix k' assume "do_active_trigger ?k p trig (pid k (cur (ksched k))) = Some (0, k')" "sched_inv (ksched k')"
      "\<And>u. trigismember (trig_set (trigs k' q)) u \<longleftrightarrow> trigismember (trig_set (trigs ?k q)) u \<or> u = trig"
      "actions (trigs k' q) = actions (trigs ?k q)"
      "trigismember (blocked (trigs k' q)) trig \<longleftrightarrow> trigismember (blocked (trigs ?k q)) trig"
      "\<not> trigismember (trig_set (trigs ?k q)) trig \<Longrightarrow> \<not> trigismember (blocked (trigs ?k q)) trig \<Longrightarrow>
         \<not> asleep k' t"
      "trigismember (trig_set (trigs ?k q)) trig \<or> trigismember (blocked (trigs ?k q)) trig \<Longrightarrow>
         state (tasks (ksched ?k) t) \<noteq> TASK_STOPPED \<or> trig \<notin> {TRIGRESUM, TRIGHSOFT} \<Longrightarrow> ksched k' = ksched ?k"
    with force show ?thesis
      by (intro exI [of _ k']) (auto simp: eq deliverable_def trig_handler_def)
  qed (use assms in simp_all)
qed

theorem trigger_force_delivers_witness:
  "\<exists>k'. trigger_force demo_kernel TRIGPAUSE 7 = Some (0, k') \<and> deliverable k' 1 TRIGPAUSE \<and>
     \<not> asleep k' 1"
proof -
  have start: "trig_set (trigs demo_kernel 1) = 1"
    by (simp add: demo_kernel_def trigger_init_def trigemptyset_def)
  have "\<not> IS_BAD_TRIGGER TRIGPAUSE" by (simp add: IS_BAD_TRIGGER_def TRIG_NR_def)
  with trigger_force_delivers [OF demo_kernel_inv this, of 7 1 1] start show ?thesis
    by (auto simp: member_bit bit_1_iff)
qed

text \<open>
  C11. \<open>do_trigger\<close> looks at the pending triggers that are not blocked in the order of their numbers.
  It stops at the first that is not ignored, explicitly, by default, or because the process is
  \<open>init\<close>: a caught one starts its handler, \<open>TRIGPAUSE\<close> stops the task, and the three fatal ones end it.
  It takes exactly the triggers it handled out of the pending set; blocked ones, those after it, and
  a fatal one stay pending.
\<close>

theorem trigger_delivery:
  assumes "do_trigger k frame = Some (Some r, k', frame')" "trig_ptr k (cur (ksched k)) = Some q"
  shows "(\<forall>u < stops_at r. deliverable k q u \<longrightarrow> passed_over k (cur (ksched k)) q u) \<and>
    (\<forall>u. trigismember (trig_set (trigs k' q)) u \<longleftrightarrow> trigismember (trig_set (trigs k q)) u \<and>
       (\<not> deliverable k q u \<or> u > stops_at r \<or> r = Exits u)) \<and>
    (case r of Done \<Rightarrow> True
     | Caught d \<Rightarrow> deliverable k q d \<and> trig_handler k q d \<notin> {TRIG_IGN, TRIG_DFL} \<and> eip frame' = trig_handler k q d
     | Stopped d \<Rightarrow> deliverable k q d \<and> d = TRIGPAUSE \<and> trig_handler k q d = TRIG_DFL
     | Exits d \<Rightarrow> deliverable k q d \<and> d \<in> {TRIGSYS, TRIGHSOFT, TRIGLSOFT} \<and> trig_handler k q d = TRIG_DFL)"
proof -
  note loop = do_trigger_loop [OF assms]
  from trigger_loop_spec [OF loop] have res: "loop_result k (cur (ksched k)) q 1 r k'" by (simp add: TRIG_NR_def)
  have "u < stops_at r \<longrightarrow> deliverable k q u \<longrightarrow> passed_over k (cur (ksched k)) q u" for u
    using res deliverable_range [of k q u] by (auto simp: loop_result_def)
  moreover have "trigismember (trig_set (trigs k' q)) u \<longleftrightarrow> trigismember (trig_set (trigs k q)) u \<and>
       (\<not> deliverable k q u \<or> u > stops_at r \<or> r = Exits u)" for u
  proof -
    have "trigismember (trig_set (trigs k' q)) u \<longleftrightarrow> trigismember (trig_set (trigs k q)) u \<and>
        \<not> (deliverable k q u \<and> 1 \<le> u \<and> (u < stops_at r \<or> u = stops_at r \<and> r \<noteq> Exits u))"
      using res unfolding loop_result_def by blast
    moreover have "deliverable k q u \<Longrightarrow> 1 \<le> u" using deliverable_range by blast
    moreover have "r = Exits u \<Longrightarrow> stops_at r = u" by simp
    ultimately show ?thesis by (smt (verit))
  qed
  moreover have "case r of Done \<Rightarrow> True
     | Caught d \<Rightarrow> deliverable k q d \<and> trig_handler k q d \<notin> {TRIG_IGN, TRIG_DFL} \<and> eip frame' = trig_handler k q d
     | Stopped d \<Rightarrow> deliverable k q d \<and> d = TRIGPAUSE \<and> trig_handler k q d = TRIG_DFL
     | Exits d \<Rightarrow> deliverable k q d \<and> d \<in> {TRIGSYS, TRIGHSOFT, TRIGLSOFT} \<and> trig_handler k q d = TRIG_DFL"
    using trigger_loop_end [OF loop] res by (cases r) (simp_all add: loop_result_def TRIG_NR_def)
  ultimately show ?thesis by blast
qed

definition demo_pending :: kernel where
  "demo_pending = demo_kernel\<lparr>trigs := (\<lambda>_. \<lparr>blocked = 0x3, trig_set = 0x111,
     actions = (\<lambda>i. \<lparr>ta_handler = (if i = 7 then 0x5000 else 1), ta_flags = 0, ta_mask = 0x10\<rparr>),
     touchers = (\<lambda>_. 5), tflags = 1\<rparr>)\<rparr>"

definition demo_frame :: trap_frame where
  "demo_frame = \<lparr>eax = 1, eip = 0x1000, esp = 0x7fff0000, cs = USER_CODE_SEL, ss = USER_DATA_SEL,
     dses = replicate 4 USER_DATA_SEL, eflags = 0x202, regs = [1, 2, 3]\<rparr>"

lemma demo_pending_simps [simp]:
  "trig_ptr demo_pending t = Some t" "cur (ksched demo_pending) = 0" "blocked (trigs demo_pending q) = 3"
  by (simp_all add: demo_pending_def demo_kernel_def boot_def)

text \<open>Trigger 4 is pending and ignored, trigger 8 is pending and caught by the handler at 0x5000.\<close>

lemma demo_pending_caught:
  "\<exists>k' f'. do_trigger demo_pending demo_frame = Some (Some (Caught 8), k', f')"
proof -
  have m: "trigismember 0x111 u \<longleftrightarrow> u = 4 \<or> u = 8" "trigismember 3 u \<longleftrightarrow> u = 1" for u
  proof -
    have "u \<in> {1, 2, 3, 4, 5, 6, 7, 8, 9} \<or> u < 1 \<or> 9 < u" by auto
    then show "trigismember 0x111 u \<longleftrightarrow> u = 4 \<or> u = 8" "trigismember 3 u \<longleftrightarrow> u = 1"
      by (auto simp: member_bit bit_numeral_rec)
  qed
  show ?thesis
    by (simp add: do_trigger_def demo_pending_def demo_kernel_def boot_def trigger_loop.simps m
        TRIG_NR_def Let_def TRIG_LEFT_def TRIG_IGN_def TRIG_DFL_def INIT_PROC_PID_def)
qed

theorem trigger_delivery_witness:
  "\<exists>k' f'. do_trigger demo_pending demo_frame = Some (Some (Caught 8), k', f') \<and>
     trig_handler demo_pending 0 8 = 0x5000 \<and> eip f' = 0x5000 \<and> \<not> trigismember (trig_set (trigs k' 0)) 8"
proof -
  obtain k' f' where d: "do_trigger demo_pending demo_frame = Some (Some (Caught 8), k', f')"
    using demo_pending_caught by blast
  have "trig_handler demo_pending 0 8 = 0x5000" by (simp add: trig_handler_def demo_pending_def)
  with trigger_delivery [OF d, of 0] d show ?thesis by auto
qed

text \<open>
  A caught trigger is delivered without a trace: while the handler runs, the trigger itself and
  the mask of its action are blocked as well, unless the action has \<open>TA_NOMASK\<close>; when the handler returns, with its return
  address popped and its trigger frame intact, \<open>trigger_return\<close> restores all registers of the
  interrupted program and the set of blocked triggers.
\<close>

theorem trigger_return_roundtrip:
  assumes "do_trigger k frame = Some (Some (Caught d), k', frame')" "trig_ptr k (cur (ksched k)) = Some q"
    and handler: "user_stack k'' (esp frame') = user_stack k' (esp frame')" "esp g = esp frame' + 4"
      "trig_ptr k'' (cur (ksched k'')) = Some q"
  shows "(\<exists>k3. trigger_return k'' g = Some (eax frame, k3, frame) \<and> blocked (trigs k3 q) = blocked (trigs k q)) \<and>
    (\<forall>u. trigismember (blocked (trigs k' q)) u \<longleftrightarrow> trigismember (blocked (trigs k q)) u \<or>
      ta_flags (actions (trigs k q) (d - 1)) AND TA_NOMASK = 0 \<and>
      (trigismember (ta_mask (actions (trigs k q) (d - 1))) u \<or> u = d \<and> \<not> IS_BAD_TRIGGER u))"
proof -
  have le: "(1 :: int) \<le> TRIG_NR + 1" by (simp add: TRIG_NR_def)
  have "user_stack k' (esp frame') = \<lparr>tf_trig = d, tf_oldmask = blocked (trigs k q), tf_trap = frame\<rparr> \<and>
    (\<forall>u. trigismember (blocked (trigs k' q)) u \<longleftrightarrow> trigismember (blocked (trigs k q)) u \<or>
      ta_flags (actions (trigs k q) (d - 1)) AND TA_NOMASK = 0 \<and>
      (trigismember (ta_mask (actions (trigs k q) (d - 1))) u \<or> u = d \<and> \<not> IS_BAD_TRIGGER u))"
  proof (rule trigger_loop_caught [OF do_trigger_loop [OF assms(1,2)] le])
    fix k1 assume "handle_trigger k1 q frame d = (k', frame')" "blocked (trigs k1 q) = blocked (trigs k q)"
      "actions (trigs k1 q) = actions (trigs k q)"
    then show ?thesis using handle_trigger_spec(6,7) [of k1 q frame d k' frame'] by simp
  qed
  with handler show ?thesis by (simp add: trigger_return_def)
qed

theorem trigger_return_roundtrip_witness:
  "\<exists>k' f' k3. do_trigger demo_pending demo_frame = Some (Some (Caught 8), k', f') \<and>
     trigger_return (k'\<lparr>ksched := ksched demo_pending, trig_ptr := trig_ptr demo_pending\<rparr>)
       (f'\<lparr>eax := 9, eip := 0x5040, esp := esp f' + 4\<rparr>) = Some (1, k3, demo_frame)"
proof -
  obtain k' f' where d: "do_trigger demo_pending demo_frame = Some (Some (Caught 8), k', f')"
    using demo_pending_caught by blast
  let ?k = "k'\<lparr>ksched := ksched demo_pending, trig_ptr := trig_ptr demo_pending\<rparr>"
  let ?g = "f'\<lparr>eax := 9, eip := 0x5040, esp := esp f' + 4\<rparr>"
  have "\<exists>k3. trigger_return ?k ?g = Some (eax demo_frame, k3, demo_frame) \<and>
      blocked (trigs k3 0) = blocked (trigs demo_pending 0)"
    by (rule conjunct1 [OF trigger_return_roundtrip [OF d]]) simp_all
  with d show ?thesis by (auto simp: demo_frame_def)
qed

text \<open>
  \<open>sys_trigger_proc_mask\<close> never leaves \<open>TRIGHSOFT\<close> or \<open>TRIGPAUSE\<close> blocked when it adds to the
  mask or sets it, but the mask of an action is stored exactly as the caller gave it: the step that
  is to strip the two from it passes \<open>trigdelset\<close> a value that is no trigger.
\<close>

theorem trigger_masks:
  assumes "how = TRIG_BLOCK \<or> how = TRIG_SETMASK" "sys_trigger_proc_mask k how (Some S) = Some (r, old, k')"
    and "trig_ptr k (cur (ksched k)) = Some q"
  shows "r = 0 \<and> old = blocked (trigs k q) \<and> \<not> trigismember (blocked (trigs k' q)) TRIGHSOFT \<and>
    \<not> trigismember (blocked (trigs k' q)) TRIGPAUSE \<and>
    ta_mask (actions (trigger_set_action (trigs k' q) trig ta) (trig - 1)) = ta_mask ta"
  using assms proc_mask_unblocked [OF assms(1), of TRIGHSOFT S] proc_mask_unblocked [OF assms(1), of TRIGPAUSE S]
  by (auto simp: sys_trigger_proc_mask_def set_action_mask)

theorem trigger_masks_witness:
  "\<exists>k'. sys_trigger_proc_mask demo_pending TRIG_SETMASK (Some 0xffffffff) = Some (0, 3, k') \<and>
     \<not> trigismember (blocked (trigs k' 0)) TRIGHSOFT"
proof -
  obtain r old k' where "sys_trigger_proc_mask demo_pending TRIG_SETMASK (Some 0xffffffff) = Some (r, old, k')"
    by (auto simp: sys_trigger_proc_mask_def)
  with trigger_masks [OF _ this, of 0] show ?thesis by auto
qed

end
