(* ===== verification/Sync.thy ===== *)
theory Sync
  imports Sched
begin

section \<open>Wait queues, mutexes, semaphores\<close>

text \<open>
  \<open>src/src/task/waitqueue.c\<close>, \<open>src/src/task/mutexlock.c\<close>, \<open>src/src/include/xbook/mutexlock.h\<close>,
  \<open>semaphore.h\<close> and \<open>synclock.h\<close> on top of the scheduler. A section that runs with interrupts off
  is one function; where the code opens the interrupts, or the task sleeps, the operation is cut, and
  the step relations below let other tasks run there. A wait list is the list of its tasks.
  \<open>None\<close> stands for a failed assertion, a panic of the scheduler, or the first element of an empty
  list.

  What a sleeping lock needs of the scheduler is the interface \<open>blocking_sched\<close>; its laws are
  discharged for the scheduler model at the end of the first part.
\<close>

subsection \<open>What a sleeping lock needs of the scheduler\<close>

text \<open>
  \<open>asleep s t\<close>: the task is blocked and in no ready queue. \<open>other\<close> is what may happen to the
  scheduler between two steps of the lock code that neither blocks nor wakes a task.
\<close>

definition waitlist_ok :: "(tid \<Rightarrow> bool) \<Rightarrow> tid list \<Rightarrow> bool" where
  "waitlist_ok asleep ws \<longleftrightarrow> distinct ws \<and> (\<forall>t \<in> set ws. asleep t)"

definition room_ok :: "(tid \<Rightarrow> bool) \<Rightarrow> tid list \<Rightarrow> (tid \<Rightarrow> bool) \<Rightarrow> bool" where
  "room_ok asleep ws pend \<longleftrightarrow> waitlist_ok asleep ws \<and> (\<forall>t \<in> set ws. pend t)"

locale blocking_sched =
  fixes ok :: "'s \<Rightarrow> bool"
    and running :: "'s \<Rightarrow> tid"
    and runnable :: "'s \<Rightarrow> tid set"
    and asleep :: "'s \<Rightarrow> tid \<Rightarrow> bool"
    and block :: "'s \<Rightarrow> 's option"
    and wake :: "'s \<Rightarrow> tid \<Rightarrow> 's option"
    and other :: "'s \<Rightarrow> 's \<Rightarrow> bool"
  assumes running_runnable: "ok s \<Longrightarrow> running s \<in> runnable s"
    and runnable_awake: "ok s \<Longrightarrow> t \<in> runnable s \<Longrightarrow> \<not> asleep s t"
    and block_law: "ok s \<Longrightarrow> block s = Some s' \<Longrightarrow> ok s' \<and> runnable s' = runnable s - {running s} \<and>
      (\<forall>t. asleep s' t \<longleftrightarrow> asleep s t \<or> t = running s)"
    and wake_law: "ok s \<Longrightarrow> asleep s t \<Longrightarrow> \<exists>s'. wake s t = Some s' \<and> ok s' \<and> running s' = running s \<and>
      runnable s' = insert t (runnable s) \<and> (\<forall>u. asleep s' u \<longleftrightarrow> asleep s u \<and> u \<noteq> t)"
    and other_law: "ok s \<Longrightarrow> other s s' \<Longrightarrow> ok s' \<and> runnable s' = runnable s \<and> asleep s' = asleep s"
begin

lemma running_not_waiting:
  assumes "ok s" "waitlist_ok (asleep s) ws"
  shows "running s \<notin> set ws"
  using assms running_runnable runnable_awake by (auto simp: waitlist_ok_def)

lemma waiter_not_runnable:
  assumes "ok s" "waitlist_ok (asleep s) ws" "t \<in> set ws"
  shows "t \<notin> runnable s"
  using assms runnable_awake by (auto simp: waitlist_ok_def)

lemma waitlist_sleep:
  assumes "ok s" "waitlist_ok (asleep s) ws" "block s = Some s'"
  shows "waitlist_ok (asleep s') (ws @ [running s])"
  using assms running_not_waiting [OF assms(1,2)] block_law [OF assms(1,3)] by (auto simp: waitlist_ok_def)

lemma waitlist_block:
  assumes "ok s" "waitlist_ok (asleep s) ws" "block s = Some s'"
  shows "waitlist_ok (asleep s') ws"
  using assms block_law [OF assms(1,3)] by (auto simp: waitlist_ok_def)

lemma waitlist_other:
  assumes "ok s" "waitlist_ok (asleep s) ws" "other s s'"
  shows "waitlist_ok (asleep s') ws"
  using assms other_law [OF assms(1,3)] by simp

lemma waitlist_wake:
  assumes "ok s" "waitlist_ok (asleep s) ws" "asleep s t" "t \<notin> set ws" "wake s t = Some s'"
  shows "waitlist_ok (asleep s') ws"
  using assms wake_law [OF assms(1,3)] by (auto simp: waitlist_ok_def)

lemma waitlist_wake_head:
  assumes "ok s" "waitlist_ok (asleep s) (t # ws)" "wake s t = Some s'"
  shows "waitlist_ok (asleep s') ws" "t \<in> runnable s'" "runnable s \<subseteq> runnable s'" "ok s'" "running s' = running s"
proof -
  have "asleep s t" "t \<notin> set ws" "waitlist_ok (asleep s) ws" using assms(2) by (auto simp: waitlist_ok_def)
  with assms wake_law [OF assms(1), of t] waitlist_wake [OF assms(1), of ws t s']
  show "waitlist_ok (asleep s') ws" "t \<in> runnable s'" "runnable s \<subseteq> runnable s'" "ok s'" "running s' = running s"
    by auto
qed

text \<open>
  A waiting room: the tasks of the list are blocked, and \<open>pend\<close> says of each of them that it has
  something to finish once it is woken.
\<close>

lemma room_enter:
  assumes "ok s" "block s = Some s'" "room_ok (asleep s) ws pend"
  shows "room_ok (asleep s') (ws @ [running s]) (pend(running s := True))"
  using assms waitlist_sleep [OF assms(1) _ assms(2), of ws] running_not_waiting [OF assms(1), of ws]
  by (auto simp: room_ok_def)

lemma room_block:
  assumes "ok s" "block s = Some s'" "room_ok (asleep s) ws pend"
  shows "room_ok (asleep s') ws pend"
  using assms waitlist_block [OF assms(1) _ assms(2), of ws] by (auto simp: room_ok_def)

lemma room_leave:
  assumes "ok s" "room_ok (asleep s) ws pend"
  shows "room_ok (asleep s) ws (pend(running s := False))"
  using assms running_not_waiting [OF assms(1), of ws] by (auto simp: room_ok_def)

lemma room_other:
  assumes "ok s" "other s s'" "room_ok (asleep s) ws pend"
  shows "room_ok (asleep s') ws pend"
  using assms waitlist_other [OF assms(1) _ assms(2), of ws] by (auto simp: room_ok_def)

lemma room_wake:
  assumes "ok s" "wake s t = Some s'" "asleep s t" "t \<notin> set ws" "room_ok (asleep s) ws pend"
  shows "room_ok (asleep s') ws pend"
  using assms waitlist_wake [OF assms(1) _ assms(3,4,2)] by (auto simp: room_ok_def)

lemma room_wake_head:
  assumes "ok s" "wake s t = Some s'" "room_ok (asleep s) (t # ws) pend"
  shows "room_ok (asleep s') ws pend"
  using assms waitlist_wake_head(1) [OF assms(1) _ assms(2)] by (auto simp: room_ok_def)

end

text \<open>The steps of the rest of the system that block no task and wake none.\<close>

inductive sched_other :: "sched \<Rightarrow> sched \<Rightarrow> bool" where
  tick: "sched_softirq_handler s = Some s' \<Longrightarrow> sched_other s s'"
| yield: "task_yeild s = Some s' \<Longrightarrow> sched_other s s'"
| demote: "start_user s = Some s' \<Longrightarrow> sched_other s s'"
| timeslice: "sched_other s (task_set_timeslice s t ts)"

definition blocked_on :: "sched \<Rightarrow> tid \<Rightarrow> bool" where
  "blocked_on s t \<longleftrightarrow> state (tasks s t) = TASK_BLOCKED"

definition is_blocking :: "sched \<Rightarrow> sched option" where
  "is_blocking s = task_block s TASK_BLOCKED"

lemma schedule_blocked_on:
  assumes inv: "queues_ok s" "\<And>p. cur s \<notin> set (queue s p)"
    and run: "\<And>t. t \<noteq> cur s \<Longrightarrow> state (tasks s t) \<noteq> TASK_RUNNING"
    and st: "state (tasks s (cur s)) \<in> {TASK_RUNNING, TASK_READY}" and "schedule s = Some s'"
  shows "blocked_on s' = blocked_on s"
proof (rule schedule_requeue [OF inv run st])
  note R = requeue_spec [OF inv st]
  fix p t ts s1
  assume *: "schedule s = Some s1" "queue (requeue s) p = t # ts" 
    "\<And>u. u \<noteq> t \<Longrightarrow> tasks s1 u = tasks (requeue s) u"
    "tasks s1 t = (tasks (requeue s) t)\<lparr>state := TASK_RUNNING\<rparr>"
  have t: "state (tasks (requeue s) t) = TASK_READY" using queues_okD(4) [OF R(2), of t p] *(2) by simp
  have same: "blocked_on (requeue s) u \<longleftrightarrow> blocked_on s u" for u
    using R(5) [of u] R(6) st by (cases "u = cur s") (auto simp: blocked_on_def)
  have "blocked_on s1 u \<longleftrightarrow> blocked_on s u" for u
    using *(3,4) t same [of u] by (cases "u = t") (auto simp: blocked_on_def)
  with * assms(5) show ?thesis by auto
qed

lemma sched_other_law:
  assumes inv: "sched_inv s" and step: "sched_other s s'"
  shows "sched_inv s' \<and> active s' = active s \<and> blocked_on s' = blocked_on s"
  using step
proof cases
  case tick
  let ?f = "\<lambda>k. k\<lparr>elapsed_ticks := elapsed_ticks k + 1\<rparr>"
  have pre: "state (?f (tasks s (cur s))) = TASK_RUNNING"
    "static_priority (?f (tasks s (cur s))) \<le> priority (?f (tasks s (cur s)))"
    "priority (?f (tasks s (cur s))) < MAX_PRIORITY_NR"
    using inv queues_okD(8,9) [OF sched_inv_queues [OF inv], of "cur s"] by (auto simp: sched_inv_running)
  note R = run_pre [where f = ?f, OF inv pre]
  have "active s' = active s \<and> blocked_on s' = blocked_on s"
  proof (cases "ticks (tasks s (cur s)) \<le> 0")
    case True
    with tick have "schedule (upd_task (cur s) ?f s) = Some s'" by (auto simp: sched_softirq_handler_def Let_def)
    with active_schedule [OF R(1-3), of s'] schedule_blocked_on [OF R(1-3), of s'] pre show ?thesis
      by (auto simp: active_def blocked_on_def fun_eq_iff)
  next
    case False
    with tick show ?thesis
      by (auto simp: sched_softirq_handler_def active_def Let_def blocked_on_def fun_eq_iff split: if_splits)
  qed
  with tick_spec [OF inv] tick show ?thesis by auto
next
  case yield
  then have "schedule (upd_task (cur s) (\<lambda>k. k\<lparr>state := TASK_READY\<rparr>) s) = Some s'" by (simp add: task_yeild_def)
  with active_schedule [OF yield_pre(1-3) [OF inv], of s'] schedule_blocked_on [OF yield_pre(1-3) [OF inv], of s']
  have "active s' = active s \<and> blocked_on s' = blocked_on s"
    using sched_inv_running [OF inv, of "cur s"] by (auto simp: active_def blocked_on_def fun_eq_iff)
  with yield_spec [OF inv] yield show ?thesis by auto
next
  case demote
  let ?f = "\<lambda>k. k\<lparr>static_priority := 3, priority := 3\<rparr>"
  have pre: "state (?f (tasks s (cur s))) = TASK_RUNNING"
    "static_priority (?f (tasks s (cur s))) \<le> priority (?f (tasks s (cur s)))"
    "priority (?f (tasks s (cur s))) < MAX_PRIORITY_NR"
    using inv by (auto simp: sched_inv_running MAX_PRIORITY_NR_def)
  note R = run_pre [where f = ?f, OF inv pre]
  from demote have "schedule (upd_task (cur s) ?f s) = Some s'" by (simp add: start_user_def)
  with active_schedule [OF R(1-3), of s'] schedule_blocked_on [OF R(1-3), of s'] pre
  have "active s' = active s \<and> blocked_on s' = blocked_on s"
    by (auto simp: active_def blocked_on_def fun_eq_iff)
  with start_user_spec [OF inv] demote show ?thesis by auto
next
  case (timeslice t ts)
  then have f: "queue s' = queue s" "qlength s' = qlength s" "su_tasknr s' = su_tasknr s" "cur s' = cur s"
    "dynamic_priority s' = dynamic_priority s" "\<And>u. state (tasks s' u) = state (tasks s u)"
    "\<And>u. priority (tasks s' u) = priority (tasks s u)"
    "\<And>u. static_priority (tasks s' u) = static_priority (tasks s u)"
    by (simp_all add: task_set_timeslice_def Let_def)
  then have "queues_ok s'" using sched_inv_queues [OF inv] by (simp add: queues_ok_def)
  then show ?thesis using inv f by (simp add: sched_inv_def active_def blocked_on_def fun_eq_iff)
qed

lemma is_blocking_law:
  assumes inv: "sched_inv s" and "is_blocking s = Some s'"
  shows "sched_inv s' \<and> active s' = active s - {cur s} \<and> (\<forall>t. blocked_on s' t \<longleftrightarrow> blocked_on s t \<or> t = cur s)"
proof -
  let ?s = "upd_task (cur s) (\<lambda>k. k\<lparr>state := TASK_BLOCKED\<rparr>) s"
  have ok: "queues_ok ?s"
    using queues_okD(8,9) [OF sched_inv_queues [OF inv], of "cur s"] sched_inv_cur [OF inv]
    by (intro queues_ok_upd_outside [OF sched_inv_queues [OF inv]]) auto
  have none: "\<forall>t. state (tasks ?s t) \<noteq> TASK_RUNNING" using sched_inv_running [OF inv] by auto
  have blk: "is_blocking s = map_option (\<lambda>(t, s). set_next_task s t) (task_priority_queue_fetch_first ?s)"
    by (simp add: is_blocking_def task_block_def schedule_def get_next_task_def)
  show ?thesis
  proof (cases rule: switch_cases [OF ok none])
    case 1
    with assms show ?thesis by (simp add: blk)
  next
    case (2 p t ts s1)
    then have s1: "s' = s1" using assms by (auto simp: blk)
    have notin: "cur s \<notin> set (queue s i)" for i by (rule sched_inv_cur [OF inv])
    have "active s' = (\<Union>i. set (queue s i))"
      using active_fetch [of "queue s" p t ts] 2 s1 by (simp add: active_def)
    then have "active s' = active s - {cur s}" using notin by (auto simp: active_def)
    moreover have "state (tasks s t) = TASK_READY"
      using queues_okD(4) [OF sched_inv_queues [OF inv], of t p] 2(2) by simp
    then have "blocked_on s' u \<longleftrightarrow> blocked_on s u \<or> u = cur s" for u
      using 2(2,7,8) notin [of p] s1 by (cases "u = t") (auto simp: blocked_on_def)
    ultimately show ?thesis using 2 s1 by blast
  qed
qed

lemma task_wakeup_law:
  assumes inv: "sched_inv s" and "blocked_on s t"
  shows "\<exists>s'. task_wakeup s t = Some s' \<and> sched_inv s' \<and> cur s' = cur s \<and> active s' = insert t (active s) \<and>
    (\<forall>u. blocked_on s' u \<longleftrightarrow> blocked_on s u \<and> u \<noteq> t)"
proof -
  let ?g = "\<lambda>k. k\<lparr>state := TASK_READY\<rparr>"
  have st: "state (tasks s t) = TASK_BLOCKED" using assms by (simp add: blocked_on_def)
  have out: "t \<notin> set (queue s p)" for p
    using queues_okD(4) [OF sched_inv_queues [OF inv], of t p] st by auto
  have "t \<noteq> cur s" using sched_inv_running [OF inv, of t] st by auto
  note E = enq_inv [where g = ?g, OF inv out this]
  have "task_wakeup s t = Some (enq (upd_task t ?g s) t)" "sched_inv (enq (upd_task t ?g s) t)"
    using st E queues_okD(8,9) [OF sched_inv_queues [OF inv], of t] out
    by (auto simp: task_wakeup_def task_unblock_def add_head_is_add_tail is_task_in_priority_queue_def)
  moreover have "active (enq (upd_task t ?g s) t) = insert t (active s)"
    using active_append [of "queue s" "priority (tasks s t)" t] by (auto simp: active_def)
  moreover have "blocked_on (enq (upd_task t ?g s) t) u \<longleftrightarrow> blocked_on s u \<and> u \<noteq> t" for u
    by (auto simp: blocked_on_def)
  ultimately show ?thesis by (intro exI [of _ "enq (upd_task t ?g s) t"]) simp
qed

text \<open>The scheduler is a provider of the interface.\<close>

interpretation bs: blocking_sched sched_inv cur active blocked_on is_blocking task_wakeup sched_other
proof unfold_locales
  show "cur s \<in> active s" for s by (simp add: active_def)
  show "\<not> blocked_on s t" if "sched_inv s" "t \<in> active s" for s t
    using that queues_okD(4) [OF sched_inv_queues, of s t] sched_inv_running [of s "cur s"]
    by (auto simp: active_def blocked_on_def)
qed (fact is_blocking_law task_wakeup_law sched_other_law)+

subsection \<open>Wait queues\<close>

definition wait_queue_add :: "tid list \<Rightarrow> tid \<Rightarrow> tid list option" where
  "wait_queue_add q t = (if t \<in> set q then None else Some (q @ [t]))"

definition wait_queue_remove :: "tid list \<Rightarrow> tid \<Rightarrow> tid list" where
  "wait_queue_remove q t = remove1 t q"

definition wait_queue_wakeup :: "sched \<Rightarrow> tid list \<Rightarrow> (sched \<times> tid list) option" where
  "wait_queue_wakeup s q = (case q of [] \<Rightarrow> Some (s, [])
     | t # q \<Rightarrow> map_option (\<lambda>s. (s, q)) (task_wakeup s t))"

fun wait_queue_wakeup_all :: "sched \<Rightarrow> tid list \<Rightarrow> (sched \<times> tid list) option" where
  "wait_queue_wakeup_all s [] = Some (s, [])"
| "wait_queue_wakeup_all s (t # q) =
     (case task_wakeup s t of None \<Rightarrow> None | Some s \<Rightarrow> wait_queue_wakeup_all s q)"

lemma wait_queue_add_cur:
  assumes "sched_inv s" "room_ok (blocked_on s) q pend"
  shows "wait_queue_add q (cur s) = Some (q @ [cur s])"
  using bs.running_not_waiting [OF assms(1), of q] assms(2) by (simp add: wait_queue_add_def room_ok_def)

text \<open>A wakeup empties the first place of its room and leaves every other room alone.\<close>

lemma wait_queue_wakeup_room:
  assumes "sched_inv s" "room_ok (blocked_on s) q pend"
  obtains s' where "wait_queue_wakeup s q = Some (s', tl q)" "sched_inv s'" "cur s' = cur s"
    "room_ok (blocked_on s') (tl q) pend"
    "\<And>ws pend'. room_ok (blocked_on s) ws pend' \<Longrightarrow> set q \<inter> set ws = {} \<Longrightarrow> room_ok (blocked_on s') ws pend'"
proof (cases q)
  case Nil
  with assms that [of s] show ?thesis by (simp add: wait_queue_wakeup_def)
next
  case (Cons t ts)
  then have t: "blocked_on s t" using assms(2) by (simp add: room_ok_def waitlist_ok_def)
  from bs.wake_law [OF assms(1) this] obtain s' where s': "task_wakeup s t = Some s'" "sched_inv s'" "cur s' = cur s"
    by blast
  show ?thesis
  proof (rule that [of s'])
    show "wait_queue_wakeup s q = Some (s', tl q)" using Cons s' by (simp add: wait_queue_wakeup_def)
    show "room_ok (blocked_on s') (tl q) pend" using bs.room_wake_head [OF assms(1) s'(1)] assms(2) Cons by simp
    show "room_ok (blocked_on s') ws pend'" if "room_ok (blocked_on s) ws pend'" "set q \<inter> set ws = {}" for ws pend'
      using bs.room_wake [OF assms(1) s'(1) t _ that(1)] that(2) Cons by simp
  qed (use s' in simp_all)
qed

lemma wait_queue_wakeup_all_spec:
  assumes "sched_inv s" "waitlist_ok (blocked_on s) q"
  shows "\<exists>s'. wait_queue_wakeup_all s q = Some (s', []) \<and> sched_inv s' \<and> active s' = active s \<union> set q \<and>
    cur s' = cur s \<and> (\<forall>t. blocked_on s' t \<longleftrightarrow> blocked_on s t \<and> t \<notin> set q)"
  using assms
proof (induction q arbitrary: s)
  case (Cons t q)
  have "blocked_on s t" using Cons.prems(2) by (simp add: waitlist_ok_def)
  from bs.wake_law [OF Cons.prems(1) this] obtain s1 where s1: "task_wakeup s t = Some s1" "sched_inv s1"
      "cur s1 = cur s" "active s1 = insert t (active s)" "\<forall>u. blocked_on s1 u \<longleftrightarrow> blocked_on s u \<and> u \<noteq> t"
    by blast
  from bs.waitlist_wake_head(1) [OF Cons.prems s1(1)] have "waitlist_ok (blocked_on s1) q" .
  from Cons.IH [OF s1(2) this] s1 show ?case by auto
qed auto

subsection \<open>Mutexes\<close>

text \<open>
  A task is outside the lock code, blocked in or on its way through the loop of \<open>mutex_lock\<close>, the
  owner of the mutex, or in \<open>mutex_unlock\<close> between \<open>enable_intr\<close> and \<open>task_wakeup(t)\<close>.
\<close>

record mutexlock =
  mcount :: int
  mwait :: "tid list"
  waiters :: int

datatype mpc = Outside | Locking | Owner | Waking tid

record msys =
  msched :: sched
  mtx :: mutexlock
  mpc :: "tid \<Rightarrow> mpc"

definition mutexlock_init :: mutexlock where
  "mutexlock_init = \<lparr>mcount = 0, mwait = [], waiters = 0\<rparr>"

definition mutex_try_lock :: "mutexlock \<Rightarrow> int \<times> mutexlock" where
  "mutex_try_lock m = (mcount m, m\<lparr>mcount := 1\<rparr>)"

definition mutex_is_locked :: "mutexlock \<Rightarrow> bool" where
  "mutex_is_locked m \<longleftrightarrow> mcount m > 0"

text \<open>One round of the loop of \<open>mutex_lock\<close> by the current task.\<close>

definition mutex_lock :: "msys \<Rightarrow> msys option" where
  "mutex_lock k =
     (let t = cur (msched k); (old, m) = mutex_try_lock (mtx k)
      in if old = 0 then Some (k\<lparr>mtx := m, mpc := (mpc k)(t := Owner)\<rparr>)
         else map_option
           (\<lambda>s. k\<lparr>mtx := m\<lparr>waiters := waiters m + 1, mwait := mwait m @ [t]\<rparr>,
                  mpc := (mpc k)(t := Locking), msched := s\<rparr>)
           (task_block (msched k) TASK_BLOCKED))"

text \<open>\<open>mutex_unlock\<close> up to the point where it opens the interrupts, and its last line.\<close>

definition mutex_unlock :: "msys \<Rightarrow> msys option" where
  "mutex_unlock k =
     (let m = (mtx k)\<lparr>mcount := 0\<rparr>; u = cur (msched k)
      in if waiters m = 0 then Some (k\<lparr>mtx := m, mpc := (mpc k)(u := Outside)\<rparr>)
         else case mwait m of [] \<Rightarrow> None
           | t # ts \<Rightarrow> Some (k\<lparr>mtx := m\<lparr>mwait := ts, waiters := waiters m - 1\<rparr>,
               mpc := (mpc k)(u := Waking t)\<rparr>))"

definition mutex_unlock_wake :: "msys \<Rightarrow> tid \<Rightarrow> msys option" where
  "mutex_unlock_wake k t = map_option
     (\<lambda>s. k\<lparr>msched := s, mpc := (mpc k)(cur (msched k) := Outside)\<rparr>) (task_wakeup (msched k) t)"

text \<open>
  The steps of a system whose tasks use the mutex as it is meant: who locks it is outside or woken in
  the loop, who unlocks it is the owner. The rest of the kernel may switch tasks at any time, may block
  a task that is not in the lock code, and may wake any task but those that wait for the mutex.
\<close>

inductive mutex_step :: "msys \<Rightarrow> msys \<Rightarrow> bool" where
  lock: "mpc k (cur (msched k)) \<in> {Outside, Locking} \<Longrightarrow> mutex_lock k = Some k' \<Longrightarrow> mutex_step k k'"
| unlock: "mpc k (cur (msched k)) = Owner \<Longrightarrow> mutex_unlock k = Some k' \<Longrightarrow> mutex_step k k'"
| wake: "mpc k (cur (msched k)) = Waking t \<Longrightarrow> mutex_unlock_wake k t = Some k' \<Longrightarrow> mutex_step k k'"
| other: "sched_other (msched k) s \<Longrightarrow> mutex_step k (k\<lparr>msched := s\<rparr>)"
| sleep: "mpc k (cur (msched k)) \<in> {Outside, Owner} \<Longrightarrow> task_block (msched k) TASK_BLOCKED = Some s \<Longrightarrow>
    mutex_step k (k\<lparr>msched := s\<rparr>)"
| wakeup: "mpc k t \<in> {Outside, Owner} \<Longrightarrow> blocked_on (msched k) t \<Longrightarrow> task_wakeup (msched k) t = Some s \<Longrightarrow>
    mutex_step k (k\<lparr>msched := s\<rparr>)"

inductive mutex_reachable :: "msys \<Rightarrow> bool" where
  init: "sched_inv s \<Longrightarrow> mutex_reachable \<lparr>msched = s, mtx = mutexlock_init, mpc = (\<lambda>_. Outside)\<rparr>"
| step: "mutex_reachable k \<Longrightarrow> mutex_step k k' \<Longrightarrow> mutex_reachable k'"

inductive_cases mutex_stepE: "mutex_step k k'"

text \<open>
  The invariant: the counter agrees with the list, everyone in the list is blocked in \<open>mutex_lock\<close>,
  a task between the two halves of an unlock holds on to one blocked task of its own, at most one
  task owns the mutex, and it is locked exactly when somebody does.
\<close>

definition mutex_shape :: "msys \<Rightarrow> bool" where
  "mutex_shape k \<longleftrightarrow> sched_inv (msched k) \<and> waiters (mtx k) = int (length (mwait (mtx k))) \<and>
     waitlist_ok (blocked_on (msched k)) (mwait (mtx k)) \<and>
     (\<forall>t \<in> set (mwait (mtx k)). mpc k t = Locking) \<and>
     (\<forall>u t. mpc k u = Waking t \<longrightarrow> t \<notin> set (mwait (mtx k)) \<and> blocked_on (msched k) t \<and>
        mpc k t = Locking \<and> u \<in> active (msched k) \<and> (\<forall>v. mpc k v = Waking t \<longrightarrow> v = u))"

definition mutex_owned :: "msys \<Rightarrow> bool" where
  "mutex_owned k \<longleftrightarrow> mcount (mtx k) \<in> {0, 1} \<and> (mcount (mtx k) = 1 \<longleftrightarrow> (\<exists>t. mpc k t = Owner)) \<and>
     (\<forall>t u. mpc k t = Owner \<and> mpc k u = Owner \<longrightarrow> t = u)"

text \<open>If the mutex is free while tasks wait, one of them is on its way to it.\<close>

definition mutex_handover :: "msys \<Rightarrow> bool" where
  "mutex_handover k \<longleftrightarrow> (mcount (mtx k) = 0 \<and> mwait (mtx k) \<noteq> [] \<longrightarrow>
     (\<exists>t \<in> active (msched k). mpc k t = Locking \<or> (\<exists>u. mpc k t = Waking u)))"

definition mutex_inv :: "msys \<Rightarrow> bool" where
  "mutex_inv k \<longleftrightarrow> mutex_shape k \<and> mutex_owned k \<and> mutex_handover k"

lemma mutex_shapeI:
  assumes "sched_inv (msched k)" "waiters (mtx k) = int (length (mwait (mtx k)))"
    and "waitlist_ok (blocked_on (msched k)) (mwait (mtx k))"
    and "\<And>t. t \<in> set (mwait (mtx k)) \<Longrightarrow> mpc k t = Locking"
    and "\<And>u t. mpc k u = Waking t \<Longrightarrow> t \<notin> set (mwait (mtx k))"
    and "\<And>u t. mpc k u = Waking t \<Longrightarrow> blocked_on (msched k) t"
    and "\<And>u t. mpc k u = Waking t \<Longrightarrow> mpc k t = Locking"
    and "\<And>u t. mpc k u = Waking t \<Longrightarrow> u \<in> active (msched k)"
    and "\<And>u v t. mpc k u = Waking t \<Longrightarrow> mpc k v = Waking t \<Longrightarrow> v = u"
  shows "mutex_shape k"
  unfolding mutex_shape_def using assms by blast

lemma mutex_shapeD:
  assumes "mutex_shape k"
  shows "sched_inv (msched k)" "waiters (mtx k) = int (length (mwait (mtx k)))"
    and "waitlist_ok (blocked_on (msched k)) (mwait (mtx k))"
    and "t \<in> set (mwait (mtx k)) \<Longrightarrow> mpc k t = Locking"
    and "mpc k u = Waking t \<Longrightarrow> t \<notin> set (mwait (mtx k))"
    and "mpc k u = Waking t \<Longrightarrow> blocked_on (msched k) t"
    and "mpc k u = Waking t \<Longrightarrow> mpc k t = Locking"
    and "mpc k u = Waking t \<Longrightarrow> u \<in> active (msched k)"
    and "mpc k u = Waking t \<Longrightarrow> mpc k v = Waking t \<Longrightarrow> v = u"
  using assms unfolding mutex_shape_def by blast+

lemma mutex_cur:
  assumes "mutex_shape k"
  shows "cur (msched k) \<notin> set (mwait (mtx k))" "mpc k u \<noteq> Waking (cur (msched k))"
    "cur (msched k) \<in> active (msched k)"
proof -
  note D = mutex_shapeD [OF assms]
  show "cur (msched k) \<notin> set (mwait (mtx k))" by (rule bs.running_not_waiting [OF D(1,3)])
  show act: "cur (msched k) \<in> active (msched k)" by (rule bs.running_runnable [OF D(1)])
  show "mpc k u \<noteq> Waking (cur (msched k))" using D(6) [of u] bs.runnable_awake [OF D(1) act] by blast
qed

lemma mutex_owned_cong:
  assumes "mutex_owned k" "mcount (mtx k') = mcount (mtx k)" "\<And>t. mpc k' t = Owner \<longleftrightarrow> mpc k t = Owner"
  shows "mutex_owned k'"
  using assms(1) unfolding mutex_owned_def assms(2,3) .

lemma mutex_inv_sched:
  assumes inv: "mutex_inv k" and s: "sched_inv s"
    and act: "\<And>t. mpc k t \<notin> {Outside, Owner} \<Longrightarrow> t \<in> active (msched k) \<Longrightarrow> t \<in> active s"
    and blk: "\<And>t. mpc k t \<notin> {Outside, Owner} \<Longrightarrow> blocked_on (msched k) t \<Longrightarrow> blocked_on s t"
  shows "mutex_inv (k\<lparr>msched := s\<rparr>)"
proof -
  have "mutex_shape k" using inv by (simp add: mutex_inv_def)
  note D = mutex_shapeD [OF this]
  have "mutex_shape (k\<lparr>msched := s\<rparr>)"
  proof (rule mutex_shapeI)
    show "waitlist_ok (blocked_on (msched (k\<lparr>msched := s\<rparr>))) (mwait (mtx (k\<lparr>msched := s\<rparr>)))"
      using D(3,4) blk by (simp add: waitlist_ok_def)
    fix u t assume "mpc (k\<lparr>msched := s\<rparr>) u = Waking t"
    then have u: "mpc k u = Waking t" by simp
    show "blocked_on (msched (k\<lparr>msched := s\<rparr>)) t" using D(6,7) [OF u] blk by simp
    show "u \<in> active (msched (k\<lparr>msched := s\<rparr>))" using D(8) [OF u] act [of u] u by simp
    show "t \<notin> set (mwait (mtx (k\<lparr>msched := s\<rparr>)))" "mpc (k\<lparr>msched := s\<rparr>) t = Locking"
      using D(5,7) [OF u] by simp_all
    fix v assume "mpc (k\<lparr>msched := s\<rparr>) v = Waking t"
    then show "v = u" using D(9) [OF u, of v] by simp
  qed (use D(2,4) s in simp_all)
  moreover have "mutex_handover (k\<lparr>msched := s\<rparr>)"
    using inv act unfolding mutex_inv_def mutex_handover_def
    by simp (metis mpc.distinct(1) mpc.distinct(3) mpc.distinct(5) mpc.distinct(7) mpc.distinct(9) mpc.distinct(11))
  moreover have "mutex_owned (k\<lparr>msched := s\<rparr>)"
    by (rule mutex_owned_cong [of k]) (use inv in \<open>simp_all add: mutex_inv_def\<close>)
  ultimately show ?thesis by (simp add: mutex_inv_def)
qed

lemma mutex_lock_inv:
  assumes inv: "mutex_inv k" and pc: "mpc k (cur (msched k)) \<in> {Outside, Locking}" and "mutex_lock k = Some k'"
  shows "mutex_inv k'"
proof -
  let ?t = "cur (msched k)"
  have shape: "mutex_shape k" using inv by (simp add: mutex_inv_def)
  note C = mutex_cur [OF shape] and D = mutex_shapeD [OF shape]
  show ?thesis
  proof (cases "mcount (mtx k) = 0")
    case True
    with assms(3) have k': "k' = k\<lparr>mtx := (mtx k)\<lparr>mcount := 1\<rparr>, mpc := (mpc k)(?t := Owner)\<rparr>"
      by (simp add: mutex_lock_def mutex_try_lock_def)
    have waking: "mpc k' u = Waking v \<Longrightarrow> mpc k u = Waking v \<and> v \<noteq> ?t" for u v
      using C(2) [of u] by (auto simp: k' split: if_splits)
    have "mutex_shape k'"
    proof (rule mutex_shapeI)
      fix u v assume "mpc k' u = Waking v"
      note w = waking [OF this]
      show "v \<notin> set (mwait (mtx k'))" "blocked_on (msched k') v" "mpc k' v = Locking" "u \<in> active (msched k')"
        using w D(5-8) [of u v] by (simp_all add: k')
      show "mpc k' x = Waking v \<Longrightarrow> x = u" for x using w waking D(9) by blast
    next
      show "t \<in> set (mwait (mtx k')) \<Longrightarrow> mpc k' t = Locking" for t using D(4) [of t] C(1) by (auto simp: k')
    qed (use D(1-3) in \<open>simp_all add: k'\<close>)
    moreover have "mutex_owned k'" using inv True by (simp add: k' mutex_inv_def mutex_owned_def)
    ultimately show ?thesis by (simp add: mutex_inv_def k' mutex_handover_def)
  next
    case False
    then have one: "mcount (mtx k) = 1" using inv by (simp add: mutex_inv_def mutex_owned_def)
    with False assms(3) obtain s where s: "is_blocking (msched k) = Some s"
      and k': "k' = k\<lparr>mtx := (mtx k)\<lparr>mcount := 1, waiters := waiters (mtx k) + 1, mwait := mwait (mtx k) @ [?t]\<rparr>,
        mpc := (mpc k)(?t := Locking), msched := s\<rparr>"
      by (auto simp: mutex_lock_def mutex_try_lock_def is_blocking_def Let_def)
    note B = bs.block_law [OF D(1) s] bs.waitlist_sleep [OF D(1,3) s]
    have waking: "mpc k' u = Waking v \<Longrightarrow> u \<noteq> ?t \<and> v \<noteq> ?t \<and> mpc k u = Waking v" for u v
      using C(2) [of u] by (auto simp: k' split: if_splits)
    have "mutex_shape k'"
    proof (rule mutex_shapeI)
      fix u v assume "mpc k' u = Waking v"
      note w = waking [OF this]
      show "v \<notin> set (mwait (mtx k'))" "blocked_on (msched k') v" "mpc k' v = Locking" "u \<in> active (msched k')"
        using w D(5-8) [of u v] B(1) by (simp_all add: k')
      show "mpc k' x = Waking v \<Longrightarrow> x = u" for x using w waking D(9) by blast
    next
      show "t \<in> set (mwait (mtx k')) \<Longrightarrow> mpc k' t = Locking" for t using D(4) [of t] by (auto simp: k')
    qed (use D(2) B in \<open>simp_all add: k'\<close>)
    moreover have "mutex_owned k'"
      by (rule mutex_owned_cong [of k]) (use inv pc one in \<open>auto simp: k' mutex_inv_def\<close>)
    ultimately show ?thesis using one by (simp add: mutex_inv_def k' mutex_handover_def)
  qed
qed

lemma mutex_unlock_inv:
  assumes inv: "mutex_inv k" and pc: "mpc k (cur (msched k)) = Owner" and "mutex_unlock k = Some k'"
  shows "mutex_inv k'"
proof -
  let ?c = "cur (msched k)"
  have shape: "mutex_shape k" using inv by (simp add: mutex_inv_def)
  note C = mutex_cur [OF shape] and D = mutex_shapeD [OF shape]
  have owner: "mpc k t = Owner \<Longrightarrow> t = ?c" for t
    using inv pc by (auto simp: mutex_inv_def mutex_owned_def)
  show ?thesis
  proof (cases "mwait (mtx k)")
    case Nil
    with assms(3) D(2) have k': "k' = k\<lparr>mtx := (mtx k)\<lparr>mcount := 0\<rparr>, mpc := (mpc k)(?c := Outside)\<rparr>"
      by (simp add: mutex_unlock_def Let_def)
    have waking: "mpc k' u = Waking v \<Longrightarrow> mpc k u = Waking v \<and> v \<noteq> ?c" for u v
      using C(2) [of u] by (auto simp: k' split: if_splits)
    have "mutex_shape k'"
    proof (rule mutex_shapeI)
      fix u v assume "mpc k' u = Waking v"
      note w = waking [OF this]
      show "v \<notin> set (mwait (mtx k'))" "blocked_on (msched k') v" "mpc k' v = Locking" "u \<in> active (msched k')"
        using w D(5-8) [of u v] by (simp_all add: k')
      show "mpc k' x = Waking v \<Longrightarrow> x = u" for x using w waking D(9) by blast
    qed (use D(1-3) Nil in \<open>simp_all add: k'\<close>)
    moreover have "mutex_owned k'" using owner by (auto simp: k' mutex_owned_def)
    ultimately show ?thesis using Nil by (simp add: mutex_inv_def k' mutex_handover_def)
  next
    case (Cons t ts)
    with assms(3) D(2) have k': "k' = k\<lparr>mtx := (mtx k)\<lparr>mcount := 0, mwait := ts, waiters := int (length ts)\<rparr>,
        mpc := (mpc k)(?c := Waking t)\<rparr>"
      by (auto simp: mutex_unlock_def Let_def)
    have t: "mpc k t = Locking" "blocked_on (msched k) t" "t \<notin> set ts" "t \<noteq> ?c" "mpc k u \<noteq> Waking t" for u
      using D(3) D(4) [of t] D(5) [of u t] C(1) Cons by (auto simp: waitlist_ok_def)
    have waking: "mpc k' u = Waking v \<Longrightarrow> u = ?c \<and> v = t \<or> u \<noteq> ?c \<and> v \<noteq> t \<and> v \<noteq> ?c \<and> mpc k u = Waking v" for u v
      using C(2) [of u] t(5) [of u] by (auto simp: k' split: if_splits)
    have "mutex_shape k'"
    proof (rule mutex_shapeI)
      show "waitlist_ok (blocked_on (msched k')) (mwait (mtx k'))"
        using D(3) Cons by (simp add: k' waitlist_ok_def)
      show "u \<in> set (mwait (mtx k')) \<Longrightarrow> mpc k' u = Locking" for u
        using D(4) [of u] C(1) Cons by (auto simp: k')
      fix u v assume "mpc k' u = Waking v"
      note w = waking [OF this]
      show "v \<notin> set (mwait (mtx k'))" "blocked_on (msched k') v" "mpc k' v = Locking" "u \<in> active (msched k')"
        using w t(1-4) C(3) D(5-8) [of u v] Cons by (auto simp: k')
      show "mpc k' x = Waking v \<Longrightarrow> x = u" for x using w waking [of x v] D(9) by blast
    qed (use D(1) in \<open>simp_all add: k'\<close>)
    moreover have "mutex_owned k'" using owner by (auto simp: k' mutex_owned_def)
    moreover have "mutex_handover k'" using C(3) by (auto simp: k' mutex_handover_def)
    ultimately show ?thesis by (simp add: mutex_inv_def)
  qed
qed

lemma mutex_wake_inv:
  assumes inv: "mutex_inv k" and pc: "mpc k (cur (msched k)) = Waking t" and "mutex_unlock_wake k t = Some k'"
  shows "mutex_inv k'"
proof -
  let ?c = "cur (msched k)"
  have shape: "mutex_shape k" using inv by (simp add: mutex_inv_def)
  note C = mutex_cur [OF shape] and D = mutex_shapeD [OF shape]
  from assms(3) obtain s where s: "task_wakeup (msched k) t = Some s"
    and k': "k' = k\<lparr>msched := s, mpc := (mpc k)(?c := Outside)\<rparr>"
    by (auto simp: mutex_unlock_wake_def)
  from bs.wake_law [OF D(1) D(6) [OF pc]] s have W: "sched_inv s" "active s = insert t (active (msched k))"
    "\<And>u. blocked_on s u \<longleftrightarrow> blocked_on (msched k) u \<and> u \<noteq> t" by auto
  have waking: "mpc k' u = Waking v \<Longrightarrow> u \<noteq> ?c \<and> v \<noteq> t \<and> v \<noteq> ?c \<and> mpc k u = Waking v" for u v
    using C(2) [of u] D(9) [OF pc, of u] by (auto simp: k' split: if_splits)
  have "t \<noteq> ?c" using C(2) [of ?c] pc by auto
  then have t: "mpc k' t = Locking" "t \<in> active (msched k')" using D(7) [OF pc] W(2) by (simp_all add: k')
  have "mutex_shape k'"
  proof (rule mutex_shapeI)
    show "waitlist_ok (blocked_on (msched k')) (mwait (mtx k'))"
      using D(3) D(5) [OF pc] W(3) by (auto simp: k' waitlist_ok_def)
    show "u \<in> set (mwait (mtx k')) \<Longrightarrow> mpc k' u = Locking" for u
      using D(4) [of u] C(1) by (auto simp: k')
    fix u v assume "mpc k' u = Waking v"
    note w = waking [OF this]
    show "v \<notin> set (mwait (mtx k'))" "blocked_on (msched k') v" "mpc k' v = Locking" "u \<in> active (msched k')"
      using w W D(5-8) [of u v] by (auto simp: k')
    show "mpc k' x = Waking v \<Longrightarrow> x = u" for x using w waking [of x v] D(9) by blast
  qed (use D(2) W in \<open>simp_all add: k'\<close>)
  moreover have "mutex_owned k'"
    by (rule mutex_owned_cong [of k]) (use inv pc in \<open>auto simp: k' mutex_inv_def\<close>)
  moreover have "mutex_handover k'" using t by (auto simp: mutex_handover_def)
  ultimately show ?thesis by (simp add: mutex_inv_def)
qed

lemma mutex_step_inv:
  assumes "mutex_inv k" "mutex_step k k'"
  shows "mutex_inv k'"
proof -
  have "mutex_shape k" using assms(1) by (simp add: mutex_inv_def)
  note D = mutex_shapeD [OF this]
  show ?thesis
    using assms(2)
  proof (cases rule: mutex_step.cases)
    case lock
    then show ?thesis using mutex_lock_inv [OF assms(1)] by blast
  next
    case unlock
    then show ?thesis using mutex_unlock_inv [OF assms(1)] by blast
  next
    case (wake t)
    then show ?thesis using mutex_wake_inv [OF assms(1)] by blast
  next
    case (other s)
    then show ?thesis using bs.other_law [OF D(1), of s] mutex_inv_sched [OF assms(1), of s] by simp
  next
    case (sleep s)
    then have "is_blocking (msched k) = Some s" by (simp add: is_blocking_def)
    from bs.block_law [OF D(1) this] sleep mutex_inv_sched [OF assms(1), of s] show ?thesis by auto
  next
    case (wakeup t s)
    from bs.wake_law [OF D(1) wakeup(3)] wakeup mutex_inv_sched [OF assms(1), of s] show ?thesis by auto
  qed
qed

lemma mutex_reachable_inv: "mutex_reachable k \<Longrightarrow> mutex_inv k"
proof (induction rule: mutex_reachable.induct)
  case (init s)
  then show ?case
    by (simp add: mutex_inv_def mutex_shape_def mutex_owned_def mutex_handover_def mutexlock_init_def waitlist_ok_def)
qed (rule mutex_step_inv)

text \<open>Task 0 owns the mutex of a small system and task 2 waits for it.\<close>

definition demo_mutex :: msys where
  "demo_mutex = \<lparr>msched = the (task_block (the (task_yeild demo_sched)) TASK_BLOCKED),
     mtx = \<lparr>mcount = 1, mwait = [2], waiters = 1\<rparr>, mpc = (\<lambda>_. Outside)(0 := Owner, 2 := Locking)\<rparr>"

lemma demo_mutex_reachable: "mutex_reachable demo_mutex"
proof -
  have inv: "sched_inv demo_sched" using reachable_inv [OF demo_reachable] by simp
  then obtain s1 where s1: "task_yeild demo_sched = Some s1" using yield_spec by blast
  have cur: "cur demo_sched = 0" "cur (the (task_yeild demo_sched)) = 2" by code_simp+
  have "task_block (the (task_yeild demo_sched)) TASK_BLOCKED \<noteq> None" by code_simp
  then obtain s2 where s2: "task_block s1 TASK_BLOCKED = Some s2" using s1 by auto
  let ?m = "\<lparr>mcount = 1, mwait = [], waiters = 0\<rparr>" and ?pc = "(\<lambda>_. Outside)(0 := Owner)"
  have "mutex_reachable \<lparr>msched = demo_sched, mtx = mutexlock_init, mpc = (\<lambda>_. Outside)\<rparr>"
    using inv by (rule mutex_reachable.init)
  then have "mutex_reachable \<lparr>msched = demo_sched, mtx = ?m, mpc = ?pc\<rparr>"
    by (rule mutex_reachable.step [OF _ mutex_step.lock])
      (simp_all add: mutex_lock_def mutex_try_lock_def mutexlock_init_def cur)
  then have "mutex_reachable (\<lparr>msched = demo_sched, mtx = ?m, mpc = ?pc\<rparr>\<lparr>msched := s1\<rparr>)"
    by (rule mutex_reachable.step [OF _ mutex_step.other]) (simp add: sched_other.yield s1)
  then have "mutex_reachable \<lparr>msched = s2, mtx = \<lparr>mcount = 1, mwait = [2], waiters = 1\<rparr>, mpc = ?pc(2 := Locking)\<rparr>"
    by (rule mutex_reachable.step [OF _ mutex_step.lock])
      (use cur s1 s2 in \<open>simp_all add: mutex_lock_def mutex_try_lock_def\<close>)
  then show ?thesis using s1 s2 by (simp add: demo_mutex_def)
qed

text \<open>
  C12. In every state a system of tasks using a mutex can reach, at most one task owns it, the mutex
  is locked exactly when somebody does, and the waiter counter agrees with the wait list, so that no
  unlock fails. No wakeup is lost: if the mutex is free while tasks wait, a task that can run is on
  its way to lock it, or is about to wake one.
\<close>

theorem mutex_exclusion:
  assumes "mutex_reachable k"
  shows "(\<forall>t u. mpc k t = Owner \<and> mpc k u = Owner \<longrightarrow> t = u) \<and>
    (mcount (mtx k) = 1 \<longleftrightarrow> (\<exists>t. mpc k t = Owner)) \<and> waiters (mtx k) = int (length (mwait (mtx k))) \<and>
    (mpc k (cur (msched k)) = Owner \<longrightarrow> mutex_unlock k \<noteq> None) \<and>
    (\<forall>t. mpc k (cur (msched k)) = Waking t \<longrightarrow> mutex_unlock_wake k t \<noteq> None) \<and>
    (mcount (mtx k) = 0 \<and> mwait (mtx k) \<noteq> [] \<longrightarrow>
      (\<exists>t \<in> active (msched k). mpc k t = Locking \<or> (\<exists>u. mpc k t = Waking u)))"
proof -
  have inv: "mutex_inv k" by (rule mutex_reachable_inv [OF assms])
  then have "mutex_shape k" by (simp add: mutex_inv_def)
  note D = mutex_shapeD [OF this]
  have "mutex_unlock k \<noteq> None" using D(2) by (auto simp: mutex_unlock_def Let_def split: list.splits)
  moreover have "mpc k (cur (msched k)) = Waking t \<Longrightarrow> mutex_unlock_wake k t \<noteq> None" for t
    using bs.wake_law [OF D(1) D(6), of "cur (msched k)" t] by (auto simp: mutex_unlock_wake_def)
  ultimately show ?thesis using inv D(2) unfolding mutex_inv_def mutex_owned_def mutex_handover_def by blast
qed

theorem mutex_exclusion_witness:
  "waiters (mtx demo_mutex) = 1 \<and> mpc demo_mutex 0 = Owner \<and> mcount (mtx demo_mutex) = 1"
  using mutex_exclusion [OF demo_mutex_reachable] by (auto simp: demo_mutex_def)

end
