(* ===== verification/Semaphore.thy ===== *)
theory Semaphore
  imports Sync
begin

section \<open>Semaphores and sync locks\<close>

text \<open>
  \<open>src/src/include/xbook/semaphore.h\<close> and \<open>src/src/include/xbook/synclock.h\<close>. Every semaphore
  function runs with interrupts off up to the point where it puts the task to sleep, and is one
  function here; a task that \<open>semaphore_down\<close> has put to sleep returns from it as soon as it runs
  again. The functions of the sync lock keep the interrupts on; each is cut at its call of the
  semaphore. The nesting counter \<open>reapt_count\<close> is a natural number: nesting a lock \<open>2 ^ 32\<close> times is
  left out.
\<close>

record semaphore =
  counter :: int
  swait :: "tid list"

definition semaphore_init :: "int \<Rightarrow> semaphore" where
  "semaphore_init value = \<lparr>counter = value, swait = []\<rparr>"

definition semaphore_destroy :: "sched \<Rightarrow> semaphore \<Rightarrow> (sched \<times> semaphore) option" where
  "semaphore_destroy s sema =
     (if counter sema > 0
      then map_option (\<lambda>(s, q). (s, sema\<lparr>swait := q, counter := 0\<rparr>)) (wait_queue_wakeup_all s (swait sema))
      else Some (s, sema\<lparr>counter := 0\<rparr>))"

text \<open>The first component of the result tells whether the task was put to sleep.\<close>

definition semaphore_down :: "sched \<Rightarrow> semaphore \<Rightarrow> (bool \<times> sched \<times> semaphore) option" where
  "semaphore_down s sema =
     (if counter sema > 0 then Some (False, s, sema\<lparr>counter := counter sema - 1\<rparr>)
      else map_option (\<lambda>s'. (True, s', sema\<lparr>swait := swait sema @ [cur s]\<rparr>)) (task_block s TASK_BLOCKED))"

definition semaphore_try_down :: "semaphore \<Rightarrow> int \<times> semaphore" where
  "semaphore_try_down sema =
     (if counter sema > 0 then (0, sema\<lparr>counter := counter sema - 1\<rparr>) else (-1, sema))"

definition semaphore_wake_first :: "sched \<Rightarrow> semaphore \<Rightarrow> (sched \<times> semaphore) option" where
  "semaphore_wake_first s sema =
     (case swait sema of [] \<Rightarrow> None
      | t # ts \<Rightarrow> map_option (\<lambda>s. (s, sema\<lparr>swait := ts\<rparr>))
          (task_priority_queue_add_head (upd_task t (\<lambda>k. k\<lparr>state := TASK_READY\<rparr>) s) t))"

definition semaphore_up :: "sched \<Rightarrow> semaphore \<Rightarrow> (sched \<times> semaphore) option" where
  "semaphore_up s sema =
     (if swait sema = [] then Some (s, sema\<lparr>counter := counter sema + 1\<rparr>) else semaphore_wake_first s sema)"

text \<open>
  The waiting loop of \<open>semaphore_down_timeout\<close>: \<open>obs\<close> are the successive values of the clock, with
  the semaphore as the task finds it after each reading. \<open>clock_t\<close> is unsigned. \<open>None\<close>: still looping.
\<close>

fun down_timeout_loop :: "u32 \<Rightarrow> u32 \<Rightarrow> (u32 \<times> semaphore) list \<Rightarrow> (int \<times> semaphore option) option" where
  "down_timeout_loop start t obs =
     (if t > 0 then case obs of [] \<Rightarrow> None
        | (now, sema) # obs \<Rightarrow>
            let (start', t') = (if now > start then (now, t - (now - start)) else (start, t))
            in case semaphore_try_down sema of (r, sema') \<Rightarrow>
                 if r = 0 then Some (0, Some sema') else down_timeout_loop start' t' obs
      else Some (-1, None))"

declare down_timeout_loop.simps [simp del]

text \<open>
  A clock step longer than the rest of the timeout makes the unsigned rest wrap around: with 5 ticks
  left and a reading 7 ticks later, the loop goes on.
\<close>

lemma timeout_missed:
  assumes "counter m \<le> 0"
  shows "down_timeout_loop 0 5 ((7, m) # obs) = down_timeout_loop 7 (- 2) obs"
  using assms by (subst down_timeout_loop.simps) (simp add: semaphore_try_down_def)

subsection \<open>Tasks that use a semaphore as a lock of \<open>n\<close> units\<close>

datatype spc = Idle | Waiting | Holding

record ssys =
  ssched :: sched
  sem :: semaphore
  spc :: "tid \<Rightarrow> spc"

definition sem_down :: "ssys \<Rightarrow> ssys option" where
  "sem_down k = map_option
     (\<lambda>(b, s, m). k\<lparr>ssched := s, sem := m, spc := (spc k)(cur (ssched k) := if b then Waiting else Holding)\<rparr>)
     (semaphore_down (ssched k) (sem k))"

definition sem_resume :: "ssys \<Rightarrow> ssys" where
  "sem_resume k = k\<lparr>spc := (spc k)(cur (ssched k) := Holding)\<rparr>"

definition sem_up :: "ssys \<Rightarrow> ssys option" where
  "sem_up k = map_option
     (\<lambda>(s, m). k\<lparr>ssched := s, sem := m, spc := (spc k)(cur (ssched k) := Idle)\<rparr>)
     (semaphore_up (ssched k) (sem k))"

inductive sem_step :: "ssys \<Rightarrow> ssys \<Rightarrow> bool" where
  down: "spc k (cur (ssched k)) = Idle \<Longrightarrow> sem_down k = Some k' \<Longrightarrow> sem_step k k'"
| resume: "spc k (cur (ssched k)) = Waiting \<Longrightarrow> sem_step k (sem_resume k)"
| up: "spc k (cur (ssched k)) = Holding \<Longrightarrow> sem_up k = Some k' \<Longrightarrow> sem_step k k'"
| other: "sched_other (ssched k) s \<Longrightarrow> sem_step k (k\<lparr>ssched := s\<rparr>)"
| sleep: "spc k (cur (ssched k)) \<noteq> Waiting \<Longrightarrow> task_block (ssched k) TASK_BLOCKED = Some s \<Longrightarrow>
    sem_step k (k\<lparr>ssched := s\<rparr>)"
| wakeup: "spc k t \<noteq> Waiting \<Longrightarrow> blocked_on (ssched k) t \<Longrightarrow> task_wakeup (ssched k) t = Some s \<Longrightarrow>
    sem_step k (k\<lparr>ssched := s\<rparr>)"

inductive sem_reachable :: "nat \<Rightarrow> ssys \<Rightarrow> bool" for n where
  init: "sched_inv s \<Longrightarrow> sem_reachable n \<lparr>ssched = s, sem = semaphore_init (int n), spc = (\<lambda>_. Idle)\<rparr>"
| step: "sem_reachable n k \<Longrightarrow> sem_step k k' \<Longrightarrow> sem_reachable n k'"

text \<open>The tasks that have a unit: those that hold it, and those woken to take it.\<close>

definition granted :: "ssys \<Rightarrow> tid set" where
  "granted k = {t. spc k t = Holding \<or> spc k t = Waiting \<and> t \<notin> set (swait (sem k))}"

definition sem_inv :: "nat \<Rightarrow> ssys \<Rightarrow> bool" where
  "sem_inv n k \<longleftrightarrow> sched_inv (ssched k) \<and> waitlist_ok (blocked_on (ssched k)) (swait (sem k)) \<and>
     (\<forall>t \<in> set (swait (sem k)). spc k t = Waiting) \<and>
     (\<forall>t. spc k t = Waiting \<and> t \<notin> set (swait (sem k)) \<longrightarrow> t \<in> active (ssched k)) \<and>
     0 \<le> counter (sem k) \<and> (counter (sem k) > 0 \<longrightarrow> swait (sem k) = []) \<and>
     finite (granted k) \<and> int (card (granted k)) + counter (sem k) = int n"

lemma sem_invI:
  assumes "sched_inv (ssched k)" "waitlist_ok (blocked_on (ssched k)) (swait (sem k))"
    and "\<And>t. t \<in> set (swait (sem k)) \<Longrightarrow> spc k t = Waiting"
    and "\<And>t. spc k t = Waiting \<Longrightarrow> t \<notin> set (swait (sem k)) \<Longrightarrow> t \<in> active (ssched k)"
    and "0 \<le> counter (sem k)" "counter (sem k) > 0 \<Longrightarrow> swait (sem k) = []"
    and "finite (granted k)" "int (card (granted k)) + counter (sem k) = int n"
  shows "sem_inv n k"
  using assms unfolding sem_inv_def by blast

lemma sem_invD:
  assumes "sem_inv n k"
  shows "sched_inv (ssched k)" "waitlist_ok (blocked_on (ssched k)) (swait (sem k))"
    and "t \<in> set (swait (sem k)) \<Longrightarrow> spc k t = Waiting"
    and "spc k t = Waiting \<Longrightarrow> t \<notin> set (swait (sem k)) \<Longrightarrow> t \<in> active (ssched k)"
    and "0 \<le> counter (sem k)" "counter (sem k) > 0 \<Longrightarrow> swait (sem k) = []"
    and "finite (granted k)" "int (card (granted k)) + counter (sem k) = int n"
    and "cur (ssched k) \<notin> set (swait (sem k))" "cur (ssched k) \<in> active (ssched k)"
proof -
  show 1: "sched_inv (ssched k)" and 2: "waitlist_ok (blocked_on (ssched k)) (swait (sem k))"
    using assms by (simp_all add: sem_inv_def)
  show "cur (ssched k) \<notin> set (swait (sem k))" by (rule bs.running_not_waiting [OF 1 2])
  show "cur (ssched k) \<in> active (ssched k)" by (rule bs.running_runnable [OF 1])
qed (use assms in \<open>auto simp: sem_inv_def\<close>)

text \<open>On a blocked task, the wakeup of \<open>semaphore_up\<close> is \<open>task_wakeup\<close>.\<close>

lemma wake_first_is_wakeup:
  assumes "sched_inv s" "blocked_on s t"
  shows "task_priority_queue_add_head (upd_task t (\<lambda>k. k\<lparr>state := TASK_READY\<rparr>) s) t = task_wakeup s t"
proof -
  have "t \<notin> set (queue s p)" for p
    using queues_okD(4) [OF sched_inv_queues [OF assms(1)], of t p] assms(2) by (auto simp: blocked_on_def)
  then show ?thesis
    using assms(2)
    by (simp add: task_wakeup_def task_unblock_def blocked_on_def is_task_in_priority_queue_def)
qed

lemma sem_inv_sched:
  assumes inv: "sem_inv n k" and s: "sched_inv s"
    and act: "\<And>t. spc k t = Waiting \<Longrightarrow> t \<in> active (ssched k) \<Longrightarrow> t \<in> active s"
    and blk: "\<And>t. spc k t = Waiting \<Longrightarrow> blocked_on (ssched k) t \<Longrightarrow> blocked_on s t"
  shows "sem_inv n (k\<lparr>ssched := s\<rparr>)"
proof (rule sem_invI)
  note D = sem_invD [OF inv]
  show "waitlist_ok (blocked_on (ssched (k\<lparr>ssched := s\<rparr>))) (swait (sem (k\<lparr>ssched := s\<rparr>)))"
    using D(2,3) blk by (simp add: waitlist_ok_def)
  show "spc (k\<lparr>ssched := s\<rparr>) t = Waiting \<Longrightarrow> t \<notin> set (swait (sem (k\<lparr>ssched := s\<rparr>))) \<Longrightarrow>
      t \<in> active (ssched (k\<lparr>ssched := s\<rparr>))" for t
    using D(4) [of t] act by simp
qed (use sem_invD [OF inv] s in \<open>simp_all add: granted_def\<close>)

lemma sem_down_inv:
  assumes inv: "sem_inv n k" and pc: "spc k (cur (ssched k)) = Idle" and "sem_down k = Some k'"
  shows "sem_inv n k'"
proof -
  let ?c = "cur (ssched k)"
  note D = sem_invD [OF inv]
  have new: "?c \<notin> granted k" using pc by (simp add: granted_def)
  show ?thesis
  proof (cases "counter (sem k) > 0")
    case True
    with assms(3) have k': "k' = k\<lparr>sem := (sem k)\<lparr>counter := counter (sem k) - 1\<rparr>, spc := (spc k)(?c := Holding)\<rparr>"
      by (simp add: sem_down_def semaphore_down_def)
    have "granted k' = insert ?c (granted k)" by (auto simp: k' granted_def)
    moreover have "swait (sem k) = []" using D(6) True by simp
    ultimately show ?thesis
      using D True new by (intro sem_invI) (auto simp: k' split: if_splits)
  next
    case False
    with assms(3) obtain s where s: "is_blocking (ssched k) = Some s"
      and k': "k' = k\<lparr>ssched := s, sem := (sem k)\<lparr>swait := swait (sem k) @ [?c]\<rparr>, spc := (spc k)(?c := Waiting)\<rparr>"
      by (auto simp: sem_down_def semaphore_down_def is_blocking_def)
    note B = bs.block_law [OF D(1) s] bs.waitlist_sleep [OF D(1,2) s]
    have "granted k' = granted k" using pc by (auto simp: k' granted_def)
    then show ?thesis
      using D(3-8) B False by (intro sem_invI) (auto simp: k' split: if_splits)
  qed
qed

lemma sem_resume_inv:
  assumes inv: "sem_inv n k" and pc: "spc k (cur (ssched k)) = Waiting"
  shows "sem_inv n (sem_resume k)"
proof -
  note D = sem_invD [OF inv]
  have "granted (sem_resume k) = granted k" using pc D(9) by (auto simp: sem_resume_def granted_def)
  with D show ?thesis by (intro sem_invI) (auto simp: sem_resume_def split: if_splits)
qed

lemma semaphore_up_wake:
  assumes inv: "sched_inv s" and w: "waitlist_ok (blocked_on s) (swait m)" "swait m = t # ts"
  shows "\<exists>s'. semaphore_up s m = Some (s', m\<lparr>swait := ts\<rparr>) \<and> sched_inv s' \<and> cur s' = cur s \<and>
    active s' = insert t (active s) \<and> (\<forall>u. blocked_on s' u \<longleftrightarrow> blocked_on s u \<and> u \<noteq> t)"
proof -
  have "blocked_on s t" using w by (simp add: waitlist_ok_def)
  from bs.wake_law [OF inv this] wake_first_is_wakeup [OF inv this] w(2) show ?thesis
    by (auto simp: semaphore_up_def semaphore_wake_first_def)
qed

lemma sem_up_inv:
  assumes inv: "sem_inv n k" and pc: "spc k (cur (ssched k)) = Holding" and up: "sem_up k = Some k'"
  shows "sem_inv n k'"
proof -
  let ?c = "cur (ssched k)"
  note D = sem_invD [OF inv]
  have old: "?c \<in> granted k" using pc by (simp add: granted_def)
  then have card: "card (granted k) = Suc (card (granted k - {?c}))" using D(7) by (metis card_Suc_Diff1)
  show ?thesis
  proof (cases "swait (sem k)")
    case Nil
    with up have k': "k' = k\<lparr>sem := (sem k)\<lparr>counter := counter (sem k) + 1\<rparr>, spc := (spc k)(?c := Idle)\<rparr>"
      by (simp add: sem_up_def semaphore_up_def)
    have "granted k' = granted k - {?c}" by (auto simp: k' granted_def)
    with D Nil card show ?thesis by (intro sem_invI) (auto simp: k' split: if_splits)
  next
    case (Cons t ts)
    from semaphore_up_wake [OF D(1,2) Cons] up obtain s where
      k': "k' = k\<lparr>ssched := s, sem := (sem k)\<lparr>swait := ts\<rparr>, spc := (spc k)(?c := Idle)\<rparr>"
      and s: "sched_inv s" "active s = insert t (active (ssched k))"
        "\<And>u. blocked_on s u \<longleftrightarrow> blocked_on (ssched k) u \<and> u \<noteq> t"
      by (auto simp: sem_up_def)
    have t: "spc k t = Waiting" "t \<notin> set ts" "t \<noteq> ?c" "t \<notin> granted k"
      using D(2) D(3) [of t] Cons pc by (auto simp: waitlist_ok_def granted_def)
    have "granted k' = insert t (granted k - {?c})" using t Cons pc by (auto simp: k' granted_def)
    then have g: "finite (granted k')" "card (granted k') = card (granted k)"
      using D(7) t(4) card by simp_all
    have ts: "u \<in> set ts \<Longrightarrow> spc k u = Waiting \<and> u \<noteq> ?c" for u using D(3) [of u] D(9) Cons by auto
    have act: "spc k u = Waiting \<Longrightarrow> u \<notin> set ts \<Longrightarrow> u \<in> active s" for u
      using D(4) [of u] s(2) Cons by auto
    show ?thesis
      using D(2,5,6,8) s ts act g Cons t(2) by (intro sem_invI) (auto simp: k' waitlist_ok_def split: if_splits)
  qed
qed

lemma sem_step_inv:
  assumes inv: "sem_inv n k" and "sem_step k k'"
  shows "sem_inv n k'"
  using assms(2)
proof (cases rule: sem_step.cases)
  case down
  then show ?thesis using sem_down_inv [OF inv] by blast
next
  case resume
  then show ?thesis using sem_resume_inv [OF inv] by blast
next
  case up
  then show ?thesis using sem_up_inv [OF inv] by blast
next
  case (other s)
  then show ?thesis using bs.other_law [OF sem_invD(1) [OF inv], of s] sem_inv_sched [OF inv, of s] by simp
next
  case (sleep s)
  then have "is_blocking (ssched k) = Some s" by (simp add: is_blocking_def)
  from bs.block_law [OF sem_invD(1) [OF inv] this] sleep sem_inv_sched [OF inv, of s] show ?thesis by auto
next
  case (wakeup t s)
  from bs.wake_law [OF sem_invD(1) [OF inv] wakeup(3)] wakeup sem_inv_sched [OF inv, of s] show ?thesis by auto
qed

lemma sem_reachable_inv: "sem_reachable n k \<Longrightarrow> sem_inv n k"
proof (induction rule: sem_reachable.induct)
  case (init s)
  then show ?case by (intro sem_invI) (simp_all add: semaphore_init_def waitlist_ok_def granted_def)
qed (rule sem_step_inv)

subsection \<open>Sync locks\<close>

text \<open>
  A task is outside, blocked in the \<open>semaphore_down\<close> of \<open>sync_lock\<close>, back from it, the holder, or in
  \<open>sync_unlock\<close> before its \<open>semaphore_up\<close>. The functions follow the code to the next such point.
\<close>

record synclock =
  holder :: "tid option"
  ysem :: semaphore
  reapt_count :: nat

datatype ypc = Free | Blocked | Acquired | Held | Releasing

record ysys =
  ysched :: sched
  lock :: synclock
  ypc :: "tid \<Rightarrow> ypc"

definition synclock_init :: synclock where
  "synclock_init = \<lparr>holder = None, ysem = semaphore_init 1, reapt_count = 0\<rparr>"

definition sync_lock :: "ysys \<Rightarrow> ysys option" where
  "sync_lock k =
     (let t = cur (ysched k)
      in if holder (lock k) \<noteq> Some t
         then map_option (\<lambda>(b, s, m). k\<lparr>ysched := s, lock := (lock k)\<lparr>ysem := m\<rparr>,
                ypc := (ypc k)(t := if b then Blocked else Acquired)\<rparr>)
                (semaphore_down (ysched k) (ysem (lock k)))
         else Some (k\<lparr>lock := (lock k)\<lparr>reapt_count := reapt_count (lock k) + 1\<rparr>\<rparr>))"

definition sync_lock_woken :: "ysys \<Rightarrow> ysys" where
  "sync_lock_woken k = k\<lparr>ypc := (ypc k)(cur (ysched k) := Acquired)\<rparr>"

definition sync_lock_acquired :: "ysys \<Rightarrow> ysys option" where
  "sync_lock_acquired k =
     (let t = cur (ysched k)
      in if reapt_count (lock k) \<noteq> 0 then None
         else Some (k\<lparr>lock := (lock k)\<lparr>holder := Some t, reapt_count := 1\<rparr>, ypc := (ypc k)(t := Held)\<rparr>))"

definition sync_unlock :: "ysys \<Rightarrow> ysys option" where
  "sync_unlock k =
     (let t = cur (ysched k); l = lock k
      in if holder l \<noteq> Some t then None
         else if reapt_count l > 1 then Some (k\<lparr>lock := l\<lparr>reapt_count := reapt_count l - 1\<rparr>\<rparr>)
         else if reapt_count l \<noteq> 1 then None
         else Some (k\<lparr>lock := l\<lparr>holder := None, reapt_count := 0\<rparr>, ypc := (ypc k)(t := Releasing)\<rparr>))"

definition sync_unlock_up :: "ysys \<Rightarrow> ysys option" where
  "sync_unlock_up k = map_option
     (\<lambda>(s, m). k\<lparr>ysched := s, lock := (lock k)\<lparr>ysem := m\<rparr>, ypc := (ypc k)(cur (ysched k) := Free)\<rparr>)
     (semaphore_up (ysched k) (ysem (lock k)))"

inductive sync_step :: "ysys \<Rightarrow> ysys \<Rightarrow> bool" where
  lock: "ypc k (cur (ysched k)) \<in> {Free, Held} \<Longrightarrow> sync_lock k = Some k' \<Longrightarrow> sync_step k k'"
| woken: "ypc k (cur (ysched k)) = Blocked \<Longrightarrow> sync_step k (sync_lock_woken k)"
| acquired: "ypc k (cur (ysched k)) = Acquired \<Longrightarrow> sync_lock_acquired k = Some k' \<Longrightarrow> sync_step k k'"
| unlock: "ypc k (cur (ysched k)) = Held \<Longrightarrow> sync_unlock k = Some k' \<Longrightarrow> sync_step k k'"
| unlock_up: "ypc k (cur (ysched k)) = Releasing \<Longrightarrow> sync_unlock_up k = Some k' \<Longrightarrow> sync_step k k'"
| other: "sched_other (ysched k) s \<Longrightarrow> sync_step k (k\<lparr>ysched := s\<rparr>)"
| sleep: "ypc k (cur (ysched k)) \<noteq> Blocked \<Longrightarrow> task_block (ysched k) TASK_BLOCKED = Some s \<Longrightarrow>
    sync_step k (k\<lparr>ysched := s\<rparr>)"
| wakeup: "ypc k t \<noteq> Blocked \<Longrightarrow> blocked_on (ysched k) t \<Longrightarrow> task_wakeup (ysched k) t = Some s \<Longrightarrow>
    sync_step k (k\<lparr>ysched := s\<rparr>)"

inductive sync_reachable :: "ysys \<Rightarrow> bool" where
  init: "sched_inv s \<Longrightarrow> sync_reachable \<lparr>ysched = s, lock = synclock_init, ypc = (\<lambda>_. Free)\<rparr>"
| step: "sync_reachable k \<Longrightarrow> sync_step k k' \<Longrightarrow> sync_reachable k'"

text \<open>
  The sync lock refines a semaphore with one unit: a task between its down and its up holds the unit.
\<close>

fun abs_pc :: "ypc \<Rightarrow> spc" where
  "abs_pc Free = Idle"
| "abs_pc Blocked = Waiting"
| "abs_pc Acquired = Holding"
| "abs_pc Held = Holding"
| "abs_pc Releasing = Holding"

definition abs_sem :: "ysys \<Rightarrow> ssys" where
  "abs_sem k = \<lparr>ssched = ysched k, sem = ysem (lock k), spc = (\<lambda>t. abs_pc (ypc k t))\<rparr>"

lemma abs_sem_simps [simp]:
  "ssched (abs_sem k) = ysched k" "sem (abs_sem k) = ysem (lock k)" "spc (abs_sem k) t = abs_pc (ypc k t)"
  "abs_sem (k\<lparr>ysched := s\<rparr>) = (abs_sem k)\<lparr>ssched := s\<rparr>"
  by (simp_all add: abs_sem_def)

lemma abs_pc_Waiting [simp]: "abs_pc p = Waiting \<longleftrightarrow> p = Blocked"
  by (cases p) simp_all

definition lock_ok :: "ysys \<Rightarrow> bool" where
  "lock_ok k \<longleftrightarrow> (\<forall>t. ypc k t = Held \<longleftrightarrow> holder (lock k) = Some t) \<and>
     (reapt_count (lock k) = 0 \<longleftrightarrow> holder (lock k) = None)"

lemma sync_lock_cases:
  assumes "sync_lock k = Some k'"
  obtains (nested) "holder (lock k) = Some (cur (ysched k))"
      "k' = k\<lparr>lock := (lock k)\<lparr>reapt_count := reapt_count (lock k) + 1\<rparr>\<rparr>"
  | (down) b s m where "holder (lock k) \<noteq> Some (cur (ysched k))"
      "semaphore_down (ysched k) (ysem (lock k)) = Some (b, s, m)"
      "k' = k\<lparr>ysched := s, lock := (lock k)\<lparr>ysem := m\<rparr>,
         ypc := (ypc k)(cur (ysched k) := if b then Blocked else Acquired)\<rparr>"
proof (cases "holder (lock k) = Some (cur (ysched k))")
  case True
  with assms show ?thesis by (intro nested) (simp_all add: sync_lock_def)
next
  case False
  with assms obtain r where r: "semaphore_down (ysched k) (ysem (lock k)) = Some r"
    by (cases "semaphore_down (ysched k) (ysem (lock k))") (simp_all add: sync_lock_def)
  obtain b s m where "r = (b, s, m)" by (cases r)
  with False assms r show ?thesis by (intro down [of b s m]) (simp_all add: sync_lock_def)
qed

lemma sync_refines:
  assumes ok: "lock_ok k" and "sync_step k k'"
  shows "sem_step (abs_sem k) (abs_sem k') \<or> abs_sem k' = abs_sem k"
  using assms(2)
proof (cases rule: sync_step.cases)
  case lock
  from lock(2) show ?thesis
  proof (cases rule: sync_lock_cases)
    case nested
    then show ?thesis by (simp add: abs_sem_def)
  next
    case (down b s m)
    with ok lock(1) have "ypc k (cur (ysched k)) = Free" by (auto simp: lock_ok_def)
    moreover have "sem_down (abs_sem k) = Some (abs_sem k')"
      using down(2,3) by (simp add: sem_down_def) (simp add: abs_sem_def fun_eq_iff)
    ultimately show ?thesis by (intro disjI1 sem_step.down) simp_all
  qed
next
  case woken
  then have "abs_sem k' = sem_resume (abs_sem k)"
    by (simp add: sync_lock_woken_def sem_resume_def abs_sem_def fun_eq_iff)
  with woken sem_step.resume [of "abs_sem k"] show ?thesis by simp
next
  case acquired
  then show ?thesis by (auto simp: sync_lock_acquired_def abs_sem_def fun_eq_iff Let_def split: if_splits)
next
  case unlock
  then show ?thesis by (auto simp: sync_unlock_def abs_sem_def fun_eq_iff Let_def split: if_splits)
next
  case unlock_up
  then have "sem_up (abs_sem k) = Some (abs_sem k')"
    by (auto simp: sync_unlock_up_def sem_up_def abs_sem_def fun_eq_iff)
  with unlock_up show ?thesis by (intro disjI1 sem_step.up) simp_all
next
  case (other s)
  then show ?thesis by (auto intro: sem_step.other)
next
  case (sleep s)
  then show ?thesis by (auto intro: sem_step.sleep)
next
  case (wakeup t s)
  then show ?thesis by (auto intro: sem_step.wakeup)
qed

text \<open>With one unit, two tasks that both hold it are the same.\<close>

lemma unit_unique:
  assumes "sem_inv 1 k" "spc k t = Holding" "spc k u = Holding"
  shows "t = u"
proof -
  note D = sem_invD [OF assms(1)]
  have "card (granted k) \<le> 1" using D(5,8) by simp
  moreover have "t \<in> granted k" "u \<in> granted k" using assms by (simp_all add: granted_def)
  ultimately show ?thesis using D(7) by (metis card_le_Suc0_iff_eq One_nat_def)
qed

lemma lock_ok_step:
  assumes ok: "lock_ok k" and inv: "sem_inv 1 (abs_sem k)" and "sync_step k k'"
  shows "lock_ok k'"
  using assms(3)
proof (cases rule: sync_step.cases)
  case lock
  from lock(2) show ?thesis
  proof (cases rule: sync_lock_cases)
    case nested
    with ok show ?thesis by (simp add: lock_ok_def)
  next
    case (down b s m)
    with ok lock(1) have "ypc k (cur (ysched k)) = Free" by (auto simp: lock_ok_def)
    with ok down show ?thesis by (simp add: lock_ok_def)
  qed
next
  case woken
  then have "holder (lock k) \<noteq> Some (cur (ysched k))" using ok unfolding lock_ok_def by (metis ypc.distinct)
  with woken ok show ?thesis by (auto simp: sync_lock_woken_def lock_ok_def)
next
  case acquired
  let ?c = "cur (ysched k)"
  have none: "holder (lock k) = None" using acquired(2) ok
    by (auto simp: sync_lock_acquired_def lock_ok_def Let_def split: if_splits)
  with acquired ok show ?thesis
    by (auto simp: sync_lock_acquired_def lock_ok_def Let_def split: if_splits)
next
  case unlock
  with ok show ?thesis by (auto simp: sync_unlock_def lock_ok_def Let_def split: if_splits)
next
  case unlock_up
  then have "holder (lock k') = holder (lock k)" "reapt_count (lock k') = reapt_count (lock k)"
    "ypc k' t = Held \<longleftrightarrow> ypc k t = Held" for t
    by (auto simp: sync_unlock_up_def split: if_splits)
  with ok show ?thesis by (simp add: lock_ok_def)
qed (use ok in \<open>simp_all add: lock_ok_def\<close>)

lemma sync_reachable_inv: "sync_reachable k \<Longrightarrow> lock_ok k \<and> sem_inv 1 (abs_sem k)"
proof (induction rule: sync_reachable.induct)
  case (init s)
  have "sem_inv 1 \<lparr>ssched = s, sem = semaphore_init (int 1), spc = (\<lambda>_. Idle)\<rparr>"
    using sem_reachable.init [OF init] by (rule sem_reachable_inv)
  then show ?case by (simp add: lock_ok_def synclock_init_def abs_sem_def)
next
  case (step k k')
  with sync_refines [of k k'] sem_step_inv [of 1 "abs_sem k" "abs_sem k'"] lock_ok_step [of k k'] show ?case
    by auto
qed

subsection \<open>Properties\<close>

text \<open>Task 0 holds the only unit of a semaphore, task 2 waits for it.\<close>

definition demo_waiting :: sched where
  "demo_waiting = the (task_block (the (task_yeild demo_sched)) TASK_BLOCKED)"

definition demo_sem :: ssys where
  "demo_sem = \<lparr>ssched = demo_waiting, sem = \<lparr>counter = 0, swait = [2]\<rparr>,
     spc = (\<lambda>_. Idle)(0 := Holding, 2 := Waiting)\<rparr>"

definition demo_sync :: ysys where
  "demo_sync = \<lparr>ysched = demo_waiting, lock = \<lparr>holder = Some 0, ysem = \<lparr>counter = 0, swait = [2]\<rparr>, reapt_count = 1\<rparr>,
     ypc = (\<lambda>_. Free)(0 := Held, 2 := Blocked)\<rparr>"

lemma demo_sync_reachable: "sync_reachable demo_sync"
proof -
  have inv: "sched_inv demo_sched" using reachable_inv [OF demo_reachable] by simp
  then obtain s1 where s1: "task_yeild demo_sched = Some s1" using yield_spec by blast
  have cur: "cur demo_sched = 0" "cur (the (task_yeild demo_sched)) = 2" by code_simp+
  have "task_block (the (task_yeild demo_sched)) TASK_BLOCKED \<noteq> None" by code_simp
  then obtain s2 where s2: "task_block s1 TASK_BLOCKED = Some s2" using s1 by auto
  let ?m = "\<lparr>counter = 0, swait = []\<rparr>"
  let ?l = "\<lparr>holder = Some 0, ysem = ?m, reapt_count = 1\<rparr>"
  have "sync_reachable \<lparr>ysched = demo_sched, lock = synclock_init, ypc = (\<lambda>_. Free)\<rparr>"
    using inv by (rule sync_reachable.init)
  then have "sync_reachable \<lparr>ysched = demo_sched, lock = \<lparr>holder = None, ysem = ?m, reapt_count = 0\<rparr>,
      ypc = (\<lambda>_. Free)(0 := Acquired)\<rparr>"
    by (rule sync_reachable.step [OF _ sync_step.lock])
      (simp_all add: sync_lock_def semaphore_down_def synclock_init_def semaphore_init_def cur)
  then have "sync_reachable \<lparr>ysched = demo_sched, lock = ?l, ypc = (\<lambda>_. Free)(0 := Held)\<rparr>"
    by (rule sync_reachable.step [OF _ sync_step.acquired]) (simp_all add: sync_lock_acquired_def cur)
  then have "sync_reachable (\<lparr>ysched = demo_sched, lock = ?l, ypc = (\<lambda>_. Free)(0 := Held)\<rparr>\<lparr>ysched := s1\<rparr>)"
    by (rule sync_reachable.step [OF _ sync_step.other]) (simp add: sched_other.yield s1)
  then have "sync_reachable \<lparr>ysched = s2, lock = \<lparr>holder = Some 0, ysem = \<lparr>counter = 0, swait = [2]\<rparr>, reapt_count = 1\<rparr>,
      ypc = (\<lambda>_. Free)(0 := Held, 2 := Blocked)\<rparr>"
    by (rule sync_reachable.step [OF _ sync_step.lock])
      (use cur s1 s2 in \<open>simp_all add: sync_lock_def semaphore_down_def\<close>)
  then show ?thesis using s1 s2 by (simp add: demo_sync_def demo_waiting_def)
qed

lemma sync_abs_reachable: "sync_reachable k \<Longrightarrow> sem_reachable 1 (abs_sem k)"
proof (induction rule: sync_reachable.induct)
  case (init s)
  have "sem_reachable 1 \<lparr>ssched = s, sem = semaphore_init (int 1), spc = (\<lambda>_. Idle)\<rparr>"
    using init by (rule sem_reachable.init)
  then show ?case by (simp add: synclock_init_def abs_sem_def)
next
  case (step k k')
  with sync_refines [of k k'] sync_reachable_inv [of k] show ?case by (auto intro: sem_reachable.step)
qed

lemma demo_sem_reachable: "sem_reachable 1 demo_sem"
proof -
  have "abs_sem demo_sync = demo_sem" by (simp add: abs_sem_def demo_sync_def demo_sem_def fun_eq_iff)
  with sync_abs_reachable [OF demo_sync_reachable] show ?thesis by simp
qed

text \<open>
  C13. A semaphore with \<open>n\<close> units, used as a lock, neither creates nor loses a unit: the tasks that hold
  one, those woken to take one and the counter add up to \<open>n\<close> in every reachable state. A task only
  waits while the counter is 0, and no \<open>semaphore_up\<close> fails. If however anything but \<open>semaphore_up\<close>
  wakes a waiting task (a trigger, a sleep timer), that task returns from \<open>semaphore_down\<close> as well,
  and one unit more than \<open>n\<close> is in use.
\<close>

theorem semaphore_units:
  assumes "sem_reachable n k"
  shows "int (card (granted k)) + counter (sem k) = int n \<and> 0 \<le> counter (sem k) \<and>
    (swait (sem k) \<noteq> [] \<longrightarrow> counter (sem k) = 0) \<and>
    (spc k (cur (ssched k)) = Holding \<longrightarrow> sem_up k \<noteq> None) \<and>
    (\<forall>w \<in> set (swait (sem k)). \<exists>s. task_wakeup (ssched k) w = Some s \<and> w \<in> active s \<and>
       (\<forall>s'. cur s' = w \<longrightarrow> card (granted (sem_resume (k\<lparr>ssched := s'\<rparr>))) = n + 1))"
proof -
  have inv: "sem_inv n k" by (rule sem_reachable_inv [OF assms])
  note D = sem_invD [OF inv]
  have up: "sem_up k \<noteq> None"
    using semaphore_up_wake [OF D(1,2)]
    by (cases "swait (sem k)") (auto simp: sem_up_def semaphore_up_def)
  have spurious: "\<exists>s. task_wakeup (ssched k) w = Some s \<and> w \<in> active s \<and>
       (\<forall>s'. cur s' = w \<longrightarrow> card (granted (sem_resume (k\<lparr>ssched := s'\<rparr>))) = n + 1)"
    if w: "w \<in> set (swait (sem k))" for w
  proof -
    have "blocked_on (ssched k) w" using D(2) w by (simp add: waitlist_ok_def)
    from bs.wake_law [OF D(1) this] obtain s where "task_wakeup (ssched k) w = Some s" "w \<in> active s" by auto
    moreover have "granted (sem_resume (k\<lparr>ssched := s'\<rparr>)) = insert w (granted k)" if "cur s' = w" for s'
      using that D(3) [OF w] by (auto simp: granted_def sem_resume_def)
    moreover have "w \<notin> granted k" using D(3) [OF w] w by (simp add: granted_def)
    moreover have "counter (sem k) = 0" using D(5,6) w by (cases "counter (sem k) > 0") auto
    ultimately show ?thesis using D(7,8) by auto
  qed
  have "swait (sem k) \<noteq> [] \<Longrightarrow> counter (sem k) = 0" using D(5,6) by force
  with D(5,8) up spurious show ?thesis by blast
qed

theorem semaphore_units_witness:
  "int (card (granted demo_sem)) + counter (sem demo_sem) = 1 \<and> sem_reachable 1 demo_sem"
  using semaphore_units [OF demo_sem_reachable] demo_sem_reachable by simp

text \<open>
  C14. A sync lock has at most one holder, whose record and nesting count are right, and no assertion
  of \<open>sync_lock\<close> or \<open>sync_unlock\<close> fails, as long as only \<open>semaphore_up\<close> wakes its waiters. If a
  trigger wakes one while the lock is held, the assertion of \<open>sync_lock\<close> fails as soon as the woken
  task runs.
\<close>

theorem sync_lock_safe:
  assumes "sync_reachable k"
  shows "(\<forall>t u. ypc k t \<in> {Acquired, Held, Releasing} \<and> ypc k u \<in> {Acquired, Held, Releasing} \<longrightarrow> t = u) \<and>
    (\<forall>t. ypc k t = Held \<longleftrightarrow> holder (lock k) = Some t) \<and>
    (ypc k (cur (ysched k)) = Acquired \<longrightarrow> sync_lock_acquired k \<noteq> None) \<and>
    (ypc k (cur (ysched k)) = Held \<longrightarrow> sync_unlock k \<noteq> None) \<and>
    (ypc k (cur (ysched k)) = Releasing \<longrightarrow> sync_unlock_up k \<noteq> None) \<and>
    (\<forall>w \<in> set (swait (ysem (lock k))). holder (lock k) \<noteq> None \<longrightarrow>
       (\<exists>s. task_wakeup (ysched k) w = Some s \<and> w \<in> active s \<and>
         (\<forall>s'. cur s' = w \<longrightarrow> sync_lock_acquired (sync_lock_woken (k\<lparr>ysched := s'\<rparr>)) = None)))"
proof -
  from sync_reachable_inv [OF assms] have ok: "lock_ok k" and inv: "sem_inv 1 (abs_sem k)" by simp_all
  note D = sem_invD [OF inv]
  have uniq: "t = u" if "ypc k t \<in> {Acquired, Held, Releasing}" "ypc k u \<in> {Acquired, Held, Releasing}" for t u
    using unit_unique [OF inv, of t u] that by auto
  have acq: "sync_lock_acquired k \<noteq> None" if "ypc k (cur (ysched k)) = Acquired"
  proof -
    have "holder (lock k) = None"
    proof (rule ccontr)
      assume "holder (lock k) \<noteq> None"
      then obtain t where "ypc k t = Held" using ok by (auto simp: lock_ok_def)
      with uniq [of t "cur (ysched k)"] that show False by simp
    qed
    then show ?thesis using ok by (simp add: sync_lock_acquired_def lock_ok_def Let_def)
  qed
  have unl: "sync_unlock k \<noteq> None" if "ypc k (cur (ysched k)) = Held"
    using ok that by (auto simp: sync_unlock_def lock_ok_def Let_def)
  have up: "sync_unlock_up k \<noteq> None"
    using semaphore_up_wake [OF D(1,2)]
    by (cases "swait (ysem (lock k))") (auto simp: sync_unlock_up_def semaphore_up_def)
  have spurious: "\<exists>s. task_wakeup (ysched k) w = Some s \<and> w \<in> active s \<and>
         (\<forall>s'. cur s' = w \<longrightarrow> sync_lock_acquired (sync_lock_woken (k\<lparr>ysched := s'\<rparr>)) = None)"
    if w: "w \<in> set (swait (ysem (lock k)))" and h: "holder (lock k) \<noteq> None" for w
  proof -
    have "blocked_on (ysched k) w" using D(2) w by (simp add: waitlist_ok_def)
    from bs.wake_law [of "ysched k", OF _ this] D(1) obtain s where "task_wakeup (ysched k) w = Some s" "w \<in> active s"
      by auto
    moreover have "reapt_count (lock k) \<noteq> 0" using ok h by (simp add: lock_ok_def)
    ultimately show ?thesis by (simp add: sync_lock_acquired_def sync_lock_woken_def)
  qed
  have "\<forall>t. ypc k t = Held \<longleftrightarrow> holder (lock k) = Some t" using ok by (simp add: lock_ok_def)
  with uniq acq unl up spurious show ?thesis by blast
qed

theorem sync_lock_safe_witness:
  "sync_reachable demo_sync \<and> holder (lock demo_sync) = Some 0 \<and> (\<exists>s. task_wakeup (ysched demo_sync) 2 = Some s \<and> 2 \<in> active s)"
  using sync_lock_safe [OF demo_sync_reachable] demo_sync_reachable by (auto simp: demo_sync_def)

end
