(* ===== verification/Timer.thy ===== *)
theory Timer
  imports Trigger
begin

section \<open>Kernel timers and alarms\<close>

text \<open>
  \<open>src/src/kernel/timer.c\<close> and \<open>src/src/kernel/alarm.c\<close>. Timers are numbered; \<open>tlist\<close> is the timer
  list, \<open>tms\<close> the memory of the timers. \<open>clock_t\<close> is 32 bits wide. A callback is a parameter of the
  model that changes the whole timer system. Each function runs with interrupts off and is one step.
  \<open>None\<close> stands for a failed assertion, a walk over a timer that is no longer in the list, or reading
  the fields of the list head as if it were a timer.
\<close>

record timer =
  timeout :: u32
  timer_id :: u32

record tsys =
  tlist :: "nat list"
  tms :: "nat \<Rightarrow> timer"
  timer_id_next :: u32
  minim_timeout_val :: u32
  timer_ticks :: u32
  fired :: "nat list"

text \<open>\<open>fired\<close> records the timers whose callback has run.\<close>

definition timer_init :: "tsys \<Rightarrow> nat \<Rightarrow> u32 \<Rightarrow> tsys" where
  "timer_init k t tmo = k\<lparr>tms := (tms k)(t := \<lparr>timeout = timer_ticks k + tmo, timer_id = timer_id_next k\<rparr>),
     timer_id_next := timer_id_next k + 1\<rparr>"

text \<open>\<open>list_add_after\<close> behind the first timer that is not later than \<open>t\<close>.\<close>

fun add_middle :: "(nat \<Rightarrow> timer) \<Rightarrow> nat \<Rightarrow> nat list \<Rightarrow> nat list" where
  "add_middle m t [] = []"
| "add_middle m t (u # us) = (if timeout (m t) \<ge> timeout (m u) then u # t # us else u # add_middle m t us)"

definition timer_new_id :: "tsys \<Rightarrow> nat \<Rightarrow> tsys" where
  "timer_new_id k t = (if timer_id (tms k t) = 0
     then k\<lparr>tms := (tms k)(t := (tms k t)\<lparr>timer_id := timer_id_next k\<rparr>), timer_id_next := timer_id_next k + 1\<rparr>
     else k)"

definition timer_add :: "tsys \<Rightarrow> nat \<Rightarrow> tsys option" where
  "timer_add k t =
     (let k = timer_new_id k t
      in if t \<in> set (tlist k) then None
         else case tlist k of
           [] \<Rightarrow> Some (k\<lparr>tlist := [t], minim_timeout_val := timeout (tms k t)\<rparr>)
         | first # us \<Rightarrow>
             if timeout (tms k t) < timeout (tms k first)
             then Some (k\<lparr>tlist := t # tlist k, minim_timeout_val := timeout (tms k t)\<rparr>)
             else Some (k\<lparr>tlist := add_middle (tms k) t (tlist k)\<rparr>))"

definition timer_del :: "tsys \<Rightarrow> nat \<Rightarrow> tsys option" where
  "timer_del k t = (if t \<notin> set (tlist k) then None else Some (k\<lparr>tlist := remove1 t (tlist k)\<rparr>))"

definition timer_alive :: "tsys \<Rightarrow> nat \<Rightarrow> bool" where
  "timer_alive k t \<longleftrightarrow> t \<in> set (tlist k)"

definition timer_mod :: "tsys \<Rightarrow> nat \<Rightarrow> u32 \<Rightarrow> tsys" where
  "timer_mod k t tmo = k\<lparr>tms := (tms k)(t := (tms k t)\<lparr>timeout := timer_ticks k + tmo\<rparr>)\<rparr>"

text \<open>The timer pointer is \<open>None\<close> when it is \<open>NULL\<close>.\<close>

definition timer_cancel :: "tsys \<Rightarrow> nat option \<Rightarrow> (int \<times> tsys) option" where
  "timer_cancel k p = (case p of None \<Rightarrow> Some (-1, k)
     | Some t \<Rightarrow> if timer_alive k t then map_option (\<lambda>k. (0, k)) (timer_del k t) else Some (0, k))"

definition do_timer_action :: "(nat \<Rightarrow> tsys \<Rightarrow> tsys) \<Rightarrow> tsys \<Rightarrow> nat \<Rightarrow> tsys" where
  "do_timer_action callback k t = callback t (k\<lparr>tlist := remove1 t (tlist k), fired := fired k @ [t]\<rparr>)"

text \<open>
  The loop of \<open>update_timers\<close> over \<open>timer\<close> and \<open>next\<close>, where the list head is \<open>None\<close>. \<open>next\<close> is read
  before the callback runs. The result is the timer at which the loop stops.
\<close>

fun next_of :: "nat list \<Rightarrow> nat \<Rightarrow> nat option option" where
  "next_of [] t = None"
| "next_of [u] t = (if u = t then Some None else None)"
| "next_of (u # v # us) t = (if u = t then Some (Some v) else next_of (v # us) t)"

partial_function (option) update_loop ::
  "(nat \<Rightarrow> tsys \<Rightarrow> tsys) \<Rightarrow> tsys \<Rightarrow> nat option \<Rightarrow> (nat option \<times> tsys) option" where
  "update_loop callback k cursor =
     (case cursor of None \<Rightarrow> Some (None, k)
      | Some t \<Rightarrow> (case next_of (tlist k) t of None \<Rightarrow> None
        | Some nxt \<Rightarrow>
            if timeout (tms k t) > timer_ticks k then Some (Some t, k)
            else update_loop callback (do_timer_action callback k t) nxt))"

definition update_timers :: "(nat \<Rightarrow> tsys \<Rightarrow> tsys) \<Rightarrow> tsys \<Rightarrow> tsys option" where
  "update_timers callback k =
     (if timer_ticks k < minim_timeout_val k then Some k
      else case update_loop callback k (case tlist k of [] \<Rightarrow> None | t # _ \<Rightarrow> Some t) of
        None \<Rightarrow> None
      | Some (None, k) \<Rightarrow> None
      | Some (Some t, k) \<Rightarrow> Some (k\<lparr>minim_timeout_val := timeout (tms k t)\<rparr>))"

definition TIMER_IDLE_TIMEOUT :: u32 where
  "TIMER_IDLE_TIMEOUT = 2592000 * 500"

definition timer_idle_handler :: "nat \<Rightarrow> tsys \<Rightarrow> tsys option" where
  "timer_idle_handler idle k =
     (let dt = timeout (tms k idle)
      in timer_add (k\<lparr>timer_ticks := timer_ticks k - dt,
           tms := (\<lambda>t. if t \<in> set (tlist k) \<and> t \<noteq> idle then (tms k t)\<lparr>timeout := timeout (tms k t) - dt\<rparr> else tms k t)\<rparr>) idle)"

definition init_timer_system :: "nat \<Rightarrow> tsys \<Rightarrow> tsys option" where
  "init_timer_system idle k = timer_add k idle"

subsection \<open>Order of the list\<close>

abbreviation timeouts :: "tsys \<Rightarrow> u32 list" where
  "timeouts k \<equiv> List.map (\<lambda>t. timeout (tms k t)) (tlist k)"

lemma timer_new_id_simps [simp]:
  "tlist (timer_new_id k t) = tlist k" "timeout (tms (timer_new_id k t) u) = timeout (tms k u)"
  "minim_timeout_val (timer_new_id k t) = minim_timeout_val k" "timer_ticks (timer_new_id k t) = timer_ticks k"
  by (simp_all add: timer_new_id_def)

text \<open>The first timer is never later than \<open>t\<close> when \<open>add_middle\<close> runs: \<open>t\<close> goes to the second place.\<close>

lemma timer_add_eq:
  "t \<notin> set (tlist k) \<Longrightarrow> timer_add k t = Some (case tlist k of
       [] \<Rightarrow> (timer_new_id k t)\<lparr>tlist := [t], minim_timeout_val := timeout (tms k t)\<rparr>
     | u # us \<Rightarrow> if timeout (tms k t) < timeout (tms k u)
         then (timer_new_id k t)\<lparr>tlist := t # u # us, minim_timeout_val := timeout (tms k t)\<rparr>
         else (timer_new_id k t)\<lparr>tlist := u # t # us\<rparr>)"
  by (auto simp: timer_add_def Let_def split: list.splits)

subsection \<open>What a tick fires\<close>

text \<open>A callback that leaves the timers alone, as those of sleeping tasks do.\<close>

definition quiet :: "(nat \<Rightarrow> tsys \<Rightarrow> tsys) \<Rightarrow> bool" where
  "quiet callback \<longleftrightarrow> (\<forall>t k. tlist (callback t k) = tlist k \<and> tms (callback t k) = tms k \<and>
     timer_ticks (callback t k) = timer_ticks k \<and> fired (callback t k) = fired k)"

lemma action_quiet [simp]:
  assumes "quiet callback"
  shows "tlist (do_timer_action callback k t) = remove1 t (tlist k)" "tms (do_timer_action callback k t) = tms k"
    "timer_ticks (do_timer_action callback k t) = timer_ticks k" "fired (do_timer_action callback k t) = fired k @ [t]"
  using assms by (simp_all add: quiet_def do_timer_action_def)

definition due :: "tsys \<Rightarrow> nat \<Rightarrow> bool" where
  "due k t \<longleftrightarrow> timeout (tms k t) \<le> timer_ticks k"

lemma next_of_hd [simp]: "next_of (t # ts) t = Some (case ts of [] \<Rightarrow> None | u # _ \<Rightarrow> Some u)"
  by (cases ts) simp_all

abbreviation first_of :: "nat list \<Rightarrow> nat option" where
  "first_of ts \<equiv> case ts of [] \<Rightarrow> None | t # _ \<Rightarrow> Some t"

lemma update_loop_quiet:
  assumes "quiet callback" "\<exists>t \<in> set (tlist k). \<not> due k t"
  shows "\<exists>k' t. update_loop callback k (first_of (tlist k)) = Some (Some t, k') \<and> tms k' = tms k \<and>
    timer_ticks k' = timer_ticks k \<and> fired k' = fired k @ takeWhile (due k) (tlist k) \<and>
    tlist k' = dropWhile (due k) (tlist k) \<and> t = hd (tlist k')"
  using assms(2)
proof (induction "tlist k" arbitrary: k)
  case (Cons t ts)
  note list = Cons.hyps(2) [symmetric]
  show ?case
  proof (cases "due k t")
    case False
    then show ?thesis by (simp add: list update_loop.simps due_def not_le)
  next
    case True
    let ?k = "do_timer_action callback k t"
    have ts: "ts = tlist ?k" using assms(1) by (simp add: list)
    have due: "due ?k u \<longleftrightarrow> due k u" for u using assms(1) by (simp add: due_def)
    have eq: "due ?k = due k" using due by (simp add: fun_eq_iff)
    have "\<exists>u \<in> set (tlist ?k). \<not> due ?k u" using Cons.prems True list ts due by auto
    from Cons.hyps(1) [OF ts this] obtain k' u where IH:
      "update_loop callback ?k (first_of (tlist ?k)) = Some (Some u, k')" "tms k' = tms ?k"
      "timer_ticks k' = timer_ticks ?k" "fired k' = fired ?k @ takeWhile (due ?k) (tlist ?k)"
      "tlist k' = dropWhile (due ?k) (tlist ?k)" "u = hd (tlist k')" by blast
    have "update_loop callback k (first_of (tlist k)) = update_loop callback ?k (first_of ts)"
      using True by (auto simp: list update_loop.simps [of callback k] due_def)
    with IH assms(1) True show ?thesis by (simp add: list eq)
  qed
qed simp

lemma update_timers_quiet:
  assumes "quiet callback" "\<exists>t \<in> set (tlist k). \<not> due k t" "minim_timeout_val k \<le> timer_ticks k"
  shows "\<exists>k'. update_timers callback k = Some k' \<and> fired k' = fired k @ takeWhile (due k) (tlist k) \<and>
    tlist k' = dropWhile (due k) (tlist k) \<and> tms k' = tms k \<and> timer_ticks k' = timer_ticks k \<and>
    minim_timeout_val k' = timeout (tms k (hd (tlist k')))"
  using update_loop_quiet [OF assms(1,2)] assms(3) by (auto simp: update_timers_def)

lemma takeWhile_sorted:
  assumes "sorted (List.map f xs)"
  shows "takeWhile (\<lambda>x. f x \<le> c) xs = filter (\<lambda>x. f x \<le> c) xs"
    and "dropWhile (\<lambda>x. f x \<le> c) xs = filter (\<lambda>x. \<not> f x \<le> c) xs"
proof -
  have "takeWhile (\<lambda>x. f x \<le> c) xs = filter (\<lambda>x. f x \<le> c) xs \<and>
      dropWhile (\<lambda>x. f x \<le> c) xs = filter (\<lambda>x. \<not> f x \<le> c) xs"
    using assms
  proof (induction xs)
    case (Cons x xs)
    show ?case
    proof (cases "f x \<le> c")
      case False
      with Cons.prems have none: "\<And>y. y \<in> set xs \<Longrightarrow> \<not> f y \<le> c" by (auto dest: order.trans)
      then have "filter (\<lambda>y. f y \<le> c) xs = []" "filter (\<lambda>y. \<not> f y \<le> c) xs = xs"
        by (simp_all add: filter_empty_conv)
      with False show ?thesis by simp
    qed (use Cons in simp)
  qed simp
  then show "takeWhile (\<lambda>x. f x \<le> c) xs = filter (\<lambda>x. f x \<le> c) xs"
    "dropWhile (\<lambda>x. f x \<le> c) xs = filter (\<lambda>x. \<not> f x \<le> c) xs" by simp_all
qed

subsection \<open>Alarms\<close>

record alarm =
  aflags :: bool
  aticks :: u32
  asecond :: u32

definition HZ :: u32 where
  "HZ = 100 * 5"

definition alarm_init :: alarm where
  "alarm_init = \<lparr>aflags = False, aticks = 0, asecond = 0\<rparr>"

definition sys_alarm :: "alarm \<Rightarrow> u32 \<Rightarrow> u32 \<times> alarm" where
  "sys_alarm a second = (asecond a, if second = 0 then a\<lparr>aflags := False\<rparr>
     else a\<lparr>aflags := True, asecond := second, aticks := HZ\<rparr>)"

text \<open>What a tick does to the alarm of one task; the second component asks for \<open>TRIGALARM\<close>.\<close>

definition alarm_tick :: "alarm \<Rightarrow> alarm \<times> bool" where
  "alarm_tick a =
     (if \<not> aflags a then (a, False)
      else let a = a\<lparr>aticks := aticks a - 1\<rparr>
           in if aticks a \<noteq> 0 then (a, False)
              else let a = a\<lparr>asecond := asecond a - 1, aticks := HZ\<rparr>
                   in if asecond a \<noteq> 0 then (a, False) else (a\<lparr>aflags := False\<rparr>, True))"

fun update_alarms_list :: "tid list \<Rightarrow> (tid \<Rightarrow> alarm) \<Rightarrow> kernel \<Rightarrow> ((tid \<Rightarrow> alarm) \<times> kernel) option" where
  "update_alarms_list [] al k = Some (al, k)"
| "update_alarms_list (t # ts) al k =
     (case alarm_tick (al t) of (a, fire) \<Rightarrow>
        (case (if fire then map_option snd (sys_trigger_active k TRIGALARM (pid k t)) else Some k) of
           None \<Rightarrow> None
         | Some k \<Rightarrow> update_alarms_list ts (al(t := a)) k))"

definition update_alarms :: "(tid \<Rightarrow> alarm) \<Rightarrow> kernel \<Rightarrow> ((tid \<Rightarrow> alarm) \<times> kernel) option" where
  "update_alarms al k = update_alarms_list (global_list k) al k"

text \<open>An alarm of \<open>n\<close> seconds asks for its trigger at tick \<open>n * HZ\<close> and at none before.\<close>

primrec alarm_ticks :: "nat \<Rightarrow> alarm \<Rightarrow> alarm \<times> nat" where
  "alarm_ticks 0 a = (a, 0)"
| "alarm_ticks (Suc n) a = (case alarm_tick a of (a, fire) \<Rightarrow>
     (case alarm_ticks n a of (a, c) \<Rightarrow> (a, if fire then c + 1 else c)))"

text \<open>The ticks that are left of a running alarm.\<close>

definition alarm_left :: "alarm \<Rightarrow> nat" where
  "alarm_left a = unat (aticks a) + 500 * (unat (asecond a) - 1)"

definition alarm_runs :: "alarm \<Rightarrow> bool" where
  "alarm_runs a \<longleftrightarrow> aflags a \<and> aticks a \<noteq> 0 \<and> asecond a \<noteq> 0"

lemma unat_pred: "x \<noteq> 0 \<Longrightarrow> unat (x - 1) = unat x - 1" for x :: u32
  by (metis unat_minus_one)

lemma unat_HZ: "unat HZ = 500"
  by (simp add: HZ_def)

lemma alarm_tick_more:
  assumes "alarm_runs a" "alarm_left a \<noteq> 1"
  shows "\<exists>a'. alarm_tick a = (a', False) \<and> alarm_runs a' \<and> Suc (alarm_left a') = alarm_left a"
proof (cases "aticks a - 1 = 0")
  case False
  have "unat (aticks a - 1) = unat (aticks a) - 1" using assms(1) by (intro unat_pred) (simp add: alarm_runs_def)
  moreover have "0 < unat (aticks a)" using assms(1) by (simp add: alarm_runs_def unat_gt_0)
  ultimately show ?thesis using assms(1) False
    by (simp add: alarm_tick_def alarm_runs_def alarm_left_def)
next
  case True
  then have one: "aticks a = 1" by simp
  have sec: "unat (asecond a - 1) = unat (asecond a) - 1" using assms(1) by (intro unat_pred) (simp add: alarm_runs_def)
  have "unat (asecond a) \<noteq> 1" using assms one by (auto simp: alarm_left_def)
  moreover have "0 < unat (asecond a)" using assms(1) by (simp add: alarm_runs_def unat_gt_0)
  ultimately have two: "2 \<le> unat (asecond a)" by simp
  then have "asecond a - 1 \<noteq> 0" using sec by (metis diff_is_0_eq not_less_eq_eq numeral_2_eq_2 unat_0 One_nat_def)
  moreover have "HZ \<noteq> 0" by (simp add: HZ_def)
  ultimately show ?thesis using assms(1) one sec two
    by (simp add: alarm_tick_def alarm_runs_def alarm_left_def unat_HZ)
qed

lemma alarm_tick_last:
  assumes "alarm_runs a" "alarm_left a = 1"
  shows "\<exists>a'. alarm_tick a = (a', True) \<and> \<not> aflags a'"
proof -
  have "0 < unat (aticks a)" "0 < unat (asecond a)" using assms(1) by (simp_all add: alarm_runs_def unat_gt_0)
  with assms(2) have "unat (aticks a) = unat (1 :: u32)" "unat (asecond a) = unat (1 :: u32)"
    by (simp_all add: alarm_left_def)
  then have "aticks a = 1" "asecond a = 1" by (simp_all only: word_unat_eq_iff)
  then show ?thesis using assms(1) by (simp add: alarm_tick_def alarm_runs_def)
qed

lemma alarm_ticks_left:
  "alarm_runs a \<Longrightarrow> snd (alarm_ticks n a) = (if n < alarm_left a then 0 else 1)"
proof (induction n arbitrary: a)
  case 0
  then have "0 < alarm_left a" by (simp add: alarm_left_def alarm_runs_def unat_gt_0)
  then show ?case by simp
next
  case (Suc n)
  have off: "\<not> aflags a \<Longrightarrow> alarm_ticks m a = (a, 0)" for m a
    by (induction m) (simp_all add: alarm_tick_def)
  show ?case
  proof (cases "alarm_left a = 1")
    case True
    from alarm_tick_last [OF Suc.prems True] off True show ?thesis by auto
  next
    case False
    from alarm_tick_more [OF Suc.prems False] obtain a' where a': "alarm_tick a = (a', False)" "alarm_runs a'"
        "Suc (alarm_left a') = alarm_left a" by blast
    with Suc.IH [OF a'(2)] show ?thesis by (cases "alarm_ticks n a'") auto
  qed
qed

subsection \<open>Properties\<close>


definition demo_timers :: tsys where
  "demo_timers = \<lparr>tlist = [1, 2, 0], tms = (\<lambda>t. \<lparr>timeout = (if t = 1 then 10 else if t = 2 then 20
       else if t = 3 then 30 else TIMER_IDLE_TIMEOUT), timer_id = of_nat t + 1\<rparr>),
     timer_id_next = 5, minim_timeout_val = 10, timer_ticks = 0, fired = []\<rparr>"


text \<open>
  When a tick looks at the list (\<open>minim_timeout_val\<close> has come), it runs the callbacks of the timers
  up to the first that is not due, and makes that one's timeout the next \<open>minim_timeout_val\<close>. No timer
  fires early. On a sorted list exactly the due timers fire; on others a due timer may stay behind one
  that is not due.
\<close>

theorem update_timers_fires:
  assumes "quiet callback" "\<exists>t \<in> set (tlist k). \<not> due k t" "minim_timeout_val k \<le> timer_ticks k"
  shows "\<exists>k'. update_timers callback k = Some k' \<and> fired k' = fired k @ takeWhile (due k) (tlist k) \<and>
    tlist k' = dropWhile (due k) (tlist k) \<and> minim_timeout_val k' = timeout (tms k (hd (tlist k'))) \<and>
    (sorted (timeouts k) \<longrightarrow> fired k' = fired k @ filter (due k) (tlist k) \<and>
       tlist k' = filter (\<lambda>t. \<not> due k t) (tlist k))"
proof -
  have due: "due k = (\<lambda>t. timeout (tms k t) \<le> timer_ticks k)" by (simp add: due_def fun_eq_iff)
  note sorted = takeWhile_sorted [of "\<lambda>t. timeout (tms k t)" "tlist k" "timer_ticks k"]
  from update_timers_quiet [OF assms] obtain k' where "update_timers callback k = Some k'"
    "fired k' = fired k @ takeWhile (due k) (tlist k)" "tlist k' = dropWhile (due k) (tlist k)"
    "minim_timeout_val k' = timeout (tms k (hd (tlist k')))" by blast
  then show ?thesis using sorted by (intro exI [of _ k']) (simp add: due)
qed

text \<open>Timer 2 of the list \<open>[1, 3, 2, 0]\<close> is due at tick 20, and does not fire.\<close>

theorem update_timers_fires_witness:
  "\<exists>k'. update_timers (\<lambda>_ k. k) (demo_timers\<lparr>tlist := [1, 3, 2, 0], timer_ticks := 20\<rparr>) = Some k' \<and>
     fired k' = [1] \<and> tlist k' = [3, 2, 0] \<and> minim_timeout_val k' = 30 \<and> due k' 2"
proof -
  let ?k = "demo_timers\<lparr>tlist := [1, 3, 2, 0], timer_ticks := 20\<rparr>"
  have due: "due ?k 1" "\<not> due ?k 3" "tms ?k = tms demo_timers" "timeout (tms ?k 3) = 30" "fired ?k = []"
    "minim_timeout_val ?k \<le> timer_ticks ?k"
    by (simp_all add: due_def demo_timers_def)
  then have "\<exists>t \<in> set (tlist ?k). \<not> due ?k t" by (intro bexI [of _ 3]) simp_all
  moreover have "quiet (\<lambda>_ k. k)" by (simp add: quiet_def)
  ultimately obtain k' where "update_timers (\<lambda>_ k. k) ?k = Some k'" "fired k' = [1]" "tlist k' = [3, 2, 0]"
      "minim_timeout_val k' = 30" and "tms k' = tms ?k" "timer_ticks k' = timer_ticks ?k"
    using update_timers_fires [of "\<lambda>_ k. k" ?k] update_timers_quiet [of "\<lambda>_ k. k" ?k] due by force
  then show ?thesis by (simp add: due_def demo_timers_def)
qed

text \<open>
  An alarm of \<open>n\<close> seconds asks for \<open>TRIGALARM\<close> exactly once, at tick \<open>500 * n\<close> after
  \<open>sys_alarm\<close>: no earlier, and never again.
\<close>

theorem alarm_exact:
  assumes "second \<noteq> 0"
  shows "snd (alarm_ticks n (snd (sys_alarm a second))) = (if n < 500 * unat second then 0 else 1)"
proof -
  have "alarm_runs (snd (sys_alarm a second))" using assms by (simp add: sys_alarm_def alarm_runs_def HZ_def)
  moreover have "alarm_left (snd (sys_alarm a second)) = 500 * unat second"
    using assms unat_gt_0 [of second] by (simp add: sys_alarm_def alarm_left_def unat_HZ algebra_simps)
  ultimately show ?thesis by (simp add: alarm_ticks_left)
qed

theorem alarm_exact_witness:
  "snd (alarm_ticks 999 (snd (sys_alarm alarm_init 2))) = 0 \<and> snd (alarm_ticks 1000 (snd (sys_alarm alarm_init 2))) = 1"
  using alarm_exact [of 2 999 alarm_init] alarm_exact [of 2 1000 alarm_init] by simp

end
