(* ===== verification/Ktime.thy ===== *)
theory Ktime
  imports Prelude
begin

section \<open>The wall clock\<close>

text \<open>
  \<open>src/src/kernel/ktime.c\<close>: the calendar clock that the timer interrupt advances, and the
  conversions between seconds and system ticks. The fields of \<open>ktime_t\<close> are \<open>int\<close>s that stay
  small; they are integers here. C's division truncates, which for the positive operands of these
  functions is \<open>div\<close>. \<open>None\<close> is an index outside \<open>month_day\<close> or \<open>month\<close>.
\<close>

record ktime =
  second :: int
  minute :: int
  hour :: int
  day :: int
  month :: int
  year :: int
  week_day :: int
  year_day :: int

definition month_day :: "int list" where
  "month_day = [0, 31, 28, 31, 30, 31, 30, 31, 31, 30, 31, 30, 31]"

definition is_leap :: "int \<Rightarrow> int" where
  "is_leap y = (if y mod 4 \<noteq> 0 then 0 else if y mod 400 \<noteq> 0 then 1 else if y mod 100 \<noteq> 0 then 0 else 1)"

text \<open>The \<open>while\<close> loop of \<open>get_week_day\<close> adds 7 until the sum is not negative.\<close>

function add_weeks :: "int \<Rightarrow> int" where
  "add_weeks week = (if week < 0 then add_weeks (week + 7) else week)"
  by pat_completeness auto
termination by (relation "measure (\<lambda>w. nat (- w))") auto

declare add_weeks.simps [simp del]

definition get_week_day :: "int \<Rightarrow> int \<Rightarrow> int \<Rightarrow> int" where
  "get_week_day y0 m0 d =
     (let (y1, m) = (if m0 = 1 \<or> m0 = 2 then (y0 - 1, m0 + 12) else (y0, m0));
          c = y1 div 100; y = y1 - c * 100;
          week = c div 4 - 2 * c + (y + y div 4) + (13 * (m + 1)) div 5 + d - 1
      in add_weeks week mod 7)"

definition month_len :: "int \<Rightarrow> int" where
  "month_len m = month_day ! nat m"

definition get_month_day :: "ktime \<Rightarrow> int" where
  "get_month_day t = (if month t = 2 then month_len (month t) + is_leap (year t) else month_len (month t))"

text \<open>The loop over the months before the current one.\<close>

definition days_before_month :: "int \<Rightarrow> int \<Rightarrow> int" where
  "days_before_month y m = (\<Sum>i \<leftarrow> [1..m - 1]. if i = 2 then month_len i + is_leap y else month_len i)"

definition get_year_days :: "ktime \<Rightarrow> int" where
  "get_year_days t =
     (let sum = days_before_month (year t) (month t) + day t
      in if month t \<ge> 2
         then if month t = 2 then if day t = 28 then sum + is_leap (year t) else sum
              else sum + is_leap (year t)
         else sum)"

definition update_ktime :: "ktime \<Rightarrow> ktime" where
  "update_ktime t0 =
     (let t = t0\<lparr>second := second t0 + 1\<rparr>
      in if \<not> second t > 59 then t
         else let t = t\<lparr>minute := minute t + 1, second := 0\<rparr>
         in if \<not> minute t > 59 then t
         else let t = t\<lparr>hour := hour t + 1, minute := 0\<rparr>
         in if \<not> hour t > 23 then t
         else let t = t\<lparr>day := day t + 1, hour := 0, week_day := week_day t + 1\<rparr>;
                  t = (if week_day t > 6 then t\<lparr>week_day := 0\<rparr> else t);
                  t = t\<lparr>year_day := get_year_days t\<rparr>
         in if \<not> day t > get_month_day t then t
         else let t = t\<lparr>month := month t + 1, day := 1\<rparr>
         in if \<not> month t > 12 then t else t\<lparr>year := year t + 1, month := 1\<rparr>)"

definition sys_get_ktime :: "ktime \<Rightarrow> ktime" where
  "sys_get_ktime t = t\<lparr>month := month t - 1\<rparr>"

text \<open>\<open>make_timestamp\<close> computes in 32 bits. Its table is indexed from 0.\<close>

definition month_secs :: "u32 list" where
  "month_secs = List.map (\<lambda>d. 86400 * d)
     [0, 31, 31+29, 31+29+31, 31+29+31+30, 31+29+31+30+31, 31+29+31+30+31+30, 31+29+31+30+31+30+31,
      31+29+31+30+31+30+31+31, 31+29+31+30+31+30+31+31+30, 31+29+31+30+31+30+31+31+30+31,
      31+29+31+30+31+30+31+31+30+31+30]"

definition make_timestamp :: "ktime \<Rightarrow> u32 option" where
  "make_timestamp tm =
     (let y = year tm - 70
      in if month tm < 0 \<or> month tm \<ge> 12 then None
         else Some (86400 * 365 * of_int y + 86400 * of_int ((y + 1) div 4) + month_secs ! nat (month tm)
           - (if month tm > 1 \<and> (y + 2) mod 4 \<noteq> 0 then 86400 else 0)
           + 86400 * of_int (day tm - 1) + 3600 * of_int (hour tm) + 60 * of_int (minute tm)
           + of_int (second tm)))"

subsection \<open>Ticks\<close>

definition MAX_SYSTICKS_VALUE :: u32 where
  "MAX_SYSTICKS_VALUE = drop_bit 1 (NOT 0) - 1"

definition timeval_to_systicks :: "u32 \<Rightarrow> u32 \<Rightarrow> u32" where
  "timeval_to_systicks sec usec =
     (if sec \<ge> MAX_SYSTICKS_VALUE div 500 then MAX_SYSTICKS_VALUE else 500 * sec + usec div (1000000 div 500))"

definition systicks_to_timeval :: "u32 \<Rightarrow> u32 \<times> u32" where
  "systicks_to_timeval ticks =
     (let sec = ticks div 500; usec = (ticks mod 500) * (1000 div 500) * 1000
      in (if sec \<ge> MAX_SYSTICKS_VALUE div 500 then MAX_SYSTICKS_VALUE else sec, usec))"

definition timespec_to_systicks :: "u32 \<Rightarrow> u32 \<Rightarrow> u32" where
  "timespec_to_systicks sec nsec =
     (if sec \<ge> MAX_SYSTICKS_VALUE div 500 then MAX_SYSTICKS_VALUE else 500 * sec + nsec div (1000000000 div 500))"

definition systicks_to_timespec :: "u32 \<Rightarrow> u32 \<times> u32" where
  "systicks_to_timespec ticks =
     (let sec = ticks div 500; nsec = (ticks mod 500) * (1000 div 500) * 1000000
      in (if sec \<ge> MAX_SYSTICKS_VALUE div 500 then MAX_SYSTICKS_VALUE else sec, nsec))"

subsection \<open>Lemmas\<close>

lemma is_leap_iff: "is_leap y = (if 4 dvd y then 1 else 0)"
proof -
  have "y mod 400 mod 100 = y mod 100" by (rule mod_mod_cancel) simp
  then have "y mod 400 = 0 \<Longrightarrow> y mod 100 = 0" by (metis mod_0)
  then show ?thesis by (auto simp: is_leap_def dvd_eq_mod_eq_0)
qed

lemma month_len_simps:
  "month_len 1 = 31" "month_len 2 = 28" "month_len 3 = 31" "month_len 4 = 30" "month_len 5 = 31" "month_len 6 = 30"
  "month_len 7 = 31" "month_len 8 = 31" "month_len 9 = 30" "month_len 10 = 31" "month_len 11 = 30" "month_len 12 = 31"
  by (simp_all add: month_len_def month_day_def)

lemma days_before_next:
  assumes "1 \<le> month t"
  shows "days_before_month (year t) (month t + 1) = days_before_month (year t) (month t) + get_month_day t"
proof -
  have "[1..month t] = [1..month t - 1] @ [month t]" using assms upto_rec2 [of 1 "month t"] by simp
  then show ?thesis by (simp add: days_before_month_def get_month_day_def)
qed

lemma days_before_1 [simp]: "days_before_month y 1 = 0"
  by (simp add: days_before_month_def)

lemma upto_12: "[1..12] = [1, 2, 3, 4, 5, 6, 7, 8, 9, 10, 11, 12 :: int]"
  by (simp add: upto_rec1)

lemma days_of_year: "days_before_month y 13 = 365 + is_leap y"
  by (simp add: days_before_month_def upto_12 month_len_simps)

lemma get_month_day_bounds: "1 \<le> month t \<Longrightarrow> month t \<le> 12 \<Longrightarrow> 28 \<le> get_month_day t"
proof -
  assume "1 \<le> month t" "month t \<le> 12"
  then have "month t \<in> {1, 2, 3, 4, 5, 6, 7, 8, 9, 10, 11, 12}"
    unfolding insert_iff empty_iff by presburger
  then show ?thesis by (auto simp: get_month_day_def month_len_simps is_leap_iff)
qed

subsection \<open>Properties\<close>

text \<open>
  The seconds a clock has counted since the start of year 0, in a calendar with a leap day every four
  years.
\<close>

definition days_before_year :: "int \<Rightarrow> int" where
  "days_before_year y = 365 * y + (y + 3) div 4"

definition seconds_of :: "ktime \<Rightarrow> int" where
  "seconds_of t = 86400 * (days_before_year (year t) + days_before_month (year t) (month t) + (day t - 1)) +
     3600 * hour t + 60 * minute t + second t"

definition ktime_ok :: "ktime \<Rightarrow> bool" where
  "ktime_ok t \<longleftrightarrow> 0 \<le> second t \<and> second t \<le> 59 \<and> 0 \<le> minute t \<and> minute t \<le> 59 \<and> 0 \<le> hour t \<and> hour t \<le> 23 \<and>
     1 \<le> month t \<and> month t \<le> 12 \<and> 1 \<le> day t \<and> day t \<le> get_month_day t \<and> 0 \<le> week_day t \<and> week_day t \<le> 6"

lemma days_before_year_Suc: "days_before_year (y + 1) = days_before_year y + 365 + is_leap y"
proof -
  have "(y + 4) div 4 = (y + 3) div 4 + (if y mod 4 = 0 then 1 else 0)" by presburger
  then show ?thesis by (simp add: days_before_year_def is_leap_iff dvd_eq_mod_eq_0 algebra_simps)
qed

text \<open>The next day, with the time at midnight.\<close>

definition next_day :: "ktime \<Rightarrow> ktime" where
  "next_day t = (let t = t\<lparr>day := day t + 1\<rparr> in
     if \<not> day t > get_month_day t then t
     else let t = t\<lparr>month := month t + 1, day := 1\<rparr> in if \<not> month t > 12 then t else t\<lparr>year := year t + 1, month := 1\<rparr>)"

definition day_no :: "ktime \<Rightarrow> int" where
  "day_no t = days_before_year (year t) + days_before_month (year t) (month t) + (day t - 1)"

lemma get_month_day_cong: "month t = month u \<Longrightarrow> year t = year u \<Longrightarrow> get_month_day t = get_month_day u"
  by (simp add: get_month_day_def)

lemma next_day_no:
  assumes "1 \<le> month t" "month t \<le> 12" "1 \<le> day t" "day t \<le> get_month_day t"
  shows "day_no (next_day t) = day_no t + 1" "1 \<le> month (next_day t)" "month (next_day t) \<le> 12"
    "1 \<le> day (next_day t)" "day (next_day t) \<le> get_month_day (next_day t)"
proof -
  have upd: "get_month_day (t\<lparr>day := d\<rparr>) = get_month_day t" for d by (simp add: get_month_day_def)
  consider (same) "day t + 1 \<le> get_month_day t" | (month) "day t = get_month_day t" "month t < 12"
    | (year) "day t = get_month_day t" "month t = 12" using assms by linarith
  then have "day_no (next_day t) = day_no t + 1 \<and> 1 \<le> month (next_day t) \<and> month (next_day t) \<le> 12 \<and>
    1 \<le> day (next_day t) \<and> day (next_day t) \<le> get_month_day (next_day t)"
  proof cases
    case same
    then have "next_day t = t\<lparr>day := day t + 1\<rparr>" by (simp add: next_day_def upd)
    then show ?thesis using assms same by (simp add: upd day_no_def)
  next
    case month
    then have next_day: "next_day t = t\<lparr>day := 1, month := month t + 1\<rparr>"
      by (simp add: next_day_def upd Let_def)
    have "1 \<le> get_month_day (next_day t)"
      using get_month_day_bounds [of "next_day t"] assms(1) month(2) by (simp add: next_day)
    then show ?thesis using month assms days_before_next [OF assms(1)] by (simp add: next_day day_no_def)
  next
    case year
    then have next_day: "next_day t = t\<lparr>day := 1, month := 1, year := year t + 1\<rparr>"
      by (simp add: next_day_def upd Let_def)
    have "days_before_month (year t) 12 + get_month_day t = 365 + is_leap (year t)"
      using days_before_next [OF assms(1)] days_of_year [of "year t"] year(2) by simp
    then have "day_no (next_day t) = day_no t + 1"
      using year by (simp add: next_day day_no_def days_before_year_Suc)
    then show ?thesis by (simp add: next_day get_month_day_def month_len_simps)
  qed
  then show "day_no (next_day t) = day_no t + 1" "1 \<le> month (next_day t)" "month (next_day t) \<le> 12"
    "1 \<le> day (next_day t)" "day (next_day t) \<le> get_month_day (next_day t)" by blast+
qed

lemma update_ktime_midnight:
  assumes "second t = 59" "minute t = 59" "hour t = 23"
  shows "day (update_ktime t) = day (next_day t)" "month (update_ktime t) = month (next_day t)"
    "year (update_ktime t) = year (next_day t)" "second (update_ktime t) = 0" "minute (update_ktime t) = 0"
    "hour (update_ktime t) = 0" "week_day (update_ktime t) = (if week_day t = 6 then 0 else week_day t + 1) \<or> 6 < week_day t"
  using assms by (auto simp: update_ktime_def next_day_def get_month_day_def Let_def)

text \<open>
  C16. One call of \<open>update_ktime\<close> moves the clock on by exactly one second and keeps it a valid date and
  time, in a calendar in which every fourth year is a leap year: the tests of \<open>is_leap\<close> for 400 and 100
  are in an order in which they never matter.
\<close>

theorem update_ktime_second:
  assumes "ktime_ok t"
  shows "ktime_ok (update_ktime t) \<and> seconds_of (update_ktime t) = seconds_of t + 1 \<and>
    is_leap (year t) = (if 4 dvd year t then 1 else 0)"
proof -
  note ok = assms [unfolded ktime_ok_def]
  have seconds: "seconds_of u = 86400 * day_no u + 3600 * hour u + 60 * minute u + second u" for u
    by (simp add: seconds_of_def day_no_def)
  have "ktime_ok (update_ktime t) \<and> seconds_of (update_ktime t) = seconds_of t + 1"
  proof (cases "second t = 59 \<and> minute t = 59 \<and> hour t = 23")
    case True
    then have mid: "second t = 59" "minute t = 59" "hour t = 23" by simp_all
    note M = update_ktime_midnight [OF mid]
    have N: "day_no (next_day t) = day_no t + 1" "1 \<le> month (next_day t)" "month (next_day t) \<le> 12"
      "1 \<le> day (next_day t)" "day (next_day t) \<le> get_month_day (next_day t)"
      using ok by (intro next_day_no; simp)+
    have "day_no (update_ktime t) = day_no (next_day t)" "get_month_day (update_ktime t) = get_month_day (next_day t)"
      using M by (simp_all add: day_no_def get_month_day_def)
    then show ?thesis using M N ok mid by (auto simp: ktime_ok_def seconds)
  next
    case False
    then show ?thesis using ok
      by (auto simp: update_ktime_def Let_def ktime_ok_def get_month_day_def seconds day_no_def)
  qed
  then show ?thesis by (simp add: is_leap_iff)
qed

definition demo_time :: ktime where
  "demo_time = \<lparr>second = 59, minute = 59, hour = 23, day = 28, month = 2, year = 2100, week_day = 0, year_day = 59\<rparr>"

text \<open>2100 is no leap year, but the clock goes to its 29th of February.\<close>

theorem update_ktime_second_witness:
  "ktime_ok (update_ktime demo_time) \<and> day (update_ktime demo_time) = 29 \<and> month (update_ktime demo_time) = 2"
proof -
  have "ktime_ok demo_time" by (simp add: ktime_ok_def demo_time_def get_month_day_def month_len_simps is_leap_def)
  from update_ktime_second [OF this] show ?thesis
    by (simp add: demo_time_def update_ktime_def get_month_day_def month_len_simps is_leap_def Let_def)
qed

text \<open>
  A number of ticks survives the way through a \<open>timeval\<close>, below the bound at which the seconds
  saturate.
\<close>

lemma systicks_roundtrip:
  assumes "ticks div 500 < MAX_SYSTICKS_VALUE div 500"
  shows "(case systicks_to_timeval ticks of (sec, usec) \<Rightarrow> timeval_to_systicks sec usec) = ticks"
proof -
  have m: "unat (ticks mod 500) < 500" by (simp add: unat_mod)
  have "unat ((ticks mod 500) * 2 * 1000) = unat (ticks mod 500) * 2000"
    using m by (subst unat_mult_lem [THEN iffD1] | subst unat_word_ariths | simp)+
  then have "unat ((ticks mod 500) * 2 * 1000 div 2000) = unat (ticks mod 500)"
    by (simp add: unat_div)
  then have "(ticks mod 500) * 2 * 1000 div 2000 = ticks mod 500" by (simp only: word_unat_eq_iff)
  moreover have "500 * (ticks div 500) + ticks mod 500 = ticks" by (metis mult_div_mod_eq)
  moreover have "\<not> MAX_SYSTICKS_VALUE div 500 \<le> ticks div 500" using assms by (simp only: not_le)
  ultimately show ?thesis
    by (simp add: systicks_to_timeval_def timeval_to_systicks_def Let_def)
qed

end
