(* ===== verification/IpcTable.thy ===== *)
theory IpcTable
  imports Prelude
begin

section \<open>Tables of named kernel objects\<close>

text \<open>
  Semaphores, message queues, named pipes and shared memory are kept in tables of 128 slots with a fixed id
  each; \<open>sem.c\<close>, \<open>msgqueue.c\<close>, \<open>fifo.c\<close> and \<open>sharemem.c\<close> search them with the same loops. A slot is free
  while the first byte of its name is 0. The interface \<open>name_table\<close> states what the four kinds of slot have
  in common; a table then behaves as a finite map from names to ids.

  A stored name is an array of 24 bytes. The name a caller passes is memory: \<open>memcpy\<close> copies 24
  bytes of it whatever its length, and \<open>strcmp\<close> (\<open>src/src/lib/string.c\<close>) compares up to its end.
\<close>

abbreviation NAME_LEN :: nat where
  "NAME_LEN \<equiv> 24"

abbreviation TABLE_NR :: nat where
  "TABLE_NR \<equiv> 128"

fun strcmp :: "u8 list \<Rightarrow> mem \<Rightarrow> nat \<Rightarrow> int" where
  "strcmp [] b i = 0"
| "strcmp (x # xs) b i =
     (if x \<noteq> 0 \<and> x = b i then strcmp xs b (i + 1)
      else if sint x < sint (b i) then -1 else if sint x > sint (b i) then 1 else 0)"

text \<open>\<open>memcpy(name, src, 24); name[23] = 0\<close> and \<open>memset(name, 0, 24)\<close>.\<close>

definition store_name :: "mem \<Rightarrow> u8 list" where
  "store_name nm = (bytes nm NAME_LEN)[NAME_LEN - 1 := 0]"

definition clear_name :: "u8 list" where
  "clear_name = replicate NAME_LEN 0"

definition named :: "u8 list \<Rightarrow> bool" where
  "named name \<longleftrightarrow> name ! 0 \<noteq> 0"

text \<open>The loop that returns the first slot with a property.\<close>

fun find_slot_from :: "('r \<Rightarrow> bool) \<Rightarrow> nat \<Rightarrow> 'r list \<Rightarrow> nat option" where
  "find_slot_from P i [] = None"
| "find_slot_from P i (r # rs) = (if P r then Some i else find_slot_from P (i + 1) rs)"

abbreviation find_slot :: "('r \<Rightarrow> bool) \<Rightarrow> 'r list \<Rightarrow> nat option" where
  "find_slot P rs \<equiv> find_slot_from P 0 rs"

lemma find_slot_from_Some:
  "find_slot_from P i rs = Some j \<longleftrightarrow> (\<exists>m < length rs. j = i + m \<and> P (rs ! m) \<and> (\<forall>l < m. \<not> P (rs ! l)))"
proof (induction rs arbitrary: i)
  case (Cons r rs)
  show ?case
  proof (cases "P r")
    case True
    then have "(\<forall>l < m. \<not> P ((r # rs) ! l)) \<longleftrightarrow> m = 0" for m by (cases m) (auto simp: All_less_Suc2)
    with True show ?thesis by auto
  next
    case False
    then show ?thesis by (simp add: Cons.IH Ex_less_Suc2 All_less_Suc2)
  qed
qed simp

lemma find_slot_Some:
  "find_slot P rs = Some j \<longleftrightarrow> j < length rs \<and> P (rs ! j) \<and> (\<forall>m < j. \<not> P (rs ! m))"
  unfolding find_slot_from_Some add_0 by blast

lemma find_slot_cong: "(\<And>r. r \<in> set rs \<Longrightarrow> P r = Q r) \<Longrightarrow> find_slot_from P i rs = find_slot_from Q i rs"
  by (induction rs arbitrary: i) auto

lemma find_slot_None: "find_slot_from P i rs = None \<longleftrightarrow> (\<forall>r \<in> set rs. \<not> P r)"
  by (induction rs arbitrary: i) auto

text \<open>If at most one slot has the property, the loop finds it.\<close>

lemma find_slot_unique:
  assumes "j < length rs" "P (rs ! j)" "\<And>m. m < length rs \<Longrightarrow> P (rs ! m) \<Longrightarrow> m = j"
  shows "find_slot P rs = Some j"
  unfolding find_slot_Some
proof (intro conjI allI impI notI)
  fix m assume "m < j" "P (rs ! m)"
  with assms(1) assms(3) [of m] show False by simp
qed (rule assms)+

subsection \<open>Names as strings\<close>

definition str_of :: "u8 list \<Rightarrow> u8 list" where
  "str_of name = takeWhile (\<lambda>c. c \<noteq> 0) name"

text \<open>A name that fits: 1 to 23 bytes and a terminating 0.\<close>

definition fits :: "mem \<Rightarrow> bool" where
  "fits nm \<longleftrightarrow> nm 0 \<noteq> 0 \<and> (\<exists>n < NAME_LEN. nm n = 0)"

definition name_str :: "mem \<Rightarrow> u8 list" where
  "name_str nm = str_of (bytes nm NAME_LEN)"

lemma strcmp_0:
  assumes "0 \<in> set xs"
  shows "strcmp xs b i = 0 \<longleftrightarrow> str_of xs = takeWhile (\<lambda>c. c \<noteq> 0) (List.map b [i..<i + length xs])"
  using assms
proof (induction xs arbitrary: i)
  case (Cons x xs)
  have up: "[i..<Suc (i + length xs)] = i # [Suc i..<Suc (i + length xs)]" by (simp add: upt_rec)
  show ?case
  proof (cases "x \<noteq> 0 \<and> x = b i")
    case True
    with Cons.prems have "0 \<in> set xs" by auto
    from Cons.IH [OF this, of "Suc i"] True show ?thesis by (simp add: str_of_def up del: upt_Suc)
  next
    case False
    moreover have "sint x = sint (b i) \<longleftrightarrow> x = b i" by (rule word_eq_iff_signed [symmetric])
    ultimately show ?thesis by (auto simp: str_of_def up simp del: upt_Suc)
  qed
qed simp

lemma str_of_store:
  assumes "fits nm"
  shows "str_of (store_name nm) = name_str nm"
proof -
  obtain n where n: "n < NAME_LEN" "nm n = 0" using assms by (auto simp: fits_def)
  have b: "bytes nm NAME_LEN = bytes nm 23 @ [nm 23]"
    using take_bytes [of 23 NAME_LEN nm] by (simp add: bytes_def upt_rec numeral_eq_Suc)
  have "store_name nm = bytes nm 23 @ [0]" by (simp add: store_name_def b list_update_append)
  moreover have "takeWhile (\<lambda>c. c \<noteq> 0) (bytes nm 23 @ [0]) = takeWhile (\<lambda>c. c \<noteq> 0) (bytes nm 23 @ [nm 23])"
  proof (cases "n < 23")
    case True
    then have "0 \<in> set (bytes nm 23)" using n(2) by (auto simp: bytes_def)
    then show ?thesis by simp
  next
    case False
    with n show ?thesis by (simp add: less_Suc_eq numeral_eq_Suc)
  qed
  ultimately show ?thesis by (simp add: str_of_def name_str_def b)
qed

text \<open>\<open>memset(name, 0, 24); strcpy(name, src)\<close>, for a name that fits.\<close>

definition copy_name :: "mem \<Rightarrow> u8 list" where
  "copy_name nm = (let s = takeWhile (\<lambda>c. c \<noteq> 0) (bytes nm NAME_LEN) in s @ replicate (NAME_LEN - length s) 0)"

text \<open>What both ways to store a name have in common.\<close>

definition stores :: "u8 list \<Rightarrow> mem \<Rightarrow> bool" where
  "stores name nm \<longleftrightarrow> length name = NAME_LEN \<and> 0 \<in> set name \<and> named name \<and> str_of name = name_str nm"

lemma stores_store_name: "fits nm \<Longrightarrow> stores (store_name nm) nm"
  using str_of_store [of nm] by (simp add: stores_def store_name_def set_update_memI fits_def named_def)

lemma stores_copy_name:
  assumes "fits nm"
  shows "stores (copy_name nm) nm"
proof -
  let ?s = "takeWhile (\<lambda>c. c \<noteq> 0) (bytes nm NAME_LEN)"
  obtain n where n: "n < NAME_LEN" "nm n = 0" "nm 0 \<noteq> 0" using assms by (auto simp: fits_def)
  then have zero: "0 \<in> set (bytes nm NAME_LEN)" by (force simp: in_set_conv_nth)
  have "length ?s + length (dropWhile (\<lambda>c. c \<noteq> 0) (bytes nm NAME_LEN)) = NAME_LEN"
    by (simp only: length_append [symmetric] takeWhile_dropWhile_id length_bytes)
  moreover have "dropWhile (\<lambda>c. c \<noteq> 0) (bytes nm NAME_LEN) \<noteq> []" using zero by (simp add: dropWhile_eq_Nil_conv)
  ultimately have len: "length ?s < NAME_LEN" by (cases "dropWhile (\<lambda>c. c \<noteq> 0) (bytes nm NAME_LEN)") auto
  have nz: "\<forall>c \<in> set ?s. c \<noteq> 0" by (auto dest: set_takeWhileD)
  have s0: "?s \<noteq> []" "?s ! 0 \<noteq> 0" using n(3) by (simp_all add: bytes_def upt_conv_Cons)
  have rep: "takeWhile (\<lambda>c. c \<noteq> 0) (replicate k 0) = []" for k :: nat by (cases k) simp_all
  have "str_of (?s @ replicate (NAME_LEN - length ?s) 0) = ?s"
    unfolding str_of_def by (subst takeWhile_append2) (use nz rep in auto)
  moreover have "(?s @ replicate (NAME_LEN - length ?s) 0) ! 0 \<noteq> 0" using s0 by (simp only: nth_append length_greater_0_conv) simp
  ultimately show ?thesis
    using len by (simp add: stores_def copy_name_def Let_def name_str_def named_def) (simp add: str_of_def)
qed

lemma clear_name_simps [simp]: "\<not> named clear_name" "length clear_name = NAME_LEN" "0 \<in> set clear_name"
  by (simp_all add: clear_name_def named_def)

subsection \<open>The interface\<close>

text \<open>What the table of a name stands for: the id of the slot that has it.\<close>

definition table_map :: "('r \<Rightarrow> u8 list) \<Rightarrow> ('r \<Rightarrow> int) \<Rightarrow> 'r list \<Rightarrow> u8 list \<rightharpoonup> int" where
  "table_map name_of id_of tbl s =
     map_option (\<lambda>i. id_of (tbl ! i)) (find_slot (\<lambda>r. named (name_of r) \<and> str_of (name_of r) = s) tbl)"

text \<open>A well-formed table: fixed distinct ids, terminated names, no name twice.\<close>

definition table_ok :: "('r \<Rightarrow> u8 list) \<Rightarrow> ('r \<Rightarrow> int) \<Rightarrow> 'r list \<Rightarrow> bool" where
  "table_ok name_of id_of tbl \<longleftrightarrow> length tbl = TABLE_NR \<and>
     (\<forall>i < length tbl. id_of (tbl ! i) = 1 + 3 * int i) \<and>
     (\<forall>r \<in> set tbl. length (name_of r) = NAME_LEN \<and> 0 \<in> set (name_of r)) \<and>
     (\<forall>i < length tbl. \<forall>j < length tbl. named (name_of (tbl ! i)) \<and> named (name_of (tbl ! j)) \<and>
        str_of (name_of (tbl ! i)) = str_of (name_of (tbl ! j)) \<longrightarrow> i = j)"

lemma table_okD:
  assumes "table_ok name_of id_of tbl"
  shows "length tbl = TABLE_NR" "i < length tbl \<Longrightarrow> id_of (tbl ! i) = 1 + 3 * int i"
    and "i < length tbl \<Longrightarrow> length (name_of (tbl ! i)) = NAME_LEN" "i < length tbl \<Longrightarrow> 0 \<in> set (name_of (tbl ! i))"
    and "i < length tbl \<Longrightarrow> j < length tbl \<Longrightarrow> named (name_of (tbl ! i)) \<Longrightarrow> named (name_of (tbl ! j)) \<Longrightarrow>
      str_of (name_of (tbl ! i)) = str_of (name_of (tbl ! j)) \<Longrightarrow> i = j"
  using assms unfolding table_ok_def by (auto simp del: One_nat_def)

lemma table_okI:
  assumes "length tbl = TABLE_NR" "\<And>i. i < length tbl \<Longrightarrow> id_of (tbl ! i) = 1 + 3 * int i"
    and "\<And>i. i < length tbl \<Longrightarrow> length (name_of (tbl ! i)) = NAME_LEN" "\<And>i. i < length tbl \<Longrightarrow> 0 \<in> set (name_of (tbl ! i))"
    and "\<And>i j. i < length tbl \<Longrightarrow> j < length tbl \<Longrightarrow> named (name_of (tbl ! i)) \<Longrightarrow> named (name_of (tbl ! j)) \<Longrightarrow>
      str_of (name_of (tbl ! i)) = str_of (name_of (tbl ! j)) \<Longrightarrow> i = j"
  shows "table_ok name_of id_of tbl"
  using assms unfolding table_ok_def by (auto simp: in_set_conv_nth)

lemma table_map_Some:
  assumes "table_ok name_of id_of tbl"
  shows "table_map name_of id_of tbl s = Some v \<longleftrightarrow>
    (\<exists>i < length tbl. named (name_of (tbl ! i)) \<and> str_of (name_of (tbl ! i)) = s \<and> v = id_of (tbl ! i))"
proof -
  have "find_slot (\<lambda>r. named (name_of r) \<and> str_of (name_of r) = s) tbl = Some i \<longleftrightarrow>
      i < length tbl \<and> named (name_of (tbl ! i)) \<and> str_of (name_of (tbl ! i)) = s" for i
  proof
    assume "i < length tbl \<and> named (name_of (tbl ! i)) \<and> str_of (name_of (tbl ! i)) = s"
    then show "find_slot (\<lambda>r. named (name_of r) \<and> str_of (name_of r) = s) tbl = Some i"
      using table_okD(5) [OF assms] by (intro find_slot_unique) auto
  qed (simp add: find_slot_Some)
  then show ?thesis by (auto simp: table_map_def)
qed

text \<open>
  What the three \<open>get\<close> functions do with the flag \<open>IPC_CREAT\<close>, where \<open>excl\<close> is \<open>IPC_EXCL\<close>, and what the
  \<open>put\<close> functions do: the shape the interface reasons about. The components define their own
  operations and show that they have it.
\<close>

definition get_slot :: "('r \<Rightarrow> u8 list) \<Rightarrow> ('r \<Rightarrow> int) \<Rightarrow> ('r \<Rightarrow> 'r) \<Rightarrow> bool \<Rightarrow> 'r list \<Rightarrow> mem \<Rightarrow> int \<times> 'r list" where
  "get_slot name_of id_of fill excl tbl nm =
     (case find_slot (\<lambda>r. named (name_of r) \<and> strcmp (name_of r) nm 0 = 0) tbl of
        Some i \<Rightarrow> if excl then (-1, tbl) else (id_of (tbl ! i), tbl)
      | None \<Rightarrow> (case find_slot (\<lambda>r. \<not> named (name_of r)) tbl of
            None \<Rightarrow> (-1, tbl)
          | Some i \<Rightarrow> (id_of (tbl[i := fill (tbl ! i)] ! i), tbl[i := fill (tbl ! i)])))"

definition put_slot :: "('r \<Rightarrow> u8 list) \<Rightarrow> ('r \<Rightarrow> int) \<Rightarrow> ('r \<Rightarrow> 'r) \<Rightarrow> 'r list \<Rightarrow> int \<Rightarrow> int \<times> 'r list" where
  "put_slot name_of id_of clear tbl v =
     (case find_slot (\<lambda>r. id_of r = v \<and> named (name_of r)) tbl of
        Some i \<Rightarrow> (0, tbl[i := clear (tbl ! i)]) | None \<Rightarrow> (-1, tbl))"

text \<open>The result of a \<open>get\<close> on a finite map from names to ids.\<close>

definition get_result :: "('r \<Rightarrow> u8 list) \<Rightarrow> ('r \<Rightarrow> int) \<Rightarrow> bool \<Rightarrow> 'r list \<Rightarrow> mem \<Rightarrow> int \<times> 'r list \<Rightarrow> bool" where
  "get_result name_of id_of excl tbl nm res \<longleftrightarrow>
     (case table_map name_of id_of tbl (name_str nm) of
        Some v \<Rightarrow> res = (if excl then -1 else v, tbl)
      | None \<Rightarrow> (if \<forall>r \<in> set tbl. named (name_of r) then res = (-1, tbl)
          else \<exists>v tbl'. res = (v, tbl') \<and> table_ok name_of id_of tbl' \<and>
            v \<notin> ran (table_map name_of id_of tbl) \<and> 0 < v \<and>
            table_map name_of id_of tbl' = (table_map name_of id_of tbl)(name_str nm \<mapsto> v)))"

locale name_table =
  fixes name_of :: "'r \<Rightarrow> u8 list"
    and id_of :: "'r \<Rightarrow> int"
    and fill :: "mem \<Rightarrow> 'p \<Rightarrow> 'r \<Rightarrow> 'r"
    and clear :: "'r \<Rightarrow> 'r"
  assumes name_fill: "fits nm \<Longrightarrow> stores (name_of (fill nm p r)) nm"
    and id_fill: "id_of (fill nm p r) = id_of r"
    and name_clear: "name_of (clear r) = clear_name"
    and id_clear: "id_of (clear r) = id_of r"
begin

lemma by_name:
  assumes "table_ok name_of id_of tbl" "fits nm"
  shows "map_option (\<lambda>i. id_of (tbl ! i)) (find_slot (\<lambda>r. named (name_of r) \<and> strcmp (name_of r) nm 0 = 0) tbl) =
    table_map name_of id_of tbl (name_str nm)"
proof -
  have "strcmp (name_of (tbl ! i)) nm 0 = 0 \<longleftrightarrow> str_of (name_of (tbl ! i)) = name_str nm" if "i < length tbl" for i
    using strcmp_0 [OF table_okD(4) [OF assms(1) that], of nm 0] table_okD(3) [OF assms(1) that]
    by (simp add: name_str_def str_of_def bytes_def)
  then have "find_slot (\<lambda>r. named (name_of r) \<and> strcmp (name_of r) nm 0 = 0) tbl =
      find_slot (\<lambda>r. named (name_of r) \<and> str_of (name_of r) = name_str nm) tbl"
    by (intro find_slot_cong) (auto simp: in_set_conv_nth)
  then show ?thesis by (simp add: table_map_def)
qed

lemma by_id:
  assumes "table_ok name_of id_of tbl"
  shows "find_slot (\<lambda>r. id_of r = v \<and> named (name_of r)) tbl = Some i \<longleftrightarrow>
    i < length tbl \<and> id_of (tbl ! i) = v \<and> named (name_of (tbl ! i))"
  using table_okD(2) [OF assms] by (auto simp: find_slot_Some)

lemma create_slot:
  assumes ok: "table_ok name_of id_of tbl" and nm: "fits nm" and new: "table_map name_of id_of tbl (name_str nm) = None"
    and free: "find_slot (\<lambda>r. \<not> named (name_of r)) tbl = Some i"
  shows "table_ok name_of id_of (tbl[i := fill nm p (tbl ! i)])"
    and "table_map name_of id_of (tbl[i := fill nm p (tbl ! i)]) = (table_map name_of id_of tbl)(name_str nm \<mapsto> id_of (tbl ! i))"
    and "id_of (tbl ! i) \<notin> ran (table_map name_of id_of tbl)"
proof -
  note D = table_okD [OF ok] and M = table_map_Some [OF ok]
  let ?t = "tbl[i := fill nm p (tbl ! i)]"
  have i: "i < length tbl" "\<not> named (name_of (tbl ! i))" using free by (simp_all add: find_slot_Some)
  define new where "new = name_of (fill nm p (tbl ! i))"
  have nth: "name_of (?t ! j) = (if j = i then new else name_of (tbl ! j))" "id_of (?t ! j) = id_of (tbl ! j)"
    if "j < length tbl" for j
    using that i by (simp_all add: nth_list_update new_def id_fill)
  have store: "length new = NAME_LEN" "0 \<in> set new" "str_of new = name_str nm" "named new"
    using name_fill [OF nm, of p "tbl ! i"] by (simp_all add: stores_def new_def)
  have other: "named (name_of (tbl ! j)) \<Longrightarrow> j < length tbl \<Longrightarrow> str_of (name_of (tbl ! j)) \<noteq> name_str nm" for j
    using new M [of "name_str nm" "id_of (tbl ! j)"] by auto
  show ok': "table_ok name_of id_of ?t"
  proof (rule table_okI)
    fix j l assume a: "j < length ?t" "l < length ?t" "named (name_of (?t ! j))" "named (name_of (?t ! l))"
      "str_of (name_of (?t ! j)) = str_of (name_of (?t ! l))"
    then show "j = l" using D(5) [of j l] other [of j] other [of l] store(3) nth(1) [of j] nth(1) [of l]
      by (cases "j = i"; cases "l = i") auto
  qed (use D(1-4) nth store in auto)
  show "id_of (tbl ! i) \<notin> ran (table_map name_of id_of tbl)"
    using i D(2) by (auto simp: ran_def M)
  show "table_map name_of id_of ?t = (table_map name_of id_of tbl)(name_str nm \<mapsto> id_of (tbl ! i))"
  proof
    fix s
    have map: "table_map name_of id_of ?t s = Some v \<longleftrightarrow> (\<exists>j < length tbl. v = id_of (tbl ! j) \<and>
        (if j = i then s = name_str nm else named (name_of (tbl ! j)) \<and> str_of (name_of (tbl ! j)) = s))" for v
      using nth store(3,4) by (auto simp: table_map_Some [OF ok'] cong: conj_cong)
    have "table_map name_of id_of ?t s = Some v \<longleftrightarrow> ((table_map name_of id_of tbl)(name_str nm \<mapsto> id_of (tbl ! i))) s = Some v" for v
    proof (cases "s = name_str nm")
      case True
      with i(1) other show ?thesis unfolding map by auto
    next
      case False
      with i(2) show ?thesis unfolding map by (auto simp: M split: if_splits)
    qed
    then show "table_map name_of id_of ?t s = ((table_map name_of id_of tbl)(name_str nm \<mapsto> id_of (tbl ! i))) s"
      by (metis not_None_eq)
  qed
qed

lemma remove_slot:
  assumes ok: "table_ok name_of id_of tbl" and i: "i < length tbl"
  shows "table_ok name_of id_of (tbl[i := clear (tbl ! i)])"
    and "table_map name_of id_of (tbl[i := clear (tbl ! i)]) s =
      (if table_map name_of id_of tbl s = Some (id_of (tbl ! i)) then None else table_map name_of id_of tbl s)"
proof -
  note D = table_okD [OF ok] and M = table_map_Some [OF ok]
  let ?t = "tbl[i := clear (tbl ! i)]"
  have nth: "name_of (?t ! j) = (if j = i then clear_name else name_of (tbl ! j))" "id_of (?t ! j) = id_of (tbl ! j)"
    if "j < length tbl" for j
    using that i by (simp_all add: nth_list_update name_clear id_clear)
  have clr: "\<not> named clear_name" "length clear_name = NAME_LEN" "0 \<in> set clear_name"
    by (simp_all add: clear_name_def named_def)
  show ok': "table_ok name_of id_of ?t"
  proof (rule table_okI)
    fix j l assume "j < length ?t" "l < length ?t" "named (name_of (?t ! j))" "named (name_of (?t ! l))"
      "str_of (name_of (?t ! j)) = str_of (name_of (?t ! l))"
    then show "j = l" using D(5) [of j l] clr nth(1) [of j] nth(1) [of l] by (auto split: if_splits)
  qed (use D(1-4) nth clr in auto)
  have map: "table_map name_of id_of ?t s = Some v \<longleftrightarrow> (\<exists>j < length tbl. j \<noteq> i \<and> v = id_of (tbl ! j) \<and>
      named (name_of (tbl ! j)) \<and> str_of (name_of (tbl ! j)) = s)" for v
    using nth clr(1) by (auto simp: table_map_Some [OF ok'] cong: conj_cong split: if_splits)
  have inj: "j < length tbl \<Longrightarrow> id_of (tbl ! j) = id_of (tbl ! i) \<Longrightarrow> j = i" for j using D(2) i by simp
  have "table_map name_of id_of ?t s = Some v \<longleftrightarrow>
      (if table_map name_of id_of tbl s = Some (id_of (tbl ! i)) then None else table_map name_of id_of tbl s) = Some v" for v
  proof (cases "table_map name_of id_of tbl s = Some (id_of (tbl ! i))")
    case True
    then obtain j where j: "j < length tbl" "named (name_of (tbl ! j))" "str_of (name_of (tbl ! j)) = s"
        "id_of (tbl ! i) = id_of (tbl ! j)" unfolding M by blast
    then have "j = i" using inj [of j] by simp
    have "l = i" if "l < length tbl" "named (name_of (tbl ! l))" "str_of (name_of (tbl ! l)) = s" for l
      using D(5) [OF that(1) j(1) that(2) j(2)] that(3) j(3) \<open>j = i\<close> by simp
    with True show ?thesis unfolding map by auto
  next
    case False
    then have "\<not> (named (name_of (tbl ! i)) \<and> str_of (name_of (tbl ! i)) = s)" using i unfolding M by blast
    then have "table_map name_of id_of tbl s = Some v \<longleftrightarrow> table_map name_of id_of ?t s = Some v"
      unfolding M map by metis
    with False show ?thesis by simp
  qed
  then show "table_map name_of id_of ?t s =
      (if table_map name_of id_of tbl s = Some (id_of (tbl ! i)) then None else table_map name_of id_of tbl s)"
    by (metis not_None_eq)
qed

text \<open>
  A table is a finite map from names to ids: \<open>get\<close> looks the name up, or adds it under a new positive id
  if a slot is free, and \<open>put\<close> removes the name that has the id.
\<close>

lemma get_slot_spec:
  assumes ok: "table_ok name_of id_of tbl" and nm: "fits nm"
  shows "get_result name_of id_of excl tbl nm (get_slot name_of id_of (fill nm p) excl tbl nm)"
proof (cases "table_map name_of id_of tbl (name_str nm)")
  case (Some v)
  then obtain i where "find_slot (\<lambda>r. named (name_of r) \<and> strcmp (name_of r) nm 0 = 0) tbl = Some i" "id_of (tbl ! i) = v"
    using by_name [OF assms] by auto
  with Some show ?thesis by (simp add: get_slot_def get_result_def)
next
  case None
  then have absent: "find_slot (\<lambda>r. named (name_of r) \<and> strcmp (name_of r) nm 0 = 0) tbl = None"
    using by_name [OF assms] by simp
  show ?thesis
  proof (cases "find_slot (\<lambda>r. \<not> named (name_of r)) tbl")
    case full: None
    with absent have "get_slot name_of id_of (fill nm p) excl tbl nm = (-1, tbl)" by (simp add: get_slot_def)
    moreover have "\<forall>r \<in> set tbl. named (name_of r)" using full by (simp add: find_slot_None)
    ultimately show ?thesis using None by (simp add: get_result_def)
  next
    case (Some i)
    then have i: "i < length tbl" "\<not> named (name_of (tbl ! i))" by (simp_all add: find_slot_Some)
    then have free: "\<not> (\<forall>r \<in> set tbl. named (name_of r))" using nth_mem by blast
    have get: "get_slot name_of id_of (fill nm p) excl tbl nm = (id_of (tbl ! i), tbl[i := fill nm p (tbl ! i)])"
      using absent Some i(1) by (simp add: get_slot_def id_fill)
    have "0 < id_of (tbl ! i)" using table_okD(2) [OF ok i(1)] by simp
    with get create_slot(1,2) [OF ok nm None Some, of p] create_slot(3) [OF ok nm None Some]
    have "\<exists>v tbl'. get_slot name_of id_of (fill nm p) excl tbl nm = (v, tbl') \<and> table_ok name_of id_of tbl' \<and>
        v \<notin> ran (table_map name_of id_of tbl) \<and> 0 < v \<and>
        table_map name_of id_of tbl' = (table_map name_of id_of tbl)(name_str nm \<mapsto> v)"
      by blast
    with None free show ?thesis unfolding get_result_def None option.case if_not_P [OF free] by blast
  qed
qed

lemma put_slot_spec:
  assumes ok: "table_ok name_of id_of tbl" and "put_slot name_of id_of clear tbl v = (r, tbl')"
  shows "table_ok name_of id_of tbl' \<and> r = (if v \<in> ran (table_map name_of id_of tbl) then 0 else -1) \<and>
    table_map name_of id_of tbl' =
      (\<lambda>s. if table_map name_of id_of tbl s = Some v then None else table_map name_of id_of tbl s)"
proof (cases "find_slot (\<lambda>r. id_of r = v \<and> named (name_of r)) tbl")
  case None
  then have "v \<notin> ran (table_map name_of id_of tbl)"
    using by_id [OF ok, of v] by (auto simp: ran_def table_map_Some [OF ok])
  with None assms show ?thesis by (auto simp: put_slot_def ran_def fun_eq_iff)
next
  case (Some i)
  then have i: "i < length tbl" "id_of (tbl ! i) = v" "named (name_of (tbl ! i))" using by_id [OF ok, of v i] by simp_all
  then have "v \<in> ran (table_map name_of id_of tbl)" by (auto simp: ran_def table_map_Some [OF ok])
  with Some assms remove_slot [OF ok i(1)] i(2) show ?thesis by (auto simp: put_slot_def fun_eq_iff)
qed

end

end
