(* ===== verification/Ipc.thy ===== *)
theory Ipc
  imports IpcTable Semaphore
begin

section \<open>Named semaphores\<close>

text \<open>
  \<open>src/src/ipc/sem.c\<close>: the semaphores of user programs, a table of named slots around kernel
  semaphores. Each operation on the table runs between a down and an up of the mutex of the table
  and is one function here. The flags are those of \<open>src/src/include/sys/ipc.h\<close>.
\<close>

definition IPC_CREAT :: u32 where "IPC_CREAT = 0x01"
definition IPC_EXCL :: u32 where "IPC_EXCL = 0x02"
definition IPC_NOWAIT :: u32 where "IPC_NOWAIT = 0x04"
definition IPC_NOERROR :: u32 where "IPC_NOERROR = 0x08"
definition IPC_EXCEPT :: u32 where "IPC_EXCEPT = 0x10"

subsection \<open>Semaphores\<close>

record sem_slot =
  sid :: int
  ssema :: semaphore
  sname :: "u8 list"

definition sem_find_by_name :: "sem_slot list \<Rightarrow> mem \<Rightarrow> nat option" where
  "sem_find_by_name tbl nm = find_slot (\<lambda>r. named (sname r) \<and> strcmp (sname r) nm 0 = 0) tbl"

definition sem_find_by_id :: "sem_slot list \<Rightarrow> int \<Rightarrow> nat option" where
  "sem_find_by_id tbl semid = find_slot (\<lambda>r. sid r = semid \<and> named (sname r)) tbl"

definition sem_fill :: "mem \<Rightarrow> int \<Rightarrow> sem_slot \<Rightarrow> sem_slot" where
  "sem_fill nm value r = r\<lparr>ssema := semaphore_init value, sname := store_name nm\<rparr>"

definition sem_alloc :: "sem_slot list \<Rightarrow> mem \<Rightarrow> int \<Rightarrow> (nat \<times> sem_slot list) option" where
  "sem_alloc tbl nm value = map_option (\<lambda>i. (i, tbl[i := sem_fill nm value (tbl ! i)]))
     (find_slot (\<lambda>r. \<not> named (sname r)) tbl)"

definition sem_free :: "sem_slot \<Rightarrow> sem_slot" where
  "sem_free r = r\<lparr>sname := clear_name\<rparr>"

text \<open>The name is \<open>None\<close> for a \<open>NULL\<close> pointer.\<close>

definition sem_get :: "sem_slot list \<Rightarrow> mem option \<Rightarrow> int \<Rightarrow> u32 \<Rightarrow> int \<times> sem_slot list" where
  "sem_get tbl name value semflg =
     (case name of None \<Rightarrow> (-1, tbl)
      | Some nm \<Rightarrow>
          if semflg AND IPC_CREAT \<noteq> 0
          then case sem_find_by_name tbl nm of
                 Some i \<Rightarrow> if semflg AND IPC_EXCL \<noteq> 0 then (-1, tbl) else (sid (tbl ! i), tbl)
               | None \<Rightarrow> (case sem_alloc tbl nm value of None \<Rightarrow> (-1, tbl)
                   | Some (i, tbl) \<Rightarrow> (sid (tbl ! i), tbl))
          else (-1, tbl))"

definition sem_put :: "sem_slot list \<Rightarrow> int \<Rightarrow> int \<times> sem_slot list" where
  "sem_put tbl semid = (case sem_find_by_id tbl semid of
     Some i \<Rightarrow> (0, tbl[i := sem_free (tbl ! i)]) | None \<Rightarrow> (-1, tbl))"

text \<open>\<open>sem_down\<close> and \<open>sem_up\<close>: the outer \<open>option\<close> is the kernel's failure in the scheduler.\<close>

definition sys_sem_down :: "sched \<Rightarrow> sem_slot list \<Rightarrow> int \<Rightarrow> u32 \<Rightarrow> (int \<times> sched \<times> sem_slot list) option" where
  "sys_sem_down s tbl semid semflg =
     (case sem_find_by_id tbl semid of None \<Rightarrow> Some (-1, s, tbl)
      | Some i \<Rightarrow>
          if semflg AND IPC_NOWAIT \<noteq> 0
          then case semaphore_try_down (ssema (tbl ! i)) of (r, m) \<Rightarrow>
                 if r \<noteq> 0 then Some (-1, s, tbl) else Some (0, s, tbl[i := (tbl ! i)\<lparr>ssema := m\<rparr>])
          else map_option (\<lambda>(b, s, m). (0, s, tbl[i := (tbl ! i)\<lparr>ssema := m\<rparr>])) (semaphore_down s (ssema (tbl ! i))))"

definition sys_sem_up :: "sched \<Rightarrow> sem_slot list \<Rightarrow> int \<Rightarrow> (int \<times> sched \<times> sem_slot list) option" where
  "sys_sem_up s tbl semid =
     (case sem_find_by_id tbl semid of None \<Rightarrow> Some (-1, s, tbl)
      | Some i \<Rightarrow> map_option (\<lambda>(s, m). (0, s, tbl[i := (tbl ! i)\<lparr>ssema := m\<rparr>])) (semaphore_up s (ssema (tbl ! i))))"

definition init_sem :: "sem_slot list" where
  "init_sem = List.map (\<lambda>i. \<lparr>sid = 1 + int i + int i * 2, ssema = semaphore_init 0, sname = clear_name\<rparr>) [0..<TABLE_NR]"

interpretation sem_table: name_table sname sid sem_fill sem_free
  by unfold_locales (simp_all add: stores_store_name sem_fill_def sem_free_def)

abbreviation sem_map :: "sem_slot list \<Rightarrow> u8 list \<rightharpoonup> int" where
  "sem_map \<equiv> table_map sname sid"

abbreviation sem_table_ok :: "sem_slot list \<Rightarrow> bool" where
  "sem_table_ok \<equiv> table_ok sname sid"

lemma init_sem_ok: "sem_table_ok init_sem"
  by (rule table_okI) (simp_all add: init_sem_def)

lemma init_sem_map: "sem_map init_sem = Map.empty"
  by (auto simp: fun_eq_iff table_map_def init_sem_def find_slot_None)

lemma sem_get_slot:
  "semflg AND IPC_CREAT \<noteq> 0 \<Longrightarrow>
     sem_get tbl (Some nm) value semflg = get_slot sname sid (sem_fill nm value) (semflg AND IPC_EXCL \<noteq> 0) tbl nm"
  by (simp add: sem_get_def get_slot_def sem_find_by_name_def sem_alloc_def split: option.splits)

lemma sem_put_slot: "sem_put = put_slot sname sid sem_free"
  by (intro ext) (simp add: sem_put_def put_slot_def sem_find_by_id_def)


definition demo_name :: mem where
  "demo_name = (\<lambda>i. if i < 4 then 0x61 else 0)"


lemmas sem_put_map = sem_table.put_slot_spec [folded sem_put_slot]

end
