(* ===== verification/MsgQueue.thy ===== *)
theory MsgQueue
  imports Ipc "HOL-Library.Multiset" "HOL-Library.Sublist"
begin

section \<open>Message queues\<close>

text \<open>
  \<open>src/src/ipc/msgqueue.c\<close>. The table of queues is a table of named slots like the table of
  semaphores. A send or a receive runs under the mutex of the queue; where it sleeps, after
  \<open>wait_queue_add\<close> and the release of the mutex, it is cut into the section before the sleep and the
  section after it. \<open>kmalloc\<close> of a message is an outcome given as an argument. The message type is a
  \<open>long\<close>, a word read with its sign; \<open>text\<close> is the memory behind the type of the caller's buffer.

  Between \<open>wait_queue_add\<close> and \<open>task_block\<close> the interrupts are on. The model has no clock tick there:
  a tick would put the list node of the task, which the wait queue holds, into a ready queue as well.
\<close>

definition MSG_MAX_LEN :: u16 where "MSG_MAX_LEN = 1000"
definition MSGQ_MAX_MSGS :: nat where "MSGQ_MAX_MSGS = 128"

record msg =
  mtype :: u32
  mlength :: u16
  mbuf :: "u8 list"

record msg_queue =
  mqid :: int
  msg_list :: "msg list"
  msgs :: u8
  msgsz :: u16
  senders :: "tid list"
  receivers :: "tid list"
  mqmutex :: semaphore
  mqname :: "u8 list"

subsection \<open>The table of queues\<close>

definition msg_queue_find_by_name :: "msg_queue list \<Rightarrow> mem \<Rightarrow> nat option" where
  "msg_queue_find_by_name tbl nm = find_slot (\<lambda>q. named (mqname q) \<and> strcmp (mqname q) nm 0 = 0) tbl"

definition msg_queue_find_by_id :: "msg_queue list \<Rightarrow> int \<Rightarrow> nat option" where
  "msg_queue_find_by_id tbl msgid = find_slot (\<lambda>q. mqid q = msgid \<and> named (mqname q)) tbl"

definition msg_queue_fill :: "mem \<Rightarrow> unit \<Rightarrow> msg_queue \<Rightarrow> msg_queue" where
  "msg_queue_fill nm _ q = q\<lparr>mqname := store_name nm, msg_list := [], msgs := 0, msgsz := MSG_MAX_LEN,
     senders := [], receivers := []\<rparr>"

definition msg_queue_alloc :: "msg_queue list \<Rightarrow> mem \<Rightarrow> (nat \<times> msg_queue list) option" where
  "msg_queue_alloc tbl nm = map_option (\<lambda>i. (i, tbl[i := msg_queue_fill nm () (tbl ! i)]))
     (find_slot (\<lambda>q. \<not> named (mqname q)) tbl)"

text \<open>The messages that are still in the queue stay allocated, and the tasks that wait stay asleep.\<close>

definition msg_queue_free :: "msg_queue \<Rightarrow> msg_queue" where
  "msg_queue_free q = q\<lparr>mqname := clear_name\<rparr>"

definition msg_queue_get :: "msg_queue list \<Rightarrow> mem option \<Rightarrow> u32 \<Rightarrow> int \<times> msg_queue list" where
  "msg_queue_get tbl name flags =
     (case name of None \<Rightarrow> (-1, tbl)
      | Some nm \<Rightarrow>
          if flags AND IPC_CREAT \<noteq> 0
          then case msg_queue_find_by_name tbl nm of
                 Some i \<Rightarrow> if flags AND IPC_EXCL \<noteq> 0 then (-1, tbl) else (mqid (tbl ! i), tbl)
               | None \<Rightarrow> (case msg_queue_alloc tbl nm of None \<Rightarrow> (-1, tbl)
                   | Some (i, tbl) \<Rightarrow> (mqid (tbl ! i), tbl))
          else (-1, tbl))"

definition msg_queue_put :: "msg_queue list \<Rightarrow> int \<Rightarrow> int \<times> msg_queue list" where
  "msg_queue_put tbl msgid = (case msg_queue_find_by_id tbl msgid of
     Some i \<Rightarrow> (0, tbl[i := msg_queue_free (tbl ! i)]) | None \<Rightarrow> (-1, tbl))"

definition init_msg_queue :: "(nat \<Rightarrow> msg_queue) \<Rightarrow> msg_queue list" where
  "init_msg_queue raw = List.map (\<lambda>i. (raw i)\<lparr>mqid := 1 + int i + int i * 2, msg_list := [], msgs := 0,
     mqmutex := semaphore_init 1, mqname := clear_name\<rparr>) [0..<TABLE_NR]"

interpretation msgq_table: name_table mqname mqid msg_queue_fill msg_queue_free
  by unfold_locales (simp_all add: stores_store_name msg_queue_fill_def msg_queue_free_def)

lemma msg_queue_get_slot:
  "flags AND IPC_CREAT \<noteq> 0 \<Longrightarrow> msg_queue_get tbl (Some nm) flags =
     get_slot mqname mqid (msg_queue_fill nm ()) (flags AND IPC_EXCL \<noteq> 0) tbl nm"
  by (simp add: msg_queue_get_def get_slot_def msg_queue_find_by_name_def msg_queue_alloc_def split: option.splits)

lemma msg_queue_put_slot: "msg_queue_put = put_slot mqname mqid msg_queue_free"
  by (intro ext) (simp add: msg_queue_put_def put_slot_def msg_queue_find_by_id_def)

lemma msg_queue_get_map:
  assumes "table_ok mqname mqid tbl" "fits nm" "flags AND IPC_CREAT \<noteq> 0"
  shows "get_result mqname mqid (flags AND IPC_EXCL \<noteq> 0) tbl nm (msg_queue_get tbl (Some nm) flags)"
  unfolding msg_queue_get_slot [OF assms(3)] by (rule msgq_table.get_slot_spec [OF assms(1,2)])

lemmas msg_queue_put_map = msgq_table.put_slot_spec [folded msg_queue_put_slot]

lemma init_msg_queue_ok: "table_ok mqname mqid (init_msg_queue raw)"
  by (rule table_okI) (simp_all add: init_msg_queue_def)

subsection \<open>Sending and receiving\<close>

definition msg_init :: "u32 \<Rightarrow> mem \<Rightarrow> u32 \<Rightarrow> msg" where
  "msg_init ty text len = \<lparr>mtype = ty, mlength = ucast len, mbuf = bytes text (unat len)\<rparr>"

datatype 'a sect = Failed | Sleeping 'a | Continues 'a

text \<open>\<open>msg_queue_send\<close> up to the sleep; it goes on with the size it has cut to \<open>msgsz\<close>.\<close>

definition msg_send_begin :: "sched \<Rightarrow> msg_queue \<Rightarrow> u32 \<Rightarrow> u32 \<Rightarrow> (u32 sect \<times> sched \<times> msg_queue) option" where
  "msg_send_begin s q sz0 msgflg =
     (let sz = (if sz0 > ucast (msgsz q) then ucast (msgsz q) else sz0)
      in if unat (msgs q) > MSGQ_MAX_MSGS
         then if msgflg AND IPC_NOWAIT \<noteq> 0 then Some (Failed, s, q)
              else case wait_queue_add (senders q) (cur s) of
                     None \<Rightarrow> None
                   | Some l \<Rightarrow> map_option (\<lambda>s. (Sleeping sz, s, q\<lparr>senders := l\<rparr>)) (task_block s TASK_BLOCKED)
         else Some (Continues sz, s, q))"

definition msg_send_end :: "sched \<Rightarrow> msg_queue \<Rightarrow> bool \<Rightarrow> u32 \<Rightarrow> mem \<Rightarrow> u32 \<Rightarrow> (int \<times> sched \<times> msg_queue) option" where
  "msg_send_end s q kmalloc_ok ty text sz =
     (if \<not> kmalloc_ok then Some (-1, s, q)
      else let q = q\<lparr>msg_list := msg_init ty text sz # msg_list q, msgs := msgs q + 1\<rparr>
           in map_option (\<lambda>(s, l). (0, s, q\<lparr>receivers := l\<rparr>)) (wait_queue_wakeup s (receivers q)))"

definition msg_recv_begin :: "sched \<Rightarrow> msg_queue \<Rightarrow> u32 \<Rightarrow> (unit sect \<times> sched \<times> msg_queue) option" where
  "msg_recv_begin s q msgflg =
     (if msgs q = 0
      then if msgflg AND IPC_NOWAIT \<noteq> 0 then Some (Failed, s, q)
           else case wait_queue_add (receivers q) (cur s) of
                  None \<Rightarrow> None
                | Some l \<Rightarrow> map_option (\<lambda>s. (Sleeping (), s, q\<lparr>receivers := l\<rparr>)) (task_block s TASK_BLOCKED)
      else Some (Continues (), s, q))"

text \<open>Which message a receive takes; \<open>ABS\<close> of the least \<open>long\<close> is that number again.\<close>

definition msg_wanted :: "u32 \<Rightarrow> u32 \<Rightarrow> msg \<Rightarrow> bool" where
  "msg_wanted msgtype msgflg m \<longleftrightarrow>
     (if sint msgtype > 0
      then if msgflg AND IPC_EXCEPT \<noteq> 0 then mtype m \<noteq> msgtype else mtype m = msgtype
      else if msgtype = 0 then True
      else sint (mtype m) \<le> sint (- msgtype))"

fun take_first :: "('a \<Rightarrow> bool) \<Rightarrow> 'a list \<Rightarrow> ('a \<times> 'a list) option" where
  "take_first P [] = None"
| "take_first P (x # xs) = (if P x then Some (x, xs) else map_option (\<lambda>(y, ys). (y, x # ys)) (take_first P xs))"

text \<open>The result is the length and, with it, the message and the bytes the caller's buffer gets.\<close>

definition msg_recv_end :: "sched \<Rightarrow> msg_queue \<Rightarrow> u32 \<Rightarrow> u32 \<Rightarrow> u32 \<Rightarrow>
    ((int \<times> (u32 \<times> u8 list) option) \<times> sched \<times> msg_queue) option" where
  "msg_recv_end s q buf_size msgtype msgflg =
     (case take_first (msg_wanted msgtype msgflg) (msg_list q) of
        None \<Rightarrow> Some ((-1, None), s, q)
      | Some (m, rest) \<Rightarrow>
          let q = q\<lparr>msg_list := rest, msgs := msgs q - 1\<rparr>;
              len = (if msgflg AND IPC_NOERROR \<noteq> 0 \<and> ucast (mlength m) > buf_size then ucast buf_size
                     else mlength m)
          in map_option (\<lambda>(s, l). ((uint len, Some (mtype m, take (unat len) (mbuf m))), s, q\<lparr>senders := l\<rparr>))
               (wait_queue_wakeup s (senders q)))"

subsection \<open>A system of senders and receivers\<close>

text \<open>
  A task is outside the queue or has slept in a send or a receive, whose arguments it keeps. \<open>sent\<close> and
  \<open>got\<close> record the messages that were put in and taken out, the newest first.
\<close>

datatype mqpc = MqOut | MqSend u32 mem u32 | MqRecv u32 u32 u32

record mqsys =
  qsched :: sched
  mq :: msg_queue
  mqpc :: "tid \<Rightarrow> mqpc"
  sent :: "msg list"
  got :: "msg list"

definition mq_send_last :: "mqsys \<Rightarrow> bool \<Rightarrow> u32 \<Rightarrow> mem \<Rightarrow> u32 \<Rightarrow> mqsys option" where
  "mq_send_last k kmalloc_ok ty text sz = map_option
     (\<lambda>(r, s, q). k\<lparr>qsched := s, mq := q, mqpc := (mqpc k)(cur (qsched k) := MqOut),
        sent := (if r = 0 then msg_init ty text sz # sent k else sent k)\<rparr>)
     (msg_send_end (qsched k) (mq k) kmalloc_ok ty text sz)"

definition msg_queue_send :: "mqsys \<Rightarrow> bool \<Rightarrow> u32 \<Rightarrow> mem \<Rightarrow> u32 \<Rightarrow> u32 \<Rightarrow> mqsys option" where
  "msg_queue_send k kmalloc_ok ty text sz0 msgflg =
     (case msg_send_begin (qsched k) (mq k) sz0 msgflg of
        None \<Rightarrow> None
      | Some (Failed, s, q) \<Rightarrow> Some (k\<lparr>qsched := s, mq := q\<rparr>)
      | Some (Sleeping sz, s, q) \<Rightarrow>
          Some (k\<lparr>qsched := s, mq := q, mqpc := (mqpc k)(cur (qsched k) := MqSend ty text sz)\<rparr>)
      | Some (Continues sz, s, q) \<Rightarrow> mq_send_last (k\<lparr>qsched := s, mq := q\<rparr>) kmalloc_ok ty text sz)"

definition mq_recv_last :: "mqsys \<Rightarrow> u32 \<Rightarrow> u32 \<Rightarrow> u32 \<Rightarrow> mqsys option" where
  "mq_recv_last k buf_size msgtype msgflg = map_option
     (\<lambda>(r, s, q). k\<lparr>qsched := s, mq := q, mqpc := (mqpc k)(cur (qsched k) := MqOut),
        got := (case take_first (msg_wanted msgtype msgflg) (msg_list (mq k)) of
           None \<Rightarrow> got k | Some (m, _) \<Rightarrow> m # got k)\<rparr>)
     (msg_recv_end (qsched k) (mq k) buf_size msgtype msgflg)"

definition msg_queue_recv :: "mqsys \<Rightarrow> u32 \<Rightarrow> u32 \<Rightarrow> u32 \<Rightarrow> mqsys option" where
  "msg_queue_recv k buf_size msgtype msgflg =
     (case msg_recv_begin (qsched k) (mq k) msgflg of
        None \<Rightarrow> None
      | Some (Failed, s, q) \<Rightarrow> Some (k\<lparr>qsched := s, mq := q\<rparr>)
      | Some (Sleeping _, s, q) \<Rightarrow> Some (k\<lparr>qsched := s, mq := q,
          mqpc := (mqpc k)(cur (qsched k) := MqRecv buf_size msgtype msgflg)\<rparr>)
      | Some (Continues _, s, q) \<Rightarrow> mq_recv_last (k\<lparr>qsched := s, mq := q\<rparr>) buf_size msgtype msgflg)"

text \<open>
  Only the tasks of \<open>T\<close> send. Any task may run, sleep or be woken at any time, except that nobody but the
  queue wakes a task of its wait lists.
\<close>

inductive mq_step :: "tid set \<Rightarrow> mqsys \<Rightarrow> mqsys \<Rightarrow> bool" for T where
  send: "mqpc k (cur (qsched k)) = MqOut \<Longrightarrow> cur (qsched k) \<in> T \<Longrightarrow>
    msg_queue_send k ok ty tx sz flg = Some k' \<Longrightarrow> mq_step T k k'"
| send_woken: "mqpc k (cur (qsched k)) = MqSend ty tx sz \<Longrightarrow> mq_send_last k ok ty tx sz = Some k' \<Longrightarrow>
    mq_step T k k'"
| recv: "mqpc k (cur (qsched k)) = MqOut \<Longrightarrow> msg_queue_recv k n ty flg = Some k' \<Longrightarrow> mq_step T k k'"
| recv_woken: "mqpc k (cur (qsched k)) = MqRecv n ty flg \<Longrightarrow> mq_recv_last k n ty flg = Some k' \<Longrightarrow>
    mq_step T k k'"
| other: "sched_other (qsched k) s \<Longrightarrow> mq_step T k (k\<lparr>qsched := s\<rparr>)"
| sleep: "task_block (qsched k) TASK_BLOCKED = Some s \<Longrightarrow> mq_step T k (k\<lparr>qsched := s\<rparr>)"
| wakeup: "t \<notin> set (senders (mq k)) \<union> set (receivers (mq k)) \<Longrightarrow> blocked_on (qsched k) t \<Longrightarrow>
    task_wakeup (qsched k) t = Some s \<Longrightarrow> mq_step T k (k\<lparr>qsched := s\<rparr>)"

inductive mq_reachable :: "tid set \<Rightarrow> mqsys \<Rightarrow> bool" for T where
  init: "sched_inv s \<Longrightarrow> mq_reachable T \<lparr>qsched = s, mq = msg_queue_fill nm () raw, mqpc = (\<lambda>_. MqOut),
    sent = [], got = []\<rparr>"
| step: "mq_reachable T k \<Longrightarrow> mq_step T k k' \<Longrightarrow> mq_reachable T k'"

fun is_send :: "mqpc \<Rightarrow> bool" where
  "is_send (MqSend _ _ _) = True"
| "is_send _ = False"

fun is_recv :: "mqpc \<Rightarrow> bool" where
  "is_recv (MqRecv _ _ _) = True"
| "is_recv _ = False"

text \<open>The senders that have been woken and are yet to put their message into the queue.\<close>

definition due :: "mqsys \<Rightarrow> tid set" where
  "due k = Collect (is_send \<circ> mqpc k) - set (senders (mq k))"

text \<open>The lists of the queue, without the messages: rooms of tasks that are to finish their calls.\<close>

definition mq_rooms :: "tid set \<Rightarrow> mqsys \<Rightarrow> bool" where
  "mq_rooms T k \<longleftrightarrow> sched_inv (qsched k) \<and> Collect (is_send \<circ> mqpc k) \<subseteq> T \<and>
     room_ok (blocked_on (qsched k)) (senders (mq k)) (is_send \<circ> mqpc k) \<and>
     room_ok (blocked_on (qsched k)) (receivers (mq k)) (is_recv \<circ> mqpc k)"

definition mq_inv :: "tid set \<Rightarrow> mqsys \<Rightarrow> bool" where
  "mq_inv T k \<longleftrightarrow> mq_rooms T k \<and> msgs (mq k) = of_nat (length (msg_list (mq k))) \<and>
     length (msg_list (mq k)) + card (due k) \<le> MSGQ_MAX_MSGS + 1 + card T \<and>
     mset (sent k) = mset (got k) + mset (msg_list (mq k)) \<and> subseq (msg_list (mq k)) (sent k)"

subsection \<open>The invariant\<close>

lemma take_first_Some:
  "take_first P xs = Some (x, ys) \<Longrightarrow>
     \<exists>pre post. xs = pre @ x # post \<and> ys = pre @ post \<and> P x \<and> (\<forall>y \<in> set pre. \<not> P y)"
proof (induction xs arbitrary: ys)
  case (Cons z zs)
  show ?case
  proof (cases "P z")
    case True
    with Cons.prems show ?thesis by (intro exI [of _ "[]"] exI [of _ ys]) simp
  next
    case False
    with Cons.prems obtain ys' where ys': "take_first P zs = Some (x, ys')" "ys = z # ys'" by auto
    from Cons.IH [OF ys'(1)] obtain pre post where
      "zs = pre @ x # post" "ys' = pre @ post" "P x" "\<forall>y \<in> set pre. \<not> P y" by blast
    with False ys'(2) show ?thesis by (intro exI [of _ "z # pre"] exI [of _ post]) simp
  qed
qed simp

lemma take_first_None: "take_first P xs = None \<longleftrightarrow> (\<forall>x \<in> set xs. \<not> P x)"
  by (induction xs) auto

lemma subseq_drop_mid: "subseq (pre @ post) (pre @ x # post)"
  by (intro list_emb_append_mono) auto

lemma mq_roomsD:
  assumes "mq_rooms T k"
  shows "sched_inv (qsched k)" "Collect (is_send \<circ> mqpc k) \<subseteq> T"
    and "room_ok (blocked_on (qsched k)) (senders (mq k)) (is_send \<circ> mqpc k)"
    and "room_ok (blocked_on (qsched k)) (receivers (mq k)) (is_recv \<circ> mqpc k)"
    and "set (senders (mq k)) \<inter> set (receivers (mq k)) = {}"
    and "cur (qsched k) \<notin> set (senders (mq k)) \<union> set (receivers (mq k))"
proof -
  show D: "sched_inv (qsched k)" "Collect (is_send \<circ> mqpc k) \<subseteq> T"
    "room_ok (blocked_on (qsched k)) (senders (mq k)) (is_send \<circ> mqpc k)"
    "room_ok (blocked_on (qsched k)) (receivers (mq k)) (is_recv \<circ> mqpc k)"
    using assms by (simp_all add: mq_rooms_def)
  have "is_send p \<Longrightarrow> \<not> is_recv p" for p by (cases p) auto
  with D(3,4) show "set (senders (mq k)) \<inter> set (receivers (mq k)) = {}" by (force simp: room_ok_def)
  show "cur (qsched k) \<notin> set (senders (mq k)) \<union> set (receivers (mq k))"
    using bs.running_not_waiting [OF D(1)] D(3,4) by (auto simp: room_ok_def)
qed

lemma mq_invD:
  assumes "mq_inv T k"
  shows "mq_rooms T k" "msgs (mq k) = of_nat (length (msg_list (mq k)))"
    and "length (msg_list (mq k)) + card (due k) \<le> MSGQ_MAX_MSGS + 1 + card T"
    and "mset (sent k) = mset (got k) + mset (msg_list (mq k))" "subseq (msg_list (mq k)) (sent k)"
  using assms by (simp_all add: mq_inv_def)

lemma mq_inv_sched:
  assumes "mq_inv T k" "sched_inv s"
    and "room_ok (blocked_on s) (senders (mq k)) (is_send \<circ> mqpc k)"
    and "room_ok (blocked_on s) (receivers (mq k)) (is_recv \<circ> mqpc k)"
  shows "mq_inv T (k\<lparr>qsched := s\<rparr>)"
  using assms by (simp add: mq_inv_def mq_rooms_def due_def)

lemma due_finite: "finite T \<Longrightarrow> mq_rooms T k \<Longrightarrow> finite (due k) \<and> card (due k) \<le> card T"
  using mq_roomsD(2) [of T k] card_mono [of T "due k"] finite_subset [of "due k" T] by (auto simp: due_def)

text \<open>The section of a send that puts the message in, with the room the invariant leaves for it.\<close>

lemma mq_send_last_inv:
  assumes inv: "mq_inv T k" and fin: "finite T" and pc: "\<not> is_recv (mqpc k (cur (qsched k)))"
    and fits: "length (msg_list (mq k)) + card (due k - {cur (qsched k)}) \<le> MSGQ_MAX_MSGS + card T"
    and "mq_send_last k kmalloc_ok ty text sz = Some k'"
  shows "mq_inv T k'"
proof -
  note D = mq_invD [OF inv] and R = mq_roomsD [OF mq_invD(1) [OF inv]]
  let ?u = "cur (qsched k)"
  have pend: "room_ok (blocked_on (qsched k)) (senders (mq k)) (is_send \<circ> (mqpc k)(?u := MqOut))"
      "room_ok (blocked_on (qsched k)) (receivers (mq k)) (is_recv \<circ> (mqpc k)(?u := MqOut))"
    using bs.room_leave [OF R(1,3)] bs.room_leave [OF R(1,4)] by (simp_all add: fun_upd_comp)
  have sub: "Collect (is_send \<circ> (mqpc k)(?u := MqOut)) \<subseteq> T" using R(2) by (auto split: if_splits)
  have due: "Collect (is_send \<circ> (mqpc k)(?u := MqOut)) - set (senders (mq k)) \<subseteq> due k - {?u}"
    by (auto simp: due_def split: if_splits)
  have card: "card (Collect (is_send \<circ> (mqpc k)(?u := MqOut)) - set (senders (mq k))) \<le> card (due k - {?u})"
    using due_finite [OF fin D(1)] by (intro card_mono [OF _ due]) simp
  show ?thesis
  proof (cases kmalloc_ok)
    case False
    with assms(5) have "k' = k\<lparr>mqpc := (mqpc k)(?u := MqOut)\<rparr>"
      by (simp add: mq_send_last_def msg_send_end_def)
    with R(1) D pend sub card fits show ?thesis by (simp add: mq_inv_def mq_rooms_def due_def)
  next
    case True
    obtain s where s: "wait_queue_wakeup (qsched k) (receivers (mq k)) = Some (s, tl (receivers (mq k)))"
      "sched_inv s" "room_ok (blocked_on s) (tl (receivers (mq k))) (is_recv \<circ> (mqpc k)(?u := MqOut))"
      "room_ok (blocked_on s) (senders (mq k)) (is_send \<circ> (mqpc k)(?u := MqOut))"
      by (rule wait_queue_wakeup_room [OF R(1) pend(2)]) (use pend(1) R(5) in blast)
    with True assms(5) have k': "k' = k\<lparr>qsched := s, mq := (mq k)\<lparr>msg_list := msg_init ty text sz # msg_list (mq k),
        msgs := msgs (mq k) + 1, receivers := tl (receivers (mq k))\<rparr>, mqpc := (mqpc k)(?u := MqOut),
        sent := msg_init ty text sz # sent k\<rparr>"
      by (auto simp: mq_send_last_def msg_send_end_def Let_def)
    with D s(2-) sub card fits show ?thesis by (simp add: mq_inv_def mq_rooms_def due_def)
  qed
qed

lemma mq_recv_last_inv:
  assumes inv: "mq_inv T k" and fin: "finite T" and pc: "\<not> is_send (mqpc k (cur (qsched k)))"
    and "mq_recv_last k n ty flg = Some k'"
  shows "mq_inv T k'"
proof -
  note D = mq_invD [OF inv] and R = mq_roomsD [OF mq_invD(1) [OF inv]]
  let ?u = "cur (qsched k)"
  have send: "is_send \<circ> (mqpc k)(?u := MqOut) = is_send \<circ> mqpc k" using pc by (auto simp: fun_eq_iff)
  have pend: "room_ok (blocked_on (qsched k)) (receivers (mq k)) (is_recv \<circ> (mqpc k)(?u := MqOut))"
    using bs.room_leave [OF R(1,4)] by (simp add: fun_upd_comp)
  show ?thesis
  proof (cases "take_first (msg_wanted ty flg) (msg_list (mq k))")
    case None
    with assms(4) have "k' = k\<lparr>mqpc := (mqpc k)(?u := MqOut)\<rparr>"
      by (simp add: mq_recv_last_def msg_recv_end_def)
    with R D pend send show ?thesis by (simp add: mq_inv_def mq_rooms_def due_def)
  next
    case (Some r)
    then obtain m rest where r: "take_first (msg_wanted ty flg) (msg_list (mq k)) = Some (m, rest)" by (cases r) auto
    from take_first_Some [OF r] obtain pre post where split: "msg_list (mq k) = pre @ m # post" "rest = pre @ post" by blast
    obtain s where s: "wait_queue_wakeup (qsched k) (senders (mq k)) = Some (s, tl (senders (mq k)))"
      "sched_inv s" "room_ok (blocked_on s) (tl (senders (mq k))) (is_send \<circ> mqpc k)"
      "room_ok (blocked_on s) (receivers (mq k)) (is_recv \<circ> (mqpc k)(?u := MqOut))"
      by (rule wait_queue_wakeup_room [OF R(1,3)]) (use pend R(5) in blast)
    have k': "qsched k' = s" "mqpc k' = (mqpc k)(?u := MqOut)" "sent k' = sent k" "got k' = m # got k"
        "msg_list (mq k') = rest" "msgs (mq k') = msgs (mq k) - 1" "senders (mq k') = tl (senders (mq k))"
        "receivers (mq k') = receivers (mq k)"
      using r s(1) assms(4) by (auto simp: mq_recv_last_def msg_recv_end_def Let_def)
    have "due k' \<subseteq> due k \<union> (if senders (mq k) = [] then {} else {hd (senders (mq k))})"
      using send by (cases "senders (mq k)") (auto simp: due_def k' fun_eq_iff split: if_splits)
    then have "card (due k') \<le> card (due k \<union> (if senders (mq k) = [] then {} else {hd (senders (mq k))}))"
      using due_finite [OF fin D(1)] by (intro card_mono) auto
    also have "\<dots> \<le> card (due k) + 1" by (rule order_trans [OF card_Un_le]) simp
    finally have "length (msg_list (mq k')) + card (due k') \<le> MSGQ_MAX_MSGS + 1 + card T"
      using D(3) by (simp add: k' split)
    moreover have "subseq (msg_list (mq k')) (sent k')"
      using subseq_order.order_trans [OF subseq_drop_mid [of pre post m]] D(5) by (simp add: k' split)
    moreover have "mq_rooms T k'" using R(2) s(2-) send by (simp add: mq_rooms_def k')
    moreover have "msgs (mq k') = of_nat (length (msg_list (mq k')))" using D(2) by (simp add: k' split)
    ultimately show ?thesis using D(4) by (simp add: mq_inv_def k' split)
  qed
qed

lemma unat_msgs:
  assumes "mq_inv T k" "card T \<le> 126"
  shows "unat (msgs (mq k)) = length (msg_list (mq k))"
proof -
  have "length (msg_list (mq k)) < 2 ^ 8" using mq_invD(3) [OF assms(1)] assms(2) by (simp add: MSGQ_MAX_MSGS_def)
  with mq_invD(2) [OF assms(1)] show ?thesis by (simp add: unsigned_of_nat take_bit_nat_eq_self)
qed

lemma msg_queue_send_inv:
  assumes inv: "mq_inv T k" and fin: "finite T" "card T \<le> 126" and u: "cur (qsched k) \<in> T"
    and pc: "mqpc k (cur (qsched k)) = MqOut" and "msg_queue_send k ok ty text sz0 flg = Some k'"
  shows "mq_inv T k'"
proof -
  note D = mq_invD [OF inv] and R = mq_roomsD [OF mq_invD(1) [OF inv]]
  let ?u = "cur (qsched k)" and ?sz = "if sz0 > ucast (msgsz (mq k)) then ucast (msgsz (mq k)) else sz0"
  show ?thesis
  proof (cases "length (msg_list (mq k)) > MSGQ_MAX_MSGS")
    case False
    with assms(6) have last: "mq_send_last k ok ty text ?sz = Some k'"
      using unat_msgs [OF inv fin(2)] by (simp add: msg_queue_send_def msg_send_begin_def)
    have "card (due k - {?u}) \<le> card T"
      using due_finite [OF fin(1) D(1)] card_Diff1_le [of "due k" ?u] by linarith
    with False have "length (msg_list (mq k)) + card (due k - {?u}) \<le> MSGQ_MAX_MSGS + card T" by linarith
    from mq_send_last_inv [OF inv fin(1) _ this last] pc show ?thesis by simp
  next
    case True
    then have full: "unat (msgs (mq k)) > MSGQ_MAX_MSGS" using unat_msgs [OF inv fin(2)] by simp
    show ?thesis
    proof (cases "flg AND IPC_NOWAIT = 0")
      case False
      with full assms(6) have "k' = k" by (simp add: msg_queue_send_def msg_send_begin_def)
      with inv show ?thesis by simp
    next
      case True
      with full assms(6) wait_queue_add_cur [OF R(1,3)] obtain s where s: "is_blocking (qsched k) = Some s"
        and k': "k' = k\<lparr>qsched := s, mq := (mq k)\<lparr>senders := senders (mq k) @ [?u]\<rparr>,
          mqpc := (mqpc k)(?u := MqSend ty text ?sz)\<rparr>"
        by (auto simp: msg_queue_send_def msg_send_begin_def is_blocking_def split: option.splits)
      have recv: "is_recv \<circ> (mqpc k)(?u := MqSend ty text ?sz) = is_recv \<circ> mqpc k"
        using pc by (auto simp: fun_eq_iff)
      have "due k' = due k" using pc R(6) by (auto simp: due_def k' split: if_splits)
      moreover have "mq_rooms T k'"
        using R(2) u recv bs.room_enter [OF R(1) s R(3)] bs.room_block [OF R(1) s R(4)] bs.block_law [OF R(1) s]
        by (auto simp: mq_rooms_def k' fun_upd_comp split: if_splits)
      ultimately show ?thesis using D by (simp add: mq_inv_def k')
    qed
  qed
qed

lemma msg_queue_recv_inv:
  assumes inv: "mq_inv T k" and fin: "finite T" and pc: "mqpc k (cur (qsched k)) = MqOut"
    and "msg_queue_recv k n ty flg = Some k'"
  shows "mq_inv T k'"
proof -
  note D = mq_invD [OF inv] and R = mq_roomsD [OF mq_invD(1) [OF inv]]
  let ?u = "cur (qsched k)"
  show ?thesis
  proof (cases "msgs (mq k) = 0 \<and> flg AND IPC_NOWAIT = 0")
    case True
    with assms(4) wait_queue_add_cur [OF R(1,4)] obtain s where s: "is_blocking (qsched k) = Some s"
      and k': "k' = k\<lparr>qsched := s, mq := (mq k)\<lparr>receivers := receivers (mq k) @ [?u]\<rparr>,
        mqpc := (mqpc k)(?u := MqRecv n ty flg)\<rparr>"
      by (auto simp: msg_queue_recv_def msg_recv_begin_def is_blocking_def split: option.splits)
    have send: "is_send \<circ> (mqpc k)(?u := MqRecv n ty flg) = is_send \<circ> mqpc k" using pc by (auto simp: fun_eq_iff)
    then have "due k' = due k" by (simp add: due_def k')
    moreover have "mq_rooms T k'"
      using R(2) send bs.room_enter [OF R(1) s R(4)] bs.room_block [OF R(1) s R(3)] bs.block_law [OF R(1) s]
      by (simp add: mq_rooms_def k' fun_upd_comp)
    ultimately show ?thesis using D by (simp add: mq_inv_def k')
  next
    case False
    then show ?thesis
      using assms mq_recv_last_inv [OF inv fin, of n ty flg k'] pc
      by (auto simp: msg_queue_recv_def msg_recv_begin_def split: if_splits)
  qed
qed

lemma mq_step_inv:
  assumes inv: "mq_inv T k" and fin: "finite T" "card T \<le> 126" and "mq_step T k k'"
  shows "mq_inv T k'"
proof -
  note R = mq_roomsD [OF mq_invD(1) [OF inv]]
  show ?thesis
    using assms(4)
  proof (cases rule: mq_step.cases)
    case send
    then show ?thesis using msg_queue_send_inv [OF inv fin] by blast
  next
    case (send_woken ty tx sz ok)
    have "cur (qsched k) \<in> due k" using send_woken(1) R(6) by (simp add: due_def)
    then have "Suc (card (due k - {cur (qsched k)})) = card (due k)"
      using due_finite [OF fin(1) mq_invD(1) [OF inv]] card_Suc_Diff1 [of "due k"] by blast
    then show ?thesis using mq_send_last_inv [OF inv fin(1) _ _ send_woken(2)] send_woken(1) mq_invD(3) [OF inv] by simp
  next
    case recv
    then show ?thesis using msg_queue_recv_inv [OF inv fin(1)] by blast
  next
    case (recv_woken n ty flg)
    then show ?thesis using mq_recv_last_inv [OF inv fin(1)] by simp
  next
    case (other s)
    from bs.other_law [OF R(1) other(2)] bs.room_other [OF R(1) other(2) R(3)] bs.room_other [OF R(1) other(2) R(4)]
    show ?thesis unfolding other(1) by (intro mq_inv_sched [OF inv]) simp_all
  next
    case (sleep s)
    then have blk: "is_blocking (qsched k) = Some s" by (simp add: is_blocking_def)
    from bs.block_law [OF R(1) blk] bs.room_block [OF R(1) blk R(3)] bs.room_block [OF R(1) blk R(4)]
    show ?thesis unfolding sleep(1) by (intro mq_inv_sched [OF inv]) simp_all
  next
    case (wakeup t s)
    then have "t \<notin> set (senders (mq k))" "t \<notin> set (receivers (mq k))" by simp_all
    note W = bs.room_wake [OF R(1) wakeup(4,3)]
    from bs.wake_law [OF R(1) wakeup(3)] wakeup(4) W [OF _ R(3)] W [OF _ R(4)] wakeup(2)
    show ?thesis unfolding wakeup(1) by (intro mq_inv_sched [OF inv]) auto
  qed
qed

lemma mq_reachable_inv:
  assumes "mq_reachable T k" "finite T" "card T \<le> 126"
  shows "mq_inv T k"
  using assms
proof (induction rule: mq_reachable.induct)
  case (init s nm raw)
  then show ?case
    by (simp add: mq_inv_def mq_rooms_def room_ok_def waitlist_ok_def due_def msg_queue_fill_def o_def)
qed (use mq_step_inv in blast)

lemma msg_queue_send_fails:
  assumes "mq_rooms T k" "msg_queue_send k ok ty text sz flg = None"
  shows "task_block (qsched k) TASK_BLOCKED = None"
proof -
  note R = mq_roomsD [OF assms(1)]
  obtain s where "wait_queue_wakeup (qsched k) (receivers (mq k)) = Some (s, tl (receivers (mq k)))"
    by (rule wait_queue_wakeup_room [OF R(1,4)])
  with assms(2) wait_queue_add_cur [OF R(1,3)] show ?thesis
    by (auto simp: msg_queue_send_def msg_send_begin_def mq_send_last_def msg_send_end_def Let_def
        split: if_splits option.splits)
qed

lemma msg_queue_recv_fails:
  assumes "mq_rooms T k" "msg_queue_recv k n ty flg = None"
  shows "task_block (qsched k) TASK_BLOCKED = None"
proof -
  note R = mq_roomsD [OF assms(1)]
  obtain s where "wait_queue_wakeup (qsched k) (senders (mq k)) = Some (s, tl (senders (mq k)))"
    by (rule wait_queue_wakeup_room [OF R(1,3)])
  with assms(2) wait_queue_add_cur [OF R(1,4)] show ?thesis
    by (auto simp: msg_queue_recv_def msg_recv_begin_def mq_recv_last_def msg_recv_end_def Let_def
        split: if_splits option.splits)
qed

subsection \<open>Properties\<close>

definition demo_text :: mem where
  "demo_text = (\<lambda>i. of_nat (i + 65))"

definition demo_mq :: mqsys where
  "demo_mq = the (msg_queue_send \<lparr>qsched = demo_sched, mq = msg_queue_fill demo_text ()
     \<lparr>mqid = 1, msg_list = [], msgs = 0, msgsz = 0, senders = [], receivers = [], mqmutex = semaphore_init 1,
       mqname = clear_name\<rparr>, mqpc = (\<lambda>_. MqOut), sent = [], got = []\<rparr> True 7 demo_text 3 0)"

lemma demo_mq_sent: "sent demo_mq = [\<lparr>mtype = 7, mlength = 3, mbuf = [65, 66, 67]\<rparr>]"
  by code_simp

lemma demo_mq_reachable: "mq_reachable {0} demo_mq"
proof -
  let ?raw = "\<lparr>mqid = 1, msg_list = [], msgs = 0, msgsz = 0, senders = [], receivers = [],
    mqmutex = semaphore_init 1, mqname = clear_name\<rparr>"
  let ?k = "\<lparr>qsched = demo_sched, mq = msg_queue_fill demo_text () ?raw, mqpc = (\<lambda>_. MqOut), sent = [], got = []\<rparr>"
  have "sched_inv demo_sched" using reachable_inv [OF demo_reachable] by simp
  then have k: "mq_reachable {0} ?k" by (rule mq_reachable.init)
  have "msg_queue_send ?k True 7 demo_text 3 0 \<noteq> None" by code_simp
  then have "msg_queue_send ?k True 7 demo_text 3 0 = Some demo_mq" by (auto simp: demo_mq_def)
  moreover have "cur demo_sched = 0" by code_simp
  ultimately show ?thesis using k by (intro mq_reachable.step [OF k mq_step.send]) simp_all
qed



text \<open>
  What was sent last is received first: after a send has put its message in, a receive of any type
  returns this message with exactly its bytes and leaves the queue as it was before, so that the queue
  is a stack. With \<open>IPC_NOERROR\<close> the message is cut to the caller's size; without it all the bytes
  are copied, however small the caller's buffer is.
\<close>

theorem msg_queue_stack:
  assumes "msg_send_end s q True ty text sz = Some (r, s1, q1)" "sz \<le> ucast MSG_MAX_LEN"
    and "msg_recv_end s2 q1 n 0 flg = Some ((len, d), s3, q2)"
  shows "len = (if flg AND IPC_NOERROR \<noteq> 0 then min (uint sz) (uint n) else uint sz) \<and>
    d = Some (ty, bytes text (nat len)) \<and> msg_list q2 = msg_list q \<and> msgs q2 = msgs q"
proof -
  have q1: "msg_list q1 = msg_init ty text sz # msg_list q" "msgs q1 = msgs q + 1"
    using assms(1) by (auto simp: msg_send_end_def Let_def)
  have sz: "unat sz \<le> 1000" using assms(2) by (simp add: MSG_MAX_LEN_def word_le_nat_alt)
  then have len: "unat (ucast sz :: u16) = unat sz" by (simp add: unsigned_ucast_eq take_bit_nat_eq_self)
  have lt: "unat (ucast n :: u16) = unat n" if "n < sz"
    using that sz by (simp add: word_less_nat_alt unsigned_ucast_eq take_bit_nat_eq_self)
  have w: "msg_wanted 0 flg m" for m by (simp add: msg_wanted_def)
  have same: "(ucast (ucast sz :: u16) :: u32) = sz"
    by (rule word_unat_eq_iff [THEN iffD2], subst unsigned_ucast_eq) (use sz in \<open>simp add: len take_bit_nat_eq_self\<close>)
  let ?w = "if flg AND IPC_NOERROR \<noteq> 0 \<and> n < sz then ucast n else ucast sz :: u16"
  let ?l = "if flg AND IPC_NOERROR \<noteq> 0 \<and> n < sz then unat n else unat sz"
  have l: "unat ?w = ?l" using len lt by simp
  have "len = uint ?w \<and> d = Some (ty, take (unat ?w) (bytes text (unat sz))) \<and> msg_list q2 = msg_list q \<and> msgs q2 = msgs q"
    using assms(3) by (auto simp: msg_recv_end_def q1 w Let_def msg_init_def same)
  moreover have "take ?l (bytes text (unat sz)) = bytes text ?l"
    by (rule take_bytes) (auto simp: word_less_nat_alt)
  moreover have "uint ?w = int ?l" unfolding l [symmetric] by simp
  moreover have "int ?l = (if flg AND IPC_NOERROR \<noteq> 0 then min (uint sz) (uint n) else uint sz)"
    by (auto simp: word_less_def word_le_def min_def)
  ultimately show ?thesis unfolding l by (metis nat_int)
qed

theorem msg_queue_stack_witness:
  "\<exists>s1 q1 s3 q2. msg_send_end demo_sched (mq demo_mq) True 9 demo_text 2 = Some (0, s1, q1) \<and>
     msg_recv_end s1 q1 1 0 0 = Some ((2, Some (9, [65, 66])), s3, q2) \<and> msg_list q2 = msg_list (mq demo_mq)"
proof -
  let ?a = "msg_send_end demo_sched (mq demo_mq) True 9 demo_text 2"
  let ?b = "msg_recv_end (fst (snd (the ?a))) (snd (snd (the ?a))) 1 0 0"
  have "?a \<noteq> None" "fst (the ?a) = 0" "?b \<noteq> None" by code_simp+
  then obtain s1 q1 len d s3 q2 where ab: "?a = Some (0, s1, q1)" "msg_recv_end s1 q1 1 0 0 = Some ((len, d), s3, q2)"
    by (cases "?a") auto
  have b: "bytes demo_text 2 = [65, 66]" by code_simp
  from msg_queue_stack [OF ab(1) _ ab(2)] b have "len = 2 \<and> d = Some (9, [65, 66]) \<and> msg_list q2 = msg_list (mq demo_mq)"
    by (simp add: MSG_MAX_LEN_def)
  with ab show ?thesis by blast
qed

end
