(* ===== verification/Pipe.thy ===== *)
theory Pipe
  imports FifoBuf Sync
begin

section \<open>Pipes\<close>

text \<open>
  \<open>src/src/ipc/pipe.c\<close> and \<open>src/src/include/xbook/pipe.h\<close>, on the ring buffer (a client of the interface
  \<open>byte_queue\<close>) and the wait queues (a client of \<open>blocking_sched\<close>). \<open>__pipe_read\<close> and \<open>pipe_write\<close> run under
  the mutex of the pipe; where they sleep, after \<open>wait_queue_add\<close> and the unlock, they are cut into the
  section before the sleep and the one after it. As for the message queues, no clock tick falls between
  \<open>wait_queue_add\<close> and \<open>task_block\<close>. What a read delivers is the list of its bytes. A missing pipe, a
  \<open>NULL\<close> buffer and an unopened end are the early returns of the code; they are kept where the state decides them.
\<close>

definition PIPE_SIZE :: u32 where "PIPE_SIZE = 4096"
definition PIPE_NOWAIT :: u8 where "PIPE_NOWAIT = 1"
definition F_SETFL :: u32 where "F_SETFL = 1"
definition O_NONBLOCK :: u32 where "O_NONBLOCK = 0x400"

record pipe =
  pipe_id :: u32
  pfifo :: fifo_buf
  pflags :: u16
  rdflags :: u8
  wrflags :: u8
  read_count :: int
  write_count :: int
  pmutex :: mutexlock
  pwait :: "tid list"

record pipes =
  pipe_list :: "pipe list"
  pipe_next_id :: u32

subsection \<open>The list of pipes\<close>

definition pipe_clear :: "pipe \<Rightarrow> pipe" where
  "pipe_clear p = p\<lparr>read_count := 1, write_count := 1, rdflags := 0, wrflags := 0, pflags := 0,
     pmutex := mutexlock_init, pwait := []\<rparr>"

text \<open>\<open>raw\<close> is what \<open>kmalloc\<close> returns for the pipe, \<open>buf\<close> and \<open>ring\<close> what it returns for the ring.\<close>

definition create_pipe :: "pipes \<Rightarrow> pipe option \<Rightarrow> mem option \<Rightarrow> fifo_buf option \<Rightarrow> pipe alloc_outcome \<times> pipes" where
  "create_pipe ps raw buf ring =
     (case raw of None \<Rightarrow> (AllocNull, ps)
      | Some p \<Rightarrow> (case fifo_buf_alloc PIPE_SIZE buf ring of
            AllocNull \<Rightarrow> (AllocNull, ps) | Diverges \<Rightarrow> (Diverges, ps) | AssertFails \<Rightarrow> (AssertFails, ps)
          | Allocated f \<Rightarrow>
              let p = (pipe_clear p)\<lparr>pfifo := f, pipe_id := pipe_next_id ps\<rparr>
              in (Allocated p, ps\<lparr>pipe_list := pipe_list ps @ [p], pipe_next_id := pipe_next_id ps + 1\<rparr>)))"

definition pipe_find :: "pipes \<Rightarrow> u32 \<Rightarrow> pipe option" where
  "pipe_find ps i = List.find (\<lambda>p. pipe_id p = i) (pipe_list ps)"

text \<open>Changing and removing the pipe that \<open>pipe_find\<close> finds.\<close>

fun upd_pipe :: "u32 \<Rightarrow> (pipe \<Rightarrow> pipe) \<Rightarrow> pipe list \<Rightarrow> pipe list" where
  "upd_pipe i f [] = []"
| "upd_pipe i f (p # ps) = (if pipe_id p = i then f p # ps else p # upd_pipe i f ps)"

fun destroy_pipe :: "u32 \<Rightarrow> pipe list \<Rightarrow> pipe list" where
  "destroy_pipe i [] = []"
| "destroy_pipe i (p # ps) = (if pipe_id p = i then ps else p # destroy_pipe i ps)"

definition close_end :: "bool \<Rightarrow> pipe \<Rightarrow> pipe" where
  "close_end rw p = (if rw then p\<lparr>write_count := write_count p - 1\<rparr> else p\<lparr>read_count := read_count p - 1\<rparr>)"

definition pipe_close :: "pipes \<Rightarrow> u32 \<Rightarrow> bool \<Rightarrow> int \<times> pipes" where
  "pipe_close ps i rw =
     (case pipe_find ps i of None \<Rightarrow> (-1, ps)
      | Some p \<Rightarrow>
          let p = close_end rw p;
              ps = ps\<lparr>pipe_list := upd_pipe i (close_end rw) (pipe_list ps)\<rparr>
          in (0, if write_count p \<le> 0 \<and> read_count p \<le> 0
                 then ps\<lparr>pipe_list := destroy_pipe i (pipe_list ps)\<rparr> else ps))"

definition set_nowait :: "bool \<Rightarrow> pipe \<Rightarrow> pipe" where
  "set_nowait rw p = (if rw then p\<lparr>wrflags := wrflags p OR PIPE_NOWAIT\<rparr> else p\<lparr>rdflags := rdflags p OR PIPE_NOWAIT\<rparr>)"

text \<open>\<open>arg\<close> is the word the caller's pointer refers to.\<close>

definition pipe_ioctl :: "pipes \<Rightarrow> u32 \<Rightarrow> u32 \<Rightarrow> u32 \<Rightarrow> bool \<Rightarrow> int \<times> pipes" where
  "pipe_ioctl ps i cmd arg rw =
     (case pipe_find ps i of None \<Rightarrow> (-1, ps)
      | Some p \<Rightarrow>
          if cmd = F_SETFL
          then (0, if arg AND O_NONBLOCK \<noteq> 0 then ps\<lparr>pipe_list := upd_pipe i (set_nowait rw) (pipe_list ps)\<rparr> else ps)
          else (-1, ps))"

definition open_end :: "bool \<Rightarrow> pipe \<Rightarrow> pipe" where
  "open_end rw p = (if rw then p\<lparr>write_count := write_count p + 1\<rparr> else p\<lparr>read_count := read_count p + 1\<rparr>)"

definition pipe_grow :: "pipes \<Rightarrow> u32 \<Rightarrow> bool \<Rightarrow> int \<times> pipes" where
  "pipe_grow ps i rw =
     (case pipe_find ps i of None \<Rightarrow> (-1, ps)
      | Some p \<Rightarrow> (0, ps\<lparr>pipe_list := upd_pipe i (open_end rw) (pipe_list ps)\<rparr>))"

subsection \<open>Reading\<close>

datatype rd_flow = RdReturn int | RdSleep | RdGo

text \<open>\<open>__pipe_read\<close> up to the sleep, and from there to its end: the bytes it delivers.\<close>

definition pipe_read_begin :: "sched \<Rightarrow> pipe \<Rightarrow> (rd_flow \<times> sched \<times> pipe) option" where
  "pipe_read_begin s p =
     (if read_count p \<le> 0 then Some (RdReturn (-1), s, p)
      else if fifo_buf_len (pfifo p) \<le> 0
      then if write_count p \<le> 0 then Some (RdReturn 0, s, p)
           else if rdflags p AND PIPE_NOWAIT \<noteq> 0 then Some (RdReturn (-1), s, p)
           else case wait_queue_add (pwait p) (cur s) of
                  None \<Rightarrow> None
                | Some l \<Rightarrow> map_option (\<lambda>s. (RdSleep, s, p\<lparr>pwait := l\<rparr>)) (task_block s TASK_BLOCKED)
      else Some (RdGo, s, p))"

definition wake_peer :: "sched \<Rightarrow> int \<Rightarrow> tid list \<Rightarrow> (sched \<times> tid list) option" where
  "wake_peer s cnt q = (if cnt > 0 \<and> length q > 0 then wait_queue_wakeup s q else Some (s, q))"

definition pipe_read_end :: "sched \<Rightarrow> pipe \<Rightarrow> u32 \<Rightarrow> (u8 list \<times> sched \<times> pipe) option" where
  "pipe_read_end s p n =
     (let chunk = min (min n PIPE_SIZE) (fifo_buf_len (pfifo p))
      in case fifo_buf_get (pfifo p) (\<lambda>_. 0) chunk of (k, d, f) \<Rightarrow>
           map_option (\<lambda>(s, l). (bytes d (unat k), s, p\<lparr>pfifo := f, pwait := l\<rparr>))
             (wake_peer s (write_count p) (pwait p)))"

text \<open>
  The loop of \<open>pipe_read\<close>, with the bytes read so far. \<open>wakes i\<close> is the state of the kernel and the pipe
  in which the reader wakes from its \<open>i\<close>-th sleep. \<open>None\<close> is a call that never returns, \<open>Some None\<close> a panic.
\<close>

partial_function (option) pipe_read_loop ::
  "(nat \<Rightarrow> sched \<times> pipe) \<Rightarrow> nat \<Rightarrow> sched \<Rightarrow> pipe \<Rightarrow> u8 list \<Rightarrow> u32 \<Rightarrow> (int \<times> u8 list \<times> sched \<times> pipe) option option" where
  "pipe_read_loop wakes i s p rd n =
     (if n = 0 then Some (Some (int (length rd), rd, s, p))
      else case pipe_read_begin s p of
             None \<Rightarrow> Some None
           | Some (RdReturn r, s, p) \<Rightarrow>
               if r < 0 then Some (Some (if rd = [] then -1 else int (length rd), rd, s, p))
               else pipe_read_loop wakes i s p rd n
           | Some (RdSleep, s, p) \<Rightarrow>
               (case pipe_read_end (fst (wakes i)) (snd (wakes i)) n of
                  None \<Rightarrow> Some None
                | Some (b, s, p) \<Rightarrow> pipe_read_loop wakes (i + 1) s p (rd @ b) (n - of_nat (length b)))
           | Some (RdGo, s, p) \<Rightarrow>
               (case pipe_read_end s p n of
                  None \<Rightarrow> Some None
                | Some (b, s, p) \<Rightarrow> pipe_read_loop wakes i s p (rd @ b) (n - of_nat (length b))))"

definition pipe_read :: "(nat \<Rightarrow> sched \<times> pipe) \<Rightarrow> sched \<Rightarrow> pipe \<Rightarrow> u32 \<Rightarrow> (int \<times> u8 list \<times> sched \<times> pipe) option option" where
  "pipe_read wakes s p n = pipe_read_loop wakes 0 s p [] n"

subsection \<open>Writing\<close>

text \<open>
  The loop of \<open>pipe_write\<close> up to a sleep or its end: \<open>WrSleep\<close> carries the offset reached, the bytes
  left and the bytes written. \<open>left\<close> is positive in the loop; a size above \<open>2 ^ 31\<close> is a negative
  \<open>left_size\<close>, for which the loop is not entered. The bytes put into the ring are the third part.
\<close>

datatype wr_flow = WrReturn int | WrSleep nat nat | WrPanic

definition pipe_write_round :: "sched \<Rightarrow> pipe \<Rightarrow> mem \<Rightarrow> nat \<Rightarrow> nat \<Rightarrow> (nat \<times> sched \<times> pipe) option" where
  "pipe_write_round s p buf off left =
     (let chunk = min (of_nat (min left (unat PIPE_SIZE))) (fifo_buf_avali (pfifo p))
      in case fifo_buf_put (pfifo p) (\<lambda>i. buf (off + i)) chunk of (k, f) \<Rightarrow>
           map_option (\<lambda>(s, l). (unat k, s, p\<lparr>pfifo := f, pwait := l\<rparr>)) (wake_peer s (read_count p) (pwait p)))"

partial_function (option) pipe_write_loop ::
  "sched \<Rightarrow> pipe \<Rightarrow> mem \<Rightarrow> nat \<Rightarrow> nat \<Rightarrow> (wr_flow \<times> sched \<times> pipe) option" where
  "pipe_write_loop s p buf off left =
     (if left = 0 then Some (WrReturn (int off), s, p)
      else case pipe_write_round s p buf off left of
             None \<Rightarrow> Some (WrPanic, s, p)
           | Some (k, s, p) \<Rightarrow>
               if fifo_buf_avali (pfifo p) \<le> 0 \<and> left - k > 0
               then if wrflags p AND PIPE_NOWAIT \<noteq> 0 then Some (WrReturn (-1), s, p)
                    else (case wait_queue_add (pwait p) (cur s) of
                        None \<Rightarrow> Some (WrPanic, s, p)
                      | Some l \<Rightarrow> (case task_block s TASK_BLOCKED of
                          None \<Rightarrow> Some (WrPanic, s, p)
                        | Some s \<Rightarrow> Some (WrSleep (off + k) (left - k), s, p\<lparr>pwait := l\<rparr>)))
               else pipe_write_loop s p buf (off + k) (left - k))"

text \<open>
  What \<open>pipe_write\<close> checks first: \<open>Some r\<close> is a return before the loop. Without a reader the caller gets
  the trigger \<open>TRIGHSOFT\<close> (\<open>sys_trigger_active\<close>), the second part.
\<close>

definition pipe_write_check :: "pipe option \<Rightarrow> u32 \<Rightarrow> int option \<times> bool" where
  "pipe_write_check p n =
     (if n = 0 then (Some (-1), False)
      else case p of None \<Rightarrow> (Some (-1), False)
           | Some p \<Rightarrow> if write_count p \<le> 0 then (Some (-1), False)
               else if read_count p \<le> 0 then (Some (-1), True) else (None, False))"

definition pipe_write :: "sched \<Rightarrow> pipe \<Rightarrow> mem \<Rightarrow> u32 \<Rightarrow> (wr_flow \<times> sched \<times> pipe) option" where
  "pipe_write s p buf n = pipe_write_loop s p buf 0 (nat (sint n))"

subsection \<open>What a section does to the stream\<close>

declare length_fifo_list [simp del]

definition pipe_wf :: "pipe \<Rightarrow> bool" where
  "pipe_wf p \<longleftrightarrow> fifo_wf (pfifo p) \<and> size (pfifo p) = PIPE_SIZE"

abbreviation pipe_bytes :: "pipe \<Rightarrow> u8 list" where
  "pipe_bytes p \<equiv> fifo_list (pfifo p)"

lemma pipe_capacity: "pipe_wf p \<Longrightarrow> unat (size (pfifo p)) = 4096"
  by (simp add: pipe_wf_def PIPE_SIZE_def)

lemma pipe_bytes_bound: "pipe_wf p \<Longrightarrow> length (pipe_bytes p) \<le> 4096"
  using fb.bound [of "pfifo p"] by (simp add: pipe_wf_def PIPE_SIZE_def)

lemma pipe_empty: "pipe_wf p \<Longrightarrow> fifo_buf_len (pfifo p) \<le> 0 \<longleftrightarrow> pipe_bytes p = []"
  using fb.len_spec [of "pfifo p"] by (simp add: pipe_wf_def word_le_nat_alt)

lemma pipe_full: "pipe_wf p \<Longrightarrow> fifo_buf_avali (pfifo p) \<le> 0 \<longleftrightarrow> length (pipe_bytes p) = 4096"
  using fb.avail_spec [of "pfifo p"] pipe_capacity [of p] pipe_bytes_bound [of p]
  by (auto simp: pipe_wf_def word_le_nat_alt)

text \<open>Waking the peer changes the scheduler and the wait list only.\<close>

lemma wake_peer_spec:
  assumes "sched_inv s" "room_ok (blocked_on s) q pend"
  obtains s' q' where "wake_peer s cnt q = Some (s', q')" "sched_inv s'" "cur s' = cur s"
    "room_ok (blocked_on s') q' pend" "set q' \<subseteq> set q"
proof (cases "cnt > 0 \<and> length q > 0")
  case True
  obtain s' where "wait_queue_wakeup s q = Some (s', tl q)" "sched_inv s'" "cur s' = cur s"
      "room_ok (blocked_on s') (tl q) pend"
    by (rule wait_queue_wakeup_room [OF assms])
  with True that show ?thesis by (auto simp: wake_peer_def dest: list.set_sel(2))
next
  case False
  with assms that [of s q] show ?thesis by (auto simp: wake_peer_def)
qed

lemma pipe_read_chunk:
  assumes wf: "pipe_wf p"
  obtains k d f where "fifo_buf_get (pfifo p) (\<lambda>_. 0) (min (min n PIPE_SIZE) (fifo_buf_len (pfifo p))) = (k, d, f)"
    "bytes d (unat k) = take (min (unat n) 4096) (pipe_bytes p)" "fifo_list f = drop (min (unat n) 4096) (pipe_bytes p)"
    "\<forall>q. pipe_wf (p\<lparr>pfifo := f, pwait := q\<rparr>)"
proof -
  let ?c = "min (min n PIPE_SIZE) (fifo_buf_len (pfifo p))"
  obtain k d f where get: "fifo_buf_get (pfifo p) (\<lambda>_. 0) ?c = (k, d, f)" by (cases "fifo_buf_get (pfifo p) (\<lambda>_. 0) ?c") auto
  have fwf: "fifo_wf (pfifo p)" using wf by (simp add: pipe_wf_def)
  note G = fb.get_spec [OF fwf get] and L = fb.len_spec [OF fwf]
  have "unat ?c = min (min (unat n) 4096) (length (pipe_bytes p))"
    using L by (simp only: unat_min PIPE_SIZE_def) simp
  then have k: "unat k = min (min (unat n) 4096) (length (pipe_bytes p))" using G by simp
  have "bytes d (unat k) = take (unat k) (pipe_bytes p)" "fifo_list f = drop (unat k) (pipe_bytes p)"
    using G by blast+
  moreover have "pipe_wf (p\<lparr>pfifo := f, pwait := q\<rparr>)" for q using G wf by (simp add: pipe_wf_def word_unat_eq_iff)
  ultimately show ?thesis using that [OF get] by (simp add: k min_def)
qed

lemma pipe_read_end_spec:
  assumes wf: "pipe_wf p" and s: "sched_inv s" "room_ok (blocked_on s) (pwait p) pend"
  obtains b s' p' where "pipe_read_end s p n = Some (b, s', p')"
    "b = take (min (unat n) 4096) (pipe_bytes p)" "pipe_bytes p' = drop (min (unat n) 4096) (pipe_bytes p)"
    "pipe_wf p'" "sched_inv s'" "cur s' = cur s" "room_ok (blocked_on s') (pwait p') pend"
    "read_count p' = read_count p" "write_count p' = write_count p" "set (pwait p') \<subseteq> set (pwait p)"
proof -
  obtain k d f where get: "fifo_buf_get (pfifo p) (\<lambda>_. 0) (min (min n PIPE_SIZE) (fifo_buf_len (pfifo p))) = (k, d, f)"
    "bytes d (unat k) = take (min (unat n) 4096) (pipe_bytes p)" "fifo_list f = drop (min (unat n) 4096) (pipe_bytes p)"
    "\<forall>q. pipe_wf (p\<lparr>pfifo := f, pwait := q\<rparr>)"
    by (rule pipe_read_chunk [OF wf, of n])
  obtain s' q' where w: "wake_peer s (write_count p) (pwait p) = Some (s', q')" "sched_inv s'" "cur s' = cur s"
      "room_ok (blocked_on s') q' pend" "set q' \<subseteq> set (pwait p)"
    by (rule wake_peer_spec [OF s])
  show ?thesis
    by (rule that [of "bytes d (unat k)" s' "p\<lparr>pfifo := f, pwait := q'\<rparr>"])
      (use get w in \<open>simp_all add: pipe_read_end_def\<close>)
qed

lemma pipe_write_round_spec:
  assumes wf: "pipe_wf p" and s: "sched_inv s" "room_ok (blocked_on s) (pwait p) pend"
  obtains k s' p' where "pipe_write_round s p buf off left = Some (k, s', p')"
    "k = min left (4096 - length (pipe_bytes p))"
    "pipe_bytes p' = pipe_bytes p @ bytes (\<lambda>i. buf (off + i)) k"
    "pipe_wf p'" "sched_inv s'" "cur s' = cur s" "room_ok (blocked_on s') (pwait p') pend"
    "wrflags p' = wrflags p" "read_count p' = read_count p" "write_count p' = write_count p"
proof -
  let ?c = "min (of_nat (min left (unat PIPE_SIZE))) (fifo_buf_avali (pfifo p))"
  obtain k f where put: "fifo_buf_put (pfifo p) (\<lambda>i. buf (off + i)) ?c = (k, f)"
    by (cases "fifo_buf_put (pfifo p) (\<lambda>i. buf (off + i)) ?c") auto
  have fwf: "fifo_wf (pfifo p)" using wf by (simp add: pipe_wf_def)
  note G = fb.put_spec [OF fwf put] and A = fb.avail_spec [OF fwf] and cap = pipe_capacity [OF wf]
  have "unat (of_nat (min left (unat PIPE_SIZE)) :: u32) = min left 4096"
    by (simp add: PIPE_SIZE_def unsigned_of_nat take_bit_nat_eq_self min_def)
  then have "unat ?c = min (min left 4096) (4096 - length (pipe_bytes p))"
    using A cap by (simp only: unat_min)
  then have k: "unat k = min left (4096 - length (pipe_bytes p))" using G cap by (auto simp: min_def)
  obtain s' q' where w: "wake_peer s (read_count p) (pwait p) = Some (s', q')" "sched_inv s'" "cur s' = cur s"
      "room_ok (blocked_on s') q' pend" "set q' \<subseteq> set (pwait p)"
    by (rule wake_peer_spec [OF s])
  show ?thesis
  proof (rule that [of "unat k" s' "p\<lparr>pfifo := f, pwait := q'\<rparr>"])
    show "pipe_write_round s p buf off left = Some (unat k, s', p\<lparr>pfifo := f, pwait := q'\<rparr>)"
      by (simp only: pipe_write_round_def put Let_def prod.case w(1) option.map)
  qed (use w k G wf in \<open>simp_all add: pipe_wf_def word_unat_eq_iff\<close>)
qed

text \<open>
  The write loop always comes to its end or to a sleep, after at most one round that moves bytes: \<open>k\<close> bytes
  more are in the ring, all that are left or as many as it has room for.
\<close>

lemma pipe_write_loop_spec:
  assumes wf: "pipe_wf p" and s: "sched_inv s" "room_ok (blocked_on s) (pwait p) pend"
  obtains flow s' p' k where "pipe_write_loop s p buf off left = Some (flow, s', p')"
    "k = min left (4096 - length (pipe_bytes p))"
    "pipe_bytes p' = pipe_bytes p @ bytes (\<lambda>i. buf (off + i)) k" "pipe_wf p'"
    "read_count p' = read_count p" "write_count p' = write_count p"
    "flow = WrReturn (int (off + left)) \<and> k = left \<and> sched_inv s' \<and> room_ok (blocked_on s') (pwait p') pend \<or>
     flow = WrReturn (-1) \<and> k < left \<and> wrflags p AND PIPE_NOWAIT \<noteq> 0 \<and> sched_inv s' \<and>
       room_ok (blocked_on s') (pwait p') pend \<or>
     flow = WrSleep (off + k) (left - k) \<and> k < left \<and> wrflags p AND PIPE_NOWAIT = 0 \<and> sched_inv s' \<and>
       room_ok (blocked_on s') (pwait p') (pend(cur s := True)) \<or>
     flow = WrPanic \<and> k < left \<and> (\<exists>s1. sched_inv s1 \<and> task_block s1 TASK_BLOCKED = None)"
proof (cases "left = 0")
  case True
  then show ?thesis using that [of "WrReturn (int off)" s p 0] wf s by (simp add: pipe_write_loop.simps bytes_def)
next
  case False
  obtain k s1 p1 where R: "pipe_write_round s p buf off left = Some (k, s1, p1)"
    "k = min left (4096 - length (pipe_bytes p))" "pipe_bytes p1 = pipe_bytes p @ bytes (\<lambda>i. buf (off + i)) k"
    "pipe_wf p1" "sched_inv s1" "cur s1 = cur s" "room_ok (blocked_on s1) (pwait p1) pend" "wrflags p1 = wrflags p"
    "read_count p1 = read_count p" "write_count p1 = write_count p"
    by (rule pipe_write_round_spec [OF wf s])
  have full: "left - k > 0 \<Longrightarrow> fifo_buf_avali (pfifo p1) \<le> 0"
    using pipe_full [OF R(4)] R(2,3) pipe_bytes_bound [OF wf] by simp
  note loop = pipe_write_loop.simps [of s p buf off left]
  consider (finished) "k = left" | (nowait) "k < left" "wrflags p AND PIPE_NOWAIT \<noteq> 0"
    | (sleep) "k < left" "wrflags p AND PIPE_NOWAIT = 0" using R(2) by linarith
  then show ?thesis
  proof cases
    case finished
    then have "pipe_write_loop s p buf off left = Some (WrReturn (int (off + left)), s1, p1)"
      using False by (subst loop) (simp add: R(1), simp add: pipe_write_loop.simps)
    with finished R show ?thesis by (intro that [of "WrReturn (int (off + left))" s1 p1 k]) auto
  next
    case nowait
    then have "pipe_write_loop s p buf off left = Some (WrReturn (-1), s1, p1)"
      using False full R(8) by (subst loop) (simp add: R(1))
    with nowait R show ?thesis by (intro that [of "WrReturn (-1)" s1 p1 k]) auto
  next
    case sleep
    note add = wait_queue_add_cur [OF R(5,7)]
    show ?thesis
    proof (cases "task_block s1 TASK_BLOCKED")
      case None
      then have "pipe_write_loop s p buf off left = Some (WrPanic, s1, p1)"
        using False full sleep R(8) add by (subst loop) (simp add: R(1))
      with None sleep(1) R show ?thesis by (intro that [of WrPanic s1 p1 k]) auto
    next
      case (Some s2)
      then have loop2: "pipe_write_loop s p buf off left =
          Some (WrSleep (off + k) (left - k), s2, p1\<lparr>pwait := pwait p1 @ [cur s1]\<rparr>)"
        using False full sleep R(8) add by (subst loop) (simp add: R(1))
      have blk: "is_blocking s1 = Some s2" using Some by (simp add: is_blocking_def)
      from bs.block_law [OF R(5) blk] bs.room_enter [OF R(5) blk R(7)] sleep R loop2 show ?thesis
        by (intro that [of "WrSleep (off + k) (left - k)" s2 "p1\<lparr>pwait := pwait p1 @ [cur s1]\<rparr>" k])
          (auto simp: pipe_wf_def)
    qed
  qed
qed

subsection \<open>Reading at the end of the stream\<close>

lemma pipe_read_loop_stuck:
  assumes "read_count p > 0" "write_count p \<le> 0" "fifo_buf_len (pfifo p) \<le> 0" "n \<noteq> 0"
  shows "pipe_read_loop wakes i s p rd n = None"
proof (rule ccontr)
  assume "pipe_read_loop wakes i s p rd n \<noteq> None"
  then obtain r where ret: "pipe_read_loop wakes i s p rd n = Some r" by auto
  have "\<not> (read_count p > 0 \<and> write_count p \<le> 0 \<and> fifo_buf_len (pfifo p) \<le> 0 \<and> n \<noteq> 0)"
  proof (rule pipe_read_loop.raw_induct [where P = "\<lambda>wakes i s p rd n r.
      \<not> (read_count p > 0 \<and> write_count p \<le> 0 \<and> fifo_buf_len (pfifo p) \<le> 0 \<and> n \<noteq> 0)", OF _ ret], rule notI)
    fix f wakes i s p rd n r
    assume IH: "\<And>wakes i s p rd n r. f wakes i s p rd n = Some r \<Longrightarrow>
        \<not> (read_count p > 0 \<and> write_count p \<le> 0 \<and> fifo_buf_len (pfifo p) \<le> 0 \<and> n \<noteq> 0)"
      and eq: "(if n = 0 then Some (Some (int (length rd), rd, s, p))
        else case pipe_read_begin s p of None \<Rightarrow> Some None
           | Some (RdReturn r, s, p) \<Rightarrow>
               if r < 0 then Some (Some (if rd = [] then -1 else int (length rd), rd, s, p)) else f wakes i s p rd n
           | Some (RdSleep, s, p) \<Rightarrow> (case pipe_read_end (fst (wakes i)) (snd (wakes i)) n of None \<Rightarrow> Some None
                | Some (b, s, p) \<Rightarrow> f wakes (i + 1) s p (rd @ b) (n - of_nat (length b)))
           | Some (RdGo, s, p) \<Rightarrow> (case pipe_read_end s p n of None \<Rightarrow> Some None
                | Some (b, s, p) \<Rightarrow> f wakes i s p (rd @ b) (n - of_nat (length b)))) = Some r"
      and stuck: "read_count p > 0 \<and> write_count p \<le> 0 \<and> fifo_buf_len (pfifo p) \<le> 0 \<and> n \<noteq> 0"
    then have "f wakes i s p rd n = Some r" by (simp add: pipe_read_begin_def)
    from IH [OF this] stuck show False by blast
  qed
  with assms show False by blast
qed

lemma pipe_read_eof_cases:
  assumes wf: "pipe_wf p" and rw: "read_count p > 0" "write_count p \<le> 0" and n: "n \<noteq> 0"
  shows "if unat n \<le> length (pipe_bytes p)
    then \<exists>p'. pipe_read wakes s p n = Some (Some (int (unat n), take (unat n) (pipe_bytes p), s, p')) \<and>
      pipe_bytes p' = drop (unat n) (pipe_bytes p)
    else pipe_read wakes s p n = None"
proof (cases "pipe_bytes p = []")
  case True
  then have "pipe_read_loop wakes 0 s p [] n = None"
    using pipe_read_loop_stuck [OF rw _ n] pipe_empty [OF wf] by simp
  with True n show ?thesis by (simp add: pipe_read_def unat_eq_0)
next
  case False
  obtain k d f where get: "fifo_buf_get (pfifo p) (\<lambda>_. 0) (min (min n PIPE_SIZE) (fifo_buf_len (pfifo p))) = (k, d, f)"
    "bytes d (unat k) = take (min (unat n) 4096) (pipe_bytes p)" "fifo_list f = drop (min (unat n) 4096) (pipe_bytes p)"
    "\<forall>q. pipe_wf (p\<lparr>pfifo := f, pwait := q\<rparr>)"
    by (rule pipe_read_chunk [OF wf, of n])
  let ?p = "p\<lparr>pfifo := f\<rparr>"
  let ?b = "take (unat n) (pipe_bytes p)"
  have b: "bytes d (unat k) = ?b" "fifo_list f = drop (unat n) (pipe_bytes p)"
    using get(2,3) pipe_bytes_bound [OF wf] by (simp_all add: min_def)
  have wf': "pipe_wf ?p" using get(4) by (simp add: pipe_wf_def)
  have start: "pipe_read_begin s p = Some (RdGo, s, p)"
    using rw False pipe_empty [OF wf] by (simp add: pipe_read_begin_def)
  have "pipe_read_end s p n = Some (?b, s, ?p)"
    using get(1) b rw by (simp add: pipe_read_end_def wake_peer_def)
  then have loop: "pipe_read_loop wakes 0 s p [] n = pipe_read_loop wakes 0 s ?p ?b (n - of_nat (length ?b))"
    using n start by (subst pipe_read_loop.simps) simp
  show ?thesis
  proof (cases "unat n \<le> length (pipe_bytes p)")
    case True
    then have "length ?b = unat n" by simp
    then have "pipe_read_loop wakes 0 s p [] n = Some (Some (int (unat n), ?b, s, ?p))"
      unfolding loop by (subst pipe_read_loop.simps) simp
    with True b show ?thesis by (auto simp: pipe_read_def)
  next
    case False
    then have len: "length ?b = length (pipe_bytes p)" by simp
    have "unat (of_nat (length (pipe_bytes p)) :: u32) \<le> length (pipe_bytes p)"
      by (simp add: unsigned_of_nat take_bit_nat_less_eq_self)
    with False have "n - of_nat (length ?b) \<noteq> 0" unfolding len by auto
    moreover have "fifo_buf_len (pfifo ?p) \<le> 0" using pipe_empty [OF wf'] b(2) False by simp
    ultimately have "pipe_read_loop wakes 0 s ?p ?b (n - of_nat (length ?b)) = None"
      using rw by (intro pipe_read_loop_stuck) simp_all
    with False loop show ?thesis by (simp add: pipe_read_def)
  qed
qed

subsection \<open>A system of readers and writers\<close>

text \<open>
  A task is outside the pipe, in \<open>pipe_read\<close> between two calls of \<open>__pipe_read\<close>, or has slept in a read or a
  write. \<open>pin\<close> records the bytes of the writers' buffers that were accepted, in order, and \<open>pout\<close> those the
  readers got.
\<close>

datatype ppc = POut | PRead u32 | PReadSlept u32 | PWriteSlept mem nat nat

fun slept :: "ppc \<Rightarrow> bool" where
  "slept (PReadSlept n) = True"
| "slept (PWriteSlept buf off left) = True"
| "slept _ = False"

record psys =
  psched :: sched
  pp :: pipe
  ppc :: "tid \<Rightarrow> ppc"
  pin :: "u8 list"
  pout :: "u8 list"

definition read_rest :: "psys \<Rightarrow> u32 \<Rightarrow> psys option" where
  "read_rest k n = map_option
     (\<lambda>(b, s, p). k\<lparr>psched := s, pp := p, pout := pout k @ b,
        ppc := (ppc k)(cur (psched k) := if n - of_nat (length b) = 0 then POut else PRead (n - of_nat (length b)))\<rparr>)
     (pipe_read_end (psched k) (pp k) n)"

definition read_section :: "psys \<Rightarrow> u32 \<Rightarrow> psys option" where
  "read_section k n =
     (case pipe_read_begin (psched k) (pp k) of
        None \<Rightarrow> None
      | Some (RdReturn r, s, p) \<Rightarrow>
          Some (k\<lparr>psched := s, pp := p, ppc := (ppc k)(cur (psched k) := if r < 0 then POut else PRead n)\<rparr>)
      | Some (RdSleep, s, p) \<Rightarrow> Some (k\<lparr>psched := s, pp := p, ppc := (ppc k)(cur (psched k) := PReadSlept n)\<rparr>)
      | Some (RdGo, s, p) \<Rightarrow> read_rest (k\<lparr>psched := s, pp := p\<rparr>) n)"

definition write_section :: "psys \<Rightarrow> mem \<Rightarrow> nat \<Rightarrow> nat \<Rightarrow> psys option" where
  "write_section k buf off left =
     (case pipe_write_loop (psched k) (pp k) buf off left of
        None \<Rightarrow> None
      | Some (flow, s, p) \<Rightarrow>
          let k' = k\<lparr>psched := s, pp := p,
            pin := pin k @ bytes (\<lambda>i. buf (off + i)) (length (pipe_bytes p) - length (pipe_bytes (pp k)))\<rparr>
          in case flow of
               WrPanic \<Rightarrow> None
             | WrReturn r \<Rightarrow> Some (k'\<lparr>ppc := (ppc k)(cur (psched k) := POut)\<rparr>)
             | WrSleep off' left' \<Rightarrow> Some (k'\<lparr>ppc := (ppc k)(cur (psched k) := PWriteSlept buf off' left')\<rparr>))"

text \<open>
  Any task may open, close and configure the ends while the pipe exists; any may run, sleep or be woken
  at any time, except that nobody but the pipe wakes a task of its wait list.
\<close>

inductive pipe_step :: "psys \<Rightarrow> psys \<Rightarrow> bool" where
  read_call: "ppc k (cur (psched k)) = POut \<Longrightarrow> n \<noteq> 0 \<Longrightarrow>
    pipe_step k (k\<lparr>ppc := (ppc k)(cur (psched k) := PRead n)\<rparr>)"
| read_run: "ppc k (cur (psched k)) = PRead n \<Longrightarrow> read_section k n = Some k' \<Longrightarrow> pipe_step k k'"
| read_woken: "ppc k (cur (psched k)) = PReadSlept n \<Longrightarrow> read_rest k n = Some k' \<Longrightarrow> pipe_step k k'"
| write_call: "ppc k (cur (psched k)) = POut \<Longrightarrow> pipe_write_check (Some (pp k)) n = (None, False) \<Longrightarrow>
    write_section k buf 0 (nat (sint n)) = Some k' \<Longrightarrow> pipe_step k k'"
| write_woken: "ppc k (cur (psched k)) = PWriteSlept buf off left \<Longrightarrow> write_section k buf off left = Some k' \<Longrightarrow>
    pipe_step k k'"
| control: "f \<in> {close_end rw, open_end rw, set_nowait rw} \<Longrightarrow> pipe_step k (k\<lparr>pp := f (pp k)\<rparr>)"
| other: "sched_other (psched k) s \<Longrightarrow> pipe_step k (k\<lparr>psched := s\<rparr>)"
| sleep: "task_block (psched k) TASK_BLOCKED = Some s \<Longrightarrow> pipe_step k (k\<lparr>psched := s\<rparr>)"
| wakeup: "t \<notin> set (pwait (pp k)) \<Longrightarrow> blocked_on (psched k) t \<Longrightarrow> task_wakeup (psched k) t = Some s \<Longrightarrow>
    pipe_step k (k\<lparr>psched := s\<rparr>)"

inductive pipe_reachable :: "psys \<Rightarrow> bool" where
  init: "sched_inv s \<Longrightarrow> create_pipe ps (Some raw) buf ring = (Allocated p, ps') \<Longrightarrow>
    pipe_reachable \<lparr>psched = s, pp = p, ppc = (\<lambda>_. POut), pin = [], pout = []\<rparr>"
| step: "pipe_reachable k \<Longrightarrow> pipe_step k k' \<Longrightarrow> pipe_reachable k'"

definition pipe_inv :: "psys \<Rightarrow> bool" where
  "pipe_inv k \<longleftrightarrow> sched_inv (psched k) \<and> room_ok (blocked_on (psched k)) (pwait (pp k)) (slept \<circ> ppc k) \<and>
     pipe_wf (pp k) \<and> pin k = pout k @ pipe_bytes (pp k)"

lemma pipe_invD:
  assumes "pipe_inv k"
  shows "sched_inv (psched k)" "room_ok (blocked_on (psched k)) (pwait (pp k)) (slept \<circ> ppc k)"
    "pipe_wf (pp k)" "pin k = pout k @ pipe_bytes (pp k)"
  using assms by (simp_all add: pipe_inv_def)

lemma pipe_leave:
  assumes "pipe_inv k" "\<not> slept q"
  shows "room_ok (blocked_on (psched k)) (pwait (pp k)) (slept \<circ> (ppc k)(cur (psched k) := q))"
  using bs.room_leave [OF pipe_invD(1,2) [OF assms(1)]] assms(2) by (simp add: fun_upd_comp)

lemma read_rest_inv:
  assumes inv: "pipe_inv k"
  shows "\<exists>k'. read_rest k n = Some k' \<and> pipe_inv k'"
proof -
  note D = pipe_invD [OF inv]
  let ?q = "\<lambda>b. if n - of_nat (length (b :: u8 list)) = 0 then POut else PRead (n - of_nat (length b))"
  let ?b = "take (min (unat n) 4096) (pipe_bytes (pp k))"
  have room: "room_ok (blocked_on (psched k)) (pwait (pp k)) (slept \<circ> (ppc k)(cur (psched k) := ?q ?b))"
    by (rule pipe_leave [OF inv]) simp
  show ?thesis
    by (rule pipe_read_end_spec [OF D(3,1) room, of n])
      (use D(4) in \<open>auto simp: read_rest_def pipe_inv_def simp del: slept.simps\<close>)
qed

lemma pipe_read_begin_cases:
  assumes "sched_inv s" "room_ok (blocked_on s) (pwait p) pend"
  shows "(\<exists>x. pipe_read_begin s p = Some (RdReturn x, s, p)) \<or> pipe_read_begin s p = Some (RdGo, s, p) \<or>
    (\<exists>s'. is_blocking s = Some s' \<and> pipe_read_begin s p = Some (RdSleep, s', p\<lparr>pwait := pwait p @ [cur s]\<rparr>)) \<or>
    pipe_read_begin s p = None \<and> task_block s TASK_BLOCKED = None"
  using wait_queue_add_cur [OF assms] unfolding is_blocking_def
  by (cases "task_block s TASK_BLOCKED") (simp_all add: pipe_read_begin_def)

lemma read_section_inv:
  assumes inv: "pipe_inv k"
  shows "(\<exists>k'. read_section k n = Some k' \<and> pipe_inv k') \<or>
    read_section k n = None \<and> task_block (psched k) TASK_BLOCKED = None"
proof -
  note D = pipe_invD [OF inv]
  have idle: "pipe_inv (k\<lparr>ppc := (ppc k)(cur (psched k) := q)\<rparr>)" if "\<not> slept q" for q
    using pipe_leave [OF inv that] D by (simp add: pipe_inv_def)
  from pipe_read_begin_cases [OF D(1,2)] show ?thesis
  proof (elim disjE exE conjE)
    fix x assume "pipe_read_begin (psched k) (pp k) = Some (RdReturn x, psched k, pp k)"
    then have "read_section k n = Some (k\<lparr>ppc := (ppc k)(cur (psched k) := if x < 0 then POut else PRead n)\<rparr>)"
      by (simp add: read_section_def)
    with idle show ?thesis by simp
  next
    assume "pipe_read_begin (psched k) (pp k) = Some (RdGo, psched k, pp k)"
    then have "read_section k n = read_rest k n" by (simp add: read_section_def)
    with read_rest_inv [OF inv] show ?thesis by simp
  next
    fix s assume s: "is_blocking (psched k) = Some s"
      "pipe_read_begin (psched k) (pp k) = Some (RdSleep, s, (pp k)\<lparr>pwait := pwait (pp k) @ [cur (psched k)]\<rparr>)"
    have "pipe_wf ((pp k)\<lparr>pwait := w\<rparr>)" for w using D(3) by (simp add: pipe_wf_def)
    with s(2) bs.block_law [OF D(1) s(1)] bs.room_enter [OF D(1) s(1) D(2)] D show ?thesis
      by (simp add: read_section_def pipe_inv_def fun_upd_comp)
  qed (simp add: read_section_def)
qed

lemma write_section_inv:
  assumes inv: "pipe_inv k"
  shows "(\<exists>k'. write_section k buf off left = Some k' \<and> pipe_inv k') \<or>
    write_section k buf off left = None \<and> (\<exists>s. sched_inv s \<and> task_block s TASK_BLOCKED = None)"
proof -
  note D = pipe_invD [OF inv]
  let ?u = "cur (psched k)"
  note room = pipe_leave [OF inv, of POut, simplified]
  obtain flow s' p' n where L: "pipe_write_loop (psched k) (pp k) buf off left = Some (flow, s', p')"
    "pipe_bytes p' = pipe_bytes (pp k) @ bytes (\<lambda>i. buf (off + i)) n" "pipe_wf p'"
    "(\<exists>r. flow = WrReturn r) \<and> sched_inv s' \<and> room_ok (blocked_on s') (pwait p') (slept \<circ> (ppc k)(?u := POut)) \<or>
     (\<exists>off' left'. flow = WrSleep off' left') \<and> sched_inv s' \<and>
       room_ok (blocked_on s') (pwait p') ((slept \<circ> (ppc k)(?u := POut))(?u := True)) \<or>
     flow = WrPanic \<and> (\<exists>s1. sched_inv s1 \<and> task_block s1 TASK_BLOCKED = None)"
    by (rule pipe_write_loop_spec [OF D(3,1) room, of buf off left]) blast
  have n: "length (pipe_bytes p') - length (pipe_bytes (pp k)) = n" using L(2) by simp
  show ?thesis
  proof (cases flow)
    case (WrReturn r)
    with L D(4) n show ?thesis by (simp add: write_section_def pipe_inv_def)
  next
    case (WrSleep off' left')
    with L D(4) n show ?thesis by (simp add: write_section_def pipe_inv_def fun_upd_comp)
  next
    case WrPanic
    with L show ?thesis by (simp add: write_section_def)
  qed
qed

lemma pipe_inv_sched:
  assumes "pipe_inv k" "sched_inv s" "room_ok (blocked_on s) (pwait (pp k)) (slept \<circ> ppc k)"
  shows "pipe_inv (k\<lparr>psched := s\<rparr>)"
  using assms by (simp add: pipe_inv_def)

lemma pipe_step_inv:
  assumes inv: "pipe_inv k" and "pipe_step k k'"
  shows "pipe_inv k'"
proof -
  note D = pipe_invD [OF inv]
  show ?thesis
    using assms(2)
  proof (cases rule: pipe_step.cases)
    case (read_call n)
    with pipe_leave [OF inv, of "PRead n"] D show ?thesis by (simp add: pipe_inv_def)
  next
    case (read_run n)
    then show ?thesis using read_section_inv [OF inv, of n] by auto
  next
    case (read_woken n)
    then show ?thesis using read_rest_inv [OF inv, of n] by auto
  next
    case (write_call n buf)
    then show ?thesis using write_section_inv [OF inv, of buf 0 "nat (sint n)"] by auto
  next
    case (write_woken buf off left)
    then show ?thesis using write_section_inv [OF inv, of buf off left] by auto
  next
    case (control f rw)
    then have "pwait (f (pp k)) = pwait (pp k)" "pfifo (f (pp k)) = pfifo (pp k)"
      by (auto simp: close_end_def open_end_def set_nowait_def)
    with control D show ?thesis by (simp add: pipe_inv_def pipe_wf_def)
  next
    case (other s)
    from bs.other_law [OF D(1) other(2)] bs.room_other [OF D(1) other(2) D(2)] show ?thesis
      unfolding other(1) by (intro pipe_inv_sched [OF inv]) simp_all
  next
    case (sleep s)
    then have blk: "is_blocking (psched k) = Some s" by (simp add: is_blocking_def)
    from bs.block_law [OF D(1) blk] bs.room_block [OF D(1) blk D(2)] show ?thesis
      unfolding sleep(1) by (intro pipe_inv_sched [OF inv]) simp_all
  next
    case (wakeup t s)
    from bs.wake_law [OF D(1) wakeup(3)] wakeup(4) bs.room_wake [OF D(1) wakeup(4,3,2) D(2)] show ?thesis
      unfolding wakeup(1) by (intro pipe_inv_sched [OF inv]) auto
  qed
qed

lemma create_pipe_new:
  assumes "create_pipe ps (Some raw) buf ring = (Allocated p, ps')"
  shows "pipe_wf p \<and> pipe_bytes p = [] \<and> pwait p = []"
proof -
  have p2: "is_power_of_2 PIPE_SIZE" by (simp add: PIPE_SIZE_def is_power_of_2_def)
  with assms obtain b f where "p = (pipe_clear raw)\<lparr>pfifo := fifo_buf_init f b PIPE_SIZE, pipe_id := pipe_next_id ps\<rparr>"
    by (auto simp: create_pipe_def fifo_buf_alloc_def Let_def split: option.splits)
  with fifo_init_wf [OF p2] show ?thesis by (simp add: pipe_wf_def pipe_clear_def)
qed

lemma pipe_reachable_inv: "pipe_reachable k \<Longrightarrow> pipe_inv k"
proof (induction rule: pipe_reachable.induct)
  case (init s ps raw buf ring p ps')
  with create_pipe_new [OF init(2)] show ?case by (simp add: pipe_inv_def room_ok_def waitlist_ok_def)
qed (rule pipe_step_inv)

subsection \<open>Properties\<close>

text \<open>A pipe into which task 0 has written three bytes.\<close>

definition demo_new_pipe :: "pipe alloc_outcome \<times> pipes" where
  "demo_new_pipe = create_pipe \<lparr>pipe_list = [], pipe_next_id = 0\<rparr>
     (Some \<lparr>pipe_id = 0, pfifo = example_fifo, pflags = 0, rdflags = 0, wrflags = 0, read_count = 0, write_count = 0,
        pmutex = mutexlock_init, pwait = []\<rparr>) (Some (\<lambda>_. 0)) (Some example_fifo)"

definition demo_pipe0 :: psys where
  "demo_pipe0 = \<lparr>psched = demo_sched, pp = (case fst demo_new_pipe of Allocated p \<Rightarrow> p), ppc = (\<lambda>_. POut),
     pin = [], pout = []\<rparr>"

definition demo_pipe :: psys where
  "demo_pipe = the (write_section demo_pipe0 (\<lambda>i. of_nat (i + 65)) 0 3)"

lemma demo_pipe_facts:
  "pipe_reachable demo_pipe" "pin demo_pipe = [65, 66, 67]" "pout demo_pipe = []" "read_count (pp demo_pipe) = 1"
  "write_count (pp demo_pipe) = 1"
proof -
  let ?buf = "\<lambda>i. of_nat (i + 65)"
  obtain p ps' where new: "demo_new_pipe = (Allocated p, ps')"
    by (auto simp: demo_new_pipe_def create_pipe_def fifo_buf_alloc_def PIPE_SIZE_def is_power_of_2_def Let_def)
  have pp: "pp demo_pipe0 = p" unfolding demo_pipe0_def new by simp
  have inv: "sched_inv demo_sched" using reachable_inv [OF demo_reachable] by simp
  then have r0: "pipe_reachable demo_pipe0"
    unfolding demo_pipe0_def using new by (auto intro: pipe_reachable.init simp: demo_new_pipe_def)
  have p: "pipe_wf p" "pipe_bytes p = []" "pwait p = []"
    using create_pipe_new [OF new [unfolded demo_new_pipe_def]] by simp_all
  have cnt: "read_count (pp demo_pipe0) = 1" "write_count (pp demo_pipe0) = 1" by code_simp+
  have room: "room_ok (blocked_on demo_sched) (pwait p) (\<lambda>_. False)" by (simp add: p room_ok_def waitlist_ok_def)
  obtain s' p' where w: "pipe_write_loop demo_sched p ?buf 0 3 = Some (WrReturn 3, s', p')"
    "pipe_bytes p' = bytes ?buf 3" "read_count p' = read_count p" "write_count p' = write_count p"
    by (rule pipe_write_loop_spec [OF p(1) inv room, of ?buf 0 3]) (auto simp: p(2))
  then have sec: "write_section demo_pipe0 ?buf 0 3 = Some demo_pipe"
    using pp by (simp add: demo_pipe_def write_section_def demo_pipe0_def)
  then show "pipe_reachable demo_pipe"
    using cnt by (intro pipe_reachable.step [OF r0 pipe_step.write_call [where n = 3]])
      (simp_all add: demo_pipe0_def pipe_write_check_def)
  have b: "bytes ?buf 3 = [65, 66, 67]" by code_simp
  have pick: "psched demo_pipe0 = demo_sched" "pin demo_pipe0 = []" "pout demo_pipe0 = []" by (simp_all add: demo_pipe0_def)
  have k: "demo_pipe = demo_pipe0\<lparr>psched := s', pp := p', pin := bytes ?buf (length (pipe_bytes p') - length (pipe_bytes p)),
      ppc := (ppc demo_pipe0)(cur demo_sched := POut)\<rparr>"
    using sec [symmetric] unfolding write_section_def pick pp w(1) by simp
  have "pin demo_pipe = bytes ?buf (length (pipe_bytes p') - length (pipe_bytes p))"
    "pout demo_pipe = []" "pp demo_pipe = p'"
    unfolding k by (simp_all add: pick)
  then show "pin demo_pipe = [65, 66, 67]" "pout demo_pipe = []" "read_count (pp demo_pipe) = 1" "write_count (pp demo_pipe) = 1"
    using w(2-) b cnt p(2) pick pp by simp_all
qed

text \<open>
  C19. A pipe is a byte stream: in every state that any number of readers and writers can reach, with
  any opening, closing and configuring of its ends, the bytes the writers' buffers have supplied are
  exactly the bytes the readers got, followed by those in the ring, in the same order; the ring holds
  at most 4096 bytes. No section of a read or a write fails an assertion; it panics only if it goes to
  sleep and no other task can run.
\<close>

theorem pipe_stream:
  assumes "pipe_reachable k"
  shows "pin k = pout k @ pipe_bytes (pp k) \<and> length (pipe_bytes (pp k)) \<le> 4096 \<and>
    (read_section k n = None \<longrightarrow> task_block (psched k) TASK_BLOCKED = None) \<and> read_rest k n \<noteq> None \<and>
    (write_section k buf off left = None \<longrightarrow> (\<exists>s. sched_inv s \<and> task_block s TASK_BLOCKED = None))"
proof -
  note inv = pipe_reachable_inv [OF assms]
  note D = pipe_invD [OF inv]
  show ?thesis
    using D(4) pipe_bytes_bound [OF D(3)] read_section_inv [OF inv, of n] read_rest_inv [OF inv, of n]
      write_section_inv [OF inv, of buf off left] by auto
qed

theorem pipe_stream_witness: "pout demo_pipe @ pipe_bytes (pp demo_pipe) = [65, 66, 67] \<and> read_rest demo_pipe 2 \<noteq> None"
proof -
  from pipe_stream [OF demo_pipe_facts(1), of 2] demo_pipe_facts(2) show ?thesis by auto
qed

text \<open>
  C20. At the end of the stream \<open>pipe_read\<close> hangs: when no writer is left, it returns if and only if the
  ring still holds as many bytes as were asked for, and then it delivers them in order. Otherwise
  \<open>__pipe_read\<close> returns 0 for ever and the loop around it never ends, although the comments promise a
  return of 0.
\<close>

theorem pipe_read_eof:
  assumes "pipe_wf p" "read_count p > 0" "write_count p \<le> 0" "n \<noteq> 0"
  shows "if unat n \<le> length (pipe_bytes p)
    then \<exists>p'. pipe_read wakes s p n = Some (Some (int (unat n), take (unat n) (pipe_bytes p), s, p')) \<and>
      pipe_bytes p' = drop (unat n) (pipe_bytes p)
    else pipe_read wakes s p n = None"
  by (rule pipe_read_eof_cases [OF assms])

theorem pipe_read_eof_witness:
  "\<exists>p'. pipe_read (\<lambda>_. undefined) demo_sched (close_end True (pp demo_pipe)) 2 =
       Some (Some (2, [65, 66], demo_sched, p')) \<and>
     pipe_read (\<lambda>_. undefined) demo_sched (close_end True (pp demo_pipe)) 4 = None"
proof -
  let ?p = "close_end True (pp demo_pipe)"
  have D: "pipe_wf (pp demo_pipe)" "pin demo_pipe = pout demo_pipe @ pipe_bytes (pp demo_pipe)"
    using pipe_invD(3,4) [OF pipe_reachable_inv [OF demo_pipe_facts(1)]] by simp_all
  have wf: "pipe_wf ?p" "pipe_bytes ?p = pipe_bytes (pp demo_pipe)" using D(1) by (simp_all add: pipe_wf_def close_end_def)
  have "read_count ?p = 1" "write_count ?p = 0" using demo_pipe_facts by (simp_all add: close_end_def)
  with demo_pipe_facts(2,3) D(2) wf pipe_read_eof [OF wf(1), of 2] pipe_read_eof [OF wf(1), of 4]
  show ?thesis by simp blast
qed

end
