(* ===== verification/RwLock.thy ===== *)
theory RwLock
  imports Sync "HOL-Library.Sublist"
begin

section \<open>Read-write locks\<close>

text \<open>
  \<open>src/src/include/xbook/rwlock.h\<close> and \<open>src/src/task/rwlock.c\<close>. The lock is a reader count and three
  mutexes; its operations are straight lines of calls of \<open>mutex_lock\<close> and \<open>mutex_unlock\<close> with a
  condition on the count, and are kept as such lines. Between two calls any other task may run. A
  \<open>mutex_lock\<close> that finds the mutex taken is not executed and stays the next instruction of its task;
  the sleep and the wakeup behind this are in the theory \<open>Sync\<close>.
\<close>

datatype rwlock_arg = RWLOCK_RD_FIRST | RWLOCK_WR_FIRST | RWLOCK_RW_FAIR

datatype rw_mutexes = Count_mutex | Rw_mutex | Write_mutex

record rwlock =
  rw_count :: int
  mutexes :: "rw_mutexes \<Rightarrow> mutexlock"

text \<open>The statements of the operations; the last two are guarded by \<open>if (lock->count == 0)\<close>.\<close>

datatype rw_stmt = Lock rw_mutexes | Unlock rw_mutexes | Inc | Dec | LockIfZero rw_mutexes | UnlockIfZero rw_mutexes

definition read_lock_rd_first :: "rw_stmt list" where
  [simp]: "read_lock_rd_first = [Lock Count_mutex, LockIfZero Rw_mutex, Inc, Unlock Count_mutex]"

definition read_unlock_rd_first :: "rw_stmt list" where
  [simp]: "read_unlock_rd_first = [Lock Count_mutex, Dec, UnlockIfZero Rw_mutex, Unlock Count_mutex]"

definition write_lock_rd_first :: "rw_stmt list" where
  [simp]: "write_lock_rd_first = [Lock Rw_mutex]"

definition write_unlock_rd_first :: "rw_stmt list" where
  [simp]: "write_unlock_rd_first = [Unlock Rw_mutex]"

definition read_lock_wr_first :: "rw_stmt list" where
  [simp]: "read_lock_wr_first =
     [Lock Write_mutex, Lock Count_mutex, LockIfZero Rw_mutex, Inc, Unlock Count_mutex, Unlock Write_mutex]"

definition write_lock_wr_first :: "rw_stmt list" where
  [simp]: "write_lock_wr_first = [Lock Write_mutex, Lock Rw_mutex]"

definition write_unlock_wr_first :: "rw_stmt list" where
  [simp]: "write_unlock_wr_first = [Unlock Rw_mutex, Unlock Write_mutex]"

definition write_lock_rw_fair :: "rw_stmt list" where
  [simp]: "write_lock_rw_fair = [Lock Write_mutex, Lock Rw_mutex, Unlock Write_mutex]"

definition write_unlock_rw_fair :: "rw_stmt list" where
  [simp]: "write_unlock_rw_fair = [Unlock Rw_mutex]"

text \<open>
  The functions \<open>rwlock_init\<close> stores for each kind. The read functions of the fair kind are those of the
  writers-first kind, and there is one \<open>read_unlock\<close> for all.
\<close>

fun read_lock :: "rwlock_arg \<Rightarrow> rw_stmt list" where
  "read_lock RWLOCK_RD_FIRST = read_lock_rd_first"
| "read_lock RWLOCK_WR_FIRST = read_lock_wr_first"
| "read_lock RWLOCK_RW_FAIR = read_lock_wr_first"

definition read_unlock :: "rwlock_arg \<Rightarrow> rw_stmt list" where
  "read_unlock K = read_unlock_rd_first"

fun write_lock :: "rwlock_arg \<Rightarrow> rw_stmt list" where
  "write_lock RWLOCK_RD_FIRST = write_lock_rd_first"
| "write_lock RWLOCK_WR_FIRST = write_lock_wr_first"
| "write_lock RWLOCK_RW_FAIR = write_lock_rw_fair"

fun write_unlock :: "rwlock_arg \<Rightarrow> rw_stmt list" where
  "write_unlock RWLOCK_RD_FIRST = write_unlock_rd_first"
| "write_unlock RWLOCK_WR_FIRST = write_unlock_wr_first"
| "write_unlock RWLOCK_RW_FAIR = write_unlock_rw_fair"

definition rwlock_init :: rwlock where
  "rwlock_init = \<lparr>rw_count = 0, mutexes = (\<lambda>_. mutexlock_init)\<rparr>"

text \<open>\<open>None\<close>: the mutex is taken.\<close>

definition rw_lock :: "rw_mutexes \<Rightarrow> rwlock \<Rightarrow> rwlock option" where
  "rw_lock m l = (case mutex_try_lock (mutexes l m) of (old, x) \<Rightarrow>
     if old = 0 then Some (l\<lparr>mutexes := (mutexes l)(m := x)\<rparr>) else None)"

definition rw_unlock :: "rw_mutexes \<Rightarrow> rwlock \<Rightarrow> rwlock" where
  "rw_unlock m l = l\<lparr>mutexes := (mutexes l)(m := (mutexes l m)\<lparr>mcount := 0\<rparr>)\<rparr>"

fun rw_exec :: "rw_stmt \<Rightarrow> rwlock \<Rightarrow> rwlock option" where
  "rw_exec (Lock m) l = rw_lock m l"
| "rw_exec (Unlock m) l = Some (rw_unlock m l)"
| "rw_exec Inc l = Some (l\<lparr>rw_count := rw_count l + 1\<rparr>)"
| "rw_exec Dec l = Some (l\<lparr>rw_count := rw_count l - 1\<rparr>)"
| "rw_exec (LockIfZero m) l = (if rw_count l = 0 then rw_lock m l else Some l)"
| "rw_exec (UnlockIfZero m) l = Some (if rw_count l = 0 then rw_unlock m l else l)"

subsection \<open>A system of readers and writers\<close>

text \<open>A task is in one of the operations with the statements that are left, or between them.\<close>

datatype rwpc = RwIdle | Reading | Writing | RLock "rw_stmt list" | RUnlock "rw_stmt list"
  | WLock "rw_stmt list" | WUnlock "rw_stmt list"

record rwsys =
  rwl :: rwlock
  rwpc :: "tid \<Rightarrow> rwpc"

text \<open>\<open>rw_next K p p'\<close>: calls and returns; \<open>rw_at p i p'\<close>: \<open>i\<close> is the next statement of \<open>p\<close>.\<close>

inductive rw_next :: "rwlock_arg \<Rightarrow> rwpc \<Rightarrow> rwpc \<Rightarrow> bool" for K where
  rdlock: "rw_next K RwIdle (RLock (read_lock K))"
| reading: "rw_next K (RLock []) Reading"
| rdunlock: "rw_next K Reading (RUnlock (read_unlock K))"
| rddone: "rw_next K (RUnlock []) RwIdle"
| wrlock: "rw_next K RwIdle (WLock (write_lock K))"
| writing: "rw_next K (WLock []) Writing"
| wrunlock: "rw_next K Writing (WUnlock (write_unlock K))"
| wrdone: "rw_next K (WUnlock []) RwIdle"

fun rw_at :: "rwpc \<Rightarrow> rw_stmt \<Rightarrow> rwpc \<Rightarrow> bool" where
  "rw_at (RLock (i # p)) j q \<longleftrightarrow> j = i \<and> q = RLock p"
| "rw_at (RUnlock (i # p)) j q \<longleftrightarrow> j = i \<and> q = RUnlock p"
| "rw_at (WLock (i # p)) j q \<longleftrightarrow> j = i \<and> q = WLock p"
| "rw_at (WUnlock (i # p)) j q \<longleftrightarrow> j = i \<and> q = WUnlock p"
| "rw_at _ j q \<longleftrightarrow> False"

inductive rw_step :: "rwlock_arg \<Rightarrow> rwsys \<Rightarrow> rwsys \<Rightarrow> bool" for K where
  move: "rw_next K (rwpc k t) p \<Longrightarrow> rw_step K k (k\<lparr>rwpc := (rwpc k)(t := p)\<rparr>)"
| exec: "rw_at (rwpc k t) i p \<Longrightarrow> rw_exec i (rwl k) = Some l \<Longrightarrow>
    rw_step K k (k\<lparr>rwl := l, rwpc := (rwpc k)(t := p)\<rparr>)"

inductive rw_reachable :: "rwlock_arg \<Rightarrow> rwsys \<Rightarrow> bool" for K where
  init: "rw_reachable K \<lparr>rwl = rwlock_init, rwpc = (\<lambda>_. RwIdle)\<rparr>"
| step: "rw_reachable K k \<Longrightarrow> rw_step K k k' \<Longrightarrow> rw_reachable K k'"

inductive_cases rw_nextE: "rw_next K p p'"

subsection \<open>What a task holds\<close>

text \<open>
  Read off from the statements that are left: the mutex of the count, the mutex of the writers, the
  read-write mutex as a writer; \<open>grp\<close>: the task is about to count itself in or has just counted itself
  out; \<open>counted\<close>: the count includes it.
\<close>

fun holds :: "rw_mutexes \<Rightarrow> rwlock_arg \<Rightarrow> rwpc \<Rightarrow> bool" where
  "holds Count_mutex K (RLock p) \<longleftrightarrow> Lock Count_mutex \<notin> set p \<and> Unlock Count_mutex \<in> set p"
| "holds Count_mutex K (RUnlock p) \<longleftrightarrow> Lock Count_mutex \<notin> set p \<and> Unlock Count_mutex \<in> set p"
| "holds Write_mutex K (RLock p) \<longleftrightarrow> Lock Write_mutex \<notin> set p \<and> Unlock Write_mutex \<in> set p"
| "holds Write_mutex K (WLock p) \<longleftrightarrow> Lock Write_mutex \<notin> set p \<and>
     (K = RWLOCK_WR_FIRST \<or> Unlock Write_mutex \<in> set p)"
| "holds Write_mutex K Writing \<longleftrightarrow> K = RWLOCK_WR_FIRST"
| "holds Write_mutex K (WUnlock p) \<longleftrightarrow> Unlock Write_mutex \<in> set p"
| "holds Rw_mutex K (WLock p) \<longleftrightarrow> Lock Rw_mutex \<notin> set p"
| "holds Rw_mutex K Writing \<longleftrightarrow> True"
| "holds Rw_mutex K (WUnlock p) \<longleftrightarrow> Unlock Rw_mutex \<in> set p"
| "holds _ _ _ \<longleftrightarrow> False"

fun grp :: "rwpc \<Rightarrow> bool" where
  "grp (RLock p) \<longleftrightarrow> LockIfZero Rw_mutex \<notin> set p \<and> Inc \<in> set p"
| "grp (RUnlock p) \<longleftrightarrow> Dec \<notin> set p \<and> UnlockIfZero Rw_mutex \<in> set p"
| "grp _ \<longleftrightarrow> False"

fun counted :: "rwpc \<Rightarrow> bool" where
  "counted (RLock p) \<longleftrightarrow> Inc \<notin> set p"
| "counted Reading \<longleftrightarrow> True"
| "counted (RUnlock p) \<longleftrightarrow> Dec \<in> set p"
| "counted _ \<longleftrightarrow> False"

text \<open>The statements that are left are an end of the operation.\<close>

fun rw_valid :: "rwlock_arg \<Rightarrow> rwpc \<Rightarrow> bool" where
  "rw_valid K (RLock p) \<longleftrightarrow> p \<in> set (suffixes (read_lock K))"
| "rw_valid K (RUnlock p) \<longleftrightarrow> p \<in> set (suffixes (read_unlock K))"
| "rw_valid K (WLock p) \<longleftrightarrow> p \<in> set (suffixes (write_lock K))"
| "rw_valid K (WUnlock p) \<longleftrightarrow> p \<in> set (suffixes (write_unlock K))"
| "rw_valid K _ \<longleftrightarrow> True"

lemma rw_next_effect:
  assumes "rw_next K p p'"
  shows "rw_valid K p' \<and> holds m K p' = holds m K p \<and> grp p' = grp p \<and> counted p' = counted p"
  by (cases K; cases m; rule rw_next.cases [OF assms]; simp add: read_unlock_def)

text \<open>What executing a statement changes: \<open>Lock\<close> and \<open>Unlock\<close> give and take the mutex, and so on.\<close>

definition rw_effect :: "rw_stmt \<Rightarrow> rwlock_arg \<Rightarrow> rwpc \<Rightarrow> rwpc \<Rightarrow> bool" where
  "rw_effect i K p p' \<longleftrightarrow> (case i of
       Lock m \<Rightarrow> \<not> holds m K p \<and> (\<forall>n. holds n K p' \<longleftrightarrow> n = m \<or> holds n K p) \<and> grp p' = grp p \<and> counted p' = counted p
     | Unlock m \<Rightarrow> holds m K p \<and> (\<forall>n. holds n K p' \<longleftrightarrow> n \<noteq> m \<and> holds n K p) \<and> grp p' = grp p \<and> counted p' = counted p \<and>
         \<not> grp p
     | Inc \<Rightarrow> holds Count_mutex K p \<and> (\<forall>n. holds n K p' = holds n K p) \<and> grp p \<and> \<not> grp p' \<and> \<not> counted p \<and> counted p'
     | Dec \<Rightarrow> holds Count_mutex K p \<and> (\<forall>n. holds n K p' = holds n K p) \<and> \<not> grp p \<and> grp p' \<and> counted p \<and> \<not> counted p'
     | LockIfZero m \<Rightarrow> m = Rw_mutex \<and> holds Count_mutex K p \<and> (\<forall>n. holds n K p' = holds n K p) \<and> \<not> grp p \<and> grp p' \<and>
         counted p' = counted p
     | UnlockIfZero m \<Rightarrow> m = Rw_mutex \<and> holds Count_mutex K p \<and> (\<forall>n. holds n K p' = holds n K p) \<and> grp p \<and> \<not> grp p' \<and>
         counted p' = counted p)"

lemma all_mutexes: "(\<forall>n. P n) \<longleftrightarrow> P Count_mutex \<and> P Rw_mutex \<and> P Write_mutex"
  by (metis rw_mutexes.exhaust)

lemma rw_at_effect:
  assumes "rw_valid K p" "rw_at p i p'"
  shows "rw_valid K p' \<and> rw_effect i K p p'"
proof (cases p)
  case (RLock q)
  with assms show ?thesis by (cases K; auto simp: rw_effect_def all_mutexes)
next
  case (RUnlock q)
  with assms show ?thesis by (cases K; auto simp: rw_effect_def all_mutexes read_unlock_def)
next
  case (WLock q)
  with assms show ?thesis by (cases K; auto simp: rw_effect_def all_mutexes)
next
  case (WUnlock q)
  with assms show ?thesis by (cases K; auto simp: rw_effect_def all_mutexes)
qed (use assms in auto)

lemma grp_holds: "rw_valid K p \<Longrightarrow> grp p \<Longrightarrow> holds Count_mutex K p"
  by (cases p; cases K) (auto simp: read_unlock_def)

subsection \<open>The invariant\<close>

text \<open>
  A mutex has at most one holder, and the first two are locked exactly when they have one. The
  read-write mutex is locked for a writer, or for the readers as a group: then somebody is counted,
  or is between the change of the count and that of the mutex; never both.
\<close>

abbreviation locked :: "rwlock \<Rightarrow> rw_mutexes \<Rightarrow> bool" where
  "locked l m \<equiv> mcount (mutexes l m) \<noteq> 0"

definition group :: "rwsys \<Rightarrow> bool" where
  "group k \<longleftrightarrow> (\<exists>t. grp (rwpc k t)) \<or> rw_count (rwl k) > 0"

definition rw_inv :: "rwlock_arg \<Rightarrow> rwsys \<Rightarrow> bool" where
  "rw_inv K k \<longleftrightarrow> (\<forall>t. rw_valid K (rwpc k t)) \<and>
     (\<forall>m t u. holds m K (rwpc k t) \<and> holds m K (rwpc k u) \<longrightarrow> t = u) \<and>
     (\<forall>m. locked (rwl k) m \<longleftrightarrow> (\<exists>t. holds m K (rwpc k t)) \<or> m = Rw_mutex \<and> group k) \<and>
     (\<forall>t. holds Rw_mutex K (rwpc k t) \<longrightarrow> \<not> group k) \<and>
     finite {t. counted (rwpc k t)} \<and> rw_count (rwl k) = int (card {t. counted (rwpc k t)})"

lemma rw_invI:
  assumes "\<And>t. rw_valid K (rwpc k t)"
    and "\<And>m t u. holds m K (rwpc k t) \<Longrightarrow> holds m K (rwpc k u) \<Longrightarrow> t = u"
    and "\<And>m. locked (rwl k) m \<longleftrightarrow> (\<exists>t. holds m K (rwpc k t)) \<or> m = Rw_mutex \<and> group k"
    and "\<And>t. holds Rw_mutex K (rwpc k t) \<Longrightarrow> \<not> group k"
    and "finite {t. counted (rwpc k t)}" "rw_count (rwl k) = int (card {t. counted (rwpc k t)})"
  shows "rw_inv K k"
  unfolding rw_inv_def using assms by blast

lemma rw_invD:
  assumes "rw_inv K k"
  shows "rw_valid K (rwpc k t)" "holds m K (rwpc k t) \<Longrightarrow> holds m K (rwpc k u) \<Longrightarrow> t = u"
    and "locked (rwl k) m \<longleftrightarrow> (\<exists>t. holds m K (rwpc k t)) \<or> m = Rw_mutex \<and> group k"
    and "holds Rw_mutex K (rwpc k t) \<Longrightarrow> \<not> group k"
    and "finite {t. counted (rwpc k t)}" "rw_count (rwl k) = int (card {t. counted (rwpc k t)})"
  using assms unfolding rw_inv_def by blast+

lemma rw_lock_Some: "rw_lock m l = Some l' \<longleftrightarrow> \<not> locked l m \<and>
    l' = l\<lparr>mutexes := (mutexes l)(m := (mutexes l m)\<lparr>mcount := 1\<rparr>)\<rparr>"
  by (auto simp: rw_lock_def mutex_try_lock_def)

lemma rw_move_inv:
  assumes inv: "rw_inv K k" and "rw_next K (rwpc k t) p"
  shows "rw_inv K (k\<lparr>rwpc := (rwpc k)(t := p)\<rparr>)"
proof -
  let ?k = "k\<lparr>rwpc := (rwpc k)(t := p)\<rparr>"
  note D = rw_invD [OF inv] and E = rw_next_effect [OF assms(2)]
  have same: "holds m K (rwpc ?k u) = holds m K (rwpc k u)" "grp (rwpc ?k u) = grp (rwpc k u)"
    "counted (rwpc ?k u) = counted (rwpc k u)" for m u
    using E by auto
  have g: "group ?k = group k" unfolding group_def same by simp
  show ?thesis
  proof (rule rw_invI)
    show "rw_valid K (rwpc ?k u)" for u using D(1) E by simp
  qed (unfold same g, use D(2-6) in auto)
qed

lemma rw_exec_inv:
  assumes inv: "rw_inv K k" and at: "rw_at (rwpc k t) i p" and ex: "rw_exec i (rwl k) = Some l"
  shows "rw_inv K (k\<lparr>rwl := l, rwpc := (rwpc k)(t := p)\<rparr>)"
proof -
  let ?k = "k\<lparr>rwl := l, rwpc := (rwpc k)(t := p)\<rparr>"
  note D = rw_invD [OF inv]
  from rw_at_effect [OF D(1) at] have valid: "rw_valid K p" and E: "rw_effect i K (rwpc k t) p" by simp_all
  have V: "rw_valid K (rwpc ?k u)" for u using D(1) valid by simp
  have only: "grp (rwpc k u) \<Longrightarrow> holds Count_mutex K (rwpc k t) \<Longrightarrow> u = t" for u
    using grp_holds [OF D(1), of u] D(2) by blast
  have pos: "counted (rwpc k t) \<Longrightarrow> rw_count (rwl k) > 0" using D(5,6) by (auto simp: card_gt_0_iff)
  have nonneg: "rw_count (rwl k) \<ge> 0" using D(6) by simp
  show ?thesis
  proof (cases i)
    case (Lock m)
    with ex have l: "\<not> locked (rwl k) m" "locked l n \<longleftrightarrow> n = m \<or> locked (rwl k) n" "rw_count l = rw_count (rwl k)" for n
      by (auto simp: rw_lock_Some)
    have h: "holds n K (rwpc ?k u) \<longleftrightarrow> holds n K (rwpc k u) \<or> n = m \<and> u = t" "grp (rwpc ?k u) = grp (rwpc k u)"
        "counted (rwpc ?k u) = counted (rwpc k u)" for n u
      using E Lock by (auto simp: rw_effect_def)
    have g: "group ?k = group k" unfolding group_def h using l(3) by simp
    have none: "\<not> holds m K (rwpc k u)" "m = Rw_mutex \<Longrightarrow> \<not> group k" for u using D(3) [of m] l(1) by blast+
    show ?thesis
    proof (rule rw_invI)
      show "locked (rwl ?k) n \<longleftrightarrow> (\<exists>t. holds n K (rwpc ?k t)) \<or> n = Rw_mutex \<and> group ?k" for n
        unfolding h g using l(2) [of n] D(3) [of n] by auto
    qed (use V in simp, unfold h g, use D(2,4-6) none l(3) in auto)
  next
    case (Unlock m)
    with ex have l: "locked l n \<longleftrightarrow> n \<noteq> m \<and> locked (rwl k) n" "rw_count l = rw_count (rwl k)" for n
      by (auto simp: rw_unlock_def split: if_splits)
    have h: "holds n K (rwpc ?k u) \<longleftrightarrow> holds n K (rwpc k u) \<and> \<not> (n = m \<and> u = t)" "grp (rwpc ?k u) = grp (rwpc k u)"
        "counted (rwpc ?k u) = counted (rwpc k u)" and t: "holds m K (rwpc k t)" for n u
      using E Unlock by (auto simp: rw_effect_def)
    have g: "group ?k = group k" unfolding group_def h using l(2) by simp
    have last: "(\<exists>u. holds n K (rwpc k u) \<and> \<not> (n = m \<and> u = t)) \<longleftrightarrow> n \<noteq> m \<and> (\<exists>u. holds n K (rwpc k u))" for n
      using D(2) [OF t] by blast
    have "m = Rw_mutex \<Longrightarrow> \<not> group k" using D(4) [of t] t by blast
    then have lk: "locked (rwl ?k) n \<longleftrightarrow> (n \<noteq> m \<and> (\<exists>u. holds n K (rwpc k u))) \<or> n = Rw_mutex \<and> group k" for n
      using l(1) [of n] D(3) [of n] by auto
    show ?thesis
    proof (rule rw_invI)
      show "locked (rwl ?k) n \<longleftrightarrow> (\<exists>t. holds n K (rwpc ?k t)) \<or> n = Rw_mutex \<and> group ?k" for n
        unfolding h g last by (rule lk)
    qed (use V in simp, unfold h g, use D(2,4-6) l(2) in auto)
  next
    case Inc
    with ex have l: "l = (rwl k)\<lparr>rw_count := rw_count (rwl k) + 1\<rparr>" by simp
    have h: "holds n K (rwpc ?k u) \<longleftrightarrow> holds n K (rwpc k u)" and t: "grp (rwpc k t)" "\<not> counted (rwpc k t)" "counted p" for n u
      using E Inc by (auto simp: rw_effect_def)
    have g: "group ?k" "group k" using t(1) nonneg by (auto simp: group_def l)
    show ?thesis
    proof (rule rw_invI)
      have c: "{u. counted (rwpc ?k u)} = insert t {u. counted (rwpc k u)}" using t by (auto split: if_splits)
      show "finite {t. counted (rwpc ?k t)}" "rw_count (rwl ?k) = int (card {t. counted (rwpc ?k t)})"
        unfolding c using D(5,6) t by (simp_all add: l)
      show "locked (rwl ?k) n \<longleftrightarrow> (\<exists>t. holds n K (rwpc ?k t)) \<or> n = Rw_mutex \<and> group ?k" for n
        unfolding h using g D(3) [of n] by (simp add: l)
    qed (use V in simp, unfold h, use D(2,4) g in auto)
  next
    case Dec
    with ex have l: "l = (rwl k)\<lparr>rw_count := rw_count (rwl k) - 1\<rparr>" by simp
    have h: "holds n K (rwpc ?k u) \<longleftrightarrow> holds n K (rwpc k u)" and t: "grp p" "counted (rwpc k t)" "\<not> counted p" for n u
      using E Dec by (auto simp: rw_effect_def)
    have g: "group ?k" "group k" using t(1) pos [OF t(2)] by (auto simp: group_def intro: exI [of _ t])
    show ?thesis
    proof (rule rw_invI)
      have "card {t. counted (rwpc k t)} > 0" using D(5) t(2) by (auto simp: card_gt_0_iff)
      moreover have c: "{u. counted (rwpc ?k u)} = {u. counted (rwpc k u)} - {t}" using t by (auto split: if_splits)
      ultimately show "finite {t. counted (rwpc ?k t)}" "rw_count (rwl ?k) = int (card {t. counted (rwpc ?k t)})"
        unfolding c using D(5,6) t by (simp_all add: l)
      show "locked (rwl ?k) n \<longleftrightarrow> (\<exists>t. holds n K (rwpc ?k t)) \<or> n = Rw_mutex \<and> group ?k" for n
        unfolding h using g D(3) [of n] by (simp add: l)
    qed (use V in simp, unfold h, use D(2,4) g in auto)
  next
    case (LockIfZero m)
    have h: "holds n K (rwpc ?k u) \<longleftrightarrow> holds n K (rwpc k u)" "counted (rwpc ?k u) = counted (rwpc k u)"
        and t: "m = Rw_mutex" "grp p" for n u
      using E LockIfZero by (auto simp: rw_effect_def)
    have g: "group ?k" using t(2) by (auto simp: group_def intro: exI [of _ t])
    from ex LockIfZero t(1) have "rw_count (rwl k) = 0 \<and> \<not> locked (rwl k) Rw_mutex \<or> rw_count (rwl k) > 0"
      using nonneg by (auto simp: rw_lock_Some split: if_splits)
    then have free: "\<not> holds Rw_mutex K (rwpc k u)" for u
      using D(3) [of Rw_mutex] D(4) [of u] by (auto simp: group_def)
    have l: "locked l n \<longleftrightarrow> n = Rw_mutex \<or> locked (rwl k) n" "rw_count l = rw_count (rwl k)" for n
      using ex LockIfZero t(1) nonneg D(3) [of Rw_mutex] by (auto simp: rw_lock_Some group_def split: if_splits)
    show ?thesis
    proof (rule rw_invI)
      show "locked (rwl ?k) n \<longleftrightarrow> (\<exists>t. holds n K (rwpc ?k t)) \<or> n = Rw_mutex \<and> group ?k" for n
        unfolding h using g D(3) [of n] l(1) [of n] by auto
    qed (use V in simp, unfold h, use D(2,5,6) free l(2) in auto)
  next
    case (UnlockIfZero m)
    have h: "holds n K (rwpc ?k u) \<longleftrightarrow> holds n K (rwpc k u)" "counted (rwpc ?k u) = counted (rwpc k u)"
        and t: "m = Rw_mutex" "grp (rwpc k t)" "holds Count_mutex K (rwpc k t)" "\<not> grp p" for n u
      using E UnlockIfZero by (auto simp: rw_effect_def)
    have "\<not> grp (rwpc ?k u)" for u using only [of u] t(3,4) by auto
    moreover have l: "rw_count l = rw_count (rwl k)" "locked l n \<longleftrightarrow> (n = Rw_mutex \<longrightarrow> rw_count (rwl k) > 0) \<and> locked (rwl k) n" for n
      using ex UnlockIfZero t(1) nonneg by (auto simp: rw_unlock_def split: if_splits)
    ultimately have g: "group ?k \<longleftrightarrow> rw_count (rwl k) > 0" "group k" using t(2) by (auto simp: group_def)
    then have free: "\<not> holds Rw_mutex K (rwpc k u)" for u using D(4) [of u] by auto
    show ?thesis
    proof (rule rw_invI)
      show "locked (rwl ?k) n \<longleftrightarrow> (\<exists>t. holds n K (rwpc ?k t)) \<or> n = Rw_mutex \<and> group ?k" for n
        unfolding h g(1) using g(2) D(3) [of n] free l(2) [of n] by auto
    qed (use V in simp, unfold h, use D(2,5,6) free l(1) in auto)
  qed
qed

lemma rw_reachable_inv: "rw_reachable K k \<Longrightarrow> rw_inv K k"
proof (induction rule: rw_reachable.induct)
  case init
  show ?case by (simp add: rw_inv_def group_def rwlock_init_def mutexlock_init_def)
next
  case (step k k')
  from step.hyps(2) step.IH show ?case by (cases rule: rw_step.cases) (use rw_move_inv rw_exec_inv in blast)+
qed

subsection \<open>Progress\<close>

text \<open>A task that is in the lock code has a next statement, or is about to return.\<close>

definition can_move :: "rwlock_arg \<Rightarrow> rwsys \<Rightarrow> tid \<Rightarrow> bool" where
  "can_move K k t \<longleftrightarrow> (\<exists>p. rw_next K (rwpc k t) p) \<or> (\<exists>i p. rw_at (rwpc k t) i p \<and> rw_exec i (rwl k) \<noteq> None)"

definition in_lock_code :: "rwpc \<Rightarrow> bool" where
  "in_lock_code p \<longleftrightarrow> p \<notin> {RwIdle, Reading, Writing}"

lemma stuck_lock:
  assumes "\<not> can_move K k t" "in_lock_code (rwpc k t)"
  obtains m p where "rw_at (rwpc k t) (Lock m) p \<or> rw_at (rwpc k t) (LockIfZero m) p \<and> rw_count (rwl k) = 0"
    "locked (rwl k) m"
proof -
  have "(\<exists>p. rw_next K (rwpc k t) p) \<or> (\<exists>i p. rw_at (rwpc k t) i p)"
  proof (cases "rwpc k t")
    case (RLock p) then show ?thesis by (cases p) (auto intro: rw_next.intros)
  next
    case (RUnlock p) then show ?thesis by (cases p) (auto intro: rw_next.intros)
  next
    case (WLock p) then show ?thesis by (cases p) (auto intro: rw_next.intros)
  next
    case (WUnlock p) then show ?thesis by (cases p) (auto intro: rw_next.intros)
  qed (use assms(2) in \<open>auto simp: in_lock_code_def\<close>)
  with assms(1) obtain i p where at: "rw_at (rwpc k t) i p" "rw_exec i (rwl k) = None" by (auto simp: can_move_def)
  then show ?thesis using that by (cases i) (auto simp: rw_lock_def mutex_try_lock_def split: if_splits)
qed

text \<open>What a task that holds something can be waiting for.\<close>

lemma holder_waits:
  assumes "rw_valid K p" "rw_at p (Lock m) q \<or> rw_at p (LockIfZero m) q"
  shows "m = Rw_mutex \<Longrightarrow> \<not> holds Rw_mutex K p \<and> \<not> grp p \<and> \<not> counted p"
    and "m = Count_mutex \<Longrightarrow> \<not> holds Count_mutex K p \<and> \<not> holds Rw_mutex K p \<and> \<not> grp p"
    and "m = Write_mutex \<Longrightarrow> (\<forall>n. \<not> holds n K p) \<and> \<not> grp p \<and> \<not> counted p"
  using assms by (cases p; cases K; auto simp: read_unlock_def all_mutexes)+

lemma rw_progress:
  assumes inv: "rw_inv K k" and quiet: "\<And>t. rwpc k t \<noteq> Reading" "\<And>t. rwpc k t \<noteq> Writing"
    and busy: "in_lock_code (rwpc k t)"
  shows "\<exists>t. can_move K k t"
proof (rule ccontr)
  assume stuck: "\<not> (\<exists>t. can_move K k t)"
  note D = rw_invD [OF inv]
  have wait: thesis if "in_lock_code (rwpc k u)" and "\<And>m p. locked (rwl k) m \<Longrightarrow>
      rw_at (rwpc k u) (Lock m) p \<or> rw_at (rwpc k u) (LockIfZero m) p \<and> rw_count (rwl k) = 0 \<Longrightarrow> thesis" for u thesis
    using stuck_lock [of K k u] stuck that by blast
  have busyI: "in_lock_code (rwpc k u)" if "holds m K (rwpc k u) \<or> grp (rwpc k u) \<or> counted (rwpc k u)" for u m
    using that quiet [of u] by (cases "rwpc k u") (auto simp: in_lock_code_def)
  have rw: "\<not> locked (rwl k) Rw_mutex"
  proof
    assume "locked (rwl k) Rw_mutex"
    then consider u where "holds Rw_mutex K (rwpc k u) \<or> grp (rwpc k u)" | "rw_count (rwl k) > 0"
      using D(3) [of Rw_mutex] by (auto simp: group_def)
    then show False
    proof cases
      case (1 u)
      then have "in_lock_code (rwpc k u)" using busyI by blast
      then obtain m p where m: "locked (rwl k) m" "rw_at (rwpc k u) (Lock m) p \<or> rw_at (rwpc k u) (LockIfZero m) p"
        using wait by metis
      show False
      proof (cases m)
        case Count_mutex
        with holder_waits(2) [OF D(1) m(2)] 1 show False by simp
      next
        case Rw_mutex
        with holder_waits(1) [OF D(1) m(2)] 1 show False by simp
      next
        case Write_mutex
        with holder_waits(3) [OF D(1) m(2)] 1 show False by simp
      qed
    next
      case 2
      then obtain u where u: "counted (rwpc k u)" using D(5,6) by (auto simp: card_gt_0_iff)
      obtain m p where m: "locked (rwl k) m" "rw_at (rwpc k u) (Lock m) p"
        using wait [OF busyI [of m u]] u 2 by (metis less_irrefl)
      then have "m = Count_mutex" using holder_waits [OF D(1), of u m p] u by (cases m) auto
      with m(1) D(3) [of Count_mutex] obtain v where v: "holds Count_mutex K (rwpc k v)" by auto
      then have "in_lock_code (rwpc k v)" using busyI by blast
      then obtain n q where n: "locked (rwl k) n" "rw_at (rwpc k v) (Lock n) q"
        using wait 2 by (metis less_irrefl)
      then have "n = Rw_mutex" using holder_waits [OF D(1), of v n q] v by (cases n) auto
      with n(2) v D(1) [of v] show False by (cases "rwpc k v"; cases K) (auto simp: read_unlock_def)
    qed
  qed
  have cnt: "\<not> locked (rwl k) Count_mutex"
  proof
    assume "locked (rwl k) Count_mutex"
    with D(3) [of Count_mutex] obtain v where v: "holds Count_mutex K (rwpc k v)" by auto
    obtain n q where n: "locked (rwl k) n" "rw_at (rwpc k v) (Lock n) q \<or> rw_at (rwpc k v) (LockIfZero n) q"
      using wait [OF busyI] v by metis
    with holder_waits [OF D(1) n(2)] rw v show False by (cases n) auto
  qed
  have wr: "\<not> locked (rwl k) Write_mutex"
  proof
    assume "locked (rwl k) Write_mutex"
    with D(3) [of Write_mutex] obtain v where v: "holds Write_mutex K (rwpc k v)" by auto
    obtain n q where n: "locked (rwl k) n" "rw_at (rwpc k v) (Lock n) q \<or> rw_at (rwpc k v) (LockIfZero n) q"
      using wait [OF busyI] v by metis
    with holder_waits [OF D(1) n(2)] rw cnt v show False by (cases n) auto
  qed
  from wait [OF busy] rw cnt wr show False by (metis rw_mutexes.exhaust)
qed

subsection \<open>Properties\<close>


definition demo_rw :: rwsys where
  "demo_rw = \<lparr>rwl = the (rw_lock Rw_mutex rwlock_init), rwpc = (\<lambda>_. RwIdle)(1 := WLock [])\<rparr>"


end
