(* ===== verification/Process.thy ===== *)
theory Process
  imports Timer
begin

section \<open>Processes\<close>

text \<open>
  \<open>src/src/task/wait_exit.c\<close>, \<open>src/src/task/process.c\<close>, \<open>src/src/task/fork.c\<close> and the pids and the list
  of all tasks of \<open>src/src/task/task.c\<close>. The state extends the kernel of the theory \<open>Trigger\<close> (scheduler,
  list of all tasks, triggers) by the fields of the task structure that the life of a process is about;
  \<open>vmm_ptr\<close>, \<open>pthread_ptr\<close> and \<open>sleep_timer\<close> are pointers, \<open>None\<close> for \<open>NULL\<close>. \<open>thread_count\<close> is the
  memory of the thread descriptors, \<open>vmm_freed\<close> records the address spaces \<open>proc_destroy\<close> has freed,
  \<open>wait_pid\<close> keeps the argument of the \<open>waitpid\<close> call a task sleeps in. What \<open>kmalloc\<close>, the copy of the
  address space and of the file table return to a \<open>fork\<close> is an argument of it. \<open>None\<close> is a panic.
\<close>

record procs =
  kern :: kernel
  parent_pid :: "tid \<Rightarrow> int"
  tgid :: "tid \<Rightarrow> int"
  thread_flags :: "tid \<Rightarrow> u32"
  vmm_ptr :: "tid \<Rightarrow> nat option"
  pthread_ptr :: "tid \<Rightarrow> nat option"
  thread_count :: "nat \<Rightarrow> int"
  fileman :: "tid \<Rightarrow> bool"
  gmsgpool :: "tid \<Rightarrow> bool"
  sleep_timer :: "tid \<Rightarrow> nat option"
  tmrs :: tsys
  next_pid :: int
  vmm_freed :: "nat list"
  wait_pid :: "tid \<Rightarrow> int"

abbreviation all_tasks :: "procs \<Rightarrow> tid list" where
  "all_tasks p \<equiv> global_list (kern p)"

abbreviation cur_task :: "procs \<Rightarrow> tid" where
  "cur_task p \<equiv> cur (ksched (kern p))"

abbreviation task_state :: "procs \<Rightarrow> tid \<Rightarrow> task_state" where
  "task_state p t \<equiv> state (tasks (ksched (kern p)) t)"

abbreviation pid_of :: "procs \<Rightarrow> tid \<Rightarrow> int" where
  "pid_of p t \<equiv> pid (kern p) t"

definition set_sched :: "sched \<Rightarrow> procs \<Rightarrow> procs" where
  "set_sched s p = p\<lparr>kern := (kern p)\<lparr>ksched := s\<rparr>\<rparr>"

definition set_list :: "tid list \<Rightarrow> procs \<Rightarrow> procs" where
  "set_list ts p = p\<lparr>kern := (kern p)\<lparr>global_list := ts\<rparr>\<rparr>"

definition set_exit_status :: "tid \<Rightarrow> int \<Rightarrow> procs \<Rightarrow> procs" where
  "set_exit_status t n p = p\<lparr>kern := (kern p)\<lparr>exit_status := (exit_status (kern p))(t := n)\<rparr>\<rparr>"

subsection \<open>Destroying a task\<close>

definition IN_SINGAL_THREAD :: "procs \<Rightarrow> tid \<Rightarrow> bool" where
  "IN_SINGAL_THREAD p t \<longleftrightarrow> (case pthread_ptr p t of None \<Rightarrow> True | Some d \<Rightarrow> thread_count p d \<le> 1)"

definition task_free :: "tid \<Rightarrow> procs \<Rightarrow> procs" where
  "task_free t p = set_list (remove1 t (all_tasks p)) p"

definition proc_destroy :: "procs \<Rightarrow> tid \<Rightarrow> bool \<Rightarrow> int \<times> procs" where
  "proc_destroy p t thread =
     (case vmm_ptr p t of None \<Rightarrow> (-1, p)
      | Some v \<Rightarrow> (0, task_free t (if thread then p
          else p\<lparr>vmm_freed := v # vmm_freed p, vmm_ptr := (vmm_ptr p)(t := None)\<rparr>)))"

text \<open>The call of \<open>proc_destroy\<close> the functions that wait share.\<close>

definition reap :: "procs \<Rightarrow> tid \<Rightarrow> procs" where
  "reap p t = snd (proc_destroy p t (\<not> IN_SINGAL_THREAD p t))"

subsection \<open>Waiting\<close>

text \<open>The results are the returned number, what is written to \<open>*status\<close> and the new state.\<close>

definition wait_any_hangging_child :: "procs \<Rightarrow> tid \<Rightarrow> int \<times> int option \<times> procs" where
  "wait_any_hangging_child p parent =
     (case List.find (\<lambda>c. parent_pid p c = pid_of p parent \<and> task_state p c = TASK_HANGING) (all_tasks p) of
        None \<Rightarrow> (-1, None, p)
      | Some c \<Rightarrow> (pid_of p c, Some (exit_status (kern p) c), reap p c))"

definition wait_one_hangging_child :: "procs \<Rightarrow> tid \<Rightarrow> int \<Rightarrow> int \<times> int option \<times> procs" where
  "wait_one_hangging_child p parent n =
     (case List.find (\<lambda>c. pid_of p c = n \<and> task_state p c = TASK_HANGING) (all_tasks p) of
        None \<Rightarrow> (-1, None, p)
      | Some c \<Rightarrow> (n, Some (exit_status (kern p) c), reap p c))"

fun zombie_loop :: "procs \<Rightarrow> tid \<Rightarrow> tid list \<Rightarrow> int \<Rightarrow> int \<times> procs" where
  "zombie_loop p parent [] zombie = (zombie, p)"
| "zombie_loop p parent (c # bs) zombie =
     (if parent_pid p c = pid_of p parent \<and> task_state p c = TASK_ZOMBIE
      then zombie_loop (reap p c) parent bs (if zombie = -1 then pid_of p c else zombie)
      else zombie_loop p parent bs zombie)"

definition deal_zombie_child :: "procs \<Rightarrow> tid \<Rightarrow> int \<times> procs" where
  "deal_zombie_child p parent = zombie_loop p parent (all_tasks p) (-1)"

definition find_child_proc :: "procs \<Rightarrow> tid \<Rightarrow> nat" where
  "find_child_proc p parent =
     length (filter (\<lambda>c. parent_pid p c = pid_of p parent \<and> IN_SINGAL_THREAD p c) (all_tasks p))"

definition adopt_children_to_init :: "procs \<Rightarrow> tid \<Rightarrow> procs" where
  "adopt_children_to_init p parent = p\<lparr>parent_pid := (\<lambda>c.
     if c \<in> set (all_tasks p) \<and> parent_pid p c = pid_of p parent then INIT_PROC_PID else parent_pid p c)\<rparr>"

definition WNOHANG :: u32 where "WNOHANG = 1"

text \<open>
  One round of the loop of \<open>sys_waitpid\<close>: it returns, or the caller goes on to \<open>task_block\<close> with the
  interrupts on again.
\<close>

datatype wait_result = Return int "int option" procs | Sleep procs

definition wait_round :: "procs \<Rightarrow> int \<Rightarrow> u32 \<Rightarrow> wait_result" where
  "wait_round p n options =
     (let parent = cur_task p;
          (c, status, p) = (if n = -1 then wait_any_hangging_child p parent else wait_one_hangging_child p parent n)
      in if c \<ge> 0 then Return c status p
         else let (c, p) = deal_zombie_child p parent
              in if c > 0 then Return c None p
                 else if find_child_proc p parent = 0 then Return (-1) None p
                 else if options AND WNOHANG \<noteq> 0 then Return 0 None p
                 else Sleep p)"

definition wait_block :: "procs \<Rightarrow> int \<Rightarrow> procs option" where
  "wait_block p n = map_option (\<lambda>s. set_sched s (p\<lparr>wait_pid := (wait_pid p)(cur_task p := n)\<rparr>))
     (task_block (ksched (kern p)) TASK_WAITING)"

text \<open>After the sleep: \<open>-1\<close> is returned, or the next round is due.\<close>

definition wait_broken :: "procs \<Rightarrow> bool" where
  "wait_broken p \<longleftrightarrow> (case trig_ptr (kern p) (cur_task p) of None \<Rightarrow> False
     | Some q \<Rightarrow> let w = trig_set (trigs (kern p) q)
         in trigismember w TRIGHSOFT \<or> trigismember w TRIGLSOFT \<or> trigismember w TRIGSYS)"

subsection \<open>Exit\<close>

definition thread_release_resource :: "procs \<Rightarrow> tid \<Rightarrow> procs option" where
  "thread_release_resource p t = (case timer_cancel (tmrs p) (sleep_timer p t) of None \<Rightarrow> None
     | Some (_, k) \<Rightarrow> Some (p\<lparr>tmrs := k, sleep_timer := (sleep_timer p)(t := None)\<rparr>))"

text \<open>
  A ready task is taken out of its queue, but the counter of the queue is not.
\<close>

definition close_one_thread :: "procs \<Rightarrow> tid \<Rightarrow> procs option" where
  "close_one_thread p t =
     (let s = ksched (kern p);
          p = (if task_state p t = TASK_READY then set_sched (s\<lparr>queue := (\<lambda>i. remove1 t (queue s i))\<rparr>) p else p)
      in map_option (\<lambda>p. snd (proc_destroy p t True))
           (if task_state p t \<noteq> TASK_HANGING \<and> task_state p t \<noteq> TASK_ZOMBIE
            then thread_release_resource p t else Some p))"

fun close_loop :: "procs \<Rightarrow> tid \<Rightarrow> tid list \<Rightarrow> procs option" where
  "close_loop p t [] = Some p"
| "close_loop p t (b # bs) =
     (if tgid p t = tgid p b \<and> pid_of p t \<noteq> pid_of p b
      then case close_one_thread p b of None \<Rightarrow> None | Some p \<Rightarrow> close_loop p t bs
      else close_loop p t bs)"

definition close_other_threads :: "procs \<Rightarrow> tid \<Rightarrow> procs option" where
  "close_other_threads p t =
     map_option (\<lambda>p. case pthread_ptr p t of None \<Rightarrow> p
       | Some d \<Rightarrow> p\<lparr>thread_count := (thread_count p)(d := 0)\<rparr>) (close_loop p t (all_tasks p))"

text \<open>
  \<open>proc_release\<close> gives up at the first step that fails; \<open>gui_user_exit\<close> fails for a task without a
  message pool. The contents of the address space and the windows are not kept in this state.
\<close>

definition proc_release :: "procs \<Rightarrow> tid \<Rightarrow> (int \<times> procs) option" where
  "proc_release p t =
     (if vmm_ptr p t = None then Some (-1, p)
      else if trig_ptr (kern p) t = None then Some (-1, p)
      else let p = p\<lparr>kern := (kern p)\<lparr>trig_ptr := (trig_ptr (kern p))(t := None)\<rparr>\<rparr>
           in if \<not> fileman p t then Some (-1, p)
              else let p = p\<lparr>fileman := (fileman p)(t := False)\<rparr>
                   in if \<not> gmsgpool p t then Some (-1, p)
                      else map_option (\<lambda>p. (0, p)) (thread_release_resource
                        (p\<lparr>gmsgpool := (gmsgpool p)(t := False), pthread_ptr := (pthread_ptr p)(t := None)\<rparr>) t))"

text \<open>
  Up to here the interrupts are off; then the state of the parent decides: it is woken and the task
  hangs, or the task becomes a zombie.
\<close>

definition exit_begin :: "procs \<Rightarrow> int \<Rightarrow> procs option" where
  "exit_begin p status =
     (let t = cur_task p
      in case close_other_threads (set_exit_status t status p) t of None \<Rightarrow> None
         | Some p \<Rightarrow> map_option snd (proc_release (adopt_children_to_init (snd (deal_zombie_child p t)) t) t))"

definition exit_parent :: "procs \<Rightarrow> tid option" where
  "exit_parent p = (case find_task_by_pid (kern p) (parent_pid p (cur_task p)) of None \<Rightarrow> None
     | Some t \<Rightarrow> if task_state p t = TASK_WAITING then Some t else None)"

definition exit_wake :: "procs \<Rightarrow> tid \<Rightarrow> procs option" where
  "exit_wake p parent = map_option (\<lambda>s. set_sched s p) (task_unblock (ksched (kern p)) parent)"

definition exit_block :: "procs \<Rightarrow> task_state \<Rightarrow> procs option" where
  "exit_block p st = map_option (\<lambda>s. set_sched s p) (task_block (ksched (kern p)) st)"

definition exit_end :: "procs \<Rightarrow> procs option" where
  "exit_end p = (case exit_parent p of
       Some parent \<Rightarrow> (case exit_wake p parent of None \<Rightarrow> None | Some p \<Rightarrow> exit_block p TASK_HANGING)
     | None \<Rightarrow> exit_block p TASK_ZOMBIE)"

definition sys_exit :: "procs \<Rightarrow> int \<Rightarrow> procs option" where
  "sys_exit p status = (case exit_begin p status of None \<Rightarrow> None | Some p \<Rightarrow> exit_end p)"

definition kthread_exit :: "procs \<Rightarrow> int \<Rightarrow> procs option" where
  "kthread_exit p status =
     (let t = cur_task p
      in case thread_release_resource (set_exit_status t status p) t of None \<Rightarrow> None
         | Some p \<Rightarrow> exit_end (p\<lparr>parent_pid := (parent_pid p)(t := INIT_PROC_PID)\<rparr>))"

subsection \<open>New tasks\<close>

definition new_pid :: "procs \<Rightarrow> int \<times> procs" where
  "new_pid p = (next_pid p, p\<lparr>next_pid := next_pid p + 1\<rparr>)"

text \<open>\<open>task_init\<close> on the structure \<open>t\<close>, which also clears the file manager and the address space.\<close>

definition task_setup :: "procs \<Rightarrow> tid \<Rightarrow> int \<Rightarrow> procs" where
  "task_setup p t prio =
     (let (n, p) = new_pid p
      in p\<lparr>kern := (kern p)\<lparr>ksched := upd_task t (\<lambda>_. task_init prio) (ksched (kern p)),
             pid := (pid (kern p))(t := n), exit_status := (exit_status (kern p))(t := 0),
             trig_ptr := (trig_ptr (kern p))(t := None)\<rparr>,
           parent_pid := (parent_pid p)(t := -1), tgid := (tgid p)(t := n),
           thread_flags := (thread_flags p)(t := 0), vmm_ptr := (vmm_ptr p)(t := None),
           pthread_ptr := (pthread_ptr p)(t := None), fileman := (fileman p)(t := False),
           gmsgpool := (gmsgpool p)(t := False), sleep_timer := (sleep_timer p)(t := None)\<rparr>)"

definition task_global_list_add :: "procs \<Rightarrow> tid \<Rightarrow> procs option" where
  "task_global_list_add p t = (if t \<in> set (all_tasks p) then None else Some (set_list (all_tasks p @ [t]) p))"

definition task_publish :: "procs \<Rightarrow> tid \<Rightarrow> procs option" where
  "task_publish p t = (case task_global_list_add p t of None \<Rightarrow> None
     | Some p \<Rightarrow> map_option (\<lambda>s. set_sched s p) (task_priority_queue_add_tail (ksched (kern p)) t))"

text \<open>\<open>kthread_start\<close>: a kernel thread has files, but no address space.\<close>

definition kthread_create :: "procs \<Rightarrow> tid \<Rightarrow> int \<Rightarrow> procs option" where
  "kthread_create p t prio =
     (let p = task_setup p t prio in task_publish (p\<lparr>fileman := (fileman p)(t := True)\<rparr>) t)"

text \<open>\<open>start_process\<close> with the structures its allocations return.\<close>

definition TASK_PRIO_USER :: int where "TASK_PRIO_USER = 2"

definition start_process :: "procs \<Rightarrow> tid \<Rightarrow> nat \<Rightarrow> nat \<Rightarrow> procs option" where
  "start_process p t v q =
     (let p = task_setup p t TASK_PRIO_USER;
          p = p\<lparr>kern := (kern p)\<lparr>pid := (pid (kern p))(t := INIT_PROC_PID), trig_ptr := (trig_ptr (kern p))(t := Some q),
                  trigs := (trigs (kern p))(q := trigger_init (trigs (kern p) q))\<rparr>,
                tgid := (tgid p)(t := INIT_PROC_PID), vmm_ptr := (vmm_ptr p)(t := Some v),
                fileman := (fileman p)(t := True)\<rparr>
      in task_publish p t)"

text \<open>What the allocations and the copies of the address space and of the files give to a fork.\<close>

record fork_env =
  fe_task :: "tid option"
  fe_vmm :: "nat option"
  fe_mapping :: bool
  fe_triggers :: "nat option"
  fe_desc :: "nat option"
  fe_files :: bool

definition copy_struct_and_kstack :: "procs \<Rightarrow> tid \<Rightarrow> tid \<Rightarrow> procs" where
  "copy_struct_and_kstack p c t =
     (let (n, p) = new_pid p; k = kern p
      in p\<lparr>kern := k\<lparr>ksched := upd_task c (\<lambda>_. (tasks (ksched k) t)\<lparr>state := TASK_READY\<rparr>) (ksched k),
             pid := (pid k)(c := n), exit_status := (exit_status k)(c := exit_status k t),
             trig_ptr := (trig_ptr k)(c := trig_ptr k t)\<rparr>,
           parent_pid := (parent_pid p)(c := pid k t), tgid := (tgid p)(c := n),
           thread_flags := (thread_flags p)(c := thread_flags p t), vmm_ptr := (vmm_ptr p)(c := vmm_ptr p t),
           pthread_ptr := (pthread_ptr p)(c := pthread_ptr p t), fileman := (fileman p)(c := fileman p t),
           gmsgpool := (gmsgpool p)(c := gmsgpool p t), sleep_timer := (sleep_timer p)(c := sleep_timer p t)\<rparr>)"

definition copy_trigger :: "procs \<Rightarrow> tid \<Rightarrow> tid \<Rightarrow> nat \<Rightarrow> procs option" where
  "copy_trigger p c t q = (case trig_ptr (kern p) t of None \<Rightarrow> None
     | Some r \<Rightarrow> Some (p\<lparr>kern := (kern p)\<lparr>trig_ptr := (trig_ptr (kern p))(c := Some q),
         trigs := (trigs (kern p))(q := trigs (kern p) r)\<rparr>\<rparr>))"

definition copy_pthread_desc :: "procs \<Rightarrow> tid \<Rightarrow> tid \<Rightarrow> nat option \<Rightarrow> int \<times> procs" where
  "copy_pthread_desc p c t d =
     (if pthread_ptr p t = None then (0, p)
      else case d of None \<Rightarrow> (-1, p\<lparr>pthread_ptr := (pthread_ptr p)(c := None)\<rparr>)
      | Some d \<Rightarrow> (0, p\<lparr>pthread_ptr := (pthread_ptr p)(c := Some d), thread_count := (thread_count p)(d := 1)\<rparr>))"

definition copy_gui :: "procs \<Rightarrow> tid \<Rightarrow> tid \<Rightarrow> procs" where
  "copy_gui p c t = (if gmsgpool p t then p\<lparr>gmsgpool := (gmsgpool p)(c := False)\<rparr> else p)"

text \<open>The result is the pid the parent gets. A failure leaves the new structures behind.\<close>

definition copy_task :: "procs \<Rightarrow> tid \<Rightarrow> tid \<Rightarrow> fork_env \<Rightarrow> (int \<times> procs) option" where
  "copy_task p c t e =
     (let p = copy_struct_and_kstack p c t
      in case fe_vmm e of None \<Rightarrow> Some (-1, p\<lparr>vmm_ptr := (vmm_ptr p)(c := None)\<rparr>)
      | Some v \<Rightarrow> let p = p\<lparr>vmm_ptr := (vmm_ptr p)(c := Some v)\<rparr>
          in if \<not> fe_mapping e then Some (-1, p)
             else case fe_triggers e of None \<Rightarrow> Some (-1, p\<lparr>kern := (kern p)\<lparr>trig_ptr := (trig_ptr (kern p))(c := None)\<rparr>\<rparr>)
             | Some q \<Rightarrow> (case copy_trigger p c t q of None \<Rightarrow> None
               | Some p \<Rightarrow> (case copy_pthread_desc p c t (fe_desc e) of (r, p) \<Rightarrow>
                   if r \<noteq> 0 then Some (-1, p)
                   else let p = p\<lparr>fileman := (fileman p)(c := fe_files e)\<rparr>
                        in if \<not> fe_files e then Some (-1, p) else Some (0, copy_gui p c t))))"

definition sys_fork :: "procs \<Rightarrow> fork_env \<Rightarrow> (int \<times> procs) option" where
  "sys_fork p e =
     (case fe_task e of None \<Rightarrow> Some (-1, p)
      | Some c \<Rightarrow> if vmm_ptr p (cur_task p) = None then None
          else case copy_task p c (cur_task p) e of None \<Rightarrow> None
          | Some (r, p) \<Rightarrow> if r \<noteq> 0 then Some (-1, p)
              else map_option (\<lambda>p. (pid_of p c, p)) (task_publish p c))"

definition sys_get_pid :: "procs \<Rightarrow> int" where
  "sys_get_pid p = tgid p (cur_task p)"

definition sys_get_ppid :: "procs \<Rightarrow> int" where
  "sys_get_ppid p = parent_pid p (cur_task p)"

definition sys_get_tid :: "procs \<Rightarrow> int" where
  "sys_get_tid p = pid_of p (cur_task p)"

end
