(* ===== verification/ProcSafe.thy ===== *)
theory ProcSafe
  imports Process
begin

section \<open>The life of a process\<close>

text \<open>
  The invariant of a system of processes without threads (pids, parents, waiting parents, address
  spaces), its preservation by every operation of the theory \<open>Process\<close>, and the properties of \<open>fork\<close>,
  \<open>exit\<close> and \<open>waitpid\<close> that follow.
\<close>

subsection \<open>What the scheduler does to the states of the tasks\<close>

text \<open>No task exits, comes back from its exit or starts to wait.\<close>

definition quiet :: "sched \<Rightarrow> sched \<Rightarrow> bool" where
  "quiet s s' \<longleftrightarrow> (\<forall>u. let a = state (tasks s u); b = state (tasks s' u) in
     (a \<in> {TASK_HANGING, TASK_ZOMBIE} \<or> b \<in> {TASK_HANGING, TASK_ZOMBIE, TASK_WAITING} \<longrightarrow> a = b))"

lemma fetch_tasks:
  "task_priority_queue_fetch_first s = Some (t, s') \<Longrightarrow> tasks s' = tasks s \<and> cur s' = cur s"
  by (auto simp: task_priority_queue_fetch_first_def split: option.splits list.splits)

lemma add_tail_tasks: "task_priority_queue_add_tail s t = Some s' \<Longrightarrow> tasks s' = tasks s \<and> cur s' = cur s"
  by (auto simp: task_priority_queue_add_tail_def Let_def split: if_splits)

lemma active_states: "sched_inv s \<Longrightarrow> t \<in> active s \<Longrightarrow> state (tasks s t) \<in> {TASK_RUNNING, TASK_READY}"
  using sched_inv_running [of s t] queues_okD(4) [OF sched_inv_queues, of s t] by (auto simp: active_def)

lemma block_states:
  assumes inv: "sched_inv s" and blk: "task_block s st = Some s'"
  shows "state (tasks s' u) = (if u = cur s' then TASK_RUNNING else if u = cur s then st else state (tasks s u))"
    and "state (tasks s (cur s')) = TASK_READY" and "active s' \<subseteq> active s" and "cur s' \<noteq> cur s" and "cur s \<notin> active s'"
proof -
  from blk have st: "st \<in> {TASK_BLOCKED, TASK_WAITING, TASK_STOPPED, TASK_HANGING, TASK_ZOMBIE}"
    by (auto simp: task_block_def split: if_splits)
  then obtain t s1 where f: "task_priority_queue_fetch_first (upd_task (cur s) (\<lambda>k. k\<lparr>state := st\<rparr>) s) = Some (t, s1)"
    "s' = set_next_task s1 t"
    using blk by (auto simp: task_block_def schedule_def get_next_task_def)
  with fetch_tasks [OF f(1)]
  show "state (tasks s' u) = (if u = cur s' then TASK_RUNNING else if u = cur s then st else state (tasks s u))"
    by (simp add: set_next_task_def task_activate_def upd_task_def)
  obtain p t ts where q: "queue s p = t # ts" "queue s' = (queue s)(p := ts)" "cur s' = t"
    using block_spec [OF inv st] blk by (metis option.distinct(1) option.inject)
  show "state (tasks s (cur s')) = TASK_READY"
    using q queues_okD(4) [OF sched_inv_queues [OF inv], of t p] by simp
  show ne: "cur s' \<noteq> cur s" using q sched_inv_cur [OF inv, of p] by auto
  show "active s' \<subseteq> active s" using q active_fetch [of "queue s" p t ts] by (auto simp: active_def)
  show "cur s \<notin> active s'"
    using q ne sched_inv_cur [OF inv] by (auto simp: active_def split: if_splits) (metis list.set_intros(2))
qed

lemma schedule_states:
  assumes inv: "queues_ok s" "\<And>p. cur s \<notin> set (queue s p)"
    and run: "\<And>t. t \<noteq> cur s \<Longrightarrow> state (tasks s t) \<noteq> TASK_RUNNING"
    and st: "state (tasks s (cur s)) \<in> {TASK_RUNNING, TASK_READY}" and sc: "schedule s = Some s'"
  shows "quiet s s'"
proof -
  note R = requeue_spec [OF inv st]
  obtain p t ts s1 where *: "schedule s = Some s1" "queue (requeue s) p = t # ts" "cur s1 = t"
    "\<And>u. u \<noteq> t \<Longrightarrow> tasks s1 u = tasks (requeue s) u" "tasks s1 t = (tasks (requeue s) t)\<lparr>state := TASK_RUNNING\<rparr>"
    by (rule schedule_requeue [OF inv run st]) blast+
  have s: "state (tasks s' u) = (if u = t then TASK_RUNNING else if u = cur s then TASK_READY else state (tasks s u))" for u
    using * sc R(5,6) by (cases "u = t") auto
  have "state (tasks (requeue s) t) = TASK_READY" using *(2) queues_okD(4) [OF R(2), of t p] by simp
  then have "state (tasks s t) \<in> {TASK_RUNNING, TASK_READY}" using R(5) [of t] st by (cases "t = cur s") auto
  with s st show ?thesis by (auto simp: quiet_def Let_def)
qed

lemma quiet_upd: "quiet (upd_task t f s) s' \<Longrightarrow> state (tasks s t) \<in> {TASK_RUNNING, TASK_READY} \<Longrightarrow>
    state (f (tasks s t)) \<in> {TASK_RUNNING, TASK_READY} \<Longrightarrow> quiet s s'"
  unfolding quiet_def Let_def by (metis insertE insertI1 insertI2 singletonD task_state.distinct upd_task_simps(6))

lemma yield_quiet:
  assumes inv: "sched_inv s" and y: "task_yeild s = Some s'"
  shows "quiet s s'" "active s' = active s"
proof -
  let ?s = "upd_task (cur s) (\<lambda>k. k\<lparr>state := TASK_READY\<rparr>) s"
  have sc: "schedule ?s = Some s'" using y by (simp add: task_yeild_def)
  have st: "state (tasks ?s (cur ?s)) \<in> {TASK_RUNNING, TASK_READY}" by simp
  show "active s' = active s"
    using active_schedule [OF yield_pre(1-3) [OF inv] st sc] by (simp add: active_def)
  show "quiet s s'"
    using sched_inv_running [OF inv, of "cur s"]
    by (intro quiet_upd [OF schedule_states [OF yield_pre(1-3) [OF inv] st sc]]) auto
qed

lemma tick_quiet:
  assumes inv: "sched_inv s" and y: "sched_softirq_handler s = Some s'"
  shows "quiet s s'" "active s' = active s"
proof -
  let ?f = "\<lambda>k. k\<lparr>elapsed_ticks := elapsed_ticks k + 1\<rparr>"
  let ?s = "upd_task (cur s) ?f s"
  have pre: "state (?f (tasks s (cur s))) = TASK_RUNNING"
    "static_priority (?f (tasks s (cur s))) \<le> priority (?f (tasks s (cur s)))"
    "priority (?f (tasks s (cur s))) < MAX_PRIORITY_NR"
    using inv queues_okD(8,9) [OF sched_inv_queues [OF inv], of "cur s"] by (auto simp: sched_inv_running)
  note R = run_pre [where f = ?f, OF inv pre]
  have st: "state (tasks ?s (cur ?s)) \<in> {TASK_RUNNING, TASK_READY}" using pre by simp
  have "quiet s s' \<and> active s' = active s"
  proof (cases "ticks (tasks s (cur s)) \<le> 0")
    case True
    then have sc: "schedule ?s = Some s'" using y by (simp add: sched_softirq_handler_def)
    show ?thesis
      using active_schedule [OF R(1-3) st sc] quiet_upd [OF schedule_states [OF R(1-3) st sc]] pre
      by (simp add: active_def)
  next
    case False
    have "s' = upd_task (cur s) (\<lambda>k. k\<lparr>ticks := ticks k - 1\<rparr>) ?s"
      using y False by (simp add: sched_softirq_handler_def Let_def)
    then have "state (tasks s' u) = state (tasks s u)" "queue s' = queue s" "cur s' = cur s" for u
      by simp_all
    then show ?thesis by (simp add: quiet_def active_def)
  qed
  then show "quiet s s'" "active s' = active s" by auto
qed

lemma wakeup_quiet:
  assumes inv: "sched_inv s" and w: "task_wakeup s t = Some s'"
  shows "quiet s s'" "active s' \<subseteq> insert t (active s)" "active s \<subseteq> active s'" "sched_inv s'"
    "state (tasks s t) = TASK_WAITING \<Longrightarrow> state (tasks s' t) = TASK_READY" "cur s' = cur s"
proof -
  from wakeup_spec [OF inv, of t] w have spec: "sched_inv s'" "cur s' = cur s"
    "queue s' = (queue s)(priority (tasks s t) := queue s (priority (tasks s t)) @ [t]) \<or> s' = s"
    "state (tasks s t) = TASK_WAITING \<Longrightarrow> state (tasks s' t) = TASK_READY"
    by auto
  then show "sched_inv s'" "cur s' = cur s" "state (tasks s t) = TASK_WAITING \<Longrightarrow> state (tasks s' t) = TASK_READY" by auto
  show "active s' \<subseteq> insert t (active s)" "active s \<subseteq> active s'"
    using spec(2,3) active_append [of "queue s" "priority (tasks s t)" t] unfolding active_def by force+
  show "quiet s s'"
    using w by (auto simp: quiet_def task_wakeup_def task_unblock_def add_head_is_add_tail upd_task_def Let_def
        dest!: add_tail_tasks split: if_splits)
qed

subsection \<open>The invariant\<close>

lemmas proc_upd [simp] = set_sched_def set_list_def set_exit_status_def

definition exited :: "procs \<Rightarrow> tid \<Rightarrow> bool" where
  "exited p t \<longleftrightarrow> task_state p t = TASK_HANGING \<or> task_state p t = TASK_ZOMBIE"

definition pids_ok :: "procs \<Rightarrow> bool" where
  "pids_ok p \<longleftrightarrow> distinct (all_tasks p) \<and> inj_on (pid_of p) (set (all_tasks p)) \<and> 1 < next_pid p \<and>
     (\<forall>t \<in> set (all_tasks p). 0 \<le> pid_of p t \<and> pid_of p t < next_pid p \<and> tgid p t = pid_of p t \<and>
       pthread_ptr p t = None)"

definition parents_ok :: "procs \<Rightarrow> bool" where
  "parents_ok p \<longleftrightarrow> (\<forall>t \<in> set (all_tasks p). parent_pid p t \<in> {-1, INIT_PROC_PID} \<or>
     (\<exists>u \<in> set (all_tasks p). pid_of p u = parent_pid p t \<and> \<not> exited p u))"

text \<open>\<open>t\<close> sleeps rightly: it has not been left by a child it waits for.\<close>

definition waits_ok :: "procs \<Rightarrow> tid \<Rightarrow> bool" where
  "waits_ok p t \<longleftrightarrow>
     (\<forall>c \<in> set (all_tasks p). parent_pid p c = pid_of p t \<longrightarrow> task_state p c \<noteq> TASK_ZOMBIE \<and>
       (task_state p c = TASK_HANGING \<longrightarrow> wait_pid p t \<noteq> -1 \<and> wait_pid p t \<noteq> pid_of p c)) \<and>
     (wait_pid p t = -1 \<longrightarrow> (\<exists>c \<in> set (all_tasks p). parent_pid p c = pid_of p t))"

definition waiting_ok :: "procs \<Rightarrow> bool" where
  "waiting_ok p \<longleftrightarrow> (\<forall>t \<in> set (all_tasks p). task_state p t = TASK_WAITING \<and> pid_of p t \<noteq> INIT_PROC_PID \<longrightarrow>
     waits_ok p t)"

definition vmms_ok :: "procs \<Rightarrow> bool" where
  "vmms_ok p \<longleftrightarrow> inj_on (vmm_ptr p) {t \<in> set (all_tasks p). vmm_ptr p t \<noteq> None} \<and>
     (\<forall>t \<in> set (all_tasks p). (\<forall>v. vmm_ptr p t = Some v \<longrightarrow> v \<notin> set (vmm_freed p)) \<and>
       (exited p t \<longrightarrow> vmm_ptr p t \<noteq> None))"

definition procs_inv :: "tid \<Rightarrow> procs \<Rightarrow> bool" where
  "procs_inv idle p \<longleftrightarrow> sched_inv (ksched (kern p)) \<and> idle \<in> active (ksched (kern p)) \<and> vmm_ptr p idle = None \<and> pid_of p idle = 0 \<and>
     active (ksched (kern p)) \<subseteq> set (all_tasks p) \<and> pids_ok p \<and> parents_ok p \<and> waiting_ok p \<and> vmms_ok p"

lemma procs_invI:
  "sched_inv (ksched (kern p)) \<Longrightarrow> idle \<in> active (ksched (kern p)) \<Longrightarrow> vmm_ptr p idle = None \<and> pid_of p idle = 0 \<Longrightarrow>
   active (ksched (kern p)) \<subseteq> set (all_tasks p) \<Longrightarrow> pids_ok p \<Longrightarrow> parents_ok p \<Longrightarrow> waiting_ok p \<Longrightarrow> vmms_ok p \<Longrightarrow>
   procs_inv idle p"
  by (simp add: procs_inv_def)

lemma procs_invD:
  assumes "procs_inv idle p"
  shows "sched_inv (ksched (kern p))" "idle \<in> active (ksched (kern p))" "vmm_ptr p idle = None \<and> pid_of p idle = 0"
    "active (ksched (kern p)) \<subseteq> set (all_tasks p)" "pids_ok p" "parents_ok p" "waiting_ok p" "vmms_ok p"
  using assms by (simp_all add: procs_inv_def)

lemma cur_in_list: "procs_inv idle p \<Longrightarrow> cur_task p \<in> set (all_tasks p)"
  using procs_invD(4) by (auto simp: active_def)

lemma cur_running: "procs_inv idle p \<Longrightarrow> task_state p (cur_task p) = TASK_RUNNING"
  using procs_invD(1) sched_inv_running by blast

lemma pid_eq: "pids_ok p \<Longrightarrow> t \<in> set (all_tasks p) \<Longrightarrow> u \<in> set (all_tasks p) \<Longrightarrow> pid_of p t = pid_of p u \<Longrightarrow> t = u"
  by (auto simp: pids_ok_def dest: inj_onD)

text \<open>A step of the scheduler that changes no exit and puts nobody to wait.\<close>

lemma quiet_inv:
  assumes inv: "procs_inv idle p" and s: "sched_inv s" "idle \<in> active s" "active s \<subseteq> set (all_tasks p)"
    and q: "quiet (ksched (kern p)) s"
  shows "procs_inv idle (set_sched s p)"
proof -
  note D = procs_invD [OF inv]
  have ex: "exited (set_sched s p) u = exited p u"
    "state (tasks s u) = TASK_ZOMBIE \<longleftrightarrow> task_state p u = TASK_ZOMBIE"
    "state (tasks s u) = TASK_HANGING \<longleftrightarrow> task_state p u = TASK_HANGING"
    "state (tasks s u) = TASK_WAITING \<longrightarrow> task_state p u = TASK_WAITING" for u
    using q [unfolded quiet_def Let_def, rule_format, of u] by (auto simp: exited_def)
  show ?thesis
  proof (rule procs_invI)
    show "pids_ok (set_sched s p)" using D(5) by (simp add: pids_ok_def)
    show "vmms_ok (set_sched s p)" using D(8) unfolding vmms_ok_def ex(1) by simp
    show "parents_ok (set_sched s p)" using D(6) unfolding parents_ok_def ex(1) by simp
    have "waits_ok (set_sched s p) t = waits_ok p t" for t by (simp add: waits_ok_def ex(2,3))
    then show "waiting_ok (set_sched s p)"
      unfolding waiting_ok_def using D(7) [unfolded waiting_ok_def, rule_format] ex(4) by simp
  qed (use s D in simp_all)
qed

subsection \<open>Reaping\<close>

lemma reap_simps [simp]:
  "ksched (kern (reap p c)) = ksched (kern p)" "parent_pid (reap p c) = parent_pid p" "pid (kern (reap p c)) = pid (kern p)"
  "exit_status (kern (reap p c)) = exit_status (kern p)" "trig_ptr (kern (reap p c)) = trig_ptr (kern p)"
  "tgid (reap p c) = tgid p" "pthread_ptr (reap p c) = pthread_ptr p" "thread_count (reap p c) = thread_count p"
  "next_pid (reap p c) = next_pid p" "wait_pid (reap p c) = wait_pid p" "tmrs (reap p c) = tmrs p"
  "sleep_timer (reap p c) = sleep_timer p" "fileman (reap p c) = fileman p" "gmsgpool (reap p c) = gmsgpool p"
  "trigs (kern (reap p c)) = trigs (kern p)"
  by (simp_all add: reap_def proc_destroy_def task_free_def split: option.splits)

lemma reap_list: "all_tasks (reap p c) = (if vmm_ptr p c = None then all_tasks p else remove1 c (all_tasks p))"
  by (simp add: reap_def proc_destroy_def task_free_def split: option.splits)

lemma reap_vmm: "t \<noteq> c \<Longrightarrow> vmm_ptr (reap p c) t = vmm_ptr p t"
  by (simp add: reap_def proc_destroy_def task_free_def split: option.splits)

lemma reap_inv:
  assumes inv: "procs_inv idle p" and c: "c \<in> set (all_tasks p)" "exited p c"
  shows "procs_inv idle (reap p c)"
proof (cases "vmm_ptr p c")
  case None
  then have "reap p c = p" by (simp add: reap_def proc_destroy_def)
  with inv show ?thesis by simp
next
  case (Some v)
  note D = procs_invD [OF inv]
  have set: "set (all_tasks (reap p c)) = set (all_tasks p) - {c}"
    using Some D(5) by (simp add: reap_list pids_ok_def)
  have na: "c \<notin> active (ksched (kern p))" using active_states [OF D(1), of c] c(2) by (auto simp: exited_def)
  then have ne: "idle \<noteq> c" using D(2) by blast
  have freed: "set (vmm_freed (reap p c)) \<subseteq> insert v (set (vmm_freed p))"
    using Some by (auto simp: reap_def proc_destroy_def task_free_def)
  show ?thesis
  proof (rule procs_invI)
    show "vmm_ptr (reap p c) idle = None \<and> pid_of (reap p c) idle = 0" using D(3) reap_vmm [OF ne] by simp
    show "active (ksched (kern (reap p c))) \<subseteq> set (all_tasks (reap p c))" using D(4) na set by auto
    show "pids_ok (reap p c)"
      using D(5) Some by (auto simp: pids_ok_def reap_list inj_on_def)
    show "parents_ok (reap p c)"
      using D(6) c set unfolding parents_ok_def exited_def reap_simps by (metis Diff_iff singletonD)
    show "waiting_ok (reap p c)"
      unfolding waiting_ok_def
    proof (intro ballI impI)
      fix t assume t: "t \<in> set (all_tasks (reap p c))"
        and w: "task_state (reap p c) t = TASK_WAITING \<and> pid_of (reap p c) t \<noteq> INIT_PROC_PID"
      then have ok: "waits_ok p t" using D(7) set by (auto simp: waiting_ok_def)
      then have "parent_pid p c \<noteq> pid_of p t \<or> wait_pid p t \<noteq> -1" using c by (auto simp: waits_ok_def exited_def)
      with ok show "waits_ok (reap p c) t" using set by (auto simp: waits_ok_def)
    qed
    have v: "t = u" if "t \<in> set (all_tasks p)" "u \<in> set (all_tasks p)" "vmm_ptr p t = Some w" "vmm_ptr p u = Some w" for t u w
      using D(8) that by (auto simp: vmms_ok_def inj_on_def)
    have f: "w \<notin> set (vmm_freed (reap p c))" if "t \<in> set (all_tasks p)" "t \<noteq> c" "vmm_ptr p t = Some w" for t w
      using D(8) freed that v [of t c w] c Some by (auto simp: vmms_ok_def)
    show "vmms_ok (reap p c)"
      unfolding vmms_ok_def set using f v D(8) by (auto simp: reap_vmm inj_on_def exited_def vmms_ok_def)
  qed (use D in simp_all)
qed


definition zombie_child :: "procs \<Rightarrow> tid \<Rightarrow> tid \<Rightarrow> bool" where
  "zombie_child p t c \<longleftrightarrow> parent_pid p c = pid_of p t \<and> task_state p c = TASK_ZOMBIE"

lemma zombie_loop_frame [simp]:
  "ksched (kern (snd (zombie_loop p t ts z))) = ksched (kern p)"
  "parent_pid (snd (zombie_loop p t ts z)) = parent_pid p" "pid (kern (snd (zombie_loop p t ts z))) = pid (kern p)"
  "exit_status (kern (snd (zombie_loop p t ts z))) = exit_status (kern p)"
  "trig_ptr (kern (snd (zombie_loop p t ts z))) = trig_ptr (kern p)"
  "pthread_ptr (snd (zombie_loop p t ts z)) = pthread_ptr p" "wait_pid (snd (zombie_loop p t ts z)) = wait_pid p"
  "tgid (snd (zombie_loop p t ts z)) = tgid p" "next_pid (snd (zombie_loop p t ts z)) = next_pid p"
  "fileman (snd (zombie_loop p t ts z)) = fileman p" "gmsgpool (snd (zombie_loop p t ts z)) = gmsgpool p"
  "tmrs (snd (zombie_loop p t ts z)) = tmrs p" "sleep_timer (snd (zombie_loop p t ts z)) = sleep_timer p"
  by (induction p t ts z rule: zombie_loop.induct) simp_all

lemma find_in_list: "List.find Q xs = Some c \<Longrightarrow> c \<in> set xs \<and> Q c"
  by (metis find_Some_iff nth_mem)

lemma zombie_loop_result:
  "(\<And>c. c \<in> set ts \<Longrightarrow> pid_of p c \<noteq> -1) \<Longrightarrow> fst (zombie_loop p t ts z) =
     (if z \<noteq> -1 then z else case List.find (zombie_child p t) ts of None \<Rightarrow> -1 | Some c \<Rightarrow> pid_of p c)"
proof (induction p t ts z rule: zombie_loop.induct)
  case (2 p t c bs z)
  have "zombie_child (reap p c) t = zombie_child p t" by (rule ext) (simp add: zombie_child_def)
  with 2 show ?case by (auto simp: zombie_child_def [symmetric])
qed simp

lemma zombie_loop_inv:
  assumes "procs_inv idle p" "distinct ts" "set ts \<subseteq> set (all_tasks p)"
  shows "procs_inv idle (snd (zombie_loop p t ts z)) \<and>
    set (all_tasks (snd (zombie_loop p t ts z))) = set (all_tasks p) - {c \<in> set ts. zombie_child p t c} \<and>
    (\<forall>c \<in> set (all_tasks (snd (zombie_loop p t ts z))). vmm_ptr (snd (zombie_loop p t ts z)) c = vmm_ptr p c)"
  using assms
proof (induction ts arbitrary: p z)
  case (Cons c bs)
  show ?case
  proof (cases "zombie_child p t c")
    case True
    then have ex: "exited p c" by (simp add: exited_def zombie_child_def)
    have c: "c \<in> set (all_tasks p)" using Cons.prems by simp
    note D = procs_invD [OF Cons.prems(1)]
    have vm: "vmm_ptr p c \<noteq> None" using D(8) c ex by (auto simp: vmms_ok_def)
    have set: "set (all_tasks (reap p c)) = set (all_tasks p) - {c}" using vm D(5) by (clarsimp simp: reap_list pids_ok_def)
    have z: "zombie_child (reap p c) t = zombie_child p t" by (rule ext) (simp add: zombie_child_def)
    have "set bs \<subseteq> set (all_tasks (reap p c))" "distinct bs" using Cons.prems set by auto
    note IH = Cons.IH [OF reap_inv [OF Cons.prems(1) c ex] this(2,1), of "if z = -1 then pid_of p c else z"]
    have "zombie_loop p t (c # bs) z = zombie_loop (reap p c) t bs (if z = -1 then pid_of p c else z)"
      using True by (simp add: zombie_child_def)
    with IH True set show ?thesis by (auto simp: z reap_vmm)
  next
    case False
    then have "zombie_loop p t (c # bs) z = zombie_loop p t bs z" by (auto simp: zombie_child_def)
    with Cons.IH [OF Cons.prems(1), of z] Cons.prems False show ?thesis by auto
  qed
qed simp

lemma deal_zombie_inv:
  assumes "procs_inv idle p"
  shows "procs_inv idle (snd (deal_zombie_child p t))"
    "set (all_tasks (snd (deal_zombie_child p t))) = {c \<in> set (all_tasks p). \<not> zombie_child p t c}"
    "c \<in> set (all_tasks p) \<Longrightarrow> \<not> zombie_child p t c \<Longrightarrow> vmm_ptr (snd (deal_zombie_child p t)) c = vmm_ptr p c"
  using zombie_loop_inv [OF assms, of "all_tasks p" t "-1"] procs_invD(5) [OF assms]
  by (auto simp: deal_zombie_child_def pids_ok_def)

lemma deal_zombie_frame [simp]:
  "ksched (kern (snd (deal_zombie_child p t))) = ksched (kern p)"
  "parent_pid (snd (deal_zombie_child p t)) = parent_pid p" "pid (kern (snd (deal_zombie_child p t))) = pid (kern p)"
  "trig_ptr (kern (snd (deal_zombie_child p t))) = trig_ptr (kern p)"
  "pthread_ptr (snd (deal_zombie_child p t)) = pthread_ptr p" "wait_pid (snd (deal_zombie_child p t)) = wait_pid p"
  "tgid (snd (deal_zombie_child p t)) = tgid p" "next_pid (snd (deal_zombie_child p t)) = next_pid p"
  "tmrs (snd (deal_zombie_child p t)) = tmrs p" "sleep_timer (snd (deal_zombie_child p t)) = sleep_timer p"
  by (simp_all add: deal_zombie_child_def)

lemma deal_zombie_result:
  assumes "procs_inv idle p"
  shows "fst (deal_zombie_child p t) = (case List.find (zombie_child p t) (all_tasks p) of None \<Rightarrow> -1 | Some c \<Rightarrow> pid_of p c)"
  unfolding deal_zombie_child_def
  using procs_invD(5) [OF assms] by (subst zombie_loop_result) (force simp: pids_ok_def)+

subsection \<open>Leaving the processor\<close>

text \<open>The part of the state the invariant is about.\<close>

definition core where
  "core p = (ksched (kern p), all_tasks p, pid (kern p), parent_pid p, tgid p, vmm_ptr p, pthread_ptr p, next_pid p,
     vmm_freed p, wait_pid p)"

lemma core_inv: "core p = core q \<Longrightarrow> procs_inv idle p = procs_inv idle q"
  by (simp add: core_def procs_inv_def pids_ok_def parents_ok_def waiting_ok_def waits_ok_def vmms_ok_def exited_def)

lemma coreD:
  assumes "core p = core q"
  shows "ksched (kern p) = ksched (kern q)" "all_tasks p = all_tasks q" "pid (kern p) = pid (kern q)"
    "parent_pid p = parent_pid q" "tgid p = tgid q" "vmm_ptr p = vmm_ptr q" "pthread_ptr p = pthread_ptr q"
    "next_pid p = next_pid q" "vmm_freed p = vmm_freed q" "wait_pid p = wait_pid q"
  using assms by (simp_all add: core_def)

lemma release_resource_core: "\<exists>q. thread_release_resource p t = Some q \<and> core q = core p"
  by (auto simp: thread_release_resource_def timer_cancel_def timer_alive_def timer_del_def core_def split: option.splits)

lemma proc_release_core:
  assumes "pthread_ptr p t = None"
  shows "\<exists>r q. proc_release p t = Some (r, q) \<and> core q = core p"
proof -
  let ?p = "p\<lparr>kern := (kern p)\<lparr>trig_ptr := (trig_ptr (kern p))(t := None)\<rparr>, fileman := (fileman p)(t := False),
    gmsgpool := (gmsgpool p)(t := False), pthread_ptr := (pthread_ptr p)(t := None)\<rparr>"
  have "(pthread_ptr p)(t := None) = pthread_ptr p" using assms by (simp add: fun_upd_idem)
  then have c: "core ?p = core p" by (simp add: core_def)
  obtain q where q: "thread_release_resource ?p t = Some q" "core q = core p"
    using release_resource_core [of ?p t] c by auto
  show ?thesis using q by (auto simp: proc_release_def Let_def core_def)
qed

lemma close_loop_single:
  "tgid p t = pid_of p t \<Longrightarrow> (\<And>b. b \<in> set bs \<Longrightarrow> tgid p b = pid_of p b) \<Longrightarrow> close_loop p t bs = Some p"
  by (induction bs) auto

definition childless :: "procs \<Rightarrow> tid \<Rightarrow> bool" where
  "childless p t \<longleftrightarrow> (\<forall>c \<in> set (all_tasks p). parent_pid p c = pid_of p t \<longrightarrow> pid_of p t = INIT_PROC_PID)"

lemma adopt_inv:
  assumes inv: "procs_inv idle p" and run: "task_state p t \<noteq> TASK_WAITING" and t: "t \<in> set (all_tasks p)"
  shows "procs_inv idle (adopt_children_to_init p t)" "childless (adopt_children_to_init p t) t"
proof -
  note D = procs_invD [OF inv]
  let ?q = "adopt_children_to_init p t"
  have f: "kern ?q = kern p" "tgid ?q = tgid p" "vmm_ptr ?q = vmm_ptr p" "pthread_ptr ?q = pthread_ptr p"
    "next_pid ?q = next_pid p" "vmm_freed ?q = vmm_freed p" "wait_pid ?q = wait_pid p"
    "\<And>c. c \<in> set (all_tasks p) \<Longrightarrow> parent_pid ?q c = (if parent_pid p c = pid_of p t then INIT_PROC_PID else parent_pid p c)"
    by (simp_all add: adopt_children_to_init_def)
  show "childless ?q t" by (auto simp: childless_def f)
  show "procs_inv idle ?q"
  proof (rule procs_invI)
    show "pids_ok ?q" using D(5) by (simp add: pids_ok_def f)
    show "vmms_ok ?q" using D(8) by (simp add: vmms_ok_def exited_def f)
    show "parents_ok ?q" using D(6) by (auto simp: parents_ok_def exited_def f)
    have "waits_ok ?q u" if u: "u \<in> set (all_tasks p)" "task_state p u = TASK_WAITING" "pid_of p u \<noteq> INIT_PROC_PID" for u
    proof -
      have "pid_of p u \<noteq> pid_of p t" using pid_eq [OF D(5) u(1) t] u(2) run by auto
      then have "parent_pid ?q c = pid_of p u \<longleftrightarrow> parent_pid p c = pid_of p u" if "c \<in> set (all_tasks p)" for c
        using that u(3) by (simp add: f)
      moreover have "waits_ok p u" using D(7) u by (simp add: waiting_ok_def)
      ultimately show ?thesis by (simp add: waits_ok_def f)
    qed
    then show "waiting_ok ?q" by (simp add: waiting_ok_def f)
  qed (use D in \<open>simp_all add: f\<close>)
qed

lemma exit_begin_spec:
  assumes inv: "procs_inv idle p"
  shows "\<exists>q. exit_begin p status = Some q \<and> procs_inv idle q \<and> childless q (cur_task p) \<and>
    ksched (kern q) = ksched (kern p) \<and> pid (kern q) = pid (kern p) \<and> vmm_ptr q (cur_task p) = vmm_ptr p (cur_task p) \<and>
    set (all_tasks q) = {c \<in> set (all_tasks p). \<not> zombie_child p (cur_task p) c}"
proof -
  let ?t = "cur_task p" and ?p = "set_exit_status (cur_task p) status p"
  note D = procs_invD [OF inv]
  have c0: "core ?p = core p" by (simp add: core_def)
  have inv0: "procs_inv idle ?p" using core_inv [OF c0] inv by simp
  have t: "?t \<in> set (all_tasks p)" using cur_in_list [OF inv] .
  have P: "tgid ?p b = pid_of ?p b" "pthread_ptr ?p b = None" if "b \<in> set (all_tasks p)" for b
    using D(5) that by (auto simp: pids_ok_def)
  have "close_loop ?p ?t (all_tasks ?p) = Some ?p" by (rule close_loop_single) (use P t in simp_all)
  then have co: "close_other_threads ?p ?t = Some ?p" using P(2) [OF t] by (simp add: close_other_threads_def)
  let ?q = "snd (deal_zombie_child ?p ?t)"
  have z: "zombie_child ?p ?t = zombie_child p ?t" by (rule ext) (simp add: zombie_child_def)
  note Z = deal_zombie_inv [OF inv0, where t = ?t, unfolded z]
  have nz: "\<not> zombie_child p ?t ?t" using cur_running [OF inv] by (simp add: zombie_child_def)
  have tq: "?t \<in> set (all_tasks ?q)" "task_state ?q ?t \<noteq> TASK_WAITING" using Z(2) t nz cur_running [OF inv] by simp_all
  let ?r = "adopt_children_to_init ?q ?t"
  note A = adopt_inv [OF Z(1) tq(2,1)]
  have "pthread_ptr ?r ?t = None" using P(2) [OF t] by (simp add: adopt_children_to_init_def)
  then obtain m s where s: "proc_release ?r ?t = Some (m, s)" "core s = core ?r"
    using proc_release_core by blast
  have "exit_begin p status = Some s" using co s(1) by (simp add: exit_begin_def Let_def)
  moreover have "procs_inv idle s" using core_inv [OF s(2)] A(1) by simp
  moreover note C = coreD [OF s(2)]
  have "childless s ?t" using A(2) by (simp add: childless_def C)
  moreover have "ksched (kern s) = ksched (kern p)" "pid (kern s) = pid (kern p)"
    by (simp_all add: C adopt_children_to_init_def)
  moreover have "vmm_ptr s ?t = vmm_ptr p ?t" using Z(3) [of ?t] t nz by (simp add: C adopt_children_to_init_def)
  moreover have "set (all_tasks s) = {c \<in> set (all_tasks p). \<not> zombie_child p ?t c}"
    using Z(2) by (simp add: C adopt_children_to_init_def)
  ultimately show ?thesis by blast
qed

text \<open>The current task leaves the processor in a state \<open>st\<close>.\<close>

lemma block_inv:
  assumes inv: "procs_inv idle p" and ni: "cur_task p \<noteq> idle"
    and st: "st \<in> {TASK_BLOCKED, TASK_WAITING, TASK_STOPPED, TASK_HANGING, TASK_ZOMBIE}"
    and q: "q = p\<lparr>wait_pid := (wait_pid p)(cur_task p := n)\<rparr>"
    and ex: "st = TASK_HANGING \<or> st = TASK_ZOMBIE \<Longrightarrow> vmm_ptr p (cur_task p) \<noteq> None \<and> childless p (cur_task p) \<and>
      (\<forall>t \<in> set (all_tasks p). task_state p t = TASK_WAITING \<and> pid_of p t \<noteq> INIT_PROC_PID \<longrightarrow>
         parent_pid p (cur_task p) \<noteq> pid_of p t)"
    and wt: "st = TASK_WAITING \<Longrightarrow> pid_of p (cur_task p) \<noteq> INIT_PROC_PID \<Longrightarrow> waits_ok q (cur_task p)"
  shows "\<exists>s. task_block (ksched (kern p)) st = Some s \<and> procs_inv idle (set_sched s q) \<and> state (tasks s (cur_task p)) = st"
proof -
  note D = procs_invD [OF inv]
  obtain s where s: "task_block (ksched (kern p)) st = Some s" using block_some [OF D(1,2) ni st] by blast
  note B = block_states [OF D(1) s]
  have sinv: "sched_inv s \<and> idle \<in> active s" by (rule step_inv [OF D(1,2) sched_step.block [OF ni s]])
  let ?r = "set_sched s q"
  have f: "all_tasks ?r = all_tasks p" "pid (kern ?r) = pid (kern p)" "parent_pid ?r = parent_pid p" "tgid ?r = tgid p"
    "pthread_ptr ?r = pthread_ptr p" "vmm_ptr ?r = vmm_ptr p" "vmm_freed ?r = vmm_freed p" "next_pid ?r = next_pid p"
    "ksched (kern ?r) = s"
    by (simp_all add: q)
  have other: "task_state ?r u = x \<longleftrightarrow> task_state p u = x"
    if "u \<noteq> cur_task p" "x \<notin> {TASK_RUNNING, TASK_READY}" for u x
    using that B(1) [of u] B(2) by auto
  have self: "task_state ?r (cur_task p) = st" using B(1) [of "cur_task p"] B(4) by simp
  have run: "task_state p (cur_task p) = TASK_RUNNING" using cur_running [OF inv] .
  have exo: "exited ?r u = exited p u" if "u \<noteq> cur_task p" for u using other [OF that] by (simp add: exited_def)
  have "procs_inv idle ?r"
  proof (rule procs_invI)
    show "pids_ok ?r" using D(5) by (simp add: pids_ok_def q)
    have "vmm_ptr p t \<noteq> None" if "t \<in> set (all_tasks p)" "exited ?r t" for t
      using that D(8) ex self exo [of t] by (cases "t = cur_task p") (auto simp: exited_def vmms_ok_def)
    then show "vmms_ok ?r" using D(8) unfolding vmms_ok_def f by blast
    show "parents_ok ?r"
      unfolding parents_ok_def f
    proof
      fix t assume t: "t \<in> set (all_tasks p)"
      show "parent_pid p t \<in> {-1, INIT_PROC_PID} \<or>
          (\<exists>u \<in> set (all_tasks p). pid_of p u = parent_pid p t \<and> \<not> exited ?r u)"
      proof (cases "parent_pid p t = pid_of p (cur_task p)")
        case True
        show ?thesis
        proof (cases "st = TASK_HANGING \<or> st = TASK_ZOMBIE")
          case True
          with ex \<open>parent_pid p t = _\<close> t show ?thesis by (auto simp: childless_def)
        next
          case False
          then have "\<not> exited ?r (cur_task p)" using self by (simp add: exited_def)
          with True cur_in_list [OF inv] show ?thesis by metis
        qed
      next
        case False
        with D(6) t exo show ?thesis unfolding parents_ok_def by metis
      qed
    qed
    show "waiting_ok ?r"
      unfolding waiting_ok_def f
    proof (intro ballI impI)
      fix t assume t: "t \<in> set (all_tasks p)" and w: "state (tasks s t) = TASK_WAITING \<and> pid_of p t \<noteq> INIT_PROC_PID"
      show "waits_ok ?r t"
      proof (cases "t = cur_task p")
        case True
        with w self wt have "waits_ok q t" by simp
        moreover have "(task_state ?r c = TASK_ZOMBIE) = (task_state q c = TASK_ZOMBIE)"
          "(task_state ?r c = TASK_HANGING) = (task_state q c = TASK_HANGING)" for c
          using other [of c] self w True run by (cases "c = cur_task p"; simp add: q)+
        ultimately show ?thesis unfolding waits_ok_def by (simp add: q)
      next
        case False
        have "task_state p t = TASK_WAITING" using other [OF False, of TASK_WAITING] w by simp
        then have ok: "waits_ok p t" using D(7) t w by (simp add: waiting_ok_def)
        have c: "(task_state ?r c = TASK_ZOMBIE) = (task_state p c = TASK_ZOMBIE) \<and>
            (task_state ?r c = TASK_HANGING) = (task_state p c = TASK_HANGING)"
          if "parent_pid p c = pid_of p t" for c
        proof (cases "c = cur_task p")
          case True
          then have "\<not> (st = TASK_HANGING \<or> st = TASK_ZOMBIE)"
            using ex t w \<open>task_state p t = TASK_WAITING\<close> that by blast
          with True self run show ?thesis by simp
        qed (use other in simp)
        have "wait_pid ?r t = wait_pid p t" using False by (simp add: q)
        with ok c show ?thesis unfolding waits_ok_def f by metis
      qed
    qed
  qed (use sinv D B(3) in \<open>auto simp: q\<close>)
  with s self show ?thesis by auto
qed

lemma exit_end_spec:
  assumes inv: "procs_inv idle p" and user: "vmm_ptr p (cur_task p) \<noteq> None" and cl: "childless p (cur_task p)"
  shows "\<exists>q. exit_end p = Some q \<and> procs_inv idle q \<and>
    task_state q (cur_task p) = (if exit_parent p = None then TASK_ZOMBIE else TASK_HANGING) \<and>
    pid (kern q) = pid (kern p) \<and> set (all_tasks q) = set (all_tasks p)"
proof -
  note D = procs_invD [OF inv]
  have ni: "cur_task p \<noteq> idle" using user D(3) by auto
  have q: "p = p\<lparr>wait_pid := (wait_pid p)(cur_task p := wait_pid p (cur_task p))\<rparr>" by simp
  show ?thesis
  proof (cases "exit_parent p")
    case None
    have par: "parent_pid p (cur_task p) \<noteq> pid_of p t"
      if t: "t \<in> set (all_tasks p)" "task_state p t = TASK_WAITING" for t
    proof
      assume e: "parent_pid p (cur_task p) = pid_of p t"
      with t(1) have "find_task_by_pid (kern p) (parent_pid p (cur_task p)) \<noteq> None"
        by (auto simp: find_task_by_pid_def find_None_iff)
      then obtain u where u: "find_task_by_pid (kern p) (parent_pid p (cur_task p)) = Some u" by auto
      then have "u = t" using find_in_list [OF u [unfolded find_task_by_pid_def]] pid_eq [OF D(5) _ t(1), of u] e
        by simp
      with u None t show False by (simp add: exit_parent_def)
    qed
    obtain s where s: "task_block (ksched (kern p)) TASK_ZOMBIE = Some s" "procs_inv idle (set_sched s p)"
      "state (tasks s (cur_task p)) = TASK_ZOMBIE"
      using block_inv [OF inv ni _ q, of TASK_ZOMBIE] user cl par by auto
    then show ?thesis using None by (auto simp: exit_end_def exit_block_def)
  next
    case (Some t)
    then have t: "t \<in> set (all_tasks p)" "pid_of p t = parent_pid p (cur_task p)" "task_state p t = TASK_WAITING"
      using find_in_list [of _ "all_tasks p" t]
      by (auto simp: exit_parent_def find_task_by_pid_def split: option.splits if_splits)
    obtain s1 where w: "task_wakeup (ksched (kern p)) t = Some s1" using wakeup_spec [OF D(1), of t] by auto
    then have ub: "task_unblock (ksched (kern p)) t = Some s1" using t(3) by (simp add: task_wakeup_def)
    note W = wakeup_quiet [OF D(1) w]
    let ?p = "set_sched s1 p"
    have inv1: "procs_inv idle ?p"
      using quiet_inv [OF inv W(4)] W(1-3) D(2,4) t(1) by blast
    have c: "cur_task ?p = cur_task p" using W(6) by simp
    have q1: "?p = ?p\<lparr>wait_pid := (wait_pid ?p)(cur_task ?p := wait_pid p (cur_task p))\<rparr>" using c by simp
    have par: "parent_pid ?p (cur_task ?p) \<noteq> pid_of ?p u"
      if u: "u \<in> set (all_tasks ?p)" "task_state ?p u = TASK_WAITING" for u
      using that pid_eq [OF D(5) t(1), of u] t W(5) c by auto
    have "vmm_ptr ?p (cur_task ?p) \<noteq> None" "childless ?p (cur_task ?p)" "cur_task ?p \<noteq> idle"
      using user cl ni c by (simp_all add: childless_def)
    then obtain s where s: "task_block (ksched (kern ?p)) TASK_HANGING = Some s" "procs_inv idle (set_sched s ?p)"
      "state (tasks s (cur_task ?p)) = TASK_HANGING"
      using block_inv [OF inv1 _ _ q1, of TASK_HANGING] par by auto
    then have "exit_end p = Some (set_sched s ?p)"
      using Some ub by (simp add: exit_end_def exit_wake_def exit_block_def)
    moreover have "task_state (set_sched s ?p) (cur_task p) = TASK_HANGING" using s(3) c by simp
    ultimately show ?thesis using s(2) Some by (intro exI [of _ "set_sched s ?p"]) (auto simp del: fun_upd_apply)
  qed
qed

lemma sys_exit_spec:
  assumes inv: "procs_inv idle p" and user: "vmm_ptr p (cur_task p) \<noteq> None"
  shows "\<exists>q. sys_exit p status = Some q \<and> procs_inv idle q \<and> exited q (cur_task p) \<and>
    set (all_tasks q) = {c \<in> set (all_tasks p). \<not> zombie_child p (cur_task p) c}"
proof -
  obtain r where r: "exit_begin p status = Some r" "procs_inv idle r" "childless r (cur_task p)"
    "ksched (kern r) = ksched (kern p)" "vmm_ptr r (cur_task p) \<noteq> None"
    "set (all_tasks r) = {c \<in> set (all_tasks p). \<not> zombie_child p (cur_task p) c}"
    using exit_begin_spec [OF inv, of status] user by auto
  then have c: "cur_task r = cur_task p" by simp
  obtain q where q: "exit_end r = Some q" "procs_inv idle q" "set (all_tasks q) = set (all_tasks r)"
    "task_state q (cur_task r) = (if exit_parent r = None then TASK_ZOMBIE else TASK_HANGING)"
    using exit_end_spec [OF r(2)] r(3,5) c by auto
  then show ?thesis using r(1,6) c by (auto simp: sys_exit_def exited_def split: if_splits)
qed

subsection \<open>Waiting\<close>

lemma wait_any_cases:
  obtains (none) "wait_any_hangging_child p t = (-1, None, p)"
      "\<And>c. c \<in> set (all_tasks p) \<Longrightarrow> parent_pid p c = pid_of p t \<Longrightarrow> task_state p c \<noteq> TASK_HANGING"
  | (found) c where "wait_any_hangging_child p t = (pid_of p c, Some (exit_status (kern p) c), reap p c)"
      "c \<in> set (all_tasks p)" "parent_pid p c = pid_of p t" "task_state p c = TASK_HANGING"
proof (cases "List.find (\<lambda>c. parent_pid p c = pid_of p t \<and> task_state p c = TASK_HANGING) (all_tasks p)")
  case None
  show ?thesis by (rule none) (use None in \<open>simp add: wait_any_hangging_child_def\<close>, use None in \<open>auto simp: find_None_iff\<close>)
next
  case (Some c)
  then show ?thesis using find_in_list [OF Some] by (intro found [of c]) (auto simp: wait_any_hangging_child_def)
qed

lemma wait_one_cases:
  obtains (none) "wait_one_hangging_child p t n = (-1, None, p)"
      "\<And>c. c \<in> set (all_tasks p) \<Longrightarrow> pid_of p c = n \<Longrightarrow> task_state p c \<noteq> TASK_HANGING"
  | (found) c where "wait_one_hangging_child p t n = (n, Some (exit_status (kern p) c), reap p c)"
      "c \<in> set (all_tasks p)" "pid_of p c = n" "task_state p c = TASK_HANGING"
proof (cases "List.find (\<lambda>c. pid_of p c = n \<and> task_state p c = TASK_HANGING) (all_tasks p)")
  case None
  show ?thesis by (rule none) (use None in \<open>simp add: wait_one_hangging_child_def\<close>, use None in \<open>auto simp: find_None_iff\<close>)
next
  case (Some c)
  then show ?thesis using find_in_list [OF Some] by (intro found [of c]) (auto simp: wait_one_hangging_child_def)
qed

text \<open>The round either reaps the child it finds hanging, or the zombies and goes on.\<close>

definition wait_late :: "procs \<Rightarrow> u32 \<Rightarrow> wait_result" where
  "wait_late p options = (let parent = cur_task p; (c, p) = deal_zombie_child p parent
     in if c > 0 then Return c None p
        else if find_child_proc p parent = 0 then Return (-1) None p
        else if options AND WNOHANG \<noteq> 0 then Return 0 None p else Sleep p)"

lemma wait_round_cases:
  assumes inv: "procs_inv idle p"
  obtains (hanging) c where "wait_round p n options = Return (pid_of p c) (Some (exit_status (kern p) c)) (reap p c)"
      "c \<in> set (all_tasks p)" "task_state p c = TASK_HANGING" "procs_inv idle (reap p c)"
      "n = -1 \<Longrightarrow> parent_pid p c = pid_of p (cur_task p)" "n \<noteq> -1 \<Longrightarrow> pid_of p c = n"
  | (late) "wait_round p n options = wait_late p options"
      "\<And>c. c \<in> set (all_tasks p) \<Longrightarrow> task_state p c = TASK_HANGING \<Longrightarrow>
         if n = -1 then parent_pid p c \<noteq> pid_of p (cur_task p) else pid_of p c \<noteq> n"
proof -
  have nn: "0 \<le> pid_of p c" if "c \<in> set (all_tasks p)" for c
    using procs_invD(5) [OF inv] that by (simp add: pids_ok_def)
  show ?thesis
  proof (cases "n = -1")
    case True
    show ?thesis
    proof (cases rule: wait_any_cases [of p "cur_task p"])
      case none
      with True show ?thesis by (intro late) (auto simp: wait_round_def wait_late_def Let_def)
    next
      case (found c)
      with True nn [of c] show ?thesis
        by (intro hanging [of c] reap_inv [OF inv]) (auto simp: wait_round_def exited_def)
    qed
  next
    case False
    show ?thesis
    proof (cases rule: wait_one_cases [of p "cur_task p" n])
      case none
      with False show ?thesis by (intro late) (auto simp: wait_round_def wait_late_def Let_def)
    next
      case (found c)
      with False nn [of c] show ?thesis
        by (intro hanging [of c] reap_inv [OF inv]) (auto simp: wait_round_def exited_def)
    qed
  qed
qed

lemma wait_late_cases:
  assumes inv: "procs_inv idle p"
  shows "case wait_late p options of
      Return m st q \<Rightarrow> st = None \<and> procs_inv idle q \<and> ksched (kern q) = ksched (kern p)
    | Sleep q \<Rightarrow> q = snd (deal_zombie_child p (cur_task p)) \<and> find_child_proc q (cur_task p) \<noteq> 0 \<and> options AND WNOHANG = 0"
proof -
  have "procs_inv idle (snd (deal_zombie_child p (cur_task p)))" by (rule deal_zombie_inv(1) [OF inv])
  then show ?thesis
    using deal_zombie_frame(1) [of p "cur_task p"]
    by (cases "deal_zombie_child p (cur_task p)") (auto simp: wait_late_def Let_def)
qed

lemma wait_round_inv:
  assumes inv: "procs_inv idle p" and ni: "cur_task p \<noteq> idle"
  shows "case wait_round p n options of Return m st q \<Rightarrow> procs_inv idle q
    | Sleep q \<Rightarrow> \<exists>r. wait_block q n = Some r \<and> procs_inv idle r \<and> task_state r (cur_task p) = TASK_WAITING"
proof (cases rule: wait_round_cases [OF inv, of n options])
  case (1 c)
  then show ?thesis by simp
next
  case 2
  note late = this
  let ?q = "snd (deal_zombie_child p (cur_task p))"
  show ?thesis
  proof (cases "wait_late p options")
    case (Return m st q)
    then show ?thesis using wait_late_cases [OF inv, of options] late(1) by simp
  next
    case (Sleep q)
    then have q: "q = ?q" "find_child_proc q (cur_task p) \<noteq> 0" using wait_late_cases [OF inv, of options] by auto
    note Z = deal_zombie_inv [OF inv, where t = "cur_task p", folded q(1)]
    have fr: "ksched (kern q) = ksched (kern p)" "pid (kern q) = pid (kern p)" "parent_pid q = parent_pid p"
      "wait_pid q = wait_pid p" by (simp_all add: q(1))
    let ?w = "q\<lparr>wait_pid := (wait_pid q)(cur_task q := n)\<rparr>"
    have "\<exists>c \<in> set (all_tasks q). parent_pid q c = pid_of q (cur_task p)"
      using q(2) by (auto simp: find_child_proc_def filter_empty_conv)
    moreover have "task_state q c \<noteq> TASK_ZOMBIE \<and> (task_state q c = TASK_HANGING \<longrightarrow> n \<noteq> -1 \<and> n \<noteq> pid_of q c)"
      if c: "c \<in> set (all_tasks q)" "parent_pid q c = pid_of q (cur_task p)" for c
      using late(2) [of c] c Z(2) fr by (auto simp: zombie_child_def split: if_splits)
    ultimately have "waits_ok ?w (cur_task q)" by (auto simp: waits_ok_def fr(1))
    then have "\<exists>s. task_block (ksched (kern q)) TASK_WAITING = Some s \<and> procs_inv idle (set_sched s ?w) \<and>
        state (tasks s (cur_task q)) = TASK_WAITING"
      using ni by (intro block_inv [OF Z(1)]) (auto simp: fr(1))
    then show ?thesis using late(1) Sleep by (auto simp: wait_block_def fr(1))
  qed
qed

subsection \<open>Creating tasks\<close>

text \<open>The scheduler when a task structure \<open>c\<close> that is not in use is filled, and when it is enqueued.\<close>

lemma sched_fill:
  assumes inv: "sched_inv s" and c: "c \<notin> active s"
    and k: "state k = TASK_READY" "static_priority k \<le> priority k" "priority k < MAX_PRIORITY_NR"
  shows "sched_inv (upd_task c (\<lambda>_. k) s)" "active (upd_task c (\<lambda>_. k) s) = active s"
proof -
  have out: "\<And>i. c \<notin> set (queue s i)" "c \<noteq> cur s" using c by (auto simp: active_def)
  have "queues_ok (upd_task c (\<lambda>_. k) s)"
    using out k by (intro queues_ok_upd_outside [OF sched_inv_queues [OF inv]]) auto
  then show "sched_inv (upd_task c (\<lambda>_. k) s)"
    using sched_inv_running [OF inv] out(2) k(1) by (auto simp: sched_inv_def)
  show "active (upd_task c (\<lambda>_. k) s) = active s" by (simp add: active_def)
qed

lemma sched_publish:
  assumes inv: "sched_inv (ksched (kern q))" and c: "c \<notin> active (ksched (kern q))" "c \<notin> set (all_tasks q)"
    and st: "task_state q c = TASK_READY"
  shows "task_publish q c = Some (set_sched (enq (ksched (kern q)) c) (set_list (all_tasks q @ [c]) q))"
    "sched_inv (enq (ksched (kern q)) c)" "active (enq (ksched (kern q)) c) = insert c (active (ksched (kern q)))"
proof -
  let ?S = "ksched (kern q)"
  have out: "\<And>i. c \<notin> set (queue ?S i)" "c \<noteq> cur_task q" using c(1) by (auto simp: active_def)
  note E = enq_inv [where g = "\<lambda>k. k", OF inv out queues_okD(9,8) [OF sched_inv_queues [OF inv]] st, unfolded upd_task_id]
  show "task_publish q c = Some (set_sched (enq ?S c) (set_list (all_tasks q @ [c]) q))"
    using c(2) E(1) by (simp add: task_publish_def task_global_list_add_def)
  show "sched_inv (enq ?S c)" by (rule E(2))
  show "active (enq ?S c) = insert c (active ?S)"
    using active_append [of "queue ?S" "priority (tasks ?S c)" c] by (auto simp: active_def)
qed

text \<open>Filling a task structure \<open>c\<close> that is not in use.\<close>

lemma fresh_inv:
  assumes inv: "procs_inv idle p" and c: "c \<notin> set (all_tasks p)"
    and s: "ksched (kern q) = upd_task c (\<lambda>_. k) (ksched (kern p))" "state k = TASK_READY"
      "static_priority k \<le> priority k" "priority k < MAX_PRIORITY_NR"
    and f: "all_tasks q = all_tasks p" "vmm_freed q = vmm_freed p" "next_pid p \<le> next_pid q" "wait_pid q = wait_pid p"
      "\<And>u. u \<noteq> c \<Longrightarrow> pid_of q u = pid_of p u \<and> parent_pid q u = parent_pid p u \<and> tgid q u = tgid p u \<and>
         vmm_ptr q u = vmm_ptr p u \<and> pthread_ptr q u = pthread_ptr p u"
  shows "procs_inv idle q"
proof -
  note D = procs_invD [OF inv]
  have g: "u \<noteq> c" if "u \<in> set (all_tasks p)" for u using that c by auto
  have nc: "c \<notin> active (ksched (kern p))" using c D(4) by blast
  note F = sched_fill [OF D(1) nc s(2-4), folded s(1)]
  have "sched_inv (ksched (kern q))" by (rule F(1))
  moreover have a: "active (ksched (kern q)) = active (ksched (kern p))" by (rule F(2))
  moreover have st: "task_state q u = task_state p u" "exited q u = exited p u" if "u \<in> set (all_tasks p)" for u
    using g [OF that] s(1) by (simp_all add: exited_def)
  moreover have "vmm_ptr q idle = None \<and> pid_of q idle = 0" using D(2,3) nc f(5) [of idle] by auto
  moreover have "pids_ok q"
    using D(5) f g by (fastforce simp: pids_ok_def inj_on_def)
  moreover have "parents_ok q"
    using D(6) f(5) [OF g] st(2) unfolding parents_ok_def f by metis
  moreover have "waits_ok q t" if t: "t \<in> set (all_tasks p)" "waits_ok p t" for t
    using t(2) f(5) [OF g] f(5) [OF g [OF t(1)]] st(1) unfolding waits_ok_def f by simp
  then have "waiting_ok q"
    using D(7) f(5) [OF g] st(1) unfolding waiting_ok_def f by simp
  moreover have "vmms_ok q"
    using D(8) f(5) [OF g] st(2) unfolding vmms_ok_def f inj_on_def by (simp cong: conj_cong)
  ultimately show ?thesis using D f by (simp add: procs_inv_def)
qed

text \<open>Putting a new task into the list of all tasks and into its ready queue.\<close>

lemma publish_inv:
  assumes inv: "procs_inv idle q" and c: "c \<notin> set (all_tasks q)" "task_state q c = TASK_READY"
    and pid: "0 \<le> pid_of q c" "pid_of q c < next_pid q" "pid_of q c \<notin> pid (kern q) ` set (all_tasks q)"
      "tgid q c = pid_of q c" "pthread_ptr q c = None"
    and par: "parent_pid q c \<in> {-1, INIT_PROC_PID} \<or>
      (\<exists>u \<in> set (all_tasks q). pid_of q u = parent_pid q c \<and> \<not> exited q u)"
    and vmm: "\<And>v. vmm_ptr q c = Some v \<Longrightarrow>
      v \<notin> set (vmm_freed q) \<and> (\<forall>u \<in> set (all_tasks q). vmm_ptr q u \<noteq> Some v)"
  shows "\<exists>r. task_publish q c = Some r \<and> procs_inv idle r \<and> all_tasks r = all_tasks q @ [c]"
proof -
  note D = procs_invD [OF inv]
  let ?S = "ksched (kern q)"
  have nc: "c \<notin> active ?S" using c(1) D(4) by blast
  let ?r = "set_sched (enq ?S c) (set_list (all_tasks q @ [c]) q)"
  note P = sched_publish [OF D(1) nc c(1,2)]
  have ex: "exited ?r u = exited q u" for u by (simp add: exited_def)
  have live: "\<not> exited q c" using c(2) by (simp add: exited_def)
  have "procs_inv idle ?r"
  proof (rule procs_invI)
    show "pids_ok ?r" using D(5) c(1) pid by (auto simp: pids_ok_def)
    show "parents_ok ?r" using D(6) par unfolding parents_ok_def ex by (auto simp del: insert_iff)
    show "waiting_ok ?r"
      unfolding waiting_ok_def
    proof (intro ballI impI)
      fix t assume "t \<in> set (all_tasks ?r)" and w: "task_state ?r t = TASK_WAITING \<and> pid_of ?r t \<noteq> INIT_PROC_PID"
      with c(2) have t: "t \<in> set (all_tasks q)" by auto
      have "waits_ok q t" using D(7) t w by (simp add: waiting_ok_def)
      then show "waits_ok ?r t" using c(2) by (auto simp: waits_ok_def)
    qed
    show "vmms_ok ?r"
      using D(8) vmm live unfolding vmms_ok_def ex by (auto simp: inj_on_def)
  qed (use D P(2,3) in auto)
  with P(1) show ?thesis by auto
qed


lemma copy_task_fields:
  assumes "copy_task p c t e = Some (r, q)" "c \<noteq> t"
  shows "ksched (kern q) = upd_task c (\<lambda>_. (tasks (ksched (kern p)) t)\<lparr>state := TASK_READY\<rparr>) (ksched (kern p))"
    "all_tasks q = all_tasks p" "vmm_freed q = vmm_freed p" "next_pid q = next_pid p + 1" "wait_pid q = wait_pid p"
    "u \<noteq> c \<Longrightarrow> pid_of q u = pid_of p u \<and> parent_pid q u = parent_pid p u \<and> tgid q u = tgid p u \<and>
       vmm_ptr q u = vmm_ptr p u \<and> pthread_ptr q u = pthread_ptr p u"
    "pid_of q c = next_pid p" "tgid q c = next_pid p" "parent_pid q c = pid_of p t"
    "r = 0 \<Longrightarrow> vmm_ptr q c = fe_vmm e" "pthread_ptr p t = None \<Longrightarrow> pthread_ptr q c = None"
  using assms
  by (auto simp: copy_task_def copy_struct_and_kstack_def new_pid_def copy_trigger_def copy_pthread_desc_def
      copy_gui_def Let_def split: option.splits if_splits)

definition fresh_env :: "procs \<Rightarrow> fork_env \<Rightarrow> bool" where
  "fresh_env p e \<longleftrightarrow> (\<forall>c. fe_task e = Some c \<longrightarrow> c \<notin> set (all_tasks p)) \<and>
     (\<forall>v. fe_vmm e = Some v \<longrightarrow> v \<notin> set (vmm_freed p) \<and> (\<forall>u \<in> set (all_tasks p). vmm_ptr p u \<noteq> Some v))"

lemma fork_inv:
  assumes inv: "procs_inv idle p" and e: "fresh_env p e" and fork: "sys_fork p e = Some (r, q)"
  shows "procs_inv idle q"
proof -
  note D = procs_invD [OF inv]
  let ?t = "cur_task p"
  have t: "?t \<in> set (all_tasks p)" using cur_in_list [OF inv] .
  show ?thesis
  proof (cases "fe_task e")
    case None
    with fork inv show ?thesis by (simp add: sys_fork_def)
  next
    case (Some c)
    with fork obtain m p1 where cp: "copy_task p c ?t e = Some (m, p1)"
      by (auto simp: sys_fork_def split: if_splits option.splits)
    have c: "c \<notin> set (all_tasks p)" using e Some by (simp add: fresh_env_def)
    with t have "c \<noteq> ?t" by auto
    note F = copy_task_fields [OF cp this]
    have inv1: "procs_inv idle p1"
      by (rule fresh_inv [OF inv c F(1)])
        (use queues_okD(8,9) [OF sched_inv_queues [OF D(1)]] F(2-6) in simp_all)
    show ?thesis
    proof (cases "m = 0")
      case False
      with fork cp Some inv1 show ?thesis by (auto simp: sys_fork_def split: if_splits)
    next
      case True
      then have pub: "task_publish p1 c = Some q" using fork cp Some by (auto simp: sys_fork_def split: if_splits)
      have g: "u \<noteq> c" if "u \<in> set (all_tasks p)" for u using that c by auto
      have pids: "0 \<le> next_pid p" "next_pid p \<notin> pid (kern p1) ` set (all_tasks p)" "pthread_ptr p ?t = None"
        using D(5) t F(6) [OF g] by (auto simp: pids_ok_def)
      have "\<not> exited p1 ?t" using F(1) cur_running [OF inv] \<open>c \<noteq> ?t\<close> by (simp add: exited_def)
      then have par: "\<exists>u \<in> set (all_tasks p1). pid_of p1 u = parent_pid p1 c \<and> \<not> exited p1 u"
        using t F(2,6,9) \<open>c \<noteq> ?t\<close> by (metis g)
      have vm: "v \<notin> set (vmm_freed p1) \<and> (\<forall>u \<in> set (all_tasks p1). vmm_ptr p1 u \<noteq> Some v)"
        if "vmm_ptr p1 c = Some v" for v
        using that F(2,3,10) F(6) [OF g] True e by (auto simp: fresh_env_def)
      have "\<exists>r. task_publish p1 c = Some r \<and> procs_inv idle r \<and> all_tasks r = all_tasks p1 @ [c]"
        by (rule publish_inv [OF inv1 _ _ _ _ _ _ _ disjI2 [OF par] vm])
          (use c F(1,2,4,7,8) F(11) [OF pids(3)] pids in simp_all)
      with pub show ?thesis by auto
    qed
  qed
qed

lemma task_setup_fields:
  "ksched (kern (task_setup p t prio)) = upd_task t (\<lambda>_. task_init prio) (ksched (kern p))"
  "all_tasks (task_setup p t prio) = all_tasks p" "vmm_freed (task_setup p t prio) = vmm_freed p"
  "next_pid (task_setup p t prio) = next_pid p + 1" "wait_pid (task_setup p t prio) = wait_pid p"
  "pid (kern (task_setup p t prio)) = (pid (kern p))(t := next_pid p)"
  "parent_pid (task_setup p t prio) = (parent_pid p)(t := -1)"
  "tgid (task_setup p t prio) = (tgid p)(t := next_pid p)"
  "vmm_ptr (task_setup p t prio) = (vmm_ptr p)(t := None)"
  "pthread_ptr (task_setup p t prio) = (pthread_ptr p)(t := None)"
  by (simp_all add: task_setup_def new_pid_def)

lemma task_init_ok:
  "state (task_init prio) = TASK_READY" "static_priority (task_init prio) \<le> priority (task_init prio)"
  "priority (task_init prio) < MAX_PRIORITY_NR"
  by (auto simp: task_init_def Let_def MAX_PRIORITY_NR_def)

lemma kthread_inv:
  assumes inv: "procs_inv idle p" and t: "t \<notin> set (all_tasks p)"
  shows "\<exists>q. kthread_create p t prio = Some q \<and> procs_inv idle q \<and> all_tasks q = all_tasks p @ [t]"
proof -
  let ?q = "(task_setup p t prio)\<lparr>fileman := (fileman (task_setup p t prio))(t := True)\<rparr>"
  have inv1: "procs_inv idle ?q"
    by (rule fresh_inv [OF inv t _ task_init_ok, of _ prio]) (simp_all add: task_setup_fields)
  have "0 \<le> next_pid p" "next_pid p \<notin> (pid (kern p))(t := next_pid p) ` set (all_tasks p)"
    using procs_invD(5) [OF inv] t by (auto simp: pids_ok_def)
  then have "\<exists>r. task_publish ?q t = Some r \<and> procs_inv idle r \<and> all_tasks r = all_tasks ?q @ [t]"
    using t by (intro publish_inv [OF inv1]) (simp_all add: task_setup_fields task_init_ok)
  then show ?thesis by (simp add: kthread_create_def Let_def task_setup_fields)
qed

lemma start_process_inv:
  assumes inv: "procs_inv idle p" and t: "t \<notin> set (all_tasks p)" "\<forall>u \<in> set (all_tasks p). pid_of p u \<noteq> INIT_PROC_PID"
    and v: "v \<notin> set (vmm_freed p)" "\<forall>u \<in> set (all_tasks p). vmm_ptr p u \<noteq> Some v"
  shows "\<exists>q. start_process p t v m = Some q \<and> procs_inv idle q \<and> all_tasks q = all_tasks p @ [t]"
proof -
  let ?p = "task_setup p t TASK_PRIO_USER"
  let ?q = "?p\<lparr>kern := (kern ?p)\<lparr>pid := (pid (kern ?p))(t := INIT_PROC_PID), trig_ptr := (trig_ptr (kern ?p))(t := Some m),
      trigs := (trigs (kern ?p))(m := trigger_init (trigs (kern ?p) m))\<rparr>,
    tgid := (tgid ?p)(t := INIT_PROC_PID), vmm_ptr := (vmm_ptr ?p)(t := Some v), fileman := (fileman ?p)(t := True)\<rparr>"
  have inv1: "procs_inv idle ?q"
    by (rule fresh_inv [OF inv t(1) _ task_init_ok, of _ TASK_PRIO_USER]) (simp_all add: task_setup_fields)
  have n: "INIT_PROC_PID < next_pid p" "INIT_PROC_PID \<notin> (pid (kern p))(t := INIT_PROC_PID) ` set (all_tasks p)"
    "0 \<le> INIT_PROC_PID" "v \<notin> set (vmm_freed p)" "\<forall>u \<in> set (all_tasks p). u \<noteq> t \<and> vmm_ptr p u \<noteq> Some v"
    using procs_invD(5) [OF inv] t v by (auto simp: pids_ok_def INIT_PROC_PID_def)
  have "\<exists>r. task_publish ?q t = Some r \<and> procs_inv idle r \<and> all_tasks r = all_tasks ?q @ [t]"
    using t n by (intro publish_inv [OF inv1]) (auto simp: task_setup_fields task_init_ok)
  then show ?thesis by (simp add: start_process_def Let_def task_setup_fields)
qed

subsection \<open>The system\<close>

text \<open>
  The processes of a system without threads. A handler runs without preemption, from its call to its
  return or to the switch to another task: what a tick between \<open>restore_intr\<close> and \<open>task_block\<close> does is
  the subject of \<open>exit_window\<close> below.
\<close>

inductive proc_step :: "tid \<Rightarrow> procs \<Rightarrow> procs \<Rightarrow> bool" for idle where
  tick: "sched_softirq_handler (ksched (kern p)) = Some s \<Longrightarrow> proc_step idle p (set_sched s p)"
| yield: "task_yeild (ksched (kern p)) = Some s \<Longrightarrow> proc_step idle p (set_sched s p)"
| block: "cur_task p \<noteq> idle \<Longrightarrow> st = TASK_BLOCKED \<or> st = TASK_STOPPED \<Longrightarrow>
    task_block (ksched (kern p)) st = Some s \<Longrightarrow> proc_step idle p (set_sched s p)"
| wakeup: "t \<in> set (all_tasks p) \<Longrightarrow> task_wakeup (ksched (kern p)) t = Some s \<Longrightarrow> proc_step idle p (set_sched s p)"
| kthread: "t \<notin> set (all_tasks p) \<Longrightarrow> kthread_create p t prio = Some q \<Longrightarrow> proc_step idle p q"
| start: "t \<notin> set (all_tasks p) \<Longrightarrow> \<forall>u \<in> set (all_tasks p). pid_of p u \<noteq> INIT_PROC_PID \<Longrightarrow>
    v \<notin> set (vmm_freed p) \<Longrightarrow> \<forall>u \<in> set (all_tasks p). vmm_ptr p u \<noteq> Some v \<Longrightarrow>
    start_process p t v m = Some q \<Longrightarrow> proc_step idle p q"
| fork: "fresh_env p e \<Longrightarrow> sys_fork p e = Some (r, q) \<Longrightarrow> proc_step idle p q"
| exit: "vmm_ptr p (cur_task p) \<noteq> None \<Longrightarrow> sys_exit p status = Some q \<Longrightarrow> proc_step idle p q"
| wait_return: "vmm_ptr p (cur_task p) \<noteq> None \<Longrightarrow> wait_round p n options = Return m st q \<Longrightarrow> proc_step idle p q"
| wait_sleep: "vmm_ptr p (cur_task p) \<noteq> None \<Longrightarrow> wait_round p n options = Sleep q \<Longrightarrow> wait_block q n = Some r \<Longrightarrow>
    proc_step idle p r"

text \<open>After \<open>init_tasks\<close>: the main thread with pid 0, and pid 1 set aside.\<close>

definition procs_boot :: "tid \<Rightarrow> procs" where
  "procs_boot kmain = \<lparr>kern = \<lparr>ksched = boot kmain, global_list = [kmain], pid = (\<lambda>_. 0), exit_status = (\<lambda>_. 0),
       trig_ptr = (\<lambda>_. None), trigs = (\<lambda>_. \<lparr>blocked = 0, trig_set = 0,
         actions = (\<lambda>_. \<lparr>ta_handler = 0, ta_flags = 0, ta_mask = 0\<rparr>), touchers = (\<lambda>_. -1), tflags = 0\<rparr>),
       user_stack = (\<lambda>_. \<lparr>tf_trig = 0, tf_oldmask = 0,
         tf_trap = \<lparr>eax = 0, eip = 0, esp = 0, cs = 0, ss = 0, dses = [], eflags = 0, regs = []\<rparr>\<rparr>)\<rparr>,
     parent_pid = (\<lambda>_. -1), tgid = (\<lambda>_. 0), thread_flags = (\<lambda>_. 0), vmm_ptr = (\<lambda>_. None), pthread_ptr = (\<lambda>_. None),
     thread_count = (\<lambda>_. 0), fileman = (\<lambda>_. True), gmsgpool = (\<lambda>_. False), sleep_timer = (\<lambda>_. None),
     tmrs = \<lparr>tlist = [], tms = (\<lambda>_. \<lparr>timeout = 0, timer_id = 0\<rparr>), timer_id_next = 1, minim_timeout_val = 0,
       timer_ticks = 0, fired = []\<rparr>, next_pid = 2, vmm_freed = [], wait_pid = (\<lambda>_. 0)\<rparr>"

inductive procs_reachable :: "tid \<Rightarrow> procs \<Rightarrow> bool" for idle where
  init: "procs_reachable idle (procs_boot idle)"
| step: "procs_reachable idle p \<Longrightarrow> proc_step idle p q \<Longrightarrow> procs_reachable idle q"

lemma procs_boot_inv: "procs_inv idle (procs_boot idle)"
proof (rule procs_invI)
  have st: "task_state (procs_boot idle) idle = TASK_RUNNING" by (simp add: procs_boot_def boot_def)
  show "vmms_ok (procs_boot idle)" using st by (simp add: vmms_ok_def exited_def) (simp add: procs_boot_def)
  show "waiting_ok (procs_boot idle)" using st by (simp add: waiting_ok_def) (simp add: procs_boot_def)
qed (simp_all add: procs_boot_def boot_inv [unfolded boot_def] active_def boot_def pids_ok_def parents_ok_def)

lemma proc_step_inv:
  assumes "proc_step idle p q" and inv: "procs_inv idle p"
  shows "procs_inv idle q"
  using assms(1)
proof cases
  case (tick s)
  then show ?thesis
    using quiet_inv [OF inv, of s] tick_quiet [OF procs_invD(1) [OF inv], of s] tick_spec [OF procs_invD(1) [OF inv]]
      procs_invD(2,4) [OF inv] by auto
next
  case (yield s)
  then show ?thesis
    using quiet_inv [OF inv, of s] yield_quiet [OF procs_invD(1) [OF inv], of s] yield_spec [OF procs_invD(1) [OF inv]]
      procs_invD(2,4) [OF inv] by auto
next
  case (block st s)
  then show ?thesis
    using block_inv [OF inv, of st p "wait_pid p (cur_task p)"] by auto
next
  case (wakeup t s)
  then show ?thesis
    using quiet_inv [OF inv, of s] wakeup_quiet [OF procs_invD(1) [OF inv], of t s] procs_invD(2,4) [OF inv] by blast
next
  case (kthread t prio)
  then show ?thesis using kthread_inv [OF inv, of t prio] by auto
next
  case (start t v m)
  then show ?thesis using start_process_inv [OF inv, of t v m] by auto
next
  case (fork e r)
  then show ?thesis using fork_inv [OF inv] by blast
next
  case (exit status)
  then show ?thesis using sys_exit_spec [OF inv, of status] by auto
next
  case (wait_return n options m st)
  then have "cur_task p \<noteq> idle" using procs_invD(3) [OF inv] by auto
  from wait_round_inv [OF inv this, of n options] wait_return show ?thesis by simp
next
  case (wait_sleep n options r)
  then have "cur_task p \<noteq> idle" using procs_invD(3) [OF inv] by auto
  from wait_round_inv [OF inv this, of n options] wait_sleep show ?thesis by auto
qed

lemma procs_reachable_inv: "procs_reachable idle p \<Longrightarrow> procs_inv idle p"
  by (induction rule: procs_reachable.induct) (auto simp: procs_boot_inv intro: proc_step_inv)

lemma user_not_idle: "procs_inv idle p \<Longrightarrow> vmm_ptr p (cur_task p) \<noteq> None \<Longrightarrow> cur_task p \<noteq> idle"
  using procs_invD(3) by auto

lemma wait_late_any:
  assumes inv: "procs_inv idle p"
  shows "{c \<in> set (all_tasks p). zombie_child p (cur_task p) c} \<noteq> {} \<Longrightarrow>
      \<exists>c q. c \<in> set (all_tasks p) \<and> zombie_child p (cur_task p) c \<and> wait_late p options = Return (pid_of p c) None q \<and>
        set (all_tasks q) = {c \<in> set (all_tasks p). \<not> zombie_child p (cur_task p) c}"
    and "{c \<in> set (all_tasks p). zombie_child p (cur_task p) c} = {} \<Longrightarrow>
      wait_late p options = (if {c \<in> set (all_tasks p). parent_pid p c = pid_of p (cur_task p)} = {} then Return (-1) None p
        else if options AND WNOHANG \<noteq> 0 then Return 0 None p else Sleep p)"
proof -
  note D = procs_invD [OF inv]
  let ?t = "cur_task p"
  have res: "fst (deal_zombie_child p ?t) = (case List.find (zombie_child p ?t) (all_tasks p) of None \<Rightarrow> -1 | Some c \<Rightarrow> pid_of p c)"
    by (rule deal_zombie_result [OF inv])
  show "\<exists>c q. c \<in> set (all_tasks p) \<and> zombie_child p ?t c \<and> wait_late p options = Return (pid_of p c) None q \<and>
        set (all_tasks q) = {c \<in> set (all_tasks p). \<not> zombie_child p ?t c}"
    if ne: "{c \<in> set (all_tasks p). zombie_child p ?t c} \<noteq> {}"
  proof -
    from ne obtain c where c: "List.find (zombie_child p ?t) (all_tasks p) = Some c"
      by (cases "List.find (zombie_child p ?t) (all_tasks p)") (auto simp: find_None_iff)
    note cs = find_in_list [OF c]
    have "c \<noteq> idle" using cs active_states [OF D(1,2)] by (auto simp: zombie_child_def)
    moreover have "idle \<in> set (all_tasks p)" using D(2,4) by blast
    ultimately have "pid_of p c > 0"
      using D(3,5) cs pid_eq [OF D(5), of c idle] by (auto simp: pids_ok_def order_le_less)
    then have "wait_late p options = Return (pid_of p c) None (snd (deal_zombie_child p ?t))"
      using res c by (cases "deal_zombie_child p ?t") (simp add: wait_late_def)
    with cs deal_zombie_inv(2) [OF inv] show ?thesis by blast
  qed
  show "wait_late p options = (if {c \<in> set (all_tasks p). parent_pid p c = pid_of p ?t} = {} then Return (-1) None p
        else if options AND WNOHANG \<noteq> 0 then Return 0 None p else Sleep p)"
    if "{c \<in> set (all_tasks p). zombie_child p ?t c} = {}"
  proof -
    have nz: "\<not> zombie_child p ?t c" if "c \<in> set (all_tasks p)" for c using that \<open>_ = {}\<close> by auto
    have "zombie_loop p ?t ts z = (z, p)" if "set ts \<subseteq> set (all_tasks p)" for ts z
      using that nz by (induction ts) (auto simp: zombie_child_def)
    then have dz: "deal_zombie_child p ?t = (-1, p)" by (simp add: deal_zombie_child_def)
    have "find_child_proc p ?t = 0 \<longleftrightarrow> {c \<in> set (all_tasks p). parent_pid p c = pid_of p ?t} = {}"
      using D(5) by (auto simp: find_child_proc_def filter_empty_conv IN_SINGAL_THREAD_def pids_ok_def)
    with dz show ?thesis by (simp add: wait_late_def)
  qed
qed

subsection \<open>A run\<close>

text \<open>The main thread 0 starts init (task 1, pid 1), init forks task 2 (pid 3), which exits after two switches.\<close>

definition yield_p :: "procs \<Rightarrow> procs" where
  "yield_p p = set_sched (the (task_yeild (ksched (kern p)))) p"

definition demo_env :: fork_env where
  "demo_env = \<lparr>fe_task = Some 2, fe_vmm = Some 2, fe_mapping = True, fe_triggers = Some 2, fe_desc = None, fe_files = True\<rparr>"

definition demo_init :: procs where
  "demo_init = yield_p (yield_p (the (start_process (procs_boot 0) 1 1 1)))"

definition demo_parent :: procs where
  "demo_parent = snd (the (sys_fork demo_init demo_env))"

definition demo_child :: procs where
  "demo_child = yield_p (yield_p demo_parent)"

definition demo_zombie :: procs where
  "demo_zombie = the (sys_exit demo_child 7)"

lemma yield_p_reach: "procs_reachable idle p \<Longrightarrow> procs_reachable idle (yield_p p) \<and> proc_step idle p (yield_p p)"
proof -
  assume r: "procs_reachable idle p"
  obtain s where "task_yeild (ksched (kern p)) = Some s"
    using yield_spec [OF procs_invD(1) [OF procs_reachable_inv [OF r]]] by blast
  then have "proc_step idle p (yield_p p)" by (simp only: yield_p_def option.sel proc_step.yield)
  with r show ?thesis by (blast intro: procs_reachable.step)
qed

lemma demo_init_reach: "procs_reachable 0 demo_init"
proof -
  have "start_process (procs_boot 0) 1 1 1 = Some (the (start_process (procs_boot 0) 1 1 1))"
    using start_process_inv [OF procs_boot_inv, of 1 0 1 1] by (auto simp: procs_boot_def INIT_PROC_PID_def)
  then have "procs_reachable 0 (the (start_process (procs_boot 0) 1 1 1))"
    by (intro procs_reachable.step [OF procs_reachable.init] proc_step.start [of 1 "procs_boot 0" 1 1])
      (auto simp: procs_boot_def INIT_PROC_PID_def)
  then show ?thesis unfolding demo_init_def using yield_p_reach by blast
qed

definition view :: "procs \<Rightarrow> _" where
  "view p = (cur_task p, all_tasks p, map (pid (kern p)) [0, 1, 2], map (parent_pid p) [0, 1, 2],
     map (task_state p) [0, 1, 2], map (vmm_ptr p) [0, 1, 2], vmm_freed p)"

lemma demo_run:
  "view demo_init = (1, [0, 1], [0, 1, 0], [-1, -1, -1], [TASK_READY, TASK_RUNNING, TASK_ZOMBIE], [None, Some 1, None], [])"
  "\<not> Option.is_none (sys_fork demo_init demo_env)"
  "view demo_parent = (1, [0, 1, 2], [0, 1, 3], [-1, -1, 1], [TASK_READY, TASK_RUNNING, TASK_READY], [None, Some 1, Some 2], [])"
  "view demo_child = (2, [0, 1, 2], [0, 1, 3], [-1, -1, 1], [TASK_READY, TASK_READY, TASK_RUNNING], [None, Some 1, Some 2], [])"
  "view demo_zombie = (1, [0, 1, 2], [0, 1, 3], [-1, -1, 1], [TASK_READY, TASK_RUNNING, TASK_ZOMBIE], [None, Some 1, Some 2], [])"
  by code_simp+

lemmas demo_views = demo_run(1,3-5) [unfolded view_def, simplified]

lemma demo_parent_reach: "procs_reachable 0 demo_parent"
proof -
  obtain r q where f: "sys_fork demo_init demo_env = Some (r, q)" using demo_run(2) by (auto simp: Option.is_none_def)
  have "fresh_env demo_init demo_env" using demo_views(1) by (auto simp: fresh_env_def demo_env_def)
  with f have "proc_step 0 demo_init q" by (blast intro: proc_step.fork)
  with f demo_init_reach show ?thesis by (auto simp: demo_parent_def intro: procs_reachable.step)
qed

lemma demo_zombie_steps: "procs_reachable 0 demo_zombie \<and> (proc_step 0)\<^sup>*\<^sup>* demo_parent demo_zombie"
proof -
  let ?p = "yield_p demo_parent"
  have r: "procs_reachable 0 ?p" "proc_step 0 demo_parent ?p" using yield_p_reach [OF demo_parent_reach] by auto
  then have c: "procs_reachable 0 demo_child" "proc_step 0 ?p demo_child" using yield_p_reach [OF r(1)] by (auto simp: demo_child_def)
  have u: "vmm_ptr demo_child (cur_task demo_child) \<noteq> None" using demo_views(3) by simp
  then have "sys_exit demo_child 7 = Some demo_zombie"
    using sys_exit_spec [OF procs_reachable_inv [OF c(1)], of 7] by (auto simp: demo_zombie_def)
  then have "proc_step 0 demo_child demo_zombie" using u by (rule proc_step.exit [rotated])
  then show ?thesis using r c by (meson procs_reachable.step r_into_rtranclp rtranclp.rtrancl_into_rtrancl)
qed

subsection \<open>Properties\<close>



text \<open>
  C23. \<open>waitpid(-1, status, options)\<close>, case by case. A child that hangs is returned with its status and is
  the only task that is removed. Otherwise, if there are zombies, the pid of one of them is returned, but
  all of them are removed, and no status is written. Otherwise nothing changes: the call fails without a
  child, returns 0 with \<open>WNOHANG\<close>, and sleeps without it.
\<close>

theorem waitpid_any:
  assumes "procs_reachable idle p"
  defines "kids \<equiv> {c \<in> set (all_tasks p). parent_pid p c = pid_of p (cur_task p)}"
  defines "hung \<equiv> {c \<in> kids. task_state p c = TASK_HANGING}"
  defines "zombies \<equiv> {c \<in> kids. task_state p c = TASK_ZOMBIE}"
  shows "if hung \<noteq> {} then \<exists>c q. c \<in> hung \<and> wait_round p (-1) options = Return (pid_of p c) (Some (exit_status (kern p) c)) q \<and>
        set (all_tasks q) = set (all_tasks p) - {c}
    else if zombies \<noteq> {} then \<exists>c q. c \<in> zombies \<and> wait_round p (-1) options = Return (pid_of p c) None q \<and>
        set (all_tasks q) = set (all_tasks p) - zombies
    else wait_round p (-1) options = (if kids = {} then Return (-1) None p
        else if options AND WNOHANG \<noteq> 0 then Return 0 None p else Sleep p)"
proof (cases rule: wait_round_cases [OF procs_reachable_inv [OF assms(1)], of "-1" options])
  case (1 c)
  note D = procs_invD [OF procs_reachable_inv [OF assms(1)]]
  have "vmm_ptr p c \<noteq> None" using D(8) 1 by (auto simp: vmms_ok_def exited_def)
  then have "set (all_tasks (reap p c)) = set (all_tasks p) - {c}" using D(5) by (auto simp: reap_list pids_ok_def)
  moreover have "c \<in> hung" using 1 by (simp add: hung_def kids_def)
  ultimately show ?thesis using 1(1) by auto
next
  case 2
  have "hung = {}" using 2(2) by (auto simp: hung_def kids_def)
  moreover have z: "zombies = {c \<in> set (all_tasks p). zombie_child p (cur_task p) c}"
    by (auto simp: zombies_def kids_def zombie_child_def)
  moreover have "set (all_tasks p) - zombies = {c \<in> set (all_tasks p). \<not> zombie_child p (cur_task p) c}" by (auto simp: z)
  ultimately show ?thesis
    using wait_late_any [OF procs_reachable_inv [OF assms(1)], of options] 2(1) by (auto simp: kids_def)
qed

theorem waitpid_any_witness:
  "\<exists>q. wait_round demo_zombie (-1) 0 = Return 3 None q \<and> set (all_tasks q) = {0, 1}"
proof -
  have k: "{c \<in> set (all_tasks demo_zombie). parent_pid demo_zombie c = pid_of demo_zombie (cur_task demo_zombie)} = {2}"
    using demo_views(4) by auto
  have s: "task_state demo_zombie 2 = TASK_ZOMBIE" "pid_of demo_zombie 2 = 3" "set (all_tasks demo_zombie) = {0, 1, 2}"
    using demo_views(4) by auto
  show ?thesis
    using waitpid_any [OF demo_zombie_steps [THEN conjunct1], of 0, unfolded k] s by (auto simp: insert_Diff_if)
qed

definition demo_waiting :: procs where
  "demo_waiting = yield_p (the (wait_block demo_parent (-1)))"

lemma demo_waiting_run:
  "view demo_waiting = (2, [0, 1, 2], [0, 1, 3], [-1, -1, 1], [TASK_READY, TASK_WAITING, TASK_RUNNING], [None, Some 1, Some 2], [])"
  "map_option exit_parent (exit_begin demo_waiting 0) = Some (Some 1)"
  by code_simp+

lemma demo_parent_sleeps: "wait_round demo_parent (-1) 0 = Sleep demo_parent"
proof -
  have k: "{c \<in> set (all_tasks demo_parent). parent_pid demo_parent c = pid_of demo_parent (cur_task demo_parent)} = {2}"
    using demo_views(2) by auto
  have "{c \<in> set (all_tasks demo_parent). zombie_child demo_parent (cur_task demo_parent) c} = {}"
    using k demo_views(2) by (auto simp: zombie_child_def)
  note L = wait_late_any(2) [OF procs_reachable_inv [OF demo_parent_reach] this, of 0, unfolded k]
  show ?thesis
    by (cases rule: wait_round_cases [OF procs_reachable_inv [OF demo_parent_reach], of "-1" 0])
      (use L demo_views(2) in auto)
qed

lemma demo_waiting_reach: "procs_reachable 0 demo_waiting"
proof -
  note inv = procs_reachable_inv [OF demo_parent_reach]
  have u: "vmm_ptr demo_parent (cur_task demo_parent) \<noteq> None" using demo_views(2) by simp
  obtain r where r: "wait_block demo_parent (-1) = Some r"
    using wait_round_inv [OF inv user_not_idle [OF inv u], of "-1" 0] demo_parent_sleeps by auto
  have "procs_reachable 0 r"
    by (rule procs_reachable.step [OF demo_parent_reach proc_step.wait_sleep [OF u demo_parent_sleeps r]])
  then show ?thesis using yield_p_reach r by (simp add: demo_waiting_def)
qed

text \<open>
  What the windows between \<open>restore_intr\<close> and the switch allow. First, a parent that has found no exited
  child goes on to sleep although its child has exited in the meantime: it waits for a child that is a
  zombie already. Second, a child that has found its parent waiting panics when it wakes the parent,
  if anything else has woken the parent in the meantime.
\<close>

theorem exit_window:
  "(\<exists>p q r. procs_reachable 0 p \<and> wait_round p (-1) 0 = Sleep p \<and> (proc_step 0)\<^sup>*\<^sup>* p q \<and> cur_task q = cur_task p \<and>
      wait_block q (-1) = Some r \<and> task_state r (cur_task p) = TASK_WAITING \<and>
      map (task_state r) (filter (\<lambda>c. parent_pid r c = pid_of r (cur_task p)) (all_tasks r)) = [TASK_ZOMBIE]) \<and>
   (\<exists>p q t. procs_reachable 0 p \<and> vmm_ptr p (cur_task p) \<noteq> None \<and> exit_begin p 0 = Some q \<and> exit_parent q = Some t \<and>
      (\<exists>s. proc_step 0 q s \<and> cur_task s = cur_task q \<and> exit_wake s t = None))"
proof
  note Z = demo_zombie_steps
  note inv = procs_reachable_inv [OF demo_parent_reach]
  note demo_parent_sleeps
  moreover obtain s where s: "task_block (ksched (kern demo_zombie)) TASK_WAITING = Some s"
    "state (tasks s 1) = TASK_WAITING" "state (tasks s 2) = TASK_ZOMBIE"
  proof -
    note invz = procs_reachable_inv [OF Z [THEN conjunct1]]
    obtain s where "task_block (ksched (kern demo_zombie)) TASK_WAITING = Some s"
      using block_some [OF procs_invD(1,2) [OF invz], of TASK_WAITING] demo_views(4) by auto
    with block_states [OF procs_invD(1) [OF invz] this] demo_views(4) show ?thesis by (intro that [of s]) auto
  qed
  ultimately show "\<exists>p q r. procs_reachable 0 p \<and> wait_round p (-1) 0 = Sleep p \<and> (proc_step 0)\<^sup>*\<^sup>* p q \<and> cur_task q = cur_task p \<and>
      wait_block q (-1) = Some r \<and> task_state r (cur_task p) = TASK_WAITING \<and>
      map (task_state r) (filter (\<lambda>c. parent_pid r c = pid_of r (cur_task p)) (all_tasks r)) = [TASK_ZOMBIE]"
    using demo_parent_reach Z demo_views(2,4)
    by (intro exI [of _ demo_parent] exI [of _ demo_zombie]
        exI [of _ "set_sched s (demo_zombie\<lparr>wait_pid := (wait_pid demo_zombie)(1 := -1)\<rparr>)"])
      (simp add: wait_block_def)
next
  show "\<exists>p q t. procs_reachable 0 p \<and> vmm_ptr p (cur_task p) \<noteq> None \<and> exit_begin p 0 = Some q \<and> exit_parent q = Some t \<and>
      (\<exists>s. proc_step 0 q s \<and> cur_task s = cur_task q \<and> exit_wake s t = None)"
  proof -
    note V = demo_waiting_run(1) [unfolded view_def, simplified]
    note inv = procs_reachable_inv [OF demo_waiting_reach]
    obtain q where q: "exit_begin demo_waiting 0 = Some q" "procs_inv 0 q" "ksched (kern q) = ksched (kern demo_waiting)"
      "set (all_tasks q) = {c \<in> set (all_tasks demo_waiting). \<not> zombie_child demo_waiting (cur_task demo_waiting) c}"
      using exit_begin_spec [OF inv, of 0] by blast
    have par: "exit_parent q = Some 1" using demo_waiting_run(2) q(1) by simp
    have t: "1 \<in> set (all_tasks q)" "task_state q 1 = TASK_WAITING" using q(3,4) V by (auto simp: zombie_child_def)
    obtain s where s: "task_wakeup (ksched (kern q)) 1 = Some s"
      using wakeup_spec [OF procs_invD(1) [OF q(2)], of 1] by auto
    note W = wakeup_quiet [OF procs_invD(1) [OF q(2)] s]
    have "proc_step 0 q (set_sched s q)" using t(1) s by (rule proc_step.wakeup)
    moreover have "exit_wake (set_sched s q) 1 = None" using W(5) t(2) by (simp add: exit_wake_def task_unblock_def)
    ultimately show ?thesis
      using demo_waiting_reach q(1) par W(6) V
      by (intro exI [of _ demo_waiting] exI [of _ q] exI [of _ 1] conjI exI [of _ "set_sched s q"]) simp_all
  qed
qed

end
