(* ===== verification/Pthread.thy ===== *)
theory Pthread
  imports ProcSafe
begin

section \<open>Threads\<close>

text \<open>
  \<open>src/src/task/pthread.c\<close> on the state of the theory \<open>Process\<close>. A thread is a task that shares the
  address space, the triggers, the files and the thread descriptor of the task that created it. As in
  \<open>Process\<close>, a function that sleeps is cut where it does, and \<open>None\<close> is a panic or a \<open>NULL\<close> access.
\<close>

definition THREAD_FLAG_DETACH :: u32 where "THREAD_FLAG_DETACH = push_bit 0 1"
definition THREAD_FLAG_JOINED :: u32 where "THREAD_FLAG_JOINED = push_bit 1 1"
definition THREAD_FLAG_JOINING :: u32 where "THREAD_FLAG_JOINING = push_bit 2 1"
definition THREAD_FLAG_CANCEL_DISABLE :: u32 where "THREAD_FLAG_CANCEL_DISABLE = push_bit 3 1"
definition THREAD_FLAG_CANCEL_ASYCHRONOUS :: u32 where "THREAD_FLAG_CANCEL_ASYCHRONOUS = push_bit 4 1"
definition THREAD_FLAG_CANCELED :: u32 where "THREAD_FLAG_CANCELED = push_bit 5 1"
definition PTHREAD_MAX_NR :: int where "PTHREAD_MAX_NR = 32"
definition PTHREAD_CANCEL_ENABLE :: int where "PTHREAD_CANCEL_ENABLE = 1"
definition PTHREAD_CANCEL_DISABLE :: int where "PTHREAD_CANCEL_DISABLE = 0"
definition PTHREAD_CANCEL_DEFFERED :: int where "PTHREAD_CANCEL_DEFFERED = 2"
definition PTHREAD_CANCEL_ASYCHRONOUS :: int where "PTHREAD_CANCEL_ASYCHRONOUS = 3"

definition has_flag :: "procs \<Rightarrow> tid \<Rightarrow> u32 \<Rightarrow> bool" where
  "has_flag p t f \<longleftrightarrow> thread_flags p t AND f \<noteq> 0"

definition set_flag :: "tid \<Rightarrow> u32 \<Rightarrow> procs \<Rightarrow> procs" where
  "set_flag t f p = p\<lparr>thread_flags := (thread_flags p)(t := thread_flags p t OR f)\<rparr>"

definition clear_flag :: "tid \<Rightarrow> u32 \<Rightarrow> procs \<Rightarrow> procs" where
  "clear_flag t f p = p\<lparr>thread_flags := (thread_flags p)(t := thread_flags p t AND NOT f)\<rparr>"

subsection \<open>Creating\<close>

definition pthread_desc_init :: "nat \<Rightarrow> procs \<Rightarrow> procs" where
  "pthread_desc_init d p = p\<lparr>thread_count := (thread_count p)(d := 1)\<rparr>"

definition proc_pthread_init :: "procs \<Rightarrow> tid \<Rightarrow> nat option \<Rightarrow> int \<times> procs" where
  "proc_pthread_init p t d =
     (case d of None \<Rightarrow> (-1, p\<lparr>pthread_ptr := (pthread_ptr p)(t := None)\<rparr>)
      | Some d \<Rightarrow> (0, pthread_desc_init d (p\<lparr>pthread_ptr := (pthread_ptr p)(t := Some d)\<rparr>)))"

text \<open>\<open>d\<close> and \<open>c\<close> are what the two \<open>kmalloc\<close> return; the result is the new task, \<open>None\<close> for \<open>NULL\<close>.\<close>

definition thread_share :: "procs \<Rightarrow> tid \<Rightarrow> tid \<Rightarrow> bool \<Rightarrow> procs" where
  "thread_share p c parent detached =
     (let p = task_setup p c TASK_PRIO_USER;
          p = p\<lparr>tgid := (tgid p)(c := if tgid p parent = pid_of p parent then pid_of p parent else tgid p parent),
                parent_pid := (parent_pid p)(c := pid_of p parent), pthread_ptr := (pthread_ptr p)(c := pthread_ptr p parent),
                vmm_ptr := (vmm_ptr p)(c := vmm_ptr p parent), fileman := (fileman p)(c := fileman p parent),
                kern := (kern p)\<lparr>trig_ptr := (trig_ptr (kern p))(c := trig_ptr (kern p) parent)\<rparr>\<rparr>
      in if detached then set_flag c THREAD_FLAG_DETACH p else p)"

definition thread_publish :: "procs \<Rightarrow> tid \<Rightarrow> (tid option \<times> procs) option" where
  "thread_publish p c =
     (case pthread_ptr p c of None \<Rightarrow> None
      | Some d \<Rightarrow> let n = thread_count p d + 1
          in if n > PTHREAD_MAX_NR then Some (None, p)
             else map_option (\<lambda>p. (Some c, p)) (task_publish (p\<lparr>thread_count := (thread_count p)(d := n)\<rparr>) c))"

definition pthread_start :: "procs \<Rightarrow> nat option \<Rightarrow> tid option \<Rightarrow> bool \<Rightarrow> (tid option \<times> procs) option" where
  "pthread_start p d c detached =
     (let parent = cur_task p;
          (r, p) = (if pthread_ptr p parent = None then proc_pthread_init p parent d else (0, p))
      in if r \<noteq> 0 then Some (None, p)
         else case c of None \<Rightarrow> Some (None, p)
         | Some c \<Rightarrow> thread_publish (thread_share p c parent detached) c)"

text \<open>\<open>None\<close> as the attributes is a \<open>NULL\<close> pointer.\<close>

definition sys_thread_create :: "procs \<Rightarrow> bool option \<Rightarrow> nat option \<Rightarrow> tid option \<Rightarrow> (int \<times> procs) option" where
  "sys_thread_create p attr d c =
     (case attr of None \<Rightarrow> Some (-1, p)
      | Some detached \<Rightarrow> map_option (\<lambda>(r, p). (case r of None \<Rightarrow> -1 | Some t \<Rightarrow> pid_of p t, p)) (pthread_start p d c detached))"

subsection \<open>Exit\<close>

text \<open>A joined thread that is detached lets its joiner go.\<close>

definition release_joiner :: "procs \<Rightarrow> tid \<Rightarrow> procs option" where
  "release_joiner p t =
     (if has_flag p t THREAD_FLAG_JOINED
      then case find_task_by_pid (kern p) (parent_pid p t) of None \<Rightarrow> Some p
        | Some parent \<Rightarrow> if task_state p parent = TASK_WAITING \<and> tgid p parent = tgid p t
            then exit_wake (clear_flag parent THREAD_FLAG_JOINING p) parent else Some p
      else Some p)"

definition pthread_leave :: "procs \<Rightarrow> int \<Rightarrow> procs option" where
  "pthread_leave p status =
     (let t = cur_task p
      in case thread_release_resource (set_exit_status t status p) t of None \<Rightarrow> None
         | Some p \<Rightarrow> if has_flag p t THREAD_FLAG_DETACH
             then map_option (\<lambda>p. p\<lparr>parent_pid := (parent_pid p)(t := INIT_PROC_PID)\<rparr>) (release_joiner p t)
             else Some p)"

definition pthread_exit :: "procs \<Rightarrow> int \<Rightarrow> procs option" where
  "pthread_exit p status =
     (case pthread_ptr p (cur_task p) of None \<Rightarrow> None
      | Some d \<Rightarrow> let p = p\<lparr>thread_count := (thread_count p)(d := thread_count p d - 1)\<rparr>
          in if thread_count p d = 0 then sys_exit p status
             else case pthread_leave p status of None \<Rightarrow> None | Some p \<Rightarrow> exit_end p)"

subsection \<open>Joining\<close>

definition sys_thread_detach :: "procs \<Rightarrow> int \<Rightarrow> (int \<times> procs) option" where
  "sys_thread_detach p thread =
     (case find_task_by_pid (kern p) thread of None \<Rightarrow> Some (-1, p)
      | Some t \<Rightarrow> map_option (\<lambda>p. (0, p)) (release_joiner (set_flag t THREAD_FLAG_DETACH p) t))"

definition wait_one_hangging_thread :: "procs \<Rightarrow> int \<Rightarrow> int \<times> int option \<times> procs" where
  "wait_one_hangging_thread p n =
     (case List.find (\<lambda>c. pid_of p c = n \<and> task_state p c = TASK_HANGING) (all_tasks p) of
        None \<Rightarrow> (-1, None, p)
      | Some c \<Rightarrow> (n, Some (exit_status (kern p) c), snd (proc_destroy p c True)))"

text \<open>The checks of \<open>pthread_join\<close>; \<open>Inr\<close> goes on to the loop.\<close>

definition join_begin :: "procs \<Rightarrow> int \<Rightarrow> int + procs" where
  "join_begin p thread =
     (case List.find (\<lambda>t. pid_of p t = thread \<and> task_state p t \<noteq> TASK_ZOMBIE) (all_tasks p) of
        None \<Rightarrow> Inl (-1)
      | Some t \<Rightarrow> if has_flag p t THREAD_FLAG_DETACH then Inl (-1)
          else if has_flag p t THREAD_FLAG_JOINED then Inl (-1)
          else let p = set_flag t THREAD_FLAG_JOINED p;
                   p = p\<lparr>parent_pid := (parent_pid p)(t := pid_of p (cur_task p))\<rparr>
               in Inr (set_flag (cur_task p) THREAD_FLAG_JOINING p))"

text \<open>A round of the loop: the call returns 0 and the status, or it sleeps and tries again.\<close>

definition join_round :: "procs \<Rightarrow> int \<Rightarrow> wait_result" where
  "join_round p thread =
     (let (n, st, p) = wait_one_hangging_thread p thread; status = (case st of None \<Rightarrow> 0 | Some s \<Rightarrow> s)
      in if n = thread then Return 0 (Some status) p
         else if \<not> has_flag p (cur_task p) THREAD_FLAG_JOINING then Return 0 (Some status) p
         else Sleep p)"

definition pthread_join :: "procs \<Rightarrow> int \<Rightarrow> wait_result" where
  "pthread_join p thread = (case join_begin p thread of Inl r \<Rightarrow> Return r None p | Inr p \<Rightarrow> join_round p thread)"

subsection \<open>Cancelling\<close>

definition cancel_pending :: "procs \<Rightarrow> tid \<Rightarrow> bool" where
  "cancel_pending p t \<longleftrightarrow> \<not> has_flag p t THREAD_FLAG_CANCEL_DISABLE \<and> has_flag p t THREAD_FLAG_CANCELED"

text \<open>The cancellation point at the start of a call that may sleep, and \<open>sys_thread_testcancel\<close>.\<close>

definition sys_thread_testcancel :: "procs \<Rightarrow> procs option" where
  "sys_thread_testcancel p =
     (if cancel_pending p (cur_task p) then pthread_exit p (uint THREAD_FLAG_CANCELED) else Some p)"

definition sys_thread_cancel :: "procs \<Rightarrow> int \<Rightarrow> (int \<times> procs) option" where
  "sys_thread_cancel p thread =
     (case find_task_by_pid (kern p) thread of None \<Rightarrow> Some (-1, p)
      | Some t \<Rightarrow> let p = set_flag t THREAD_FLAG_CANCELED p
          in if has_flag p t THREAD_FLAG_CANCEL_ASYCHRONOUS
             then map_option (\<lambda>p. (0, p)) (if t = cur_task p then pthread_exit p (uint THREAD_FLAG_CANCEL_ASYCHRONOUS)
               else close_one_thread p t)
             else Some (0, p))"

definition sys_thread_setcancelstate :: "procs \<Rightarrow> int \<Rightarrow> int \<times> int \<times> procs" where
  "sys_thread_setcancelstate p st =
     (let t = cur_task p;
          old = (if has_flag p t THREAD_FLAG_CANCEL_DISABLE then PTHREAD_CANCEL_DISABLE else PTHREAD_CANCEL_ENABLE)
      in if st = PTHREAD_CANCEL_DISABLE then (0, old, set_flag t THREAD_FLAG_CANCEL_DISABLE p)
         else if st = PTHREAD_CANCEL_ENABLE then (0, old, clear_flag t THREAD_FLAG_CANCEL_DISABLE p)
         else (-1, old, p))"

definition sys_thread_setcanceltype :: "procs \<Rightarrow> int \<Rightarrow> int \<times> int \<times> procs" where
  "sys_thread_setcanceltype p ty =
     (let t = cur_task p;
          old = (if has_flag p t THREAD_FLAG_CANCEL_ASYCHRONOUS then PTHREAD_CANCEL_ASYCHRONOUS else PTHREAD_CANCEL_DEFFERED)
      in if ty = PTHREAD_CANCEL_ASYCHRONOUS then (0, old, set_flag t THREAD_FLAG_CANCEL_ASYCHRONOUS p)
         else if ty = PTHREAD_CANCEL_DEFFERED then (0, old, clear_flag t THREAD_FLAG_CANCEL_ASYCHRONOUS p)
         else (-1, old, p))"

subsection \<open>Counting threads\<close>

definition members :: "procs \<Rightarrow> nat \<Rightarrow> tid set" where
  "members p d = {t \<in> set (all_tasks p). pthread_ptr p t = Some d \<and> \<not> exited p t}"

lemma thread_share_fields:
  "ksched (kern (thread_share p c t det)) = upd_task c (\<lambda>_. task_init TASK_PRIO_USER) (ksched (kern p))"
  "all_tasks (thread_share p c t det) = all_tasks p" "pid (kern (thread_share p c t det)) = (pid (kern p))(c := next_pid p)"
  "c \<noteq> t \<Longrightarrow> pthread_ptr (thread_share p c t det) = (pthread_ptr p)(c := pthread_ptr p t)"
  "c \<noteq> t \<Longrightarrow> vmm_ptr (thread_share p c t det) = (vmm_ptr p)(c := vmm_ptr p t)"
  "thread_count (thread_share p c t det) = thread_count p"
  by (simp_all add: thread_share_def set_flag_def Let_def task_setup_def new_pid_def)

lemma thread_create_spec:
  assumes inv: "sched_inv (ksched (kern p))" and act: "active (ksched (kern p)) \<subseteq> set (all_tasks p)" and c: "c \<notin> set (all_tasks p)"
    and d: "pthread_ptr p (cur_task p) = Some d \<and> n = thread_count p d \<or> pthread_ptr p (cur_task p) = None \<and> dd = Some d \<and> n = 1"
  shows "\<exists>q. sys_thread_create p (Some det) dd (Some c) = Some (if n < 32 then next_pid p else -1, q) \<and>
    sched_inv (ksched (kern q)) \<and> thread_count q d = (if n < 32 then n + 1 else n) \<and>
    all_tasks q = (if n < 32 then all_tasks p @ [c] else all_tasks p) \<and>
    pthread_ptr q = (pthread_ptr p)(cur_task p := Some d, c := Some d) \<and> vmm_ptr q = (vmm_ptr p)(c := vmm_ptr p (cur_task p)) \<and>
    (\<forall>u. task_state q u = (if u = c then TASK_READY else task_state p u)) \<and>
    active (ksched (kern p)) \<subseteq> active (ksched (kern q)) \<and> active (ksched (kern q)) \<subseteq> set (all_tasks q)"
proof -
  let ?t = "cur_task p"
  have nc: "c \<notin> active (ksched (kern p))" "c \<noteq> ?t" using c act by (auto simp: active_def)
  define p1 where "p1 = (if pthread_ptr p ?t = None then snd (proc_pthread_init p ?t dd) else p)"
  have p1: "kern p1 = kern p" "vmm_ptr p1 = vmm_ptr p" "next_pid p1 = next_pid p" "thread_count p1 d = n"
    "pthread_ptr p1 = (pthread_ptr p)(?t := Some d)"
    using d by (auto simp: p1_def proc_pthread_init_def pthread_desc_init_def fun_upd_idem)
  let ?s = "thread_share p1 c ?t det"
  have F: "ksched (kern ?s) = upd_task c (\<lambda>_. task_init TASK_PRIO_USER) (ksched (kern p))" "all_tasks ?s = all_tasks p"
    "pid_of ?s c = next_pid p" "pthread_ptr ?s = (pthread_ptr p)(?t := Some d, c := Some d)"
    "vmm_ptr ?s = (vmm_ptr p)(c := vmm_ptr p ?t)" "thread_count ?s d = n"
    using nc(2) by (simp_all add: thread_share_fields p1)
  have start: "pthread_start p dd (Some c) det = thread_publish ?s c"
    using d by (auto simp: pthread_start_def p1_def proc_pthread_init_def Let_def)
  note S = sched_fill [OF inv nc(1) task_init_ok, of TASK_PRIO_USER, folded F(1)]
  show ?thesis
  proof (cases "n < 32")
    case False
    then have "thread_publish ?s c = Some (None, ?s)" by (simp add: thread_publish_def F PTHREAD_MAX_NR_def)
    with start S False F act show ?thesis by (simp add: sys_thread_create_def task_init_ok)
  next
    case True
    let ?q = "?s\<lparr>thread_count := (thread_count ?s)(d := n + 1)\<rparr>"
    have ck: "sched_inv (ksched (kern ?q))" "c \<notin> active (ksched (kern ?q))" "c \<notin> set (all_tasks ?q)" "task_state ?q c = TASK_READY"
      using S nc(1) c F(1,2) by (simp_all add: task_init_ok)
    note P = sched_publish [OF ck]
    have "thread_publish ?s c = Some (Some c, set_sched (enq (ksched (kern ?q)) c) (set_list (all_tasks ?q @ [c]) ?q))"
      using True P(1) by (simp add: thread_publish_def F PTHREAD_MAX_NR_def)
    with start P(2,3) S(2) act True F show ?thesis by (auto simp: sys_thread_create_def task_init_ok)
  qed
qed

text \<open>What a thread that exits, not being the last, does to the scheduler.\<close>

definition same_tasks :: "procs \<Rightarrow> procs \<Rightarrow> bool" where
  "same_tasks p q \<longleftrightarrow> global_list (kern q) = global_list (kern p) \<and> pid (kern q) = pid (kern p) \<and>
     exit_status (kern q) = exit_status (kern p) \<and> pthread_ptr q = pthread_ptr p \<and> thread_count q = thread_count p \<and>
     vmm_ptr q = vmm_ptr p \<and> vmm_freed q = vmm_freed p"

lemma exit_wake_spec:
  assumes inv: "sched_inv (ksched (kern p))" and t: "task_state p t = TASK_WAITING"
  shows "\<exists>s. exit_wake p t = Some (set_sched s p) \<and> sched_inv s \<and> quiet (ksched (kern p)) s \<and> cur s = cur_task p \<and>
    active (ksched (kern p)) \<subseteq> active s \<and> state (tasks s t) = TASK_READY"
proof -
  obtain s where w: "task_wakeup (ksched (kern p)) t = Some s" using wakeup_spec [OF inv, of t] by auto
  then have "task_unblock (ksched (kern p)) t = Some s" using t by (simp add: task_wakeup_def)
  with wakeup_quiet [OF inv w] t show ?thesis by (auto simp: exit_wake_def)
qed

lemma quiet_trans: "quiet a b \<Longrightarrow> quiet b c \<Longrightarrow> quiet a c"
  unfolding quiet_def Let_def by (metis insert_iff)

lemma quiet_refl [simp]: "quiet a a"
  by (simp add: quiet_def)

lemma exit_end_states:
  assumes inv: "sched_inv (ksched (kern p))" "idle \<in> active (ksched (kern p))" "cur_task p \<noteq> idle"
  shows "\<exists>q st. exit_end p = Some q \<and> same_tasks p q \<and> sched_inv (ksched (kern q)) \<and>
    st = (if exit_parent p = None then TASK_ZOMBIE else TASK_HANGING) \<and> task_state q (cur_task p) = st \<and>
    (\<forall>u. u \<noteq> cur_task p \<longrightarrow> exited q u = exited p u) \<and>
    (\<forall>t. exit_parent p = Some t \<longrightarrow> task_state q t \<in> {TASK_READY, TASK_RUNNING})"
proof -
  have blk: "\<exists>s. task_block (ksched (kern r)) st = Some s \<and> sched_inv s \<and> state (tasks s (cur_task r)) = st \<and>
      (\<forall>u. u \<noteq> cur_task r \<longrightarrow> exited (set_sched s r) u = exited r u) \<and>
      (\<forall>u. u \<noteq> cur_task r \<longrightarrow> task_state r u = TASK_READY \<longrightarrow> state (tasks s u) \<in> {TASK_READY, TASK_RUNNING})"
    if r: "sched_inv (ksched (kern r))" "idle \<in> active (ksched (kern r))" "cur_task r \<noteq> idle"
      and st: "st = TASK_HANGING \<or> st = TASK_ZOMBIE" for r st
  proof -
    have "st \<in> {TASK_BLOCKED, TASK_WAITING, TASK_STOPPED, TASK_HANGING, TASK_ZOMBIE}" using st by auto
    then obtain s where s: "task_block (ksched (kern r)) st = Some s" using block_some [OF r] by blast
    note B = block_states [OF r(1) s]
    have "sched_inv s" using step_inv [OF r(1,2) sched_step.block [OF r(3) s]] by simp
    with s B(1,2,4) show ?thesis by (intro exI [of _ s]) (auto simp: exited_def)
  qed
  show ?thesis
  proof (cases "exit_parent p")
    case None
    obtain s where "task_block (ksched (kern p)) TASK_ZOMBIE = Some s" "sched_inv s" "state (tasks s (cur_task p)) = TASK_ZOMBIE"
      "\<forall>u. u \<noteq> cur_task p \<longrightarrow> exited (set_sched s p) u = exited p u"
      using blk [OF inv, of TASK_ZOMBIE] by blast
    with None show ?thesis
      by (intro exI [of _ "set_sched s p"]) (simp add: exit_end_def exit_block_def same_tasks_def)
  next
    case (Some t)
    then have t: "task_state p t = TASK_WAITING" by (auto simp: exit_parent_def split: option.splits if_splits)
    obtain s where s: "exit_wake p t = Some (set_sched s p)" "sched_inv s" "quiet (ksched (kern p)) s" "cur s = cur_task p"
      "active (ksched (kern p)) \<subseteq> active s" "state (tasks s t) = TASK_READY"
      using exit_wake_spec [OF inv(1) t] by blast
    have ex: "exited (set_sched s p) u = exited p u" for u
      using s(3) [unfolded quiet_def Let_def, rule_format, of u] by (auto simp: exited_def)
    have ne: "t \<noteq> cur_task p" using t sched_inv_running [OF inv(1), of t] by auto
    let ?r = "set_sched s p"
    have r: "sched_inv (ksched (kern ?r))" "idle \<in> active (ksched (kern ?r))" "cur_task ?r \<noteq> idle" "cur_task ?r = cur_task p"
      using s inv by auto
    obtain z where z: "task_block (ksched (kern ?r)) TASK_HANGING = Some z" "sched_inv z"
      "state (tasks z (cur_task ?r)) = TASK_HANGING" "\<forall>u. u \<noteq> cur_task ?r \<longrightarrow> exited (set_sched z ?r) u = exited ?r u"
      "\<forall>u. u \<noteq> cur_task ?r \<longrightarrow> task_state ?r u = TASK_READY \<longrightarrow> state (tasks z u) \<in> {TASK_READY, TASK_RUNNING}"
      using blk [OF r(1-3), of TASK_HANGING] by blast
    have "exit_end p = Some (set_sched z ?r)" using Some s(1) z(1) by (simp add: exit_end_def exit_block_def)
    moreover have "\<forall>u. u \<noteq> cur_task p \<longrightarrow> exited (set_sched z ?r) u = exited p u" using z(4) ex r(4) by metis
    moreover have "state (tasks z t) \<in> {TASK_READY, TASK_RUNNING}" using z(5) ne r(4) s(6) by simp
    ultimately show ?thesis using z(2,3) r(4) Some
      by (intro exI [of _ "set_sched z ?r"]) (simp add: same_tasks_def)
  qed
qed

lemma release_resource_same: "\<exists>q. thread_release_resource p t = Some q \<and> core q = core p \<and> same_tasks p q \<and>
    thread_flags q = thread_flags p"
  by (auto simp: thread_release_resource_def timer_cancel_def timer_alive_def timer_del_def core_def same_tasks_def
      split: option.splits)

lemma pthread_leave_spec:
  assumes inv: "sched_inv (ksched (kern p))"
  shows "\<exists>q. pthread_leave p st = Some q \<and> same_tasks (set_exit_status (cur_task p) st p) q \<and> sched_inv (ksched (kern q)) \<and>
    quiet (ksched (kern p)) (ksched (kern q)) \<and> cur_task q = cur_task p \<and> active (ksched (kern p)) \<subseteq> active (ksched (kern q)) \<and>
    (\<not> has_flag p (cur_task p) THREAD_FLAG_DETACH \<longrightarrow> core q = core p)"
proof -
  let ?p = "set_exit_status (cur_task p) st p" and ?t = "cur_task p"
  obtain r where r: "thread_release_resource ?p ?t = Some r" "core r = core ?p" "same_tasks ?p r" "thread_flags r = thread_flags ?p"
    using release_resource_same by blast
  have k: "ksched (kern r) = ksched (kern p)" using coreD(1) [OF r(2)] by simp
  have f: "has_flag r ?t THREAD_FLAG_DETACH = has_flag p ?t THREAD_FLAG_DETACH" using r(4) by (simp add: has_flag_def)
  show ?thesis
  proof (cases "has_flag p ?t THREAD_FLAG_DETACH")
    case False
    with r k f inv show ?thesis by (intro exI [of _ r]) (simp add: pthread_leave_def core_def)
  next
    case True
    have "\<exists>q. release_joiner r ?t = Some q \<and> same_tasks r q \<and> sched_inv (ksched (kern q)) \<and>
      quiet (ksched (kern r)) (ksched (kern q)) \<and> cur_task q = cur_task r \<and> active (ksched (kern r)) \<subseteq> active (ksched (kern q))"
    proof (cases "\<exists>u. has_flag r ?t THREAD_FLAG_JOINED \<and> find_task_by_pid (kern r) (parent_pid r ?t) = Some u \<and>
        task_state r u = TASK_WAITING \<and> tgid r u = tgid r ?t")
      case True
      then obtain u where u: "has_flag r ?t THREAD_FLAG_JOINED" "find_task_by_pid (kern r) (parent_pid r ?t) = Some u"
        "task_state r u = TASK_WAITING" "tgid r u = tgid r ?t" by blast
      have "sched_inv (ksched (kern (clear_flag u THREAD_FLAG_JOINING r)))"
        "task_state (clear_flag u THREAD_FLAG_JOINING r) u = TASK_WAITING"
        using inv u(3) k by (simp_all add: clear_flag_def)
      from exit_wake_spec [OF this] u show ?thesis
        by (auto simp: release_joiner_def clear_flag_def same_tasks_def)
    next
      case False
      then have "release_joiner r ?t = Some r" by (auto simp: release_joiner_def split: option.splits)
      then show ?thesis using inv k by (simp add: same_tasks_def)
    qed
    then obtain q where "release_joiner r ?t = Some q" "same_tasks r q" "sched_inv (ksched (kern q))"
      "quiet (ksched (kern r)) (ksched (kern q))" "cur_task q = cur_task r" "active (ksched (kern r)) \<subseteq> active (ksched (kern q))"
      by blast
    with True r k f show ?thesis
      by (intro exI [of _ "q\<lparr>parent_pid := (parent_pid q)(?t := INIT_PROC_PID)\<rparr>"]) (simp add: pthread_leave_def same_tasks_def)
  qed
qed

lemma pthread_exit_spec:
  assumes inv: "sched_inv (ksched (kern p))" "idle \<in> active (ksched (kern p))" "cur_task p \<noteq> idle"
    and d: "pthread_ptr p (cur_task p) = Some d" "thread_count p d \<noteq> 1"
  shows "\<exists>q. pthread_exit p st = Some q \<and> sched_inv (ksched (kern q)) \<and> all_tasks q = all_tasks p \<and> pthread_ptr q = pthread_ptr p \<and>
    thread_count q d = thread_count p d - 1 \<and> (\<forall>u. exited q u \<longleftrightarrow> u = cur_task p \<or> exited p u)"
proof -
  let ?p = "p\<lparr>thread_count := (thread_count p)(d := thread_count p d - 1)\<rparr>"
  obtain r where r: "pthread_leave ?p st = Some r" "same_tasks (set_exit_status (cur_task p) st ?p) r" "sched_inv (ksched (kern r))"
    "quiet (ksched (kern p)) (ksched (kern r))" "cur_task r = cur_task p" "active (ksched (kern p)) \<subseteq> active (ksched (kern r))"
    using pthread_leave_spec [of ?p st] inv(1) by auto
  have ex: "exited r u = exited p u" for u
    using r(4) [unfolded quiet_def Let_def, rule_format, of u] by (auto simp: exited_def)
  obtain q x where q: "exit_end r = Some q" "same_tasks r q" "sched_inv (ksched (kern q))" "task_state q (cur_task r) = x"
    "x = TASK_ZOMBIE \<or> x = TASK_HANGING" "\<forall>u. u \<noteq> cur_task r \<longrightarrow> exited q u = exited r u"
  proof -
    have "idle \<in> active (ksched (kern r))" "cur_task r \<noteq> idle" using inv(2,3) r(5,6) by auto
    from exit_end_states [OF r(3) this] show ?thesis using that by (metis (full_types))
  qed
  have "pthread_exit p st = Some q" using r(1) q(1) d by (simp add: pthread_exit_def Let_def)
  moreover have "exited q u \<longleftrightarrow> u = cur_task p \<or> exited p u" for u
    using q(4-6) ex r(5) by (cases "u = cur_task p") (auto simp: exited_def)
  ultimately show ?thesis using q(2,3) r(2) by (auto simp: same_tasks_def)
qed

lemma zombie_loop_one:
  assumes "distinct ts" "pid_of p c \<noteq> -1" "\<And>b. b \<in> set ts \<Longrightarrow> zombie_child p t b \<longleftrightarrow> b = c"
  shows "zombie_loop p t ts (-1) = (if c \<in> set ts then (pid_of p c, reap p c) else (-1, p))"
  using assms
proof (induction ts)
  case (Cons b bs)
  show ?case
  proof (cases "b = c")
    case True
    have "zombie_loop (reap p c) t bs' z = (z, reap p c)" if "set bs' \<subseteq> set bs" for bs' z
      using that Cons.prems True by (induction bs') (auto simp: zombie_child_def)
    then show ?thesis using True Cons.prems by (simp add: zombie_child_def)
  next
    case False
    then show ?thesis using Cons by (simp add: zombie_child_def)
  qed
qed simp

lemma reap_vmm_freed:
  "vmm_ptr p c = Some v \<Longrightarrow> vmm_freed (reap p c) = (if IN_SINGAL_THREAD p c then v # vmm_freed p else vmm_freed p)"
  by (simp add: reap_def proc_destroy_def task_free_def)

subsection \<open>A run\<close>

text \<open>Init starts a thread (task 2, pid 3); it exits at once, or init joins it before.\<close>

definition demo_created :: procs where
  "demo_created = snd (the (sys_thread_create demo_init (Some False) (Some 5) (Some 2)))"

definition demo_gone :: procs where
  "demo_gone = the (pthread_exit (yield_p (yield_p demo_created)) 9)"

definition thread_view :: "procs \<Rightarrow> _" where
  "thread_view p = (view p, pthread_ptr p 2, thread_count p 5)"

lemma demo_thread_run:
  "thread_view demo_gone = ((1, [0, 1, 2], [0, 1, 3], [-1, -1, 1], [TASK_READY, TASK_RUNNING, TASK_ZOMBIE],
     [None, Some 1, Some 1], []), Some 5, 1)"
  by code_simp

lemma demo_created_inv:
  "sched_inv (ksched (kern demo_created))" "0 \<in> active (ksched (kern demo_created))"
  "active (ksched (kern demo_created)) \<subseteq> set (all_tasks demo_created)"
proof -
  note inv = procs_reachable_inv [OF demo_init_reach]
  note D = procs_invD [OF inv]
  have "2 \<notin> set (all_tasks demo_init)" "pthread_ptr demo_init (cur_task demo_init) = None"
    using demo_views(1) D(5) cur_in_list [OF inv] by (auto simp: pids_ok_def)
  then obtain q where "sys_thread_create demo_init (Some False) (Some 5) (Some 2) = Some (next_pid demo_init, q)"
    "sched_inv (ksched (kern q))" "active (ksched (kern demo_init)) \<subseteq> active (ksched (kern q))"
    "active (ksched (kern q)) \<subseteq> set (all_tasks q)"
    using thread_create_spec [OF D(1,4), of 2 5 1 "Some 5" False] by auto
  then show "sched_inv (ksched (kern demo_created))" "0 \<in> active (ksched (kern demo_created))"
    "active (ksched (kern demo_created)) \<subseteq> set (all_tasks demo_created)"
    using D(2) by (auto simp: demo_created_def)
qed

definition demo_joining :: procs where
  "demo_joining = yield_p (the (exit_block (case pthread_join demo_created 3 of Sleep p \<Rightarrow> p | Return n s p \<Rightarrow> p) TASK_WAITING))"

definition join_view :: "procs \<Rightarrow> _" where
  "join_view p = (view p, map (pthread_ptr p) [0, 1, 2], thread_count p 5, has_flag p 2 THREAD_FLAG_DETACH)"

lemma demo_join_run:
  "join_view demo_created = ((1, [0, 1, 2], [0, 1, 3], [-1, -1, 1], [TASK_READY, TASK_RUNNING, TASK_READY],
     [None, Some 1, Some 1], []), [None, Some 5, Some 5], 2, False)"
  "join_view demo_joining = ((2, [0, 1, 2], [0, 1, 3], [-1, -1, 1], [TASK_READY, TASK_WAITING, TASK_RUNNING],
     [None, Some 1, Some 1], []), [None, Some 5, Some 5], 2, False)"
  by code_simp+

lemmas demo_join_views = demo_join_run [unfolded join_view_def view_def, simplified]

lemma demo_joining_inv: "sched_inv (ksched (kern demo_joining)) \<and> 0 \<in> active (ksched (kern demo_joining))"
proof -
  define p where "p = (case pthread_join demo_created 3 of Sleep p \<Rightarrow> p | Return n s p \<Rightarrow> p)"
  have k: "ksched (kern p) = ksched (kern demo_created)"
    by (simp add: p_def pthread_join_def join_begin_def join_round_def wait_one_hangging_thread_def set_flag_def
        proc_destroy_def task_free_def Let_def split: option.splits sum.splits)
  have c: "cur_task demo_created \<noteq> 0" using demo_join_views(1) by simp
  obtain s where s: "task_block (ksched (kern p)) TASK_WAITING = Some s"
    using block_some [OF demo_created_inv(1,2) c, of TASK_WAITING] k by auto
  have s': "sched_inv s \<and> 0 \<in> active s"
    using step_inv [OF demo_created_inv(1,2) sched_step.block [OF c]] s k by metis
  then obtain z where z: "task_yeild s = Some z" "sched_inv z" using yield_spec by blast
  have "ksched (kern demo_joining) = z"
    using s z(1) by (simp add: demo_joining_def p_def [symmetric] yield_p_def exit_block_def)
  with z s' yield_quiet(2) [of s z] show ?thesis by simp
qed

subsection \<open>Properties\<close>



text \<open>
  If a thread exits while its joiner sleeps, the joiner is woken, gets the exit value, and only the task
  of the thread is removed; the address space stays. But a thread that has exited before it is joined is
  a zombie, and the join fails: its value is lost.
\<close>

theorem join_value:
  assumes inv: "sched_inv (ksched (kern p))" "idle \<in> active (ksched (kern p))" "cur_task p \<noteq> idle"
    and list: "distinct (all_tasks p)" "inj_on (pid_of p) (set (all_tasks p))" "cur_task p \<in> set (all_tasks p)"
    and thread: "pthread_ptr p (cur_task p) = Some d" "thread_count p d \<noteq> 1" "vmm_ptr p (cur_task p) \<noteq> None"
      "\<not> has_flag p (cur_task p) THREAD_FLAG_DETACH"
    and w: "w \<in> set (all_tasks p)" "task_state p w = TASK_WAITING" "parent_pid p (cur_task p) = pid_of p w"
  shows "(\<exists>q r. pthread_exit p st = Some q \<and> task_state q w \<in> {TASK_READY, TASK_RUNNING} \<and>
      join_round q (pid_of p (cur_task p)) = Return 0 (Some st) r \<and>
      set (all_tasks r) = set (all_tasks p) - {cur_task p} \<and> vmm_freed r = vmm_freed p) \<and>
    (\<forall>t. t \<in> set (all_tasks p) \<and> task_state p t = TASK_ZOMBIE \<longrightarrow> pthread_join p (pid_of p t) = Return (-1) None p)"
proof
  let ?t = "cur_task p" and ?p = "p\<lparr>thread_count := (thread_count p)(d := thread_count p d - 1)\<rparr>"
  obtain r where r: "pthread_leave ?p st = Some r" "same_tasks (set_exit_status ?t st ?p) r" "sched_inv (ksched (kern r))"
    "quiet (ksched (kern p)) (ksched (kern r))" "cur_task r = ?t" "active (ksched (kern p)) \<subseteq> active (ksched (kern r))"
    "core r = core ?p"
    using pthread_leave_spec [of ?p st] inv(1) thread(4) by (auto simp: has_flag_def)
  note C = coreD [OF r(7)]
  have f: "all_tasks r = all_tasks p" "pid (kern r) = pid (kern p)" "parent_pid r = parent_pid p" "ksched (kern r) = ksched (kern p)"
    using C by simp_all
  have "find_task_by_pid (kern r) (parent_pid r ?t) = Some w"
  proof -
    obtain u where u: "find_task_by_pid (kern r) (parent_pid r ?t) = Some u"
      using w by (cases "find_task_by_pid (kern r) (parent_pid r ?t)") (auto simp: find_task_by_pid_def find_None_iff f)
    note find_in_list [OF u [unfolded find_task_by_pid_def]]
    then have "u = w" using list(2) w(1,3) by (auto simp: f dest: inj_onD)
    with u show ?thesis by simp
  qed
  then have par: "exit_parent r = Some w" using w(2) r(5) by (simp add: exit_parent_def f)
  have "idle \<in> active (ksched (kern r))" "cur_task r \<noteq> idle" using inv(2,3) r(5,6) by auto
  from exit_end_states [OF r(3) this] par obtain q where q: "exit_end r = Some q" "same_tasks r q"
    "task_state q ?t = TASK_HANGING" "task_state q w \<in> {TASK_READY, TASK_RUNNING}" "\<forall>u. u \<noteq> ?t \<longrightarrow> exited q u = exited r u"
    using r(5) by auto
  have g: "all_tasks q = all_tasks p" "pid (kern q) = pid (kern p)" "exit_status (kern q) ?t = st" "vmm_ptr q = vmm_ptr p"
    "vmm_freed q = vmm_freed p"
    using q(2) r(2) by (simp_all add: same_tasks_def)
  have "List.find (\<lambda>c. pid_of q c = pid_of p ?t \<and> task_state q c = TASK_HANGING) (all_tasks q) = Some ?t"
  proof -
    let ?Q = "\<lambda>c. pid_of q c = pid_of p ?t \<and> task_state q c = TASK_HANGING"
    obtain u where u: "List.find ?Q (all_tasks q) = Some u"
      using q(3) list(3) by (cases "List.find ?Q (all_tasks q)") (auto simp: find_None_iff g)
    then have "u = ?t" using find_in_list [OF u] list(2,3) by (auto simp: g dest: inj_onD)
    with u show ?thesis by simp
  qed
  then have "join_round q (pid_of p ?t) = Return 0 (Some st) (snd (proc_destroy q ?t True))"
    by (simp add: join_round_def wait_one_hangging_thread_def g)
  moreover have "set (all_tasks (snd (proc_destroy q ?t True))) = set (all_tasks p) - {?t}"
    "vmm_freed (snd (proc_destroy q ?t True)) = vmm_freed p"
    using thread(3) list(1) by (auto simp: proc_destroy_def task_free_def g)
  moreover have "pthread_exit p st = Some q" using r(1) q(1) thread(1,2) by (simp add: pthread_exit_def Let_def)
  ultimately show "\<exists>q r. pthread_exit p st = Some q \<and> task_state q w \<in> {TASK_READY, TASK_RUNNING} \<and>
      join_round q (pid_of p ?t) = Return 0 (Some st) r \<and>
      set (all_tasks r) = set (all_tasks p) - {?t} \<and> vmm_freed r = vmm_freed p"
    using q(4) by blast
  show "\<forall>t. t \<in> set (all_tasks p) \<and> task_state p t = TASK_ZOMBIE \<longrightarrow> pthread_join p (pid_of p t) = Return (-1) None p"
  proof (intro allI impI)
    fix t assume t: "t \<in> set (all_tasks p) \<and> task_state p t = TASK_ZOMBIE"
    then have "List.find (\<lambda>u. pid_of p u = pid_of p t \<and> task_state p u \<noteq> TASK_ZOMBIE) (all_tasks p) = None"
      using list(2) by (auto simp: find_None_iff dest: inj_onD)
    then show "pthread_join p (pid_of p t) = Return (-1) None p" by (simp add: pthread_join_def join_begin_def)
  qed
qed

theorem join_value_witness:
  "\<exists>q r. pthread_exit demo_joining 9 = Some q \<and> join_round q 3 = Return 0 (Some 9) r \<and> set (all_tasks r) = {0, 1}"
proof -
  note V = demo_join_views(2)
  have "(\<exists>q r. pthread_exit demo_joining 9 = Some q \<and> task_state q 1 \<in> {TASK_READY, TASK_RUNNING} \<and>
      join_round q (pid_of demo_joining (cur_task demo_joining)) = Return 0 (Some 9) r \<and>
      set (all_tasks r) = set (all_tasks demo_joining) - {cur_task demo_joining} \<and> vmm_freed r = vmm_freed demo_joining) \<and>
    (\<forall>t. t \<in> set (all_tasks demo_joining) \<and> task_state demo_joining t = TASK_ZOMBIE \<longrightarrow>
       pthread_join demo_joining (pid_of demo_joining t) = Return (-1) None demo_joining)"
    by (rule join_value [of demo_joining 0 5]) (use V demo_joining_inv in auto)
  then show ?thesis using V by (auto simp: insert_Diff_if)
qed

text \<open>
  C25. \<open>waitpid\<close> of the main thread treats an exited thread as a process if no more than one thread is left:
  it frees the address space that the caller runs in.
\<close>

theorem thread_reap_frees_vmm:
  assumes "distinct (all_tasks p)" "c \<in> set (all_tasks p)" "c \<noteq> cur_task p" "0 < pid_of p c"
    and zombie: "\<And>b. b \<in> set (all_tasks p) \<Longrightarrow> zombie_child p (cur_task p) b \<longleftrightarrow> b = c"
    and hang: "\<And>b. b \<in> set (all_tasks p) \<Longrightarrow> parent_pid p b = pid_of p (cur_task p) \<Longrightarrow> task_state p b \<noteq> TASK_HANGING"
    and shared: "vmm_ptr p (cur_task p) = Some v" "vmm_ptr p c = Some v" "pthread_ptr p c = Some d" "v \<notin> set (vmm_freed p)"
  shows "\<exists>q. wait_round p (-1) options = Return (pid_of p c) None q \<and> vmm_ptr q (cur_task q) = Some v \<and>
    (v \<in> set (vmm_freed q) \<longleftrightarrow> thread_count p d \<le> 1)"
proof -
  have "wait_any_hangging_child p (cur_task p) = (-1, None, p)"
    by (cases rule: wait_any_cases [of p "cur_task p"]) (use hang in auto)
  moreover have "deal_zombie_child p (cur_task p) = (pid_of p c, reap p c)"
    using zombie_loop_one [OF assms(1) _ zombie] assms(2,4) by (simp add: deal_zombie_child_def)
  ultimately have "wait_round p (-1) options = Return (pid_of p c) None (reap p c)"
    using assms(4) by (simp add: wait_round_def)
  then show ?thesis
    using shared reap_vmm [of "cur_task p" c p] assms(3)
    by (auto simp: reap_vmm_freed IN_SINGAL_THREAD_def)
qed

theorem thread_reap_frees_vmm_witness:
  "\<exists>q. wait_round demo_gone (-1) 0 = Return 3 None q \<and> vmm_ptr q (cur_task q) = Some 1 \<and> 1 \<in> set (vmm_freed q)"
proof -
  note V = demo_thread_run [unfolded thread_view_def view_def, simplified]
  have z: "zombie_child demo_gone (cur_task demo_gone) b \<longleftrightarrow> b = 2"
    and h: "parent_pid demo_gone b = pid_of demo_gone (cur_task demo_gone) \<Longrightarrow> task_state demo_gone b \<noteq> TASK_HANGING"
    if "b \<in> set (all_tasks demo_gone)" for b
    using V that by (auto simp: zombie_child_def)
  have "\<exists>q. wait_round demo_gone (-1) 0 = Return (pid_of demo_gone 2) None q \<and> vmm_ptr q (cur_task q) = Some 1 \<and>
      (1 \<in> set (vmm_freed q) \<longleftrightarrow> thread_count demo_gone 5 \<le> 1)"
    by (rule thread_reap_frees_vmm) (use V z h in simp_all)
  then show ?thesis using V by simp
qed

text \<open>
  A process that exits takes its ready threads out of their queues but leaves the counters of the queues
  as they were. If such a thread was alone in the first non-empty queue, the next switch finds the counter
  positive and the queue empty, and takes the head of the list for a task; before, the switch was safe.
\<close>

theorem close_ready_thread:
  assumes inv: "sched_inv (ksched (kern p))"
    and t: "task_state p t = TASK_READY" "queue (ksched (kern p)) i = [t]" "\<And>j. j < i \<Longrightarrow> queue (ksched (kern p)) j = []"
    and st: "st \<in> {TASK_BLOCKED, TASK_WAITING, TASK_STOPPED, TASK_HANGING, TASK_ZOMBIE}"
  shows "task_block (ksched (kern p)) st \<noteq> None \<and>
    (\<exists>q. close_one_thread p t = Some q \<and> queue (ksched (kern q)) i = [] \<and> qlength (ksched (kern q)) i = 1 \<and>
       task_block (ksched (kern q)) st = None)"
proof -
  let ?S = "ksched (kern p)" and ?R = "(ksched (kern p))\<lparr>queue := (\<lambda>i. remove1 t (queue (ksched (kern p)) i))\<rparr>"
  note Q = queues_okD [OF sched_inv_queues [OF inv]]
  have "task_block ?S st \<noteq> None"
    by (cases rule: block_spec [OF inv st]) (use t(2) in auto)
  obtain r where r: "thread_release_resource (set_sched ?R p) t = Some r" "core r = core (set_sched ?R p)"
    using release_resource_core by blast
  have cl: "close_one_thread p t = Some (snd (proc_destroy r t True))"
    using t(1) r(1) by (simp add: close_one_thread_def Let_def)
  have k: "ksched (kern (snd (proc_destroy r t True))) = ?R"
    using coreD(1) [OF r(2)] by (simp add: proc_destroy_def task_free_def split: option.splits)
  have i: "i < MAX_PRIORITY_NR" "dynamic_priority ?S \<le> i" "qlength ?S i = 1" "\<And>j. j < i \<Longrightarrow> qlength ?S j = 0"
    using Q(2) [of t i] Q(6) [of i] Q(5) [of i] Q(5) t(2,3) by (auto simp: not_less [symmetric])
  let ?B = "upd_task (cur ?R) (\<lambda>k. k\<lparr>state := st\<rparr>) ?R"
  have "find_priority (qlength ?S) j = Some i" if "j \<le> i" for j
    using that
  proof (induction "i - j" arbitrary: j)
    case 0
    then show ?case using i by (subst find_priority.simps) simp
  next
    case (Suc n)
    then have "find_priority (qlength ?S) (j + 1) = Some i" "j < i" by simp_all
    then show ?case using i by (subst find_priority.simps) simp
  qed
  then have "task_priority_queue_fetch_first ?B = None"
    using i(2) t(2) by (simp add: task_priority_queue_fetch_first_def)
  then have "task_block ?R st = None" using st by (auto simp: task_block_def schedule_def get_next_task_def)
  with \<open>task_block ?S st \<noteq> None\<close> cl k i(3) t(2) show ?thesis by auto
qed

theorem close_ready_thread_witness:
  "\<exists>q. close_one_thread (yield_p demo_created) 2 = Some q \<and> task_block (ksched (kern q)) TASK_BLOCKED = None"
proof -
  have inv: "sched_inv (ksched (kern (yield_p demo_created)))"
    using yield_spec [OF demo_created_inv(1)] by (auto simp: yield_p_def)
  have r: "view (yield_p demo_created) = (0, [0, 1, 2], [0, 1, 3], [-1, -1, 1], [TASK_RUNNING, TASK_READY, TASK_READY],
      [None, Some 1, Some 1], [])" "map (queue (ksched (kern (yield_p demo_created)))) [0, 1, 2] = [[], [], [2]]"
    by code_simp+
  have v: "task_state (yield_p demo_created) 2 = TASK_READY" "queue (ksched (kern (yield_p demo_created))) 2 = [2]"
    "queue (ksched (kern (yield_p demo_created))) 0 = []" "queue (ksched (kern (yield_p demo_created))) 1 = []"
    using r by (simp_all add: view_def)
  show ?thesis using close_ready_thread [OF inv v(1,2), of TASK_BLOCKED] v(3,4) by (auto simp: numeral_2_eq_2 less_Suc_eq)
qed

end
