(* ===== verification/FsPath.thy ===== *)
theory FsPath
  imports IpcTable
begin

section \<open>Paths and the mount table\<close>

text \<open>
  \<open>src/src/fs/fsal/dir.c\<close> (cleaning a path and making it absolute) and \<open>src/src/fs/fsal/path.c\<close> (the
  table of mounted file systems). A C string is the list of its characters before the terminator and a
  pointer into it is the suffix it points to. A write behind the end of a buffer is undefined in C: the
  functions return \<open>None\<close> there, so that a result \<open>Some\<close> says that every buffer was large enough.
\<close>

definition MAX_PATH :: nat where "MAX_PATH = 256"
definition FASL_PATH_LEN :: nat where "FASL_PATH_LEN = 24"
definition FASL_PATH_NR :: nat where "FASL_PATH_NR = 12"

abbreviation slash :: char where "slash \<equiv> CHR ''/''"

subsection \<open>String routines\<close>

fun strchr :: "string \<Rightarrow> char \<Rightarrow> string option" where
  "strchr [] c = None"
| "strchr (x # xs) c = (if x = c then Some (x # xs) else strchr xs c)"

text \<open>\<open>strrchr\<close>, as the offset of the last occurrence.\<close>

fun strrchr_from :: "string \<Rightarrow> char \<Rightarrow> nat \<Rightarrow> nat option \<Rightarrow> nat option" where
  "strrchr_from [] c i ret = ret"
| "strrchr_from (x # xs) c i ret = strrchr_from xs c (i + 1) (if x = c then Some i else ret)"

abbreviation strrchr :: "string \<Rightarrow> char \<Rightarrow> nat option" where
  "strrchr s c \<equiv> strrchr_from s c 0 None"

text \<open>\<open>strcat\<close> and \<open>strcpy\<close> into a buffer of \<open>cap\<close> bytes.\<close>

definition strcat :: "nat \<Rightarrow> string \<Rightarrow> string \<Rightarrow> string option" where
  "strcat cap dst src = (if length dst + length src < cap then Some (dst @ src) else None)"

definition strcpy :: "nat \<Rightarrow> string \<Rightarrow> string option" where
  "strcpy cap src = (if length src < cap then Some src else None)"

subsection \<open>Cleaning a path\<close>

text \<open>
  \<open>__parse_path_afterward\<close>: where the next component ends (\<open>None\<close> for \<open>NULL\<close>), and its name.
\<close>

definition skip_slashes :: "string \<Rightarrow> string" where
  "skip_slashes path = (case path of [] \<Rightarrow> [] | c # r \<Rightarrow> if c = slash then dropWhile (\<lambda>c. c = slash) r else path)"

definition nonempty_ptr :: "string \<Rightarrow> string option" where
  "nonempty_ptr path = (if path = [] then None else Some path)"

definition parse_path_afterward :: "string \<Rightarrow> (string option \<times> string) option" where
  "parse_path_afterward path =
     map_option (\<lambda>name. (nonempty_ptr (dropWhile (\<lambda>c. c \<noteq> slash) (skip_slashes path)), name))
       (strcpy MAX_PATH (takeWhile (\<lambda>c. c \<noteq> slash) (skip_slashes path)))"

definition wash_name :: "string \<Rightarrow> string \<Rightarrow> string option" where
  "wash_name new_path name =
     (if name = ''..''
      then map_option (\<lambda>p. if p \<noteq> 0 then take p new_path else take (p + 1) new_path) (strrchr new_path slash)
      else if name \<noteq> ''.''
      then Option.bind (if new_path \<noteq> ''/'' then strcat MAX_PATH new_path ''/'' else Some new_path)
             (\<lambda>new_path. strcat MAX_PATH new_path name)
      else Some new_path)"

lemma parse_result:
  "parse_path_afterward p = Some (sub, name) \<longleftrightarrow>
     length name < MAX_PATH \<and> name = takeWhile (\<lambda>c. c \<noteq> slash) (skip_slashes p) \<and>
     sub = nonempty_ptr (dropWhile (\<lambda>c. c \<noteq> slash) (skip_slashes p))"
  unfolding parse_path_afterward_def strcpy_def by auto

lemma parse_shrinks:
  assumes "parse_path_afterward p = Some (Some q, name)"
  shows "length q < length p"
proof -
  from assms have q: "q = dropWhile (\<lambda>c. c \<noteq> slash) (skip_slashes p)" "q \<noteq> []"
    unfolding parse_result nonempty_ptr_def by (auto split: if_split_asm)
  show ?thesis
  proof (cases p)
    case Nil
    with q show ?thesis by (simp add: skip_slashes_def)
  next
    case (Cons x r)
    show ?thesis
    proof (cases "x = slash")
      case True
      with Cons q(1) have "length q \<le> length r"
        by (simp add: skip_slashes_def le_trans [OF length_dropWhile_le length_dropWhile_le])
      then show ?thesis using Cons by simp
    next
      case False
      with Cons q(1) have "length q \<le> length r" by (simp add: skip_slashes_def length_dropWhile_le)
      then show ?thesis using Cons by simp
    qed
  qed
qed

text \<open>The loop of \<open>wash_path\<close>.\<close>

function wash_loop :: "string \<Rightarrow> string option \<Rightarrow> string \<Rightarrow> string option" where
  "wash_loop name sub_path new_path =
     (if name = [] then Some new_path
      else case wash_name new_path name of None \<Rightarrow> None
        | Some new_path \<Rightarrow>
            (case sub_path of None \<Rightarrow> wash_loop [] None new_path
             | Some p \<Rightarrow> (case parse_path_afterward p of None \<Rightarrow> None
                 | Some (sub_path, name) \<Rightarrow> wash_loop name sub_path new_path)))"
  by pat_completeness auto
termination
  by (relation "measure (\<lambda>(name, sub, new). 2 * (case sub of None \<Rightarrow> 0 | Some p \<Rightarrow> Suc (length p)) + (if name = [] then 0 else 1))")
    (auto dest: parse_shrinks split: option.splits)

declare wash_loop.simps [simp del]

text \<open>A path that does not begin with \<open>/\<close> fails the assertion.\<close>

definition wash_path :: "string \<Rightarrow> string option" where
  "wash_path old_path =
     (if old_path = [] \<or> hd old_path \<noteq> slash then None
      else case parse_path_afterward old_path of None \<Rightarrow> None
        | Some (sub_path, name) \<Rightarrow> if name = [] then Some ''/'' else wash_loop name sub_path ''/'')"

subsection \<open>Absolute paths\<close>

text \<open>
  The working directory of a task: \<open>sys_chdir\<close> keeps at most 256 bytes of the path it is given, so that
  one of 256 bytes has no terminator. \<open>opened\<close> is what \<open>sys_opendir\<close> returns for the path.
\<close>

definition sys_chdir :: "string option \<Rightarrow> int \<Rightarrow> string \<Rightarrow> int \<times> string option" where
  "sys_chdir cwd opened path =
     (if cwd = None \<or> opened < 0 then (-1, cwd) else (0, Some (take MAX_PATH path)))"

definition sys_getcwd :: "string option \<Rightarrow> int \<times> string option" where
  "sys_getcwd cwd = (case cwd of None \<Rightarrow> (-1, Some []) | Some d \<Rightarrow> (0, strcpy MAX_PATH d))"

definition cwd_prefix :: "string option \<Rightarrow> string option" where
  "cwd_prefix cwd =
     (case sys_getcwd cwd of (r, abspath) \<Rightarrow>
        if r = 0
        then Option.bind abspath (\<lambda>abspath. case strchr abspath slash of
               Some p \<Rightarrow> if p \<noteq> ''/'' then strcat MAX_PATH abspath ''/'' else Some abspath
             | None \<Rightarrow> Some abspath)
        else Some [])"

definition make_abs_path :: "string option \<Rightarrow> string \<Rightarrow> string option" where
  "make_abs_path cwd path =
     Option.bind (if path = [] \<or> hd path \<noteq> slash then cwd_prefix cwd else Some [])
       (\<lambda>abspath. if path = ''/'' then Some ''/''
          else Option.bind (strcat MAX_PATH abspath path)
            (\<lambda>abspath. if strchr abspath slash = None then strcat MAX_PATH abspath ''/'' else Some abspath))"

definition build_path :: "string option \<Rightarrow> string \<Rightarrow> string option" where
  "build_path cwd path =
     Option.bind (make_abs_path cwd path)
       (\<lambda>abs_path. case strchr abs_path slash of None \<Rightarrow> None | Some p \<Rightarrow> wash_path p)"

subsection \<open>The reference: a path as its components\<close>

fun segments :: "string \<Rightarrow> string list" where
  "segments [] = [[]]"
| "segments (c # s) = (if c = slash then [] # segments s else (c # hd (segments s)) # tl (segments s))"

definition components :: "string \<Rightarrow> string list" where
  "components s = filter (\<lambda>c. c \<noteq> []) (segments s)"

fun visit :: "string \<Rightarrow> string list \<Rightarrow> string list" where
  "visit c dir = (if c = ''..'' then butlast dir else if c = ''.'' then dir else dir @ [c])"

definition resolve :: "string list \<Rightarrow> string list" where
  "resolve cs = fold visit cs []"

definition below :: "string list \<Rightarrow> string" where
  "below cs = concat (map (\<lambda>c. slash # c) cs)"

definition unparse :: "string list \<Rightarrow> string" where
  "unparse cs = (if cs = [] then ''/'' else below cs)"

definition comp_ok :: "string \<Rightarrow> bool" where
  "comp_ok c \<longleftrightarrow> c \<noteq> [] \<and> slash \<notin> set c"

lemma segments_ne [simp]: "segments s \<noteq> []"
  by (cases s) auto

lemma segments_nosep: "slash \<notin> set c \<Longrightarrow> segments (c @ s) = (c @ hd (segments s)) # tl (segments s)"
  by (induction c) auto

lemma components_Nil [simp]: "components [] = []"
  by (simp add: components_def)

lemma components_slash [simp]: "components (slash # s) = components s"
  by (simp add: components_def)

lemma components_drop_slashes: "components (dropWhile (\<lambda>c. c = slash) s) = components s"
  by (induction s) auto

lemma components_comp:
  assumes "comp_ok c"
  shows "components (c @ slash # s) = c # components s" "components c = [c]"
  using assms segments_nosep [of c "slash # s"] segments_nosep [of c "[]"]
  by (auto simp: components_def comp_ok_def)

lemma components_ok: "c \<in> set (components s) \<Longrightarrow> comp_ok c"
proof -
  have "\<forall>c \<in> set (segments s). slash \<notin> set c"
  proof (induction s)
    case (Cons x s)
    then show ?case by (cases "segments s") auto
  qed simp
  then show "c \<in> set (components s) \<Longrightarrow> comp_ok c" by (auto simp: components_def comp_ok_def)
qed

lemma components_append_slash: "components (a @ slash # s) = components a @ components s"
proof (induction "length a" arbitrary: a rule: less_induct)
  case less
  let ?c = "takeWhile (\<lambda>c. c \<noteq> slash) a" and ?r = "dropWhile (\<lambda>c. c \<noteq> slash) a"
  have c: "slash \<notin> set ?c" by (auto dest: set_takeWhileD)
  have a: "a = ?c @ ?r" by simp
  show ?case
  proof (cases "?r = []")
    case True
    then have "slash \<notin> set a" by auto
    then show ?thesis using components_comp(1) [of a s] components_comp(2) [of a] by (cases "a = []") (auto simp: comp_ok_def)
  next
    case False
    then obtain r where r: "?r = slash # r"
      using hd_dropWhile [of "\<lambda>c. c \<noteq> slash" a] by (cases ?r) auto
    then have len: "length r < length a" using length_dropWhile_le [of "\<lambda>c. c \<noteq> slash" a] by simp
    have e: "components (a @ slash # s) = components (?c @ slash # (r @ slash # s))" "components a = components (?c @ slash # r)"
      using a r by (metis append.assoc append_Cons, metis)
    show ?thesis
      using less [OF len] c components_comp(1) [of ?c] unfolding e by (cases "?c = []") (auto simp: comp_ok_def)
  qed
qed

lemma components_below: "\<forall>c \<in> set cs. comp_ok c \<Longrightarrow> components (below cs) = cs"
proof (induction cs)
  case (Cons c cs)
  then show ?case
    by (cases cs) (auto simp: below_def components_comp)
qed (simp add: below_def)

subsection \<open>Cleaning a path is resolving its components\<close>

lemma strrchr_last: "slash \<notin> set c \<Longrightarrow> strrchr_from (p @ slash # c) slash i ret = Some (i + length p)"
proof -
  have "slash \<notin> set c \<Longrightarrow> strrchr_from c slash i ret = ret" for i ret
    by (induction c arbitrary: i) auto
  then show "slash \<notin> set c \<Longrightarrow> ?thesis" by (induction p arbitrary: i ret) auto
qed

lemma below_append: "below (a @ b) = below a @ below b"
  by (simp add: below_def)

lemma below_single [simp]: "below [] = []" "below (c # cs) = slash # c @ below cs"
  by (simp_all add: below_def)

lemma unparse_root: "\<forall>c \<in> set cs. comp_ok c \<Longrightarrow> unparse cs = ''/'' \<longleftrightarrow> cs = []"
  by (cases cs) (auto simp: unparse_def comp_ok_def)

lemma wash_name_resolves:
  assumes acc: "\<forall>c \<in> set acc. comp_ok c" and name: "comp_ok name" "length (below acc) + 1 + length name < MAX_PATH"
  shows "wash_name (unparse acc) name = Some (unparse (visit name acc))"
proof -
  have up: "wash_name (unparse acc) ''..'' = Some (unparse (butlast acc))"
  proof (cases acc rule: rev_cases)
    case Nil
    then show ?thesis by (simp add: wash_name_def unparse_def)
  next
    case (snoc a c)
    with acc have "strrchr (unparse acc) slash = Some (length (below a))"
      using strrchr_last [of c "below a" 0 None] by (simp add: unparse_def below_append comp_ok_def)
    moreover have "below a = [] \<longleftrightarrow> a = []" by (cases a) auto
    ultimately show ?thesis using snoc by (simp add: wash_name_def unparse_def below_append)
  qed
  have add: "wash_name (unparse acc) name = Some (unparse (acc @ [name]))" if "name \<noteq> ''..''" "name \<noteq> ''.''"
    using that name(2) unparse_root [OF acc]
    by (cases "acc = []") (simp_all add: wash_name_def strcat_def unparse_def below_append)
  show ?thesis using up add by (simp add: wash_name_def)
qed

lemma length_below_visit: "length (below (visit c acc)) \<le> length (below acc) + 1 + length c"
  by (cases acc rule: rev_cases) (auto simp: below_append)

lemma visit_ok: "\<forall>c \<in> set acc. comp_ok c \<Longrightarrow> comp_ok c \<Longrightarrow> \<forall>c \<in> set (visit c acc). comp_ok c"
  by (auto dest: in_set_butlastD)

definition remaining :: "string option \<Rightarrow> string" where
  "remaining sub = (case sub of None \<Rightarrow> [] | Some p \<Rightarrow> p)"

lemma remaining_nonempty [simp]: "remaining (nonempty_ptr p) = p"
  by (simp add: remaining_def nonempty_ptr_def)

lemma parse_components:
  assumes "p = [] \<or> hd p = slash" "length p \<le> MAX_PATH"
  obtains sub name where "parse_path_afterward p = Some (sub, name)"
    "remaining sub = [] \<or> hd (remaining sub) = slash" "sub = None \<longleftrightarrow> remaining sub = []"
    "name = [] \<and> components p = [] \<and> remaining sub = [] \<or>
     comp_ok name \<and> components p = name # components (remaining sub) \<and> 1 + length name + length (remaining sub) \<le> length p"
proof -
  let ?s = "skip_slashes p"
  let ?n = "takeWhile (\<lambda>c. c \<noteq> slash) ?s" and ?r = "dropWhile (\<lambda>c. c \<noteq> slash) ?s"
  have s: "components p = components ?s" "p = [] \<and> ?s = [] \<or> length ?s < length p"
    using assms(1) length_dropWhile_le [of "\<lambda>c. c = slash" "tl p"]
    by (cases p; simp add: skip_slashes_def components_drop_slashes)+
  have nr: "?n @ ?r = ?s" "length ?n + length ?r = length ?s" by (simp, metis length_append takeWhile_dropWhile_id)
  have ok: "slash \<notin> set ?n" by (auto dest: set_takeWhileD)
  have r: "?r = [] \<or> (\<exists>t. ?r = slash # t)" using hd_dropWhile [of "\<lambda>c. c \<noteq> slash" ?s] by (cases ?r) auto
  have hd_s: "?s = [] \<or> hd ?s \<noteq> slash"
    using assms(1) hd_dropWhile [of "\<lambda>c. c = slash" "tl p"] by (cases p) (auto simp: skip_slashes_def)
  have len: "length ?n < MAX_PATH" using s(2) nr(2) assms(2) by (auto simp: MAX_PATH_def)
  show ?thesis
  proof (rule that)
    show "parse_path_afterward p = Some (nonempty_ptr ?r, ?n)" using len by (simp only: parse_result)
    show "remaining (nonempty_ptr ?r) = [] \<or> hd (remaining (nonempty_ptr ?r)) = slash" using r by auto
    show "nonempty_ptr ?r = None \<longleftrightarrow> remaining (nonempty_ptr ?r) = []" by (auto simp: nonempty_ptr_def remaining_def)
    show "?n = [] \<and> components p = [] \<and> remaining (nonempty_ptr ?r) = [] \<or>
      comp_ok ?n \<and> components p = ?n # components (remaining (nonempty_ptr ?r)) \<and>
      1 + length ?n + length (remaining (nonempty_ptr ?r)) \<le> length p"
    proof (cases "?s = []")
      case True
      with s show ?thesis by simp
    next
      case False
      then have n: "comp_ok ?n" using hd_s ok by (cases ?s) (auto simp: comp_ok_def)
      have "components ?s = ?n # components ?r"
        using r components_comp(1) [OF n] components_comp(2) [OF n] nr(1) by (metis append_Nil2 components_Nil components_slash)
      with n s nr(2) False show ?thesis by auto
    qed
  qed
qed

lemma wash_loop_resolves:
  assumes "\<forall>c \<in> set acc. comp_ok c" "comp_ok name" "remaining sub = [] \<or> hd (remaining sub) = slash"
    "sub = None \<longleftrightarrow> remaining sub = []" "length (below acc) + 1 + length name + length (remaining sub) < MAX_PATH"
  shows "wash_loop name sub (unparse acc) = Some (unparse (fold visit (name # components (remaining sub)) acc))"
  using assms
proof (induction "length (remaining sub)" arbitrary: name sub acc rule: less_induct)
  case less
  let ?acc = "visit name acc"
  have step: "wash_name (unparse acc) name = Some (unparse ?acc)" using less.prems by (intro wash_name_resolves) auto
  have ok: "\<forall>c \<in> set ?acc. comp_ok c" by (rule visit_ok [OF less.prems(1,2)])
  have name: "name \<noteq> []" using less.prems(2) by (auto simp: comp_ok_def)
  have len: "length (below ?acc) + length (remaining sub) < MAX_PATH"
    using length_below_visit [of name acc] less.prems(5) by linarith
  show ?case
  proof (cases sub)
    case None
    with step name show ?thesis by (subst wash_loop.simps) (simp add: remaining_def wash_loop.simps [of "[]"])
  next
    case (Some p)
    then have p: "remaining sub = p" "p \<noteq> []" using less.prems(4) by (auto simp: remaining_def)
    have pre: "p = [] \<or> hd p = slash" "length p \<le> MAX_PATH" using less.prems(3) p len by auto
    obtain sub' name' where P: "parse_path_afterward p = Some (sub', name')"
      "remaining sub' = [] \<or> hd (remaining sub') = slash" "sub' = None \<longleftrightarrow> remaining sub' = []"
      "name' = [] \<and> components p = [] \<and> remaining sub' = [] \<or>
       comp_ok name' \<and> components p = name' # components (remaining sub') \<and> 1 + length name' + length (remaining sub') \<le> length p"
      by (rule parse_components [OF pre])
    have "wash_loop name sub (unparse acc) = wash_loop name' sub' (unparse ?acc)"
      using step name Some P(1) by (subst wash_loop.simps) simp
    also have "\<dots> = Some (unparse (fold visit (components p) ?acc))"
    proof (cases "name' = []")
      case True
      with P(4) show ?thesis by (auto simp: wash_loop.simps [of "[]"] comp_ok_def)
    next
      case False
      with P(4) have n: "comp_ok name'" "components p = name' # components (remaining sub')"
        "1 + length name' + length (remaining sub') \<le> length p" by auto
      have "length (remaining sub') < length (remaining sub)" using n(3) p by simp
      from less.hyps [OF this ok n(1) P(2,3)] n len p show ?thesis by simp
    qed
    finally show ?thesis using p by simp
  qed
qed

lemma wash_path_resolves:
  assumes "s \<noteq> []" "hd s = slash" "length s < MAX_PATH"
  shows "wash_path s = Some (unparse (resolve (components s)))"
proof -
  have pre: "s = [] \<or> hd s = slash" "length s \<le> MAX_PATH" using assms by auto
  obtain sub name where P: "parse_path_afterward s = Some (sub, name)"
    "remaining sub = [] \<or> hd (remaining sub) = slash" "sub = None \<longleftrightarrow> remaining sub = []"
    "name = [] \<and> components s = [] \<and> remaining sub = [] \<or>
     comp_ok name \<and> components s = name # components (remaining sub) \<and> 1 + length name + length (remaining sub) \<le> length s"
    by (rule parse_components [OF pre])
  show ?thesis
  proof (cases "name = []")
    case True
    with P assms show ?thesis by (auto simp: wash_path_def resolve_def unparse_def comp_ok_def)
  next
    case False
    with P(4) have n: "comp_ok name" "components s = name # components (remaining sub)"
      "1 + length name + length (remaining sub) \<le> length s" by auto
    have "wash_loop name sub ''/'' = Some (unparse (resolve (components s)))"
      using wash_loop_resolves [of "[]" name sub] n P(2,3) assms(3) by (simp add: unparse_def resolve_def)
    with P(1) False assms show ?thesis by (simp add: wash_path_def)
  qed
qed

subsection \<open>Absolute paths are resolved in the working directory\<close>

lemma strchr_head: "s \<noteq> [] \<Longrightarrow> hd s = c \<Longrightarrow> strchr s c = Some s"
  by (cases s) auto

lemma strchr_None: "strchr s c = None \<longleftrightarrow> c \<notin> set s"
  by (induction s) auto

lemma length_below: "length (below cs) = sum_list (map (\<lambda>c. Suc (length c)) cs)"
  by (induction cs) auto

lemma length_segments: "sum_list (map (\<lambda>c. Suc (length c)) (segments s)) = Suc (length s)"
proof (induction s)
  case (Cons x s)
  then show ?case by (cases "segments s") auto
qed simp

lemma sum_list_filter: "sum_list (map f (filter P xs)) \<le> (sum_list (map f xs) :: nat)"
  by (induction xs) auto

lemma length_below_components:
  assumes "s \<noteq> []" "hd s = slash"
  shows "length (below (components s)) \<le> length s"
proof -
  obtain t where "s = slash # t" using assms by (cases s) auto
  then show ?thesis
    using sum_list_filter [of "\<lambda>c. Suc (length c)" "\<lambda>c. c \<noteq> []" "segments t"] length_segments [of t]
    by (simp add: length_below) (simp add: components_def)
qed

lemma length_resolve: "length (below (fold visit cs acc)) \<le> length (below acc) + length (below cs)"
proof (induction cs arbitrary: acc)
  case (Cons c cs)
  from Cons.IH [of "visit c acc"] length_below_visit [of c acc] show ?case by simp
qed simp

text \<open>What \<open>resolve\<close> returns has no \<open>.\<close> and no \<open>..\<close>, so that resolving it again changes nothing.\<close>

lemma resolve_no_dots:
  "c \<in> set (fold visit cs acc) \<Longrightarrow> c \<in> set acc \<or> c \<in> set cs \<and> c \<noteq> ''.'' \<and> c \<noteq> ''..''"
proof (induction cs arbitrary: acc)
  case (Cons x cs)
  from Cons.IH [of "visit x acc"] Cons.prems show ?case
    by (auto dest: in_set_butlastD split: if_splits)
qed simp

lemma resolve_id: "\<forall>c \<in> set cs. c \<noteq> ''.'' \<and> c \<noteq> ''..'' \<Longrightarrow> fold visit cs acc = acc @ cs"
  by (induction cs arbitrary: acc) auto

lemma resolve_ok: "c \<in> set (resolve (components s)) \<Longrightarrow> comp_ok c \<and> c \<noteq> ''.'' \<and> c \<noteq> ''..''"
  using resolve_no_dots [of c "components s" "[]"] components_ok by (auto simp: resolve_def)

lemma unparse_slash: "unparse cs \<noteq> []" "hd (unparse cs) = slash"
  by (cases cs; simp add: unparse_def)+

lemma components_unparse: "\<forall>c \<in> set cs. comp_ok c \<Longrightarrow> components (unparse cs) = cs"
  by (auto simp: unparse_def components_below)

lemma wash_path_idem:
  assumes "s \<noteq> []" "hd s = slash" "length s < MAX_PATH" "t = unparse (resolve (components s))"
  shows "wash_path t = Some t"
proof -
  have ok: "\<forall>c \<in> set (resolve (components s)). comp_ok c \<and> c \<noteq> ''.'' \<and> c \<noteq> ''..''" using resolve_ok by blast
  have "length (below (resolve (components s))) \<le> length s"
    using length_resolve [of "components s" "[]"] length_below_components [OF assms(1,2)] by (simp add: resolve_def)
  then have "length t < MAX_PATH" using assms(3) by (simp add: assms(4) unparse_def MAX_PATH_def)
  then have "wash_path t = Some (unparse (resolve (components t)))"
    using assms(4) unparse_slash by (intro wash_path_resolves) auto
  also have "components t = resolve (components s)" using ok assms(4) components_unparse by blast
  also have "resolve (resolve (components s)) = resolve (components s)"
    using resolve_id [of "resolve (components s)" "[]"] ok by (simp add: resolve_def)
  finally show ?thesis using assms(4) by simp
qed

lemma make_abs_path_spec:
  assumes d: "d \<noteq> []" "hd d = slash" "length d + 1 + length path < MAX_PATH"
  obtains a where "make_abs_path (Some d) path = Some a" "a \<noteq> []" "hd a = slash" "length a < MAX_PATH"
    "components a = (if path \<noteq> [] \<and> hd path = slash then [] else components d) @ components path"
proof (cases "path \<noteq> [] \<and> hd path = slash")
  case True
  then have "make_abs_path (Some d) path = Some path"
    using d(3) by (auto simp: make_abs_path_def strcat_def strchr_head)
  then show ?thesis using that [of path] True d(3) by auto
next
  case False
  then have "path \<noteq> ''/''" by auto
  have cwd: "sys_getcwd (Some d) = (0, Some d)" using d(3) by (simp add: sys_getcwd_def strcpy_def)
  show ?thesis
  proof (cases "d = ''/''")
    case True
    then have "make_abs_path (Some d) path = Some (slash # path)"
      using False cwd d(3) by (auto simp: make_abs_path_def cwd_prefix_def strcat_def)
    then show ?thesis using that [of "slash # path"] True False d(3) by auto
  next
    case nr: False
    then have "make_abs_path (Some d) path = Some (d @ slash # path)"
      using False cwd d by (auto simp: make_abs_path_def cwd_prefix_def strcat_def strchr_head strchr_None)
    then show ?thesis using that [of "d @ slash # path"] False d by (auto simp: components_append_slash)
  qed
qed

text \<open>
  C26. \<open>build_path\<close> computes the absolute path of its argument: the components of the working directory,
  unless the argument begins with \<open>/\<close>, followed by those of the argument, where \<open>.\<close> stays and \<open>..\<close> goes up
  (and stays at the root). No buffer is overrun as long as both strings and a separator fit in 255
  characters, and cleaning the result again changes nothing.
\<close>

theorem build_path_resolves:
  assumes "d \<noteq> []" "hd d = slash" "length d + 1 + length path < MAX_PATH"
  shows "\<exists>cs. build_path (Some d) path = Some (unparse cs) \<and> wash_path (unparse cs) = Some (unparse cs) \<and>
    cs = resolve ((if path \<noteq> [] \<and> hd path = slash then [] else components d) @ components path)"
proof -
  obtain a where a: "make_abs_path (Some d) path = Some a" "a \<noteq> []" "hd a = slash" "length a < MAX_PATH"
    "components a = (if path \<noteq> [] \<and> hd path = slash then [] else components d) @ components path"
    by (rule make_abs_path_spec [OF assms])
  have "build_path (Some d) path = Some (unparse (resolve (components a)))"
    using a wash_path_resolves [OF a(2-4)] strchr_head [OF a(2,3)] by (simp add: build_path_def)
  with wash_path_idem [OF a(2-4) refl] a(5) show ?thesis by auto
qed

theorem build_path_resolves_witness:
  "build_path (Some ''/root/bin'') ''.././../../usr//lib/'' = Some ''/usr/lib''"
  using build_path_resolves [of "''/root/bin''" "''.././../../usr//lib/''"]
  by (simp add: MAX_PATH_def components_def resolve_def unparse_def)

subsection \<open>The mount table\<close>

text \<open>
  An entry of \<open>fsal_path_table\<close>; file systems are numbers and \<open>None\<close> is the \<open>NULL\<close> of a free entry. A
  pointer to an entry is its index. The outer \<open>option\<close> of the results is \<open>None\<close> for an overrun buffer.
\<close>

record fsal_path =
  pfsal :: "nat option"
  ppath :: string
  palpath :: string

record path_table =
  entries :: "fsal_path list"
  master_path :: "nat option"

definition init_fsal_path_table :: path_table where
  "init_fsal_path_table = \<lparr>entries = replicate FASL_PATH_NR \<lparr>pfsal = None, ppath = [], palpath = []\<rparr>, master_path = None\<rparr>"

definition fsal_path_alloc :: "path_table \<Rightarrow> nat option" where
  "fsal_path_alloc t = find_slot (\<lambda>e. pfsal e = None) (entries t)"

definition fsal_path_find :: "path_table \<Rightarrow> string \<Rightarrow> bool \<Rightarrow> nat option option" where
  "fsal_path_find t alpath inmaster =
     (case strchr alpath slash of None \<Rightarrow> Some None
      | Some p \<Rightarrow>
          if tl p = [] \<and> inmaster then Some (master_path t)
          else map_option
            (\<lambda>name. case find_slot (\<lambda>e. pfsal e \<noteq> None \<and> name = palpath e) (entries t) of
                Some i \<Rightarrow> Some i
              | None \<Rightarrow> if inmaster then master_path t else None)
            (strcpy FASL_PATH_LEN (case strchr (tl p) slash of
                Some q \<Rightarrow> take (length alpath - length q) alpath | None \<Rightarrow> alpath)))"

definition fsal_path_insert ::
  "path_table \<Rightarrow> string option \<Rightarrow> string option \<Rightarrow> nat option \<Rightarrow> (int \<times> path_table) option" where
  "fsal_path_insert t path alpath fsal =
     (case (path, alpath, fsal) of
        (Some path, Some alpath, Some f) \<Rightarrow>
          (case fsal_path_find t alpath False of
             None \<Rightarrow> None
           | Some (Some _) \<Rightarrow> Some (-1, t)
           | Some None \<Rightarrow>
               (case fsal_path_alloc t of
                  None \<Rightarrow> Some (-1, t)
                | Some i \<Rightarrow>
                    Option.bind (strcpy FASL_PATH_LEN path) (\<lambda>path.
                    Option.bind (strcpy FASL_PATH_LEN alpath) (\<lambda>alpath.
                      let t = t\<lparr>entries := (entries t)[i := \<lparr>pfsal = Some f, ppath = path, palpath = alpath\<rparr>]\<rparr>
                      in Some (0, if master_path t = None then t\<lparr>master_path := Some i\<rparr> else t)))))
      | _ \<Rightarrow> Some (-1, t))"

definition fsal_path_remove :: "path_table \<Rightarrow> string \<Rightarrow> int \<times> path_table" where
  "fsal_path_remove t path =
     (case find_slot (\<lambda>e. pfsal e \<noteq> None \<and> path = ppath e) (entries t) of
        Some i \<Rightarrow> (0, t\<lparr>entries := (entries t)[i := (entries t ! i)\<lparr>pfsal := None, ppath := []\<rparr>]\<rparr>)
      | None \<Rightarrow> (-1, t))"

text \<open>
  \<open>fsal_path_switch\<close>: the return code, the path for the file system in a buffer of \<open>MAX_PATH\<close> bytes, and
  the caller's path, of which a final \<open>/\<close> is cut off.
\<close>

definition master_tail :: "path_table \<Rightarrow> nat \<Rightarrow> string \<Rightarrow> string option" where
  "master_tail t i top_level =
     (let e = entries t ! i in
      if master_path t = Some i \<and> tl top_level \<noteq> [] \<and> palpath e \<noteq> top_level
      then strcat MAX_PATH (ppath e) top_level else Some (ppath e))"

definition fsal_path_switch :: "path_table \<Rightarrow> nat \<Rightarrow> string \<Rightarrow> (int \<times> string \<times> string) option" where
  "fsal_path_switch t i old_path =
     (case strchr old_path slash of None \<Rightarrow> Some (-1, [], old_path)
      | Some top_level \<Rightarrow>
          (case strchr (tl top_level) slash of
             None \<Rightarrow> map_option (\<lambda>n. (0, n, old_path)) (master_tail t i top_level)
           | Some start \<Rightarrow>
               if tl start = []
               then map_option (\<lambda>n. (0, n, butlast old_path)) (master_tail t i (butlast top_level))
               else Option.bind (fsal_path_find t top_level False)
                 (\<lambda>m. map_option (\<lambda>n. (0, n, old_path))
                    (strcat MAX_PATH (ppath (entries t ! i)) (if m = None then top_level else start)))))"

subsection \<open>The table as a map from mount points\<close>

text \<open>
  The entry mounted at a path, and the well-formed tables: no two entries are mounted at the same path, and
  the names fit. After \<open>fsal_path_remove\<close> on the first file system \<open>master_path\<close> still points to
  its free entry.
\<close>

definition mounts :: "path_table \<Rightarrow> string \<rightharpoonup> nat" where
  "mounts t a = find_slot (\<lambda>e. pfsal e \<noteq> None \<and> a = palpath e) (entries t)"

definition path_table_ok :: "path_table \<Rightarrow> bool" where
  "path_table_ok t \<longleftrightarrow> length (entries t) = FASL_PATH_NR \<and>
     (\<forall>i < FASL_PATH_NR. \<forall>j < FASL_PATH_NR. pfsal (entries t ! i) \<noteq> None \<longrightarrow> pfsal (entries t ! j) \<noteq> None \<longrightarrow>
        palpath (entries t ! i) = palpath (entries t ! j) \<longrightarrow> i = j) \<and>
     (\<forall>i < FASL_PATH_NR. length (ppath (entries t ! i)) < FASL_PATH_LEN \<and> length (palpath (entries t ! i)) < FASL_PATH_LEN) \<and>
     (case master_path t of None \<Rightarrow> \<forall>i < FASL_PATH_NR. pfsal (entries t ! i) = None | Some i \<Rightarrow> i < FASL_PATH_NR)"

lemma mounts_iff:
  assumes "path_table_ok t"
  shows "mounts t a = Some i \<longleftrightarrow> i < FASL_PATH_NR \<and> pfsal (entries t ! i) \<noteq> None \<and> palpath (entries t ! i) = a"
  using assms unfolding mounts_def path_table_ok_def find_slot_Some
  by (metis order_less_trans nat_neq_iff)

lemma mounts_None:
  "path_table_ok t \<Longrightarrow> mounts t a = None \<longleftrightarrow> (\<forall>i < FASL_PATH_NR. pfsal (entries t ! i) \<noteq> None \<longrightarrow> palpath (entries t ! i) \<noteq> a)"
proof -
  assume "path_table_ok t"
  then have "length (entries t) = FASL_PATH_NR" by (simp add: path_table_ok_def)
  then show ?thesis by (auto simp: mounts_def find_slot_None all_set_conv_all_nth)
qed

lemma strchr_below: "slash \<notin> set c \<Longrightarrow> strchr (c @ below cs) slash = (if cs = [] then None else Some (below cs))"
proof -
  assume "slash \<notin> set c"
  then have "strchr (c @ s) slash = strchr s slash" for s by (induction c) auto
  from this [of "below cs"] show ?thesis by (cases cs) auto
qed

text \<open>Looking up a path looks at its first component, which must fit in 23 characters with its \<open>/\<close>.\<close>

lemma fsal_path_find_first:
  assumes "comp_ok c"
  shows "fsal_path_find t (below (c # cs)) inmaster =
    (if length c + 1 < FASL_PATH_LEN
     then Some (case mounts t (slash # c) of Some i \<Rightarrow> Some i | None \<Rightarrow> if inmaster then master_path t else None)
     else None)"
proof -
  have c: "c \<noteq> []" "slash \<notin> set c" using assms by (auto simp: comp_ok_def)
  show ?thesis
    by (cases "cs = []") (simp_all add: fsal_path_find_def strcpy_def mounts_def strchr_below [OF c(2)] c(1) strchr_None [THEN iffD2, OF c(2)])
qed

lemma fsal_path_find_root: "fsal_path_find t ''/'' True = Some (master_path t)"
  by (simp add: fsal_path_find_def)

text \<open>
  \<open>fsal_path_find\<close> and \<open>fsal_path_switch\<close> implement a mount table: a clean absolute path goes to the
  file system mounted at its first component, with the rest of the path behind that file system's own
  prefix, and to the first file system (the master) with the whole path if nothing is mounted there.
\<close>

definition route :: "path_table \<Rightarrow> nat \<Rightarrow> string list \<Rightarrow> nat \<times> string" where
  "route t m cs = (case cs of [] \<Rightarrow> (m, ppath (entries t ! m))
     | c # r \<Rightarrow> (case mounts t (slash # c) of
          Some i \<Rightarrow> (i, ppath (entries t ! i) @ below r)
        | None \<Rightarrow> (m, ppath (entries t ! m) @ below cs)))"

lemma below_last: "cs \<noteq> [] \<Longrightarrow> \<forall>c \<in> set cs. comp_ok c \<Longrightarrow> tl (below cs) \<noteq> []"
  by (cases cs) (auto simp: comp_ok_def)

lemma route_reached:
  assumes t: "path_table_ok t" "master_path t = Some m" "pfsal (entries t ! m) \<noteq> None"
    and cs: "\<forall>c \<in> set cs. comp_ok c" "cs = [] \<or> length (hd cs) + 1 < FASL_PATH_LEN"
      "FASL_PATH_LEN + length (below cs) \<le> MAX_PATH"
    and r: "route t m cs = (i, new_path)"
  shows "fsal_path_find t (unparse cs) True = Some (Some i) \<and>
    fsal_path_switch t i (unparse cs) = Some (0, new_path, unparse cs)"
proof (cases cs)
  case Nil
  with r t(2) show ?thesis
    by (auto simp: route_def unparse_def fsal_path_find_root fsal_path_switch_def master_tail_def)
next
  case (Cons c r')
  have c: "comp_ok c" "slash \<notin> set c" "length c + 1 < FASL_PATH_LEN" "c \<noteq> []" and r': "\<forall>c \<in> set r'. comp_ok c"
    using cs Cons by (auto simp: comp_ok_def)
  have u: "unparse cs = below (c # r')" by (simp add: unparse_def Cons)
  have find: "fsal_path_find t (unparse cs) True = Some (Some i)"
    using r t(2) c(3) fsal_path_find_first [OF c(1), of t r' True] Cons u
    by (auto simp: route_def split: option.splits)
  have m: "m < FASL_PATH_NR" using t by (simp add: path_table_ok_def)
  have pl: "length (ppath (entries t ! j)) < FASL_PATH_LEN" if "j < FASL_PATH_NR" for j
    using t(1) that by (simp add: path_table_ok_def)
  have at: "palpath (entries t ! i) = slash # c \<and> i < FASL_PATH_NR \<and> new_path = ppath (entries t ! i) @ below r'"
    if "mounts t (slash # c) \<noteq> None"
  proof -
    from that obtain j where j: "mounts t (slash # c) = Some j" by blast
    with r Cons have "i = j" "new_path = ppath (entries t ! j) @ below r'" by (auto simp: route_def)
    with j [unfolded mounts_iff [OF t(1)]] show ?thesis by blast
  qed
  have no: "palpath (entries t ! m) \<noteq> slash # c \<and> i = m \<and> new_path = ppath (entries t ! m) @ below cs"
    if "mounts t (slash # c) = None"
  proof -
    have "palpath (entries t ! m) \<noteq> slash # c" using that [unfolded mounts_None [OF t(1)]] m t(3) by blast
    with that r Cons show ?thesis by (auto simp: route_def)
  qed
  have cat: "strcat MAX_PATH (ppath (entries t ! j)) s = Some (ppath (entries t ! j) @ s)"
    if "j < FASL_PATH_NR" "length s \<le> length (below cs)" for j s
    using pl [OF that(1)] that(2) cs(3) by (simp add: strcat_def)
  show ?thesis
  proof (cases r')
    case Nil
    have "master_tail t i (slash # c) = Some new_path"
      using at no c(4) Cons Nil t(2) cat [of m "slash # c"] m by (cases "mounts t (slash # c)") (auto simp: master_tail_def)
    then show ?thesis using find u Nil by (simp add: fsal_path_switch_def strchr_None [THEN iffD2, OF c(2)])
  next
    case r: (Cons c' r'')
    then have ne: "r' \<noteq> []" by simp
    then have s: "strchr (c @ below r') slash = Some (below r')" "tl (below r') \<noteq> []" "r' \<noteq> []"
      using strchr_below [OF c(2), of r'] below_last [OF ne r'] by simp_all
    have f: "fsal_path_find t (below (c # r')) False = Some (mounts t (slash # c))"
      using fsal_path_find_first [OF c(1), of t r' False] c(3) by (cases "mounts t (slash # c)") simp_all
    have "strcat MAX_PATH (ppath (entries t ! i)) (if mounts t (slash # c) = None then below cs else below r') = Some new_path"
      using at no cat [of i "below r'"] cat [of m "below cs"] m Cons by (cases "mounts t (slash # c)") auto
    then show ?thesis using find f s u Cons by (cases "mounts t (slash # c)") (simp_all add: fsal_path_switch_def)
  qed
qed

text \<open>
  Mounting and unmounting. A path of one component that is mounted already is refused, and so is a
  mount when all twelve entries are taken; otherwise the map gains exactly the new mount point, and
  the first file system mounted becomes the master. Unmounting by the file system's prefix removes
  one mount point whose prefix it is.
\<close>

lemma fsal_path_insert_spec:
  assumes t: "path_table_ok t" and c: "comp_ok c" "length c + 1 < FASL_PATH_LEN" and p: "length p < FASL_PATH_LEN"
  shows "fsal_path_insert t (Some p) (Some (slash # c)) (Some f) =
    (if mounts t (slash # c) \<noteq> None then Some (-1, t)
     else case fsal_path_alloc t of None \<Rightarrow> Some (-1, t)
       | Some i \<Rightarrow> Some (0, t\<lparr>entries := (entries t)[i := \<lparr>pfsal = Some f, ppath = p, palpath = slash # c\<rparr>],
            master_path := (if master_path t = None then Some i else master_path t)\<rparr>))"
  using fsal_path_find_first [OF c(1), of t "[]" False] c(2) p
  by (auto simp: fsal_path_insert_def strcpy_def Let_def split: option.splits)

lemma insert_refused:
  assumes "path_table_ok t" "comp_ok c" "length c + 1 < FASL_PATH_LEN" "length p < FASL_PATH_LEN"
    "mounts t (slash # c) \<noteq> None \<or> fsal_path_alloc t = None"
  shows "fsal_path_insert t (Some p) (Some (slash # c)) (Some f) = Some (-1, t)"
  using assms(5) by (auto simp: fsal_path_insert_spec [OF assms(1-4)])

lemma path_table_ok_update:
  assumes t: "path_table_ok t" and i: "i < FASL_PATH_NR"
    and e: "length (ppath e) < FASL_PATH_LEN" "length (palpath e) < FASL_PATH_LEN"
      "pfsal e \<noteq> None \<Longrightarrow> mounts t (palpath e) = None \<or> mounts t (palpath e) = Some i"
    and m: "case m of None \<Rightarrow> pfsal e = None \<and> master_path t = None | Some j \<Rightarrow> j < FASL_PATH_NR"
  shows "path_table_ok (t\<lparr>entries := (entries t)[i := e], master_path := m\<rparr>)"
proof -
  have len: "length (entries t) = FASL_PATH_NR" using t by (simp add: path_table_ok_def)
  have other: "palpath (entries t ! j) \<noteq> palpath e" if "pfsal e \<noteq> None" "j < FASL_PATH_NR" "j \<noteq> i" "pfsal (entries t ! j) \<noteq> None" for j
    using e(3) [OF that(1)] that mounts_iff [OF t, of "palpath e"] by (metis option.distinct(1) option.inject)
  show ?thesis
    using t i e(1,2) m other other [THEN not_sym] len unfolding path_table_ok_def
    by (simp add: nth_list_update split: option.splits)
qed

lemma mounts_update:
  assumes t: "path_table_ok t" and t': "path_table_ok (t\<lparr>entries := (entries t)[i := e], master_path := m\<rparr>)" and i: "i < FASL_PATH_NR"
  shows "mounts (t\<lparr>entries := (entries t)[i := e], master_path := m\<rparr>) a =
    (if pfsal e \<noteq> None \<and> palpath e = a then Some i else if mounts t a = Some i then None else mounts t a)"
proof -
  have len: "length (entries t) = FASL_PATH_NR" using t by (simp add: path_table_ok_def)
  have "mounts (t\<lparr>entries := (entries t)[i := e], master_path := m\<rparr>) a = Some j \<longleftrightarrow>
    (if pfsal e \<noteq> None \<and> palpath e = a then Some i else if mounts t a = Some i then None else mounts t a) = Some j" for j
    using i len mounts_iff [OF t', of a j] mounts_iff [OF t, of a j] mounts_iff [OF t', of a i]
    by (cases "j = i") (auto simp: nth_list_update)
  then show ?thesis by (metis not_None_eq)
qed

lemma insert_fresh:
  assumes t: "path_table_ok t" and c: "comp_ok c" "length c + 1 < FASL_PATH_LEN" and p: "length p < FASL_PATH_LEN"
    and new: "mounts t (slash # c) = None" "fsal_path_alloc t = Some i"
  obtains t' where "fsal_path_insert t (Some p) (Some (slash # c)) (Some f) = Some (0, t')" "path_table_ok t'"
    "mounts t' = (mounts t)(slash # c \<mapsto> i)" "i \<notin> ran (mounts t)" "i < FASL_PATH_NR"
    "entries t' = (entries t)[i := \<lparr>pfsal = Some f, ppath = p, palpath = slash # c\<rparr>]"
    "master_path t' = (if master_path t = None then Some i else master_path t)"
    "\<not> (\<forall>e \<in> set (entries t). pfsal e \<noteq> None)" "length (entries t) = FASL_PATH_NR"
proof -
  let ?e = "\<lparr>pfsal = Some f, ppath = p, palpath = slash # c\<rparr>"
  define m where "m = (if master_path t = None then Some i else master_path t)"
  let ?t = "t\<lparr>entries := (entries t)[i := ?e], master_path := m\<rparr>"
  have len: "length (entries t) = FASL_PATH_NR" using t by (simp add: path_table_ok_def)
  have free: "i < FASL_PATH_NR" "pfsal (entries t ! i) = None"
    using new(2) len by (auto simp: fsal_path_alloc_def find_slot_Some)
  have m: "case m of None \<Rightarrow> False | Some j \<Rightarrow> j < FASL_PATH_NR"
    using t free(1) by (auto simp: m_def path_table_ok_def split: option.splits)
  have ok: "path_table_ok ?t"
    by (rule path_table_ok_update [OF t free(1)]) (use c p new m in \<open>auto split: option.splits\<close>)
  have notin: "mounts t a \<noteq> Some i" for a using free(2) by (simp add: mounts_iff [OF t])
  show ?thesis
  proof (rule that [of ?t])
    show "fsal_path_insert t (Some p) (Some (slash # c)) (Some f) = Some (0, ?t)"
      using new by (simp add: fsal_path_insert_spec [OF t c p] m_def)
    show "mounts ?t = (mounts t)(slash # c \<mapsto> i)"
      using mounts_update [OF t ok free(1)] notin by (simp add: fun_eq_iff)
    show "i \<notin> ran (mounts t)" using notin by (auto simp: ran_def)
    show "\<not> (\<forall>e \<in> set (entries t). pfsal e \<noteq> None)" using free len nth_mem by metis
  qed (use ok free len m_def in simp_all)
qed

theorem mount_map:
  assumes t: "path_table_ok t" and c: "comp_ok c" "length c + 1 < FASL_PATH_LEN" and p: "length p < FASL_PATH_LEN"
  shows "\<exists>r t'. fsal_path_insert t (Some p) (Some (slash # c)) (Some f) = Some (r, t') \<and> path_table_ok t' \<and>
    (if mounts t (slash # c) \<noteq> None \<or> (\<forall>e \<in> set (entries t). pfsal e \<noteq> None) then r = -1 \<and> t' = t
     else r = 0 \<and> (\<exists>i. mounts t' = (mounts t)(slash # c \<mapsto> i) \<and> i \<notin> ran (mounts t) \<and>
       pfsal (entries t' ! i) = Some f \<and> ppath (entries t' ! i) = p \<and>
       master_path t' = (if master_path t = None then Some i else master_path t)))"
proof (cases "mounts t (slash # c) \<noteq> None \<or> fsal_path_alloc t = None")
  case True
  then have "mounts t (slash # c) \<noteq> None \<or> (\<forall>e \<in> set (entries t). pfsal e \<noteq> None)"
    by (simp add: fsal_path_alloc_def find_slot_None)
  with t True show ?thesis by (simp add: insert_refused [OF assms])
next
  case False
  then obtain i where i: "mounts t (slash # c) = None" "fsal_path_alloc t = Some i" by blast
  obtain t' where T: "fsal_path_insert t (Some p) (Some (slash # c)) (Some f) = Some (0, t')" "path_table_ok t'"
    "mounts t' = (mounts t)(slash # c \<mapsto> i)" "i \<notin> ran (mounts t)" "i < FASL_PATH_NR"
    "entries t' = (entries t)[i := \<lparr>pfsal = Some f, ppath = p, palpath = slash # c\<rparr>]"
    "master_path t' = (if master_path t = None then Some i else master_path t)"
    "\<not> (\<forall>e \<in> set (entries t). pfsal e \<noteq> None)" "length (entries t) = FASL_PATH_NR"
    by (rule insert_fresh [OF assms i])
  then have "pfsal (entries t' ! i) = Some f" "ppath (entries t' ! i) = p" by simp_all
  with T i(1) show ?thesis by (intro exI [of _ 0] exI [of _ t']) (auto intro!: exI [of _ i])
qed

lemma init_table_ok: "path_table_ok init_fsal_path_table"
  by (simp add: path_table_ok_def init_fsal_path_table_def FASL_PATH_LEN_def)

lemma fsal_path_insert_ok:
  assumes t: "path_table_ok t" and c: "comp_ok c" "length c + 1 < FASL_PATH_LEN" and p: "length p < FASL_PATH_LEN"
    and ins: "fsal_path_insert t (Some p) (Some (slash # c)) (Some f) = Some (r, t')"
  shows "path_table_ok t'"
proof (cases "mounts t (slash # c) \<noteq> None \<or> fsal_path_alloc t = None")
  case True
  with t ins show ?thesis by (simp add: insert_refused [OF assms(1-4)])
next
  case False
  then obtain i where i: "mounts t (slash # c) = None" "fsal_path_alloc t = Some i" by blast
  show ?thesis by (rule insert_fresh [OF assms(1-4) i, of f]) (use ins in auto)
qed

definition demo_mounts :: path_table where
  "demo_mounts = snd (the (fsal_path_insert
     (snd (the (fsal_path_insert init_fsal_path_table (Some ''0:'') (Some ''/root'') (Some 0)))) (Some ''1:'') (Some ''/usr'') (Some 1)))"

lemma demo_mounts_ok: "path_table_ok demo_mounts" "master_path demo_mounts = Some 0" "pfsal (entries demo_mounts ! 0) = Some 0"
proof -
  define t where "t = snd (the (fsal_path_insert init_fsal_path_table (Some ''0:'') (Some ''/root'') (Some 0)))"
  have "\<not> Option.is_none (fsal_path_insert init_fsal_path_table (Some ''0:'') (Some ''/root'') (Some 0))" by code_simp
  then have 1: "path_table_ok t"
    by (cases "fsal_path_insert init_fsal_path_table (Some ''0:'') (Some ''/root'') (Some 0)")
      (auto simp: t_def comp_ok_def FASL_PATH_LEN_def intro!: fsal_path_insert_ok [OF init_table_ok, where c = "''root''" and p = "''0:''"])
  have "\<not> Option.is_none (fsal_path_insert t (Some ''1:'') (Some ''/usr'') (Some 1))" unfolding t_def by code_simp
  then show "path_table_ok demo_mounts"
    by (cases "fsal_path_insert t (Some ''1:'') (Some ''/usr'') (Some 1)")
      (auto simp: demo_mounts_def t_def [symmetric] comp_ok_def FASL_PATH_LEN_def
        intro!: fsal_path_insert_ok [OF 1, where c = "''usr''" and p = "''1:''"])
  show "master_path demo_mounts = Some 0" "pfsal (entries demo_mounts ! 0) = Some 0" by code_simp+
qed

theorem mount_map_witness:
  "\<exists>r t'. fsal_path_insert demo_mounts (Some ''2:'') (Some ''/usr'') (Some 2) = Some (r, t') \<and> path_table_ok t'"
  using mount_map [of demo_mounts "''usr''" "''2:''" 2] demo_mounts_ok(1)
  by (auto simp: comp_ok_def FASL_PATH_LEN_def)

text \<open>
  A path whose first component has more than 22 characters overruns the buffer \<open>name\<close> of
  \<open>fsal_path_find\<close>; \<open>sys_open\<close> passes the caller's path to it unchecked.
\<close>

lemma find_overruns: "comp_ok c \<Longrightarrow> 23 \<le> length c \<Longrightarrow> fsal_path_find t (below (c # cs)) True = None"
  by (simp only: fsal_path_find_first FASL_PATH_LEN_def) simp

text \<open>Unmounting the first file system leaves \<open>master_path\<close> at a free entry, to which unknown paths still go.\<close>

lemma remove_master:
  assumes "path_table_ok t" "master_path t = Some m" "find_slot (\<lambda>e. pfsal e \<noteq> None \<and> path = ppath e) (entries t) = Some m"
  shows "\<exists>t'. fsal_path_remove t path = (0, t') \<and> path_table_ok t' \<and> master_path t' = Some m \<and>
    pfsal (entries t' ! m) = None \<and> mounts t' = (\<lambda>a. if mounts t a = Some m then None else mounts t a)"
proof -
  let ?e = "(entries t ! m)\<lparr>pfsal := None, ppath := []\<rparr>"
  let ?t = "t\<lparr>entries := (entries t)[m := ?e], master_path := master_path t\<rparr>"
  have m: "m < FASL_PATH_NR" using assms(1,2) by (simp add: path_table_ok_def)
  have ok: "path_table_ok ?t"
    by (rule path_table_ok_update [OF assms(1) m]) (use assms m in \<open>auto simp: path_table_ok_def FASL_PATH_LEN_def\<close>)
  have "fsal_path_remove t path = (0, ?t)" using assms(3) by (simp add: fsal_path_remove_def)
  moreover have "mounts ?t = (\<lambda>a. if mounts t a = Some m then None else mounts t a)"
    using mounts_update [OF assms(1) ok m] by (simp add: fun_eq_iff)
  ultimately show ?thesis
    using ok assms(1,2) m by (intro exI [of _ ?t]) (simp add: path_table_ok_def)
qed

end
