(* ===== verification/FsIf.thy ===== *)
theory FsIf
  imports FsPath
begin

section \<open>The file system interface\<close>

text \<open>
  \<open>src/src/fs/fsal/fsalif.c\<close>: the operations \<open>fsif\<close> of the kernel on files, which find the file system of a
  path or of an open file and call its operation; with the tables of open files and directories
  (\<open>fsal.c\<close>, \<open>dir.c\<close>) and the list of file system types (\<open>fstype.c\<close>). What a file system does is a
  parameter: its operations are the fields of the record \<open>fsal\<close> of \<open>src/src/include/fsal/fsal.h\<close>, on a state
  \<open>'w\<close> of the file systems and disks; data read or written is part of that state. The file system number
  \<open>f\<close> of a table entry has the operations \<open>fss f\<close>. As before, \<open>None\<close> is an overrun of a path buffer.
\<close>

type_synonym 'w fs_res = "'w \<Rightarrow> int \<times> 'w"

record 'w fsal =
  fs_name :: string
  fs_subtable :: "string list option"
  fs_open :: "string \<Rightarrow> u32 \<Rightarrow> 'w fs_res"
  fs_opendir :: "string \<Rightarrow> 'w fs_res"
  fs_mkdir :: "string \<Rightarrow> u32 \<Rightarrow> 'w fs_res"
  fs_unlink :: "string \<Rightarrow> 'w fs_res"
  fs_state :: "string \<Rightarrow> 'w fs_res"
  fs_chmod :: "string \<Rightarrow> u32 \<Rightarrow> 'w fs_res"
  fs_utime :: "string \<Rightarrow> int \<Rightarrow> int \<Rightarrow> 'w fs_res"
  fs_rmdir :: "string \<Rightarrow> 'w fs_res"
  fs_chdir :: "string \<Rightarrow> 'w fs_res"
  fs_access :: "string \<Rightarrow> u32 \<Rightarrow> 'w fs_res"
  fs_rename :: "string \<Rightarrow> string \<Rightarrow> 'w fs_res"
  fs_unmount :: "string \<Rightarrow> u32 \<Rightarrow> 'w fs_res"
  fs_mount :: "string \<Rightarrow> string \<Rightarrow> string \<Rightarrow> u32 \<Rightarrow> (path_table \<times> 'w) fs_res"
  fs_mkfs :: "string \<Rightarrow> string \<Rightarrow> u32 \<Rightarrow> 'w fs_res"
  fs_close :: "int \<Rightarrow> 'w fs_res"
  fs_ftruncate :: "int \<Rightarrow> int \<Rightarrow> 'w fs_res"
  fs_read :: "int \<Rightarrow> u32 \<Rightarrow> 'w fs_res"
  fs_write :: "int \<Rightarrow> u8 list \<Rightarrow> 'w fs_res"
  fs_lseek :: "int \<Rightarrow> int \<Rightarrow> int \<Rightarrow> 'w fs_res"
  fs_fsync :: "int \<Rightarrow> 'w fs_res"
  fs_feof :: "int \<Rightarrow> 'w fs_res"
  fs_ferror :: "int \<Rightarrow> 'w fs_res"
  fs_ftell :: "int \<Rightarrow> 'w fs_res"
  fs_fsize :: "int \<Rightarrow> 'w fs_res"
  fs_rewind :: "int \<Rightarrow> 'w fs_res"
  fs_ioctl :: "int \<Rightarrow> u32 \<Rightarrow> u32 \<Rightarrow> 'w fs_res"
  fs_fcntl :: "int \<Rightarrow> u32 \<Rightarrow> int \<Rightarrow> 'w fs_res"
  fs_closedir :: "int \<Rightarrow> 'w fs_res"
  fs_readdir :: "int \<Rightarrow> 'w fs_res"
  fs_rewinddir :: "int \<Rightarrow> 'w fs_res"
  fs_fstat :: "int \<Rightarrow> 'w fs_res"
  fs_fchmod :: "int \<Rightarrow> u32 \<Rightarrow> 'w fs_res"

subsection \<open>Open files and directories\<close>

text \<open>
  An entry of \<open>fsal_file_table\<close> or \<open>fsal_dir_table\<close>: whether it is used and its file system. Freeing an
  entry clears the flag only.
\<close>

definition FSAL_OPEN_NR :: nat where "FSAL_OPEN_NR = 128"
definition FSAL_USED :: u8 where "FSAL_USED = 1"

record fsal_file =
  fflags :: u8
  ffsal :: "nat option"

definition init_fsal_file_table :: "fsal_file list" where
  "init_fsal_file_table = replicate FSAL_OPEN_NR \<lparr>fflags = 0, ffsal = None\<rparr>"

definition fsal_file_alloc :: "fsal_file list \<Rightarrow> (nat \<times> fsal_file list) option" where
  "fsal_file_alloc tab = map_option (\<lambda>i. (i, tab[i := \<lparr>fflags = FSAL_USED, ffsal = None\<rparr>])) (find_slot (\<lambda>e. fflags e = 0) tab)"

definition fsal_file_free :: "fsal_file list \<Rightarrow> nat \<Rightarrow> int \<times> fsal_file list" where
  "fsal_file_free tab i = (if fflags (tab ! i) = 0 then (-1, tab) else (0, tab[i := (tab ! i)\<lparr>fflags := 0\<rparr>]))"

subsection \<open>Operations on a path\<close>

text \<open>What these operations have in common: the file system of the path, then its operation \<open>f\<close> on the path converted.\<close>

definition on_path :: "bool \<Rightarrow> path_table \<Rightarrow> (nat \<Rightarrow> 'w fsal) \<Rightarrow> string option \<Rightarrow>
    ('w fsal \<Rightarrow> string \<Rightarrow> 'w fs_res) \<Rightarrow> 'w \<Rightarrow> (int \<times> 'w) option" where
  "on_path inmaster t fss path f w =
     (case path of None \<Rightarrow> Some (-1, w)
      | Some path \<Rightarrow>
          Option.bind (fsal_path_find t path inmaster) (\<lambda>fpath. case fpath of None \<Rightarrow> Some (-1, w)
            | Some i \<Rightarrow> (case pfsal (entries t ! i) of None \<Rightarrow> Some (-1, w)
                | Some n \<Rightarrow> map_option (\<lambda>(r, new_path, _). if r < 0 then (-1, w) else f (fss n) new_path w)
                              (fsal_path_switch t i path))))"

definition fsif_open where
  "fsif_open t fss path flags = on_path True t fss path (\<lambda>fs p. fs_open fs p flags)"

definition fsif_opendir where
  "fsif_opendir t fss path = on_path True t fss path (\<lambda>fs p. fs_opendir fs p)"

definition fsif_mkdir where
  "fsif_mkdir t fss path mode = on_path True t fss path (\<lambda>fs p. fs_mkdir fs p mode)"

definition fsif_unlink where
  "fsif_unlink t fss path = on_path True t fss path (\<lambda>fs p. fs_unlink fs p)"

definition fsif_state where
  "fsif_state t fss path = on_path True t fss path (\<lambda>fs p. fs_state fs p)"

definition fsif_chmod where
  "fsif_chmod t fss path mode = on_path True t fss path (\<lambda>fs p. fs_chmod fs p mode)"

definition fsif_utime where
  "fsif_utime t fss path actime modtime = on_path True t fss path (\<lambda>fs p. fs_utime fs p actime modtime)"

definition fsif_rmdir where
  "fsif_rmdir t fss path = on_path True t fss path (\<lambda>fs p. fs_rmdir fs p)"

definition fsif_chdir where
  "fsif_chdir t fss path = on_path True t fss path (\<lambda>fs p. fs_chdir fs p)"

definition fsif_access where
  "fsif_access t fss path mode = on_path True t fss path (\<lambda>fs p. fs_access fs p mode)"

definition fsif_unmount where
  "fsif_unmount t fss path flags = on_path False t fss path (\<lambda>fs p. fs_unmount fs p flags)"

text \<open>\<open>__rename\<close> converts both paths with the entry of the old one.\<close>

definition fsif_rename :: "path_table \<Rightarrow> (nat \<Rightarrow> 'w fsal) \<Rightarrow> string option \<Rightarrow> string option \<Rightarrow> 'w \<Rightarrow> (int \<times> 'w) option" where
  "fsif_rename t fss old_path new_path w =
     (case (old_path, new_path) of (Some old, Some new) \<Rightarrow>
          Option.bind (fsal_path_find t old True) (\<lambda>fpath. case fpath of None \<Rightarrow> Some (-1, w)
            | Some i \<Rightarrow> (case pfsal (entries t ! i) of None \<Rightarrow> Some (-1, w)
                | Some n \<Rightarrow>
                    Option.bind (fsal_path_switch t i old) (\<lambda>(r, old2, _).
                      if r < 0 then Some (-1, w)
                      else map_option (\<lambda>(r, new2, _). if r < 0 then (-1, w) else fs_rename (fss n) old2 new2 w)
                             (fsal_path_switch t i new))))
      | _ \<Rightarrow> Some (-1, w))"

subsection \<open>Operations on an open file or directory\<close>

definition on_index :: "fsal_file list \<Rightarrow> (nat \<Rightarrow> 'w fsal) \<Rightarrow> int \<Rightarrow> ('w fsal \<Rightarrow> 'w fs_res) \<Rightarrow> 'w fs_res" where
  "on_index tab fss idx f w =
     (if idx < 0 \<or> int FSAL_OPEN_NR \<le> idx then (-1, w)
      else case ffsal (tab ! nat idx) of None \<Rightarrow> (-1, w) | Some n \<Rightarrow> f (fss n) w)"

definition fsif_close where
  "fsif_close files fss idx = on_index files fss idx (\<lambda>fs. fs_close fs idx)"

definition fsif_ftruncate where
  "fsif_ftruncate files fss idx off = on_index files fss idx (\<lambda>fs. fs_ftruncate fs idx off)"

definition fsif_read where
  "fsif_read files fss idx nbytes = on_index files fss idx (\<lambda>fs. fs_read fs idx nbytes)"

definition fsif_write where
  "fsif_write files fss idx data = on_index files fss idx (\<lambda>fs. fs_write fs idx data)"

definition fsif_lseek where
  "fsif_lseek files fss idx off whence = on_index files fss idx (\<lambda>fs. fs_lseek fs idx off whence)"

definition fsif_fsync where
  "fsif_fsync files fss idx = on_index files fss idx (\<lambda>fs. fs_fsync fs idx)"

definition fsif_feof where
  "fsif_feof files fss idx = on_index files fss idx (\<lambda>fs. fs_feof fs idx)"

definition fsif_ferror where
  "fsif_ferror files fss idx = on_index files fss idx (\<lambda>fs. fs_ferror fs idx)"

definition fsif_ftell where
  "fsif_ftell files fss idx = on_index files fss idx (\<lambda>fs. fs_ftell fs idx)"

definition fsif_fsize where
  "fsif_fsize files fss idx = on_index files fss idx (\<lambda>fs. fs_fsize fs idx)"

definition fsif_rewind where
  "fsif_rewind files fss idx = on_index files fss idx (\<lambda>fs. fs_rewind fs idx)"

definition fsif_ioctl where
  "fsif_ioctl files fss idx cmd arg = on_index files fss idx (\<lambda>fs. fs_ioctl fs idx cmd arg)"

definition fsif_fcntl where
  "fsif_fcntl files fss idx cmd arg = on_index files fss idx (\<lambda>fs. fs_fcntl fs idx cmd arg)"

definition fsif_closedir where
  "fsif_closedir dirs fss idx = on_index dirs fss idx (\<lambda>fs. fs_closedir fs idx)"

definition fsif_readdir where
  "fsif_readdir dirs fss idx = on_index dirs fss idx (\<lambda>fs. fs_readdir fs idx)"

definition fsif_rewinddir where
  "fsif_rewinddir dirs fss idx = on_index dirs fss idx (\<lambda>fs. fs_rewinddir fs idx)"

text \<open>\<open>__fstat\<close> and \<open>__fchmod\<close> look the index of the file up in the table of directories.\<close>

definition fsif_fstat where
  "fsif_fstat dirs fss idx = on_index dirs fss idx (\<lambda>fs. fs_fstat fs idx)"

definition fsif_fchmod where
  "fsif_fchmod dirs fss idx mode = on_index dirs fss idx (\<lambda>fs. fs_fchmod fs idx mode)"

subsection \<open>Mounting\<close>

text \<open>
  \<open>fstype_find\<close> searches the registered types by name, or by the names of their subtable. \<open>disk\<close> says
  whether \<open>disk_res_find\<close> knows the disk. The mount operation of the file system enters the mount point.
\<close>

definition fstype_find :: "'w fsal list \<Rightarrow> string \<Rightarrow> 'w fsal option" where
  "fstype_find types name = List.find
     (\<lambda>fs. case fs_subtable fs of None \<Rightarrow> fs_name fs = name | Some sub \<Rightarrow> name \<in> set sub) types"

definition fsif_mount :: "path_table \<Rightarrow> 'w fsal list \<Rightarrow> (string \<Rightarrow> bool) \<Rightarrow> string option \<Rightarrow> string option \<Rightarrow> string option \<Rightarrow>
    u32 \<Rightarrow> 'w \<Rightarrow> (int \<times> path_table \<times> 'w) option" where
  "fsif_mount t types disk source target fstype mountflags w =
     (case (source, target, fstype) of (Some source, Some target, Some fstype) \<Rightarrow>
          if \<not> disk source then Some (-1, t, w)
          else Option.bind (fsal_path_find t target False) (\<lambda>fpath.
            if fpath \<noteq> None then Some (-1, t, w)
            else case fstype_find types fstype of None \<Rightarrow> Some (-1, t, w)
              | Some fs \<Rightarrow> (case fs_mount fs source target fstype mountflags (t, w) of
                    (r, t, w) \<Rightarrow> Some (if r < 0 then -1 else 0, t, w)))
      | _ \<Rightarrow> Some (-1, t, w))"

definition fsif_mkfs :: "'w fsal list \<Rightarrow> (string \<Rightarrow> bool) \<Rightarrow> string option \<Rightarrow> string option \<Rightarrow> u32 \<Rightarrow> 'w fs_res" where
  "fsif_mkfs types disk source fstype flags w =
     (case (source, fstype) of (Some source, Some fstype) \<Rightarrow>
          if \<not> disk source then (-1, w)
          else (case fstype_find types fstype of None \<Rightarrow> (-1, w)
            | Some fs \<Rightarrow> (case fs_mkfs fs source fstype flags w of (r, w) \<Rightarrow> (if r < 0 then -1 else 0, w)))
      | _ \<Rightarrow> (-1, w))"

subsection \<open>Operations reach the file system of the path\<close>

lemmas path_ops = fsif_open_def fsif_opendir_def fsif_mkdir_def fsif_unlink_def fsif_state_def fsif_chmod_def
  fsif_utime_def fsif_rmdir_def fsif_chdir_def fsif_access_def

lemma on_path_routed:
  assumes t: "path_table_ok t" "master_path t = Some m" "pfsal (entries t ! m) \<noteq> None"
    and cs: "\<forall>c \<in> set cs. comp_ok c" "cs = [] \<or> length (hd cs) + 1 < FASL_PATH_LEN"
      "FASL_PATH_LEN + length (below cs) \<le> MAX_PATH"
    and r: "route t m cs = (i, new_path)" "pfsal (entries t ! i) = Some n"
  shows "on_path True t fss (Some (unparse cs)) f w = Some (f (fss n) new_path w)"
  using route_reached [OF t cs r(1)] r(2) by (simp add: on_path_def)



text \<open>A call on a file no open file has, or of a file system type nobody registered, changes nothing.\<close>

lemma on_index_bad: "idx < 0 \<or> int FSAL_OPEN_NR \<le> idx \<Longrightarrow> on_index tab fss idx f w = (-1, w)"
  by (simp add: on_index_def)

text \<open>With no directory open, \<open>fsif.fstat\<close> fails on every file.\<close>

lemma fstat_fails: "fsif_fstat init_fsal_file_table fss idx w = (-1, w)"
  by (auto simp: fsif_fstat_def on_index_def init_fsal_file_table_def FSAL_OPEN_NR_def)

end
