(* ===== verification/Fifo.thy ===== *)
theory Fifo
  imports Ipc Pipe
begin

section \<open>Named pipes\<close>

text \<open>
  \<open>src/src/ipc/fifo.c\<close>: the table of named pipes, a table of named slots like those of the semaphores and
  the message queues, with the identity and the reference counts of the reader and the writer. Each
  operation runs under the semaphore of the table and the mutex of the pipe and is one function here.
  \<open>fifo_alloc\<close> copies the name with \<open>strcpy\<close>: a name without terminator in its first 24 bytes overruns the
  slot (\<open>None\<close>). \<open>fifo_read\<close> and \<open>fifo_write\<close> are not modelled.
\<close>

definition IPC_READER :: u32 where "IPC_READER = 0x20"
definition IPC_WRITER :: u32 where "IPC_WRITER = 0x40"
definition IPC_SETRW :: u32 where "IPC_SETRW = 2"
definition IPC_SET :: u32 where "IPC_SET = 3"
definition FIFO_IN_WRITE :: u32 where "FIFO_IN_WRITE = 2"
definition FIFO_SIZE :: u32 where "FIFO_SIZE = 4096"

record fifo =
  fid :: int
  fring :: "fifo_buf option"
  freader :: "tid option"
  fwriter :: "tid option"
  fifo_flags :: u32
  readref :: int
  writeref :: int
  fmutex :: mutexlock
  fname :: "u8 list"

definition fifo_find_by_name :: "fifo list \<Rightarrow> mem \<Rightarrow> nat option" where
  "fifo_find_by_name tbl nm = find_slot (\<lambda>r. named (fname r) \<and> strcmp (fname r) nm 0 = 0) tbl"

definition fifo_find_by_id :: "fifo list \<Rightarrow> int \<Rightarrow> nat option" where
  "fifo_find_by_id tbl fifoid = find_slot (\<lambda>r. fid r = fifoid \<and> named (fname r)) tbl"

text \<open>Neither the flags nor the reader and the writer are reset.\<close>

definition fifo_fill :: "mem \<Rightarrow> fifo_buf \<Rightarrow> fifo \<Rightarrow> fifo" where
  "fifo_fill nm ring r = r\<lparr>fring := Some ring, fname := copy_name nm, readref := 0, writeref := 0\<rparr>"

definition fifo_alloc :: "fifo list \<Rightarrow> mem \<Rightarrow> mem option \<Rightarrow> fifo_buf option \<Rightarrow> (nat \<times> fifo list) alloc_outcome" where
  "fifo_alloc tbl nm buf ring =
     (case find_slot (\<lambda>r. \<not> named (fname r)) tbl of None \<Rightarrow> AllocNull
      | Some i \<Rightarrow> (case fifo_buf_alloc FIFO_SIZE buf ring of
            AllocNull \<Rightarrow> AllocNull | Diverges \<Rightarrow> Diverges
          | AssertFails \<Rightarrow> AssertFails
          | Allocated b \<Rightarrow> if 0 \<in> set (bytes nm NAME_LEN) then Allocated (i, tbl[i := fifo_fill nm b (tbl ! i)]) else AssertFails))"

definition fifo_free :: "fifo \<Rightarrow> fifo" where
  "fifo_free r = r\<lparr>fring := None, fname := clear_name\<rparr>"

definition nowait_flag :: "nat \<Rightarrow> u32 \<Rightarrow> fifo \<Rightarrow> fifo" where
  "nowait_flag sh flags r = (if flags AND IPC_NOWAIT \<noteq> 0 then r\<lparr>fifo_flags := fifo_flags r OR push_bit sh IPC_NOWAIT\<rparr> else r)"

text \<open>Joining a pipe that exists: the first reader wakes a writer that waits for one.\<close>

definition fifo_join_writer :: "tid \<Rightarrow> u32 \<Rightarrow> fifo \<Rightarrow> fifo" where
  "fifo_join_writer me flags r =
     (let r = (if fwriter r = None \<and> writeref r = 0 then r\<lparr>fwriter := Some me\<rparr> else r)
      in nowait_flag 24 flags (r\<lparr>writeref := writeref r + 1\<rparr>))"

definition fifo_join_reader :: "sched \<Rightarrow> tid \<Rightarrow> u32 \<Rightarrow> fifo \<Rightarrow> (sched \<times> fifo) option" where
  "fifo_join_reader s me flags r =
     (let first = (freader r = None \<and> readref r = 0);
          r' = nowait_flag 16 flags ((if first then r\<lparr>freader := Some me\<rparr> else r)\<lparr>readref := readref r + 1\<rparr>)
      in case fwriter r of
           Some w \<Rightarrow> if first \<and> state (tasks s w) = TASK_BLOCKED \<and> fifo_flags r AND FIFO_IN_WRITE \<noteq> 0
             then map_option (\<lambda>s. (s, r')) (task_unblock s w) else Some (s, r')
         | None \<Rightarrow> Some (s, r'))"

text \<open>Opening a new one.\<close>

definition fifo_first :: "tid \<Rightarrow> u32 \<Rightarrow> fifo \<Rightarrow> fifo" where
  "fifo_first me flags r =
     (if flags AND IPC_READER \<noteq> 0 then nowait_flag 16 flags (r\<lparr>freader := Some me, readref := 1\<rparr>)
      else if flags AND IPC_WRITER \<noteq> 0 then nowait_flag 24 flags (r\<lparr>fwriter := Some me, writeref := 1\<rparr>)
      else r)"

definition fifo_get :: "sched \<Rightarrow> fifo list \<Rightarrow> mem option \<Rightarrow> u32 \<Rightarrow> mem option \<Rightarrow> fifo_buf option \<Rightarrow> (int \<times> sched \<times> fifo list) option" where
  "fifo_get s tbl name flags buf ring =
     (case name of None \<Rightarrow> Some (-1, s, tbl)
      | Some nm \<Rightarrow>
          if flags AND IPC_CREAT = 0 then Some (-1, s, tbl)
          else case fifo_find_by_name tbl nm of
            Some i \<Rightarrow>
              if flags AND IPC_EXCL \<noteq> 0 then Some (-1, s, tbl)
              else if flags AND IPC_READER \<noteq> 0
              then map_option (\<lambda>(s, r). (fid r, s, tbl[i := r])) (fifo_join_reader s (cur s) flags (tbl ! i))
              else if flags AND IPC_WRITER \<noteq> 0
              then Some (fid (tbl ! i), s, tbl[i := fifo_join_writer (cur s) flags (tbl ! i)])
              else Some (fid (tbl ! i), s, tbl)
          | None \<Rightarrow> (case fifo_alloc tbl nm buf ring of
                AllocNull \<Rightarrow> Some (-1, s, tbl) | Diverges \<Rightarrow> None | AssertFails \<Rightarrow> None
              | Allocated (i, tbl) \<Rightarrow> Some (fid (tbl ! i), s, tbl[i := fifo_first (cur s) flags (tbl ! i)])))"

text \<open>Only the task recorded as the reader or the writer gives a reference back.\<close>

definition fifo_leave :: "tid \<Rightarrow> fifo \<Rightarrow> fifo" where
  "fifo_leave me r =
     (if freader r = Some me
      then r\<lparr>readref := readref r - 1, freader := if readref r = 1 then None else freader r\<rparr>
      else if fwriter r = Some me
      then r\<lparr>writeref := writeref r - 1, fwriter := if writeref r = 1 then None else fwriter r\<rparr>
      else r)"

definition fifo_put :: "tid \<Rightarrow> fifo list \<Rightarrow> int \<Rightarrow> int \<times> fifo list" where
  "fifo_put me tbl fifoid =
     (case fifo_find_by_id tbl fifoid of None \<Rightarrow> (-1, tbl)
      | Some i \<Rightarrow>
          let r = fifo_leave me (tbl ! i)
          in (0, tbl[i := if freader r = None \<and> fwriter r = None then fifo_free r else r]))"

definition fifo_set_rdwr :: "tid \<Rightarrow> fifo list \<Rightarrow> int \<Rightarrow> u32 \<Rightarrow> int \<times> fifo list" where
  "fifo_set_rdwr me tbl fifoid arg =
     (case fifo_find_by_id tbl fifoid of None \<Rightarrow> (-1, tbl)
      | Some i \<Rightarrow>
          if arg = IPC_READER then (0, tbl[i := (tbl ! i)\<lparr>freader := Some me\<rparr>])
          else if arg = IPC_WRITER then (0, tbl[i := (tbl ! i)\<lparr>fwriter := Some me\<rparr>])
          else (-1, tbl))"

definition fifo_set_flags :: "tid \<Rightarrow> fifo list \<Rightarrow> int \<Rightarrow> u32 \<Rightarrow> int \<times> fifo list" where
  "fifo_set_flags me tbl fifoid arg =
     (case fifo_find_by_id tbl fifoid of None \<Rightarrow> (-1, tbl)
      | Some i \<Rightarrow>
          let add = \<lambda>sh. tbl[i := (tbl ! i)\<lparr>fifo_flags := fifo_flags (tbl ! i) OR push_bit sh (arg AND 0xff)\<rparr>]
          in if freader (tbl ! i) = Some me then (0, add 16)
             else if fwriter (tbl ! i) = Some me then (0, add 24)
             else (-1, tbl))"

definition fifo_ctl :: "tid \<Rightarrow> fifo list \<Rightarrow> int \<Rightarrow> u32 \<Rightarrow> u32 \<Rightarrow> int \<times> fifo list" where
  "fifo_ctl me tbl fifoid cmd arg =
     (if cmd = IPC_SETRW then fifo_set_rdwr me tbl fifoid arg
      else if cmd = IPC_SET then fifo_set_flags me tbl fifoid arg
      else (-1, tbl))"

definition fifo_grow :: "tid \<Rightarrow> fifo list \<Rightarrow> int \<Rightarrow> int \<times> fifo list" where
  "fifo_grow me tbl fifoid =
     (case fifo_find_by_id tbl fifoid of None \<Rightarrow> (-1, tbl)
      | Some i \<Rightarrow>
          if freader (tbl ! i) = Some me \<and> readref (tbl ! i) > 0
          then (0, tbl[i := (tbl ! i)\<lparr>readref := readref (tbl ! i) + 1\<rparr>])
          else if fwriter (tbl ! i) = Some me \<and> writeref (tbl ! i) > 0
          then (0, tbl[i := (tbl ! i)\<lparr>writeref := writeref (tbl ! i) + 1\<rparr>])
          else (-1, tbl))"

text \<open>\<open>init_fifo\<close>: the flags and counts are what \<open>kmalloc\<close> returned.\<close>

definition init_fifo :: "fifo list \<Rightarrow> fifo list" where
  "init_fifo raw = List.map (\<lambda>i. (raw ! i)\<lparr>fid := 1 + int i + int i * 2, fmutex := mutexlock_init, fname := clear_name,
     fring := None, freader := None, fwriter := None\<rparr>) [0..<TABLE_NR]"

interpretation fifo_table: name_table fname fid fifo_fill fifo_free
  by unfold_locales (simp_all add: fifo_fill_def fifo_free_def stores_copy_name)

abbreviation fifo_map :: "fifo list \<Rightarrow> u8 list \<rightharpoonup> int" where
  "fifo_map \<equiv> table_map fname fid"

abbreviation fifo_table_ok :: "fifo list \<Rightarrow> bool" where
  "fifo_table_ok \<equiv> table_ok fname fid"

lemma init_fifo_ok: "fifo_table_ok (init_fifo raw)"
  by (rule table_okI) (simp_all add: init_fifo_def)

subsection \<open>The table as a map from names\<close>

lemma frame_name:
  "fname (nowait_flag sh fl r) = fname r" "fid (nowait_flag sh fl r) = fid r"
  "fname (fifo_join_writer me fl r) = fname r" "fid (fifo_join_writer me fl r) = fid r"
  "fname (fifo_first me fl r) = fname r" "fid (fifo_first me fl r) = fid r"
  "fname (fifo_leave me r) = fname r" "fid (fifo_leave me r) = fid r"
  by (simp_all add: nowait_flag_def fifo_join_writer_def fifo_first_def fifo_leave_def Let_def)

lemma frame_join_reader: "fifo_join_reader s me fl r = Some (s', r') \<Longrightarrow> fname r' = fname r \<and> fid r' = fid r"
  by (auto simp: fifo_join_reader_def Let_def frame_name split: option.splits if_splits)

text \<open>A change of a slot that keeps its name and id is none to the map.\<close>

lemma table_frame:
  assumes "fname r = fname (tbl ! i)" "fid r = fid (tbl ! i)" "i < length tbl"
  shows "fifo_table_ok (tbl[i := r]) = fifo_table_ok tbl" "fifo_map (tbl[i := r]) = fifo_map tbl"
proof -
  have n: "map fname (tbl[i := r]) = map fname tbl" "map fid (tbl[i := r]) = map fid tbl"
    using assms by (simp_all add: list_eq_iff_nth_eq nth_list_update)
  have find: "find_slot_from (\<lambda>r. P (fname r)) k xs = find_slot_from P k (map fname xs)" for P k and xs :: "fifo list"
    by (induction xs arbitrary: k) auto
  have nth: "fname (tbl[i := r] ! j) = fname (tbl ! j)" "fid (tbl[i := r] ! j) = fid (tbl ! j)" if "j < length tbl" for j
    using assms that by (simp_all add: nth_list_update)
  show "fifo_table_ok (tbl[i := r]) = fifo_table_ok tbl"
    using nth unfolding table_ok_def by (simp add: all_set_conv_all_nth del: One_nat_def cong: conj_cong)
  show "fifo_map (tbl[i := r]) = fifo_map tbl"
  proof
    fix s
    have "find_slot (\<lambda>r. named (fname r) \<and> str_of (fname r) = s) (tbl[i := r]) =
        find_slot (\<lambda>r. named (fname r) \<and> str_of (fname r) = s) tbl"
      unfolding find [of "\<lambda>n. named n \<and> str_of n = s"] n ..
    then show "fifo_map (tbl[i := r]) s = fifo_map tbl s"
      using nth by (auto simp: table_map_def find_slot_Some intro!: option.map_cong)
  qed
qed

lemma fifo_by_name:
  assumes "fifo_table_ok tbl" "fits nm"
  shows "fifo_map tbl (name_str nm) = map_option (\<lambda>i. fid (tbl ! i)) (fifo_find_by_name tbl nm)"
  using fifo_table.by_name [OF assms] by (simp add: fifo_find_by_name_def)

lemma find_by_name_less: "fifo_find_by_name tbl nm = Some i \<Longrightarrow> i < length tbl"
  by (simp add: fifo_find_by_name_def find_slot_Some)

lemma fits_terminated: "fits nm \<Longrightarrow> 0 \<in> set (bytes nm NAME_LEN)"
  by (force simp: fits_def in_set_conv_nth)

text \<open>
  \<open>fifo_get\<close> opens the pipe of the name, or creates it; with \<open>IPC_EXCL\<close> an existing one is refused. No
  name ever gets two pipes.
\<close>

lemma fifo_get_map:
  assumes ok: "fifo_table_ok tbl" and nm: "fits nm" and flags: "flags AND IPC_CREAT \<noteq> 0"
    and get: "fifo_get s tbl (Some nm) flags buf ring = Some (v, s', tbl')"
  shows "fifo_table_ok tbl' \<and>
    (case fifo_map tbl (name_str nm) of
       Some x \<Rightarrow> v = (if flags AND IPC_EXCL \<noteq> 0 then -1 else x) \<and> fifo_map tbl' = fifo_map tbl
     | None \<Rightarrow> v = -1 \<and> tbl' = tbl \<or> 0 < v \<and> v \<notin> ran (fifo_map tbl) \<and> fifo_map tbl' = (fifo_map tbl)(name_str nm \<mapsto> v))"
proof (cases "fifo_find_by_name tbl nm")
  case (Some i)
  then have i: "i < length tbl" by (rule find_by_name_less)
  have "v = (if flags AND IPC_EXCL \<noteq> 0 then -1 else fid (tbl ! i)) \<and>
    fname (tbl' ! i) = fname (tbl ! i) \<and> fid (tbl' ! i) = fid (tbl ! i) \<and> tbl' = tbl[i := tbl' ! i]"
    using get Some flags i
    by (auto simp: fifo_get_def frame_name dest: frame_join_reader split: if_splits)
  with table_frame(1,2) [of "tbl' ! i" tbl i] i ok Some show ?thesis by (auto simp: fifo_by_name [OF ok nm])
next
  case None
  then have new: "fifo_map tbl (name_str nm) = None" by (simp add: fifo_by_name [OF ok nm])
  show ?thesis
  proof (cases "fifo_alloc tbl nm buf ring")
    case (Allocated p)
    then obtain i b where i: "p = (i, tbl[i := fifo_fill nm b (tbl ! i)])" "find_slot (\<lambda>r. \<not> named (fname r)) tbl = Some i"
      using fits_terminated [OF nm] by (auto simp: fifo_alloc_def split: option.splits alloc_outcome.splits)
    let ?t = "tbl[i := fifo_fill nm b (tbl ! i)]"
    have len: "i < length tbl" using i(2) by (simp add: find_slot_Some)
    note C = fifo_table.create_slot [OF ok nm new i(2)]
    have tbl': "v = fid (tbl ! i)" "tbl' = ?t[i := fifo_first (cur s) flags (?t ! i)]"
      using get None Allocated i(1) flags len by (auto simp: fifo_get_def fifo_table.id_fill)
    have "0 < v" using table_okD(2) [OF ok len] tbl'(1) by simp
    with C(1,2) [of b] C(3) table_frame [of "fifo_first (cur s) flags (?t ! i)" ?t i] len new show ?thesis
      unfolding tbl' by (simp add: frame_name)
  qed (use get None flags new ok in \<open>auto simp: fifo_get_def\<close>)
qed

text \<open>
  \<open>fifo_put\<close> releases the name when the last reference of the recorded reader and of the recorded
  writer is back. A task that is neither, such as the child after a fork or a second reader, gives back
  nothing, so that its reference keeps the pipe for ever.
\<close>

lemma fifo_put_map:
  assumes ok: "fifo_table_ok tbl" and i: "fifo_find_by_id tbl fifoid = Some i"
  shows "\<exists>tbl'. fifo_put me tbl fifoid = (0, tbl') \<and> fifo_table_ok tbl' \<and>
    fifo_map tbl' = (if freader (fifo_leave me (tbl ! i)) = None \<and> fwriter (fifo_leave me (tbl ! i)) = None
      then (\<lambda>s. if fifo_map tbl s = Some fifoid then None else fifo_map tbl s) else fifo_map tbl)"
proof -
  let ?r = "fifo_leave me (tbl ! i)"
  have len: "i < length tbl" "fid (tbl ! i) = fifoid" using i by (auto simp: fifo_find_by_id_def find_slot_Some)
  have frame: "fifo_table_ok (tbl[i := ?r])" "fifo_map (tbl[i := ?r]) = fifo_map tbl"
    using table_frame [of ?r tbl i] len(1) ok by (simp_all add: frame_name)
  have rm: "fifo_table_ok (tbl[i := fifo_free ?r])"
    "fifo_map (tbl[i := fifo_free ?r]) s = (if fifo_map tbl s = Some fifoid then None else fifo_map tbl s)" for s
    using fifo_table.remove_slot [OF frame(1), of i] len frame(2) by (simp_all add: frame_name)
  then have "fifo_map (tbl[i := fifo_free ?r]) = (\<lambda>s. if fifo_map tbl s = Some fifoid then None else fifo_map tbl s)"
    by (rule_tac ext)
  with rm(1) frame show ?thesis by (simp add: fifo_put_def i Let_def)
qed

lemma fifo_put_stranger:
  assumes "fifo_find_by_id tbl fifoid = Some i" "freader (tbl ! i) \<noteq> Some me" "fwriter (tbl ! i) \<noteq> Some me"
    "freader (tbl ! i) \<noteq> None \<or> fwriter (tbl ! i) \<noteq> None"
  shows "fifo_put me tbl fifoid = (0, tbl)"
  using assms by (auto simp: fifo_put_def fifo_leave_def Let_def)

text \<open>A new pipe inherits the flags of the one that had its slot before.\<close>

lemma fifo_flags_inherited:
  "fifo_flags (fifo_fill nm b (fifo_free r)) = fifo_flags r"
  by (simp add: fifo_fill_def fifo_free_def)

end
