(* ===== verification/Device.thy ===== *)
theory Device
  imports IpcTable
begin

section \<open>Device handles\<close>

text \<open>
  The handle table and the reference counts of \<open>src/src/kernel/driver.c\<close>. The devices of all drivers, in
  the order of the search, are a list; a pointer to a device is its index. What the driver answers to
  the open or the close request, the allocation of the request included, is an argument; \<open>DeviceIO\<close>
  has the requests.
\<close>

definition DEVICE_HANDLE_NR :: nat where "DEVICE_HANDLE_NR = 32"

record device_object =
  dev_name :: string
  dev_type :: nat
  reference :: int

record devices =
  devs :: "device_object list"
  handles :: "nat option list"

definition device_handle_table_search_by_name :: "devices \<Rightarrow> string \<Rightarrow> nat option" where
  "device_handle_table_search_by_name ds name =
     Option.bind (find_slot (\<lambda>h. case h of None \<Rightarrow> False | Some d \<Rightarrow> dev_name (devs ds ! d) = name) (handles ds))
       (\<lambda>i. handles ds ! i)"

definition io_search_device_by_name :: "devices \<Rightarrow> string \<Rightarrow> nat option" where
  "io_search_device_by_name ds name =
     (case device_handle_table_search_by_name ds name of Some d \<Rightarrow> Some d
      | None \<Rightarrow> find_slot (\<lambda>d. dev_name d = name) (devs ds))"

definition device_handle_find_by_object :: "devices \<Rightarrow> nat \<Rightarrow> int" where
  "device_handle_find_by_object ds d =
     (case find_slot (\<lambda>h. h = Some d) (handles ds) of Some i \<Rightarrow> int i | None \<Rightarrow> -1)"

definition device_handle_table_insert :: "devices \<Rightarrow> nat \<Rightarrow> int \<times> devices" where
  "device_handle_table_insert ds d =
     (case find_slot (\<lambda>h. h = None) (handles ds) of
        Some i \<Rightarrow> (int i, ds\<lparr>handles := (handles ds)[i := Some d]\<rparr>) | None \<Rightarrow> (-1, ds))"

definition device_handle_table_remove :: "devices \<Rightarrow> nat \<Rightarrow> int \<times> devices" where
  "device_handle_table_remove ds d =
     (case find_slot (\<lambda>h. case h of None \<Rightarrow> False
          | Some e \<Rightarrow> dev_name (devs ds ! e) = dev_name (devs ds ! d) \<and> dev_type (devs ds ! e) = dev_type (devs ds ! d)) (handles ds) of
        Some i \<Rightarrow> (0, ds\<lparr>handles := (handles ds)[i := None]\<rparr>) | None \<Rightarrow> (-1, ds))"

definition add_reference :: "int \<Rightarrow> devices \<Rightarrow> nat \<Rightarrow> devices" where
  "add_reference n ds d = ds\<lparr>devs := (devs ds)[d := (devs ds ! d)\<lparr>reference := reference (devs ds ! d) + n\<rparr>]\<rparr>"

definition io_device_increase_reference :: "devices \<Rightarrow> nat \<Rightarrow> bool \<times> devices" where
  "io_device_increase_reference ds d =
     (if reference (devs ds ! d) \<ge> 0 then (True, add_reference 1 ds d) else (False, ds))"

definition io_device_decrease_reference :: "devices \<Rightarrow> nat \<Rightarrow> bool \<times> devices" where
  "io_device_decrease_reference ds d =
     (if reference (devs ds ! d) \<ge> 0 then (True, add_reference (-1) ds d) else (False, ds))"

definition device_open :: "devices \<Rightarrow> string \<Rightarrow> bool \<Rightarrow> int \<times> devices" where
  "device_open ds devname opened =
     (case io_search_device_by_name ds devname of None \<Rightarrow> (-1, ds)
      | Some d \<Rightarrow>
          (case io_device_increase_reference ds d of (ok, ds) \<Rightarrow>
             if \<not> ok then (-1, ds)
             else if reference (devs ds ! d) = 1
             then if opened then device_handle_table_insert ds d else (-1, snd (io_device_decrease_reference ds d))
             else (device_handle_find_by_object ds d, ds)))"

definition by_handle :: "devices \<Rightarrow> int \<Rightarrow> nat option" where
  "by_handle ds h = (if h < 0 \<or> int DEVICE_HANDLE_NR \<le> h then None else handles ds ! nat h)"

definition device_close :: "devices \<Rightarrow> int \<Rightarrow> bool \<Rightarrow> int \<times> devices" where
  "device_close ds handle closed =
     (case by_handle ds handle of None \<Rightarrow> (-1, ds)
      | Some d \<Rightarrow>
          (case io_device_decrease_reference ds d of (ok, ds) \<Rightarrow>
             if \<not> ok then (-1, ds)
             else if reference (devs ds ! d) = 0
             then if closed then device_handle_table_remove ds d else (-1, snd (io_device_increase_reference ds d))
             else (0, ds)))"

definition device_grow :: "devices \<Rightarrow> int \<Rightarrow> int \<times> devices" where
  "device_grow ds handle =
     (case by_handle ds handle of None \<Rightarrow> (-1, ds)
      | Some d \<Rightarrow> (case io_device_increase_reference ds d of (ok, ds) \<Rightarrow> (if ok then 0 else -1, ds)))"

definition device_degrow :: "devices \<Rightarrow> int \<Rightarrow> int \<times> devices" where
  "device_degrow ds handle =
     (case by_handle ds handle of None \<Rightarrow> (-1, ds)
      | Some d \<Rightarrow> (case io_device_decrease_reference ds d of (ok, ds) \<Rightarrow> (if ok then 0 else -1, ds)))"

subsection \<open>Open, close and grow keep the table\<close>

text \<open>
  A device has at most one handle, and only while it is referenced. The devices in the table have distinct
  names, so that removing one by its name removes its own handle.
\<close>

definition devices_ok :: "devices \<Rightarrow> bool" where
  "devices_ok ds \<longleftrightarrow> length (handles ds) = DEVICE_HANDLE_NR \<and> distinct (map dev_name (devs ds)) \<and>
     (\<forall>d < length (devs ds). 0 \<le> reference (devs ds ! d)) \<and>
     (\<forall>i < DEVICE_HANDLE_NR. \<forall>d. handles ds ! i = Some d \<longrightarrow> d < length (devs ds) \<and> 1 \<le> reference (devs ds ! d) \<and>
        (\<forall>j < DEVICE_HANDLE_NR. handles ds ! j = Some d \<longrightarrow> j = i))"

lemma devices_okD:
  assumes "devices_ok ds"
  shows "length (handles ds) = DEVICE_HANDLE_NR" "distinct (map dev_name (devs ds))"
    "d < length (devs ds) \<Longrightarrow> 0 \<le> reference (devs ds ! d)"
    "i < DEVICE_HANDLE_NR \<Longrightarrow> handles ds ! i = Some d \<Longrightarrow> d < length (devs ds)"
    "i < DEVICE_HANDLE_NR \<Longrightarrow> handles ds ! i = Some d \<Longrightarrow> 1 \<le> reference (devs ds ! d)"
    "i < DEVICE_HANDLE_NR \<Longrightarrow> handles ds ! i = Some d \<Longrightarrow> j < DEVICE_HANDLE_NR \<Longrightarrow> handles ds ! j = Some d \<Longrightarrow> j = i"
  using assms unfolding devices_ok_def by blast+

lemma devices_okI:
  assumes "length (handles ds) = DEVICE_HANDLE_NR" "distinct (map dev_name (devs ds))"
    and "\<And>d. d < length (devs ds) \<Longrightarrow> 0 \<le> reference (devs ds ! d)"
    and "\<And>i d. i < DEVICE_HANDLE_NR \<Longrightarrow> handles ds ! i = Some d \<Longrightarrow> d < length (devs ds) \<and> 1 \<le> reference (devs ds ! d)"
    and "\<And>i j d. i < DEVICE_HANDLE_NR \<Longrightarrow> handles ds ! i = Some d \<Longrightarrow> j < DEVICE_HANDLE_NR \<Longrightarrow> handles ds ! j = Some d \<Longrightarrow> j = i"
  shows "devices_ok ds"
  using assms unfolding devices_ok_def by blast

lemma add_reference_simps [simp]:
  "handles (add_reference n ds d) = handles ds" "length (devs (add_reference n ds d)) = length (devs ds)"
  "map dev_name (devs (add_reference n ds d)) = map dev_name (devs ds)"
  by (simp_all add: add_reference_def map_update) (metis list_update_id map_update)

lemma reference_add:
  "e < length (devs ds) \<Longrightarrow> reference (devs (add_reference n ds d) ! e) = reference (devs ds ! e) + (if e = d then n else 0)"
  by (auto simp: add_reference_def nth_list_update)

lemma search_less:
  assumes "devices_ok ds" "io_search_device_by_name ds name = Some d"
  shows "d < length (devs ds)"
  using assms devices_okD(1,4) [OF assms(1)]
  by (auto simp: io_search_device_by_name_def device_handle_table_search_by_name_def find_slot_Some
      split: option.splits bind_splits)

lemma devices_ok_grow:
  assumes "devices_ok ds" "0 \<le> n" "d < length (devs ds)"
  shows "devices_ok (add_reference n ds d)"
proof -
  have "1 \<le> reference (devs (add_reference n ds d) ! e)" if "e < length (devs ds)" "1 \<le> reference (devs ds ! e)" for e
    using that assms(2) by (auto simp: reference_add)
  note pos = this
  show ?thesis
  proof (rule devices_okI)
    show "0 \<le> reference (devs (add_reference n ds d) ! e)" if "e < length (devs (add_reference n ds d))" for e
      using that assms(2) devices_okD(3) [OF assms(1), of e] by (auto simp: reference_add)
    fix i e assume i: "i < DEVICE_HANDLE_NR" "handles (add_reference n ds d) ! i = Some e"
    then have h: "handles ds ! i = Some e" by simp
    show "e < length (devs (add_reference n ds d)) \<and> 1 \<le> reference (devs (add_reference n ds d) ! e)"
      using pos devices_okD(4,5) [OF assms(1) i(1) h] by simp
    fix j assume "j < DEVICE_HANDLE_NR" "handles (add_reference n ds d) ! j = Some e"
    with devices_okD(6) [OF assms(1) i(1) h] show "j = i" by simp
  qed (use devices_okD(1,2) [OF assms(1)] in simp_all)
qed

lemma add_reference_undo:
  assumes "d < length (devs ds)"
  shows "add_reference (-n) (add_reference n ds d) d = ds"
proof -
  have "r\<lparr>reference := reference r\<rparr> = r" for r :: device_object by simp
  with assms show ?thesis by (simp add: add_reference_def)
qed

lemma open_ok:
  assumes ok: "devices_ok ds" and "device_open ds name opened = (r, ds')"
  shows "devices_ok ds'"
proof (cases "io_search_device_by_name ds name")
  case None
  with assms show ?thesis by (simp add: device_open_def)
next
  case (Some d)
  have d: "d < length (devs ds)" by (rule search_less [OF ok Some])
  have pos: "0 \<le> reference (devs ds ! d)" by (rule devices_okD(3) [OF ok d])
  let ?g = "add_reference 1 ds d"
  have g: "devices_ok ?g" by (rule devices_ok_grow [OF ok _ d]) simp
  have ref: "reference (devs ?g ! d) = reference (devs ds ! d) + 1" using d by (simp add: reference_add)
  show ?thesis
  proof (cases "reference (devs ds ! d) = 0")
    case False
    then have "ds' = ?g"
      using assms(2) Some pos ref by (simp add: device_open_def io_device_increase_reference_def)
    with g show ?thesis by simp
  next
    case True
    then have free: "handles ds ! i \<noteq> Some d" if "i < DEVICE_HANDLE_NR" for i
      using devices_okD(5) [OF ok that] by fastforce
    have undo: "add_reference (-1) ?g d = ds" by (rule add_reference_undo [OF d])
    have step: "(r, ds') = (if opened then device_handle_table_insert ?g d else (-1, snd (io_device_decrease_reference ?g d)))"
      using assms(2) Some True ref by (simp add: device_open_def io_device_increase_reference_def)
    show ?thesis
    proof (cases "opened \<and> find_slot (\<lambda>h. h = None) (handles ds) \<noteq> None")
      case True
      then obtain i where i: "find_slot (\<lambda>h. h = None) (handles ds) = Some i" by blast
      then have il: "i < DEVICE_HANDLE_NR" "handles ds ! i = None"
        using devices_okD(1) [OF ok] by (auto simp: find_slot_Some)
      have ds': "ds' = ?g\<lparr>handles := (handles ds)[i := Some d]\<rparr>"
        using step True i by (simp add: device_handle_table_insert_def)
      show ?thesis
        unfolding ds'
      proof (rule devices_okI)
        fix j e assume "j < DEVICE_HANDLE_NR" "handles (?g\<lparr>handles := (handles ds)[i := Some d]\<rparr>) ! j = Some e"
        then have "j = i \<and> e = d \<or> handles ?g ! j = Some e \<and> j \<noteq> i"
          using devices_okD(1) [OF ok] by (cases "j = i") simp_all
        then show "e < length (devs (?g\<lparr>handles := (handles ds)[i := Some d]\<rparr>)) \<and>
            1 \<le> reference (devs (?g\<lparr>handles := (handles ds)[i := Some d]\<rparr>) ! e)"
          using devices_okD(4,5) [OF g \<open>j < DEVICE_HANDLE_NR\<close>] d ref pos by auto
      next
        fix j l e assume a: "j < DEVICE_HANDLE_NR" "handles (?g\<lparr>handles := (handles ds)[i := Some d]\<rparr>) ! j = Some e"
          "l < DEVICE_HANDLE_NR" "handles (?g\<lparr>handles := (handles ds)[i := Some d]\<rparr>) ! l = Some e"
        then show "l = j"
          using devices_okD(1) [OF ok] devices_okD(6) [OF ok, of j e l] free il by (auto simp: nth_list_update split: if_splits)
      qed (use devices_okD(1-3) [OF g] in auto)
    next
      case False
      then have "ds' = ?g \<or> ds' = ds"
        using step ref True undo by (auto simp: device_handle_table_insert_def io_device_decrease_reference_def split: if_splits)
      with g ok show ?thesis by blast
    qed
  qed
qed

lemma close_ok:
  assumes ok: "devices_ok ds" and "device_close ds handle closed = (r, ds')"
  shows "devices_ok ds'"
proof (cases "by_handle ds handle")
  case None
  with assms show ?thesis by (simp add: device_close_def)
next
  case (Some d)
  then have h: "nat handle < DEVICE_HANDLE_NR" "handles ds ! nat handle = Some d" by (auto simp: by_handle_def split: if_splits)
  note D = devices_okD [OF ok]
  have d: "d < length (devs ds)" and ref: "1 \<le> reference (devs ds ! d)" using D(4,5) [OF h] by simp_all
  let ?g = "add_reference (-1) ds d"
  have gref: "reference (devs ?g ! e) = reference (devs ds ! e) - (if e = d then 1 else 0)" if "e < length (devs ds)" for e
    using that by (simp add: reference_add)
  have keep: "devices_ok ?g" if "2 \<le> reference (devs ds ! d)"
  proof (rule devices_okI)
    show "0 \<le> reference (devs ?g ! e)" if "e < length (devs ?g)" for e
      using D(3) [of e] gref [of e] that \<open>2 \<le> reference (devs ds ! d)\<close> by auto
    show "e < length (devs ?g) \<and> 1 \<le> reference (devs ?g ! e)" if "i < DEVICE_HANDLE_NR" "handles ?g ! i = Some e" for i e
      using D(4,5) [of i e] gref [of e] that \<open>2 \<le> reference (devs ds ! d)\<close> by auto
    show "j = i" if "i < DEVICE_HANDLE_NR" "handles ?g ! i = Some e" "j < DEVICE_HANDLE_NR" "handles ?g ! j = Some e" for i j e
      using D(6) [of i e j] that by simp
  qed (use D(1,2) in simp_all)
  have undo: "add_reference 1 ?g d = ds" using add_reference_undo [OF d, of "-1"] by simp
  have step: "(r, ds') = (if reference (devs ?g ! d) = 0
      then if closed then device_handle_table_remove ?g d else (-1, snd (io_device_increase_reference ?g d)) else (0, ?g))"
    using assms(2) Some ref by (simp add: device_close_def io_device_decrease_reference_def)
  show ?thesis
  proof (cases "reference (devs ds ! d) = 1")
    case False
    with step ref d gref keep show ?thesis by simp
  next
    case True
    have name: "dev_name (devs ?g ! e) = dev_name (devs ?g ! d) \<longleftrightarrow> e = d" if "e < length (devs ds)" for e
      using D(2) that d by (auto simp: distinct_conv_nth add_reference_def nth_list_update)
    have "find_slot (\<lambda>h. case h of None \<Rightarrow> False | Some e \<Rightarrow> dev_name (devs ?g ! e) = dev_name (devs ?g ! d) \<and>
        dev_type (devs ?g ! e) = dev_type (devs ?g ! d)) (handles ds) = Some (nat handle)"
    proof (rule find_slot_unique)
      fix m assume m: "m < length (handles ds)" "case handles ds ! m of None \<Rightarrow> False | Some e \<Rightarrow>
        dev_name (devs ?g ! e) = dev_name (devs ?g ! d) \<and> dev_type (devs ?g ! e) = dev_type (devs ?g ! d)"
      then obtain e where e: "handles ds ! m = Some e" "dev_name (devs ?g ! e) = dev_name (devs ?g ! d)"
        by (auto split: option.splits)
      have ml: "m < DEVICE_HANDLE_NR" using m(1) D(1) by simp
      have "e = d" using name [OF D(4) [OF ml e(1)]] e(2) by simp
      with D(6) [OF h ml] e(1) show "m = nat handle" by simp
    qed (use h D(1) in simp_all)
    then have rm: "device_handle_table_remove ?g d = (0, ?g\<lparr>handles := (handles ds)[nat handle := None]\<rparr>)"
      by (simp add: device_handle_table_remove_def)
    have "devices_ok (?g\<lparr>handles := (handles ds)[nat handle := None]\<rparr>)"
    proof (rule devices_okI)
      have other: "handles ds ! j = Some e \<and> e \<noteq> d"
        if "j < DEVICE_HANDLE_NR" "handles (?g\<lparr>handles := (handles ds)[nat handle := None]\<rparr>) ! j = Some e" for j e
      proof -
        have "j \<noteq> nat handle" using that D(1) by auto
        with that D(1) D(6) [OF h that(1)] show ?thesis by auto
      qed
      show "0 \<le> reference (devs (?g\<lparr>handles := (handles ds)[nat handle := None]\<rparr>) ! e)"
        if "e < length (devs (?g\<lparr>handles := (handles ds)[nat handle := None]\<rparr>))" for e
        using D(3) [of e] gref [of e] that True by (cases "e = d") auto
      show "e < length (devs (?g\<lparr>handles := (handles ds)[nat handle := None]\<rparr>)) \<and>
          1 \<le> reference (devs (?g\<lparr>handles := (handles ds)[nat handle := None]\<rparr>) ! e)"
        if "j < DEVICE_HANDLE_NR" "handles (?g\<lparr>handles := (handles ds)[nat handle := None]\<rparr>) ! j = Some e" for j e
        using other [OF that] D(4,5) [OF that(1), of e] gref [of e] by auto
      show "l = j" if "j < DEVICE_HANDLE_NR" "handles (?g\<lparr>handles := (handles ds)[nat handle := None]\<rparr>) ! j = Some e"
        "l < DEVICE_HANDLE_NR" "handles (?g\<lparr>handles := (handles ds)[nat handle := None]\<rparr>) ! l = Some e" for j l e
        using other [OF that(1,2)] other [OF that(3,4)] D(6) [of j e l] that(1,3) by blast
    qed (use D(1,2) in simp_all)
    with step rm True d gref undo ok show ?thesis by (auto simp: io_device_increase_reference_def split: if_splits)
  qed
qed

lemma grow_ok:
  assumes ok: "devices_ok ds" and "device_grow ds handle = (r, ds')"
  shows "devices_ok ds'"
proof (cases "by_handle ds handle")
  case None
  with assms show ?thesis by (simp add: device_grow_def)
next
  case (Some d)
  then have "nat handle < DEVICE_HANDLE_NR" "handles ds ! nat handle = Some d" by (auto simp: by_handle_def split: if_splits)
  then have "d < length (devs ds)" by (rule devices_okD(4) [OF ok])
  with assms devices_ok_grow [OF ok, of 1] Some show ?thesis
    by (auto simp: device_grow_def io_device_increase_reference_def split: if_splits)
qed

text \<open>
  \<open>device_degrow\<close>, which the exit of a process calls for its open devices, gives a reference back without
  closing: after the last one the device is neither closed nor out of the table, and the next open, which
  finds the count at 1, opens it again and enters a second handle.
\<close>

lemma degrow_leaves_handle:
  assumes "devices_ok ds" "by_handle ds handle = Some d" "reference (devs ds ! d) = 1"
  shows "\<exists>ds'. device_degrow ds handle = (0, ds') \<and> reference (devs ds' ! d) = 0 \<and> by_handle ds' handle = Some d \<and>
    \<not> devices_ok ds'"
proof -
  have h: "nat handle < DEVICE_HANDLE_NR" "handles ds ! nat handle = Some d" using assms(2) by (auto simp: by_handle_def split: if_splits)
  then have d: "d < length (devs ds)" using devices_okD(4) [OF assms(1)] by blast
  let ?g = "add_reference (-1) ds d"
  have g: "device_degrow ds handle = (0, ?g)" "reference (devs ?g ! d) = 0" "by_handle ?g handle = Some d"
    using assms d by (simp_all add: device_degrow_def io_device_decrease_reference_def reference_add) (auto simp: by_handle_def)
  moreover have "\<not> devices_ok ?g"
  proof
    assume "devices_ok ?g"
    from devices_okD(5) [OF this, of "nat handle" d] h g(2) show False by simp
  qed
  ultimately show ?thesis by blast
qed

end
