(* ===== verification/FileDesc.thy ===== *)
theory FileDesc
  imports FsIf Fifo Device
begin

section \<open>File descriptors\<close>

text \<open>
  The descriptors of a process: the second half of \<open>src/src/fs/fsal/fsal.c\<close> (the table of 128 descriptors and
  the working directory of a task) and \<open>src/src/fs/fsif.c\<close> (opening, closing and copying descriptors), on
  the file systems, the devices, the pipes and the named pipes, which have their own theories. The
  network sockets of \<open>lwip\<close> are third-party code: closing one is a parameter. \<open>None\<close> is a crash: an
  overrun buffer, or a task without a file table.
\<close>

definition LOCAL_FILE_OPEN_NR :: nat where "LOCAL_FILE_OPEN_NR = 128"
definition FILE_FD_ALLOC :: u32 where "FILE_FD_ALLOC = 0x01"
definition FILE_FD_NORMAL :: u32 where "FILE_FD_NORMAL = 0x02"
definition FILE_FD_DEVICE :: u32 where "FILE_FD_DEVICE = 0x04"
definition FILE_FD_SOCKET :: u32 where "FILE_FD_SOCKET = 0x08"
definition FILE_FD_FIFO :: u32 where "FILE_FD_FIFO = 0x10"
definition FILE_FD_PIPE0 :: u32 where "FILE_FD_PIPE0 = 0x20"
definition FILE_FD_PIPE1 :: u32 where "FILE_FD_PIPE1 = 0x40"

record file_fd =
  handle :: int
  fdflags :: u32
  fdoffset :: u32

record file_man =
  fds :: "file_fd list"
  cwd :: string

record 'w kfiles =
  mans :: "tid \<Rightarrow> file_man option"
  ksched :: sched
  kpipes :: pipes
  kfifos :: "fifo list"
  kdevs :: devices
  kpaths :: path_table
  kopen :: "fsal_file list"
  kfss :: "nat \<Rightarrow> 'w fsal"
  klwip_close :: "int \<Rightarrow> 'w fs_res"
  kworld :: 'w

subsection \<open>The table of a task\<close>

definition fs_fd_init :: file_man where
  "fs_fd_init = \<lparr>fds = replicate LOCAL_FILE_OPEN_NR \<lparr>handle = -1, fdflags = 0, fdoffset = 0\<rparr>, cwd = ''/''\<rparr>"

definition fd_alloc :: "file_man \<Rightarrow> int \<times> file_man" where
  "fd_alloc m = (case find_slot (\<lambda>d. fdflags d = 0) (fds m) of
     Some i \<Rightarrow> (int i, m\<lparr>fds := (fds m)[i := \<lparr>handle = -1, fdflags = 1, fdoffset = 0\<rparr>]\<rparr>) | None \<Rightarrow> (-1, m))"

definition bad_fd :: "int \<Rightarrow> bool" where
  "bad_fd fd \<longleftrightarrow> fd < 0 \<or> int LOCAL_FILE_OPEN_NR \<le> fd"

definition fd_free :: "file_man \<Rightarrow> int \<Rightarrow> int \<times> file_man" where
  "fd_free m fd =
     (if bad_fd fd \<or> fdflags (fds m ! nat fd) = 0 then (-1, m)
      else (0, m\<lparr>fds := (fds m)[nat fd := \<lparr>handle = -1, fdflags = 0, fdoffset = 0\<rparr>]\<rparr>))"

definition local_fd_install :: "file_man \<Rightarrow> int \<Rightarrow> u32 \<Rightarrow> int \<times> file_man" where
  "local_fd_install m resid flags =
     (if resid < 0 \<or> int FSAL_OPEN_NR \<le> resid then (-1, m)
      else case fd_alloc m of (fd, m) \<Rightarrow>
        if fd < 0 then (-1, m)
        else (fd, m\<lparr>fds := (fds m)[nat fd := (fds m ! nat fd)\<lparr>handle := resid, fdflags := fdflags (fds m ! nat fd) OR flags\<rparr>]\<rparr>))"

definition local_fd_install_to :: "file_man \<Rightarrow> int \<Rightarrow> int \<Rightarrow> u32 \<Rightarrow> int \<times> file_man" where
  "local_fd_install_to m resid newfd flags =
     (if resid < 0 \<or> int FSAL_OPEN_NR \<le> resid \<or> bad_fd newfd then (-1, m)
      else (newfd, m\<lparr>fds := (fds m)[nat newfd := \<lparr>handle = resid, fdflags = FILE_FD_ALLOC OR flags, fdoffset = 0\<rparr>]\<rparr>))"

definition local_fd_uninstall :: "file_man \<Rightarrow> int \<Rightarrow> int \<times> file_man" where
  "local_fd_uninstall m local_fd = (if bad_fd local_fd then (-1, m) else fd_free m local_fd)"

text \<open>\<open>fd_local_to_file\<close>, with the test for an open descriptor that follows each of its calls.\<close>

definition fd_local_to_file :: "file_man \<Rightarrow> int \<Rightarrow> file_fd option" where
  "fd_local_to_file m local_fd =
     (if bad_fd local_fd then None
      else let d = fds m ! nat local_fd in if handle d < 0 \<or> fdflags d = 0 then None else Some d)"

definition handle_to_local_fd :: "file_man \<Rightarrow> int \<Rightarrow> u32 \<Rightarrow> int" where
  "handle_to_local_fd m h flags =
     (case find_slot (\<lambda>d. handle d = h \<and> fdflags d AND flags \<noteq> 0) (fds m) of Some i \<Rightarrow> int i | None \<Rightarrow> -1)"

abbreviation current :: "'w kfiles \<Rightarrow> tid" where
  "current k \<equiv> cur (ksched k)"

definition set_man :: "'w kfiles \<Rightarrow> tid \<Rightarrow> file_man \<Rightarrow> 'w kfiles" where
  "set_man k t m = k\<lparr>mans := (mans k)(t \<mapsto> m)\<rparr>"

definition install_current :: "'w kfiles \<Rightarrow> int \<Rightarrow> u32 \<Rightarrow> (int \<times> 'w kfiles) option" where
  "install_current k h flags =
     map_option (\<lambda>m. case local_fd_install m h flags of (fd, m) \<Rightarrow> (fd, set_man k (current k) m)) (mans k (current k))"

subsection \<open>Open and close\<close>

definition O_RDONLY :: u32 where "O_RDONLY = 0x01"
definition O_WRONLY :: u32 where "O_WRONLY = 0x02"
definition O_RDWR :: u32 where "O_RDWR = 0x04"
definition O_CREAT :: u32 where "O_CREAT = 0x08"
definition O_DEVEX :: u32 where "O_DEVEX = 0x10000"
definition O_FIFO :: u32 where "O_FIFO = 0x20000"

definition skip_root :: "string \<Rightarrow> string" where
  "skip_root path = (case path of [] \<Rightarrow> [] | c # r \<Rightarrow> if c = slash then r else path)"

definition fifo_open_flags :: "u32 \<Rightarrow> u32" where
  "fifo_open_flags flags =
     (let n = (if flags AND O_CREAT \<noteq> 0 then IPC_CREAT OR IPC_EXCL else IPC_CREAT);
          n = (if flags AND O_RDWR \<noteq> 0 then n OR (IPC_READER OR IPC_WRITER)
               else if flags AND O_RDONLY \<noteq> 0 then n OR IPC_READER
               else if flags AND O_WRONLY \<noteq> 0 then n OR IPC_WRITER else n)
      in if flags AND O_NONBLOCK \<noteq> 0 then n OR IPC_NOWAIT else n)"

text \<open>A C string in memory.\<close>

definition mem_of :: "string \<Rightarrow> mem" where
  "mem_of s = (\<lambda>i. if i < length s then of_char (s ! i) else 0)"

text \<open>\<open>accept\<close> is the driver's answer to the request, \<open>buf\<close> and \<open>ring\<close> what \<open>kmalloc\<close> returns for a new named pipe.\<close>

definition sys_open :: "'w kfiles \<Rightarrow> string \<Rightarrow> u32 \<Rightarrow> bool \<Rightarrow> mem option \<Rightarrow> fifo_buf option \<Rightarrow> (int \<times> 'w kfiles) option" where
  "sys_open k path flags accept buf ring =
     (if O_DEVEX AND flags \<noteq> 0
      then case device_open (kdevs k) (skip_root path) accept of (h, ds) \<Rightarrow>
        let k = k\<lparr>kdevs := ds\<rparr> in if h < 0 then Some (-1, k) else install_current k h FILE_FD_DEVICE
      else if O_FIFO AND flags \<noteq> 0
      then case fifo_get (ksched k) (kfifos k) (Some (mem_of (skip_root path))) (fifo_open_flags flags) buf ring of
             None \<Rightarrow> None
           | Some (h, s, fs) \<Rightarrow>
               let k = k\<lparr>ksched := s, kfifos := fs\<rparr> in if h < 0 then Some (-1, k) else install_current k h FILE_FD_FIFO
      else case fsif_open (kpaths k) (kfss k) (Some path) flags (kworld k) of
             None \<Rightarrow> None
           | Some (h, w) \<Rightarrow>
               let k = k\<lparr>kworld := w\<rparr> in if h < 0 then Some (-1, k) else install_current k h FILE_FD_NORMAL)"

definition close_handle :: "'w kfiles \<Rightarrow> file_fd \<Rightarrow> bool \<Rightarrow> int \<times> 'w kfiles" where
  "close_handle k d accept =
     (if fdflags d AND FILE_FD_NORMAL \<noteq> 0
      then case fsif_close (kopen k) (kfss k) (handle d) (kworld k) of (r, w) \<Rightarrow> (r, k\<lparr>kworld := w\<rparr>)
      else if fdflags d AND FILE_FD_SOCKET \<noteq> 0
      then case klwip_close k (handle d) (kworld k) of (r, w) \<Rightarrow> (r, k\<lparr>kworld := w\<rparr>)
      else if fdflags d AND FILE_FD_DEVICE \<noteq> 0
      then case device_close (kdevs k) (handle d) accept of (r, ds) \<Rightarrow> (r, k\<lparr>kdevs := ds\<rparr>)
      else if fdflags d AND FILE_FD_FIFO \<noteq> 0
      then case fifo_put (current k) (kfifos k) (handle d) of (r, fs) \<Rightarrow> (r, k\<lparr>kfifos := fs\<rparr>)
      else if fdflags d AND FILE_FD_PIPE0 \<noteq> 0
      then case pipe_close (kpipes k) (of_int (handle d)) False of (r, ps) \<Rightarrow> (r, k\<lparr>kpipes := ps\<rparr>)
      else if fdflags d AND FILE_FD_PIPE1 \<noteq> 0
      then case pipe_close (kpipes k) (of_int (handle d)) True of (r, ps) \<Rightarrow> (r, k\<lparr>kpipes := ps\<rparr>)
      else (0, k))"

definition sys_close :: "'w kfiles \<Rightarrow> int \<Rightarrow> bool \<Rightarrow> (int \<times> 'w kfiles) option" where
  "sys_close k fd accept =
     (case mans k (current k) of None \<Rightarrow> None
      | Some m \<Rightarrow>
          (case fd_local_to_file m fd of None \<Rightarrow> Some (-1, k)
           | Some d \<Rightarrow> (case close_handle k d accept of (r, k) \<Rightarrow>
               if r < 0 then Some (-1, k)
               else case local_fd_uninstall m fd of (r, m) \<Rightarrow> Some (r, set_man k (current k) m))))"

definition sys_lseek :: "'w kfiles \<Rightarrow> int \<Rightarrow> u32 \<Rightarrow> int \<Rightarrow> (int \<times> 'w kfiles) option" where
  "sys_lseek k fd offset whence =
     (case mans k (current k) of None \<Rightarrow> None
      | Some m \<Rightarrow>
          (case fd_local_to_file m fd of None \<Rightarrow> Some (-1, k)
           | Some d \<Rightarrow>
               if fdflags d AND FILE_FD_NORMAL \<noteq> 0
               then case fsif_lseek (kopen k) (kfss k) (handle d) (uint offset) whence (kworld k) of (r, w) \<Rightarrow> Some (r, k\<lparr>kworld := w\<rparr>)
               else if fdflags d AND FILE_FD_DEVICE \<noteq> 0
               then Some (0, set_man k (current k) (m\<lparr>fds := (fds m)[nat fd := d\<lparr>fdoffset := offset\<rparr>]\<rparr>))
               else Some (-1, k)))"

subsection \<open>Copying descriptors\<close>

text \<open>\<open>fsif_grow\<close> and \<open>fsif_degrow\<close> look the descriptor up in the table of the current task.\<close>

definition grow_handle :: "'w kfiles \<Rightarrow> file_fd \<Rightarrow> int \<times> 'w kfiles" where
  "grow_handle k d =
     (if fdflags d AND FILE_FD_NORMAL \<noteq> 0 then (0, k)
      else if fdflags d AND FILE_FD_DEVICE \<noteq> 0
      then case device_grow (kdevs k) (handle d) of (r, ds) \<Rightarrow> (r, k\<lparr>kdevs := ds\<rparr>)
      else if fdflags d AND FILE_FD_FIFO \<noteq> 0
      then case fifo_grow (current k) (kfifos k) (handle d) of (r, fs) \<Rightarrow> (r, k\<lparr>kfifos := fs\<rparr>)
      else if fdflags d AND FILE_FD_PIPE0 \<noteq> 0
      then case pipe_grow (kpipes k) (of_int (handle d)) False of (r, ps) \<Rightarrow> (r, k\<lparr>kpipes := ps\<rparr>)
      else if fdflags d AND FILE_FD_PIPE1 \<noteq> 0
      then case pipe_grow (kpipes k) (of_int (handle d)) True of (r, ps) \<Rightarrow> (r, k\<lparr>kpipes := ps\<rparr>)
      else (0, k))"

definition fsif_grow :: "'w kfiles \<Rightarrow> int \<Rightarrow> (int \<times> 'w kfiles) option" where
  "fsif_grow k fd =
     (case mans k (current k) of None \<Rightarrow> None
      | Some m \<Rightarrow> (case fd_local_to_file m fd of None \<Rightarrow> Some (-1, k)
          | Some d \<Rightarrow> (case grow_handle k d of (r, k) \<Rightarrow> Some (if r < 0 then -1 else 0, k))))"

definition fsif_degrow :: "'w kfiles \<Rightarrow> int \<Rightarrow> (int \<times> 'w kfiles) option" where
  "fsif_degrow k fd =
     (case mans k (current k) of None \<Rightarrow> None
      | Some m \<Rightarrow> (case fd_local_to_file m fd of None \<Rightarrow> Some (-1, k)
          | Some d \<Rightarrow>
              if fdflags d AND FILE_FD_NORMAL \<noteq> 0 then Some (0, k)
              else if fdflags d AND FILE_FD_DEVICE \<noteq> 0
              then (case device_degrow (kdevs k) (handle d) of (r, ds) \<Rightarrow> Some (if r < 0 then -1 else 0, k\<lparr>kdevs := ds\<rparr>))
              else Some (0, k)))"

text \<open>The type under which a copy is installed; \<open>None\<close> where \<open>sys_dup\<close> and \<open>sys_dup2\<close> install nothing.\<close>

definition dup_type :: "file_fd \<Rightarrow> u32 option" where
  "dup_type d =
     (if fdflags d AND FILE_FD_NORMAL \<noteq> 0 then None
      else if fdflags d AND FILE_FD_DEVICE \<noteq> 0 then Some FILE_FD_DEVICE
      else if fdflags d AND FILE_FD_FIFO \<noteq> 0 then Some FILE_FD_FIFO
      else if fdflags d AND FILE_FD_SOCKET \<noteq> 0 then None
      else if fdflags d AND FILE_FD_PIPE0 \<noteq> 0 then Some FILE_FD_PIPE0
      else if fdflags d AND FILE_FD_PIPE1 \<noteq> 0 then Some FILE_FD_PIPE1
      else None)"

definition sys_dup :: "'w kfiles \<Rightarrow> int \<Rightarrow> (int \<times> 'w kfiles) option" where
  "sys_dup k oldfd =
     (case mans k (current k) of None \<Rightarrow> None
      | Some m \<Rightarrow> (case fd_local_to_file m oldfd of None \<Rightarrow> Some (-1, k)
          | Some d \<Rightarrow> Option.bind (fsif_grow k oldfd) (\<lambda>(r, k).
              if r < 0 then Some (-1, k)
              else case dup_type d of None \<Rightarrow> Some (-1, k) | Some ty \<Rightarrow> install_current k (handle d) ty)))"

definition sys_dup2 :: "'w kfiles \<Rightarrow> int \<Rightarrow> int \<Rightarrow> bool \<Rightarrow> (int \<times> 'w kfiles) option" where
  "sys_dup2 k oldfd newfd accept =
     (case mans k (current k) of None \<Rightarrow> None
      | Some m \<Rightarrow> (case fd_local_to_file m oldfd of None \<Rightarrow> Some (-1, k)
          | Some d \<Rightarrow>
              if oldfd = newfd then Some (newfd, k)
              else Option.bind (if fd_local_to_file m newfd \<noteq> None then sys_close k newfd accept else Some (0, k)) (\<lambda>(r, k).
                if r < 0 then Some (-1, k)
                else Option.bind (fsif_grow k oldfd) (\<lambda>(r, k).
                  if r < 0 then Some (-1, k)
                  else case dup_type d of None \<Rightarrow> Some (newfd, k)
                    | Some ty \<Rightarrow> map_option
                        (\<lambda>m. case local_fd_install_to m (handle d) newfd ty of (r, m) \<Rightarrow> (r, set_man k (current k) m))
                        (mans k (current k))))))"

text \<open>\<open>raw\<close>, \<open>buf\<close> and \<open>ring\<close> are what \<open>kmalloc\<close> returns. The result is the pair of descriptors.\<close>

definition sys_pipe :: "'w kfiles \<Rightarrow> pipe option \<Rightarrow> mem option \<Rightarrow> fifo_buf option \<Rightarrow> ((int \<times> int) option \<times> 'w kfiles) option" where
  "sys_pipe k raw buf ring =
     (case mans k (current k) of None \<Rightarrow> None
      | Some m \<Rightarrow>
          (case create_pipe (kpipes k) raw buf ring of
             (Allocated p, ps) \<Rightarrow>
               let gone = ps\<lparr>pipe_list := destroy_pipe (pipe_id p) (pipe_list ps)\<rparr>
               in (case local_fd_install m (sint (pipe_id p)) FILE_FD_PIPE0 of (rfd, m) \<Rightarrow>
                     if rfd < 0 then Some (None, set_man (k\<lparr>kpipes := gone\<rparr>) (current k) m)
                     else (case local_fd_install m (sint (pipe_id p)) FILE_FD_PIPE1 of (wfd, m') \<Rightarrow>
                       if wfd < 0
                       then Some (None, set_man (k\<lparr>kpipes := gone\<rparr>) (current k) (snd (local_fd_uninstall m' rfd)))
                       else Some (Some (rfd, wfd), set_man (k\<lparr>kpipes := ps\<rparr>) (current k) m')))
           | (AllocNull, ps) \<Rightarrow> Some (None, k\<lparr>kpipes := ps\<rparr>)
           | _ \<Rightarrow> None))"

subsection \<open>Fork, exec and exit\<close>

text \<open>The loop of \<open>fs_fd_copy\<close> from \<open>i\<close> on; \<open>dst\<close> is the table of the child.\<close>

fun fd_copy_from :: "nat \<Rightarrow> file_man \<Rightarrow> file_man \<Rightarrow> 'w kfiles \<Rightarrow> nat \<Rightarrow> (file_man \<times> 'w kfiles) option" where
  "fd_copy_from 0 src dst k i = Some (dst, k)"
| "fd_copy_from (Suc n) src dst k i =
     (if fdflags (fds src ! i) \<noteq> 0
      then Option.bind (fsif_grow k (int i)) (\<lambda>(_, k).
        fd_copy_from n src (dst\<lparr>fds := (fds dst)[i := fds src ! i]\<rparr>) k (i + 1))
      else fd_copy_from n src dst k (i + 1))"

definition fs_fd_copy :: "'w kfiles \<Rightarrow> tid \<Rightarrow> tid \<Rightarrow> (int \<times> 'w kfiles) option" where
  "fs_fd_copy k src dest =
     (case (mans k src, mans k dest) of
        (Some s, Some d) \<Rightarrow> map_option (\<lambda>(d, k). (0, set_man k dest d))
          (fd_copy_from LOCAL_FILE_OPEN_NR s (d\<lparr>cwd := cwd s\<rparr>) k 0)
      | _ \<Rightarrow> Some (-1, k))"

fun fd_degrow_from :: "nat \<Rightarrow> 'w kfiles \<Rightarrow> nat \<Rightarrow> 'w kfiles option" where
  "fd_degrow_from 0 k i = Some k"
| "fd_degrow_from (Suc n) k i = Option.bind (fsif_degrow k (int i)) (\<lambda>(_, k). fd_degrow_from n k (i + 1))"

definition fs_fd_exit :: "'w kfiles \<Rightarrow> tid \<Rightarrow> (int \<times> 'w kfiles) option" where
  "fs_fd_exit k t =
     (if mans k t = None then Some (-1, k)
      else map_option (\<lambda>k. (0, k\<lparr>mans := (mans k)(t := None)\<rparr>)) (fd_degrow_from LOCAL_FILE_OPEN_NR k 0))"

text \<open>\<open>accept i\<close> is the answer of the driver to closing the descriptor \<open>i\<close>.\<close>

fun fd_reinit_from :: "(nat \<Rightarrow> bool) \<Rightarrow> nat \<Rightarrow> 'w kfiles \<Rightarrow> tid \<Rightarrow> nat \<Rightarrow> 'w kfiles option" where
  "fd_reinit_from accept 0 k t i = Some k"
| "fd_reinit_from accept (Suc n) k t i =
     (case mans k t of None \<Rightarrow> None
      | Some m \<Rightarrow> if fdflags (fds m ! i) \<noteq> 0 \<and> 3 \<le> i
          then Option.bind (sys_close k (int i) (accept i)) (\<lambda>(_, k). fd_reinit_from accept n k t (i + 1))
          else fd_reinit_from accept n k t (i + 1))"

definition fs_fd_reinit :: "(nat \<Rightarrow> bool) \<Rightarrow> 'w kfiles \<Rightarrow> tid \<Rightarrow> (int \<times> 'w kfiles) option" where
  "fs_fd_reinit accept k t =
     (if mans k t = None then Some (-1, k)
      else map_option (\<lambda>k. (0, k)) (fd_reinit_from accept LOCAL_FILE_OPEN_NR k t 0))"

subsection \<open>The ends of the pipes that are open\<close>

text \<open>
  A descriptor in use has one type; \<open>is_end x rw d\<close>: it is the read end (\<open>rw\<close> false) or the write end of
  the pipe \<open>x\<close>. \<open>total k x rw\<close> is the number of such descriptors in all tables, \<open>refs ps x rw\<close> what the
  pipe counts, and 0 if there is no such pipe.
\<close>

definition fd_ok :: "file_fd \<Rightarrow> bool" where
  "fd_ok d \<longleftrightarrow> fdflags d \<in> {0, 3, 5, 9, 17, 33, 65} \<and> (fdflags d \<in> {33, 65} \<longrightarrow> 0 \<le> handle d \<and> handle d < 128)"

definition is_end :: "u32 \<Rightarrow> bool \<Rightarrow> file_fd \<Rightarrow> bool" where
  "is_end x rw d \<longleftrightarrow> fdflags d = (if rw then 65 else 33) \<and> of_int (handle d) = x"

definition ends :: "file_man \<Rightarrow> u32 \<Rightarrow> bool \<Rightarrow> nat" where
  "ends m x rw = length (filter (is_end x rw) (fds m))"

definition total :: "'w kfiles \<Rightarrow> u32 \<Rightarrow> bool \<Rightarrow> nat" where
  "total k x rw = (\<Sum>t \<in> dom (mans k). ends (the (mans k t)) x rw)"

definition refs :: "pipes \<Rightarrow> u32 \<Rightarrow> bool \<Rightarrow> int" where
  "refs ps x rw = (case pipe_find ps x of None \<Rightarrow> 0 | Some p \<Rightarrow> if rw then write_count p else read_count p)"

definition pipes_ok :: "pipes \<Rightarrow> bool" where
  "pipes_ok ps \<longleftrightarrow> distinct (map pipe_id (pipe_list ps)) \<and> (\<forall>p \<in> set (pipe_list ps). pipe_id p < pipe_next_id ps)"

definition man_ok :: "file_man \<Rightarrow> bool" where
  "man_ok m \<longleftrightarrow> length (fds m) = LOCAL_FILE_OPEN_NR \<and> (\<forall>d \<in> set (fds m). fd_ok d)"

definition files_inv :: "'w kfiles \<Rightarrow> bool" where
  "files_inv k \<longleftrightarrow> finite (dom (mans k)) \<and> (\<forall>t m. mans k t = Some m \<longrightarrow> man_ok m) \<and> pipes_ok (kpipes k) \<and>
     (\<forall>x rw. int (total k x rw) \<le> refs (kpipes k) x rw)"

lemma files_invD:
  assumes "files_inv k"
  shows "finite (dom (mans k))" "mans k t = Some m \<Longrightarrow> man_ok m" "pipes_ok (kpipes k)" "int (total k x rw) \<le> refs (kpipes k) x rw"
  using assms by (simp_all add: files_inv_def)

lemma files_inv_cong:
  assumes "mans k' = mans k" "kpipes k' = kpipes k"
  shows "files_inv k' = files_inv k"
  using assms by (simp add: files_inv_def total_def)

lemma length_filter_update:
  "i < length xs \<Longrightarrow> length (filter P (xs[i := y])) + of_bool (P (xs ! i)) = length (filter P xs) + of_bool (P y)"
proof (induction xs arbitrary: i)
  case (Cons x xs)
  then show ?case
  proof (cases i)
    case (Suc j)
    with Cons.IH [of j] Cons.prems show ?thesis by auto
  qed simp
qed simp

lemma total_set_man:
  assumes "finite (dom (mans k))" "mans k t = Some m"
  shows "int (total (set_man k t m') x rw) = int (total k x rw) - int (ends m x rw) + int (ends m' x rw)"
proof -
  have dom: "dom (mans (set_man k t m')) = dom (mans k)" using assms(2) by (auto simp: set_man_def)
  have t: "t \<in> dom (mans k)" using assms(2) by auto
  have "total (set_man k t m') x rw = ends m' x rw + (\<Sum>u \<in> dom (mans k) - {t}. ends (the (mans k u)) x rw)"
    unfolding total_def dom sum.remove [OF assms(1) t] by (simp add: set_man_def)
  moreover have "total k x rw = ends m x rw + (\<Sum>u \<in> dom (mans k) - {t}. ends (the (mans k u)) x rw)"
    unfolding total_def sum.remove [OF assms(1) t] by (simp add: assms(2))
  ultimately show ?thesis by simp
qed

lemma total_new_man:
  assumes "finite (dom (mans k))" "mans k t = None"
  shows "total (set_man k t m') x rw = total k x rw + ends m' x rw"
proof -
  have dom: "dom (mans (set_man k t m')) = insert t (dom (mans k))" by (auto simp: set_man_def)
  have t: "t \<notin> dom (mans k)" using assms(2) by auto
  have "total (set_man k t m') x rw = ends m' x rw + (\<Sum>u \<in> dom (mans k). ends (the (mans (set_man k t m') u)) x rw)"
    unfolding total_def dom sum.insert [OF assms(1) t] by (simp add: set_man_def)
  also have "(\<Sum>u \<in> dom (mans k). ends (the (mans (set_man k t m') u)) x rw) = total k x rw"
    unfolding total_def by (rule sum.cong) (use t in \<open>auto simp: set_man_def\<close>)
  finally show ?thesis by simp
qed

lemma total_drop_man:
  assumes "finite (dom (mans k))"
  shows "total (k\<lparr>mans := (mans k)(t := None)\<rparr>) x rw \<le> total k x rw"
proof -
  have "total (k\<lparr>mans := (mans k)(t := None)\<rparr>) x rw = (\<Sum>u \<in> dom (mans k) - {t}. ends (the (mans k u)) x rw)"
    unfolding total_def by (rule sum.cong) auto
  also have "\<dots> \<le> total k x rw" unfolding total_def by (rule sum_mono2) (use assms in auto)
  finally show ?thesis .
qed

text \<open>The invariant after a change of the table of one task and of the pipes.\<close>

lemma files_inv_change:
  assumes inv: "files_inv k" and m: "mans k t = Some m" "man_ok m'" and ps: "pipes_ok ps"
    and le: "\<And>x rw. int (ends m' x rw) - int (ends m x rw) \<le> refs ps x rw - refs (kpipes k) x rw"
    and k': "mans k' = (mans k)(t \<mapsto> m')" "kpipes k' = ps"
  shows "files_inv k'"
proof -
  note D = files_invD [OF inv]
  have eq: "files_inv k' = files_inv ((set_man k t m')\<lparr>kpipes := ps\<rparr>)"
    by (rule files_inv_cong) (simp_all add: k' set_man_def)
  have tot: "total ((set_man k t m')\<lparr>kpipes := ps\<rparr>) x rw = total (set_man k t m') x rw" for x rw by (simp add: total_def)
  have "int (total (set_man k t m') x rw) \<le> refs ps x rw" for x rw
    using D(4) [of x rw] le [of x rw] total_set_man [OF D(1) m(1), of m' x rw] by linarith
  with D(1,2) m ps show ?thesis unfolding eq unfolding files_inv_def tot by (auto simp: set_man_def)
qed

subsection \<open>What the operations do to the ends\<close>

lemma find_upd_pipe:
  assumes "\<And>p. pipe_id (f p) = pipe_id p"
  shows "List.find (\<lambda>p. pipe_id p = j) (upd_pipe i f l) =
    (if j = i then map_option f (List.find (\<lambda>p. pipe_id p = i) l) else List.find (\<lambda>p. pipe_id p = j) l)"
  using assms by (induction l) auto

lemma ids_upd_pipe: "(\<And>p. pipe_id (f p) = pipe_id p) \<Longrightarrow> map pipe_id (upd_pipe i f l) = map pipe_id l"
  by (induction l) auto

lemma find_none: "List.find (\<lambda>p. pipe_id p = i) l = None \<longleftrightarrow> i \<notin> set (map pipe_id l)"
  by (auto simp: find_None_iff)

lemma find_destroy_pipe:
  "distinct (map pipe_id l) \<Longrightarrow> List.find (\<lambda>p. pipe_id p = j) (destroy_pipe i l) =
    (if j = i then None else List.find (\<lambda>p. pipe_id p = j) l)"
proof (induction l)
  case (Cons p l)
  have "pipe_id p \<notin> set (map pipe_id l)" using Cons.prems by simp
  then have "List.find (\<lambda>q. pipe_id q = pipe_id p) l = None" by (simp only: find_none not_False_eq_True)
  with Cons show ?case by auto
qed simp

lemma set_destroy_pipe: "set (destroy_pipe i l) \<subseteq> set l"
  by (induction l) auto

lemma distinct_destroy_pipe: "distinct (map pipe_id l) \<Longrightarrow> distinct (map pipe_id (destroy_pipe i l))"
proof (induction l)
  case (Cons p l)
  with set_destroy_pipe [of i l] show ?case by auto
qed simp

lemma pipes_ok_upd:
  assumes "pipes_ok ps" "\<And>p. pipe_id (f p) = pipe_id p"
  shows "pipes_ok (ps\<lparr>pipe_list := upd_pipe i f (pipe_list ps)\<rparr>)"
proof -
  have "pipe_id ` set (upd_pipe i f (pipe_list ps)) = pipe_id ` set (pipe_list ps)"
    using ids_upd_pipe [of f i "pipe_list ps"] assms(2) by (metis list.set_map)
  moreover have "\<forall>y \<in> pipe_id ` set (pipe_list ps). y < pipe_next_id ps" using assms(1) by (auto simp: pipes_ok_def)
  ultimately have "\<forall>y \<in> pipe_id ` set (upd_pipe i f (pipe_list ps)). y < pipe_next_id ps" by simp
  then show ?thesis using assms ids_upd_pipe [of f i "pipe_list ps"] by (simp add: pipes_ok_def)
qed

lemma pipes_ok_destroy: "pipes_ok ps \<Longrightarrow> pipes_ok (ps\<lparr>pipe_list := destroy_pipe i (pipe_list ps)\<rparr>)"
  using set_destroy_pipe [of i "pipe_list ps"] distinct_destroy_pipe [of "pipe_list ps" i] by (auto simp: pipes_ok_def)

lemma refs_upd:
  assumes "\<And>p. pipe_id (f p) = pipe_id p"
  shows "refs (ps\<lparr>pipe_list := upd_pipe i f (pipe_list ps)\<rparr>) x rw =
    (if x = i then (case pipe_find ps i of None \<Rightarrow> 0 | Some p \<Rightarrow> if rw then write_count (f p) else read_count (f p)) else refs ps x rw)"
  using find_upd_pipe [OF assms] by (auto simp: refs_def pipe_find_def split: option.splits)

lemma refs_destroy:
  assumes "pipes_ok ps"
  shows "refs (ps\<lparr>pipe_list := destroy_pipe i (pipe_list ps)\<rparr>) x rw = (if x = i then 0 else refs ps x rw)"
  using assms find_destroy_pipe [of "pipe_list ps" x i] by (simp add: refs_def pipe_find_def pipes_ok_def)

text \<open>Closing an end takes at most one reference from the pipe, and destroying it at the end takes none.\<close>

lemma pipe_close_refs:
  assumes ok: "pipes_ok ps" and close: "pipe_close ps i w = (r, ps')" and pos: "0 < refs ps i w"
  shows "r = 0 \<and> pipes_ok ps' \<and> (\<forall>x rw. refs ps x rw - of_bool (x = i \<and> rw = w) \<le> refs ps' x rw)"
proof -
  obtain p where p: "pipe_find ps i = Some p" using pos by (cases "pipe_find ps i") (simp_all add: refs_def)
  have id: "pipe_id (close_end w q) = pipe_id q" for q by (simp add: close_end_def)
  let ?u = "ps\<lparr>pipe_list := upd_pipe i (close_end w) (pipe_list ps)\<rparr>"
  have u: "pipes_ok ?u" by (rule pipes_ok_upd [OF ok id])
  have ru: "refs ?u x rw = refs ps x rw - of_bool (x = i \<and> rw = w)" for x rw
    unfolding refs_upd [OF id] using p by (auto simp: refs_def close_end_def)
  show ?thesis
  proof (cases "write_count (close_end w p) \<le> 0 \<and> read_count (close_end w p) \<le> 0")
    case False
    then have "r = 0" "ps' = ?u" using close p by (auto simp: pipe_close_def Let_def)
    with u ru show ?thesis by simp
  next
    case True
    let ?d = "ps\<lparr>pipe_list := destroy_pipe i (pipe_list ?u)\<rparr>"
    have ps': "r = 0" "ps' = ?d" using close p True by (auto simp: pipe_close_def Let_def)
    have "refs ?d x rw = (if x = i then 0 else refs ?u x rw)" for x rw
      using refs_destroy [OF u, of i x rw] by simp
    moreover have "refs ps i rw - of_bool (rw = w) \<le> 0" for rw
      using True p by (auto simp: refs_def close_end_def)
    moreover have "pipes_ok ?d" using pipes_ok_destroy [OF u, of i] by simp
    ultimately show ?thesis using ps' ru by auto
  qed
qed

lemma pipe_grow_refs:
  assumes ok: "pipes_ok ps" and grow: "pipe_grow ps i w = (r, ps')"
  shows "pipes_ok ps' \<and> (\<forall>x rw. refs ps' x rw = refs ps x rw + of_bool (r \<ge> 0 \<and> x = i \<and> rw = w)) \<and> (0 < refs ps i w \<longrightarrow> r = 0)"
proof (cases "pipe_find ps i")
  case None
  with assms show ?thesis by (simp add: pipe_grow_def refs_def)
next
  case (Some p)
  have id: "pipe_id (open_end w q) = pipe_id q" for q by (simp add: open_end_def)
  have "r = 0" "ps' = ps\<lparr>pipe_list := upd_pipe i (open_end w) (pipe_list ps)\<rparr>" using grow Some by (simp_all add: pipe_grow_def)
  moreover have "refs (ps\<lparr>pipe_list := upd_pipe i (open_end w) (pipe_list ps)\<rparr>) x rw = refs ps x rw + of_bool (x = i \<and> rw = w)" for x rw
    unfolding refs_upd [OF id] using Some by (auto simp: refs_def open_end_def)
  ultimately show ?thesis using pipes_ok_upd [OF ok id] by simp
qed

definition put_fd :: "file_man \<Rightarrow> nat \<Rightarrow> file_fd \<Rightarrow> file_man" where
  "put_fd m i d = m\<lparr>fds := (fds m)[i := d]\<rparr>"

lemma man_ok_put:
  assumes "man_ok m" "fd_ok d"
  shows "man_ok (put_fd m i d)"
  using assms set_update_subset_insert [of "fds m" i d] by (auto simp: man_ok_def put_fd_def)

lemma ends_put:
  assumes "man_ok m" "i < LOCAL_FILE_OPEN_NR"
  shows "int (ends (put_fd m i d) x rw) = int (ends m x rw) - of_bool (is_end x rw (fds m ! i)) + of_bool (is_end x rw d)"
proof -
  have "i < length (fds m)" using assms by (simp add: man_ok_def)
  from arg_cong [OF length_filter_update [OF this, of "is_end x rw" d], of int] show ?thesis
    unfolding ends_def put_fd_def by (simp only: of_nat_add of_nat_of_bool file_man.simps) simp
qed

lemma man_ok_nth: "man_ok m \<Longrightarrow> i < LOCAL_FILE_OPEN_NR \<Longrightarrow> fd_ok (fds m ! i)"
  by (simp add: man_ok_def)

lemma empty_fd: "fd_ok \<lparr>handle = h, fdflags = 0, fdoffset = n\<rparr>" "\<not> is_end x rw \<lparr>handle = h, fdflags = 0, fdoffset = n\<rparr>"
  by (simp_all add: fd_ok_def is_end_def)

text \<open>Installing a descriptor of type \<open>ty\<close>.\<close>

definition types :: "u32 set" where
  "types = {FILE_FD_NORMAL, FILE_FD_DEVICE, FILE_FD_SOCKET, FILE_FD_FIFO, FILE_FD_PIPE0, FILE_FD_PIPE1}"

definition end_type :: "u32 \<Rightarrow> bool \<Rightarrow> u32 \<Rightarrow> int \<Rightarrow> bool" where
  "end_type x rw ty h \<longleftrightarrow> ty = (if rw then FILE_FD_PIPE1 else FILE_FD_PIPE0) \<and> of_int h = x"

lemmas fd_flag_defs = FILE_FD_ALLOC_def FILE_FD_NORMAL_def FILE_FD_DEVICE_def FILE_FD_SOCKET_def FILE_FD_FIFO_def
  FILE_FD_PIPE0_def FILE_FD_PIPE1_def

lemma typed_fd:
  assumes "ty \<in> types" "0 \<le> h" "h < 128"
  shows "fd_ok \<lparr>handle = h, fdflags = 1 OR ty, fdoffset = n\<rparr>"
    "is_end x rw \<lparr>handle = h, fdflags = 1 OR ty, fdoffset = n\<rparr> \<longleftrightarrow> end_type x rw ty h"
  using assms by (auto simp: types_def fd_ok_def is_end_def end_type_def fd_flag_defs)

lemma install_cases:
  assumes m: "man_ok m" and ty: "ty \<in> types" and inst: "local_fd_install m h ty = (fd, m')"
  shows "fd < 0 \<and> m' = m \<or>
    (\<exists>i < LOCAL_FILE_OPEN_NR. fd = int i \<and> 0 \<le> h \<and> h < 128 \<and> fdflags (fds m ! i) = 0 \<and>
       m' = put_fd m i \<lparr>handle = h, fdflags = 1 OR ty, fdoffset = 0\<rparr>)"
proof (cases "h < 0 \<or> int FSAL_OPEN_NR \<le> h \<or> find_slot (\<lambda>d. fdflags d = 0) (fds m) = None")
  case True
  with inst show ?thesis by (auto simp: local_fd_install_def fd_alloc_def split: if_splits)
next
  case False
  then obtain i where i: "find_slot (\<lambda>d. fdflags d = 0) (fds m) = Some i" and h: "0 \<le> h" "h < 128"
    by (auto simp: FSAL_OPEN_NR_def)
  then have il: "i < length (fds m)" "fdflags (fds m ! i) = 0" by (simp_all add: find_slot_Some)
  with inst i h m have "fd = int i \<and> m' = put_fd m i \<lparr>handle = h, fdflags = 1 OR ty, fdoffset = 0\<rparr>"
    by (auto simp: local_fd_install_def fd_alloc_def FSAL_OPEN_NR_def put_fd_def)
  with il h m show ?thesis by (auto simp: man_ok_def)
qed

lemma install_ends:
  assumes m: "man_ok m" and ty: "ty \<in> types" and inst: "local_fd_install m h ty = (fd, m')"
  shows "man_ok m' \<and> (\<forall>x rw. int (ends m' x rw) = int (ends m x rw) + of_bool (0 \<le> fd \<and> end_type x rw ty h))"
  using install_cases [OF assms]
proof (elim disjE exE conjE)
  fix i assume i: "i < LOCAL_FILE_OPEN_NR" "fd = int i" "0 \<le> h" "h < 128" "fdflags (fds m ! i) = 0"
    "m' = put_fd m i \<lparr>handle = h, fdflags = 1 OR ty, fdoffset = 0\<rparr>"
  have "\<not> is_end x rw (fds m ! i)" for x rw using i(5) by (simp add: is_end_def)
  with ends_put [OF m i(1)] man_ok_put [OF m typed_fd(1) [OF ty i(3,4)]] typed_fd(2) [OF ty i(3,4)] i(2)
  show ?thesis unfolding i(6) by simp
qed (use m in auto)

text \<open>An end that is open is one its pipe counts.\<close>

lemma end_counted:
  assumes inv: "files_inv k" and m: "mans k t = Some m" "d \<in> set (fds m)" "is_end x rw d"
  shows "1 \<le> total k x rw" "0 < refs (kpipes k) x rw"
proof -
  note D = files_invD [OF inv]
  have "filter (is_end x rw) (fds m) \<noteq> []" using m(2,3) by (auto simp: filter_empty_conv)
  then have "1 \<le> ends m x rw" by (simp add: ends_def Suc_le_eq)
  moreover have "ends m x rw \<le> total k x rw"
    unfolding total_def using member_le_sum [OF _ _ D(1), of t "\<lambda>t. ends (the (mans k t)) x rw"] m(1) by auto
  ultimately show "1 \<le> total k x rw" by simp
  with D(4) [of x rw] show "0 < refs (kpipes k) x rw" by linarith
qed

lemma open_fd:
  assumes "man_ok m" "fd_local_to_file m fd = Some d"
  shows "nat fd < LOCAL_FILE_OPEN_NR" "d = fds m ! nat fd" "fd = int (nat fd)" "d \<in> set (fds m)" "fd_ok d" "fdflags d \<noteq> 0" "\<not> bad_fd fd"
proof -
  show fd: "nat fd < LOCAL_FILE_OPEN_NR" "d = fds m ! nat fd" "fd = int (nat fd)" "fdflags d \<noteq> 0" "\<not> bad_fd fd"
    using assms(2) by (auto simp: fd_local_to_file_def bad_fd_def Let_def split: if_splits)
  then show "d \<in> set (fds m)" "fd_ok d" using assms(1) man_ok_nth by (auto simp: man_ok_def)
qed

lemma closed_fd:
  assumes "man_ok m" "fd_local_to_file m fd = None" "\<not> bad_fd fd"
  shows "\<not> is_end x rw (fds m ! nat fd)"
proof -
  have "fd_ok (fds m ! nat fd)" using assms(1,3) by (intro man_ok_nth) (auto simp: bad_fd_def)
  with assms(2,3) show ?thesis by (auto simp: fd_local_to_file_def fd_ok_def is_end_def Let_def split: if_splits)
qed

lemma flag_cases:
  assumes "fd_ok d" "fdflags d \<noteq> 0"
  shows "fdflags d = 3 \<or> fdflags d = 5 \<or> fdflags d = 9 \<or> fdflags d = 17 \<or>
    fdflags d = 33 \<and> 0 \<le> handle d \<and> handle d < 128 \<or> fdflags d = 65 \<and> 0 \<le> handle d \<and> handle d < 128"
  using assms by (auto simp: fd_ok_def)

lemma close_handle_effect:
  assumes inv: "files_inv k" and m: "mans k t = Some m" "d \<in> set (fds m)" "fd_ok d" "fdflags d \<noteq> 0"
    and close: "close_handle k d accept = (r, k')"
  shows "mans k' = mans k \<and> ksched k' = ksched k \<and> pipes_ok (kpipes k') \<and> (r < 0 \<longrightarrow> kpipes k' = kpipes k) \<and>
    (\<forall>x rw. refs (kpipes k) x rw - of_bool (is_end x rw d) \<le> refs (kpipes k') x rw)"
proof -
  note D = files_invD [OF inv]
  have pipe: ?thesis if fl: "fdflags d = (if w then 65 else 33)"
    and res: "(case pipe_close (kpipes k) (of_int (handle d)) w of (r, ps) \<Rightarrow> (r, k\<lparr>kpipes := ps\<rparr>)) = (r, k')" for w
  proof -
    obtain ps where ps: "pipe_close (kpipes k) (of_int (handle d)) w = (r, ps)" "k' = k\<lparr>kpipes := ps\<rparr>"
      using res by (auto split: prod.splits)
    have e: "is_end x rw d \<longleftrightarrow> x = of_int (handle d) \<and> rw = w" for x rw using fl by (auto simp: is_end_def)
    then have "0 < refs (kpipes k) (of_int (handle d)) w" using end_counted [OF inv m(1,2)] by blast
    from pipe_close_refs [OF D(3) ps(1) this] show ?thesis unfolding ps(2) e by simp
  qed
  from flag_cases [OF m(3,4)] show ?thesis
  proof (elim disjE conjE)
    assume "fdflags d = 33"
    with close show ?thesis by (intro pipe [of False]) (simp_all add: close_handle_def fd_flag_defs)
  next
    assume "fdflags d = 65"
    with close show ?thesis by (intro pipe [of True]) (simp_all add: close_handle_def fd_flag_defs)
  qed (use close D(3) in \<open>auto simp: close_handle_def fd_flag_defs is_end_def split: prod.splits\<close>)
qed

lemma grow_handle_effect:
  assumes inv: "files_inv k" and m: "mans k t = Some m" "d \<in> set (fds m)" "fd_ok d" "fdflags d \<noteq> 0"
    and grow: "grow_handle k d = (r, k')"
  shows "mans k' = mans k \<and> ksched k' = ksched k \<and> pipes_ok (kpipes k') \<and>
    (\<forall>x rw. refs (kpipes k') x rw = refs (kpipes k) x rw + of_bool (is_end x rw d))"
proof -
  note D = files_invD [OF inv]
  have pipe: ?thesis if fl: "fdflags d = (if w then 65 else 33)"
    and res: "(case pipe_grow (kpipes k) (of_int (handle d)) w of (r, ps) \<Rightarrow> (r, k\<lparr>kpipes := ps\<rparr>)) = (r, k')" for w
  proof -
    obtain ps where ps: "pipe_grow (kpipes k) (of_int (handle d)) w = (r, ps)" "k' = k\<lparr>kpipes := ps\<rparr>"
      using res by (auto split: prod.splits)
    have e: "is_end x rw d \<longleftrightarrow> x = of_int (handle d) \<and> rw = w" for x rw using fl by (auto simp: is_end_def)
    then have "0 < refs (kpipes k) (of_int (handle d)) w" using end_counted [OF inv m(1,2)] by blast
    with pipe_grow_refs [OF D(3) ps(1)] show ?thesis unfolding ps(2) e by simp
  qed
  from flag_cases [OF m(3,4)] show ?thesis
  proof (elim disjE conjE)
    assume "fdflags d = 33"
    with grow show ?thesis by (intro pipe [of False]) (simp_all add: grow_handle_def fd_flag_defs)
  next
    assume "fdflags d = 65"
    with grow show ?thesis by (intro pipe [of True]) (simp_all add: grow_handle_def fd_flag_defs)
  qed (use grow D(3) in \<open>auto simp: grow_handle_def fd_flag_defs is_end_def split: prod.splits\<close>)
qed

subsection \<open>Every operation keeps the invariant\<close>

lemma install_current_inv:
  assumes D: "finite (dom (mans k))" "\<And>t m. mans k t = Some m \<Longrightarrow> man_ok m" "pipes_ok (kpipes k)"
    and room: "\<And>x rw. int (total k x rw) + of_bool (end_type x rw ty h) \<le> refs (kpipes k) x rw"
    and ty: "ty \<in> types" and inst: "install_current k h ty = Some (fd, k')"
  shows "files_inv k'"
proof -
  obtain m m' where m: "mans k (current k) = Some m" "local_fd_install m h ty = (fd, m')" "k' = set_man k (current k) m'"
  proof (cases "mans k (current k)")
    case None
    with inst show ?thesis by (simp add: install_current_def)
  next
    case (Some m)
    obtain a m' where "local_fd_install m h ty = (a, m')" by (cases "local_fd_install m h ty")
    with that [of m m'] inst Some show ?thesis by (simp add: install_current_def)
  qed
  note I = install_ends [OF D(2) [OF m(1)] ty m(2)]
  have "int (total k' x rw) \<le> refs (kpipes k') x rw" for x rw
  proof -
    have "(of_bool (0 \<le> fd \<and> end_type x rw ty h) :: int) \<le> of_bool (end_type x rw ty h)" by simp
    moreover have "int (ends m' x rw) = int (ends m x rw) + of_bool (0 \<le> fd \<and> end_type x rw ty h)" using I by blast
    moreover have "refs (kpipes k') x rw = refs (kpipes k) x rw" by (simp add: m(3) set_man_def)
    ultimately show ?thesis
      using room [of x rw] total_set_man [OF D(1) m(1), of m' x rw] unfolding m(3) by linarith
  qed
  with D I show ?thesis unfolding files_inv_def m(3) by (auto simp: set_man_def)
qed

lemma install_current_other:
  assumes "files_inv k" "ty \<in> {FILE_FD_NORMAL, FILE_FD_DEVICE, FILE_FD_FIFO}" "install_current k h ty = Some (fd, k')"
  shows "files_inv k'"
proof -
  have "\<not> end_type x rw ty h" for x rw using assms(2) by (auto simp: end_type_def fd_flag_defs)
  moreover have "ty \<in> types" using assms(2) by (auto simp: types_def)
  ultimately show ?thesis using files_invD [OF assms(1)] assms(3) by (intro install_current_inv) auto
qed

lemma sys_open_inv:
  assumes "files_inv k" "sys_open k path flags accept buf ring = Some (fd, k')"
  shows "files_inv k'"
proof -
  have "files_inv (k\<lparr>kdevs := a\<rparr>)" "files_inv (k\<lparr>ksched := b, kfifos := c\<rparr>)" "files_inv (k\<lparr>kworld := w\<rparr>)" for a b c w
    using assms(1) by (subst files_inv_cong [of _ k]; simp)+
  note inv = this
  have "install_current (k\<lparr>kdevs := a\<rparr>) h FILE_FD_DEVICE = Some (fd, k') \<Longrightarrow> files_inv k'" for a h
    using install_current_other [OF inv(1)] by blast
  moreover have "install_current (k\<lparr>ksched := b, kfifos := c\<rparr>) h FILE_FD_FIFO = Some (fd, k') \<Longrightarrow> files_inv k'" for b c h
    using install_current_other [OF inv(2)] by blast
  moreover have "install_current (k\<lparr>kworld := w\<rparr>) h FILE_FD_NORMAL = Some (fd, k') \<Longrightarrow> files_inv k'" for w h
    using install_current_other [OF inv(3)] by blast
  ultimately show ?thesis
    using assms(2) inv by (auto simp: sys_open_def Let_def split: if_splits prod.splits option.splits)
qed

lemma sys_close_cases:
  assumes inv: "files_inv k" and m: "mans k (current k) = Some m" and close: "sys_close k fd accept = Some (r, k')"
  shows "files_inv k'" and "mans k' = mans k \<and> r = -1 \<or>
      mans k' = (mans k)(current k \<mapsto> put_fd m (nat fd) \<lparr>handle = -1, fdflags = 0, fdoffset = 0\<rparr>)"
    and "ksched k' = ksched k"
proof -
  have "files_inv k' \<and> ksched k' = ksched k \<and> (mans k' = mans k \<and> r = -1 \<or>
      mans k' = (mans k)(current k \<mapsto> put_fd m (nat fd) \<lparr>handle = -1, fdflags = 0, fdoffset = 0\<rparr>))"
  proof (cases "fd_local_to_file m fd")
    case None
    with inv m close show ?thesis by (simp add: sys_close_def)
  next
    case (Some d)
    note D = files_invD [OF inv]
    note O = open_fd [OF D(2) [OF m] Some]
    obtain r1 k1 where c: "close_handle k d accept = (r1, k1)" by (cases "close_handle k d accept")
    note E = close_handle_effect [OF inv m O(4-6) c]
    let ?m = "put_fd m (nat fd) \<lparr>handle = -1, fdflags = 0, fdoffset = 0\<rparr>"
    show ?thesis
    proof (cases "r1 < 0")
      case True
      then have k': "r = -1" "k' = k1" using close m Some c by (simp_all add: sys_close_def)
      have "files_inv k1" using files_inv_cong [of k1 k] E True inv by simp
      with k' E show ?thesis by simp
    next
      case False
      have un: "local_fd_uninstall m fd = (0, ?m)" using O(2,6,7) by (simp add: local_fd_uninstall_def fd_free_def put_fd_def)
      then have k': "r = 0" "k' = set_man k1 (current k1) ?m" using close m Some c False by (simp_all add: sys_close_def)
      then have mk: "mans k' = (mans k)(current k \<mapsto> ?m)" "kpipes k' = kpipes k1" "ksched k' = ksched k"
        using E by (simp_all add: set_man_def)
      have "int (ends ?m x rw) - int (ends m x rw) \<le> refs (kpipes k1) x rw - refs (kpipes k) x rw" for x rw
      proof -
        have "int (ends ?m x rw) = int (ends m x rw) - of_bool (is_end x rw d)"
          using ends_put [OF D(2) [OF m] O(1), of "\<lparr>handle = -1, fdflags = 0, fdoffset = 0\<rparr>" x rw] O(2) empty_fd(2) by simp
        moreover have "refs (kpipes k) x rw - of_bool (is_end x rw d) \<le> refs (kpipes k1) x rw" using E by blast
        ultimately show ?thesis by linarith
      qed
      then have "files_inv k'"
        using E by (intro files_inv_change [OF inv m man_ok_put [OF D(2) [OF m] empty_fd(1)] _ _ mk(1,2)]) auto
      with mk show ?thesis by simp
    qed
  qed
  then show "files_inv k'" and "mans k' = mans k \<and> r = -1 \<or>
      mans k' = (mans k)(current k \<mapsto> put_fd m (nat fd) \<lparr>handle = -1, fdflags = 0, fdoffset = 0\<rparr>)"
    and "ksched k' = ksched k" by blast+
qed

lemma sys_close_inv:
  assumes "files_inv k" "sys_close k fd accept = Some (r, k')"
  shows "files_inv k'"
proof (cases "mans k (current k)")
  case None
  with assms show ?thesis by (simp add: sys_close_def)
next
  case (Some m)
  show ?thesis by (rule sys_close_cases(1) [OF assms(1) Some assms(2)])
qed

lemma sys_lseek_inv:
  assumes inv: "files_inv k" and "sys_lseek k fd offset whence = Some (r, k')"
  shows "files_inv k'"
proof (cases "mans k (current k)")
  case None
  with assms show ?thesis by (simp add: sys_lseek_def)
next
  case (Some m)
  note D = files_invD [OF inv]
  show ?thesis
  proof (cases "fd_local_to_file m fd")
    case None
    with assms Some show ?thesis by (simp add: sys_lseek_def)
  next
    case (Some d)
    note O = open_fd [OF D(2) [OF \<open>mans k (current k) = Some m\<close>] Some]
    let ?m = "put_fd m (nat fd) (d\<lparr>fdoffset := offset\<rparr>)"
    have e: "fd_ok (d\<lparr>fdoffset := offset\<rparr>)" "is_end x rw (d\<lparr>fdoffset := offset\<rparr>) = is_end x rw d" for x rw
      using O(5) by (simp_all add: fd_ok_def is_end_def)
    have change: "files_inv (set_man k (current k) ?m)"
    proof (rule files_inv_change [OF inv \<open>mans k (current k) = Some m\<close> _ D(3)])
      show "man_ok ?m" by (rule man_ok_put [OF D(2) [OF \<open>mans k (current k) = Some m\<close>] e(1)])
      show "int (ends ?m x rw) - int (ends m x rw) \<le> refs (kpipes k) x rw - refs (kpipes k) x rw" for x rw
        using ends_put [OF D(2) [OF \<open>mans k (current k) = Some m\<close>] O(1), of "d\<lparr>fdoffset := offset\<rparr>" x rw] O(2) e(2) by simp
    qed (simp_all add: set_man_def)
    have world: "files_inv (k\<lparr>kworld := w\<rparr>)" for w using files_inv_cong [of "k\<lparr>kworld := w\<rparr>" k] inv by simp
    show ?thesis
      using assms(2) Some \<open>mans k (current k) = Some m\<close> change world inv
      by (auto simp: sys_lseek_def put_fd_def split: if_splits prod.splits)
  qed
qed

lemma fsif_grow_effect:
  assumes inv: "files_inv k" and m: "mans k (current k) = Some m" and grow: "fsif_grow k fd = Some (r, k')"
  shows "mans k' = mans k \<and> ksched k' = ksched k \<and> pipes_ok (kpipes k') \<and>
    (\<forall>x rw. refs (kpipes k') x rw = refs (kpipes k) x rw +
      (case fd_local_to_file m fd of None \<Rightarrow> 0 | Some d \<Rightarrow> of_bool (is_end x rw d)))"
proof (cases "fd_local_to_file m fd")
  case None
  with files_invD(3) [OF inv] m grow show ?thesis by (simp add: fsif_grow_def)
next
  case (Some d)
  note O = open_fd [OF files_invD(2) [OF inv m] Some]
  obtain r1 k1 where g: "grow_handle k d = (r1, k1)" by (cases "grow_handle k d")
  with grow m Some have "k' = k1" by (simp add: fsif_grow_def)
  with grow_handle_effect [OF inv m O(4-6) g] Some show ?thesis by simp
qed

lemma grown_inv:
  assumes inv: "files_inv k" and "mans k' = mans k" "pipes_ok (kpipes k')"
    and "\<And>x rw. refs (kpipes k) x rw \<le> refs (kpipes k') x rw"
  shows "files_inv k'"
proof -
  have "total k' x rw = total k x rw" for x rw using assms(2) by (simp add: total_def)
  with files_invD [OF inv] assms show ?thesis unfolding files_inv_def by (metis order_trans)
qed

lemma dup_type_end:
  assumes "fd_ok d" "fdflags d \<noteq> 0" "dup_type d = Some ty"
  shows "ty \<in> types" "end_type x rw ty (handle d) = is_end x rw d"
proof -
  from flag_cases [OF assms(1,2)] assms(3) show "ty \<in> types"
    by (auto simp: dup_type_def types_def fd_flag_defs)
  from flag_cases [OF assms(1,2)] assms(3) show "end_type x rw ty (handle d) = is_end x rw d"
    by (auto simp: dup_type_def end_type_def is_end_def fd_flag_defs)
qed

lemma sys_dup_inv:
  assumes inv: "files_inv k" and dup: "sys_dup k oldfd = Some (r, k')"
  shows "files_inv k'"
proof (cases "mans k (current k)")
  case None
  with dup show ?thesis by (simp add: sys_dup_def)
next
  case m: (Some m)
  show ?thesis
  proof (cases "fd_local_to_file m oldfd")
    case None
    with inv m dup show ?thesis by (simp add: sys_dup_def)
  next
    case (Some d)
    note D = files_invD [OF inv]
    note O = open_fd [OF D(2) [OF m] Some]
    obtain r1 k1 where g: "fsif_grow k oldfd = Some (r1, k1)"
      using dup m Some by (cases "fsif_grow k oldfd") (auto simp: sys_dup_def)
    have E: "mans k1 = mans k" "pipes_ok (kpipes k1)" "refs (kpipes k1) x rw = refs (kpipes k) x rw + of_bool (is_end x rw d)" for x rw
      using fsif_grow_effect [OF inv m g] Some by auto
    have inv1: "files_inv k1" by (rule grown_inv [OF inv E(1,2)]) (simp add: E(3))
    have tot: "total k1 x rw = total k x rw" for x rw using E(1) by (simp add: total_def)
    consider "k' = k1" | ty where "dup_type d = Some ty" "install_current k1 (handle d) ty = Some (r, k')"
      using dup m Some g by (auto simp: sys_dup_def split: if_splits option.splits)
    then show ?thesis
    proof cases
      case 2
      show ?thesis
      proof (rule install_current_inv [OF _ _ _ _ dup_type_end(1) [OF O(5,6) 2(1)] 2(2)])
        show "int (total k1 x rw) + of_bool (end_type x rw ty (handle d)) \<le> refs (kpipes k1) x rw" for x rw
          using D(4) [of x rw] dup_type_end(2) [OF O(5,6) 2(1)] by (simp add: E(3) tot)
      qed (use files_invD [OF inv1] in auto)
    qed (use inv1 in simp)
  qed
qed

lemma fd_local_put: "fd \<noteq> int i \<Longrightarrow> fd_local_to_file (put_fd m i e) fd = fd_local_to_file m fd"
proof -
  assume "fd \<noteq> int i"
  then have "bad_fd fd \<or> nat fd \<noteq> i" by (auto simp: bad_fd_def)
  then show ?thesis by (auto simp: fd_local_to_file_def put_fd_def)
qed

text \<open>The second half of \<open>sys_dup2\<close>: the target is closed or was not an end.\<close>

lemma dup2_install:
  assumes inv: "files_inv k" and m: "mans k (current k) = Some m" and old: "fd_local_to_file m oldfd = Some d"
    and free: "\<And>x rw. \<not> bad_fd newfd \<Longrightarrow> \<not> is_end x rw (fds m ! nat newfd)"
    and grow: "fsif_grow k oldfd = Some (r1, k1)" and ty: "dup_type d = Some ty"
    and inst: "local_fd_install_to m (handle d) newfd ty = (r, m')"
  shows "files_inv (set_man k1 (current k1) m')"
proof -
  note D = files_invD [OF inv]
  note O = open_fd [OF D(2) [OF m] old]
  note T = dup_type_end [OF O(5,6) ty]
  have E: "mans k1 = mans k" "ksched k1 = ksched k" "pipes_ok (kpipes k1)"
    "refs (kpipes k1) x rw = refs (kpipes k) x rw + of_bool (is_end x rw d)" for x rw
    using fsif_grow_effect [OF inv m grow] old by auto
  have k1: "mans (set_man k1 (current k1) m') = (mans k)(current k \<mapsto> m')" "kpipes (set_man k1 (current k1) m') = kpipes k1"
    using E by (simp_all add: set_man_def)
  show ?thesis
  proof (cases "handle d < 0 \<or> int FSAL_OPEN_NR \<le> handle d \<or> bad_fd newfd")
    case True
    then have "m' = m" using inst by (auto simp: local_fd_install_to_def)
    then show ?thesis
      using k1 D(2) [OF m] E by (intro files_inv_change [OF inv m _ E(3) _ k1]) auto
  next
    case False
    then have h: "0 \<le> handle d" "handle d < 128" and nf: "nat newfd < LOCAL_FILE_OPEN_NR" "\<not> bad_fd newfd"
      by (auto simp: FSAL_OPEN_NR_def bad_fd_def)
    let ?d = "\<lparr>handle = handle d, fdflags = 1 OR ty, fdoffset = 0\<rparr>"
    have m': "m' = put_fd m (nat newfd) ?d" using inst False by (auto simp: local_fd_install_to_def put_fd_def FILE_FD_ALLOC_def)
    show ?thesis
    proof (rule files_inv_change [OF inv m _ E(3) _ k1])
      show "man_ok m'" unfolding m' by (rule man_ok_put [OF D(2) [OF m] typed_fd(1) [OF T(1) h]])
      show "int (ends m' x rw) - int (ends m x rw) \<le> refs (kpipes k1) x rw - refs (kpipes k) x rw" for x rw
        using ends_put [OF D(2) [OF m] nf(1), of ?d x rw] free [OF nf(2)] typed_fd(2) [OF T(1) h] T(2)
        unfolding m' E(4) by simp
    qed
  qed
qed

lemma sys_dup2_inv:
  assumes inv: "files_inv k" and dup: "sys_dup2 k oldfd newfd accept = Some (r, k')"
  shows "files_inv k'"
proof (cases "mans k (current k)")
  case None
  with dup show ?thesis by (simp add: sys_dup2_def)
next
  case m: (Some m)
  note D = files_invD [OF inv]
  show ?thesis
  proof (cases "fd_local_to_file m oldfd = None \<or> oldfd = newfd")
    case True
    with inv m dup show ?thesis by (auto simp: sys_dup2_def split: option.splits)
  next
    case False
    then obtain d where d: "fd_local_to_file m oldfd = Some d" "oldfd \<noteq> newfd" by auto
    have rest: "files_inv k2" if k1: "files_inv k1" "mans k1 (current k1) = Some m1" "fd_local_to_file m1 oldfd = Some d"
        "\<And>x rw. \<not> bad_fd newfd \<Longrightarrow> \<not> is_end x rw (fds m1 ! nat newfd)"
      and run: "Option.bind (fsif_grow k1 oldfd) (\<lambda>(r, k).
          if r < 0 then Some (-1, k)
          else case dup_type d of None \<Rightarrow> Some (newfd, k)
            | Some ty \<Rightarrow> map_option (\<lambda>m. case local_fd_install_to m (handle d) newfd ty of (r, m) \<Rightarrow> (r, set_man k (current k) m))
                (mans k (current k))) = Some (r2, k2)" for k1 m1 r2 k2
    proof -
      obtain r3 k3 where g: "fsif_grow k1 oldfd = Some (r3, k3)" using run by (cases "fsif_grow k1 oldfd") auto
      have E: "mans k3 = mans k1" "ksched k3 = ksched k1" "pipes_ok (kpipes k3)"
        "refs (kpipes k3) x rw = refs (kpipes k1) x rw + of_bool (is_end x rw d)" for x rw
        using fsif_grow_effect [OF k1(1,2) g] k1(3) by auto
      have inv3: "files_inv k3" by (rule grown_inv [OF k1(1) E(1,3)]) (simp add: E(4))
      show ?thesis
      proof (cases "r3 < 0 \<or> dup_type d = None")
        case True
        then have "k2 = k3" using run g by (auto split: if_splits)
        with inv3 show ?thesis by simp
      next
        case False
        then obtain ty where ty: "dup_type d = Some ty" by blast
        obtain r4 m4 where i: "local_fd_install_to m1 (handle d) newfd ty = (r4, m4)"
          by (cases "local_fd_install_to m1 (handle d) newfd ty")
        have "k2 = set_man k3 (current k3) m4" using run g False ty i E(1,2) k1(2) by simp
        with dup2_install [OF k1 g ty i] show ?thesis by simp
      qed
    qed
    show ?thesis
    proof (cases "fd_local_to_file m newfd")
      case None
      with dup m d have run: "Option.bind (fsif_grow k oldfd) (\<lambda>(r, k).
          if r < 0 then Some (-1, k)
          else case dup_type d of None \<Rightarrow> Some (newfd, k)
            | Some ty \<Rightarrow> map_option (\<lambda>m. case local_fd_install_to m (handle d) newfd ty of (r, m) \<Rightarrow> (r, set_man k (current k) m))
                (mans k (current k))) = Some (r, k')"
        by (simp add: sys_dup2_def)
      show ?thesis by (rule rest [OF inv m d(1) closed_fd [OF D(2) [OF m] None] run])
    next
      case (Some e)
      obtain r1 k1 where c: "sys_close k newfd accept = Some (r1, k1)"
        using dup m d Some by (cases "sys_close k newfd accept") (auto simp: sys_dup2_def)
      note C = sys_close_cases [OF inv m c]
      note N = open_fd [OF D(2) [OF m] Some]
      show ?thesis
      proof (cases "r1 < 0")
        case True
        with dup m d Some c C(1) show ?thesis by (simp add: sys_dup2_def)
      next
        case False
        let ?m = "put_fd m (nat newfd) \<lparr>handle = -1, fdflags = 0, fdoffset = 0\<rparr>"
        have m1: "mans k1 (current k1) = Some ?m" using C(2,3) False by auto
        have old: "fd_local_to_file ?m oldfd = Some d" using fd_local_put [of oldfd "nat newfd" m] d N(3) by simp
        have new: "\<not> is_end x rw (fds ?m ! nat newfd)" for x rw
          using N(1) D(2) [OF m] by (simp add: put_fd_def man_ok_def empty_fd)
        show ?thesis
          by (rule rest [OF C(1) m1 old new]) (use dup m d Some c False in \<open>simp_all add: sys_dup2_def\<close>)
      qed
    qed
  qed
qed

lemma create_pipe_refs:
  assumes ok: "pipes_ok ps" and fresh: "pipe_next_id ps + 1 \<noteq> 0" and new: "create_pipe ps raw buf ring = (Allocated p, ps')"
  shows "pipe_id p = pipe_next_id ps" "pipes_ok ps'" "refs ps' x rw = refs ps x rw + of_bool (x = pipe_id p)"
    "refs ps (pipe_id p) rw = 0"
proof -
  obtain q where q: "p = q\<lparr>pipe_id := pipe_next_id ps\<rparr>" "read_count p = 1" "write_count p = 1"
    "ps' = ps\<lparr>pipe_list := pipe_list ps @ [p], pipe_next_id := pipe_next_id ps + 1\<rparr>"
    using new by (auto simp: create_pipe_def pipe_clear_def Let_def split: option.splits alloc_outcome.splits)
  show id: "pipe_id p = pipe_next_id ps" by (simp add: q(1))
  have less: "pipe_id r < pipe_next_id ps" if "r \<in> set (pipe_list ps)" for r using ok that by (simp add: pipes_ok_def)
  have up: "pipe_next_id ps < pipe_next_id ps + 1" using fresh by (simp add: word_less_nat_alt unatSuc add.commute)
  have "pipe_next_id ps \<notin> pipe_id ` set (pipe_list ps)" using less by force
  then show "pipes_ok ps'"
    using ok less up id by (auto simp: q(4) pipes_ok_def intro: less_trans)
  have none: "List.find (\<lambda>r. pipe_id r = pipe_next_id ps) (pipe_list ps) = None"
    by (auto simp: find_None_iff dest: less)
  then show "refs ps (pipe_id p) rw = 0" by (simp add: refs_def pipe_find_def id)
  have "List.find P (l @ [p]) = (case List.find P l of None \<Rightarrow> if P p then Some p else None | Some r \<Rightarrow> Some r)" for P and l :: "pipe list"
    by (induction l) auto
  with none show "refs ps' x rw = refs ps x rw + of_bool (x = pipe_id p)"
    using q(2,3) id by (auto simp: refs_def pipe_find_def q(4) split: option.splits)
qed

lemma sys_pipe_inv:
  assumes inv: "files_inv k" and fresh: "pipe_next_id (kpipes k) + 1 \<noteq> 0" and pipe: "sys_pipe k raw buf ring = Some (r, k')"
  shows "files_inv k'"
proof (cases "mans k (current k)")
  case None
  with pipe show ?thesis by (simp add: sys_pipe_def)
next
  case m: (Some m)
  note D = files_invD [OF inv]
  obtain out ps where c: "create_pipe (kpipes k) raw buf ring = (out, ps)" by (cases "create_pipe (kpipes k) raw buf ring")
  show ?thesis
  proof (cases out)
    case AllocNull
    then have "ps = kpipes k" using c by (auto simp: create_pipe_def Let_def split: option.splits alloc_outcome.splits)
    with AllocNull m pipe c inv show ?thesis by (auto simp: sys_pipe_def)
  next
    case (Allocated p)
    note P = create_pipe_refs [OF D(3) fresh c [unfolded Allocated]]
    let ?h = "sint (pipe_id p)"
    let ?gone = "ps\<lparr>pipe_list := destroy_pipe (pipe_id p) (pipe_list ps)\<rparr>"
    obtain rfd m1 where i1: "local_fd_install m ?h FILE_FD_PIPE0 = (rfd, m1)" by (cases "local_fd_install m ?h FILE_FD_PIPE0")
    obtain wfd m2 where i2: "local_fd_install m1 ?h FILE_FD_PIPE1 = (wfd, m2)" by (cases "local_fd_install m1 ?h FILE_FD_PIPE1")
    have ty: "FILE_FD_PIPE0 \<in> types" "FILE_FD_PIPE1 \<in> types" by (simp_all add: types_def)
    have et: "end_type x rw FILE_FD_PIPE0 ?h \<longleftrightarrow> x = pipe_id p \<and> \<not> rw" "end_type x rw FILE_FD_PIPE1 ?h \<longleftrightarrow> x = pipe_id p \<and> rw" for x rw
      by (auto simp: end_type_def fd_flag_defs)
    note C1 = install_cases [OF D(2) [OF m] ty(1) i1] and I1 = install_ends [OF D(2) [OF m] ty(1) i1]
    have ok1: "man_ok m1" using I1 by blast
    note C2 = install_cases [OF ok1 ty(2) i2] and I2 = install_ends [OF ok1 ty(2) i2]
    have gone: "pipes_ok ?gone" "refs ?gone x rw = refs (kpipes k) x rw" for x rw
      using pipes_ok_destroy [OF P(2)] refs_destroy [OF P(2)] P(3,4) by simp_all
    have drop: "files_inv (set_man (k\<lparr>kpipes := ?gone\<rparr>) (current k) m')" if "man_ok m'" "\<And>x rw. ends m' x rw = ends m x rw" for m'
      by (rule files_inv_change [OF inv m that(1) gone(1)]) (simp_all add: gone(2) that(2) set_man_def)
    show ?thesis
    proof (cases "rfd < 0")
      case True
      with C1 have "m1 = m" by auto
      moreover have "k' = set_man (k\<lparr>kpipes := ?gone\<rparr>) (current k) m1"
        using pipe m c Allocated i1 True by (simp add: sys_pipe_def)
      ultimately show ?thesis using drop [of m] D(2) [OF m] by simp
    next
      case r: False
      then obtain i where i: "i < LOCAL_FILE_OPEN_NR" "rfd = int i" "fdflags (fds m ! i) = 0"
        "m1 = put_fd m i \<lparr>handle = ?h, fdflags = 1 OR FILE_FD_PIPE0, fdoffset = 0\<rparr>" using C1 by auto
      show ?thesis
      proof (cases "wfd < 0")
        case True
        then have m2: "m2 = m1" using C2 by auto
        let ?e = "\<lparr>handle = -1, fdflags = 0, fdoffset = 0\<rparr>"
        have len: "i < length (fds m)" using D(2) [OF m] i(1) by (simp add: man_ok_def)
        have un: "snd (local_fd_uninstall m2 rfd) = put_fd m i ?e"
          using i len m2 by (simp add: local_fd_uninstall_def fd_free_def bad_fd_def put_fd_def fd_flag_defs)
        have "\<not> is_end x rw (fds m ! i)" for x rw using i(3) by (simp add: is_end_def)
        then have "ends (put_fd m i ?e) x rw = ends m x rw" for x rw
          using ends_put [OF D(2) [OF m] i(1), of ?e x rw] empty_fd(2) by simp
        from drop [OF man_ok_put [OF D(2) [OF m] empty_fd(1)] this]
        have "files_inv (set_man (k\<lparr>kpipes := ?gone\<rparr>) (current k) (put_fd m i ?e))" .
        moreover have "k' = set_man (k\<lparr>kpipes := ?gone\<rparr>) (current k) (snd (local_fd_uninstall m2 rfd))"
          using pipe m c Allocated i1 i2 r True by (simp add: sys_pipe_def)
        ultimately show ?thesis unfolding un by simp
      next
        case False
        have k': "k' = set_man (k\<lparr>kpipes := ps\<rparr>) (current k) m2"
          using pipe m c Allocated i1 i2 r False by (simp add: sys_pipe_def)
        show ?thesis
        proof (rule files_inv_change [OF inv m _ P(2)])
          show "int (ends m2 x rw) - int (ends m x rw) \<le> refs ps x rw - refs (kpipes k) x rw" for x rw
            using I1 I2 r False unfolding et P(3) by (cases rw) simp_all
        qed (use I2 k' in \<open>simp_all add: set_man_def\<close>)
      qed
    qed
  qed (use pipe m c in \<open>simp_all add: sys_pipe_def\<close>)
qed

text \<open>The loop of \<open>fs_fd_copy\<close>, with the new table still outside of the tables of the system.\<close>

lemma fd_copy_from_inv:
  assumes "files_inv k" "mans k (current k) = Some src" "man_ok dst" "i + n = LOCAL_FILE_OPEN_NR"
    "\<And>x rw. int (total k x rw) + int (ends dst x rw) \<le> refs (kpipes k) x rw"
    "fd_copy_from n src dst k i = Some (dst', k')"
  shows "files_inv k' \<and> mans k' = mans k \<and> ksched k' = ksched k \<and> man_ok dst' \<and>
    (\<forall>x rw. int (total k' x rw) + int (ends dst' x rw) \<le> refs (kpipes k') x rw)"
  using assms
proof (induction n arbitrary: k dst i)
  case 0
  then show ?case by simp
next
  case (Suc n)
  note D = files_invD [OF Suc.prems(1)]
  let ?d = "fds src ! i"
  have i: "i < LOCAL_FILE_OPEN_NR" using Suc.prems(4) by simp
  have ok: "fd_ok ?d" by (rule man_ok_nth [OF D(2) [OF Suc.prems(2)] i])
  show ?case
  proof (cases "fdflags ?d = 0")
    case True
    with Suc.prems have "fd_copy_from n src dst k (Suc i) = Some (dst', k')" by simp
    with Suc.IH [of k dst "Suc i"] Suc.prems show ?thesis by simp
  next
    case False
    obtain r k1 where g: "fsif_grow k (int i) = Some (r, k1)" using Suc.prems(6) False by (cases "fsif_grow k (int i)") auto
    note E = fsif_grow_effect [OF Suc.prems(1,2) g]
    let ?dst = "put_fd dst i ?d"
    have fd: "fd_local_to_file src (int i) = (if handle ?d < 0 then None else Some ?d)"
      using i False by (simp add: fd_local_to_file_def bad_fd_def)
    have ref: "refs (kpipes k1) x rw = refs (kpipes k) x rw + of_bool (is_end x rw ?d)" for x rw
    proof (cases "handle ?d < 0")
      case True
      with ok have "\<not> is_end x rw ?d" by (auto simp: fd_ok_def is_end_def)
      with E fd True show ?thesis by simp
    qed (use E fd in simp)
    have inv1: "files_inv k1" by (rule grown_inv [OF Suc.prems(1)]) (use E in blast, use E in blast, simp add: ref)
    have tot: "total k1 x rw = total k x rw" for x rw using E by (simp add: total_def)
    have room: "int (total k1 x rw) + int (ends ?dst x rw) \<le> refs (kpipes k1) x rw" for x rw
      using Suc.prems(5) [of x rw] ends_put [OF Suc.prems(3) i, of ?d x rw] unfolding tot ref
      by (cases "is_end x rw (fds dst ! i)") simp_all
    have run: "fd_copy_from n src ?dst k1 (Suc i) = Some (dst', k')" using Suc.prems(6) False g by (simp add: put_fd_def)
    have "mans k1 (current k1) = Some src" "man_ok ?dst" "Suc i + n = LOCAL_FILE_OPEN_NR"
      using E Suc.prems(2,4) man_ok_put [OF Suc.prems(3) ok] by simp_all
    from Suc.IH [OF inv1 this room run] E show ?thesis by simp
  qed
qed

lemma fresh_table: "man_ok (fs_fd_init\<lparr>cwd := c\<rparr>)" "ends (fs_fd_init\<lparr>cwd := c\<rparr>) x rw = 0" "man_ok fs_fd_init" "ends fs_fd_init x rw = 0"
  by (simp_all add: man_ok_def fs_fd_init_def ends_def empty_fd)

lemma init_table_inv:
  assumes inv: "files_inv k" and "mans k t = None"
  shows "files_inv (set_man k t fs_fd_init)"
proof -
  note D = files_invD [OF inv]
  have "total (set_man k t fs_fd_init) x rw = total k x rw" for x rw
    using total_new_man [OF D(1) assms(2), of fs_fd_init x rw] by (simp add: fresh_table)
  with D show ?thesis unfolding files_inv_def by (auto simp: set_man_def fresh_table)
qed

lemma fs_fd_copy_inv:
  assumes inv: "files_inv k" and t: "mans k t = None" "t \<noteq> current k"
    and copy: "fs_fd_copy (set_man k t fs_fd_init) (current k) t = Some (r, k')"
  shows "files_inv k'"
proof -
  let ?k = "set_man k t fs_fd_init"
  note inv1 = init_table_inv [OF inv t(1)]
  have t1: "mans ?k t = Some fs_fd_init" by (simp add: set_man_def)
  show ?thesis
  proof (cases "mans k (current k)")
    case None
    with copy t inv1 show ?thesis by (auto simp: fs_fd_copy_def set_man_def)
  next
    case (Some src)
    then have s: "mans ?k (current ?k) = Some src" "mans ?k (current k) = Some src" using t(2) by (simp_all add: set_man_def)
    obtain dst k1 where c: "fd_copy_from LOCAL_FILE_OPEN_NR src (fs_fd_init\<lparr>cwd := cwd src\<rparr>) ?k 0 = Some (dst, k1)"
      and k': "k' = set_man k1 t dst"
      using copy s(2) t1 by (auto simp: fs_fd_copy_def)
    have C: "files_inv k1" "mans k1 = mans ?k" "man_ok dst" "\<And>x rw. int (total k1 x rw) + int (ends dst x rw) \<le> refs (kpipes k1) x rw"
      using fd_copy_from_inv [OF inv1 s(1) fresh_table(1) _ _ c] files_invD(4) [OF inv1] by (simp_all add: fresh_table)
    note D = files_invD [OF C(1)]
    have t1': "mans k1 t = Some fs_fd_init" using C(2) t1 by simp
    have "int (total k' x rw) \<le> refs (kpipes k1) x rw" for x rw
      using total_set_man [OF D(1) t1', of dst x rw] C(4) [of x rw] unfolding k' by (simp add: fresh_table)
    with D C(3) show ?thesis unfolding files_inv_def k' by (auto simp: set_man_def)
  qed
qed

lemma fd_degrow_from_frame:
  "fd_degrow_from n k i = Some k' \<Longrightarrow> mans k' = mans k \<and> kpipes k' = kpipes k \<and> ksched k' = ksched k"
proof (induction n arbitrary: k i)
  case (Suc n)
  then obtain r k1 where d: "fsif_degrow k (int i) = Some (r, k1)" "fd_degrow_from n k1 (Suc i) = Some k'"
    by (cases "fsif_degrow k (int i)") auto
  then have "mans k1 = mans k \<and> kpipes k1 = kpipes k \<and> ksched k1 = ksched k"
    by (auto simp: fsif_degrow_def split: option.splits if_splits prod.splits)
  with Suc.IH [OF d(2)] show ?case by simp
qed simp

lemma fs_fd_exit_inv:
  assumes inv: "files_inv k" and exit: "fs_fd_exit k t = Some (r, k')"
  shows "files_inv k'" "kpipes k' = kpipes k"
proof -
  have "files_inv k' \<and> kpipes k' = kpipes k"
  proof (cases "mans k t = None")
    case True
    with assms show ?thesis by (simp add: fs_fd_exit_def)
  next
    case False
    then obtain k1 where k1: "fd_degrow_from LOCAL_FILE_OPEN_NR k 0 = Some k1" "k' = k1\<lparr>mans := (mans k1)(t := None)\<rparr>"
      using exit by (auto simp: fs_fd_exit_def)
    note F = fd_degrow_from_frame [OF k1(1)]
    have inv1: "files_inv k1" using files_inv_cong [of k1 k] F inv by simp
    note D = files_invD [OF inv1]
    have "int (total k' x rw) \<le> refs (kpipes k1) x rw" for x rw
      using total_drop_man [OF D(1), of t x rw] D(4) [of x rw] unfolding k1(2) by linarith
    with D F show ?thesis unfolding files_inv_def k1(2) by (auto split: if_splits)
  qed
  then show "files_inv k'" "kpipes k' = kpipes k" by blast+
qed

lemma fs_fd_reinit_inv:
  assumes "files_inv k" "fs_fd_reinit accept k t = Some (r, k')"
  shows "files_inv k'"
proof -
  have loop: "files_inv k \<Longrightarrow> fd_reinit_from accept n k t i = Some k' \<Longrightarrow> files_inv k'" for n i k
  proof (induction n arbitrary: k i)
    case (Suc n)
    obtain m where m: "mans k t = Some m" using Suc.prems(2) by (cases "mans k t") auto
    show ?case
    proof (cases "fdflags (fds m ! i) \<noteq> 0 \<and> 3 \<le> i")
      case True
      then obtain r1 k1 where c: "sys_close k (int i) (accept i) = Some (r1, k1)" "fd_reinit_from accept n k1 t (Suc i) = Some k'"
        using Suc.prems(2) m by (cases "sys_close k (int i) (accept i)") auto
      show ?thesis by (rule Suc.IH [OF sys_close_inv [OF Suc.prems(1) c(1)] c(2)])
    next
      case False
      with Suc.prems m have "fd_reinit_from accept n k t (Suc i) = Some k'" by auto
      from Suc.IH [OF Suc.prems(1) this] show ?thesis .
    qed
  qed simp
  show ?thesis using assms loop by (auto simp: fs_fd_reinit_def split: if_splits)
qed

subsection \<open>All that can happen to the descriptors\<close>

text \<open>
  A step is one call of the current task, the making of a table for a new task, or anything else in the
  system: reads and writes on the pipes, which keep their ends (\<open>same_ends\<close>), a switch of the task, any
  change of files and devices. The counter of the pipes' ids does not wrap around: it would after \<open>2 ^ 32\<close> pipes.
\<close>

definition same_ends :: "pipes \<Rightarrow> pipes \<Rightarrow> bool" where
  "same_ends ps ps' \<longleftrightarrow> pipe_next_id ps' = pipe_next_id ps \<and>
     map (\<lambda>p. (pipe_id p, read_count p, write_count p)) (pipe_list ps') =
     map (\<lambda>p. (pipe_id p, read_count p, write_count p)) (pipe_list ps)"

inductive files_step :: "'w kfiles \<Rightarrow> 'w kfiles \<Rightarrow> bool" where
  fopen: "sys_open k path flags accept buf ring = Some (r, k') \<Longrightarrow> files_step k k'"
| fclose: "sys_close k fd accept = Some (r, k') \<Longrightarrow> files_step k k'"
| flseek: "sys_lseek k fd offset whence = Some (r, k') \<Longrightarrow> files_step k k'"
| fdup: "sys_dup k fd = Some (r, k') \<Longrightarrow> files_step k k'"
| fdup2: "sys_dup2 k fd newfd accept = Some (r, k') \<Longrightarrow> files_step k k'"
| fpipe: "sys_pipe k raw buf ring = Some (p, k') \<Longrightarrow> pipe_next_id (kpipes k) + 1 \<noteq> 0 \<Longrightarrow> files_step k k'"
| fnew: "mans k t = None \<Longrightarrow> files_step k (set_man k t fs_fd_init)"
| ffork: "mans k t = None \<Longrightarrow> t \<noteq> current k \<Longrightarrow>
    fs_fd_copy (set_man k t fs_fd_init) (current k) t = Some (r, k') \<Longrightarrow> files_step k k'"
| fexec: "fs_fd_reinit acc k (current k) = Some (r, k') \<Longrightarrow> files_step k k'"
| fexit: "fs_fd_exit k (current k) = Some (r, k') \<Longrightarrow> files_step k k'"
| traffic: "same_ends (kpipes k) ps \<Longrightarrow> files_step k (k\<lparr>kpipes := ps\<rparr>)"
| other: "mans k' = mans k \<Longrightarrow> kpipes k' = kpipes k \<Longrightarrow> files_step k k'"

inductive files_reachable :: "'w kfiles \<Rightarrow> bool" where
  start: "mans k = Map.empty \<Longrightarrow> kpipes k = \<lparr>pipe_list = [], pipe_next_id = 0\<rparr> \<Longrightarrow> files_reachable k"
| step: "files_reachable k \<Longrightarrow> files_step k k' \<Longrightarrow> files_reachable k'"

lemma same_ends_refs:
  assumes "same_ends ps ps'"
  shows "refs ps' x rw = refs ps x rw" "pipes_ok ps \<Longrightarrow> pipes_ok ps'"
proof -
  have eq: "map (\<lambda>p. (pipe_id p, read_count p, write_count p)) (pipe_list ps') =
      map (\<lambda>p. (pipe_id p, read_count p, write_count p)) (pipe_list ps)" "pipe_next_id ps' = pipe_next_id ps"
    using assms by (simp_all add: same_ends_def)
  have "(case List.find (\<lambda>p. pipe_id p = x) l' of None \<Rightarrow> 0 | Some p \<Rightarrow> if rw then write_count p else read_count p) =
      (case List.find (\<lambda>p. pipe_id p = x) l of None \<Rightarrow> 0 | Some p \<Rightarrow> if rw then write_count p else read_count p)"
    if "map (\<lambda>p. (pipe_id p, read_count p, write_count p)) l' = map (\<lambda>p. (pipe_id p, read_count p, write_count p)) l" for l l'
    using that by (induction l arbitrary: l') (auto simp: Cons_eq_map_conv)
  from this [OF eq(1)] show "refs ps' x rw = refs ps x rw" by (simp add: refs_def pipe_find_def)
  have ids: "map pipe_id (pipe_list ps') = map pipe_id (pipe_list ps)"
    using arg_cong [OF eq(1), of "map fst"] by (simp add: comp_def)
  then have "pipe_id ` set (pipe_list ps') = pipe_id ` set (pipe_list ps)" by (metis list.set_map)
  then show "pipes_ok ps \<Longrightarrow> pipes_ok ps'" using ids eq(2) unfolding pipes_ok_def by (metis imageE imageI)
qed

lemma files_step_inv:
  assumes "files_step k k'" "files_inv k"
  shows "files_inv k'"
  using assms
proof (cases rule: files_step.cases)
  case (traffic ps)
  have "mans k' = mans k" using traffic(1) by simp
  moreover have "pipes_ok (kpipes k')" using same_ends_refs(2) [OF traffic(2) files_invD(3) [OF assms(2)]] traffic(1) by simp
  moreover have "refs (kpipes k) x rw \<le> refs (kpipes k') x rw" for x rw
    using same_ends_refs(1) [OF traffic(2), of x rw] traffic(1) by simp
  ultimately show ?thesis by (rule grown_inv [OF assms(2)])
next
  case other
  with assms(2) files_inv_cong [of k' k] show ?thesis by simp
next
  case fopen
  show ?thesis by (rule sys_open_inv [OF assms(2) fopen])
next
  case fclose
  show ?thesis by (rule sys_close_inv [OF assms(2) fclose])
next
  case flseek
  show ?thesis by (rule sys_lseek_inv [OF assms(2) flseek])
next
  case fdup
  show ?thesis by (rule sys_dup_inv [OF assms(2) fdup])
next
  case fdup2
  show ?thesis by (rule sys_dup2_inv [OF assms(2) fdup2])
next
  case fpipe
  show ?thesis by (rule sys_pipe_inv [OF assms(2) fpipe(2,1)])
next
  case ffork
  show ?thesis by (rule fs_fd_copy_inv [OF assms(2) ffork])
next
  case fexec
  show ?thesis by (rule fs_fd_reinit_inv [OF assms(2) fexec])
next
  case fexit
  show ?thesis by (rule fs_fd_exit_inv(1) [OF assms(2) fexit])
next
  case (fnew t)
  show ?thesis unfolding fnew(1) by (rule init_table_inv [OF assms(2) fnew(2)])
qed

lemma files_reachable_inv: "files_reachable k \<Longrightarrow> files_inv k"
proof (induction rule: files_reachable.induct)
  case (start k)
  then show ?case by (simp add: files_inv_def pipes_ok_def total_def refs_def pipe_find_def)
qed (rule files_step_inv)

subsection \<open>Properties\<close>

text \<open>Task 0 has opened a pipe and duplicated its write end.\<close>

definition demo_files0 :: "unit kfiles" where
  "demo_files0 = \<lparr>mans = Map.empty, ksched = demo_sched, kpipes = \<lparr>pipe_list = [], pipe_next_id = 0\<rparr>, kfifos = [],
     kdevs = \<lparr>devs = [], handles = []\<rparr>, kpaths = init_fsal_path_table, kopen = init_fsal_file_table,
     kfss = (\<lambda>_. undefined), klwip_close = (\<lambda>_ w. (0, w)), kworld = ()\<rparr>"

definition demo_files1 :: "unit kfiles" where
  "demo_files1 = set_man demo_files0 (current demo_files0) fs_fd_init"

definition demo_files2 :: "unit kfiles" where
  "demo_files2 = snd (the (sys_pipe demo_files1
     (Some \<lparr>pipe_id = 0, pfifo = example_fifo, pflags = 0, rdflags = 0, wrflags = 0, read_count = 0, write_count = 0,
        pmutex = mutexlock_init, pwait = []\<rparr>) (Some (\<lambda>_. 0)) (Some example_fifo)))"

definition demo_files :: "unit kfiles" where
  "demo_files = snd (the (sys_dup demo_files2 1))"

definition view_files :: "unit kfiles \<Rightarrow> (int \<times> u32) list option" where
  "view_files k = map_option (\<lambda>m. map (\<lambda>d. (handle d, fdflags d)) (take 4 (fds m))) (mans k (current k))"

lemma demo_files_view: "view_files demo_files = Some [(0, 33), (0, 65), (0, 65), (-1, 0)]"
  by code_simp

text \<open>
  C29. A descriptor of a pipe never dangles. In every state any number of tasks can reach by opening, closing,
  copying, forking, executing and exiting, the pipe of an open descriptor exists, and it counts at least as
  many open ends of that kind as there are descriptors in all tables: no pipe is destroyed, and no reader or
  writer is taken for closed, while a descriptor is open.
\<close>

theorem pipe_descriptor_live:
  assumes "files_reachable k" "mans k t = Some m" "d \<in> set (fds m)" "is_end x rw d"
  shows "\<exists>p. pipe_find (kpipes k) x = Some p \<and> 1 \<le> total k x rw \<and>
    int (total k x rw) \<le> (if rw then write_count p else read_count p)"
proof -
  note inv = files_reachable_inv [OF assms(1)]
  from end_counted [OF inv assms(2-4)] files_invD(4) [OF inv, of x rw] show ?thesis
    by (cases "pipe_find (kpipes k) x") (auto simp: refs_def)
qed

lemma demo_files_reachable: "files_reachable demo_files"
proof -
  have 0: "files_reachable demo_files0" by (rule files_reachable.start) (simp_all add: demo_files0_def)
  have 1: "files_reachable demo_files1"
    unfolding demo_files1_def by (rule files_reachable.step [OF 0 fnew]) (simp add: demo_files0_def)
  let ?call = "sys_pipe demo_files1 (Some \<lparr>pipe_id = 0, pfifo = example_fifo, pflags = 0, rdflags = 0, wrflags = 0,
      read_count = 0, write_count = 0, pmutex = mutexlock_init, pwait = []\<rparr>) (Some (\<lambda>_. 0)) (Some example_fifo)"
  have "\<not> Option.is_none ?call" by code_simp
  then have "?call = Some (fst (the ?call), demo_files2)" by (cases ?call) (simp_all add: demo_files2_def)
  moreover have "pipe_next_id (kpipes demo_files1) + 1 \<noteq> 0" by code_simp
  ultimately have 2: "files_reachable demo_files2" by (rule files_reachable.step [OF 1 fpipe])
  have "\<not> Option.is_none (sys_dup demo_files2 1)" by code_simp
  then have "sys_dup demo_files2 1 = Some (fst (the (sys_dup demo_files2 1)), demo_files)"
    by (cases "sys_dup demo_files2 1") (simp_all add: demo_files_def)
  then show ?thesis by (rule files_reachable.step [OF 2 fdup])
qed

theorem pipe_descriptor_live_witness: "\<exists>p. pipe_find (kpipes demo_files) 0 = Some p \<and> 1 \<le> write_count p"
proof -
  obtain m where m: "mans demo_files (current demo_files) = Some m"
    "take 4 (map (\<lambda>d. (handle d, fdflags d)) (fds m)) = [(0, 33), (0, 65), (0, 65), (-1, 0)]"
    using demo_files_view by (auto simp: view_files_def take_map)
  then have "(0, 65) \<in> set (take 4 (map (\<lambda>d. (handle d, fdflags d)) (fds m)))" by simp
  then have "(0, 65) \<in> set (map (\<lambda>d. (handle d, fdflags d)) (fds m))" by (rule in_set_takeD)
  then obtain d where "d \<in> set (fds m)" "is_end 0 True d" by (auto simp: is_end_def)
  from pipe_descriptor_live [OF demo_files_reachable m(1) this] show ?thesis by auto
qed

lemma find_destroy_last: "pipe_id p \<notin> pipe_id ` set l \<Longrightarrow> destroy_pipe (pipe_id p) (l @ [p]) = l"
  by (induction l) auto



text \<open>
  The exit of a process gives no pipe end back: a pipe whose writer exits without closing it keeps a
  writer for ever.
\<close>

lemma exit_keeps_pipes: "files_inv k \<Longrightarrow> fs_fd_exit k t = Some (r, k') \<Longrightarrow> kpipes k' = kpipes k"
  by (rule fs_fd_exit_inv(2))

text \<open>\<open>sys_dup2\<close> of a regular file reports success and installs nothing.\<close>

lemma dup2_normal:
  assumes "mans k (current k) = Some m" "fd_local_to_file m oldfd = Some d" "fdflags d = 3"
    "fd_local_to_file m newfd = None"
  shows "sys_dup2 k oldfd newfd accept = Some (newfd, k)"
  using assms by (auto simp: sys_dup2_def fsif_grow_def grow_handle_def dup_type_def fd_flag_defs)

lemma fd_copy_content:
  assumes "files_inv k" "mans k (current k) = Some src" "length (fds dst) = LOCAL_FILE_OPEN_NR" "i + n = LOCAL_FILE_OPEN_NR"
  shows "\<exists>dst' k'. fd_copy_from n src dst k i = Some (dst', k') \<and> cwd dst' = cwd dst \<and> mans k' = mans k \<and>
    (\<forall>j < LOCAL_FILE_OPEN_NR. fds dst' ! j = (if i \<le> j \<and> fdflags (fds src ! j) \<noteq> 0 then fds src ! j else fds dst ! j)) \<and>
    (\<forall>x rw. refs (kpipes k') x rw = refs (kpipes k) x rw + int (length (filter (is_end x rw) (drop i (fds src)))))"
  using assms
proof (induction n arbitrary: k dst i)
  case 0
  then have "length (fds src) \<le> i" using files_invD(2) [OF 0(1,2)] by (simp add: man_ok_def)
  with 0 show ?case by auto
next
  case (Suc n)
  note D = files_invD [OF Suc.prems(1)]
  let ?d = "fds src ! i"
  have i: "i < LOCAL_FILE_OPEN_NR" "i < length (fds src)"
    using Suc.prems(4) D(2) [OF Suc.prems(2)] by (simp_all add: man_ok_def)
  have ok: "fd_ok ?d" by (rule man_ok_nth [OF D(2) [OF Suc.prems(2)] i(1)])
  have drop: "int (length (filter (is_end x rw) (drop i (fds src)))) =
      of_bool (is_end x rw ?d) + int (length (filter (is_end x rw) (drop (Suc i) (fds src))))" for x rw
    using i(2) by (simp add: Cons_nth_drop_Suc [symmetric])
  show ?case
  proof (cases "fdflags ?d = 0")
    case True
    then have no: "\<not> is_end x rw ?d" for x rw by (simp add: is_end_def)
    have "Suc i + n = LOCAL_FILE_OPEN_NR" using Suc.prems(4) by simp
    from Suc.IH [OF Suc.prems(1-3) this] True no show ?thesis
      unfolding drop by (auto simp: le_less Suc_le_eq)
  next
    case False
    obtain r k1 where g: "fsif_grow k (int i) = Some (r, k1)"
      using Suc.prems(2) by (cases "fsif_grow k (int i)") (auto simp: fsif_grow_def split: option.splits prod.splits)
    note E = fsif_grow_effect [OF Suc.prems(1,2) g]
    let ?dst = "put_fd dst i ?d"
    have fd: "fd_local_to_file src (int i) = (if handle ?d < 0 then None else Some ?d)"
      using i False by (simp add: fd_local_to_file_def bad_fd_def)
    have ref: "refs (kpipes k1) x rw = refs (kpipes k) x rw + of_bool (is_end x rw ?d)" for x rw
    proof (cases "handle ?d < 0")
      case True
      with ok have "\<not> is_end x rw ?d" by (auto simp: fd_ok_def is_end_def)
      with E fd True show ?thesis by simp
    qed (use E fd in simp)
    have inv1: "files_inv k1" by (rule grown_inv [OF Suc.prems(1)]) (use E in blast, use E in blast, simp add: ref)
    have pre: "mans k1 (current k1) = Some src" "length (fds ?dst) = LOCAL_FILE_OPEN_NR" "Suc i + n = LOCAL_FILE_OPEN_NR"
      using E Suc.prems(2-4) by (simp_all add: put_fd_def)
    obtain dst' k' where R: "fd_copy_from n src ?dst k1 (Suc i) = Some (dst', k')" "cwd dst' = cwd ?dst" "mans k' = mans k1"
      "\<forall>j < LOCAL_FILE_OPEN_NR. fds dst' ! j = (if Suc i \<le> j \<and> fdflags (fds src ! j) \<noteq> 0 then fds src ! j else fds ?dst ! j)"
      "\<forall>x rw. refs (kpipes k') x rw = refs (kpipes k1) x rw + int (length (filter (is_end x rw) (drop (Suc i) (fds src))))"
      using Suc.IH [OF inv1 pre] by blast
    have "fds dst' ! j = (if i \<le> j \<and> fdflags (fds src ! j) \<noteq> 0 then fds src ! j else fds dst ! j)" if "j < LOCAL_FILE_OPEN_NR" for j
      using R(4) that False i(1) Suc.prems(3) by (cases "j = i") (auto simp: put_fd_def)
    moreover have "fd_copy_from (Suc n) src dst k i = Some (dst', k')" using False g R(1) by (simp add: put_fd_def)
    ultimately show ?thesis using R(2,3,5) E ref unfolding drop by (auto simp: put_fd_def)
  qed
qed

text \<open>
  A fork copies the open descriptors and the working directory, and each pipe counts exactly the copies:
  the child's descriptors are the parent's, and nothing else in the tables changes.
\<close>

theorem fork_copies_files:
  assumes "files_reachable k" "mans k (current k) = Some src" "mans k t = None" "t \<noteq> current k"
  shows "\<exists>k' m. fs_fd_copy (set_man k t fs_fd_init) (current k) t = Some (0, k') \<and> mans k' = (mans k)(t \<mapsto> m) \<and> cwd m = cwd src \<and>
    (\<forall>i < LOCAL_FILE_OPEN_NR. fds m ! i = (if fdflags (fds src ! i) \<noteq> 0 then fds src ! i else fds fs_fd_init ! i)) \<and>
    (\<forall>x rw. refs (kpipes k') x rw = refs (kpipes k) x rw + int (ends src x rw))"
proof -
  let ?k = "set_man k t fs_fd_init"
  have inv: "files_inv ?k" by (rule init_table_inv [OF files_reachable_inv [OF assms(1)] assms(3)])
  have s: "mans ?k (current ?k) = Some src" "mans ?k (current k) = Some src" "mans ?k t = Some fs_fd_init" "kpipes ?k = kpipes k"
    using assms(2,4) by (simp_all add: set_man_def)
  have "length (fds (fs_fd_init\<lparr>cwd := cwd src\<rparr>)) = LOCAL_FILE_OPEN_NR" "0 + LOCAL_FILE_OPEN_NR = LOCAL_FILE_OPEN_NR"
    by (simp_all add: fs_fd_init_def)
  from fd_copy_content [OF inv s(1) this] obtain m k1 where
    "fd_copy_from LOCAL_FILE_OPEN_NR src (fs_fd_init\<lparr>cwd := cwd src\<rparr>) ?k 0 = Some (m, k1)" "cwd m = cwd src" "mans k1 = mans ?k"
    "\<forall>j < LOCAL_FILE_OPEN_NR. fds m ! j = (if fdflags (fds src ! j) \<noteq> 0 then fds src ! j else fds fs_fd_init ! j)"
    "\<forall>x rw. refs (kpipes k1) x rw = refs (kpipes k) x rw + int (ends src x rw)"
    using s(4) by (auto simp: ends_def)
  with s show ?thesis by (intro exI [of _ "set_man k1 t m"] exI [of _ m]) (auto simp: fs_fd_copy_def set_man_def)
qed

theorem fork_copies_files_witness:
  "\<exists>k' m. fs_fd_copy (set_man demo_files 7 fs_fd_init) (current demo_files) 7 = Some (0, k') \<and> cwd m = ''/'' \<and> mans k' 7 = Some m"
proof -
  have cur: "current demo_files = 0" by code_simp
  have none: "Option.is_none (mans demo_files 7)" by code_simp
  have "map_option cwd (mans demo_files (current demo_files)) = Some ''/''" by code_simp
  then obtain src where src: "mans demo_files (current demo_files) = Some src" "cwd src = ''/''" by auto
  from fork_copies_files [OF demo_files_reachable src(1), of 7] none cur src(2) show ?thesis
    by (auto simp: Option.is_none_def)
qed

end
