(* ===== verification/SoftIrq.thy ===== *)
theory SoftIrq
  imports Prelude
begin

section \<open>Software interrupts\<close>

text \<open>
  \<open>src/src/kernel/softirq.c\<close>, \<open>src/src/include/xbook/softirq.h\<close> and the single-word use of
  \<open>src/src/include/xbook/bitops.h\<close>. The action of a software interrupt is one of the two that run the task
  assists or a handler of another component, a parameter \<open>h\<close> of the model; \<open>f\<close> is the function of an
  assist with its data. They run with interrupts on, so their effect on the state includes what the
  interrupts in the meantime do to it, except for another \<open>do_softirq\<close>. \<open>ran\<close> and \<open>assisted\<close> record the
  actions and the assists that have run. \<open>None\<close> is a call through a null pointer or behind the table, or
  an assist that is linked into a list it is already in.
\<close>

definition NR_SOFTIRQS :: nat where "NR_SOFTIRQS = 7"
definition HIGHTASK_ASSIST_SOFTIRQ :: nat where "HIGHTASK_ASSIST_SOFTIRQ = 0"
definition TIMER_SOFTIRQ :: nat where "TIMER_SOFTIRQ = 1"
definition TASK_ASSIST_SOFTIRQ :: nat where "TASK_ASSIST_SOFTIRQ = 4"
definition SCHED_SOFTIRQ :: nat where "SCHED_SOFTIRQ = 5"
definition MAX_REDO_IRQ :: nat where "MAX_REDO_IRQ = 10"
definition TASK_ASSIST_SCHED :: nat where "TASK_ASSIST_SCHED = 0"

datatype assist_kind = High | Normal
datatype softirq_action = Assists assist_kind | Handler nat

record task_assist =
  astatus :: u32
  acount :: int

record 'w softirqs =
  softirq_table :: "nat \<Rightarrow> softirq_action option"
  softirq_evens :: u32
  heads :: "assist_kind \<Rightarrow> nat list"
  assists :: "nat \<Rightarrow> task_assist"
  world :: 'w
  ran :: "nat list"
  assisted :: "nat list"

definition task_assist_init :: "'w softirqs \<Rightarrow> nat \<Rightarrow> 'w softirqs" where
  "task_assist_init k a = k\<lparr>assists := (assists k)(a := \<lparr>astatus = 0, acount = 0\<rparr>)\<rparr>"

definition task_assist_disable :: "'w softirqs \<Rightarrow> nat \<Rightarrow> 'w softirqs" where
  "task_assist_disable k a = k\<lparr>assists := (assists k)(a := (assists k a)\<lparr>acount := acount (assists k a) - 1\<rparr>)\<rparr>"

definition task_assist_enable :: "'w softirqs \<Rightarrow> nat \<Rightarrow> 'w softirqs" where
  "task_assist_enable k a = k\<lparr>assists := (assists k)(a := (assists k a)\<lparr>acount := acount (assists k a) + 1\<rparr>)\<rparr>"

definition build_softirq :: "'w softirqs \<Rightarrow> nat \<Rightarrow> softirq_action \<Rightarrow> 'w softirqs" where
  "build_softirq k softirq action =
     (if softirq < NR_SOFTIRQS then k\<lparr>softirq_table := (softirq_table k)(softirq := Some action)\<rparr> else k)"

definition active_softirq :: "'w softirqs \<Rightarrow> nat \<Rightarrow> 'w softirqs" where
  "active_softirq k softirq =
     (if softirq < NR_SOFTIRQS \<and> softirq_table k softirq \<noteq> None
      then k\<lparr>softirq_evens := softirq_evens k OR push_bit softirq 1\<rparr> else k)"

definition set_status :: "'w softirqs \<Rightarrow> nat \<Rightarrow> u32 \<Rightarrow> 'w softirqs" where
  "set_status k a w = k\<lparr>assists := (assists k)(a := (assists k a)\<lparr>astatus := w\<rparr>)\<rparr>"

definition test_and_set_bit :: "nat \<Rightarrow> 'w softirqs \<Rightarrow> nat \<Rightarrow> bool \<times> 'w softirqs" where
  "test_and_set_bit nr k a =
     (push_bit nr 1 AND astatus (assists k a) \<noteq> 0, set_status k a (astatus (assists k a) OR push_bit nr 1))"

definition clear_bit :: "nat \<Rightarrow> 'w softirqs \<Rightarrow> nat \<Rightarrow> 'w softirqs" where
  "clear_bit nr k a = set_status k a (astatus (assists k a) AND NOT (push_bit nr 1))"

subsection \<open>Task assists\<close>

definition push_assist :: "assist_kind \<Rightarrow> 'w softirqs \<Rightarrow> nat \<Rightarrow> 'w softirqs option" where
  "push_assist q k a =
     (if a \<in> set (heads k q) then None else Some (k\<lparr>heads := (heads k)(q := a # heads k q)\<rparr>))"

definition high_task_assist_schedule :: "'w softirqs \<Rightarrow> nat \<Rightarrow> 'w softirqs option" where
  "high_task_assist_schedule k a =
     (case test_and_set_bit HIGHTASK_ASSIST_SOFTIRQ k a of (old, k) \<Rightarrow>
        if old then Some k
        else map_option (\<lambda>k. active_softirq k HIGHTASK_ASSIST_SOFTIRQ) (push_assist High k a))"

definition task_assist_schedule :: "'w softirqs \<Rightarrow> nat \<Rightarrow> 'w softirqs option" where
  "task_assist_schedule k a =
     (case test_and_set_bit TASK_ASSIST_SOFTIRQ k a of (old, k) \<Rightarrow>
        if old then Some k
        else map_option (\<lambda>k. active_softirq k TASK_ASSIST_SOFTIRQ) (push_assist Normal k a))"

text \<open>The loops of the two actions, which differ in the list and in the interrupt they raise again.\<close>

fun assist_loop :: "assist_kind \<Rightarrow> nat \<Rightarrow> (nat \<Rightarrow> 'w softirqs \<Rightarrow> 'w softirqs) \<Rightarrow> 'w softirqs \<Rightarrow> nat list \<Rightarrow> 'w softirqs option" where
  "assist_loop q irq f k [] = Some k"
| "assist_loop q irq f k (a # list) =
     (if acount (assists k a) = 0
      then let k = clear_bit TASK_ASSIST_SCHED k a
           in assist_loop q irq f (f a (k\<lparr>assisted := assisted k @ [a]\<rparr>)) list
      else case push_assist q k a of None \<Rightarrow> None
           | Some k \<Rightarrow> assist_loop q irq f (active_softirq k irq) list)"

definition high_task_assist_action :: "(nat \<Rightarrow> 'w softirqs \<Rightarrow> 'w softirqs) \<Rightarrow> 'w softirqs \<Rightarrow> 'w softirqs option" where
  "high_task_assist_action f k =
     assist_loop High HIGHTASK_ASSIST_SOFTIRQ f (k\<lparr>heads := (heads k)(High := [])\<rparr>) (heads k High)"

definition task_assist_action :: "(nat \<Rightarrow> 'w softirqs \<Rightarrow> 'w softirqs) \<Rightarrow> 'w softirqs \<Rightarrow> 'w softirqs option" where
  "task_assist_action f k =
     assist_loop Normal TASK_ASSIST_SOFTIRQ f (k\<lparr>heads := (heads k)(Normal := [])\<rparr>) (heads k Normal)"

subsection \<open>Running the events\<close>

definition run_action :: "(nat \<Rightarrow> 'w softirqs \<Rightarrow> 'w softirqs) \<Rightarrow> (nat \<Rightarrow> 'w softirqs \<Rightarrow> 'w softirqs) \<Rightarrow>
    'w softirqs \<Rightarrow> nat \<Rightarrow> 'w softirqs option" where
  "run_action h f k i =
     (if \<not> i < NR_SOFTIRQS then None
      else let k' = k\<lparr>ran := ran k @ [i]\<rparr>
           in case softirq_table k i of None \<Rightarrow> None
              | Some (Assists High) \<Rightarrow> high_task_assist_action f k'
              | Some (Assists Normal) \<Rightarrow> task_assist_action f k'
              | Some (Handler n) \<Rightarrow> Some (h n k'))"

text \<open>The \<open>do ... while (evens)\<close> loop, from the action of index \<open>i\<close> on.\<close>

function run_events :: "(nat \<Rightarrow> 'w softirqs \<Rightarrow> 'w softirqs) \<Rightarrow> (nat \<Rightarrow> 'w softirqs \<Rightarrow> 'w softirqs) \<Rightarrow>
    'w softirqs \<Rightarrow> nat \<Rightarrow> u32 \<Rightarrow> 'w softirqs option" where
  "run_events h f k i evens =
     (case (if evens AND 1 \<noteq> 0 then run_action h f k i else Some k) of
        None \<Rightarrow> None
      | Some k \<Rightarrow> if drop_bit 1 evens = 0 then Some k else run_events h f k (Suc i) (drop_bit 1 evens))"
  by pat_completeness auto
termination
proof (relation "measure (\<lambda>(h, f, k, i, evens). unat evens)")
  fix h f :: "nat \<Rightarrow> 'w softirqs \<Rightarrow> 'w softirqs" and k :: "'w softirqs" and i :: nat and evens :: u32 and x2
  assume "drop_bit 1 evens \<noteq> 0"
  moreover have "unat (drop_bit 1 evens) = unat evens div 2"
    by (simp add: drop_bit_eq_div unat_div)
  ultimately show "((h, f, x2, Suc i, drop_bit 1 evens), h, f, k, i, evens) \<in> measure (\<lambda>(h, f, k, i, evens). unat evens)"
    by (simp add: word_unat_eq_iff)
qed simp

declare run_events.simps [simp del]

text \<open>\<open>handle_softirq\<close> from the label \<open>redo\<close> on, with \<open>redoIrq\<close> and the events read last.\<close>

fun redo_softirq :: "(nat \<Rightarrow> 'w softirqs \<Rightarrow> 'w softirqs) \<Rightarrow> (nat \<Rightarrow> 'w softirqs \<Rightarrow> 'w softirqs) \<Rightarrow>
    'w softirqs \<Rightarrow> nat \<Rightarrow> u32 \<Rightarrow> 'w softirqs option" where
  "redo_softirq h f k 0 evens = Some k"
| "redo_softirq h f k (Suc n) evens =
     (if evens = 0 then Some k
      else case run_events h f (k\<lparr>softirq_evens := 0\<rparr>) 0 evens of
             None \<Rightarrow> None
           | Some k \<Rightarrow> if softirq_evens k \<noteq> 0 \<and> n \<noteq> 0 then redo_softirq h f k n (softirq_evens k) else Some k)"

definition handle_softirq :: "(nat \<Rightarrow> 'w softirqs \<Rightarrow> 'w softirqs) \<Rightarrow> (nat \<Rightarrow> 'w softirqs \<Rightarrow> 'w softirqs) \<Rightarrow>
    'w softirqs \<Rightarrow> 'w softirqs option" where
  "handle_softirq h f k = redo_softirq h f k MAX_REDO_IRQ (softirq_evens k)"

definition do_softirq :: "(nat \<Rightarrow> 'w softirqs \<Rightarrow> 'w softirqs) \<Rightarrow> (nat \<Rightarrow> 'w softirqs \<Rightarrow> 'w softirqs) \<Rightarrow>
    'w softirqs \<Rightarrow> 'w softirqs option" where
  "do_softirq h f k = (if softirq_evens k \<noteq> 0 then handle_softirq h f k else Some k)"

definition init_softirq :: "'w softirqs \<Rightarrow> 'w softirqs" where
  "init_softirq k =
     (let k = k\<lparr>softirq_evens := 0, heads := (\<lambda>_. [])\<rparr>;
          k = build_softirq k HIGHTASK_ASSIST_SOFTIRQ (Assists High)
      in build_softirq k TASK_ASSIST_SOFTIRQ (Assists Normal))"

text \<open>
  \<open>clock_handler\<close> and the set-up of \<open>init_clock\<close> in \<open>src/src/kernel/clock.c\<close>; \<open>tick\<close> increments the
  two counters.
\<close>

definition clock_handler :: "('w \<Rightarrow> 'w) \<Rightarrow> 'w softirqs \<Rightarrow> 'w softirqs" where
  "clock_handler tick k = active_softirq (active_softirq (k\<lparr>world := tick (world k)\<rparr>) TIMER_SOFTIRQ) SCHED_SOFTIRQ"

definition init_clock :: "'w softirqs \<Rightarrow> 'w softirqs" where
  "init_clock k =
     build_softirq (build_softirq k TIMER_SOFTIRQ (Handler TIMER_SOFTIRQ)) SCHED_SOFTIRQ (Handler SCHED_SOFTIRQ)"

subsection \<open>The invariant\<close>

text \<open>
  Every pending event has an action. An assist is scheduled by one of the two functions only, given by
  \<open>kind\<close>; while it is in the list of its kind, or in the part \<open>taken\<close> of the list that a running action has
  still to do, its bit is set.
\<close>

definition sched_bit :: "assist_kind \<Rightarrow> nat" where
  "sched_bit q = (case q of High \<Rightarrow> HIGHTASK_ASSIST_SOFTIRQ | Normal \<Rightarrow> TASK_ASSIST_SOFTIRQ)"

definition events_ok :: "'w softirqs \<Rightarrow> bool" where
  "events_ok k \<longleftrightarrow> (\<forall>i. bit (softirq_evens k) i \<longrightarrow> i < NR_SOFTIRQS \<and> softirq_table k i \<noteq> None)"

definition assists_ok :: "(nat \<Rightarrow> assist_kind) \<Rightarrow> (assist_kind \<Rightarrow> nat list) \<Rightarrow> 'w softirqs \<Rightarrow> bool" where
  "assists_ok kind taken k \<longleftrightarrow> (\<forall>q. distinct (taken q @ heads k q) \<and>
     (\<forall>a \<in> set (taken q @ heads k q). kind a = q \<and> bit (astatus (assists k a)) (sched_bit q)))"

text \<open>
  What an action of another component or the function of an assist may do: raise events, schedule, enable
  and disable assists, change the rest of the system.
\<close>

definition well_behaved :: "(nat \<Rightarrow> assist_kind) \<Rightarrow> ('w softirqs \<Rightarrow> 'w softirqs) \<Rightarrow> bool" where
  "well_behaved kind g \<longleftrightarrow> (\<forall>k. softirq_table (g k) = softirq_table k \<and> ran (g k) = ran k \<and>
     (events_ok k \<longrightarrow> events_ok (g k)) \<and> (\<forall>taken. assists_ok kind taken k \<longrightarrow> assists_ok kind taken (g k)))"

lemma well_behavedD:
  assumes "well_behaved kind g"
  shows "softirq_table (g k) = softirq_table k" "ran (g k) = ran k" "events_ok k \<Longrightarrow> events_ok (g k)"
    "assists_ok kind taken k \<Longrightarrow> assists_ok kind taken (g k)"
  using assms by (simp_all add: well_behaved_def)

lemma active_simps [simp]:
  "heads (active_softirq k i) = heads k" "assists (active_softirq k i) = assists k" "ran (active_softirq k i) = ran k"
  "softirq_table (active_softirq k i) = softirq_table k" "assisted (active_softirq k i) = assisted k"
  "world (active_softirq k i) = world k"
  by (simp_all add: active_softirq_def)

lemma active_events [simp]: "events_ok k \<Longrightarrow> events_ok (active_softirq k i)"
  by (auto simp: events_ok_def active_softirq_def bit_or_iff push_bit_of_1 bit_exp_iff)

lemma events_ok_cong:
  "softirq_evens k' = softirq_evens k \<Longrightarrow> softirq_table k' = softirq_table k \<Longrightarrow> events_ok k' = events_ok k"
  by (simp add: events_ok_def)

lemma assists_ok_cong:
  "heads k' = heads k \<Longrightarrow> assists k' = assists k \<Longrightarrow> assists_ok kind taken k' = assists_ok kind taken k"
  by (simp add: assists_ok_def)

lemma set_status_simps [simp]:
  "heads (set_status k a w) = heads k" "ran (set_status k a w) = ran k" "softirq_table (set_status k a w) = softirq_table k"
  "softirq_evens (set_status k a w) = softirq_evens k" "assisted (set_status k a w) = assisted k"
  "world (set_status k a w) = world k"
  "astatus (assists (set_status k a w) b) = (if b = a then w else astatus (assists k b))"
  "acount (assists (set_status k a w) b) = acount (assists k b)"
  by (simp_all add: set_status_def)

abbreviation only :: "assist_kind \<Rightarrow> nat list \<Rightarrow> assist_kind \<Rightarrow> nat list" where
  "only q xs \<equiv> (\<lambda>_. [])(q := xs)"

lemma assists_okD:
  assumes "assists_ok kind taken k"
  shows "distinct (taken q @ heads k q)" "a \<in> set (taken q) \<or> a \<in> set (heads k q) \<Longrightarrow> kind a = q"
    "a \<in> set (taken q) \<or> a \<in> set (heads k q) \<Longrightarrow> bit (astatus (assists k a)) (sched_bit q)"
  using assms unfolding assists_ok_def by auto

lemma assists_okI:
  assumes "\<And>q. distinct (taken q @ heads k q)"
    and "\<And>q a. a \<in> set (taken q @ heads k q) \<Longrightarrow> kind a = q \<and> bit (astatus (assists k a)) (sched_bit q)"
  shows "assists_ok kind taken k"
  using assms unfolding assists_ok_def by blast

text \<open>The first assist that is taken leaves the lists, whatever its bits are then, or goes back to the head.\<close>

lemma assists_ok_done:
  assumes "assists_ok kind (only q (a # xs)) k" "heads k' = heads k"
    and "\<And>b. b \<noteq> a \<Longrightarrow> astatus (assists k' b) = astatus (assists k b)"
  shows "assists_ok kind (only q xs) k'"
proof (rule assists_okI)
  note D = assists_okD [OF assms(1)]
  fix p
  show "distinct (only q xs p @ heads k' p)" using D(1) [of p] assms(2) by (auto split: if_splits)
  fix b assume b: "b \<in> set (only q xs p @ heads k' p)"
  then have in_p: "b \<in> set (only q (a # xs) p) \<or> b \<in> set (heads k p)" using assms(2) by (auto split: if_splits)
  have "kind a = q" using D(2) [of a q] by simp
  with D(1) [of p] D(2) [OF in_p] b assms(2) have "b \<noteq> a" by (auto split: if_splits)
  with D(2,3) [OF in_p] assms(3) show "kind b = p \<and> bit (astatus (assists k' b)) (sched_bit p)" by simp
qed

lemma assists_ok_again:
  assumes "assists_ok kind (only q (a # xs)) k" "heads k' = (heads k)(q := a # heads k q)" "assists k' = assists k"
  shows "assists_ok kind (only q xs) k'"
proof (rule assists_okI)
  note D = assists_okD [OF assms(1)]
  fix p
  show "distinct (only q xs p @ heads k' p)" using D(1) [of p] assms(2) by (auto split: if_splits)
  fix b assume "b \<in> set (only q xs p @ heads k' p)"
  then have "b \<in> set (only q (a # xs) p) \<or> b \<in> set (heads k p)" using assms(2) by (auto split: if_splits)
  from D(2,3) [OF this] assms(3) show "kind b = p \<and> bit (astatus (assists k' b)) (sched_bit p)" by simp
qed

lemma clear_bit_simps [simp]:
  "heads (clear_bit n k a) = heads k" "ran (clear_bit n k a) = ran k" "softirq_table (clear_bit n k a) = softirq_table k"
  "softirq_evens (clear_bit n k a) = softirq_evens k" "assisted (clear_bit n k a) = assisted k"
  "world (clear_bit n k a) = world k" "acount (assists (clear_bit n k a) b) = acount (assists k b)"
  "astatus (assists (clear_bit n k a) b) =
     (if b = a then astatus (assists k a) AND NOT (push_bit n 1) else astatus (assists k b))"
  by (simp_all add: clear_bit_def)

definition fine :: "(nat \<Rightarrow> assist_kind) \<Rightarrow> 'w softirqs \<Rightarrow> 'w softirqs \<Rightarrow> bool" where
  "fine kind k k' \<longleftrightarrow> events_ok k' \<and> assists_ok kind (\<lambda>_. []) k' \<and> ran k' = ran k \<and> softirq_table k' = softirq_table k"

lemma assist_loop_ok:
  assumes f: "\<And>a. well_behaved kind (f a)"
  shows "events_ok k \<Longrightarrow> assists_ok kind (only q xs) k \<Longrightarrow> \<exists>k'. assist_loop q irq f k xs = Some k' \<and> fine kind k k'"
proof (induction xs arbitrary: k)
  case Nil
  then show ?case by (simp add: fine_def fun_upd_idem)
next
  case (Cons a xs)
  show ?case
  proof (cases "acount (assists k a) = 0")
    case True
    let ?k1 = "(clear_bit TASK_ASSIST_SCHED k a)\<lparr>assisted := assisted (clear_bit TASK_ASSIST_SCHED k a) @ [a]\<rparr>"
    have "assists_ok kind (only q xs) ?k1" by (rule assists_ok_done [OF Cons.prems(2)]) simp_all
    moreover have "events_ok ?k1" using Cons.prems(1) by (simp cong: events_ok_cong add: events_ok_def)
    ultimately have "events_ok (f a ?k1)" "assists_ok kind (only q xs) (f a ?k1)"
      using well_behavedD(3,4) [OF f] by blast+
    from Cons.IH [OF this] obtain k' where k': "assist_loop q irq f (f a ?k1) xs = Some k'" "fine kind (f a ?k1) k'" by blast
    from k'(2) have "fine kind k k'"
      using well_behavedD(1,2) [OF f, of a ?k1] by (simp add: fine_def)
    with k'(1) True show ?thesis by (simp add: Let_def)
  next
    case False
    have "a \<notin> set (heads k q)" using assists_okD(1) [OF Cons.prems(2), of q] by simp
    then obtain k1 where k1: "push_assist q k a = Some k1" "k1 = k\<lparr>heads := (heads k)(q := a # heads k q)\<rparr>"
      by (simp add: push_assist_def)
    have "assists_ok kind (only q xs) (active_softirq k1 irq)"
      by (rule assists_ok_again [OF Cons.prems(2)]) (simp_all add: k1(2))
    moreover have "events_ok (active_softirq k1 irq)"
      using Cons.prems(1) by (intro active_events) (simp add: k1(2) events_ok_def)
    ultimately obtain k' where k': "assist_loop q irq f (active_softirq k1 irq) xs = Some k'"
      "fine kind (active_softirq k1 irq) k'" using Cons.IH by blast
    then have "fine kind k k'" by (simp add: fine_def k1(2))
    with k' False k1(1) show ?thesis by simp
  qed
qed

lemma take_list:
  assumes "assists_ok kind (\<lambda>_. []) k"
  shows "assists_ok kind (only q (heads k q)) (k\<lparr>heads := (heads k)(q := [])\<rparr>)"
proof (rule assists_okI)
  note D = assists_okD [OF assms]
  fix p
  show "distinct (only q (heads k q) p @ heads (k\<lparr>heads := (heads k)(q := [])\<rparr>) p)" using D(1) [of p] by auto
  fix b assume "b \<in> set (only q (heads k q) p @ heads (k\<lparr>heads := (heads k)(q := [])\<rparr>) p)"
  then have "b \<in> set (heads k p)" by (simp split: if_splits)
  with D(2,3) [of b p] show "kind b = p \<and> bit (astatus (assists (k\<lparr>heads := (heads k)(q := [])\<rparr>) b)) (sched_bit p)" by simp
qed

lemma run_action_ok:
  assumes wb: "\<And>n. well_behaved kind (h n)" "\<And>a. well_behaved kind (f a)"
    and ok: "events_ok k" "assists_ok kind (\<lambda>_. []) k" and i: "i < NR_SOFTIRQS" "softirq_table k i \<noteq> None"
  shows "\<exists>k'. run_action h f k i = Some k' \<and> fine kind (k\<lparr>ran := ran k @ [i]\<rparr>) k'"
proof -
  let ?k = "k\<lparr>ran := ran k @ [i]\<rparr>"
  have ok': "events_ok ?k" "assists_ok kind (\<lambda>_. []) ?k" using ok by (simp_all add: events_ok_def assists_ok_def)
  have "\<exists>k'. assist_loop q irq f (?k\<lparr>heads := (heads ?k)(q := [])\<rparr>) (heads ?k q) = Some k' \<and>
      fine kind (?k\<lparr>heads := (heads ?k)(q := [])\<rparr>) k'" for q irq
    by (rule assist_loop_ok [OF wb(2) _ take_list [OF ok'(2)]]) (use ok' in \<open>simp add: events_ok_def\<close>)
  moreover have "fine kind ?k (h n ?k)" for n
    using well_behavedD [OF wb(1)] ok' by (simp add: fine_def)
  ultimately show ?thesis
    using i by (auto simp: run_action_def Let_def high_task_assist_action_def task_assist_action_def fine_def
        split: option.splits softirq_action.splits assist_kind.splits)
qed

subsection \<open>Rounds\<close>

definition events :: "u32 \<Rightarrow> nat list" where
  "events w = filter (bit w) [0..<32]"

lemma events_0 [simp]: "events 0 = []"
  by (simp add: events_def)

lemma set_events: "i \<in> set (events w) \<longleftrightarrow> bit w i"
  by (auto simp: events_def dest: bit_imp_le_length)

lemma no_bit_above: "drop_bit (Suc i) w = 0 \<Longrightarrow> filter (bit w) [Suc i..<32] = []" for w :: u32
  by (auto simp: filter_empty_conv bit_eq_iff bit_drop_bit_eq dest: spec [where x = "_ - Suc i"]
      dest!: le_Suc_ex)

lemma run_events_ok:
  assumes wb: "\<And>n. well_behaved kind (h n)" "\<And>a. well_behaved kind (f a)"
  shows "events_ok k \<Longrightarrow> assists_ok kind (\<lambda>_. []) k \<Longrightarrow>
    (\<And>j. bit w j \<Longrightarrow> j < NR_SOFTIRQS \<and> softirq_table k j \<noteq> None) \<Longrightarrow> i < 32 \<Longrightarrow>
    \<exists>k'. run_events h f k i (drop_bit i w) = Some k' \<and> fine kind (k\<lparr>ran := ran k @ filter (bit w) [i..<32]\<rparr>) k'"
proof (induction "32 - i" arbitrary: i k)
  case (Suc n)
  have bit0: "drop_bit i w AND 1 \<noteq> 0 \<longleftrightarrow> bit w i" by (simp add: and_one_eq odd_iff_mod_2_eq_one [symmetric] bit_0 bit_drop_bit_eq flip: bit_0)
  have next_word: "drop_bit 1 (drop_bit i w) = drop_bit (Suc i) w" "drop_bit (Suc 0) (drop_bit i w) = drop_bit (Suc i) w"
    by simp_all
  have split: "filter (bit w) [i..<32] = (if bit w i then [i] else []) @ filter (bit w) [Suc i..<32]"
    using Suc.prems(4) by (simp add: upt_conv_Cons)
  obtain k1 where k1: "(if drop_bit i w AND 1 \<noteq> 0 then run_action h f k i else Some k) = Some k1"
    "fine kind (k\<lparr>ran := ran k @ (if bit w i then [i] else [])\<rparr>) k1"
  proof (cases "bit w i")
    case True
    have "\<exists>k'. run_action h f k i = Some k' \<and> fine kind (k\<lparr>ran := ran k @ [i]\<rparr>) k'"
      by (rule run_action_ok [OF wb Suc.prems(1,2)]) (use Suc.prems(3) [OF True] in simp_all)
    with that True show ?thesis by (auto simp: bit0)
  next
    case False
    with that Suc.prems(1,2) show ?thesis by (simp add: bit0 fine_def)
  qed
  show ?case
  proof (cases "drop_bit (Suc i) w = 0")
    case True
    then show ?thesis using k1 split no_bit_above [OF True]
      by (subst run_events.simps) (simp add: next_word del: drop_bit_drop_bit)
  next
    case False
    have "Suc i < 32"
    proof (rule ccontr)
      assume "\<not> Suc i < 32"
      then have "drop_bit (Suc i) w = 0" by (auto simp: bit_eq_iff bit_drop_bit_eq dest: bit_imp_le_length)
      with False show False by simp
    qed
    have n: "n = 32 - Suc i" using Suc.hyps(2) by simp
    have "\<exists>k'. run_events h f k1 (Suc i) (drop_bit (Suc i) w) = Some k' \<and>
        fine kind (k1\<lparr>ran := ran k1 @ filter (bit w) [Suc i..<32]\<rparr>) k'"
      by (rule Suc.hyps(1) [OF n]) (use k1(2) Suc.prems(3) \<open>Suc i < 32\<close> in \<open>auto simp: fine_def\<close>)
    then obtain k' where "run_events h f k1 (Suc i) (drop_bit (Suc i) w) = Some k'"
      "fine kind (k1\<lparr>ran := ran k1 @ filter (bit w) [Suc i..<32]\<rparr>) k'" by blast
    with k1 False split show ?thesis
      by (subst run_events.simps) (simp add: next_word fine_def del: drop_bit_drop_bit)
  qed
qed simp

lemma redo_softirq_ok:
  assumes wb: "\<And>n. well_behaved kind (h n)" "\<And>a. well_behaved kind (f a)"
  shows "events_ok k \<Longrightarrow> assists_ok kind (\<lambda>_. []) k \<Longrightarrow> softirq_evens k \<noteq> 0 \<Longrightarrow> n \<noteq> 0 \<Longrightarrow>
    \<exists>k' rounds. redo_softirq h f k n (softirq_evens k) = Some k' \<and>
      fine kind (k\<lparr>ran := ran k @ events (softirq_evens k) @ concat rounds\<rparr>) k' \<and>
      length rounds < n \<and> (\<forall>r \<in> set rounds. \<exists>w. w \<noteq> 0 \<and> r = events w) \<and>
      (softirq_evens k' \<noteq> 0 \<longrightarrow> Suc (length rounds) = n)"
proof (induction n arbitrary: k)
  case (Suc n)
  let ?k0 = "k\<lparr>softirq_evens := 0\<rparr>"
  have "\<exists>k'. run_events h f ?k0 0 (drop_bit 0 (softirq_evens k)) = Some k' \<and>
      fine kind (?k0\<lparr>ran := ran ?k0 @ filter (bit (softirq_evens k)) [0..<32]\<rparr>) k'"
    by (rule run_events_ok [OF wb]) (use Suc.prems in \<open>auto simp: events_ok_def assists_ok_def\<close>)
  then obtain k1 where k1: "run_events h f ?k0 0 (softirq_evens k) = Some k1"
    "fine kind (k\<lparr>ran := ran k @ events (softirq_evens k)\<rparr>) k1"
    by (auto simp: fine_def events_def)
  show ?case
  proof (cases "softirq_evens k1 \<noteq> 0 \<and> n \<noteq> 0")
    case False
    then show ?thesis using k1 Suc.prems by (intro exI [of _ k1] exI [of _ "[]"]) auto
  next
    case True
    with Suc.IH [of k1] k1(2) obtain k' rounds where *:
      "redo_softirq h f k1 n (softirq_evens k1) = Some k'"
      "fine kind (k1\<lparr>ran := ran k1 @ events (softirq_evens k1) @ concat rounds\<rparr>) k'"
      "length rounds < n" "\<forall>r \<in> set rounds. \<exists>w. w \<noteq> 0 \<and> r = events w"
      "softirq_evens k' \<noteq> 0 \<longrightarrow> Suc (length rounds) = n"
      by (auto simp: fine_def)
    have "redo_softirq h f k (Suc n) (softirq_evens k) = Some k'"
      using k1(1) * (1) True Suc.prems(3) by simp
    moreover have "fine kind (k\<lparr>ran := ran k @ events (softirq_evens k) @ concat (events (softirq_evens k1) # rounds)\<rparr>) k'"
      using k1(2) * (2) by (simp add: fine_def)
    ultimately show ?thesis
      using *(3-5) True by (intro exI [of _ k'] exI [of _ "events (softirq_evens k1) # rounds"]) auto
  qed
qed simp

subsection \<open>Scheduling keeps the invariant\<close>

lemma active_well_behaved: "well_behaved kind (\<lambda>k. active_softirq k i)"
  unfolding well_behaved_def by (auto simp: assists_ok_def)

lemma assist_count_well_behaved:
  "well_behaved kind (\<lambda>k. task_assist_enable k a)" "well_behaved kind (\<lambda>k. task_assist_disable k a)"
  unfolding well_behaved_def
  by (auto simp: task_assist_enable_def task_assist_disable_def events_ok_def assists_ok_def)

lemma push_ok:
  assumes ok: "assists_ok kind taken k" and a: "kind a = q" "\<not> bit (astatus (assists k a)) (sched_bit q)"
    and status: "\<And>b m. bit (astatus (assists k1 b)) m \<longleftrightarrow> bit (astatus (assists k b)) m \<or> b = a \<and> m = sched_bit q"
    and heads: "heads k1 = heads k"
  shows "\<exists>k'. push_assist q k1 a = Some k' \<and> k' = k1\<lparr>heads := (heads k)(q := a # heads k q)\<rparr> \<and> assists_ok kind taken k'"
proof -
  note D = assists_okD [OF ok]
  have new: "a \<notin> set (taken q)" "a \<notin> set (heads k q)" using D(3) a(2) by blast+
  have "assists_ok kind taken (k1\<lparr>heads := (heads k)(q := a # heads k q)\<rparr>)"
  proof (rule assists_okI)
    fix p
    show "distinct (taken p @ heads (k1\<lparr>heads := (heads k)(q := a # heads k q)\<rparr>) p)" using D(1) [of p] new by auto
    fix b assume b: "b \<in> set (taken p @ heads (k1\<lparr>heads := (heads k)(q := a # heads k q)\<rparr>) p)"
    then consider "b = a" "p = q" | "b \<in> set (taken p) \<or> b \<in> set (heads k p)" by (auto split: if_splits)
    then show "kind b = p \<and> bit (astatus (assists (k1\<lparr>heads := (heads k)(q := a # heads k q)\<rparr>) b)) (sched_bit p)"
      using D(2,3) a(1) by cases (auto simp: status)
  qed
  with new heads show ?thesis by (simp add: push_assist_def)
qed

lemma test_and_set_spec:
  assumes "test_and_set_bit n k a = (old, k')" "n < 32"
  shows "old \<longleftrightarrow> bit (astatus (assists k a)) n" "heads k' = heads k" "ran k' = ran k" "softirq_table k' = softirq_table k"
    "softirq_evens k' = softirq_evens k" "assisted k' = assisted k" "world k' = world k"
    "bit (astatus (assists k' b)) m \<longleftrightarrow> bit (astatus (assists k b)) m \<or> b = a \<and> m = n"
    "acount (assists k' b) = acount (assists k b)"
  using assms push_bit_1_and_iff [of n "astatus (assists k a)"]
  by (auto simp: test_and_set_bit_def bit_or_iff push_bit_of_1 bit_exp_iff split: if_splits)

definition assist_schedule :: "assist_kind \<Rightarrow> 'w softirqs \<Rightarrow> nat \<Rightarrow> 'w softirqs option" where
  "assist_schedule q = (case q of High \<Rightarrow> high_task_assist_schedule | Normal \<Rightarrow> task_assist_schedule)"

lemma assist_schedule_eq:
  "assist_schedule q k a = (case test_and_set_bit (sched_bit q) k a of (old, k) \<Rightarrow>
     if old then Some k else map_option (\<lambda>k. active_softirq k (sched_bit q)) (push_assist q k a))"
  by (cases q) (simp_all add: assist_schedule_def high_task_assist_schedule_def task_assist_schedule_def sched_bit_def split: prod.split)

lemma sched_bit_less [simp]: "sched_bit q < 32"
  by (cases q) (simp_all add: sched_bit_def HIGHTASK_ASSIST_SOFTIRQ_def TASK_ASSIST_SOFTIRQ_def)

lemma assist_schedule_ok:
  assumes ok: "events_ok k" "assists_ok kind taken k" and a: "kind a = q"
  shows "\<exists>k'. assist_schedule q k a = Some k' \<and> events_ok k' \<and> assists_ok kind taken k' \<and> ran k' = ran k \<and>
    softirq_table k' = softirq_table k"
proof -
  obtain old k1 where t: "test_and_set_bit (sched_bit q) k a = (old, k1)" by fastforce
  note T = test_and_set_spec [OF t sched_bit_less]
  have ev: "events_ok k1" using ok(1) by (simp add: events_ok_def T(4,5))
  show ?thesis
  proof (cases old)
    case True
    with T(1,8) have "bit (astatus (assists k1 b)) m \<longleftrightarrow> bit (astatus (assists k b)) m" for b m by auto
    then have "assists_ok kind taken k1" using ok(2) by (simp add: assists_ok_def T(2))
    with True t ev T show ?thesis by (simp add: assist_schedule_eq)
  next
    case False
    with push_ok [OF ok(2) a _ T(8,2)] T(1) obtain k2 where k2: "push_assist q k1 a = Some k2"
      "k2 = k1\<lparr>heads := (heads k)(q := a # heads k q)\<rparr>" "assists_ok kind taken k2" by auto
    have "events_ok k2" using ev by (simp add: k2(2) events_ok_def)
    moreover have "assists_ok kind taken (active_softirq k2 i)" for i
      using k2(3) by (simp add: assists_ok_def)
    ultimately show ?thesis
      using False t k2(1) T by (simp add: assist_schedule_eq k2(2))
  qed
qed

fun schedule_all :: "assist_kind \<Rightarrow> 'w softirqs \<Rightarrow> nat list \<Rightarrow> 'w softirqs option" where
  "schedule_all q k [] = Some k"
| "schedule_all q k (a # as) = Option.bind (assist_schedule q k a) (\<lambda>k. schedule_all q k as)"

lemma schedule_all_snoc: "schedule_all q k (as @ [a]) = Option.bind (schedule_all q k as) (\<lambda>k. assist_schedule q k a)"
  by (induction as arbitrary: k) (simp_all add: bind_assoc split: Option.bind_split)

lemma schedule_all_spec:
  assumes idle: "softirq_evens k = 0" "heads k q = []" "softirq_table k (sched_bit q) \<noteq> None"
  shows "(\<And>a. a \<in> set as \<Longrightarrow> \<not> bit (astatus (assists k a)) (sched_bit q)) \<Longrightarrow> \<exists>k'. schedule_all q k as = Some k' \<and>
    heads k' = (heads k)(q := remdups (rev as)) \<and> ran k' = ran k \<and> assisted k' = assisted k \<and> world k' = world k \<and>
    softirq_table k' = softirq_table k \<and> softirq_evens k' = (if as = [] then 0 else push_bit (sched_bit q) 1) \<and>
    (\<forall>b m. bit (astatus (assists k' b)) m \<longleftrightarrow> bit (astatus (assists k b)) m \<or> b \<in> set as \<and> m = sched_bit q) \<and>
    (\<forall>b. acount (assists k' b) = acount (assists k b))"
proof (induction as rule: rev_induct)
  case (snoc a as)
  then obtain k1 where k1: "schedule_all q k as = Some k1" "heads k1 = (heads k)(q := remdups (rev as))" "ran k1 = ran k"
    "assisted k1 = assisted k" "world k1 = world k" "softirq_table k1 = softirq_table k"
    "softirq_evens k1 = (if as = [] then 0 else push_bit (sched_bit q) 1)"
    "\<And>b m. bit (astatus (assists k1 b)) m \<longleftrightarrow> bit (astatus (assists k b)) m \<or> b \<in> set as \<and> m = sched_bit q"
    "\<And>b. acount (assists k1 b) = acount (assists k b)" by (auto simp: fun_upd_def)
  obtain old k2 where t: "test_and_set_bit (sched_bit q) k1 a = (old, k2)" by fastforce
  note T = test_and_set_spec [OF t sched_bit_less]
  have old: "old \<longleftrightarrow> a \<in> set as" using T(1) k1(8) snoc.prems by auto
  show ?case
  proof (cases old)
    case True
    then show ?thesis using t T(2-7) k1 old
      by (auto simp: schedule_all_snoc assist_schedule_eq T(8,9) insert_absorb)
  next
    case False
    have less: "sched_bit q < NR_SOFTIRQS"
      by (cases q) (simp_all add: sched_bit_def NR_SOFTIRQS_def HIGHTASK_ASSIST_SOFTIRQ_def TASK_ASSIST_SOFTIRQ_def)
    have "push_assist q k2 a = Some (k2\<lparr>heads := (heads k2)(q := a # heads k2 q)\<rparr>)"
      using False old k1(2) T(2) by (simp add: push_assist_def)
    then show ?thesis using False old t k1 T(2-7) less idle(3)
      by (auto simp: schedule_all_snoc assist_schedule_eq T(8,9) active_softirq_def)
  qed
qed (use idle in \<open>simp add: fun_upd_idem\<close>)

text \<open>Functions of assists that only change the rest of the system.\<close>

abbreviation outside :: "(nat \<Rightarrow> 'w \<Rightarrow> 'w) \<Rightarrow> nat \<Rightarrow> 'w softirqs \<Rightarrow> 'w softirqs" where
  "outside g \<equiv> \<lambda>a k. k\<lparr>world := g a (world k)\<rparr>"

lemma assist_loop_runs:
  "(\<And>a. a \<in> set as \<Longrightarrow> acount (assists k a) = 0) \<Longrightarrow> \<exists>k'. assist_loop q irq (outside g) k as = Some k' \<and>
    assisted k' = assisted k @ as \<and> world k' = fold g as (world k) \<and> heads k' = heads k \<and> ran k' = ran k \<and>
    softirq_evens k' = softirq_evens k \<and>
    (\<forall>b m. bit (astatus (assists k' b)) m \<longleftrightarrow> bit (astatus (assists k b)) m \<and> \<not> (b \<in> set as \<and> m = TASK_ASSIST_SCHED)) \<and>
    (\<forall>b. acount (assists k' b) = acount (assists k b))"
proof (induction as arbitrary: k)
  case (Cons a as)
  let ?k1 = "outside g a ((clear_bit TASK_ASSIST_SCHED k a)\<lparr>assisted := assisted (clear_bit TASK_ASSIST_SCHED k a) @ [a]\<rparr>)"
  have "acount (assists ?k1 b) = 0" if "b \<in> set as" for b using Cons.prems that by simp
  from Cons.IH [of ?k1, OF this] obtain k' where k': "assist_loop q irq (outside g) ?k1 as = Some k'"
    "assisted k' = assisted ?k1 @ as" "world k' = fold g as (world ?k1)" "heads k' = heads ?k1" "ran k' = ran ?k1"
    "softirq_evens k' = softirq_evens ?k1"
    "\<And>b m. bit (astatus (assists k' b)) m \<longleftrightarrow> bit (astatus (assists ?k1 b)) m \<and> \<not> (b \<in> set as \<and> m = TASK_ASSIST_SCHED)"
    "\<And>b. acount (assists k' b) = acount (assists ?k1 b)" by auto
  have "bit (astatus (assists ?k1 b)) m \<longleftrightarrow> bit (astatus (assists k b)) m \<and> \<not> (b = a \<and> m = TASK_ASSIST_SCHED)" for b m
    by (auto simp: bit_and_iff bit_not_iff push_bit_of_1 bit_exp_iff dest: bit_imp_le_length)
  with k' Cons.prems show ?case by (intro exI [of _ k']) (auto simp: Let_def)
qed simp

subsection \<open>Properties\<close>

definition demo_softirqs :: "nat softirqs" where
  "demo_softirqs = init_clock (init_softirq \<lparr>softirq_table = (\<lambda>_. None), softirq_evens = 0, heads = (\<lambda>_. []),
     assists = (\<lambda>_. \<lparr>astatus = 0, acount = 0\<rparr>), world = 0, ran = [], assisted = []\<rparr>)"

lemma boot_ok: "events_ok (init_clock (init_softirq k))" "assists_ok kind (\<lambda>_. []) (init_clock (init_softirq k))"
  by (simp_all add: init_clock_def init_softirq_def build_softirq_def Let_def events_ok_def assists_ok_def)

lemma demo_view: "softirq_evens demo_softirqs = 0" "heads demo_softirqs = (\<lambda>_. [])" "world demo_softirqs = 0"
  "assists demo_softirqs = (\<lambda>_. \<lparr>astatus = 0, acount = 0\<rparr>)" "ran demo_softirqs = []" "assisted demo_softirqs = []"
  "softirq_table demo_softirqs 0 = Some (Assists High)" "softirq_table demo_softirqs (Suc 0) = Some (Handler 1)"
  "softirq_table demo_softirqs 4 = Some (Assists Normal)" "softirq_table demo_softirqs 5 = Some (Handler 5)"
  by (simp_all add: demo_softirqs_def init_clock_def init_softirq_def build_softirq_def Let_def NR_SOFTIRQS_def
      HIGHTASK_ASSIST_SOFTIRQ_def TIMER_SOFTIRQ_def TASK_ASSIST_SOFTIRQ_def SCHED_SOFTIRQ_def)


lemma events_clock: "events 34 = [1, 5]"
  by code_simp


text \<open>
  The high-priority task assists are a stack of pending work: the assists scheduled since the last
  \<open>do_softirq\<close> run in it, each once however often it was scheduled, the one scheduled last (for the first
  time) first. Afterwards no work is pending and each of them can be scheduled again.
\<close>

theorem high_assists_once:
  assumes "softirq_evens k = 0" "heads k High = []" "softirq_table k HIGHTASK_ASSIST_SOFTIRQ = Some (Assists High)"
    and "\<And>a. a \<in> set as \<Longrightarrow> acount (assists k a) = 0 \<and> \<not> bit (astatus (assists k a)) HIGHTASK_ASSIST_SOFTIRQ"
  shows "\<exists>k1 k'. schedule_all High k as = Some k1 \<and> do_softirq h (outside g) k1 = Some k' \<and>
    assisted k' = assisted k @ remdups (rev as) \<and> world k' = fold g (remdups (rev as)) (world k) \<and>
    softirq_evens k' = 0 \<and> heads k' High = [] \<and>
    (\<forall>a \<in> set as. \<not> bit (astatus (assists k' a)) HIGHTASK_ASSIST_SOFTIRQ)"
proof -
  have bit0: "sched_bit High = 0" "TASK_ASSIST_SCHED = 0" "HIGHTASK_ASSIST_SOFTIRQ = 0"
    by (simp_all add: sched_bit_def HIGHTASK_ASSIST_SOFTIRQ_def TASK_ASSIST_SCHED_def)
  from schedule_all_spec [of k High as] assms bit0 obtain k1 where k1: "schedule_all High k as = Some k1"
    "heads k1 = (heads k)(High := remdups (rev as))" "assisted k1 = assisted k" "world k1 = world k"
    "softirq_table k1 = softirq_table k" "softirq_evens k1 = (if as = [] then 0 else 1)"
    "\<And>b m. bit (astatus (assists k1 b)) m \<longleftrightarrow> bit (astatus (assists k b)) m \<or> b \<in> set as \<and> m = 0"
    "\<And>b. acount (assists k1 b) = acount (assists k b)" by auto
  show ?thesis
  proof (cases "as = []")
    case True
    with assms k1 show ?thesis by (auto simp: do_softirq_def)
  next
    case False
    let ?k2 = "k1\<lparr>softirq_evens := 0, ran := ran k1 @ [0], heads := (heads k1)(High := [])\<rparr>"
    from assist_loop_runs [of "remdups (rev as)" ?k2 High 0 g] assms(4) k1(8) obtain k' where k':
      "assist_loop High 0 (outside g) ?k2 (remdups (rev as)) = Some k'" "assisted k' = assisted ?k2 @ remdups (rev as)"
      "world k' = fold g (remdups (rev as)) (world ?k2)" "heads k' = heads ?k2" "softirq_evens k' = softirq_evens ?k2"
      "\<And>b m. bit (astatus (assists k' b)) m \<longleftrightarrow> bit (astatus (assists ?k2 b)) m \<and> \<not> (b \<in> set as \<and> m = 0)"
      by (auto simp: bit0)
    have "run_action h (outside g) (k1\<lparr>softirq_evens := 0\<rparr>) 0 = Some k'"
      using k'(1) k1(2,5) assms(3) bit0 by (simp add: run_action_def NR_SOFTIRQS_def high_task_assist_action_def)
    then have "run_events h (outside g) (k1\<lparr>softirq_evens := 0\<rparr>) 0 1 = Some k'"
      by (subst run_events.simps) simp
    then have "do_softirq h (outside g) k1 = Some k'"
      using k1(6) k'(5) False by (simp add: do_softirq_def handle_softirq_def MAX_REDO_IRQ_def eval_nat_numeral)
    with k1 k' show ?thesis by (auto simp: bit0)
  qed
qed

lemma high_assists_once_witness:
  "\<exists>k1 k'. schedule_all High demo_softirqs [3, 4, 3] = Some k1 \<and> do_softirq (\<lambda>_ k. k) (outside (\<lambda>a w. 10 * w + a)) k1 = Some k' \<and>
     assisted k' = [4, 3] \<and> world k' = 43"
  using high_assists_once [of demo_softirqs "[3, 4, 3]" "\<lambda>_ k. k" "\<lambda>a w. 10 * w + a"]
  by (auto simp: demo_view HIGHTASK_ASSIST_SOFTIRQ_def)

text \<open>
  A normal assist is marked with bit 4, the number of its interrupt, but its action clears bit 0: after its
  first run it is never scheduled again.
\<close>

lemma normal_assist_stuck:
  assumes "bit (astatus (assists k a)) TASK_ASSIST_SOFTIRQ" "acount (assists k a) = 0"
  shows "\<exists>k'. task_assist_schedule k a = Some k' \<and> heads k' = heads k \<and> softirq_evens k' = softirq_evens k"
    and "\<exists>k'. assist_loop Normal irq (outside g) k [a] = Some k' \<and> bit (astatus (assists k' a)) TASK_ASSIST_SOFTIRQ"
proof -
  obtain old k1 where t: "test_and_set_bit (sched_bit Normal) k a = (old, k1)" by fastforce
  note T = test_and_set_spec [OF t sched_bit_less]
  have "task_assist_schedule k a = Some k1"
    using assist_schedule_eq [of Normal k a] t T(1) assms(1) by (simp add: assist_schedule_def sched_bit_def)
  then show "\<exists>k'. task_assist_schedule k a = Some k' \<and> heads k' = heads k \<and> softirq_evens k' = softirq_evens k"
    using T(2,5) by blast
  from assist_loop_runs [of "[a]" k Normal irq g] assms(2) obtain k' where
    k': "assist_loop Normal irq (outside g) k [a] = Some k'"
    and bits: "\<And>b m. bit (astatus (assists k' b)) m \<longleftrightarrow>
      bit (astatus (assists k b)) m \<and> \<not> (b \<in> set [a] \<and> m = TASK_ASSIST_SCHED)"
    by (auto simp del: assist_loop.simps)
  with assms(1) show "\<exists>k'. assist_loop Normal irq (outside g) k [a] = Some k' \<and> bit (astatus (assists k' a)) TASK_ASSIST_SOFTIRQ"
    by (intro exI [of _ k'] conjI) (simp_all only: bits, simp add: TASK_ASSIST_SOFTIRQ_def TASK_ASSIST_SCHED_def)
qed

end
