(* ===== verification/ForkMem.thy ===== *)
theory ForkMem
  imports VmSpace
begin

section \<open>The memory of a forked process\<close>

text \<open>
  How a fork copies the memory of its parent: the page directory of the child (\<open>__copy_kernel_page_dir\<close>), the
  switch of address spaces (\<open>vmm_active\<close>) and \<open>__copy_vm_mapping\<close>, page by page. The first two parts are lemmas
  on the allocation of one page and on a page table step in one of two directories; the model comes after them.
\<close>

subsection \<open>Enough memory for one page\<close>

definition covered :: "pmem \<Rightarrow> nat \<Rightarrow> bool" where
  "covered pm n \<longleftrightarrow> (\<exists>j. allocated pm j \<and> j \<le> n \<and> n < block_end pm j)"

definition spare :: "pmem \<Rightarrow> nat" where
  "spare pm = card {n. DMA_NODES \<le> n \<and> n < mem_node_count pm \<and> \<not> covered pm n}"

text \<open>The node table describes aligned pages above address 0 that fit into the 32-bit address space.\<close>

definition zone_ok :: "pmem \<Rightarrow> bool" where
  "zone_ok pm \<longleftrightarrow> pmem_ok pm \<and> mem_node_count pm < 2 ^ 20 \<and> aligned (mem_node_base pm) \<and> 0 < mem_node_base pm \<and>
     unat (mem_node_base pm) + 4096 * mem_node_count pm \<le> 2 ^ 32"

lemma find_free_exists:
  assumes "i \<le> k" "k < n" "nd_reference (tab k) = 0"
    and "\<And>v. i \<le> v \<Longrightarrow> v < k \<Longrightarrow> nd_reference (tab v) \<noteq> 0 \<Longrightarrow> v + unat (nd_count (tab v)) \<le> k"
  shows "find_free tab n i \<noteq> None"
  using assms
proof (induction tab n i rule: find_free.induct [case_names step])
  case (step tab n i)
  show ?case
  proof (cases "nd_reference (tab i) = 0")
    case False
    with step.prems have "i < k" by (metis le_neq_implies_less)
    with step.prems(4) [of i] False have "i + node_step (tab i) \<le> k" by (simp add: node_step_def)
    with step \<open>i < k\<close> False show ?thesis by (subst find_free.simps) auto
  qed (use step.prems in \<open>simp add: find_free.simps [of tab n i]\<close>)
qed

lemma node2page_pos:
  assumes "zone_ok pm" "i < mem_node_count pm"
  shows "mem_node2page pm i \<noteq> 0"
proof -
  have i: "i < 2 ^ 20" using assms by (simp add: zone_ok_def)
  have "unat (mem_node_base pm) + i * 4096 < 2 ^ 32" using assms by (auto simp: zone_ok_def)
  then have "unat (mem_node2page pm i) = unat (mem_node_base pm) + i * 4096"
    unfolding mem_node2page_def unat_word_ariths(1) unat_page_offset [OF i] by simp
  then show ?thesis using assms(1) by (auto simp: zone_ok_def word_less_nat_alt)
qed

lemma alloc_one:
  assumes ok: "zone_ok pm" and room: "1 \<le> spare pm"
  obtains page pm' i where "alloc_pages pm 1 = Ret (page, pm')" "page \<noteq> 0" "aligned page"
    "page2mem_node pm page = Some i" "\<not> covered pm i" "zone_ok pm'"
    "\<And>x. page2mem_node pm' x = page2mem_node pm x" "\<And>n. covered pm' n \<longleftrightarrow> n = i \<or> covered pm n"
    "\<And>j. allocated pm' j \<longleftrightarrow> j = i \<or> allocated pm j" "spare pm = Suc (spare pm')"
proof -
  note Z = ok [unfolded zone_ok_def]
  let ?F = "{n. DMA_NODES \<le> n \<and> n < mem_node_count pm \<and> \<not> covered pm n}"
  have fin: "finite ?F" by simp
  from room have "?F \<noteq> {}" unfolding spare_def by force
  then obtain k where k: "DMA_NODES \<le> k" "k < mem_node_count pm" "\<not> covered pm k" by blast
  have free: "\<not> allocated pm n" if "\<not> covered pm n" for n
    using that Z by (auto simp: covered_def pmem_ok_def)
  have "find_free (mem_node_table pm) (mem_node_count pm) DMA_NODES \<noteq> None"
  proof (rule find_free_exists [OF k(1,2)])
    show "nd_reference (mem_node_table pm k) = 0" using free [OF k(3)] k(2) by (simp add: allocated_def)
    fix v assume "DMA_NODES \<le> v" "v < k" "nd_reference (mem_node_table pm v) \<noteq> 0"
    then show "v + unat (nd_count (mem_node_table pm v)) \<le> k"
      using k(2,3) by (metis allocated_def block_end_def covered_def less_imp_le less_trans not_le)
  qed
  then obtain i0 where i0: "find_free (mem_node_table pm) (mem_node_count pm) DMA_NODES = Some i0" by blast
  note f = find_free_Some [OF i0]
  have "of_nat i0 + 1 \<le> (of_nat (mem_node_count pm) :: u32)"
  proof -
    have "i0 + 1 < 2 ^ 20" "mem_node_count pm < 2 ^ 20" using f(2) Z by auto
    then have "unat (of_nat (i0 + 1) :: u32) \<le> unat (of_nat (mem_node_count pm) :: u32)"
      using f(2) by (simp only: unat_of_small)
    then show ?thesis by (simp add: word_le_nat_alt add.commute)
  qed
  with i0 obtain page pm' where al: "alloc_pages pm 1 = Ret (page, pm')" "page = mem_node2page pm i0"
    by (auto simp: alloc_pages_def alloc_pages_flags_def get_free_mem_node_def MEM_NODE_DMA_def MEM_NODE_NORMAL_def
        simp flip: not_le)
  have pos: "page \<noteq> 0" using node2page_pos [OF ok] f(2) al(2) by simp
  from Z have pm: "pmem_ok pm" by blast
  obtain i where i: "page = mem_node2page pm i" "i < mem_node_count pm" "\<not> allocated pm i" "DMA_NODES \<le> i"
    "\<And>j. allocated pm j \<Longrightarrow> j < i \<Longrightarrow> block_end pm j \<le> i"
    "pm' = set_node pm i \<lparr>nd_count = 1, nd_flags = 0, nd_reference = 1, nd_cache = None, nd_group = None\<rparr>"
    by (rule alloc_pages_cases [OF pm al(1) [unfolded alloc_pages_def]])
      (use pos in \<open>auto simp: MEM_NODE_DMA_def MEM_NODE_NORMAL_def\<close>)
  have unc: "\<not> covered pm i" unfolding covered_def using i(3,5) by (metis le_neq_implies_less not_le)
  have pm': "pmem_ok pm'"
    unfolding i(6) by (subst new_block_ok [OF pm i(2,5) _ i(3)]) (use i(2,4) in \<open>auto simp: DMA_NODES_val\<close>)
  have alloc: "allocated pm' j \<longleftrightarrow> j = i \<or> allocated pm j" for j using i(2) by (simp add: i(6))
  have "block_end pm' j = (if j = i then Suc i else block_end pm j)" for j by (simp add: i(6))
  then have cov: "covered pm' n \<longleftrightarrow> n = i \<or> covered pm n" for n
    unfolding covered_def alloc using i(3) by (metis le_antisym less_Suc_eq_le order_refl)
  have "{n. DMA_NODES \<le> n \<and> n < mem_node_count pm' \<and> \<not> covered pm' n} = ?F - {i}"
    by (auto simp: cov) (simp_all add: i(6))
  then have "spare pm' = card ?F - 1" using unc i(2,4) fin by (simp add: spare_def)
  then have sp: "spare pm = Suc (spare pm')" using room by (simp add: spare_def)
  have "page2mem_node pm page = Some i" using page_roundtrip [of i pm] i(1,2) Z by simp
  moreover have "aligned page" using aligned_page Z i(1) by blast
  moreover have "zone_ok pm'" "page2mem_node pm' x = page2mem_node pm x" for x
    using Z pm' by (simp_all add: zone_ok_def i(6) page2mem_node_def)
  ultimately show ?thesis using that [OF al(1) pos _ _ unc _ _ cov alloc sp] by blast
qed

subsection \<open>User pages in two page directories\<close>

definition upage :: "u32 \<Rightarrow> bool" where
  "upage va \<longleftrightarrow> aligned va \<and> va < USER_VMM_SIZE"

text \<open>The entry a user page is mapped by.\<close>

definition tr :: "paging \<Rightarrow> u32 \<Rightarrow> u32 option" where
  "tr m va = (if mapped m va then Some (pte m va) else None)"

text \<open>The page tables of user memory belong to one directory only.\<close>

definition apart_dirs :: "(nat \<Rightarrow> u32) \<Rightarrow> (nat \<Rightarrow> u32) \<Rightarrow> bool" where
  "apart_dirs A D \<longleftrightarrow> (\<forall>i j. present (A i) \<longrightarrow> present (D j) \<longrightarrow> i < 512 \<or> j < 512 \<longrightarrow>
     A i AND PAGE_ADDR_MASK \<noteq> D j AND PAGE_ADDR_MASK)"

definition ok2 :: "paging \<Rightarrow> (nat \<Rightarrow> u32) \<Rightarrow> bool" where
  "ok2 m D \<longleftrightarrow> zone_ok (phys m) \<and> paging_ok m \<and> paging_ok (m\<lparr>pde := D\<rparr>) \<and> apart_dirs (pde m) D"

lemma PDE_IDX_div: "PDE_IDX va = unat va div 2 ^ 22"
proof -
  have m: "(0xffc00000 :: u32) = NOT (mask 22)" by (simp add: mask_eq_exp_minus_1)
  have "drop_bit 22 (va AND 0xffc00000) = drop_bit 22 va"
  proof (rule bit_word_eqI)
    fix n
    show "bit (drop_bit 22 (va AND 0xffc00000)) n \<longleftrightarrow> bit (drop_bit 22 va) n"
      unfolding m using bit_imp_le_length [of va "22 + n"] by (auto simp: bit_simps)
  qed
  then show ?thesis by (simp add: PDE_IDX_def drop_bit_eq_div unat_div)
qed

lemma PTE_IDX_div: "PTE_IDX va = unat va div 2 ^ 12 mod 2 ^ 10"
proof -
  have m: "(0x003ff000 :: u32) = push_bit 12 (mask 10)" by (simp add: mask_eq_exp_minus_1 push_bit_eq_mult)
  have "drop_bit 12 (va AND 0x003ff000) = drop_bit 12 va AND mask 10"
    unfolding m by (rule bit_word_eqI) (auto simp: bit_simps)
  also have "\<dots> = take_bit 10 (drop_bit 12 va)" by (simp add: take_bit_eq_mask)
  finally show ?thesis by (simp add: PTE_IDX_def) (simp add: unsigned_take_bit_eq drop_bit_eq_div unat_div unat_mod take_bit_eq_mod)
qed

lemma idx_split:
  assumes "aligned va"
  shows "unat va = PDE_IDX va * 2 ^ 22 + PTE_IDX va * 2 ^ 12"
proof -
  obtain n where n: "unat va = 4096 * n" using assms unfolding aligned_unat by (elim dvdE)
  define a b where "a = n div 1024" and "b = n mod 1024"
  then have "n = a * 1024 + b" by simp
  moreover have "PDE_IDX va = a" "PTE_IDX va = b"
    using div_mult_mult1 [of 4096 n 1024] by (simp_all add: PDE_IDX_div PTE_IDX_div n a_def b_def)
  ultimately show ?thesis by (simp add: n)
qed

lemma upage_idx:
  assumes "upage va" "upage vb" "PDE_IDX va = PDE_IDX vb" "PTE_IDX va = PTE_IDX vb"
  shows "va = vb"
  using assms idx_split by (simp add: upage_def word_unat_eq_iff)

lemma upage_pde: "upage va \<Longrightarrow> PDE_IDX va < 512"
  using idx_split [of va] by (simp add: upage_def USER_VMM_SIZE_def word_less_nat_alt)

lemma apart_dirsD:
  "apart_dirs A D \<Longrightarrow> present (A i) \<Longrightarrow> present (D j) \<Longrightarrow> i < 512 \<or> j < 512 \<Longrightarrow>
    A i AND PAGE_ADDR_MASK \<noteq> D j AND PAGE_ADDR_MASK"
  unfolding apart_dirs_def by blast

lemma paging_ok_phys:
  assumes "paging_ok m" "pde m' = pde m" "zone_ok (phys m')"
    and "\<And>x. page2mem_node (phys m') x = page2mem_node (phys m) x"
    and "\<And>j. allocated (phys m) j \<Longrightarrow> allocated (phys m') j"
  shows "paging_ok m'"
  using assms(1,3) unfolding paging_ok_def zone_ok_def assms(2,4) by (blast intro: assms(5))

lemma set_pte_step:
  assumes ok: "ok2 m D" and va: "upage va" "pde_present m va" and e: "present e"
  shows "ok2 (set_pte m va e) D" "upage vb \<Longrightarrow> tr (set_pte m va e) vb = (if vb = va then Some e else tr m vb)"
    "upage vb \<Longrightarrow> tr ((set_pte m va e)\<lparr>pde := D\<rparr>) vb = tr (m\<lparr>pde := D\<rparr>) vb"
proof -
  have pd: "paging_ok ((set_pte m va e)\<lparr>pde := D\<rparr>) = paging_ok (m\<lparr>pde := D\<rparr>)" by (simp add: paging_ok_def)
  show "ok2 (set_pte m va e) D" using ok by (simp add: ok2_def pd)
  note O = ok [unfolded ok2_def]
  show "tr (set_pte m va e) vb = (if vb = va then Some e else tr m vb)" if vb: "upage vb"
  proof (cases "vb = va")
    case True
    with va e show ?thesis by (simp add: tr_def mapped_def)
  next
    case False
    have "\<not> (table_of m vb = table_of m va \<and> PTE_IDX vb = PTE_IDX va)" if "pde_present m vb"
      using False upage_idx [OF vb va(1)] O that va(2)
      by (auto simp: paging_ok_def pde_present_def table_of_def)
    with False show ?thesis by (auto simp: tr_def mapped_def)
  qed
  show "tr ((set_pte m va e)\<lparr>pde := D\<rparr>) vb = tr (m\<lparr>pde := D\<rparr>) vb" if vb: "upage vb"
  proof -
    have "D (PDE_IDX vb) AND PAGE_ADDR_MASK \<noteq> table_of m va" if "present (D (PDE_IDX vb))"
      using apart_dirsD [of "pde m" D "PDE_IDX va"] O va(2) that upage_pde [OF va(1)]
      by (metis pde_present_def table_of_def)
    then show ?thesis
      by (auto simp: tr_def mapped_def pde_present_def pte_def set_pte_def) (auto simp: table_of_def)
  qed
qed

lemma new_table_step:
  assumes ok: "ok2 m D" and va: "upage va" "\<not> pde_present m va" and prot: "prot AND PAGE_ADDR_MASK = 0"
    and room: "1 \<le> spare (phys m)"
  obtains m1 where "new_table m va prot = Ret m1" "ok2 m1 D" "pde_present m1 va"
    "\<And>vb. upage vb \<Longrightarrow> tr m1 vb = tr m vb" "\<And>vb. upage vb \<Longrightarrow> tr (m1\<lparr>pde := D\<rparr>) vb = tr (m\<lparr>pde := D\<rparr>) vb"
    "pte m1 va = 0" "spare (phys m) = Suc (spare (phys m1))"
    "\<And>n. covered (phys m) n \<Longrightarrow> covered (phys m1) n" "\<And>x. page2mem_node (phys m1) x = page2mem_node (phys m) x"
proof -
  note O = ok [unfolded ok2_def]
  from O have zone: "zone_ok (phys m)" by blast
  obtain page pm i where al: "alloc_pages (phys m) 1 = Ret (page, pm)" "page \<noteq> 0" "aligned page"
    "page2mem_node (phys m) page = Some i" "\<not> covered (phys m) i" "zone_ok pm"
    "\<And>x. page2mem_node pm x = page2mem_node (phys m) x" "\<And>n. covered pm n \<longleftrightarrow> n = i \<or> covered (phys m) n"
    "\<And>j. allocated pm j \<longleftrightarrow> j = i \<or> allocated (phys m) j" "spare (phys m) = Suc (spare pm)"
    using alloc_one [OF zone room] by metis
  let ?e = "page OR prot OR PG_P_1"
  define m1 where "m1 = m\<lparr>phys := pm, pde := (pde m)(PDE_IDX va := ?e), ptab := (ptab m)(page := (\<lambda>_. 0))\<rparr>"
  have ad: "?e AND PAGE_ADDR_MASK = page" by (rule entry_addr [OF al(3) prot])
  have new: "new_table m va prot = Ret m1" using al(1,2) by (simp add: new_table_def m1_def table_of_def ad)
  have "\<not> allocated (phys m) i" using al(5) zone by (auto simp: covered_def zone_ok_def pmem_ok_def)
  then have fresh: "present (pde m k) \<Longrightarrow> pde m k AND PAGE_ADDR_MASK \<noteq> page"
    "present (D k) \<Longrightarrow> D k AND PAGE_ADDR_MASK \<noteq> page" for k
    using O al(4) by (auto simp: paging_ok_def)
  note spec = new_table_spec [OF _ prot va(2) new]
  have "paging_ok (m1\<lparr>pde := D\<rparr>)"
    by (rule paging_ok_phys [of "m\<lparr>pde := D\<rparr>"]) (use O al(6) in \<open>simp_all add: m1_def al(7,9)\<close>)
  moreover have "apart_dirs (pde m1) D"
    unfolding apart_dirs_def
  proof (intro allI impI)
    fix u v assume "present (pde m1 u)" "present (D v)" "u < 512 \<or> v < 512"
    then show "pde m1 u AND PAGE_ADDR_MASK \<noteq> D v AND PAGE_ADDR_MASK"
      using fresh(2) [of v] apart_dirsD [of "pde m" D u v] O by (cases "u = PDE_IDX va") (auto simp: m1_def ad)
  qed
  ultimately have "ok2 m1 D" using O spec(1) al(6) by (simp add: ok2_def m1_def)
  moreover have "tr m1 vb = tr m vb" if "upage vb" for vb
  proof (cases "PDE_IDX vb = PDE_IDX va")
    case True
    then show ?thesis using va(2) by (simp add: tr_def mapped_def pde_present_def pte_def table_of_def m1_def ad present_def)
  next
    case False
    then show ?thesis using fresh(1) [of "PDE_IDX vb"]
      by (auto simp: tr_def mapped_def pde_present_def pte_def table_of_def m1_def)
  qed
  moreover have "tr (m1\<lparr>pde := D\<rparr>) vb = tr (m\<lparr>pde := D\<rparr>) vb" if "upage vb" for vb
    using fresh(2) [of "PDE_IDX vb"] by (auto simp: tr_def mapped_def pde_present_def pte_def table_of_def m1_def)
  moreover have "phys m1 = pm" by (simp add: m1_def)
  ultimately show ?thesis using spec(2,3) O al(10) by (intro that [OF new]) (simp_all add: al(7,8))
qed

text \<open>Linking a page that the active directory does not map.\<close>

lemma link_step:
  assumes ok: "ok2 m D" and va: "upage va" "tr m va = None" and attr: "attr AND PAGE_ADDR_MASK = 0"
    and room: "1 \<le> spare (phys m)"
  obtains m' where "page_link m va pa attr = Ret m'" "ok2 m' D"
    "\<And>vb. upage vb \<Longrightarrow> tr m' vb = (if vb = va then Some (pa OR attr OR PG_P_1) else tr m vb)"
    "\<And>vb. upage vb \<Longrightarrow> tr (m'\<lparr>pde := D\<rparr>) vb = tr (m\<lparr>pde := D\<rparr>) vb"
    "spare (phys m) \<le> Suc (spare (phys m'))"
    "\<And>n. covered (phys m) n \<Longrightarrow> covered (phys m') n" "\<And>x. page2mem_node (phys m') x = page2mem_node (phys m) x"
proof -
  let ?e = "pa OR attr OR PG_P_1"
  have step: "ok2 (set_pte m1 va ?e) D"
    "upage vb \<Longrightarrow> tr (set_pte m1 va ?e) vb = (if vb = va then Some ?e else tr m1 vb)"
    "upage vb \<Longrightarrow> tr ((set_pte m1 va ?e)\<lparr>pde := D\<rparr>) vb = tr (m1\<lparr>pde := D\<rparr>) vb"
    if "ok2 m1 D" "pde_present m1 va" for m1 vb
    using set_pte_step [OF that(1) va(1) that(2) entry_present] by blast+
  show ?thesis
  proof (cases "pde_present m va")
    case True
    with va(2) have "page_link m va pa attr = Ret (set_pte m va ?e)" by (simp add: page_link_def tr_def mapped_def split: if_splits)
    then show ?thesis by (rule that) (simp_all add: step [OF ok True])
  next
    case False
    from new_table_step [OF ok va(1) False attr room] obtain m1 where m1: "new_table m va attr = Ret m1" "ok2 m1 D"
      "pde_present m1 va" "\<And>vb. upage vb \<Longrightarrow> tr m1 vb = tr m vb"
      "\<And>vb. upage vb \<Longrightarrow> tr (m1\<lparr>pde := D\<rparr>) vb = tr (m\<lparr>pde := D\<rparr>) vb" "pte m1 va = 0"
      "spare (phys m) = Suc (spare (phys m1))" "\<And>n. covered (phys m) n \<Longrightarrow> covered (phys m1) n"
      "\<And>x. page2mem_node (phys m1) x = page2mem_node (phys m) x" by metis
    then have "page_link m va pa attr = Ret (set_pte m1 va ?e)" using False by (simp add: page_link_def present_def)
    then show ?thesis by (rule that) (simp_all add: step [OF m1(2,3)] m1(4,5,7-9))
  qed
qed

text \<open>A fresh page, linked where the active directory maps nothing.\<close>

lemma tr_phys [simp]: "tr (m\<lparr>phys := pm\<rparr>) va = tr m va" "tr (m\<lparr>phys := pm, pde := D\<rparr>) va = tr (m\<lparr>pde := D\<rparr>) va"
  by (simp_all add: tr_def mapped_def pde_present_def pte_def table_of_def)

lemma fresh_step:
  assumes ok: "ok2 m D" and va: "upage va" "tr m va = None" and attr: "attr AND PAGE_ADDR_MASK = 0"
    and room: "2 \<le> spare (phys m)"
  obtains page pm i m' where "alloc_pages (phys m) 1 = Ret (page, pm)" "page \<noteq> 0" "aligned page"
    "page_link (m\<lparr>phys := pm\<rparr>) va page attr = Ret m'" "ok2 m' D"
    "\<And>vb. upage vb \<Longrightarrow> tr m' vb = (if vb = va then Some (page OR attr OR PG_P_1) else tr m vb)"
    "\<And>vb. upage vb \<Longrightarrow> tr (m'\<lparr>pde := D\<rparr>) vb = tr (m\<lparr>pde := D\<rparr>) vb"
    "spare (phys m) \<le> spare (phys m') + 2"
    "\<And>n. covered (phys m) n \<Longrightarrow> covered (phys m') n" "\<And>x. page2mem_node (phys m') x = page2mem_node (phys m) x"
    "page2mem_node (phys m) page = Some i" "\<not> covered (phys m) i" "covered (phys m') i"
proof -
  note O = ok [unfolded ok2_def]
  have "1 \<le> spare (phys m)" using room by simp
  with O obtain page pm i where al: "alloc_pages (phys m) 1 = Ret (page, pm)" "page \<noteq> 0" "aligned page"
    "page2mem_node (phys m) page = Some i" "\<not> covered (phys m) i" "zone_ok pm"
    "\<And>x. page2mem_node pm x = page2mem_node (phys m) x" "\<And>n. covered pm n \<longleftrightarrow> n = i \<or> covered (phys m) n"
    "\<And>j. allocated pm j \<longleftrightarrow> j = i \<or> allocated (phys m) j" "spare (phys m) = Suc (spare pm)"
    using alloc_one by metis
  have "paging_ok (m\<lparr>phys := pm\<rparr>)"
    by (rule paging_ok_phys [of m]) (use O al(6) in \<open>simp_all add: al(7,9)\<close>)
  moreover have "paging_ok (m\<lparr>phys := pm, pde := D\<rparr>)"
    by (rule paging_ok_phys [of "m\<lparr>pde := D\<rparr>"]) (use O al(6) in \<open>simp_all add: al(7,9)\<close>)
  ultimately have ok': "ok2 (m\<lparr>phys := pm\<rparr>) D" using O al(6) by (simp add: ok2_def)
  have tr': "tr (m\<lparr>phys := pm\<rparr>) va = None" and room': "1 \<le> spare (phys (m\<lparr>phys := pm\<rparr>))"
    using va(2) room al(10) by simp_all
  show ?thesis
  proof (rule link_step [OF ok' va(1) tr' attr room'])
    fix m' assume m': "page_link (m\<lparr>phys := pm\<rparr>) va page attr = Ret m'" "ok2 m' D"
      "\<And>vb. upage vb \<Longrightarrow> tr m' vb = (if vb = va then Some (page OR attr OR PG_P_1) else tr (m\<lparr>phys := pm\<rparr>) vb)"
      "\<And>vb. upage vb \<Longrightarrow> tr (m'\<lparr>pde := D\<rparr>) vb = tr (m\<lparr>phys := pm, pde := D\<rparr>) vb"
      "spare (phys (m\<lparr>phys := pm\<rparr>)) \<le> Suc (spare (phys m'))"
      "\<And>n. covered (phys (m\<lparr>phys := pm\<rparr>)) n \<Longrightarrow> covered (phys m') n"
      "\<And>x. page2mem_node (phys m') x = page2mem_node (phys (m\<lparr>phys := pm\<rparr>)) x"
    show ?thesis
      by (rule that [OF al(1-3) m'(1,2) _ _ _ _ _ al(4,5)]) (use m'(3-7) al(7,8,10) in auto)
  qed
qed

subsection \<open>Copying the pages\<close>

text \<open>
  \<open>src/src/arch/x86/mach-i386/mm/vmm.c\<close>, \<open>vmm_active\<close> and \<open>vmm_init\<close> of \<open>src/src/vmm/vmm.c\<close>. The page
  tables with the active directory are \<open>pgs\<close>; the directories of the other processes are \<open>dirs\<close>, by the
  number of their \<open>vmm\<close>. \<open>kernel_dir\<close> is the directory of the kernel. \<open>frames\<close> holds the contents of the
  physical pages of the processes. The processor reads a user page through the active directory; a page
  that is not present goes through \<open>do_page_fault\<close>, and the access is repeated, for ever when the fault
  left the page away. \<open>Panic\<close> stands for that, too.
\<close>

record mm =
  pgs :: paging
  dirs :: "nat \<Rightarrow> nat \<Rightarrow> u32"
  active :: nat
  kernel_dir :: "nat \<Rightarrow> u32"
  frames :: "u32 \<Rightarrow> mem"

definition vmm_active :: "mm \<Rightarrow> nat \<Rightarrow> mm" where
  "vmm_active m v =
     (let ds = (dirs m)(active m := pde (pgs m))
      in m\<lparr>dirs := ds, pgs := (pgs m)\<lparr>pde := ds v\<rparr>, active := v\<rparr>)"

text \<open>\<open>__copy_kernel_page_dir\<close> does not check the page it gets.\<close>

definition copy_kernel_page_dir :: "mm \<Rightarrow> nat \<Rightarrow> mm kret" where
  "copy_kernel_page_dir m v =
     (case alloc_pages (phys (pgs m)) 1 of Panic \<Rightarrow> Panic
      | Ret (page, pm) \<Rightarrow> Ret (m\<lparr>pgs := (pgs m)\<lparr>phys := pm\<rparr>, dirs := (dirs m)(v := (\<lambda>i.
          if i < 512 then 0 else if i = 1023 then page OR PG_P_1 OR PG_US_S OR PG_RW_W else kernel_dir m i))\<rparr>))"

definition read_page :: "mm \<Rightarrow> vmm \<Rightarrow> u32 \<Rightarrow> (mem \<times> mm) kret" where
  "read_page m vm va =
     (if mapped (pgs m) va then Ret (frames m (pte (pgs m) va AND PAGE_ADDR_MASK), m)
      else case do_page_fault (vm\<lparr>vm_pages := pgs m\<rparr>) va 0 0 of
             Panic \<Rightarrow> Panic
           | Ret (_, vm', _) \<Rightarrow>
               let pg = vm_pages vm'
               in if mapped pg va then Ret (frames m (pte pg va AND PAGE_ADDR_MASK), m\<lparr>pgs := pg\<rparr>) else Panic)"

definition write_page :: "mm \<Rightarrow> u32 \<Rightarrow> mem \<Rightarrow> mm kret" where
  "write_page m va buf =
     (if mapped (pgs m) va then Ret (m\<lparr>frames := (frames m)(pte (pgs m) va AND PAGE_ADDR_MASK := buf)\<rparr>) else Panic)"

definition do_copy_share_page :: "mm \<Rightarrow> u32 \<Rightarrow> nat \<Rightarrow> nat \<Rightarrow> (int \<times> mm) kret" where
  "do_copy_share_page m vaddr child parent =
     (case addr_v2p (pgs m) vaddr of Panic \<Rightarrow> Panic
      | Ret paddr \<Rightarrow>
          let m = vmm_active m child
          in case page_link (pgs m) vaddr paddr (PG_RW_W OR PG_US_U) of Panic \<Rightarrow> Panic
             | Ret pg \<Rightarrow> Ret (0, vmm_active (m\<lparr>pgs := pg\<rparr>) parent))"

definition do_copy_normal_page :: "mm \<Rightarrow> vmm \<Rightarrow> u32 \<Rightarrow> nat \<Rightarrow> nat \<Rightarrow> (int \<times> mm) kret" where
  "do_copy_normal_page m vm vaddr child parent =
     (case read_page m vm vaddr of Panic \<Rightarrow> Panic
      | Ret (buf, m) \<Rightarrow>
          let m = vmm_active m child
          in case alloc_pages (phys (pgs m)) 1 of Panic \<Rightarrow> Panic
             | Ret (paddr, pm) \<Rightarrow>
                 let m = m\<lparr>pgs := (pgs m)\<lparr>phys := pm\<rparr>\<rparr>
                 in if paddr = 0 then Ret (-1, vmm_active m parent)
                    else case page_link (pgs m) vaddr paddr (PG_RW_W OR PG_US_U) of Panic \<Rightarrow> Panic
                         | Ret pg \<Rightarrow> (case write_page (m\<lparr>pgs := pg\<rparr>) vaddr buf of Panic \<Rightarrow> Panic
                             | Ret m \<Rightarrow> Ret (0, vmm_active m parent)))"

text \<open>The two loops of \<open>__copy_vm_mapping\<close>: the pages of a space, whose ends are page aligned, and the spaces.\<close>

fun copy_pages :: "mm \<Rightarrow> vmm \<Rightarrow> vmspace \<Rightarrow> nat \<Rightarrow> nat \<Rightarrow> u32 \<Rightarrow> nat \<Rightarrow> (int \<times> mm) kret" where
  "copy_pages m vm space child parent vaddr 0 = Ret (0, m)"
| "copy_pages m vm space child parent vaddr (Suc n) =
     (case (if sp_flags space AND VMS_MAP_SHARED \<noteq> 0 then do_copy_share_page m vaddr child parent
            else do_copy_normal_page m vm vaddr child parent) of
        Panic \<Rightarrow> Panic
      | Ret (r, m) \<Rightarrow> if r < 0 then Ret (-1, m) else copy_pages m vm space child parent (vaddr + PAGE_SIZE) n)"

fun copy_spaces :: "mm \<Rightarrow> vmm \<Rightarrow> vmspace list \<Rightarrow> nat \<Rightarrow> nat \<Rightarrow> (int \<times> mm) kret" where
  "copy_spaces m vm [] child parent = Ret (0, m)"
| "copy_spaces m vm (s # ss) child parent =
     (case copy_pages m vm s child parent (sp_start s) (range_pages (sp_start s) (sp_end s)) of
        Panic \<Rightarrow> Panic
      | Ret (r, m) \<Rightarrow> if r < 0 then Ret (-1, m) else copy_spaces m vm ss child parent)"

text \<open>\<open>buf\<close> tells whether \<open>kmalloc\<close> gives the page the data goes through.\<close>

definition copy_vm_mapping :: "mm \<Rightarrow> vmm \<Rightarrow> bool \<Rightarrow> nat \<Rightarrow> nat \<Rightarrow> (int \<times> mm) kret" where
  "copy_vm_mapping m vm buf child parent =
     (if \<not> buf then Ret (-1, m) else copy_spaces m vm (vm_spaces vm) child parent)"

subsection \<open>Two address spaces\<close>

definition view :: "mm \<Rightarrow> nat \<Rightarrow> paging" where
  "view m d = (pgs m)\<lparr>pde := (if d = active m then pde (pgs m) else dirs m d)\<rparr>"

abbreviation entry :: "mm \<Rightarrow> nat \<Rightarrow> u32 \<Rightarrow> u32 option" where
  "entry m d va \<equiv> tr (view m d) va"

lemma view_active [simp]: "view m (active m) = pgs m"
  by (simp add: view_def)

lemma view_other: "d \<noteq> active m \<Longrightarrow> view m d = (pgs m)\<lparr>pde := dirs m d\<rparr>"
  by (simp add: view_def)

lemma vmm_active_simps [simp]:
  "view (vmm_active m d) e = view m e" "active (vmm_active m d) = d" "frames (vmm_active m d) = frames m"
  "pgs (vmm_active m d) = view m d" "phys (view m d) = phys (pgs m)"
  by (auto simp: vmm_active_def view_def Let_def)

text \<open>The frames of user pages in managed memory belong to allocated blocks.\<close>

definition frames_ok :: "mm \<Rightarrow> nat \<Rightarrow> bool" where
  "frames_ok m d \<longleftrightarrow> (\<forall>va e n. upage va \<longrightarrow> entry m d va = Some e \<longrightarrow>
     page2mem_node (phys (pgs m)) (e AND PAGE_ADDR_MASK) = Some n \<longrightarrow> covered (phys (pgs m)) n)"

definition mm_ok :: "mm \<Rightarrow> nat \<Rightarrow> nat \<Rightarrow> bool" where
  "mm_ok m P C \<longleftrightarrow> P \<noteq> C \<and> active m = P \<and> ok2 (view m P) (pde (view m C)) \<and> frames_ok m P \<and> frames_ok m C"

lemma ok2_sym: "ok2 m D \<Longrightarrow> ok2 (m\<lparr>pde := D\<rparr>) (pde m)"
  by (auto simp: ok2_def apart_dirs_def eq_commute)

lemma mm_okD:
  assumes "mm_ok m P C"
  shows "P \<noteq> C" "active m = P" "ok2 (pgs m) (pde (view m C))" "ok2 (view m C) (pde (pgs m))"
    "frames_ok m P" "frames_ok m C" "view m P = pgs m"
proof -
  show *: "P \<noteq> C" "active m = P" "frames_ok m P" "frames_ok m C" "view m P = pgs m"
    using assms by (auto simp: mm_ok_def)
  with assms show ok: "ok2 (pgs m) (pde (view m C))" by (simp add: mm_ok_def)
  from ok2_sym [OF this] * show "ok2 (view m C) (pde (pgs m))" by (simp add: view_def)
qed

text \<open>A visit to the other address space that changes the page tables to \<open>pg\<close>.\<close>

lemma visit [simp]:
  "view ((vmm_active m C)\<lparr>pgs := pg\<rparr>) C = pg" "active ((vmm_active m C)\<lparr>pgs := pg\<rparr>) = C"
  "frames ((vmm_active m C)\<lparr>pgs := pg\<rparr>) = frames m" "view (m\<lparr>frames := fr\<rparr>) d = view m d"
  by (simp_all add: view_def)

lemma visit_back: "active m = P \<Longrightarrow> P \<noteq> C \<Longrightarrow> view ((vmm_active m C)\<lparr>pgs := pg\<rparr>) P = pg\<lparr>pde := pde (pgs m)\<rparr>"
  by (simp add: view_def vmm_active_def Let_def)

definition used :: "mm \<Rightarrow> nat \<Rightarrow> u32 \<Rightarrow> bool" where
  "used m d f \<longleftrightarrow> (\<exists>vb x. upage vb \<and> entry m d vb = Some x \<and> x AND PAGE_ADDR_MASK = f)"

lemma not_used:
  assumes "frames_ok m d" "page2mem_node (phys (pgs m)) f = Some n" "\<not> covered (phys (pgs m)) n"
  shows "\<not> used m d f"
  using assms unfolding frames_ok_def used_def by blast

lemma user_attr: "(PG_RW_W OR PG_US_U) AND PAGE_ADDR_MASK = 0" "page_attr prot AND PAGE_ADDR_MASK = 0"
  by (simp_all add: page_attr_def PG_US_U_def PG_US_S_def PG_RW_W_def PG_RW_R_def PAGE_ADDR_MASK_def)

text \<open>The fault of the kernel on a user page of a space.\<close>

lemma fault_maps:
  assumes va: "upage va" and sp: "vmspace_find vm va = Some sp" "sp_start sp \<le> va"
    and al: "alloc_pages (phys pg) 1 = Ret (page, pm)" "page \<noteq> 0"
    and l: "page_link (pg\<lparr>phys := pm\<rparr>) va page (page_attr (page_prot sp)) = Ret pg'"
  shows "do_page_fault (vm\<lparr>vm_pages := pg\<rparr>) va 0 0 = Ret (0, vm\<lparr>vm_pages := pg'\<rparr>, False)"
proof -
  have u: "aligned va" "va < USER_VMM_SIZE" using va by (simp_all add: upage_def)
  have "va AND PAGE_MASK = va" using u(1) by (simp add: aligned_def PAGE_ADDR_MASK_eq)
  moreover have "PAGE_ALIGN PAGE_SIZE = PAGE_SIZE" by (simp add: PAGE_ALIGN_def PAGE_SIZE_val PAGE_MASK_val)
  moreover have "PAGE_SIZE div PAGE_SIZE = (1 :: u32)" by (simp add: PAGE_SIZE_val)
  moreover have "va < va + PAGE_SIZE"
    using u(2) by (simp add: USER_VMM_SIZE_def word_less_nat_alt unat_word_ariths PAGE_SIZE_val)
  then have "range_pages va (va + PAGE_SIZE) = Suc 0" by (simp add: range_pages_def PAGE_SIZE_val)
  ultimately have "map_pages pg va PAGE_SIZE (page_prot sp) = Ret (0, pg')"
    using al l by (simp add: map_pages_def Let_def)
  moreover have "vmspace_find (vm\<lparr>vm_pages := pg\<rparr>) va = Some sp" using sp(1) by (simp add: vmspace_find_def)
  moreover have "\<not> va \<ge> USER_VMM_SIZE" "\<not> va \<ge> PAGE_OFFSET" "\<not> sp_start sp > va"
    using u(2) sp(2) by (auto simp: USER_VMM_SIZE_def PAGE_OFFSET_def)
  ultimately show ?thesis by (simp add: do_page_fault_def handle_no_page_def Let_def)
qed

lemma mm_ok_pgs:
  assumes ok: "mm_ok m P C" and pg: "ok2 pg (pde (view m C))"
    and P: "\<And>vb e n. upage vb \<Longrightarrow> tr pg vb = Some e \<Longrightarrow> page2mem_node (phys pg) (e AND PAGE_ADDR_MASK) = Some n \<Longrightarrow> covered (phys pg) n"
    and C: "\<And>vb. upage vb \<Longrightarrow> tr (pg\<lparr>pde := pde (view m C)\<rparr>) vb = entry m C vb"
    and mono: "\<And>n. covered (phys (pgs m)) n \<Longrightarrow> covered (phys pg) n" "\<And>x. page2mem_node (phys pg) x = page2mem_node (phys (pgs m)) x"
  shows "mm_ok (m\<lparr>pgs := pg\<rparr>) P C"
proof -
  note M = mm_okD [OF ok]
  have v: "view (m\<lparr>pgs := pg\<rparr>) P = pg" "view (m\<lparr>pgs := pg\<rparr>) C = pg\<lparr>pde := pde (view m C)\<rparr>"
    using M(1,2) by (simp_all add: view_def)
  have "frames_ok (m\<lparr>pgs := pg\<rparr>) P" unfolding frames_ok_def v using P by simp
  moreover have "frames_ok (m\<lparr>pgs := pg\<rparr>) C"
    using M(6) mono unfolding frames_ok_def v by (simp add: C)
  ultimately show ?thesis using M(1,2) pg by (simp add: mm_ok_def v)
qed

lemma read_page_step:
  assumes ok: "mm_ok m P C" and va: "upage va" and sp: "vmspace_find vm va = Some sp" "sp_start sp \<le> va"
    and room: "2 \<le> spare (phys (pgs m))"
  obtains m' e where "read_page m vm va = Ret (frames m (e AND PAGE_ADDR_MASK), m')" "mm_ok m' P C" "frames m' = frames m"
    "entry m P va = None \<and> \<not> used m P (e AND PAGE_ADDR_MASK) \<and> \<not> used m C (e AND PAGE_ADDR_MASK) \<or> entry m P va = Some e"
    "\<And>vb. upage vb \<Longrightarrow> entry m' P vb = (if vb = va then Some e else entry m P vb)"
    "\<And>vb. upage vb \<Longrightarrow> entry m' C vb = entry m C vb" "spare (phys (pgs m)) \<le> spare (phys (pgs m')) + 2"
proof (cases "mapped (pgs m) va")
  case True
  then have "entry m P va = Some (pte (pgs m) va)" using mm_okD(7) [OF ok] by (simp add: tr_def)
  with True ok show ?thesis by (intro that [of "pte (pgs m) va" m]) (simp_all add: read_page_def)
next
  case False
  note M = mm_okD [OF ok]
  have none: "tr (pgs m) va = None" using False by (simp add: tr_def)
  show ?thesis
  proof (rule fresh_step [OF M(3) va none user_attr(2) [of "page_prot sp"] room])
    fix page pm i pg
    let ?e = "page OR page_attr (page_prot sp) OR PG_P_1"
    assume al: "alloc_pages (phys (pgs m)) 1 = Ret (page, pm)" "page \<noteq> 0" "aligned page"
      and l: "page_link ((pgs m)\<lparr>phys := pm\<rparr>) va page (page_attr (page_prot sp)) = Ret pg" "ok2 pg (pde (view m C))"
      and tr: "\<And>vb. upage vb \<Longrightarrow> tr pg vb = (if vb = va then Some ?e else tr (pgs m) vb)"
        "\<And>vb. upage vb \<Longrightarrow> tr (pg\<lparr>pde := pde (view m C)\<rparr>) vb = tr ((pgs m)\<lparr>pde := pde (view m C)\<rparr>) vb"
      and sp2: "spare (phys (pgs m)) \<le> spare (phys pg) + 2"
      and mono: "\<And>n. covered (phys (pgs m)) n \<Longrightarrow> covered (phys pg) n" "\<And>x. page2mem_node (phys pg) x = page2mem_node (phys (pgs m)) x"
      and node: "page2mem_node (phys (pgs m)) page = Some i" "\<not> covered (phys (pgs m)) i" "covered (phys pg) i"
    have ad: "?e AND PAGE_ADDR_MASK = page" by (rule entry_addr [OF al(3) user_attr(2)])
    have "(pgs m)\<lparr>pde := pde (view m C)\<rparr> = view m C" using M(1,2) by (simp add: view_def)
    note trC = tr(2) [unfolded this]
    have mm: "mm_ok (m\<lparr>pgs := pg\<rparr>) P C" "view (m\<lparr>pgs := pg\<rparr>) P = pg" "view (m\<lparr>pgs := pg\<rparr>) C = pg\<lparr>pde := pde (view m C)\<rparr>"
    proof -
      have P: "covered (phys pg) n" if "upage vb" "tr pg vb = Some e" "page2mem_node (phys pg) (e AND PAGE_ADDR_MASK) = Some n" for vb e n
        using that node M(5,7) tr(1) [OF that(1)] mono ad unfolding frames_ok_def by (metis option.inject)
      show "mm_ok (m\<lparr>pgs := pg\<rparr>) P C"
        by (rule mm_ok_pgs [OF ok l(2)], erule (2) P, erule trC, erule mono, rule mono)
      show "view (m\<lparr>pgs := pg\<rparr>) P = pg" "view (m\<lparr>pgs := pg\<rparr>) C = pg\<lparr>pde := pde (view m C)\<rparr>"
        using M(1,2) by (simp_all add: view_def)
    qed
    have map: "mapped pg va" "pte pg va = ?e" using tr(1) [OF va] by (auto simp: tr_def split: if_splits)
    have "read_page m vm va = Ret (frames m (?e AND PAGE_ADDR_MASK), m\<lparr>pgs := pg\<rparr>)"
      using False fault_maps [OF va sp al(1,2) l(1)] map by (simp add: read_page_def Let_def)
    moreover have "\<not> used m P (?e AND PAGE_ADDR_MASK)" "\<not> used m C (?e AND PAGE_ADDR_MASK)"
      using not_used [OF M(5) node(1,2)] not_used [OF M(6) node(1,2)] by (simp_all add: ad)
    ultimately show ?thesis
      using mm none tr(1) trC sp2 M(7) by (intro that [of ?e "m\<lparr>pgs := pg\<rparr>"]) simp_all
  qed
qed

definition back_from :: "mm \<Rightarrow> nat \<Rightarrow> paging \<Rightarrow> (u32 \<Rightarrow> mem) \<Rightarrow> mm" where
  "back_from m C pg fr = vmm_active ((vmm_active m C)\<lparr>pgs := pg, frames := fr\<rparr>) (active m)"

lemma back_from:
  assumes ok: "mm_ok m P C" and pg: "ok2 pg (pde (pgs m))"
    and C: "\<And>vb e n. upage vb \<Longrightarrow> tr pg vb = Some e \<Longrightarrow> page2mem_node (phys pg) (e AND PAGE_ADDR_MASK) = Some n \<Longrightarrow> covered (phys pg) n"
    and P: "\<And>vb. upage vb \<Longrightarrow> tr (pg\<lparr>pde := pde (pgs m)\<rparr>) vb = entry m P vb"
    and mono: "\<And>n. covered (phys (pgs m)) n \<Longrightarrow> covered (phys pg) n" "\<And>x. page2mem_node (phys pg) x = page2mem_node (phys (pgs m)) x"
  shows "mm_ok (back_from m C pg fr) P C" "view (back_from m C pg fr) C = pg"
    "view (back_from m C pg fr) P = pg\<lparr>pde := pde (pgs m)\<rparr>" "frames (back_from m C pg fr) = fr"
    "phys (pgs (back_from m C pg fr)) = phys pg"
proof -
  note M = mm_okD [OF ok]
  show v: "view (back_from m C pg fr) C = pg" "view (back_from m C pg fr) P = pg\<lparr>pde := pde (pgs m)\<rparr>"
    "frames (back_from m C pg fr) = fr"
    using M(1,2) by (simp_all add: back_from_def) (simp_all add: view_def vmm_active_def Let_def)
  have act: "active (back_from m C pg fr) = P" using M(2) by (simp add: back_from_def)
  show ph: "phys (pgs (back_from m C pg fr)) = phys pg" by (simp add: back_from_def)
  have "frames_ok (back_from m C pg fr) C" unfolding frames_ok_def v ph using C by simp
  moreover have "frames_ok (back_from m C pg fr) P"
    using M(5) mono unfolding frames_ok_def v ph by (simp add: P)
  moreover have "ok2 (pg\<lparr>pde := pde (pgs m)\<rparr>) (pde pg)" by (rule ok2_sym [OF pg])
  ultimately show "mm_ok (back_from m C pg fr) P C" using M(1) act by (simp add: mm_ok_def v)
qed

text \<open>
  What the copy of one page does: the child gets one more page, with the frame of the parent when it is
  shared and with a frame of its own and the same contents otherwise.
\<close>

definition page_copied :: "bool \<Rightarrow> mm \<Rightarrow> mm \<Rightarrow> nat \<Rightarrow> nat \<Rightarrow> u32 \<Rightarrow> u32 \<Rightarrow> u32 \<Rightarrow> bool" where
  "page_copied shared m m' P C va e f \<longleftrightarrow> mm_ok m' P C \<and>
     entry m' C va = Some (f OR (PG_RW_W OR PG_US_U) OR PG_P_1) \<and> aligned f \<and> entry m' P va = Some e \<and>
     (\<forall>vb. upage vb \<longrightarrow> vb \<noteq> va \<longrightarrow> entry m' P vb = entry m P vb \<and> entry m' C vb = entry m C vb) \<and>
     (if shared then entry m P va = Some e \<and> f = e AND PAGE_ADDR_MASK \<and> frames m' = frames m
      else (entry m P va = Some e \<or>
            entry m P va = None \<and> \<not> used m P (e AND PAGE_ADDR_MASK) \<and> \<not> used m C (e AND PAGE_ADDR_MASK)) \<and>
           \<not> used m P f \<and> \<not> used m C f \<and> f \<noteq> e AND PAGE_ADDR_MASK \<and>
           frames m' = (frames m)(f := frames m (e AND PAGE_ADDR_MASK)))"

lemma share_page_step:
  assumes ok: "mm_ok m P C" and va: "upage va" "entry m C va = None" "entry m P va = Some e"
    and room: "1 \<le> spare (phys (pgs m))"
  obtains m' where "do_copy_share_page m va C P = Ret (0, m')" "page_copied True m m' P C va e (e AND PAGE_ADDR_MASK)"
    "spare (phys (pgs m)) \<le> Suc (spare (phys (pgs m')))"
proof -
  note M = mm_okD [OF ok]
  let ?f = "e AND PAGE_ADDR_MASK"
  have map: "mapped (pgs m) va" "pte (pgs m) va = e" using va(3) M(7) by (auto simp: tr_def split: if_splits)
  have "va AND 0xfff = (va AND PAGE_ADDR_MASK) AND NOT PAGE_ADDR_MASK"
  proof -
    have "(0xfff :: u32) = NOT PAGE_ADDR_MASK" by (simp add: PAGE_ADDR_MASK_def)
    then show ?thesis using va(1) by (simp add: upage_def aligned_def)
  qed
  then have "va AND 0xfff = 0" by (simp add: and.assoc)
  then have v2p: "addr_v2p (pgs m) va = Ret ?f"
    using map by (simp add: addr_v2p_def mapped_def PAGE_ADDR_MASK_def)
  have al: "aligned ?f" by (simp add: aligned_def)
  have room': "1 \<le> spare (phys (view m C))" using room by simp
  show ?thesis
  proof (rule link_step [OF M(4) va(1,2) user_attr(1) room'])
    fix pg
    let ?e = "?f OR (PG_RW_W OR PG_US_U) OR PG_P_1"
    assume l: "page_link (view m C) va ?f (PG_RW_W OR PG_US_U) = Ret pg" "ok2 pg (pde (pgs m))"
      and tr: "\<And>vb. upage vb \<Longrightarrow> tr pg vb = (if vb = va then Some ?e else entry m C vb)"
        "\<And>vb. upage vb \<Longrightarrow> tr (pg\<lparr>pde := pde (pgs m)\<rparr>) vb = tr ((view m C)\<lparr>pde := pde (pgs m)\<rparr>) vb"
      and sp: "spare (phys (view m C)) \<le> Suc (spare (phys pg))"
      and mono: "\<And>n. covered (phys (view m C)) n \<Longrightarrow> covered (phys pg) n" "\<And>x. page2mem_node (phys pg) x = page2mem_node (phys (view m C)) x"
    have "(view m C)\<lparr>pde := pde (pgs m)\<rparr> = view m P" using M(7) by (simp add: view_def)
    note trP = tr(2) [unfolded this]
    have ad: "?e AND PAGE_ADDR_MASK = ?f" by (rule entry_addr [OF al user_attr(1)])
    note mono' = mono [unfolded vmm_active_simps]
    have C: "covered (phys pg) n" if "upage vb" "tr pg vb = Some x" "page2mem_node (phys pg) (x AND PAGE_ADDR_MASK) = Some n" for vb x n
    proof (cases "vb = va")
      case True
      with that tr(1) [OF that(1)] have "x = ?e" by simp
      with M(5) va(1,3) that(3) mono' show ?thesis unfolding frames_ok_def by (metis ad)
    next
      case False
      with that tr(1) [OF that(1)] have "entry m C vb = Some x" by simp
      with M(6) that(1,3) mono' show ?thesis unfolding frames_ok_def by metis
    qed
    have B: "mm_ok (back_from m C pg fr) P C" "view (back_from m C pg fr) C = pg"
      "view (back_from m C pg fr) P = pg\<lparr>pde := pde (pgs m)\<rparr>" "frames (back_from m C pg fr) = fr"
      "phys (pgs (back_from m C pg fr)) = phys pg" for fr
      by (rule back_from [OF ok l(2)], erule (2) C, erule trP, erule mono', rule mono')+
    have "do_copy_share_page m va C P = Ret (0, back_from m C pg (frames m))"
      using v2p l(1) M(2) by (simp add: do_copy_share_page_def Let_def back_from_def) (simp add: vmm_active_def Let_def)
    moreover have "page_copied True m (back_from m C pg (frames m)) P C va e ?f"
      using B(1) tr(1) trP va(1,3) al by (simp add: page_copied_def B)
    ultimately show ?thesis using that sp B(5) by simp
  qed
qed

lemma normal_page_step:
  assumes ok: "mm_ok m P C" and va: "upage va" "entry m C va = None"
    and sp: "vmspace_find vm va = Some sp" "sp_start sp \<le> va" and room: "4 \<le> spare (phys (pgs m))"
  obtains m' e f where "do_copy_normal_page m vm va C P = Ret (0, m')" "page_copied False m m' P C va e f"
    "spare (phys (pgs m)) \<le> spare (phys (pgs m')) + 4"
proof -
  have "2 \<le> spare (phys (pgs m))" using room by simp
  then obtain e m1 where m1: "read_page m vm va = Ret (frames m (e AND PAGE_ADDR_MASK), m1)" "mm_ok m1 P C"
    "frames m1 = frames m"
    "entry m P va = None \<and> \<not> used m P (e AND PAGE_ADDR_MASK) \<and> \<not> used m C (e AND PAGE_ADDR_MASK) \<or> entry m P va = Some e"
    "\<And>vb. upage vb \<Longrightarrow> entry m1 P vb = (if vb = va then Some e else entry m P vb)"
    "\<And>vb. upage vb \<Longrightarrow> entry m1 C vb = entry m C vb" "spare (phys (pgs m)) \<le> spare (phys (pgs m1)) + 2"
    by (rule read_page_step [OF ok va(1) sp]) blast
  note M = mm_okD [OF m1(2)]
  have none: "tr (view m1 C) va = None" using m1(6) [OF va(1)] va(2) by simp
  have room': "2 \<le> spare (phys (view m1 C))" using room m1(7) by simp
  show ?thesis
  proof (rule fresh_step [OF M(4) va(1) none user_attr(1) room'])
    fix page pm i pg
    let ?e = "page OR (PG_RW_W OR PG_US_U) OR PG_P_1"
    assume al: "alloc_pages (phys (view m1 C)) 1 = Ret (page, pm)" "page \<noteq> 0" "aligned page"
      and l: "page_link ((view m1 C)\<lparr>phys := pm\<rparr>) va page (PG_RW_W OR PG_US_U) = Ret pg" "ok2 pg (pde (pgs m1))"
      and tr: "\<And>vb. upage vb \<Longrightarrow> tr pg vb = (if vb = va then Some ?e else entry m1 C vb)"
        "\<And>vb. upage vb \<Longrightarrow> tr (pg\<lparr>pde := pde (pgs m1)\<rparr>) vb = tr ((view m1 C)\<lparr>pde := pde (pgs m1)\<rparr>) vb"
      and sp2: "spare (phys (view m1 C)) \<le> spare (phys pg) + 2"
      and mono: "\<And>n. covered (phys (view m1 C)) n \<Longrightarrow> covered (phys pg) n"
        "\<And>x. page2mem_node (phys pg) x = page2mem_node (phys (view m1 C)) x"
      and node: "page2mem_node (phys (view m1 C)) page = Some i" "\<not> covered (phys (view m1 C)) i" "covered (phys pg) i"
    have "(view m1 C)\<lparr>pde := pde (pgs m1)\<rparr> = view m1 P" using M(7) by (simp add: view_def)
    note trP = tr(2) [unfolded this]
    have ad: "?e AND PAGE_ADDR_MASK = page" by (rule entry_addr [OF al(3) user_attr(1)])
    note mono' = mono [unfolded vmm_active_simps]
    note node' = node [unfolded vmm_active_simps]
    have C: "covered (phys pg) n" if "upage vb" "tr pg vb = Some x" "page2mem_node (phys pg) (x AND PAGE_ADDR_MASK) = Some n" for vb x n
    proof (cases "vb = va")
      case True
      with that tr(1) [OF that(1)] have "x = ?e" by simp
      with that(3) node' mono' show ?thesis by (simp add: ad)
    next
      case False
      with that tr(1) [OF that(1)] have "entry m1 C vb = Some x" by simp
      with M(6) that(1,3) mono' show ?thesis unfolding frames_ok_def by metis
    qed
    have B: "mm_ok (back_from m1 C pg fr) P C" "view (back_from m1 C pg fr) C = pg"
      "view (back_from m1 C pg fr) P = pg\<lparr>pde := pde (pgs m1)\<rparr>" "frames (back_from m1 C pg fr) = fr"
      "phys (pgs (back_from m1 C pg fr)) = phys pg" for fr
      by (rule back_from [OF m1(2) l(2)], erule (2) C, erule trP, erule mono', rule mono')+
    let ?fr = "(frames m)(page := frames m (e AND PAGE_ADDR_MASK))"
    have map: "mapped pg va" "pte pg va = ?e" using tr(1) [OF va(1)] by (auto simp: tr_def split: if_splits)
    have "do_copy_normal_page m vm va C P = Ret (0, back_from m1 C pg ?fr)"
      using m1(1,3) al(1,2) l(1) M(2) map ad
      by (simp add: do_copy_normal_page_def Let_def back_from_def write_page_def)
    moreover have "page_copied False m (back_from m1 C pg ?fr) P C va e page"
    proof -
      have nu: "\<not> used m1 P page" "\<not> used m1 C page"
        using not_used [OF M(5) node'(1,2)] not_used [OF M(6) node'(1,2)] by blast+
      have e1: "entry m1 P va = Some e" using m1(5) [OF va(1)] by simp
      have ne: "page \<noteq> e AND PAGE_ADDR_MASK" using nu(1) e1 va(1) unfolding used_def by blast
      have nuP: "\<not> used m P page"
        using nu(1) m1(4,5) ne va(1) unfolding used_def by (metis option.distinct(1) option.inject)
      have nuC: "\<not> used m C page" using nu(2) m1(6) unfolding used_def by metis
      show ?thesis
        using B(1) tr(1) trP m1(4-6) va(1) al(3) e1 ne nuP nuC unfolding page_copied_def B by auto
    qed
    ultimately show ?thesis using that sp2 B(5) m1(7) by simp
  qed
qed

subsection \<open>The loops\<close>

definition shared_at :: "vmspace list \<Rightarrow> u32 \<Rightarrow> bool" where
  "shared_at ss va \<longleftrightarrow> (case attr_at ss va of None \<Rightarrow> False | Some (_, flags) \<Rightarrow> flags AND VMS_MAP_SHARED \<noteq> 0)"

text \<open>A private page of the child: its own frame, with the contents of the parent's page.\<close>

definition private_copy :: "mm \<Rightarrow> nat \<Rightarrow> nat \<Rightarrow> u32 \<Rightarrow> u32 \<Rightarrow> u32 \<Rightarrow> bool" where
  "private_copy m P C va e f \<longleftrightarrow> frames m f = frames m (e AND PAGE_ADDR_MASK) \<and> \<not> used m P f \<and>
     (\<forall>vb x. upage vb \<longrightarrow> vb \<noteq> va \<longrightarrow> entry m C vb = Some x \<longrightarrow> x AND PAGE_ADDR_MASK \<noteq> f)"

definition parent_kept :: "mm \<Rightarrow> mm \<Rightarrow> nat \<Rightarrow> bool" where
  "parent_kept m0 m P \<longleftrightarrow> (\<forall>va e. upage va \<longrightarrow> entry m0 P va = Some e \<longrightarrow>
     entry m P va = Some e \<and> frames m (e AND PAGE_ADDR_MASK) = frames m0 (e AND PAGE_ADDR_MASK))"

definition page_done :: "mm \<Rightarrow> nat \<Rightarrow> nat \<Rightarrow> vmspace list \<Rightarrow> u32 \<Rightarrow> bool" where
  "page_done m P C ss va \<longleftrightarrow> (\<exists>e f. entry m P va = Some e \<and> aligned f \<and>
     entry m C va = Some (f OR (PG_RW_W OR PG_US_U) OR PG_P_1) \<and>
     (if shared_at ss va then f = e AND PAGE_ADDR_MASK else private_copy m P C va e f))"

definition copied_below :: "mm \<Rightarrow> mm \<Rightarrow> nat \<Rightarrow> nat \<Rightarrow> vmspace list \<Rightarrow> nat \<Rightarrow> bool" where
  "copied_below m0 m P C ss c \<longleftrightarrow> mm_ok m P C \<and> parent_kept m0 m P \<and>
     (\<forall>va. upage va \<longrightarrow> (if attr_at ss va = None \<or> c \<le> unat va then entry m C va = None else page_done m P C ss va))"

lemma upage_next: "upage u \<Longrightarrow> upage va \<Longrightarrow> unat u < unat va + 4096 \<Longrightarrow> u \<noteq> va \<Longrightarrow> unat u < unat va"
  unfolding upage_def aligned_unat word_unat_eq_iff by (auto elim!: dvdE)

lemma page_copied_keeps:
  assumes c: "page_copied sh m m' P C va e f" and va: "upage va" and u: "upage u" "u \<noteq> va"
    and sh: "shared_at ss va = sh" and d: "page_done m P C ss u"
  shows "page_done m' P C ss u"
proof -
  note K = c [unfolded page_copied_def]
  have same: "entry m' P vb = entry m P vb" "entry m' C vb = entry m C vb" if "upage vb" "vb \<noteq> va" for vb
    using K that by blast+
  obtain eu fu where D: "entry m P u = Some eu" "aligned fu" "entry m C u = Some (fu OR (PG_RW_W OR PG_US_U) OR PG_P_1)"
    "if shared_at ss u then fu = eu AND PAGE_ADDR_MASK else private_copy m P C u eu fu"
    using d unfolding page_done_def by blast
  have fu: "used m C fu" unfolding used_def using D(3) u(1) entry_addr [OF D(2) user_attr(1)] by blast
  have eu: "used m P (eu AND PAGE_ADDR_MASK)" unfolding used_def using D(1) u(1) by blast
  have "private_copy m' P C u eu fu" if priv: "private_copy m P C u eu fu"
  proof -
    note Q = priv [unfolded private_copy_def]
    have f: "fu \<noteq> e AND PAGE_ADDR_MASK" "fu \<noteq> f" "frames m' fu = frames m fu"
      "frames m' (eu AND PAGE_ADDR_MASK) = frames m (eu AND PAGE_ADDR_MASK)"
    proof -
      have "used m P (e AND PAGE_ADDR_MASK) \<or> \<not> used m C (e AND PAGE_ADDR_MASK)"
        using K va by (auto simp: used_def split: if_splits)
      with Q fu show ne: "fu \<noteq> e AND PAGE_ADDR_MASK" by blast
      show "fu \<noteq> f" using K fu ne by (auto split: if_splits)
      then show "frames m' fu = frames m fu" using K by (auto split: if_splits)
      show "frames m' (eu AND PAGE_ADDR_MASK) = frames m (eu AND PAGE_ADDR_MASK)"
        using K eu by (auto split: if_splits)
    qed
    have "\<not> used m' P fu"
      using Q f(1) K same(1) unfolding used_def by (metis option.inject)
    moreover have "x AND PAGE_ADDR_MASK \<noteq> fu" if "upage vb" "vb \<noteq> u" "entry m' C vb = Some x" for vb x
    proof (cases "vb = va")
      case True
      with that K have x: "x = f OR (PG_RW_W OR PG_US_U) OR PG_P_1" "aligned f" by auto
      with f(2) entry_addr [OF x(2) user_attr(1)] show ?thesis by simp
    next
      case False
      with that Q same(2) show ?thesis by metis
    qed
    ultimately show ?thesis using Q f by (simp add: private_copy_def)
  qed
  then show ?thesis using D same [OF u] unfolding page_done_def by auto
qed

lemma page_copied_new:
  assumes c: "page_copied sh m m' P C va e f" and va: "upage va" and sh: "shared_at ss va = sh"
  shows "page_done m' P C ss va"
proof -
  note K = c [unfolded page_copied_def]
  have "private_copy m' P C va e f" if "\<not> sh"
  proof -
    have f: "\<not> used m P f" "\<not> used m C f" "f \<noteq> e AND PAGE_ADDR_MASK" "frames m' = (frames m)(f := frames m (e AND PAGE_ADDR_MASK))"
      using K that by auto
    have "\<not> used m' P f" using f(1,3) K unfolding used_def by (metis option.inject)
    moreover have "x AND PAGE_ADDR_MASK \<noteq> f" if "upage vb" "vb \<noteq> va" "entry m' C vb = Some x" for vb x
      using f(2) K that unfolding used_def by metis
    ultimately show ?thesis using f(3,4) by (simp add: private_copy_def)
  qed
  then show ?thesis using K sh unfolding page_done_def by auto
qed

lemma copied_step:
  assumes inv: "copied_below m0 m P C ss (unat va)" and va: "upage va" "attr_at ss va \<noteq> None"
    and c: "page_copied (shared_at ss va) m m' P C va e f"
  shows "copied_below m0 m' P C ss (unat va + 4096)"
proof -
  note K = c [unfolded page_copied_def] and I = inv [unfolded copied_below_def]
  have "entry m' P vb = Some x \<and> frames m' (x AND PAGE_ADDR_MASK) = frames m0 (x AND PAGE_ADDR_MASK)"
    if vb: "upage vb" "entry m0 P vb = Some x" for vb x
  proof -
    have x: "entry m P vb = Some x" "frames m (x AND PAGE_ADDR_MASK) = frames m0 (x AND PAGE_ADDR_MASK)"
      using I vb unfolding parent_kept_def by blast+
    have "used m P (x AND PAGE_ADDR_MASK)" unfolding used_def using x(1) vb(1) by blast
    then have "frames m' (x AND PAGE_ADDR_MASK) = frames m (x AND PAGE_ADDR_MASK)"
      using K by (auto split: if_splits)
    moreover have "entry m' P vb = Some x"
      using K x(1) vb(1) by (cases "vb = va") (auto split: if_splits)
    ultimately show ?thesis using x(2) by simp
  qed
  then have "parent_kept m0 m' P" unfolding parent_kept_def by blast
  moreover have "if attr_at ss u = None \<or> unat va + 4096 \<le> unat u then entry m' C u = None else page_done m' P C ss u"
    if u: "upage u" for u
  proof (cases "u = va")
    case True
    then show ?thesis using page_copied_new [OF c va(1) refl] va(2) by auto
  next
    case False
    have old: "if attr_at ss u = None \<or> unat va \<le> unat u then entry m C u = None else page_done m P C ss u"
      using I u by blast
    have same: "entry m' C u = entry m C u" using K u False by blast
    show ?thesis
    proof (cases "attr_at ss u = None \<or> unat va + 4096 \<le> unat u")
      case True
      with old same show ?thesis by auto
    next
      case below: False
      then have "unat u < unat va" using upage_next [OF u va(1) _ False] by simp
      with old below page_copied_keeps [OF c va(1) u False refl] show ?thesis by auto
    qed
  qed
  ultimately show ?thesis using K unfolding copied_below_def by blast
qed

lemma find_space:
  "spaces_ok ss \<Longrightarrow> s \<in> set ss \<Longrightarrow> sp_start s \<le> va \<Longrightarrow> va < sp_end s \<Longrightarrow>
    (\<exists>rest. vmspace_find_from ss va = s # rest) \<and> attr_at ss va = Some (page_prot s, sp_flags s)"
proof (induction ss)
  case (Cons t ss)
  show ?case
  proof (cases "s = t")
    case False
    with Cons.prems have s: "s \<in> set ss" and t: "sp_end t \<le> va" by (auto simp: spaces_ok_Cons)
    from Cons.prems(1) have "spaces_ok ss" by (simp add: spaces_ok_Cons)
    with Cons.IH s Cons.prems(3,4) t show ?thesis by auto
  qed (use Cons.prems in simp)
qed simp

text \<open>The spaces of a process: sorted, with page-aligned ends, in user memory; the shared ones are mapped.\<close>

definition user_spaces :: "vmspace list \<Rightarrow> bool" where
  "user_spaces ss \<longleftrightarrow> spaces_ok ss \<and>
     (\<forall>s \<in> set ss. aligned (sp_start s) \<and> aligned (sp_end s) \<and> sp_end s \<le> USER_VMM_SIZE)"

definition space_pages :: "vmspace \<Rightarrow> nat" where
  "space_pages s = range_pages (sp_start s) (sp_end s)"

lemma space_pages_unat:
  assumes "aligned (sp_start s)" "aligned (sp_end s)" "sp_start s < sp_end s"
  shows "unat (sp_end s) = unat (sp_start s) + 4096 * space_pages s"
proof -
  have "unat (sp_end s - sp_start s) = unat (sp_end s) - unat (sp_start s)"
    using assms(3) by (simp add: unat_sub less_imp_le)
  moreover obtain a b where "unat (sp_start s) = 4096 * a" "unat (sp_end s) = 4096 * b"
    using assms(1,2) unfolding aligned_unat by (elim dvdE)
  moreover have "space_pages s = unat (sp_end s - sp_start s) div 4096"
    using assms(3) by (simp add: space_pages_def range_pages_def drop_bit_eq_div unat_div)
  ultimately show ?thesis using assms(3) by (simp add: word_less_nat_alt flip: diff_mult_distrib2)
qed

lemma copy_pages_ok:
  assumes us: "user_spaces (vm_spaces vm)" and s: "s \<in> set (vm_spaces vm)"
    and shared: "\<And>va. upage va \<Longrightarrow> shared_at (vm_spaces vm) va \<Longrightarrow> entry m0 P va \<noteq> None"
  shows "copied_below m0 m P C (vm_spaces vm) (unat va) \<Longrightarrow> aligned va \<Longrightarrow> sp_start s \<le> va \<Longrightarrow>
    unat (sp_end s) = unat va + 4096 * n \<Longrightarrow> 4 * n + r \<le> spare (phys (pgs m)) \<Longrightarrow>
    \<exists>m'. copy_pages m vm s C P va n = Ret (0, m') \<and> copied_below m0 m' P C (vm_spaces vm) (unat (sp_end s)) \<and>
      r \<le> spare (phys (pgs m'))"
proof (induction n arbitrary: m va)
  case (Suc n)
  let ?ss = "vm_spaces vm"
  have ss: "spaces_ok ?ss" "aligned (sp_end s)" "sp_end s \<le> USER_VMM_SIZE" using us s by (auto simp: user_spaces_def)
  have lt: "va < sp_end s" using Suc.prems(4) by (simp add: word_less_nat_alt)
  have va: "upage va" using Suc.prems(2) lt ss(3) by (simp add: upage_def)
  from find_space [OF ss(1) s Suc.prems(3) lt] have f: "vmspace_find vm va = Some s"
    and at: "attr_at ?ss va = Some (page_prot s, sp_flags s)" by (auto simp: vmspace_find_def)
  have sh: "shared_at ?ss va \<longleftrightarrow> sp_flags s AND VMS_MAP_SHARED \<noteq> 0" by (simp add: shared_at_def at)
  note I = Suc.prems(1) [unfolded copied_below_def]
  have mm: "mm_ok m P C" and none: "entry m C va = None" using I va by force+
  obtain m1 e f where m1: "(if sp_flags s AND VMS_MAP_SHARED \<noteq> 0 then do_copy_share_page m va C P
      else do_copy_normal_page m vm va C P) = Ret (0, m1)" "page_copied (shared_at ?ss va) m m1 P C va e f"
    "spare (phys (pgs m)) \<le> spare (phys (pgs m1)) + 4"
  proof (cases "shared_at ?ss va")
    case True
    from shared [OF va True] I va obtain e where e: "entry m P va = Some e" by (auto simp: parent_kept_def)
    have "1 \<le> spare (phys (pgs m))" using Suc.prems(5) by simp
    from share_page_step [OF mm va none e this] obtain m1 where "do_copy_share_page m va C P = Ret (0, m1)"
      "page_copied True m m1 P C va e (e AND PAGE_ADDR_MASK)" "spare (phys (pgs m)) \<le> Suc (spare (phys (pgs m1)))" by blast
    with True sh show ?thesis by (intro that [of m1 e "e AND PAGE_ADDR_MASK"]) simp_all
  next
    case False
    have "4 \<le> spare (phys (pgs m))" using Suc.prems(5) by simp
    from normal_page_step [OF mm va none f Suc.prems(3) this] obtain m1 e f where
      "do_copy_normal_page m vm va C P = Ret (0, m1)" "page_copied False m m1 P C va e f"
      "spare (phys (pgs m)) \<le> spare (phys (pgs m1)) + 4" by blast
    with False sh show ?thesis by (intro that [of m1 e f]) simp_all
  qed
  have un: "unat (va + PAGE_SIZE) = unat va + 4096"
    using va by (simp add: upage_def USER_VMM_SIZE_def word_less_nat_alt unat_word_ariths PAGE_SIZE_val)
  have "copied_below m0 m1 P C ?ss (unat va + 4096)" by (rule copied_step [OF Suc.prems(1) va _ m1(2)]) (simp add: at)
  then have after: "copied_below m0 m1 P C ?ss (unat (va + PAGE_SIZE))" by (simp only: un)
  have "aligned (va + PAGE_SIZE)"
    by (rule aligned_add [OF Suc.prems(2)]) (simp add: aligned_def PAGE_ADDR_MASK_def PAGE_SIZE_val)
  moreover have "sp_start s \<le> va + PAGE_SIZE" using Suc.prems(3) un by (simp add: word_le_nat_alt)
  moreover have "unat (sp_end s) = unat (va + PAGE_SIZE) + 4096 * n" using Suc.prems(4) un by simp
  moreover have "4 * n + r \<le> spare (phys (pgs m1))" using Suc.prems(5) m1(3) by simp
  ultimately have "\<exists>m'. copy_pages m1 vm s C P (va + PAGE_SIZE) n = Ret (0, m') \<and>
      copied_below m0 m' P C ?ss (unat (sp_end s)) \<and> r \<le> spare (phys (pgs m'))" by (rule Suc.IH [OF after])
  with m1(1) show ?case by simp
qed simp

lemma copied_gap:
  assumes "copied_below m0 m P C ss c" "c \<le> c'"
    and "\<And>va. upage va \<Longrightarrow> c \<le> unat va \<Longrightarrow> unat va < c' \<Longrightarrow> attr_at ss va = None"
  shows "copied_below m0 m P C ss c'"
proof -
  have "if attr_at ss va = None \<or> c' \<le> unat va then entry m C va = None else page_done m P C ss va" if va: "upage va" for va
  proof -
    have "if attr_at ss va = None \<or> c \<le> unat va then entry m C va = None else page_done m P C ss va"
      using assms(1) va unfolding copied_below_def by blast
    with assms(2) assms(3) [OF va] show ?thesis by (auto split: if_splits)
  qed
  with assms(1) show ?thesis unfolding copied_below_def by blast
qed

lemma copy_spaces_ok:
  assumes us: "user_spaces (vm_spaces vm)"
    and shared: "\<And>va. upage va \<Longrightarrow> shared_at (vm_spaces vm) va \<Longrightarrow> entry m0 P va \<noteq> None"
  shows "vm_spaces vm = pre @ ss \<Longrightarrow> copied_below m0 m P C (vm_spaces vm) c \<Longrightarrow>
    (\<forall>s \<in> set pre. unat (sp_end s) \<le> c) \<Longrightarrow> (\<forall>s \<in> set ss. c \<le> unat (sp_start s)) \<Longrightarrow>
    4 * sum_list (map space_pages ss) \<le> spare (phys (pgs m)) \<Longrightarrow>
    \<exists>m' c'. copy_spaces m vm ss C P = Ret (0, m') \<and> copied_below m0 m' P C (vm_spaces vm) c' \<and>
      (\<forall>s \<in> set (vm_spaces vm). unat (sp_end s) \<le> c')"
proof (induction ss arbitrary: m pre c)
  case (Cons s ss)
  let ?all = "vm_spaces vm"
  have s: "s \<in> set ?all" "spaces_ok ?all" "aligned (sp_start s)" "aligned (sp_end s)" "sp_start s < sp_end s"
    using us Cons.prems(1) by (auto simp: user_spaces_def spaces_ok_append spaces_ok_Cons)
  have after: "\<forall>t \<in> set ss. unat (sp_end s) \<le> unat (sp_start t)"
    using s(2) Cons.prems(1) by (auto simp: spaces_ok_append spaces_ok_Cons word_le_nat_alt)
  have "copied_below m0 m P C ?all (unat (sp_start s))"
  proof (rule copied_gap [OF Cons.prems(2)])
    show "c \<le> unat (sp_start s)" using Cons.prems(4) by simp
    fix va :: u32 assume "c \<le> unat va" "unat va < unat (sp_start s)"
    then show "attr_at ?all va = None"
      using Cons.prems(1,3) after s(5) unfolding attr_at_None by (auto simp: word_le_nat_alt word_less_nat_alt)
  qed
  from copy_pages_ok [OF us s(1) shared this s(3) order.refl space_pages_unat [OF s(3-5)],
      of "4 * sum_list (map space_pages ss)"] Cons.prems(5)
  obtain m1 where m1: "copy_pages m vm s C P (sp_start s) (space_pages s) = Ret (0, m1)"
    "copied_below m0 m1 P C ?all (unat (sp_end s))" "4 * sum_list (map space_pages ss) \<le> spare (phys (pgs m1))" by auto
  have "c \<le> unat (sp_end s)" using Cons.prems(4) s(5) by (auto simp: word_less_nat_alt)
  then have pre: "\<forall>t \<in> set (pre @ [s]). unat (sp_end t) \<le> unat (sp_end s)" using Cons.prems(3) by auto
  from Cons.IH [OF _ m1(2) pre after m1(3)] Cons.prems(1) m1(1) show ?case by (simp add: space_pages_def)
qed (auto)

subsection \<open>Properties\<close>

text \<open>
  A process before its fork: its directory is active, and the entries of the kernel, which its directory
  and the new one share, point to tables of their own.
\<close>

definition kernel_half :: "mm \<Rightarrow> nat \<Rightarrow> u32" where
  "kernel_half m = (\<lambda>i. if 512 \<le> i \<and> i < 1023 then kernel_dir m i else 0)"

definition proc_ok :: "mm \<Rightarrow> nat \<Rightarrow> bool" where
  "proc_ok m P \<longleftrightarrow> active m = P \<and> ok2 (pgs m) (kernel_half m) \<and> frames_ok m P"

lemma copy_kernel_page_dir_ok:
  assumes ok: "proc_ok m P" and C: "C \<noteq> P" and room: "1 \<le> spare (phys (pgs m))" and dir: "\<forall>i \<ge> 1024. kernel_dir m i = 0"
  obtains m1 where "copy_kernel_page_dir m C = Ret m1" "mm_ok m1 P C" "frames m1 = frames m"
    "\<And>va. upage va \<Longrightarrow> entry m1 P va = entry m P va" "\<And>va. upage va \<Longrightarrow> entry m1 C va = None"
    "spare (phys (pgs m)) = Suc (spare (phys (pgs m1)))"
proof -
  note O = ok [unfolded proc_ok_def ok2_def]
  from O have zone: "zone_ok (phys (pgs m))" and act: "active m = P" by blast+
  obtain page pm i where al: "alloc_pages (phys (pgs m)) 1 = Ret (page, pm)" "page \<noteq> 0" "aligned page"
    "page2mem_node (phys (pgs m)) page = Some i" "\<not> covered (phys (pgs m)) i" "zone_ok pm"
    "\<And>x. page2mem_node pm x = page2mem_node (phys (pgs m)) x" "\<And>n. covered pm n \<longleftrightarrow> n = i \<or> covered (phys (pgs m)) n"
    "\<And>j. allocated pm j \<longleftrightarrow> j = i \<or> allocated (phys (pgs m)) j" "spare (phys (pgs m)) = Suc (spare pm)"
    using alloc_one [OF zone room] by metis
  let ?self = "page OR PG_P_1 OR PG_US_S OR PG_RW_W"
  let ?D = "\<lambda>i. if i < 512 then 0 else if i = 1023 then ?self else kernel_dir m i"
  define m1 where "m1 = m\<lparr>pgs := (pgs m)\<lparr>phys := pm\<rparr>, dirs := (dirs m)(C := ?D)\<rparr>"
  have self: "?self = page OR (PG_US_S OR PG_RW_W) OR PG_P_1" by (simp add: ac_simps)
  have "(PG_US_S OR PG_RW_W) AND PAGE_ADDR_MASK = 0" by (simp add: PG_US_S_def PG_RW_W_def PAGE_ADDR_MASK_def)
  from entry_addr [OF al(3) this] have ad: "?self AND PAGE_ADDR_MASK = page" by (simp only: self)
  have "\<not> allocated (phys (pgs m)) i" using al(5) zone by (auto simp: covered_def zone_ok_def pmem_ok_def)
  then have fresh: "present (pde (pgs m) k) \<Longrightarrow> pde (pgs m) k AND PAGE_ADDR_MASK \<noteq> page"
    "present (kernel_half m k) \<Longrightarrow> kernel_half m k AND PAGE_ADDR_MASK \<noteq> page" for k
    using O al(4) by (auto simp: paging_ok_def)
  have zero: "\<not> present 0" by (simp add: present_def)
  have D: "?D = (kernel_half m)(1023 := ?self)" using dir by (auto simp: kernel_half_def not_less)
  have half: "kernel_half m 1023 = 0" by (simp add: kernel_half_def)
  have inj: "kernel_half m u AND PAGE_ADDR_MASK \<noteq> kernel_half m v AND PAGE_ADDR_MASK"
    if "present (kernel_half m u)" "present (kernel_half m v)" "u \<noteq> v" for u v
    using O that by (auto simp: paging_ok_def)
  have "paging_ok (pgs m1)"
    by (rule paging_ok_phys [of "pgs m"]) (use O al(6) in \<open>simp_all add: m1_def al(7,9)\<close>)
  moreover have "paging_ok ((pgs m1)\<lparr>pde := ?D\<rparr>)"
  proof -
    have "paging_ok ((pgs m1)\<lparr>pde := kernel_half m\<rparr>)"
      by (rule paging_ok_phys [of "(pgs m)\<lparr>pde := kernel_half m\<rparr>"]) (use O al(6) in \<open>simp_all add: m1_def al(7,9)\<close>)
    then show ?thesis
      unfolding D paging_ok_def using fresh(2) al(4,7,9) ad by (auto simp: m1_def) 
  qed
  moreover have "apart_dirs (pde (pgs m1)) ?D"
    unfolding apart_dirs_def D
  proof (intro allI impI)
    fix u v assume "present (pde (pgs m1) u)" "present (((kernel_half m)(1023 := ?self)) v)" "u < 512 \<or> v < 512"
    then show "pde (pgs m1) u AND PAGE_ADDR_MASK \<noteq> ((kernel_half m)(1023 := ?self)) v AND PAGE_ADDR_MASK"
      using fresh(1) [of u] apart_dirsD [of "pde (pgs m)" "kernel_half m" u v] O
      by (cases "v = 1023") (auto simp: m1_def ad)
  qed
  ultimately have ok2: "ok2 (pgs m1) ?D" using al(6) by (simp add: ok2_def m1_def)
  have v: "view m1 P = pgs m1" "view m1 C = (pgs m1)\<lparr>pde := ?D\<rparr>" using act C by (simp_all add: view_def m1_def)
  have "pgs m1 = (pgs m)\<lparr>phys := pm\<rparr>" "view m P = pgs m" using act by (simp_all add: view_def m1_def)
  then have P: "entry m1 P va = entry m P va" for va by (simp add: v)
  have none: "entry m1 C va = None" if "upage va" for va
    using upage_pde [OF that] unfolding v by (simp add: tr_def mapped_def pde_present_def zero)
  have ph: "phys (pgs m1) = pm" by (simp add: m1_def)
  have "frames_ok m1 P" using O P unfolding frames_ok_def ph al(7,8) by metis
  moreover have "frames_ok m1 C" using none by (simp add: frames_ok_def)
  ultimately have "mm_ok m1 P C" using C act ok2 by (simp add: mm_ok_def v) (simp add: m1_def)
  moreover have "copy_kernel_page_dir m C = Ret m1" using al(1) by (simp add: copy_kernel_page_dir_def m1_def)
  ultimately show ?thesis using that P none al(10) ph by (simp add: m1_def)
qed

text \<open>
  C32. A fork copies the memory of the process. With enough free pages (at most four for each page of the
  spaces, and one for the directory) the copy succeeds. The parent keeps every mapping and every byte.
  The child maps exactly the pages of the spaces: a shared page to the frame the parent has it in, any
  other page to a frame that neither the parent nor another page of the child maps, with the contents of
  the parent's page (which is mapped in, if it was not yet). All pages of the child are writable.
\<close>

theorem fork_memory:
  assumes "proc_ok m P" "C \<noteq> P" "\<forall>i \<ge> 1024. kernel_dir m i = 0" "user_spaces (vm_spaces vm)"
    and "\<And>va. upage va \<Longrightarrow> shared_at (vm_spaces vm) va \<Longrightarrow> entry m P va \<noteq> None"
    and "1 + 4 * sum_list (map space_pages (vm_spaces vm)) \<le> spare (phys (pgs m))"
  shows "\<exists>m1 m'. copy_kernel_page_dir m C = Ret m1 \<and> copy_vm_mapping m1 vm True C P = Ret (0, m') \<and>
    active m' = P \<and> parent_kept m m' P \<and>
    (\<forall>va. upage va \<longrightarrow>
       (if attr_at (vm_spaces vm) va = None then entry m' C va = None else page_done m' P C (vm_spaces vm) va))"
proof -
  have "1 \<le> spare (phys (pgs m))" using assms(6) by simp
  from copy_kernel_page_dir_ok [OF assms(1,2) this assms(3)] obtain m1 where
    m1: "copy_kernel_page_dir m C = Ret m1" "mm_ok m1 P C" "frames m1 = frames m"
    "\<And>va. upage va \<Longrightarrow> entry m1 P va = entry m P va" "\<And>va. upage va \<Longrightarrow> entry m1 C va = None"
    "spare (phys (pgs m)) = Suc (spare (phys (pgs m1)))" by metis
  have "parent_kept m m1 P" using m1(3,4) by (simp add: parent_kept_def)
  then have start: "copied_below m m1 P C (vm_spaces vm) 0" using m1(2,5) by (simp add: copied_below_def)
  have "4 * sum_list (map space_pages (vm_spaces vm)) \<le> spare (phys (pgs m1))" using assms(6) m1(6) by simp
  from copy_spaces_ok [OF assms(4,5) _ start _ _ this, of "[]"] obtain m' c where
    m': "copy_spaces m1 vm (vm_spaces vm) C P = Ret (0, m')" "copied_below m m' P C (vm_spaces vm) c"
    "\<forall>s \<in> set (vm_spaces vm). unat (sp_end s) \<le> c" by auto
  have below: "unat va < c" if "attr_at (vm_spaces vm) va \<noteq> None" for va
    using that m'(3) unfolding attr_at_None by (force simp: word_less_nat_alt)
  have "if attr_at (vm_spaces vm) va = None then entry m' C va = None else page_done m' P C (vm_spaces vm) va"
    if "upage va" for va
    using m'(2) that below [of va] unfolding copied_below_def by (auto split: if_splits)
  moreover have "active m' = P" "parent_kept m m' P" using m'(2) mm_okD(2) unfolding copied_below_def by blast+
  ultimately show ?thesis using m1(1) m'(1) by (auto simp: copy_vm_mapping_def)
qed

definition demo_mm :: mm where
  "demo_mm = \<lparr>pgs = \<lparr>pde = (\<lambda>_. 0)(256 := 0x1001007),
       ptab = (\<lambda>_ _. 0)(0x1001000 := (\<lambda>_. 0)(0 := 0x2000007)), phys = example_pmem\<rparr>,
     dirs = (\<lambda>_ _. 0), active = 0, kernel_dir = (\<lambda>_. 0), frames = (\<lambda>_ _. 0)(0x2000000 := (\<lambda>_. 7))\<rparr>"

definition demo_vmm :: vmm where
  "demo_vmm = \<lparr>vm_spaces = [vmspace_init 1 0x40000000 0x40002000 0x16 0], vm_freed = [], heap_start = 0, heap_end = 0,
     map_start = 0, map_end = 0, vm_pages = pgs demo_mm\<rparr>"

lemma demo_spare: "9 \<le> spare example_pmem"
proof -
  have "{2050..<2059} \<subseteq> {n. DMA_NODES \<le> n \<and> n < mem_node_count example_pmem \<and> \<not> covered example_pmem n}"
    by (auto simp: DMA_NODES_val covered_def allocated_def block_end_def example_pmem_def)
  from card_mono [OF _ this] show ?thesis by (simp add: spare_def)
qed

lemma demo_proc_ok: "proc_ok demo_mm 0"
proof -
  have "kernel_half demo_mm = (\<lambda>_. 0)" by (simp add: kernel_half_def demo_mm_def fun_eq_iff)
  moreover have "zone_ok example_pmem"
    using example_pmem_ok by (simp add: zone_ok_def) (simp add: example_pmem_def aligned_def PAGE_ADDR_MASK_def)
  moreover have "paging_ok (pgs demo_mm)" "paging_ok ((pgs demo_mm)\<lparr>pde := (\<lambda>_. 0)\<rparr>)"
    using example_pmem_ok
    by (simp_all add: paging_ok_def demo_mm_def present_def PG_P_1_def PAGE_ADDR_MASK_def)
      (simp_all add: example_pmem_def page2mem_node_def allocated_def aligned_def PAGE_ADDR_MASK_def Let_def)
  ultimately have "ok2 (pgs demo_mm) (kernel_half demo_mm)"
    by (simp add: ok2_def apart_dirs_def present_def) (simp add: demo_mm_def)
  moreover have "page2mem_node (phys (pgs demo_mm)) (e AND PAGE_ADDR_MASK) = None"
    if "tr (pgs demo_mm) va = Some e" for va e
    using that by (auto simp: tr_def mapped_def pte_def table_of_def demo_mm_def example_pmem_def page2mem_node_def
        PAGE_ADDR_MASK_def present_def pde_present_def split: if_splits)
  then have "frames_ok demo_mm 0"
    unfolding frames_ok_def by (simp add: view_def) (simp add: demo_mm_def)
  ultimately show ?thesis by (simp add: proc_ok_def) (simp add: demo_mm_def)
qed

lemma demo_vmm_pages: "user_spaces (vm_spaces demo_vmm)" "sum_list (map space_pages (vm_spaces demo_vmm)) = 2"
  "\<not> shared_at (vm_spaces demo_vmm) va" "attr_at (vm_spaces demo_vmm) 0x40000000 \<noteq> None"
  by (simp_all add: user_spaces_def demo_vmm_def vmspace_init_def spaces_ok_def aligned_def PAGE_ADDR_MASK_def
      USER_VMM_SIZE_def space_pages_def range_pages_def shared_at_def VMS_MAP_SHARED_def)

lemma demo_entry: "upage 0x40000000" "entry demo_mm 0 0x40000000 = Some 0x2000007"
  "frames demo_mm 0x2000000 = (\<lambda>_. 7)" "kernel_dir demo_mm = (\<lambda>_. 0)" "phys (pgs demo_mm) = example_pmem"
  by (simp_all add: upage_def aligned_def PAGE_ADDR_MASK_def USER_VMM_SIZE_def demo_mm_def tr_def mapped_def pte_def
      table_of_def PDE_IDX_def PTE_IDX_def present_def pde_present_def PG_P_1_def view_def)

lemma fork_memory_witness:
  "\<exists>m1 m' f. copy_kernel_page_dir demo_mm 1 = Ret m1 \<and> copy_vm_mapping m1 demo_vmm True 1 0 = Ret (0, m') \<and>
     entry m' 0 0x40000000 = Some 0x2000007 \<and> entry m' 1 0x40000000 = Some (f OR (PG_RW_W OR PG_US_U) OR PG_P_1) \<and>
     frames m' f 0 = 7 \<and> f \<noteq> 0x2000000"
proof -
  have "1 + 4 * sum_list (map space_pages (vm_spaces demo_vmm)) \<le> spare (phys (pgs demo_mm))"
    using demo_spare by (simp add: demo_vmm_pages(2) demo_entry(5))
  with fork_memory [OF demo_proc_ok, of 1 demo_vmm] demo_vmm_pages demo_entry obtain m1 m' where
    m': "copy_kernel_page_dir demo_mm 1 = Ret m1" "copy_vm_mapping m1 demo_vmm True 1 0 = Ret (0, m')"
    "parent_kept demo_mm m' 0" "\<And>va. upage va \<Longrightarrow>
       if attr_at (vm_spaces demo_vmm) va = None then entry m' 1 va = None else page_done m' 0 1 (vm_spaces demo_vmm) va"
    by (auto simp del: split_paired_Ex)
  have "page_done m' 0 1 (vm_spaces demo_vmm) 0x40000000"
    using m'(4) [OF demo_entry(1)] demo_vmm_pages(4) by simp
  then obtain e f where f: "entry m' 0 0x40000000 = Some e" "entry m' 1 0x40000000 = Some (f OR (PG_RW_W OR PG_US_U) OR PG_P_1)"
    "private_copy m' 0 1 0x40000000 e f" using demo_vmm_pages(3) by (auto simp: page_done_def)
  have kept: "entry m' 0 0x40000000 = Some 0x2000007" "frames m' 0x2000000 = (\<lambda>_. 7)"
    using m'(3) demo_entry(1-3) by (auto simp: parent_kept_def PAGE_ADDR_MASK_def)
  have "frames m' f = frames m' 0x2000000" "\<not> used m' 0 f"
    using f(1,3) kept(1) by (auto simp: private_copy_def PAGE_ADDR_MASK_def)
  moreover have "used m' 0 0x2000000"
    using kept(1) demo_entry(1) unfolding used_def by (intro exI [of _ "0x40000000"] exI [of _ "0x2000007"]) (simp add: PAGE_ADDR_MASK_def)
  ultimately show ?thesis using m'(1,2) f(2) kept by (intro exI [of _ m1] exI [of _ m'] exI [of _ f]) auto
qed

end
