(* ===== verification/ShareMem.thy ===== *)
theory ShareMem
  imports VmSpace Ipc
begin

section \<open>Shared memory\<close>

text \<open>
  \<open>src/src/ipc/sharemem.c\<close>: a table of named blocks of physical pages that processes map into their
  address spaces. Each operation on the table runs between a down and an up of the mutex of the table
  and is one function here; the address space is that of the current process. A null \<open>shmaddr\<close> is 0,
  the error \<open>(void * ) -1\<close> the word of all ones. \<open>Panic\<close> also stands for the use of a null pointer.
\<close>

definition MAX_SHARE_MEM_SIZE :: u32 where "MAX_SHARE_MEM_SIZE = 0x800000"
definition SHARE_MEM_PRIVATE :: u32 where "SHARE_MEM_PRIVATE = 1"
definition IPC_RND :: u32 where "IPC_RND = 0x100"
definition IPC_REMAP :: u32 where "IPC_REMAP = 0x200"

record share_mem =
  shid :: int
  page_addr :: u32
  npages :: u32
  shflags :: u32
  links :: int
  shname :: "u8 list"

definition share_mem_find_by_name :: "share_mem list \<Rightarrow> mem \<Rightarrow> nat option" where
  "share_mem_find_by_name tbl nm = find_slot (\<lambda>r. named (shname r) \<and> strcmp (shname r) nm 0 = 0) tbl"

definition share_mem_find_by_id :: "share_mem list \<Rightarrow> int \<Rightarrow> nat option" where
  "share_mem_find_by_id tbl shmid = find_slot (\<lambda>r. shid r = shmid \<and> named (shname r)) tbl"

definition share_mem_find_by_addr :: "share_mem list \<Rightarrow> u32 \<Rightarrow> nat option" where
  "share_mem_find_by_addr tbl addr = find_slot (\<lambda>r. named (shname r) \<and> page_addr r = addr) tbl"

definition share_mem_fill :: "mem \<Rightarrow> u32 \<Rightarrow> share_mem \<Rightarrow> share_mem" where
  "share_mem_fill nm sz r = r\<lparr>npages := PAGE_ALIGN (if sz = 0 then 1 else sz) div PAGE_SIZE, page_addr := 0,
     shflags := 0, shname := store_name nm\<rparr>"

definition share_mem_alloc :: "share_mem list \<Rightarrow> mem \<Rightarrow> u32 \<Rightarrow> (nat \<times> share_mem list) option" where
  "share_mem_alloc tbl nm sz = map_option (\<lambda>i. (i, tbl[i := share_mem_fill nm sz (tbl ! i)]))
     (find_slot (\<lambda>r. \<not> named (shname r)) tbl)"

definition shm_clear :: "share_mem \<Rightarrow> share_mem" where
  "shm_clear r = r\<lparr>shname := clear_name\<rparr>"

definition share_mem_free :: "paging \<Rightarrow> share_mem \<Rightarrow> int \<times> paging \<times> share_mem" where
  "share_mem_free m r =
     (if page_addr r \<noteq> 0 \<and> shflags r AND SHARE_MEM_PRIVATE = 0
      then case free_pages (phys m) (page_addr r) of (ret, pm) \<Rightarrow>
             if ret \<noteq> 0 then (-1, m\<lparr>phys := pm\<rparr>, r) else (0, m\<lparr>phys := pm\<rparr>, shm_clear r)
      else (0, m, shm_clear r))"

definition share_mem_get :: "share_mem list \<Rightarrow> mem option \<Rightarrow> u32 \<Rightarrow> u32 \<Rightarrow> int \<times> share_mem list" where
  "share_mem_get tbl name sz flags =
     (case name of None \<Rightarrow> (-1, tbl)
      | Some nm \<Rightarrow>
          if sz > 0 \<and> PAGE_ALIGN sz \<ge> MAX_SHARE_MEM_SIZE then (-1, tbl)
          else if flags AND IPC_CREAT \<noteq> 0
          then case share_mem_find_by_name tbl nm of
                 Some i \<Rightarrow> if flags AND IPC_EXCL \<noteq> 0 then (-1, tbl) else (shid (tbl ! i), tbl)
               | None \<Rightarrow> (case share_mem_alloc tbl nm sz of None \<Rightarrow> (-1, tbl)
                   | Some (i, tbl) \<Rightarrow> (shid (tbl ! i), tbl))
          else (-1, tbl))"

text \<open>The last step of \<open>share_mem_map\<close>: a mapping that succeeded counts.\<close>

definition add_link :: "share_mem list \<Rightarrow> nat \<Rightarrow> u32 \<Rightarrow> share_mem list" where
  "add_link tbl i shmaddr = (if shmaddr \<noteq> -1 then tbl[i := (tbl ! i)\<lparr>links := links (tbl ! i) + 1\<rparr>] else tbl)"

text \<open>The two branches of \<open>share_mem_map\<close>: an address of the kernel's choice, and a given one.\<close>

definition map_chosen :: "share_mem list \<Rightarrow> vmm \<Rightarrow> nat option \<Rightarrow> nat \<Rightarrow> u32 \<Rightarrow> (u32 \<times> share_mem list \<times> vmm) kret" where
  "map_chosen tbl vm new i shmflg =
     (let len = npages (tbl ! i) * PAGE_SIZE; addr = vmspace_get_unmaped vm len
      in if addr = -1 then Ret (-1, tbl, vm)
         else if addr < map_start vm \<or> addr + len \<ge> map_end vm then Ret (-1, tbl, vm)
         else if vmspace_find_intersection vm addr (addr + len) \<noteq> None then Ret (-1, tbl, vm)
         else case (if page_addr (tbl ! i) = 0 then alloc_pages (phys (vm_pages vm)) (npages (tbl ! i))
                    else Ret (page_addr (tbl ! i), phys (vm_pages vm))) of
                Panic \<Rightarrow> Panic
              | Ret (pa, pm) \<Rightarrow>
                  let tbl = tbl[i := (tbl ! i)\<lparr>page_addr := pa\<rparr>]; vm = vm\<lparr>vm_pages := (vm_pages vm)\<lparr>phys := pm\<rparr>\<rparr>;
                      flags = VMS_MAP_FIXED OR VMS_MAP_SHARED OR (if shmflg AND IPC_REMAP \<noteq> 0 then VMS_MAP_REMAP else 0)
                  in if pa = 0 then Ret (-1, tbl, vm)
                     else case do_vmspace_map vm new addr pa len (PROT_USER OR PROT_WRITE) flags of
                            Panic \<Rightarrow> Panic
                          | Ret (r, vm) \<Rightarrow> Ret (r, add_link tbl i r, vm))"

definition map_given :: "share_mem list \<Rightarrow> vmm \<Rightarrow> nat \<Rightarrow> u32 \<Rightarrow> (u32 \<times> share_mem list \<times> vmm) kret" where
  "map_given tbl vm i vaddr =
     (if page_addr (tbl ! i) = 0
      then case addr_v2p (vm_pages vm) vaddr of Panic \<Rightarrow> Panic
           | Ret pa \<Rightarrow>
               let tbl = tbl[i := (tbl ! i)\<lparr>page_addr := pa\<rparr>]
               in if pa = 0 then Ret (-1, tbl, vm)
                  else let tbl = tbl[i := (tbl ! i)\<lparr>shflags := shflags (tbl ! i) OR SHARE_MEM_PRIVATE\<rparr>]
                       in Ret (vaddr, add_link tbl i vaddr, vm)
      else Ret (vaddr, add_link tbl i vaddr, vm))"

definition rounded :: "u32 \<Rightarrow> u32 \<Rightarrow> u32" where
  "rounded shmaddr shmflg = (if shmflg AND IPC_RND \<noteq> 0 then shmaddr AND PAGE_ADDR_MASK else shmaddr)"

definition share_mem_map :: "share_mem list \<Rightarrow> vmm \<Rightarrow> nat option \<Rightarrow> int \<Rightarrow> u32 \<Rightarrow> u32 \<Rightarrow>
    (u32 \<times> share_mem list \<times> vmm) kret" where
  "share_mem_map tbl vm new shmid shmaddr shmflg =
     (case share_mem_find_by_id tbl shmid of None \<Rightarrow> Ret (-1, tbl, vm)
      | Some i \<Rightarrow> if shmaddr = 0 then map_chosen tbl vm new i shmflg
                  else map_given tbl vm i (rounded shmaddr shmflg))"

definition share_mem_unmap :: "share_mem list \<Rightarrow> vmm \<Rightarrow> nat option \<Rightarrow> u32 \<Rightarrow> u32 \<Rightarrow>
    (int \<times> share_mem list \<times> vmm) kret" where
  "share_mem_unmap tbl vm new shmaddr shmflg =
     (if shmaddr = 0 then Ret (-1, tbl, vm)
      else case vmspace_find vm (rounded shmaddr shmflg) of None \<Rightarrow> Ret (-1, tbl, vm)
      | Some sp \<Rightarrow> (case addr_v2p (vm_pages vm) (rounded shmaddr shmflg) of Panic \<Rightarrow> Panic
          | Ret addr \<Rightarrow> (case share_mem_find_by_addr tbl addr of None \<Rightarrow> Panic
              | Some i \<Rightarrow>
                  (case (if shflags (tbl ! i) AND SHARE_MEM_PRIVATE = 0
                         then do_vmspace_unmap vm new (sp_start sp) (sp_end sp - sp_start sp) else (0, vm)) of
                     (ret, vm) \<Rightarrow> Ret (ret, if ret \<noteq> -1
                       then tbl[i := (tbl ! i)\<lparr>links := links (tbl ! i) - 1\<rparr>] else tbl, vm)))))"

text \<open>\<open>share_mem_put\<close> ignores whether the block could be freed.\<close>

definition share_mem_put :: "share_mem list \<Rightarrow> paging \<Rightarrow> int \<Rightarrow> int \<times> share_mem list \<times> paging" where
  "share_mem_put tbl m shmid =
     (case share_mem_find_by_id tbl shmid of None \<Rightarrow> (-1, tbl, m)
      | Some i \<Rightarrow> if links (tbl ! i) \<le> 0
                  then case share_mem_free m (tbl ! i) of (_, m, r) \<Rightarrow> (0, tbl[i := r], m)
                  else (0, tbl, m))"

definition share_mem_grow :: "share_mem list \<Rightarrow> int \<Rightarrow> int \<times> share_mem list" where
  "share_mem_grow tbl shmid =
     (case share_mem_find_by_id tbl shmid of None \<Rightarrow> (-1, tbl)
      | Some i \<Rightarrow> (0, tbl[i := (tbl ! i)\<lparr>links := links (tbl ! i) + 1\<rparr>]))"

definition init_share_mem :: "share_mem list" where
  "init_share_mem = List.map (\<lambda>i. \<lparr>shid = 1 + int i + int i * 2, page_addr = 0, npages = 0, shflags = 0, links = 0,
     shname = clear_name\<rparr>) [0..<TABLE_NR]"

text \<open>\<open>copy_share_mem\<close> of \<open>src/src/task/fork.c\<close>: a fork counts the shared mappings it copies.\<close>

definition copy_share_mem :: "share_mem list \<Rightarrow> paging \<Rightarrow> vmspace \<Rightarrow> (int \<times> share_mem list) kret" where
  "copy_share_mem tbl m space =
     (case addr_v2p m (sp_start space) of Panic \<Rightarrow> Panic
      | Ret phyaddr \<Rightarrow> (case share_mem_find_by_addr tbl phyaddr of None \<Rightarrow> Ret (0, tbl)
          | Some i \<Rightarrow> Ret (share_mem_grow tbl (shid (tbl ! i)))))"

text \<open>
  \<open>copy_vm_vmspace\<close>: the list of the child, which is built node by node at its end; \<open>new\<close> is what
  \<open>kmalloc\<close> returns for each node. On failure the child keeps the nodes copied so far.
\<close>

fun copy_vm_vmspace :: "share_mem list \<Rightarrow> paging \<Rightarrow> vmspace list \<Rightarrow> nat option list \<Rightarrow>
    (int \<times> vmspace list \<times> share_mem list) kret" where
  "copy_vm_vmspace tbl m [] new = Ret (0, [], tbl)"
| "copy_vm_vmspace tbl m (p # ps) [] = Ret (-1, [], tbl)"
| "copy_vm_vmspace tbl m (p # ps) (None # new) = Ret (-1, [], tbl)"
| "copy_vm_vmspace tbl m (p # ps) (Some k # new) =
     (let space = p\<lparr>sp_id := k\<rparr>
      in case (if sp_flags space AND VMS_MAP_SHARED \<noteq> 0 then copy_share_mem tbl m space else Ret (0, tbl)) of
           Panic \<Rightarrow> Panic
         | Ret (r, tbl) \<Rightarrow>
             if r < 0 then Ret (-1, [], tbl)
             else case copy_vm_vmspace tbl m ps new of Panic \<Rightarrow> Panic
                  | Ret (r, ss, tbl) \<Rightarrow> Ret (r, space # ss, tbl))"

interpretation shm_table: name_table shname shid share_mem_fill shm_clear
  by unfold_locales (simp_all add: stores_store_name share_mem_fill_def shm_clear_def)

abbreviation shm_map :: "share_mem list \<Rightarrow> u8 list \<rightharpoonup> int" where
  "shm_map \<equiv> table_map shname shid"

abbreviation shm_table_ok :: "share_mem list \<Rightarrow> bool" where
  "shm_table_ok \<equiv> table_ok shname shid"

lemma init_share_mem_ok: "shm_table_ok init_share_mem" "shm_map init_share_mem = Map.empty"
  by (rule table_okI) (auto simp: init_share_mem_def fun_eq_iff table_map_def find_slot_None)

text \<open>The table is a finite map from names to ids, as the tables of semaphores and queues are.\<close>

lemma share_mem_get_map:
  assumes "shm_table_ok tbl" "fits nm" "flags AND IPC_CREAT \<noteq> 0" "sz = 0 \<or> PAGE_ALIGN sz < MAX_SHARE_MEM_SIZE"
  shows "get_result shname shid (flags AND IPC_EXCL \<noteq> 0) tbl nm (share_mem_get tbl (Some nm) sz flags)"
proof -
  have "share_mem_get tbl (Some nm) sz flags = get_slot shname shid (share_mem_fill nm sz) (flags AND IPC_EXCL \<noteq> 0) tbl nm"
    using assms(3,4) by (auto simp: share_mem_get_def get_slot_def share_mem_find_by_name_def share_mem_alloc_def not_le
        split: option.splits)
  with shm_table.get_slot_spec [OF assms(1,2)] show ?thesis by simp
qed

lemma share_mem_get_errors:
  "share_mem_get tbl None sz flags = (-1, tbl)"
  "flags AND IPC_CREAT = 0 \<Longrightarrow> share_mem_get tbl name sz flags = (-1, tbl)"
  "0 < sz \<Longrightarrow> MAX_SHARE_MEM_SIZE \<le> PAGE_ALIGN sz \<Longrightarrow> share_mem_get tbl name sz flags = (-1, tbl)"
  by (simp_all add: share_mem_get_def split: option.split)

subsection \<open>What is mapped\<close>

lemma page_addrs: "aligned pa \<Longrightarrow> aligned (pa + PAGE_SIZE)"
  by (rule aligned_add) (simp_all add: aligned_def PAGE_ADDR_MASK_def PAGE_SIZE_val)

lemma link_range_maps:
  assumes "paging_ok m" "aligned pa" "attr AND PAGE_ADDR_MASK = 0" "link_range page_link m va pa attr n = Ret m'"
  shows "paging_ok m' \<and> (\<forall>k < n. addr_v2p m' (va + of_nat k * PAGE_SIZE) =
      Ret (pa + of_nat k * PAGE_SIZE + ((va + of_nat k * PAGE_SIZE) AND 0xfff)) \<and> mapped m' (va + of_nat k * PAGE_SIZE)) \<and>
    (\<forall>vb. mapped m vb \<longrightarrow> mapped m' vb \<and> pte m' vb = pte m vb)"
  using assms
proof (induction n arbitrary: m va pa)
  case (Suc n)
  from Suc.prems(4) obtain m1 where m1: "page_link m va pa attr = Ret m1"
    "link_range page_link m1 (va + PAGE_SIZE) (pa + PAGE_SIZE) attr n = Ret m'" by (auto split: kret.splits)
  note L = page_link_mapped [OF Suc.prems(1-3) m1(1)]
  note IH = Suc.IH [OF conjunct1 [OF L] page_addrs [OF Suc.prems(2)] Suc.prems(3) m1(2)]
  have v2p: "addr_v2p m1 va = Ret (pa + (va AND 0xfff))" using page_link_translation [OF Suc.prems(1-3) m1(1)] by blast
  have first: "addr_v2p m' va = Ret (pa + (va AND 0xfff))" "mapped m' va"
    using IH L v2p by (auto simp: addr_v2p_def mapped_def split: if_splits)
  have all: "addr_v2p m' (va + of_nat k * PAGE_SIZE) = Ret (pa + of_nat k * PAGE_SIZE + ((va + of_nat k * PAGE_SIZE) AND 0xfff)) \<and>
      mapped m' (va + of_nat k * PAGE_SIZE)" if "k < Suc n" for k
  proof (cases k)
    case 0
    with first show ?thesis by simp
  next
    case (Suc j)
    with that IH L show ?thesis by (simp add: algebra_simps)
  qed
  show ?case
  proof (intro conjI allI impI)
    show "paging_ok m'" using IH by blast
    fix vb assume "mapped m vb"
    with L IH show "mapped m' vb" "pte m' vb = pte m vb" by auto
  qed (use all in blast)+
qed simp

lemma of_nat_pages: "unat w < 2048 \<Longrightarrow> unat (w * PAGE_SIZE) = unat w * 4096" for w :: u32
  by (simp add: unat_word_ariths PAGE_SIZE_val)

lemma aligned_PAGE_ALIGN:
  assumes "4096 dvd unat len" "unat len < 2 ^ 31"
  shows "PAGE_ALIGN len = len"
proof -
  obtain q where q: "unat len = 4096 * q" using assms(1) by blast
  have "unat (PAGE_ALIGN len) = (unat len + 4095) div 4096 * 4096" using assms(2) by (intro PAGE_ALIGN_unat) simp
  also have "\<dots> = unat len" unfolding q by (simp add: div_add1_eq)
  finally show ?thesis by (simp add: word_unat_eq_iff)
qed

lemma vmspace_insert_pages [simp]: "vm_pages (vmspace_insert vm sp) = vm_pages vm"
  by (simp add: vmspace_insert_def Let_def split: prod.split)

text \<open>A fixed, shared mapping that \<open>do_vmspace_map\<close> makes maps every page of the range.\<close>

lemma shared_map_pages:
  assumes pg: "paging_ok (vm_pages vm)" "aligned pa" and n: "unat n < 2048"
    and prot: "prot \<noteq> 0" "prot AND PROT_REMAP = 0"
    and fl: "flags AND VMS_MAP_FIXED \<noteq> 0" "flags AND VMS_MAP_SHARED \<noteq> 0" "flags AND VMS_MAP_REMAP = 0"
    and m: "do_vmspace_map vm new addr pa (n * PAGE_SIZE) prot flags = Ret (r, vm')" "r \<noteq> -1"
  shows "r = addr \<and> addr AND NOT PAGE_MASK = 0 \<and> paging_ok (vm_pages vm') \<and>
    (\<forall>k < unat n. addr_v2p (vm_pages vm') (addr + of_nat k * PAGE_SIZE) = Ret (pa + of_nat k * PAGE_SIZE)) \<and>
    (\<forall>vb. mapped (vm_pages vm) vb \<longrightarrow> mapped (vm_pages vm') vb \<and> pte (vm_pages vm') vb = pte (vm_pages vm) vb)"
proof -
  let ?len = "n * PAGE_SIZE"
  have len: "unat ?len = unat n * 4096" "PAGE_ALIGN ?len = ?len"
    using n of_nat_pages [OF n] aligned_PAGE_ALIGN [of ?len] by simp_all
  note D = m(1) [unfolded do_vmspace_map_def Let_def len(2) if_not_P [OF prot(1)]]
  have d1: "?len \<noteq> 0"
  proof
    assume "?len = 0"
    from D [unfolded if_P [OF this]] m(2) show False by simp
  qed
  note D1 = D [unfolded if_not_P [OF d1]]
  have small: "\<not> (?len > USER_VMM_SIZE \<or> addr > USER_VMM_SIZE \<or> addr > USER_VMM_SIZE - ?len)"
  proof
    assume "?len > USER_VMM_SIZE \<or> addr > USER_VMM_SIZE \<or> addr > USER_VMM_SIZE - ?len"
    from D1 [unfolded if_P [OF this]] m(2) show False by simp
  qed
  note D2 = D1 [unfolded if_not_P [OF small]]
  have d5: "addr AND NOT PAGE_MASK = 0"
  proof (rule ccontr)
    assume "\<not> addr AND NOT PAGE_MASK = 0"
    with D2 m(2) fl(1) show False by simp
  qed
  obtain pg' x where "map_pages_fixed (vm_pages vm) addr pa ?len prot = Ret (x, pg')"
    "r = addr" "vm_pages vm' = pg'"
  proof (cases "map_pages_fixed (vm_pages vm) addr pa ?len prot")
    case Panic
    with D2 m(2) show ?thesis by (cases new) (simp_all add: fl prot(2) split: if_split_asm)
  next
    case (Ret a)
    with D2 m(2) that show ?thesis by (cases a; cases new) (auto simp: fl prot(2) split: if_split_asm)
  qed
  with d1 small d5 have d: "?len \<noteq> 0" "addr \<le> USER_VMM_SIZE" "addr \<le> USER_VMM_SIZE - ?len" "?len \<le> USER_VMM_SIZE"
    "addr AND NOT PAGE_MASK = 0" "map_pages_fixed (vm_pages vm) addr pa ?len prot = Ret (x, pg')"
    "r = addr" "vm_pages vm' = pg'" by auto
  have al: "addr AND PAGE_MASK = addr" using d(5) by (metis aligned_def aligned_mask aligned_unat PAGE_ADDR_MASK_eq)
  have sub: "?len \<le> USER_VMM_SIZE - addr"
    using d(2-4) by (simp add: word_le_nat_alt unat_sub)
  have "PAGE_ALIGN ?len \<noteq> 0" using d(1) len(2) by simp
  note nw = range_no_wrap [OF d(5,2) sub this, unfolded len(2)]
  have pages: "range_pages addr (addr + ?len) = unat n"
  proof -
    have "unat (drop_bit 12 ?len) = unat n" using len(1) by (simp add: drop_bit_eq_div unat_div)
    with nw(1) show ?thesis by (simp add: range_pages_def)
  qed
  have "page_attr prot AND PAGE_ADDR_MASK = 0"
    by (simp add: page_attr_def PG_US_U_def PG_US_S_def PG_RW_W_def PG_RW_R_def PAGE_ADDR_MASK_def)
  moreover have "link_range page_link (vm_pages vm) addr pa (page_attr prot) (unat n) = Ret pg'"
    using d(6) by (simp add: map_pages_fixed_def Let_def al len(2) pages prot(2) split: kret.splits)
  ultimately have L: "paging_ok pg' \<and> (\<forall>k < unat n. addr_v2p pg' (addr + of_nat k * PAGE_SIZE) =
      Ret (pa + of_nat k * PAGE_SIZE + ((addr + of_nat k * PAGE_SIZE) AND 0xfff)) \<and> mapped pg' (addr + of_nat k * PAGE_SIZE)) \<and>
    (\<forall>vb. mapped (vm_pages vm) vb \<longrightarrow> mapped pg' vb \<and> pte pg' vb = pte (vm_pages vm) vb)"
    using link_range_maps [OF pg] by blast
  have "aligned (addr + of_nat k * PAGE_SIZE)" for k
  proof -
    have "aligned (of_nat k * PAGE_SIZE)"
    proof (induction k)
      case (Suc k)
      from page_addrs [OF Suc] show ?case by (simp add: algebra_simps)
    qed (simp add: aligned_def)
    moreover have "aligned addr" using al by (simp add: aligned_def PAGE_ADDR_MASK_eq)
    ultimately show ?thesis by (intro aligned_add)
  qed
  moreover have "va AND 0xfff = 0" if "aligned va" for va
  proof -
    have "(0xfff :: u32) = NOT PAGE_ADDR_MASK" by (simp add: PAGE_ADDR_MASK_def)
    with that have "va AND 0xfff = (va AND PAGE_ADDR_MASK) AND NOT PAGE_ADDR_MASK" by (simp add: aligned_def)
    then show ?thesis by (simp add: and.assoc)
  qed
  ultimately show ?thesis using L d(5,7,8) by simp
qed

subsection \<open>Properties\<close>

text \<open>
  The sizes and the addresses in the table: blocks have less than 2048 pages, and their addresses are page
  aligned.
\<close>

definition blocks_ok :: "share_mem list \<Rightarrow> bool" where
  "blocks_ok tbl \<longleftrightarrow> (\<forall>r \<in> set tbl. unat (npages r) < 2048 \<and> aligned (page_addr r))"

lemma blocks_ok_update: "blocks_ok tbl \<Longrightarrow> unat (npages r) < 2048 \<Longrightarrow> aligned (page_addr r) \<Longrightarrow> blocks_ok (tbl[i := r])"
  by (auto simp: blocks_ok_def dest!: set_update_subset_insert [THEN subsetD])

lemma fill_pages:
  assumes "\<not> (sz > 0 \<and> PAGE_ALIGN sz \<ge> MAX_SHARE_MEM_SIZE)"
  shows "unat (npages (share_mem_fill nm sz r)) < 2048"
proof -
  let ?sz = "if sz = 0 then 1 else sz"
  have "PAGE_ALIGN ?sz < MAX_SHARE_MEM_SIZE"
    using assms by (auto simp: word_gt_0 not_le PAGE_ALIGN_def PAGE_SIZE_val PAGE_MASK_val MAX_SHARE_MEM_SIZE_def)
  then have "unat (PAGE_ALIGN ?sz) < 2048 * 4096" by (simp add: word_less_nat_alt MAX_SHARE_MEM_SIZE_def)
  then have "unat (PAGE_ALIGN ?sz) div 4096 < 2048" by (rule less_mult_imp_div_less)
  then show ?thesis by (simp add: share_mem_fill_def unat_div)
qed

lemma get_new:
  assumes "share_mem_get tbl (Some nm) sz flags = (r, tbl')" "tbl' \<noteq> tbl"
  obtains i where "find_slot (\<lambda>r. \<not> named (shname r)) tbl = Some i" "tbl' = tbl[i := share_mem_fill nm sz (tbl ! i)]"
    "flags AND IPC_CREAT \<noteq> 0" "sz = 0 \<or> PAGE_ALIGN sz < MAX_SHARE_MEM_SIZE"
    "unat (npages (share_mem_fill nm sz (tbl ! i))) < 2048"
proof -
  from assms obtain i where "find_slot (\<lambda>r. \<not> named (shname r)) tbl = Some i" "tbl' = tbl[i := share_mem_fill nm sz (tbl ! i)]"
    and g: "flags AND IPC_CREAT \<noteq> 0" "\<not> (sz > 0 \<and> PAGE_ALIGN sz \<ge> MAX_SHARE_MEM_SIZE)"
    by (auto simp: share_mem_get_def share_mem_alloc_def split: if_split_asm option.splits)
  with that fill_pages [OF g(2)] show ?thesis by (auto simp: not_le word_gt_0)
qed

lemma share_mem_get_blocks:
  assumes "blocks_ok tbl" "share_mem_get tbl name sz flags = (r, tbl')"
  shows "blocks_ok tbl'"
proof (cases "tbl' = tbl")
  case False
  then obtain nm where "name = Some nm" using assms(2) by (cases name) (auto simp: share_mem_get_def)
  with assms(2) False obtain i where "tbl' = tbl[i := share_mem_fill nm sz (tbl ! i)]"
    "unat (npages (share_mem_fill nm sz (tbl ! i))) < 2048" by (auto elim: get_new)
  then show ?thesis by (auto intro!: blocks_ok_update [OF assms(1)] simp: share_mem_fill_def aligned_def)
qed (use assms in simp)

text \<open>
  The block \<open>map_chosen\<close> uses: what the slot has, or what \<open>alloc_pages\<close> gives. The allocator can return
  pages that are in use (\<open>alloc_pages_overlap\<close>); \<open>sound_block\<close> says that it does not here.
\<close>

definition sound_block :: "paging \<Rightarrow> share_mem \<Rightarrow> bool" where
  "sound_block m r \<longleftrightarrow> (page_addr r = 0 \<longrightarrow>
     (case alloc_pages (phys m) (npages r) of Panic \<Rightarrow> False | Ret (pa, pm) \<Rightarrow> pmem_ok pm))"

lemma block_pages:
  assumes ok: "paging_ok m" "sound_block m r" "aligned (page_addr r)"
    and b: "(if page_addr r = 0 then alloc_pages (phys m) (npages r) else Ret (page_addr r, phys m)) = Ret (pa, pm)" "pa \<noteq> 0"
  shows "paging_ok (m\<lparr>phys := pm\<rparr>)" "aligned pa" "page_addr r \<noteq> 0 \<longrightarrow> pa = page_addr r"
proof -
  have "paging_ok (m\<lparr>phys := pm\<rparr>) \<and> aligned pa"
  proof (cases "page_addr r = 0")
    case True
    with b(1) have al: "alloc_pages (phys m) (npages r) = Ret (pa, pm)" by simp
    with ok(2) True have pm: "pmem_ok pm" by (simp add: sound_block_def)
    have m: "pmem_ok (phys m)" using ok(1) by (simp add: paging_ok_def)
    obtain i where i: "pa = mem_node2page (phys m) i" "i < mem_node_count (phys m)"
      "pm = set_node (phys m) i \<lparr>nd_count = npages r, nd_flags = 0, nd_reference = 1, nd_cache = None, nd_group = None\<rparr>"
      by (rule alloc_pages_cases [OF m al [unfolded alloc_pages_def]]) (use b(2) in auto)
    have "aligned pa" using aligned_page ok(1) i(1) by (simp add: paging_ok_def)
    moreover have "page2mem_node pm x = page2mem_node (phys m) x" for x by (simp add: page2mem_node_def i(3))
    ultimately show ?thesis using ok(1) pm i(2) by (auto simp: paging_ok_def i(3))
  next
    case False
    with b have "pm = phys m" "pa = page_addr r" by auto
    with ok show ?thesis by simp
  qed
  then show "paging_ok (m\<lparr>phys := pm\<rparr>)" "aligned pa" by blast+
  show "page_addr r \<noteq> 0 \<longrightarrow> pa = page_addr r" using b by auto
qed


definition demo_shm_vm :: vmm where
  "demo_shm_vm = \<lparr>vm_spaces = [], vm_freed = [], heap_start = 0, heap_end = 0, map_start = 0x60000000,
     map_end = 0x70000000, vm_pages = example_paging\<rparr>"

definition demo_shm :: "share_mem list" where
  "demo_shm = snd (share_mem_get init_share_mem (Some demo_name) 4000 IPC_CREAT)"

lemma demo_shm_ok: "shm_table_ok demo_shm" "blocks_ok demo_shm"
proof -
  have fits: "fits demo_name" by (auto simp: fits_def demo_name_def)
  have "get_result shname shid False init_share_mem demo_name (share_mem_get init_share_mem (Some demo_name) 4000 IPC_CREAT)"
    using share_mem_get_map [OF init_share_mem_ok(1) fits, of IPC_CREAT 4000]
    by (simp add: IPC_CREAT_def IPC_EXCL_def PAGE_ALIGN_def PAGE_SIZE_val PAGE_MASK_val MAX_SHARE_MEM_SIZE_def)
  then show "shm_table_ok demo_shm"
    using init_share_mem_ok(1) unfolding demo_shm_def get_result_def init_share_mem_ok(2) by (auto split: if_splits)
  have "blocks_ok init_share_mem" by (auto simp: blocks_ok_def init_share_mem_def aligned_def)
  then show "blocks_ok demo_shm"
    unfolding demo_shm_def by (metis share_mem_get_blocks prod.collapse)
qed

lemma demo_shm_view: "map (\<lambda>r. (shid r, npages r, page_addr r, links r)) demo_shm =
    (1, 1, 0, 0) # map (\<lambda>i. (1 + int i * 3, 0, 0, 0)) [1..<128]"
  by code_simp

lemma demo_shm_slot:
  assumes "r \<in> set demo_shm" "shid r = 1"
  shows "npages r = 1 \<and> page_addr r = 0 \<and> links r = 0"
proof -
  have "(shid r, npages r, page_addr r, links r) \<in> set (map (\<lambda>r. (shid r, npages r, page_addr r, links r)) demo_shm)"
    using assms(1) by auto
  then show ?thesis using assms(2) unfolding demo_shm_view by auto
qed

lemma demo_sound:
  assumes "npages r = 1"
  shows "sound_block example_paging r"
proof -
  obtain pm where pm: "alloc_pages example_pmem 1 = Ret (0x1000000, pm)" using example_alloc(1) [of 1] by auto
  have "pmem_ok pm"
    by (rule alloc_pages_cases [OF example_pmem_ok pm [unfolded alloc_pages_def]])
      (auto simp: new_block_ok [OF example_pmem_ok])
  with pm assms show ?thesis by (simp add: sound_block_def example_paging_def)
qed


text \<open>Each operation on a block that is in use or that is not there.\<close>

lemma share_mem_put_in_use:
  assumes "share_mem_find_by_id tbl shmid = Some i" "0 < links (tbl ! i)"
  shows "share_mem_put tbl m shmid = (0, tbl, m)"
  using assms by (simp add: share_mem_put_def)

lemma share_mem_unmap_foreign:
  assumes "shmaddr \<noteq> 0" "vmspace_find vm (rounded shmaddr flg) = Some sp"
    "addr_v2p (vm_pages vm) (rounded shmaddr flg) = Ret pa" "share_mem_find_by_addr tbl pa = None"
  shows "share_mem_unmap tbl vm new shmaddr flg = Panic"
  using assms by (simp add: share_mem_unmap_def)

text \<open>Each fork counts every shared mapping it copies.\<close>

definition slot_of :: "share_mem list \<Rightarrow> paging \<Rightarrow> vmspace \<Rightarrow> nat option" where
  "slot_of tbl m s = (if sp_flags s AND VMS_MAP_SHARED = 0 then None else
     case addr_v2p m (sp_start s) of Panic \<Rightarrow> None | Ret pa \<Rightarrow> share_mem_find_by_addr tbl pa)"

lemma find_slot_from_map: "find_slot_from P i tbl = find_slot_from id i (map P tbl)"
  by (induction tbl arbitrary: i) auto

lemma find_slot_update: "i < length tbl \<Longrightarrow> P r = P (tbl ! i) \<Longrightarrow> find_slot P (tbl[i := r]) = find_slot P tbl"
  by (simp add: find_slot_from_map [of P] map_update) (metis list_update_id nth_map)

lemma table_ok_same:
  assumes ok: "shm_table_ok tbl" and same: "map shid t = map shid tbl" "map shname t = map shname tbl"
  shows "shm_table_ok t"
proof -
  note D = table_okD [OF ok]
  have len: "length t = length tbl" using same(1) by (metis length_map)
  have eq: "shid (t ! j) = shid (tbl ! j)" "shname (t ! j) = shname (tbl ! j)" if "j < length t" for j
    using that len same by (metis nth_map)+
  show ?thesis
  proof (rule table_okI)
    fix u v assume "u < length t" "v < length t" "named (shname (t ! u))" "named (shname (t ! v))"
      "str_of (shname (t ! u)) = str_of (shname (t ! v))"
    then show "u = v" using D(5) [of u v] eq len by simp
  qed (use D(1-4) eq len in auto)
qed

lemma count_link:
  assumes "shm_table_ok tbl" "i < length tbl"
  shows "shm_table_ok (tbl[i := (tbl ! i)\<lparr>links := l\<rparr>])"
    "share_mem_find_by_addr (tbl[i := (tbl ! i)\<lparr>links := l\<rparr>]) a = share_mem_find_by_addr tbl a"
proof -
  show "shm_table_ok (tbl[i := (tbl ! i)\<lparr>links := l\<rparr>])"
    by (rule table_ok_same [OF assms(1)]) (simp_all add: map_update list_update_same_conv assms(2))
  show "share_mem_find_by_addr (tbl[i := (tbl ! i)\<lparr>links := l\<rparr>]) a = share_mem_find_by_addr tbl a"
    unfolding share_mem_find_by_addr_def using assms(2) by (intro find_slot_update) simp_all
qed

lemma grow_slot:
  assumes "shm_table_ok tbl" "share_mem_find_by_addr tbl a = Some i"
  shows "i < length tbl" "share_mem_grow tbl (shid (tbl ! i)) = (0, tbl[i := (tbl ! i)\<lparr>links := links (tbl ! i) + 1\<rparr>])"
proof -
  show i: "i < length tbl" using assms(2) by (simp add: share_mem_find_by_addr_def find_slot_Some)
  have "named (shname (tbl ! i))" using assms(2) by (simp add: share_mem_find_by_addr_def find_slot_Some)
  with shm_table.by_id [OF assms(1), of "shid (tbl ! i)" i] i show
    "share_mem_grow tbl (shid (tbl ! i)) = (0, tbl[i := (tbl ! i)\<lparr>links := links (tbl ! i) + 1\<rparr>])"
    by (simp add: share_mem_grow_def share_mem_find_by_id_def)
qed

text \<open>
  The list of spaces of a forked process is a copy of the parent's, node by node with nodes of its
  own, and every block of shared memory counts exactly the shared spaces that were copied from it.
\<close>

theorem fork_counts_shared:
  assumes "shm_table_ok tbl" "copy_vm_vmspace tbl m ps new = Ret (0, ss, tbl')"
  shows "map (sp_id_update (\<lambda>_. 0)) ss = map (sp_id_update (\<lambda>_. 0)) ps \<and>
    map (Some \<circ> sp_id) ss = take (length ps) new \<and> shm_table_ok tbl' \<and> length tbl' = length tbl \<and>
    (\<forall>i < length tbl. tbl' ! i =
       (tbl ! i)\<lparr>links := links (tbl ! i) + int (length (filter (\<lambda>s. slot_of tbl m s = Some i) ps))\<rparr>)"
  using assms
proof (induction tbl m ps new arbitrary: ss tbl' rule: copy_vm_vmspace.induct)
  case (4 tbl m p ps k new)
  let ?copy = "if sp_flags p AND VMS_MAP_SHARED \<noteq> 0 then copy_share_mem tbl m (p\<lparr>sp_id := k\<rparr>) else Ret (0, tbl)"
  from "4.prems"(2) obtain r t1 where c: "?copy = Ret (r, t1)" "\<not> r < 0"
    by (cases ?copy) (auto simp: Let_def split: if_split_asm)
  with "4.prems"(2) obtain ss1 where rest: "copy_vm_vmspace t1 m ps new = Ret (0, ss1, tbl')" "ss = p\<lparr>sp_id := k\<rparr> # ss1"
    by (auto simp: Let_def split: kret.splits if_split_asm)
  have t1: "shm_table_ok t1" "length t1 = length tbl" "\<And>s. slot_of t1 m s = slot_of tbl m s"
    "\<And>i. i < length tbl \<Longrightarrow> t1 ! i = (tbl ! i)\<lparr>links := links (tbl ! i) + (if slot_of tbl m p = Some i then 1 else 0)\<rparr>"
  proof -
    have "shm_table_ok t1 \<and> length t1 = length tbl \<and> (\<forall>s. slot_of t1 m s = slot_of tbl m s) \<and>
      (\<forall>i < length tbl. t1 ! i = (tbl ! i)\<lparr>links := links (tbl ! i) + (if slot_of tbl m p = Some i then 1 else 0)\<rparr>)"
    proof (cases "slot_of tbl m p")
      case None
      with c(1) have "t1 = tbl" by (auto simp: slot_of_def copy_share_mem_def split: if_split_asm kret.splits option.splits)
      with None "4.prems"(1) show ?thesis by simp
    next
      case (Some i)
      then obtain pa where pa: "sp_flags p AND VMS_MAP_SHARED \<noteq> 0" "addr_v2p m (sp_start p) = Ret pa"
        "share_mem_find_by_addr tbl pa = Some i" by (auto simp: slot_of_def split: if_split_asm kret.splits)
      note g = grow_slot [OF "4.prems"(1) pa(3)]
      have eq: "t1 = tbl[i := (tbl ! i)\<lparr>links := links (tbl ! i) + 1\<rparr>]"
        using c(1) pa g(2) by (simp add: copy_share_mem_def)
      have "slot_of t1 m s = slot_of tbl m s" for s
        unfolding slot_of_def eq by (simp add: count_link(2) [OF "4.prems"(1) g(1)] cong: kret.case_cong)
      moreover have "t1 ! j = (tbl ! j)\<lparr>links := links (tbl ! j) + (if i = j then 1 else 0)\<rparr>" if "j < length tbl" for j
        using that by (simp add: eq nth_list_update)
      ultimately show ?thesis using count_link(1) [OF "4.prems"(1) g(1)] Some by (simp add: eq)
    qed
    then show "shm_table_ok t1" "length t1 = length tbl" "\<And>s. slot_of t1 m s = slot_of tbl m s"
      "\<And>i. i < length tbl \<Longrightarrow> t1 ! i = (tbl ! i)\<lparr>links := links (tbl ! i) + (if slot_of tbl m p = Some i then 1 else 0)\<rparr>"
      by blast+
  qed
  have "(if sp_flags (p\<lparr>sp_id := k\<rparr>) AND VMS_MAP_SHARED \<noteq> 0 then copy_share_mem tbl m (p\<lparr>sp_id := k\<rparr>) else Ret (0, tbl)) = Ret (r, t1)"
    using c(1) by simp
  note IH = "4.IH" [OF refl this refl c(2) t1(1) rest(1)]
  then show ?case using t1(2-4) rest(2) by (auto simp: add.assoc)
qed auto

definition demo_parent :: "vmspace list" where
  "demo_parent = [\<lparr>sp_id = 7, sp_start = 0x40000000, sp_end = 0x40001000, page_prot = PROT_USER, sp_flags = VMS_MAP_SHARED\<rparr>,
     \<lparr>sp_id = 8, sp_start = 0x40001000, sp_end = 0x40002000, page_prot = PROT_USER, sp_flags = 0\<rparr>]"

definition demo_used :: "share_mem list" where
  "demo_used = demo_shm[0 := (demo_shm ! 0)\<lparr>page_addr := 0x2000000, links := 1\<rparr>]"

theorem fork_counts_shared_witness:
  "\<exists>ss tbl. copy_vm_vmspace demo_used example_user demo_parent [Some 1, Some 2] = Ret (0, ss, tbl) \<and>
     map sp_id ss = [1, 2] \<and> links (tbl ! 0) = 2"
proof -
  have len: "0 < length demo_shm" by code_simp
  have ok: "shm_table_ok demo_used"
    unfolding demo_used_def
    by (rule table_ok_same [OF demo_shm_ok(1)]) (use len in \<open>simp_all add: map_update list_update_same_conv del: length_0_conv\<close>)
  have "case copy_vm_vmspace demo_used example_user demo_parent [Some 1, Some 2] of Ret (r, _) \<Rightarrow> r = 0 | Panic \<Rightarrow> False"
    by code_simp
  then obtain ss tbl where r: "copy_vm_vmspace demo_used example_user demo_parent [Some 1, Some 2] = Ret (0, ss, tbl)"
    by (auto split: kret.splits)
  note F = fork_counts_shared [OF ok r]
  have "map Some (map sp_id ss) = map Some [1, 2]" using F by (simp add: demo_parent_def)
  then have "map sp_id ss = [1, 2]" by (metis list.inj_map_strong option.inject)
  moreover have "length (filter (\<lambda>s. slot_of demo_used example_user s = Some 0) demo_parent) = 1" by code_simp
  then have "links (tbl ! 0) = 2"
    using F len by (auto simp: demo_used_def)
  ultimately show ?thesis using r by (intro exI [of _ ss] exI [of _ tbl]) simp
qed

subsection \<open>The table as processes use it\<close>

text \<open>What the operations do to the table, by any process and with any outcome.\<close>

inductive shm_step :: "share_mem list \<Rightarrow> share_mem list \<Rightarrow> bool" where
  get: "fits nm \<Longrightarrow> share_mem_get tbl (Some nm) sz flags = (r, tbl') \<Longrightarrow> shm_step tbl tbl'"
| map: "share_mem_map tbl vm new shmid addr flg = Ret (a, tbl', vm') \<Longrightarrow> shm_step tbl tbl'"
| unmap: "share_mem_unmap tbl vm new addr flg = Ret (v, tbl', vm') \<Longrightarrow> shm_step tbl tbl'"
| put: "share_mem_put tbl m shmid = (r, tbl', m') \<Longrightarrow> shm_step tbl tbl'"
| fork: "copy_vm_vmspace tbl m ps kmalloc = Ret (v, ss, tbl') \<Longrightarrow> shm_step tbl tbl'"

text \<open>Two tables with the same blocks, some of which may have got their pages in between.\<close>

definition same_block :: "share_mem \<Rightarrow> share_mem \<Rightarrow> bool" where
  "same_block r r' \<longleftrightarrow> shid r' = shid r \<and> shname r' = shname r \<and> npages r' = npages r \<and>
     (page_addr r \<noteq> 0 \<longrightarrow> page_addr r' = page_addr r)"

abbreviation same_blocks :: "share_mem list \<Rightarrow> share_mem list \<Rightarrow> bool" where
  "same_blocks \<equiv> list_all2 same_block"

lemma same_block_refl [simp]: "same_block r r"
  by (simp add: same_block_def)

lemma same_blocks_refl [simp]: "same_blocks tbl tbl"
  by (simp add: list_all2_refl)

lemma same_blocks_trans: "same_blocks t u \<Longrightarrow> same_blocks u v \<Longrightarrow> same_blocks t v"
  by (rule list_all2_trans [of same_block same_block same_block]) (auto simp: same_block_def)

lemma same_blocks_update: "same_blocks tbl t \<Longrightarrow> (i < length t \<Longrightarrow> same_block (tbl ! i) r) \<Longrightarrow> same_blocks tbl (t[i := r])"
  by (cases "i < length t") (auto simp: list_all2_conv_all_nth nth_list_update)

lemma same_blocks_link: "same_blocks tbl t \<Longrightarrow> same_blocks tbl (add_link t i a)"
  by (cases "i < length t") (auto simp: add_link_def list_all2_conv_all_nth nth_list_update same_block_def)

lemma map_given_blocks: "map_given tbl vm i va = Ret (a, tbl', vm') \<Longrightarrow> same_blocks tbl tbl'"
  by (auto simp: map_given_def Let_def same_block_def intro!: same_blocks_link same_blocks_update split: kret.splits if_split_asm)

lemma map_chosen_blocks:
  assumes "map_chosen tbl vm new i flg = Ret (a, tbl', vm')"
  shows "same_blocks tbl tbl'"
proof -
  let ?pm = "if page_addr (tbl ! i) = 0 then alloc_pages (phys (vm_pages vm)) (npages (tbl ! i))
    else Ret (page_addr (tbl ! i), phys (vm_pages vm))"
  have "same_block (tbl ! i) ((tbl ! i)\<lparr>page_addr := pa\<rparr>)" if "?pm = Ret (pa, pm)" for pa pm
    using that by (auto simp: same_block_def)
  then have "same_blocks tbl (tbl[i := (tbl ! i)\<lparr>page_addr := pa\<rparr>])" if "?pm = Ret (pa, pm)" for pa pm
    using that by (intro same_blocks_update) simp_all
  with assms show ?thesis
    by (cases ?pm) (auto simp: map_chosen_def Let_def intro!: same_blocks_link split: kret.splits if_split_asm)
qed

lemma unmap_blocks: "share_mem_unmap tbl vm new addr flg = Ret (v, tbl', vm') \<Longrightarrow> same_blocks tbl tbl'"
  by (auto simp: share_mem_unmap_def same_block_def intro!: same_blocks_update
      split: if_split_asm option.splits kret.splits prod.splits)

lemma copy_blocks: "copy_vm_vmspace tbl m ps new = Ret (v, ss, tbl') \<Longrightarrow> same_blocks tbl tbl'"
proof (induction tbl m ps new arbitrary: v ss tbl' rule: copy_vm_vmspace.induct)
  case (4 tbl m p ps k new)
  let ?copy = "if sp_flags p AND VMS_MAP_SHARED \<noteq> 0 then copy_share_mem tbl m (p\<lparr>sp_id := k\<rparr>) else Ret (0, tbl)"
  obtain r t1 where c: "?copy = Ret (r, t1)" using "4.prems" by (cases ?copy) (auto simp: Let_def)
  then have one: "same_blocks tbl t1"
    by (auto simp: copy_share_mem_def share_mem_grow_def same_block_def intro!: same_blocks_update
        split: if_split_asm kret.splits option.splits)
  show ?case
  proof (cases "r < 0")
    case True
    with c one "4.prems" show ?thesis by (auto simp: Let_def)
  next
    case False
    with c "4.prems" obtain ss1 where rest: "copy_vm_vmspace t1 m ps new = Ret (v, ss1, tbl')"
      by (auto simp: Let_def split: kret.splits)
    have "(if sp_flags (p\<lparr>sp_id := k\<rparr>) AND VMS_MAP_SHARED \<noteq> 0 then copy_share_mem tbl m (p\<lparr>sp_id := k\<rparr>) else Ret (0, tbl)) = Ret (r, t1)"
      using c by simp
    from "4.IH" [OF refl this refl False rest] one show ?thesis by (blast intro: same_blocks_trans)
  qed
qed auto

lemma same_blocks_ok:
  assumes "same_blocks tbl t" "shm_table_ok tbl"
  shows "shm_table_ok t"
proof -
  have "map shid t = map shid tbl" "map shname t = map shname tbl"
    using assms(1) by (auto simp: list_all2_conv_all_nth same_block_def intro: nth_equalityI)
  then show ?thesis by (rule table_ok_same [OF assms(2)])
qed

text \<open>A step changes no block that somebody maps, except that it may give it its pages.\<close>

lemma shm_step_slots:
  assumes "shm_step tbl tbl'" "shm_table_ok tbl"
  shows "shm_table_ok tbl'"
    "\<forall>i < length tbl. same_block (tbl ! i) (tbl' ! i) \<or> (npages (tbl' ! i) = npages (tbl ! i) \<or> unat (npages (tbl' ! i)) < 2048) \<and>
       (named (shname (tbl ! i)) \<longrightarrow> links (tbl ! i) \<le> 0)"
  using assms
proof (atomize (full), induction rule: shm_step.induct)
  case (get nm tbl sz flags r tbl')
  show ?case
  proof (cases "tbl' = tbl")
    case False
    obtain i where i: "find_slot (\<lambda>r. \<not> named (shname r)) tbl = Some i" "tbl' = tbl[i := share_mem_fill nm sz (tbl ! i)]"
      and g: "flags AND IPC_CREAT \<noteq> 0" "sz = 0 \<or> PAGE_ALIGN sz < MAX_SHARE_MEM_SIZE"
        "unat (npages (share_mem_fill nm sz (tbl ! i))) < 2048" by (rule get_new [OF get(2) False])
    from share_mem_get_map [OF get(3,1) g(1,2)] get(2,3) have ok: "shm_table_ok tbl'"
      by (auto simp: get_result_def split: option.splits if_split_asm)
    from i(1) have "i < length tbl" "\<not> named (shname (tbl ! i))" by (simp_all add: find_slot_Some)
    with ok i(2) g(3) show ?thesis by (auto simp: nth_list_update)
  qed (use get in simp)
next
  case (map tbl vm new shmid addr flg a tbl' vm')
  then have "same_blocks tbl tbl'"
    by (auto simp: share_mem_map_def dest: map_given_blocks map_chosen_blocks split: option.splits if_split_asm)
  with same_blocks_ok [OF this map(2)] show ?case by (auto simp: list_all2_conv_all_nth dest: same_blocks_ok)
next
  case unmap
  with unmap_blocks [OF unmap(1)] same_blocks_ok [OF unmap_blocks [OF unmap(1)] unmap(2)] show ?case by (auto simp: list_all2_conv_all_nth dest: same_blocks_ok)
next
  case (put tbl m shmid r tbl' m')
  show ?case
  proof (cases "tbl' = tbl")
    case False
    with put(1) obtain i where i: "share_mem_find_by_id tbl shmid = Some i" "links (tbl ! i) \<le> 0"
      and t: "tbl' = tbl[i := shm_clear (tbl ! i)]"
      by (auto simp: share_mem_put_def share_mem_free_def split: option.splits if_split_asm prod.splits)
    then have "i < length tbl" by (simp add: share_mem_find_by_id_def find_slot_Some)
    with t i(2) shm_table.remove_slot(1) [OF put(2)] show ?thesis by (auto simp: nth_list_update shm_clear_def)
  qed (use put in simp)
next
  case fork
  with copy_blocks [OF fork(1)] same_blocks_ok [OF copy_blocks [OF fork(1)] fork(2)] show ?case by (auto simp: list_all2_conv_all_nth dest: same_blocks_ok)
qed



text \<open>
  An address the caller chose without \<open>IPC_RND\<close> is not rounded: a new block takes the physical address
  with its offset in the page, which later mappings put into page table entries. A block that has pages is
  not mapped there at all, the call just returns the address.
\<close>

lemma map_given_unaligned:
  assumes "i < length tbl" "page_addr (tbl ! i) = 0" "addr_v2p (vm_pages vm) va = Ret pa" "pa \<noteq> 0" "va \<noteq> -1"
  shows "\<exists>tbl'. map_given tbl vm i va = Ret (va, tbl', vm) \<and> page_addr (tbl' ! i) = pa \<and> pa AND 0xfff = va AND 0xfff"
proof -
  have "pa AND 0xfff = va AND 0xfff"
  proof -
    have "pa = (pte (vm_pages vm) va AND 0xfffff000) + (va AND 0xfff)" using assms(3) by (simp add: addr_v2p_def split: if_split_asm)
    also have "\<dots> = (pte (vm_pages vm) va AND 0xfffff000) OR (va AND 0xfff)"
      by (rule disjunctive_add_eq_or) (simp add: and.assoc and.left_commute [of _ _ "0xfff"])
    finally show ?thesis by (simp add: bit.conj_disj_distrib2 and.assoc)
  qed
  with assms show ?thesis by (simp add: map_given_def Let_def add_link_def)
qed

lemma map_given_nothing:
  assumes "page_addr (tbl ! i) \<noteq> 0"
  shows "map_given tbl vm i va = Ret (va, add_link tbl i va, vm)"
  using assms by (simp add: map_given_def)

end
