(* ===== verification/MsgPool.thy ===== *)
theory MsgPool
  imports Sync
begin

section \<open>Message pools\<close>

text \<open>
  \<open>src/src/lib/msgpool.c\<close>: a ring of messages of one size with a mutex and one list of waiting tasks. The
  graphics system has one pool for itself and one for each program that shows windows
  (\<open>src/src/gui/message.c\<close>). \<open>head\<close> and \<open>tail\<close> are offsets into the buffer. A push or a pop runs under the mutex;
  where it sleeps, after \<open>wait_queue_add\<close> and the unlock, it is cut into the section before the sleep and the
  section after it, which does not look at the counter again. As for the message queues no clock tick falls
  between \<open>wait_queue_add\<close> and \<open>task_block\<close>. \<open>None\<close> is a copy beyond the end of the buffer or what \<open>None\<close> is for
  the scheduler.
\<close>

record msgpool =
  mp_sz :: u32
  mp_count :: u32
  mp_max :: u32
  mp_head :: u32
  mp_tail :: u32
  mp_buf :: "u8 list"
  mp_waiters :: "tid list"

text \<open>The two flags are the outcomes of \<open>kmalloc\<close>.\<close>

definition msgpool_create :: "u32 \<Rightarrow> u32 \<Rightarrow> bool \<Rightarrow> bool \<Rightarrow> msgpool option" where
  "msgpool_create sz cnt pool_ok buf_ok =
     (if sz = 0 \<or> cnt = 0 then None else if \<not> pool_ok then None else if \<not> buf_ok then None
      else Some \<lparr>mp_sz = sz, mp_count = 0, mp_max = cnt, mp_head = 0, mp_tail = 0,
        mp_buf = replicate (unat (cnt * sz)) 0, mp_waiters = []\<rparr>)"

definition msgpool_empty :: "msgpool \<Rightarrow> bool" where
  "msgpool_empty p \<longleftrightarrow> mp_count p \<le> 0"

definition msgpool_full :: "msgpool \<Rightarrow> bool" where
  "msgpool_full p \<longleftrightarrow> mp_count p \<ge> mp_max p"

definition msgpool_count :: "msgpool \<Rightarrow> int" where
  "msgpool_count p = sint (mp_count p)"

text \<open>\<open>head\<close> or \<open>tail\<close> behind a message: the next message, or the first one at the end of the buffer.\<close>

definition mp_next :: "msgpool \<Rightarrow> u32 \<Rightarrow> u32" where
  "mp_next p a = (if a + mp_sz p \<ge> mp_max p * mp_sz p then 0 else a + mp_sz p)"

definition mp_store :: "msgpool \<Rightarrow> mem \<Rightarrow> msgpool option" where
  "mp_store p buf =
     (if unat (mp_head p) + unat (mp_sz p) > length (mp_buf p) then None
      else Some (p\<lparr>mp_buf := take (unat (mp_head p)) (mp_buf p) @ bytes buf (unat (mp_sz p)) @
                     drop (unat (mp_head p) + unat (mp_sz p)) (mp_buf p),
                   mp_head := mp_next p (mp_head p), mp_count := mp_count p + 1\<rparr>))"

definition mp_load :: "msgpool \<Rightarrow> (u8 list \<times> msgpool) option" where
  "mp_load p =
     (if unat (mp_tail p) + unat (mp_sz p) > length (mp_buf p) then None
      else Some (take (unat (mp_sz p)) (drop (unat (mp_tail p)) (mp_buf p)),
                 p\<lparr>mp_tail := mp_next p (mp_tail p), mp_count := mp_count p - 1\<rparr>))"

definition mp_wake :: "sched \<Rightarrow> msgpool \<Rightarrow> (sched \<times> msgpool) option" where
  "mp_wake s p = (if length (mp_waiters p) > 0
     then map_option (\<lambda>(s, l). (s, p\<lparr>mp_waiters := l\<rparr>)) (wait_queue_wakeup s (mp_waiters p)) else Some (s, p))"

text \<open>The sections of a push and of a pop.\<close>

definition mp_sleep :: "sched \<Rightarrow> msgpool \<Rightarrow> (sched \<times> msgpool) option" where
  "mp_sleep s p = (case wait_queue_add (mp_waiters p) (cur s) of None \<Rightarrow> None
     | Some l \<Rightarrow> map_option (\<lambda>s. (s, p\<lparr>mp_waiters := l\<rparr>)) (task_block s TASK_BLOCKED))"

definition push_section :: "sched \<Rightarrow> msgpool \<Rightarrow> mem \<Rightarrow> (sched \<times> msgpool) option" where
  "push_section s p buf = Option.bind (mp_store p buf) (mp_wake s)"

definition pop_section :: "sched \<Rightarrow> msgpool \<Rightarrow> (u8 list \<times> sched \<times> msgpool) option" where
  "pop_section s p = Option.bind (mp_load p) (\<lambda>(d, p). map_option (\<lambda>sp. (d, sp)) (mp_wake s p))"

definition msgpool_try_push :: "sched \<Rightarrow> msgpool \<Rightarrow> mem \<Rightarrow> (int \<times> sched \<times> msgpool) option" where
  "msgpool_try_push s p buf = (if msgpool_full p then Some (-1, s, p) else map_option (Pair 0) (push_section s p buf))"

definition msgpool_try_pop :: "sched \<Rightarrow> msgpool \<Rightarrow> ((int \<times> u8 list) \<times> sched \<times> msgpool) option" where
  "msgpool_try_pop s p = (if msgpool_empty p then Some ((-1, []), s, p)
     else map_option (\<lambda>(d, sp). ((0, d), sp)) (pop_section s p))"

text \<open>\<open>msgpool_push\<close> and \<open>msgpool_pop\<close>: asleep, or done.\<close>

datatype 'a mp_flow = MpSleeps | MpDone 'a

definition msgpool_push :: "sched \<Rightarrow> msgpool \<Rightarrow> mem \<Rightarrow> (unit mp_flow \<times> sched \<times> msgpool) option" where
  "msgpool_push s p buf = (if msgpool_full p then map_option (Pair MpSleeps) (mp_sleep s p)
     else map_option (Pair (MpDone ())) (push_section s p buf))"

definition msgpool_pop :: "sched \<Rightarrow> msgpool \<Rightarrow> (u8 list mp_flow \<times> sched \<times> msgpool) option" where
  "msgpool_pop s p = (if msgpool_empty p then map_option (Pair MpSleeps) (mp_sleep s p)
     else map_option (\<lambda>(d, sp). (MpDone d, sp)) (pop_section s p))"

text \<open>\<open>msgpool_destroy\<close> returns whether the pool is gone; its waiters are awake in any case.\<close>

definition msgpool_destroy :: "sched \<Rightarrow> msgpool \<Rightarrow> (int \<times> sched \<times> msgpool option) option" where
  "msgpool_destroy s p =
     (case (if length (mp_waiters p) > 0 then wait_queue_wakeup_all s (mp_waiters p) else Some (s, mp_waiters p)) of
        None \<Rightarrow> None
      | Some (s, l) \<Rightarrow> let p = p\<lparr>mp_waiters := l\<rparr>
          in Some (if msgpool_empty p \<and> length l \<le> 0 then (0, s, None) else (-1, s, Some p)))"

subsection \<open>The pool as a queue of messages\<close>

definition mp_slot :: "msgpool \<Rightarrow> nat \<Rightarrow> u8 list" where
  "mp_slot p i = take (unat (mp_sz p)) (drop (i * unat (mp_sz p)) (mp_buf p))"

definition mp_first :: "msgpool \<Rightarrow> nat" where
  "mp_first p = unat (mp_tail p) div unat (mp_sz p)"

text \<open>The messages in the pool, the oldest first.\<close>

definition mp_msgs :: "msgpool \<Rightarrow> u8 list list" where
  "mp_msgs p = map (\<lambda>i. mp_slot p ((mp_first p + i) mod unat (mp_max p))) [0..<unat (mp_count p)]"

definition pool_ok :: "msgpool \<Rightarrow> bool" where
  "pool_ok p \<longleftrightarrow> 0 < unat (mp_sz p) \<and> 0 < unat (mp_max p) \<and> unat (mp_max p) * unat (mp_sz p) < 2 ^ 32 \<and>
     length (mp_buf p) = unat (mp_max p) * unat (mp_sz p) \<and> mp_count p \<le> mp_max p \<and>
     unat (mp_tail p) = mp_first p * unat (mp_sz p) \<and> mp_first p < unat (mp_max p) \<and>
     unat (mp_head p) = (mp_first p + unat (mp_count p)) mod unat (mp_max p) * unat (mp_sz p)"

lemma pool_okD:
  assumes "pool_ok p"
  shows "0 < unat (mp_sz p)" "0 < unat (mp_max p)" "unat (mp_max p) * unat (mp_sz p) < 2 ^ 32"
    "length (mp_buf p) = unat (mp_max p) * unat (mp_sz p)" "unat (mp_count p) \<le> unat (mp_max p)"
    "unat (mp_tail p) = mp_first p * unat (mp_sz p)" "mp_first p < unat (mp_max p)"
    "unat (mp_head p) = (mp_first p + unat (mp_count p)) mod unat (mp_max p) * unat (mp_sz p)"
  using assms unfolding pool_ok_def word_le_nat_alt by blast+

lemma slot_end: "i < n \<Longrightarrow> i * z + z \<le> n * z" for i n z :: nat
  by (metis Suc_leI add.commute mult_Suc mult_le_mono1)

lemma mp_next_slot:
  assumes "pool_ok p" "unat a = i * unat (mp_sz p)" "i < unat (mp_max p)"
  shows "unat (mp_next p a) = Suc i mod unat (mp_max p) * unat (mp_sz p)"
proof -
  note D = pool_okD [OF assms(1)]
  let ?z = "unat (mp_sz p)" and ?n = "unat (mp_max p)"
  have le: "i * ?z + ?z \<le> ?n * ?z" by (rule slot_end [OF assms(3)])
  have sum: "unat (a + mp_sz p) = i * ?z + ?z" using le D(3) assms(2) by (simp add: unat_word_ariths)
  have prod: "unat (mp_max p * mp_sz p) = ?n * ?z" using D(3) by (simp add: unat_word_ariths)
  show ?thesis
  proof (cases "Suc i = ?n")
    case True
    then have "mp_max p * mp_sz p \<le> a + mp_sz p" using sum prod by (simp add: word_le_nat_alt flip: True)
    with True show ?thesis by (simp add: mp_next_def)
  next
    case False
    then have "Suc i < ?n" using assms(3) by simp
    then have "Suc i * ?z < ?n * ?z" using D(1) by (simp only: mult_less_mono1)
    then have "\<not> mp_max p * mp_sz p \<le> a + mp_sz p" using sum prod by (simp add: word_le_nat_alt)
    with sum \<open>Suc i < ?n\<close> show ?thesis by (simp add: mp_next_def)
  qed
qed

lemma mp_slot_update:
  assumes "length d = z" "z = unat (mp_sz p)" "(j + 1) * z \<le> length (mp_buf p)" "(i + 1) * z \<le> length (mp_buf p)"
  shows "mp_slot (p\<lparr>mp_buf := take (j * z) (mp_buf p) @ d @ drop (j * z + z) (mp_buf p)\<rparr>) i = (if i = j then d else mp_slot p i)"
proof -
  have j: "length (take (j * z) (mp_buf p)) = j * z" using assms(3) by simp
  consider "i = j" | "i < j" | "j < i" by linarith
  then show ?thesis
  proof cases
    case 1
    with assms j show ?thesis by (simp add: mp_slot_def)
  next
    case 2
    then have "i * z + z \<le> j * z" by (rule slot_end)
    with assms(1,2) j 2 show ?thesis by (simp add: mp_slot_def take_drop min_def)
  next
    case 3
    then have "j * z + z \<le> i * z" by (rule slot_end)
    then obtain k where k: "i * z = j * z + z + k" using le_Suc_ex by blast
    with assms(1,2) j 3 show ?thesis by (simp add: mp_slot_def ac_simps)
  qed
qed

text \<open>Storing a message puts it at the end, loading one takes it from the front.\<close>

lemma mp_store_spec:
  assumes ok: "pool_ok p" and room: "\<not> msgpool_full p"
  obtains p' where "mp_store p buf = Some p'" "pool_ok p'" "mp_msgs p' = mp_msgs p @ [bytes buf (unat (mp_sz p))]"
    "mp_waiters p' = mp_waiters p" "mp_sz p' = mp_sz p" "mp_max p' = mp_max p"
    "unat (mp_count p') = Suc (unat (mp_count p))"
proof -
  note D = pool_okD [OF ok]
  let ?z = "unat (mp_sz p)" and ?n = "unat (mp_max p)" and ?c = "unat (mp_count p)"
  let ?h = "(mp_first p + ?c) mod ?n"
  let ?p = "p\<lparr>mp_buf := take (?h * ?z) (mp_buf p) @ bytes buf ?z @ drop (?h * ?z + ?z) (mp_buf p)\<rparr>"
  let ?q = "?p\<lparr>mp_head := mp_next p (mp_head p), mp_count := mp_count p + 1\<rparr>"
  have c: "?c < ?n" using room by (simp add: msgpool_full_def word_le_nat_alt)
  have h: "?h < ?n" using D(2) by simp
  have "unat (mp_head p) + ?z \<le> length (mp_buf p)" unfolding D(4,8) by (rule slot_end [OF h])
  then have store: "mp_store p buf = Some ?q" using D(8) by (simp add: mp_store_def)
  have "?n < 2 ^ 32" using unsigned_less [of "mp_max p"] by simp
  then have cnt: "unat (mp_count p + 1) = Suc ?c" using c by (simp add: unat_word_ariths)
  have first: "mp_first ?q = mp_first p" by (simp add: mp_first_def)
  have "Suc ?h mod ?n = (mp_first p + Suc ?c) mod ?n" by (simp add: mod_Suc_eq)
  then have "unat (mp_next p (mp_head p)) = (mp_first p + Suc ?c) mod ?n * ?z"
    using mp_next_slot [OF ok D(8) h] by simp
  then have "pool_ok ?q" unfolding pool_ok_def first word_le_nat_alt
    using D c slot_end [OF h] by (simp add: cnt)
  moreover have "mp_msgs ?q = mp_msgs p @ [bytes buf ?z]"
  proof -
    have len: "(i + 1) * ?z \<le> length (mp_buf p)" if "i < ?n" for i using slot_end [OF that, of ?z] D(4) by simp
    have slot: "mp_slot ?q i = (if i = ?h then bytes buf ?z else mp_slot p i)" if "i < ?n" for i
    proof -
      have "mp_slot ?q i = mp_slot ?p i" by (simp add: mp_slot_def)
      also have "\<dots> = (if i = ?h then bytes buf ?z else mp_slot p i)"
        by (rule mp_slot_update [OF _ refl len [OF h] len [OF that]]) simp
      finally show ?thesis .
    qed
    have "(mp_first p + i) mod ?n \<noteq> ?h" if "i < ?c" for i
    proof
      assume "(mp_first p + i) mod ?n = ?h"
      then have "?n dvd (mp_first p + ?c) - (mp_first p + i)"
        using that by (metis mod_eq_dvd_iff_nat nat_add_left_cancel_le less_imp_le)
      with that c show False by (simp add: nat_dvd_not_less)
    qed
    then show ?thesis using slot D(2) by (simp add: mp_msgs_def first cnt)
  qed
  ultimately show ?thesis using that [OF store] cnt by simp
qed

lemma mp_load_spec:
  assumes ok: "pool_ok p" and some: "\<not> msgpool_empty p"
  obtains d p' where "mp_load p = Some (d, p')" "pool_ok p'" "mp_msgs p = d # mp_msgs p'"
    "mp_waiters p' = mp_waiters p" "mp_sz p' = mp_sz p" "mp_max p' = mp_max p"
    "unat (mp_count p) = Suc (unat (mp_count p'))"
proof -
  note D = pool_okD [OF ok]
  let ?z = "unat (mp_sz p)" and ?n = "unat (mp_max p)" and ?c = "unat (mp_count p)"
  let ?q = "p\<lparr>mp_tail := mp_next p (mp_tail p), mp_count := mp_count p - 1\<rparr>"
  have c: "0 < ?c" using some by (simp add: msgpool_empty_def word_le_nat_alt)
  then have cnt: "unat (mp_count p - 1) = ?c - 1" by (simp add: unat_minus_one unat_gt_0)
  have "unat (mp_tail p) + ?z \<le> length (mp_buf p)" unfolding D(4) D(6) by (rule slot_end [OF D(7)])
  then have load: "mp_load p = Some (mp_slot p (mp_first p), ?q)"
    using D(6) by (simp add: mp_load_def mp_slot_def)
  note nxt = mp_next_slot [OF ok D(6,7)]
  have first: "mp_first ?q = Suc (mp_first p) mod ?n" using nxt D(1) by (simp add: mp_first_def)
  have "(Suc (mp_first p) mod ?n + (?c - 1)) mod ?n = (mp_first p + ?c) mod ?n"
    using c mod_add_left_eq [of "Suc (mp_first p)" ?n "?c - 1"] by simp
  then have "pool_ok ?q" unfolding pool_ok_def first word_le_nat_alt using D c nxt by (simp add: cnt)
  moreover have "mp_msgs p = mp_slot p (mp_first p) # mp_msgs ?q"
  proof -
    have "[0..<?c] = 0 # map Suc [0..<?c - 1]" using c by (cases ?c) (simp_all add: upt_conv_Cons map_Suc_upt del: upt_Suc)
    moreover have "mp_slot ?q i = mp_slot p i" for i by (simp add: mp_slot_def)
    moreover have "(Suc (mp_first p) mod ?n + i) mod ?n = (mp_first p + Suc i) mod ?n" for i
      by (simp add: mod_add_left_eq)
    ultimately show ?thesis using D(7) by (simp add: mp_msgs_def first cnt o_def)
  qed
  ultimately show ?thesis using that [OF load] cnt c by simp
qed

lemma msgs_length [simp]: "length (mp_msgs p) = unat (mp_count p)"
  by (simp add: mp_msgs_def)

lemma create_ok:
  assumes "msgpool_create sz cnt a b = Some p" "unat cnt * unat sz < 2 ^ 32"
  shows "pool_ok p" "mp_msgs p = []" "mp_waiters p = []" "mp_sz p = sz" "mp_max p = cnt"
  using assms by (auto simp: msgpool_create_def pool_ok_def mp_first_def mp_msgs_def unat_word_ariths unat_gt_0
      split: if_split_asm)

subsection \<open>A system of tasks on a pool\<close>

text \<open>
  The tasks of \<open>B\<close> push and may sleep, the tasks of \<open>C\<close> pop, and every task tries to push. A task that has
  slept is to finish its call; \<open>pushed\<close> and \<open>popped\<close> record the messages, the oldest first.
\<close>

datatype mppc = MpOut | MpPush mem | MpPop

record mpsys =
  mpsched :: sched
  pool :: msgpool
  mppc :: "tid \<Rightarrow> mppc"
  pushed :: "u8 list list"
  popped :: "u8 list list"

definition mp_msg :: "mpsys \<Rightarrow> mem \<Rightarrow> u8 list" where
  "mp_msg k buf = bytes buf (unat (mp_sz (pool k)))"

definition sys_try_push :: "mpsys \<Rightarrow> mem \<Rightarrow> mpsys option" where
  "sys_try_push k buf = map_option
     (\<lambda>(r, s, p). k\<lparr>mpsched := s, pool := p, pushed := (if r = 0 then pushed k @ [mp_msg k buf] else pushed k)\<rparr>)
     (msgpool_try_push (mpsched k) (pool k) buf)"

definition sys_try_pop :: "mpsys \<Rightarrow> mpsys option" where
  "sys_try_pop k = map_option
     (\<lambda>((r, d), s, p). k\<lparr>mpsched := s, pool := p, popped := (if r = 0 then popped k @ [d] else popped k)\<rparr>)
     (msgpool_try_pop (mpsched k) (pool k))"

definition sys_push :: "mpsys \<Rightarrow> mem \<Rightarrow> mpsys option" where
  "sys_push k buf = map_option
     (\<lambda>(f, s, p). case f of
        MpSleeps \<Rightarrow> k\<lparr>mpsched := s, pool := p, mppc := (mppc k)(cur (mpsched k) := MpPush buf)\<rparr>
      | MpDone _ \<Rightarrow> k\<lparr>mpsched := s, pool := p, pushed := pushed k @ [mp_msg k buf]\<rparr>)
     (msgpool_push (mpsched k) (pool k) buf)"

definition sys_push_woken :: "mpsys \<Rightarrow> mem \<Rightarrow> mpsys option" where
  "sys_push_woken k buf = map_option
     (\<lambda>(s, p). k\<lparr>mpsched := s, pool := p, mppc := (mppc k)(cur (mpsched k) := MpOut), pushed := pushed k @ [mp_msg k buf]\<rparr>)
     (push_section (mpsched k) (pool k) buf)"

definition sys_pop :: "mpsys \<Rightarrow> mpsys option" where
  "sys_pop k = map_option
     (\<lambda>(f, s, p). case f of
        MpSleeps \<Rightarrow> k\<lparr>mpsched := s, pool := p, mppc := (mppc k)(cur (mpsched k) := MpPop)\<rparr>
      | MpDone d \<Rightarrow> k\<lparr>mpsched := s, pool := p, popped := popped k @ [d]\<rparr>)
     (msgpool_pop (mpsched k) (pool k))"

definition sys_pop_woken :: "mpsys \<Rightarrow> mpsys option" where
  "sys_pop_woken k = map_option
     (\<lambda>(d, s, p). k\<lparr>mpsched := s, pool := p, mppc := (mppc k)(cur (mpsched k) := MpOut), popped := popped k @ [d]\<rparr>)
     (pop_section (mpsched k) (pool k))"

inductive mp_step :: "tid set \<Rightarrow> tid set \<Rightarrow> mpsys \<Rightarrow> mpsys \<Rightarrow> bool" for B C where
  try_push: "mppc k (cur (mpsched k)) = MpOut \<Longrightarrow> sys_try_push k buf = Some k' \<Longrightarrow> mp_step B C k k'"
| try_pop: "mppc k (cur (mpsched k)) = MpOut \<Longrightarrow> cur (mpsched k) \<in> C \<Longrightarrow> sys_try_pop k = Some k' \<Longrightarrow> mp_step B C k k'"
| push: "mppc k (cur (mpsched k)) = MpOut \<Longrightarrow> cur (mpsched k) \<in> B \<Longrightarrow> sys_push k buf = Some k' \<Longrightarrow> mp_step B C k k'"
| push_woken: "mppc k (cur (mpsched k)) = MpPush buf \<Longrightarrow> sys_push_woken k buf = Some k' \<Longrightarrow> mp_step B C k k'"
| pop: "mppc k (cur (mpsched k)) = MpOut \<Longrightarrow> cur (mpsched k) \<in> C \<Longrightarrow> sys_pop k = Some k' \<Longrightarrow> mp_step B C k k'"
| pop_woken: "mppc k (cur (mpsched k)) = MpPop \<Longrightarrow> sys_pop_woken k = Some k' \<Longrightarrow> mp_step B C k k'"
| other: "sched_other (mpsched k) s \<Longrightarrow> mp_step B C k (k\<lparr>mpsched := s\<rparr>)"
| sleep: "task_block (mpsched k) TASK_BLOCKED = Some s \<Longrightarrow> mp_step B C k (k\<lparr>mpsched := s\<rparr>)"
| wakeup: "t \<notin> set (mp_waiters (pool k)) \<Longrightarrow> blocked_on (mpsched k) t \<Longrightarrow> task_wakeup (mpsched k) t = Some s \<Longrightarrow>
    mp_step B C k (k\<lparr>mpsched := s\<rparr>)"

inductive mp_reachable :: "u32 \<Rightarrow> u32 \<Rightarrow> tid set \<Rightarrow> tid set \<Rightarrow> mpsys \<Rightarrow> bool" for sz cnt B C where
  init: "sched_inv s \<Longrightarrow> msgpool_create sz cnt True True = Some p \<Longrightarrow>
    mp_reachable sz cnt B C \<lparr>mpsched = s, pool = p, mppc = (\<lambda>_. MpOut), pushed = [], popped = []\<rparr>"
| step: "mp_reachable sz cnt B C k \<Longrightarrow> mp_step B C k k' \<Longrightarrow> mp_reachable sz cnt B C k'"

text \<open>One task pops and nobody else sleeps in the pool, as in the graphics system.\<close>

definition mp_inv :: "tid \<Rightarrow> u32 \<Rightarrow> mpsys \<Rightarrow> bool" where
  "mp_inv c cnt k \<longleftrightarrow> sched_inv (mpsched k) \<and> pool_ok (pool k) \<and> mp_max (pool k) = cnt \<and>
     room_ok (blocked_on (mpsched k)) (mp_waiters (pool k)) (\<lambda>t. mppc k t = MpPop) \<and>
     (\<forall>t. mppc k t \<noteq> MpOut \<longrightarrow> t = c \<and> mppc k t = MpPop) \<and>
     (mppc k c = MpPop \<longrightarrow> (c \<in> set (mp_waiters (pool k)) \<longleftrightarrow> msgpool_empty (pool k))) \<and>
     pushed k = popped k @ mp_msgs (pool k)"

lemma mp_invD:
  assumes "mp_inv c cnt k"
  shows "sched_inv (mpsched k)" "pool_ok (pool k)" "mp_max (pool k) = cnt"
    "room_ok (blocked_on (mpsched k)) (mp_waiters (pool k)) (\<lambda>t. mppc k t = MpPop)"
    "mppc k t \<noteq> MpOut \<Longrightarrow> t = c \<and> mppc k t = MpPop"
    "mppc k c = MpPop \<Longrightarrow> c \<in> set (mp_waiters (pool k)) \<longleftrightarrow> msgpool_empty (pool k)"
    "pushed k = popped k @ mp_msgs (pool k)"
  using assms unfolding mp_inv_def by blast+

lemma mp_waiters_c:
  assumes "mp_inv c cnt k"
  shows "mp_waiters (pool k) = [] \<or> mp_waiters (pool k) = [c] \<and> mppc k c = MpPop"
proof -
  have room: "distinct (mp_waiters (pool k))" "\<And>t. t \<in> set (mp_waiters (pool k)) \<Longrightarrow> mppc k t = MpPop"
    using mp_invD(4) [OF assms] by (auto simp: room_ok_def waitlist_ok_def)
  moreover have "t = c \<and> mppc k c = MpPop" if "t \<in> set (mp_waiters (pool k))" for t
    using room(2) [OF that] mp_invD(5) [OF assms, of t] by auto
  ultimately have "distinct (mp_waiters (pool k))" "\<forall>t \<in> set (mp_waiters (pool k)). t = c \<and> mppc k c = MpPop"
    by blast+
  then show ?thesis by (cases "mp_waiters (pool k)" rule: remdups_adj.cases) auto
qed

lemma mp_wake_room:
  assumes "sched_inv s" "room_ok (blocked_on s) (mp_waiters p) pend"
  obtains s' where "mp_wake s p = Some (s', p\<lparr>mp_waiters := tl (mp_waiters p)\<rparr>)" "sched_inv s'" "cur s' = cur s"
    "room_ok (blocked_on s') (tl (mp_waiters p)) pend"
proof -
  obtain s' where s': "wait_queue_wakeup s (mp_waiters p) = Some (s', tl (mp_waiters p))" "sched_inv s'" "cur s' = cur s"
    "room_ok (blocked_on s') (tl (mp_waiters p)) pend" by (rule wait_queue_wakeup_room [OF assms])
  show ?thesis
  proof (cases "mp_waiters p")
    case Nil
    then have "p\<lparr>mp_waiters := tl (mp_waiters p)\<rparr> = p" by simp
    with Nil that [of s] assms show ?thesis by (simp add: mp_wake_def)
  next
    case Cons
    with s' that [of s'] show ?thesis by (simp add: mp_wake_def)
  qed
qed

lemma mp_msgs_waiters [simp]: "mp_msgs (p\<lparr>mp_waiters := l\<rparr>) = mp_msgs p" "pool_ok (p\<lparr>mp_waiters := l\<rparr>) = pool_ok p"
  "msgpool_empty (p\<lparr>mp_waiters := l\<rparr>) = msgpool_empty p"
  by (simp_all add: mp_msgs_def mp_slot_def mp_first_def pool_ok_def msgpool_empty_def)

text \<open>The section of a push, and the one of a pop of a pool that has a message.\<close>

lemma push_section_spec:
  assumes ok: "sched_inv s" "room_ok (blocked_on s) (mp_waiters p) pend" "pool_ok p" "\<not> msgpool_full p"
  obtains s' p' where "push_section s p buf = Some (s', p')" "sched_inv s'" "cur s' = cur s" "pool_ok p'" "mp_max p' = mp_max p"
    "mp_waiters p' = tl (mp_waiters p)" "room_ok (blocked_on s') (tl (mp_waiters p)) pend"
    "mp_msgs p' = mp_msgs p @ [bytes buf (unat (mp_sz p))]" "\<not> msgpool_empty p'"
proof -
  obtain p1 where p1: "mp_store p buf = Some p1" "pool_ok p1" "mp_msgs p1 = mp_msgs p @ [bytes buf (unat (mp_sz p))]"
    "mp_waiters p1 = mp_waiters p" "mp_sz p1 = mp_sz p" "mp_max p1 = mp_max p" "unat (mp_count p1) = Suc (unat (mp_count p))"
    by (rule mp_store_spec [OF ok(3,4)])
  obtain s' where s': "mp_wake s p1 = Some (s', p1\<lparr>mp_waiters := tl (mp_waiters p1)\<rparr>)" "sched_inv s'" "cur s' = cur s"
    "room_ok (blocked_on s') (tl (mp_waiters p1)) pend"
    by (rule mp_wake_room [OF ok(1), of p1 pend]) (use ok(2) p1(4) in auto)
  have "\<not> msgpool_empty p1" using p1(7) by (auto simp: msgpool_empty_def)
  with p1 s' that [of s' "p1\<lparr>mp_waiters := tl (mp_waiters p1)\<rparr>"] show ?thesis by (simp add: push_section_def)
qed

lemma pop_section_spec:
  assumes ok: "sched_inv s" "room_ok (blocked_on s) (mp_waiters p) pend" "pool_ok p" "\<not> msgpool_empty p"
  obtains d s' p' where "pop_section s p = Some (d, s', p')" "sched_inv s'" "cur s' = cur s" "pool_ok p'" "mp_max p' = mp_max p"
    "mp_waiters p' = tl (mp_waiters p)" "room_ok (blocked_on s') (tl (mp_waiters p)) pend" "mp_msgs p = d # mp_msgs p'"
proof -
  obtain d p1 where p1: "mp_load p = Some (d, p1)" "pool_ok p1" "mp_msgs p = d # mp_msgs p1"
    "mp_waiters p1 = mp_waiters p" "mp_sz p1 = mp_sz p" "mp_max p1 = mp_max p" by (rule mp_load_spec [OF ok(3,4)])
  obtain s' where s': "mp_wake s p1 = Some (s', p1\<lparr>mp_waiters := tl (mp_waiters p1)\<rparr>)" "sched_inv s'" "cur s' = cur s"
    "room_ok (blocked_on s') (tl (mp_waiters p1)) pend"
    by (rule mp_wake_room [OF ok(1), of p1 pend]) (use ok(2) p1(4) in auto)
  with p1 that [of d s' "p1\<lparr>mp_waiters := tl (mp_waiters p1)\<rparr>"] show ?thesis by (simp add: pop_section_def)
qed

lemma try_push_inv:
  assumes inv: "mp_inv c cnt k"
  obtains k' where "sys_try_push k buf = Some k'" "mp_inv c cnt k'"
proof (cases "msgpool_full (pool k)")
  case True
  with inv that [of k] show ?thesis by (simp add: sys_try_push_def msgpool_try_push_def)
next
  case False
  note D = mp_invD [OF inv]
  obtain s p where sp: "push_section (mpsched k) (pool k) buf = Some (s, p)" "sched_inv s" "cur s = cur (mpsched k)" "pool_ok p"
    "mp_max p = mp_max (pool k)" "mp_waiters p = tl (mp_waiters (pool k))"
    "room_ok (blocked_on s) (tl (mp_waiters (pool k))) (\<lambda>t. mppc k t = MpPop)"
    "mp_msgs p = mp_msgs (pool k) @ [bytes buf (unat (mp_sz (pool k)))]" "\<not> msgpool_empty p"
    by (rule push_section_spec [OF D(1,4,2) False])
  let ?k = "k\<lparr>mpsched := s, pool := p, pushed := pushed k @ [mp_msg k buf]\<rparr>"
  have "c \<notin> set (mp_waiters p)" using mp_waiters_c [OF inv] sp(6) by auto
  then have "mp_inv c cnt ?k" using sp D by (simp add: mp_inv_def mp_msg_def)
  with that [of ?k] sp(1) False show ?thesis by (simp add: sys_try_push_def msgpool_try_push_def)
qed

lemma pop_last_inv:
  assumes inv: "mp_inv c cnt k" and cur: "cur (mpsched k) = c" and some: "\<not> msgpool_empty (pool k)"
  obtains d s p where "pop_section (mpsched k) (pool k) = Some (d, s, p)"
    "mp_inv c cnt (k\<lparr>mpsched := s, pool := p, mppc := (mppc k)(c := MpOut), popped := popped k @ [d]\<rparr>)"
proof -
  note D = mp_invD [OF inv]
  obtain d s p where sp: "pop_section (mpsched k) (pool k) = Some (d, s, p)" "sched_inv s" "cur s = cur (mpsched k)" "pool_ok p"
    "mp_max p = mp_max (pool k)" "mp_waiters p = tl (mp_waiters (pool k))"
    "room_ok (blocked_on s) (tl (mp_waiters (pool k))) (\<lambda>t. mppc k t = MpPop)" "mp_msgs (pool k) = d # mp_msgs p"
    by (rule pop_section_spec [OF D(1,4,2) some])
  have "c \<notin> set (mp_waiters (pool k))"
    using bs.running_not_waiting [OF D(1)] D(4) cur by (auto simp: room_ok_def)
  then have w: "mp_waiters (pool k) = []" using mp_waiters_c [OF inv] by auto
  have "room_ok (blocked_on s) [] pend" for pend by (simp add: room_ok_def waitlist_ok_def)
  moreover have "mppc k t \<noteq> MpOut \<Longrightarrow> t = c" for t using D(5) by blast
  ultimately show ?thesis using that [OF sp(1)] sp D w by (auto simp: mp_inv_def)
qed

lemma mp_step_inv:
  assumes inv: "mp_inv c cnt k" and "mp_step {} {c} k k'"
  shows "mp_inv c cnt k'"
  using assms(2)
proof (cases rule: mp_step.cases)
  case (try_push buf)
  then show ?thesis by (metis try_push_inv [OF inv] option.inject)
next
  case try_pop
  then have c: "cur (mpsched k) = c" "mppc k c = MpOut" by auto
  then have same: "(mppc k)(c := MpOut) = mppc k" by auto
  show ?thesis
  proof (cases "msgpool_empty (pool k)")
    case True
    with try_pop(3) inv show ?thesis by (auto simp: sys_try_pop_def msgpool_try_pop_def)
  next
    case False
    obtain d s p where "pop_section (mpsched k) (pool k) = Some (d, s, p)"
      "mp_inv c cnt (k\<lparr>mpsched := s, pool := p, mppc := (mppc k)(c := MpOut), popped := popped k @ [d]\<rparr>)"
      by (rule pop_last_inv [OF inv c(1) False])
    with try_pop(3) False same show ?thesis by (auto simp: sys_try_pop_def msgpool_try_pop_def)
  qed
next
  case pop
  note D = mp_invD [OF inv]
  from pop have c: "cur (mpsched k) = c" "mppc k c = MpOut" by auto
  then have same: "(mppc k)(c := MpOut) = mppc k" by auto
  show ?thesis
  proof (cases "msgpool_empty (pool k)")
    case True
    from True pop(3) wait_queue_add_cur [OF D(1,4)] obtain s where s: "is_blocking (mpsched k) = Some s"
      and k': "k' = k\<lparr>mpsched := s, pool := (pool k)\<lparr>mp_waiters := mp_waiters (pool k) @ [c]\<rparr>, mppc := (mppc k)(c := MpPop)\<rparr>"
      by (auto simp: sys_pop_def msgpool_pop_def mp_sleep_def is_blocking_def c(1))
    have "room_ok (blocked_on s) (mp_waiters (pool k) @ [c]) (\<lambda>t. ((mppc k)(c := MpPop)) t = MpPop)"
      using bs.room_enter [OF D(1) s D(4)] by (auto simp: c(1) room_ok_def)
    with True D bs.block_law [OF D(1) s] show ?thesis by (auto simp: mp_inv_def k')
  next
    case False
    obtain d s p where "pop_section (mpsched k) (pool k) = Some (d, s, p)"
      "mp_inv c cnt (k\<lparr>mpsched := s, pool := p, mppc := (mppc k)(c := MpOut), popped := popped k @ [d]\<rparr>)"
      by (rule pop_last_inv [OF inv c(1) False])
    with pop(3) False same show ?thesis by (auto simp: sys_pop_def msgpool_pop_def)
  qed
next
  case (push_woken buf)
  then show ?thesis using mp_invD(5) [OF inv, of "cur (mpsched k)"] by simp
next
  case pop_woken
  note D = mp_invD [OF inv]
  have c: "cur (mpsched k) = c" using pop_woken(1) D(5) [of "cur (mpsched k)"] by simp
  have "c \<notin> set (mp_waiters (pool k))"
    using bs.running_not_waiting [OF D(1)] D(4) c by (auto simp: room_ok_def)
  then have some: "\<not> msgpool_empty (pool k)" using D(6) pop_woken(1) c by simp
  obtain d s p where "pop_section (mpsched k) (pool k) = Some (d, s, p)"
    "mp_inv c cnt (k\<lparr>mpsched := s, pool := p, mppc := (mppc k)(c := MpOut), popped := popped k @ [d]\<rparr>)"
    by (rule pop_last_inv [OF inv c some])
  with pop_woken(2) c show ?thesis by (auto simp: sys_pop_woken_def)
next
  case (other s)
  note D = mp_invD [OF inv]
  from D bs.other_law [OF D(1) other(2)] bs.room_other [OF D(1) other(2) D(4)] show ?thesis by (auto simp: mp_inv_def other(1))
next
  case (sleep s)
  note D = mp_invD [OF inv]
  from sleep have s: "is_blocking (mpsched k) = Some s" by (simp add: is_blocking_def)
  from D bs.block_law [OF D(1) s] bs.room_block [OF D(1) s D(4)] show ?thesis by (auto simp: mp_inv_def sleep(1))
next
  case (wakeup t s)
  note D = mp_invD [OF inv]
  from D bs.wake_law [OF D(1) wakeup(3)] wakeup(4) bs.room_wake [OF D(1) wakeup(4,3,2) D(4)] show ?thesis
    by (auto simp: mp_inv_def wakeup(1))
qed simp

lemma mp_reachable_inv:
  assumes "mp_reachable sz cnt {} {c} k" "unat cnt * unat sz < 2 ^ 32"
  shows "mp_inv c cnt k"
  using assms
proof (induction rule: mp_reachable.induct)
  case (init s p)
  with create_ok [OF init(2)] show ?case by (simp add: mp_inv_def room_ok_def waitlist_ok_def)
qed (use mp_step_inv in blast)

subsection \<open>Properties\<close>

text \<open>Runs of single steps, for examples.\<close>

datatype mp_act = ATryPush mem | ATryPop | APop | APopWoken | AYield

fun act :: "mp_act \<Rightarrow> mpsys \<Rightarrow> mpsys option" where
  "act (ATryPush buf) k = (case mppc k (cur (mpsched k)) of MpOut \<Rightarrow> sys_try_push k buf | _ \<Rightarrow> None)"
| "act ATryPop k = (case mppc k (cur (mpsched k)) of MpOut \<Rightarrow> sys_try_pop k | _ \<Rightarrow> None)"
| "act APop k = (case mppc k (cur (mpsched k)) of MpOut \<Rightarrow> sys_pop k | _ \<Rightarrow> None)"
| "act APopWoken k = (case mppc k (cur (mpsched k)) of MpPop \<Rightarrow> sys_pop_woken k | _ \<Rightarrow> None)"
| "act AYield k = map_option (\<lambda>s. k\<lparr>mpsched := s\<rparr>) (task_yeild (mpsched k))"

fun run_acts :: "mp_act list \<Rightarrow> mpsys \<Rightarrow> mpsys option" where
  "run_acts [] k = Some k"
| "run_acts (a # as) k = Option.bind (act a k) (run_acts as)"

lemma act_step:
  assumes "act a k = Some k'" "a \<in> {ATryPop, APop} \<longrightarrow> cur (mpsched k) \<in> C"
  shows "mp_step B C k k'"
  using assms
  by (cases a) (auto intro: mp_step.intros sched_other.yield split: mppc.splits)

lemma run_acts_reachable:
  assumes "mp_reachable sz cnt B UNIV k" "run_acts as k = Some k'"
  shows "mp_reachable sz cnt B UNIV k'"
  using assms
proof (induction as arbitrary: k)
  case (Cons a as)
  from Cons.prems(2) obtain k1 where "act a k = Some k1" "run_acts as k1 = Some k'" by (auto simp: bind_eq_Some_conv)
  with Cons.IH mp_reachable.step [OF Cons.prems(1) act_step] show ?case by blast
qed simp

definition demo_pool :: "mpsys" where
  "demo_pool = \<lparr>mpsched = demo_sched, pool = the (msgpool_create 2 2 True True), mppc = (\<lambda>_. MpOut), pushed = [], popped = []\<rparr>"

definition demo_note :: "nat \<Rightarrow> mem" where
  "demo_note n = (\<lambda>i. of_nat (n + i))"

lemma demo_pool_reachable: "mp_reachable 2 2 B C demo_pool"
proof -
  have "msgpool_create 2 2 True True \<noteq> None" by code_simp
  then have "msgpool_create 2 2 True True = Some (the (msgpool_create 2 2 True True))" by auto
  moreover have "sched_inv demo_sched" using reachable_inv [OF demo_reachable] by simp
  ultimately show ?thesis unfolding demo_pool_def by (intro mp_reachable.init)
qed



text \<open>
  With two tasks that take messages this fails. Both sleep, a push wakes the first, and its pop wakes the second,
  which takes a message from the empty pool: the counter falls below zero, the pool is full for ever after.
\<close>

theorem msgpool_two_consumers:
  "\<exists>k. mp_reachable 2 2 {} UNIV k \<and> mp_count (pool k) = -1 \<and> msgpool_full (pool k) \<and>
     pushed k = [[1, 2]] \<and> popped k = [[1, 2], [0, 0]]"
proof -
  let ?as = "[AYield, APop, APop, ATryPush (demo_note 1), AYield, APopWoken, AYield, APopWoken]"
  have "map_option (\<lambda>k. (mp_count (pool k), msgpool_full (pool k), pushed k, popped k)) (run_acts ?as demo_pool) =
      Some (-1, True, [[1, 2]], [[1, 2], [0, 0]])" by code_simp
  then obtain k where "run_acts ?as demo_pool = Some k" "mp_count (pool k) = -1" "msgpool_full (pool k)"
    "pushed k = [[1, 2]]" "popped k = [[1, 2], [0, 0]]" by auto
  with run_acts_reachable [OF demo_pool_reachable] show ?thesis by blast
qed

text \<open>
  A pool is destroyed while tasks sleep in it: they are woken and the pool is freed, and they go on with the
  mutex of the freed pool.
\<close>

lemma msgpool_destroy_waiters:
  assumes "msgpool_empty p" "wait_queue_wakeup_all s (mp_waiters p) = Some (s', [])" "mp_waiters p \<noteq> []"
  shows "msgpool_destroy s p = Some (0, s', None)"
  using assms by (simp add: msgpool_destroy_def)

end
