(* ===== verification/ProcArgs.thy ===== *)
theory ProcArgs
  imports Prelude
begin

section \<open>The arguments of a program\<close>

text \<open>
  \<open>proc_build_arg\<close> of \<open>src/src/task/process.c\<close>, which copies an array of strings into a block that ends at
  a given address: the number of strings, the address of the array, the array with a null pointer at its
  end, and the strings. Memory is flat here, a byte for each 32-bit address. The array that is copied is read
  before the block is written; the code reads it while it writes, which is the same when they do not overlap.
\<close>

type_synonym umem = "u32 \<Rightarrow> u8"

definition put32 :: "umem \<Rightarrow> u32 \<Rightarrow> u32 \<Rightarrow> umem" where
  "put32 m a w = m(a := ucast w, a + 1 := ucast (drop_bit 8 w), a + 2 := ucast (drop_bit 16 w), a + 3 := ucast (drop_bit 24 w))"

definition get32 :: "umem \<Rightarrow> u32 \<Rightarrow> u32" where
  "get32 m a = ucast (m a) OR push_bit 8 (ucast (m (a + 1))) OR push_bit 16 (ucast (m (a + 2))) OR push_bit 24 (ucast (m (a + 3)))"

fun write_mem :: "umem \<Rightarrow> u32 \<Rightarrow> u8 list \<Rightarrow> umem" where
  "write_mem m a [] = m"
| "write_mem m a (b # bs) = write_mem (m(a := b)) (a + 1) bs"

text \<open>Strings and arrays of strings in memory; \<open>None\<close> is a search that never ends.\<close>

partial_function (option) str_at :: "umem \<Rightarrow> u32 \<Rightarrow> u8 list option" where
  "str_at m a = (if m a = 0 then Some [] else Option.bind (str_at m (a + 1)) (\<lambda>s. Some (m a # s)))"

partial_function (option) argv_at :: "umem \<Rightarrow> u32 \<Rightarrow> u8 list list option" where
  "argv_at m p = (if get32 m p = 0 then Some []
     else Option.bind (str_at m (get32 m p)) (\<lambda>s. Option.bind (argv_at m (p + 4)) (\<lambda>ss. Some (s # ss))))"

text \<open>The loop that fills the array at \<open>slot\<close> and puts the strings behind each other from \<open>p\<close> on.\<close>

fun put_args :: "umem \<Rightarrow> u32 \<Rightarrow> u32 \<Rightarrow> u8 list list \<Rightarrow> umem" where
  "put_args m slot p [] = put32 m slot 0"
| "put_args m slot p (s # ss) =
     put_args (write_mem (put32 m slot p) p (s @ [0])) (slot + 4) (p + of_nat (length s + 1)) ss"

definition string_space :: "u8 list list \<Rightarrow> nat" where
  "string_space args = sum_list (map (\<lambda>s. length s + 1) args)"

text \<open>Where the block begins.\<close>

definition arg_base :: "u32 \<Rightarrow> u8 list list \<Rightarrow> u32" where
  "arg_base tp args =
     (if args = [] then tp - 12
      else let pos = tp - of_nat (string_space args); pos = pos - pos mod 4
           in pos - of_nat (length args + 1) * 4 - 4 - 4)"

text \<open>The result is the number of strings, \<open>*arg_bottom\<close> and \<open>*dest_argv\<close>; \<open>argv\<close> is 0 for \<open>NULL\<close>.\<close>

definition proc_build_arg :: "umem \<Rightarrow> u32 \<Rightarrow> u32 \<Rightarrow> (nat \<times> u32 \<times> u32 \<times> umem) option" where
  "proc_build_arg m arg_top argv =
     map_option (\<lambda>args.
       let base = arg_base arg_top args;
           m = put32 m base (of_nat (length args));
           m = put32 m (base + 4) (base + 8);
           m = put_args m (base + 8) (base + 8 + of_nat (length args + 1) * 4) args
       in (length args, base - 4, base + 8, m))
     (if argv = 0 then Some [] else argv_at m argv)"

subsection \<open>Words and bytes in memory\<close>

lemma get32_put32 [simp]: "get32 (put32 m a w) a = w"
proof -
  have ne: "a \<noteq> a + 1" "a \<noteq> a + 2" "a \<noteq> a + 3" "a + 1 \<noteq> a + 2" "a + 1 \<noteq> a + 3" "a + 2 \<noteq> a + 3" by simp_all
  have "get32 (put32 m a w) a = ucast (ucast w :: u8) OR push_bit 8 (ucast (ucast (drop_bit 8 w) :: u8)) OR
      push_bit 16 (ucast (ucast (drop_bit 16 w) :: u8)) OR push_bit 24 (ucast (ucast (drop_bit 24 w) :: u8))"
    using ne by (simp add: get32_def put32_def)
  also have "\<dots> = w"
  proof (rule bit_word_eqI)
    fix n assume n: "n < LENGTH(32)"
    then consider "n < 8" | "8 \<le> n \<and> n < 16" | "16 \<le> n \<and> n < 24" | "24 \<le> n \<and> n < 32" by force
    then show "bit (ucast (ucast w :: u8) OR push_bit 8 (ucast (ucast (drop_bit 8 w) :: u8)) OR
      push_bit 16 (ucast (ucast (drop_bit 16 w) :: u8)) OR push_bit 24 (ucast (ucast (drop_bit 24 w) :: u8)) :: u32) n = bit w n"
      by cases (auto simp: bit_simps)
  qed
  finally show ?thesis .
qed

lemma get32_cong:
  assumes "m' a = m a" "m' (a + 1) = m (a + 1)" "m' (a + 2) = m (a + 2)" "m' (a + 3) = m (a + 3)"
  shows "get32 m' a = get32 m a"
  using assms by (simp add: get32_def)

lemma unat_less: "unat a < 2 ^ 32" for a :: u32
  using unsigned_less [where ?'a = nat, of a] by simp

text \<open>Ranges of addresses that do not wrap.\<close>

definition inside :: "u32 \<Rightarrow> nat \<Rightarrow> u32 \<Rightarrow> bool" where
  "inside a n x \<longleftrightarrow> unat a \<le> unat x \<and> unat x < unat a + n"

lemma unat_add_nat: "unat a + n < 2 ^ 32 \<Longrightarrow> unat (a + of_nat n) = unat a + n" for a :: u32
  by (simp add: unat_word_ariths unsigned_of_nat take_bit_nat_eq_self)

lemma unat_add_small: "unat a + k < 2 ^ 32 \<Longrightarrow> unat w = k \<Longrightarrow> unat (a + w) = unat a + k" for a w :: u32
  by (simp add: unat_word_ariths)

lemma write_mem_frame:
  assumes "\<forall>i < length bs. x \<noteq> a + of_nat i"
  shows "write_mem m a bs x = m x"
  using assms
proof (induction bs arbitrary: m a)
  case (Cons b bs)
  have "\<forall>i < length bs. x \<noteq> a + 1 + of_nat i"
  proof (intro allI impI)
    fix i assume "i < length bs"
    with Cons.prems [rule_format, of "Suc i"] show "x \<noteq> a + 1 + of_nat i" by (simp add: ac_simps)
  qed
  from Cons.IH [OF this] Cons.prems [rule_format, of 0] show ?case by simp
qed simp

lemma write_mem_nth:
  assumes "length bs \<le> 2 ^ 32" "i < length bs"
  shows "write_mem m a bs (a + of_nat i) = bs ! i"
  using assms
proof (induction bs arbitrary: m a i)
  case (Cons b bs)
  show ?case
  proof (cases i)
    case 0
    have "a \<noteq> a + 1 + of_nat j" if "j < length bs" for j
    proof
      assume "a = a + 1 + of_nat j"
      then have "(of_nat (Suc j) :: u32) = 0" by (simp add: add.assoc)
      then have "unat (of_nat (Suc j) :: u32) = 0" by (simp only: unsigned_0)
      with that Cons.prems(1) show False by (simp add: unsigned_of_nat take_bit_nat_eq_self del: of_nat_Suc)
    qed
    then show ?thesis using 0 write_mem_frame [of bs a "a + 1" "m(a := b)"] by simp
  next
    case (Suc j)
    then have "write_mem (m(a := b)) (a + 1) bs (a + 1 + of_nat j) = bs ! j"
      using Cons.prems by (intro Cons.IH) simp_all
    moreover have "a + of_nat i = a + 1 + of_nat j" using Suc by (simp add: ac_simps)
    moreover have "(b # bs) ! i = bs ! j" using Suc by simp
    ultimately show ?thesis by (simp only: write_mem.simps)
  qed
qed simp

lemma write_mem_outside:
  assumes "unat a + length bs \<le> 2 ^ 32" "\<not> inside a (length bs) x"
  shows "write_mem m a bs x = m x"
proof (rule write_mem_frame, intro allI impI)
  fix i assume "i < length bs"
  with assms show "x \<noteq> a + of_nat i" using unat_add_nat [of a i] by (auto simp: inside_def)
qed

lemma put32_outside: "unat a + 4 \<le> 2 ^ 32 \<Longrightarrow> \<not> inside a 4 x \<Longrightarrow> put32 m a w x = m x"
  by (auto simp: put32_def inside_def unat_word_ariths)

lemma get32_same:
  assumes "unat a + 4 \<le> 2 ^ 32" "\<And>x. inside a 4 x \<Longrightarrow> m' x = m x"
  shows "get32 m' a = get32 m a"
  by (rule get32_cong) (use assms(1) in \<open>auto intro!: assms(2) simp: inside_def unat_word_ariths\<close>)

text \<open>A string and an array of strings at an address.\<close>

definition has_str :: "umem \<Rightarrow> u32 \<Rightarrow> u8 list \<Rightarrow> bool" where
  "has_str m a s \<longleftrightarrow> 0 \<notin> set s \<and> (\<forall>i < length s. m (a + of_nat i) = s ! i) \<and> m (a + of_nat (length s)) = 0"

fun has_args :: "umem \<Rightarrow> u32 \<Rightarrow> u8 list list \<Rightarrow> bool" where
  "has_args m p [] = (get32 m p = 0)"
| "has_args m p (s # ss) = (get32 m p \<noteq> 0 \<and> has_str m (get32 m p) s \<and> has_args m (p + 4) ss)"

lemma str_at_has: "has_str m a s \<Longrightarrow> str_at m a = Some s"
proof (induction s arbitrary: a)
  case Nil
  then show ?case by (subst str_at.simps) (simp add: has_str_def)
next
  case (Cons c s)
  have i: "m (a + of_nat i) = (c # s) ! i" if "i < Suc (length s)" for i
    using Cons.prems that by (simp add: has_str_def)
  have "m (a + 1 + of_nat i) = s ! i" if "i < length s" for i
    using i [of "Suc i"] that by (simp add: ac_simps)
  moreover have "m (a + 1 + of_nat (length s)) = 0" using Cons.prems by (simp add: has_str_def ac_simps)
  ultimately have "has_str m (a + 1) s" using Cons.prems by (simp add: has_str_def)
  with Cons.IH i [of 0] Cons.prems show ?case by (subst str_at.simps) (auto simp: has_str_def)
qed

lemma argv_at_has: "has_args m p args \<Longrightarrow> argv_at m p = Some args"
proof (induction args arbitrary: p)
  case (Cons s ss)
  then have "str_at m (get32 m p) = Some s" by (intro str_at_has) simp
  with Cons show ?case by (subst argv_at.simps) simp
qed (subst argv_at.simps, simp)

lemma has_str_write:
  assumes "0 \<notin> set s" "length s < 2 ^ 32"
  shows "has_str (write_mem m a (s @ [0])) a s"
proof -
  have "write_mem m a (s @ [0]) (a + of_nat i) = (s @ [0]) ! i" if "i \<le> length s" for i
    using that assms(2) by (intro write_mem_nth) auto
  with assms(1) show ?thesis by (auto simp: has_str_def nth_append)
qed

lemma has_str_same:
  assumes "unat a + length s < 2 ^ 32" "\<And>x. inside a (length s + 1) x \<Longrightarrow> m' x = m x" "has_str m a s"
  shows "has_str m' a s"
proof -
  have "m' (a + of_nat i) = m (a + of_nat i)" if "i \<le> length s" for i
    using that assms(1) by (intro assms(2)) (simp add: inside_def unat_add_nat)
  with assms(3) show ?thesis by (simp add: has_str_def)
qed

subsection \<open>The block\<close>

lemma string_space_simps [simp]:
  "string_space [] = 0" "string_space (s # ss) = length s + 1 + string_space ss"
  by (simp_all add: string_space_def)

text \<open>Where the strings of an array lie.\<close>

fun strs_within :: "umem \<Rightarrow> u32 \<Rightarrow> nat \<Rightarrow> nat \<Rightarrow> u8 list list \<Rightarrow> bool" where
  "strs_within m p lo hi [] = True"
| "strs_within m p lo hi (s # ss) =
     (lo \<le> unat (get32 m p) \<and> unat (get32 m p) + length s < hi \<and> strs_within m (p + 4) lo hi ss)"

lemma strs_within_mono: "strs_within m p lo hi args \<Longrightarrow> lo' \<le> lo \<Longrightarrow> hi \<le> hi' \<Longrightarrow> strs_within m p lo' hi' args"
  by (induction args arbitrary: p) auto

lemma has_args_same:
  assumes "unat p + 4 * (length args + 1) \<le> 2 ^ 32" "hi \<le> 2 ^ 32" "has_args m p args" "strs_within m p lo hi args"
    and "\<And>x. inside p (4 * (length args + 1)) x \<Longrightarrow> m' x = m x" "\<And>x. lo \<le> unat x \<Longrightarrow> unat x < hi \<Longrightarrow> m' x = m x"
  shows "has_args m' p args \<and> strs_within m' p lo hi args"
  using assms
proof (induction args arbitrary: p)
  case Nil
  then have "get32 m' p = get32 m p" by (intro get32_same) auto
  with Nil show ?case by simp
next
  case (Cons s ss)
  have g: "get32 m' p = get32 m p" using Cons.prems(1,5) by (intro get32_same) (auto simp: inside_def)
  have "has_str m' (get32 m p) s"
    by (rule has_str_same) (use Cons.prems in \<open>auto simp: inside_def\<close>)
  moreover have p4: "unat (p + 4) = unat p + 4" using Cons.prems(1) by (intro unat_add_small) simp_all
  have "has_args m' (p + 4) ss \<and> strs_within m' (p + 4) lo hi ss"
    by (rule Cons.IH) (use Cons.prems p4 in \<open>auto simp: inside_def\<close>)
  ultimately show ?case using Cons.prems g by simp
qed

lemma put_args_spec:
  assumes "\<forall>s \<in> set args. 0 \<notin> set s" "unat slot + 4 * (length args + 1) \<le> unat p" "unat p + string_space args < 2 ^ 32"
  shows "has_args (put_args m slot p args) slot args \<and>
    strs_within (put_args m slot p args) slot (unat p) (unat p + string_space args) args \<and>
    (\<forall>x. \<not> inside slot (4 * (length args + 1)) x \<and> \<not> inside p (string_space args) x \<longrightarrow> put_args m slot p args x = m x)"
  using assms
proof (induction m slot p args rule: put_args.induct)
  case (1 m slot p)
  have "unat slot + 4 \<le> 2 ^ 32" using 1(2) unat_less [of p] by simp
  then show ?case by (simp add: put32_outside)
next
  case (2 m slot p s ss)
  let ?m1 = "write_mem (put32 m slot p) p (s @ [0])" and ?q = "p + of_nat (length s + 1)"
  let ?m' = "put_args ?m1 (slot + 4) ?q ss"
  have slot4: "unat (slot + 4) = unat slot + 4" using 2(3,4) by (intro unat_add_small) simp_all
  have q: "unat ?q = unat p + (length s + 1)" using 2(4) by (intro unat_add_nat) simp
  have IH: "has_args ?m' (slot + 4) ss" "strs_within ?m' (slot + 4) (unat ?q) (unat ?q + string_space ss) ss"
    "\<And>x. \<not> inside (slot + 4) (4 * (length ss + 1)) x \<Longrightarrow> \<not> inside ?q (string_space ss) x \<Longrightarrow> ?m' x = ?m1 x"
    using "2.IH" 2(2-4) slot4 q by simp_all
  have p0: "p \<noteq> 0" using 2(3) by auto
  have m1: "?m1 x = put32 m slot p x" if "\<not> inside p (length s + 1) x" for x
    using that 2(4) by (intro write_mem_outside) auto
  have "get32 ?m' slot = get32 ?m1 slot"
    using 2(3,4) slot4 q by (intro get32_same IH(3)) (auto simp: inside_def)
  also have "\<dots> = get32 (put32 m slot p) slot"
    using 2(3,4) by (intro get32_same m1) (auto simp: inside_def)
  finally have g: "get32 ?m' slot = p" by simp
  have "has_str ?m1 p s" using 2(2,4) by (intro has_str_write) simp_all
  then have str: "has_str ?m' p s"
  proof (rule has_str_same [rotated 2])
    fix x assume "inside p (length s + 1) x"
    then show "?m' x = ?m1 x" using 2(3,4) slot4 q by (intro IH(3)) (auto simp: inside_def)
  qed (use 2(4) in simp)
  have frame: "?m' x = m x" if "\<not> inside slot (4 * (length (s # ss) + 1)) x" "\<not> inside p (string_space (s # ss)) x" for x
  proof -
    have "?m' x = ?m1 x" using that slot4 q by (intro IH(3)) (auto simp: inside_def)
    also have "\<dots> = put32 m slot p x" using that by (intro m1) (auto simp: inside_def)
    also have "\<dots> = m x" using that 2(3,4) by (intro put32_outside) (auto simp: inside_def)
    finally show ?thesis .
  qed
  have "strs_within ?m' (slot + 4) (unat p) (unat p + string_space (s # ss)) ss"
    using strs_within_mono [OF IH(2), of "unat p"] q by (simp add: ac_simps)
  with g p0 str IH(1) frame show ?case by (simp del: write_mem.simps)
qed

text \<open>The size of the block: three words and the array, and the strings rounded up to words.\<close>

definition str_words :: "u8 list list \<Rightarrow> nat" where
  "str_words args = (string_space args + 3) div 4 * 4"

definition arg_size :: "u8 list list \<Rightarrow> nat" where
  "arg_size args = 12 + 4 * length args + str_words args"

lemma str_words_le: "string_space args \<le> str_words args"
  by (simp add: str_words_def)

lemma round_down: "t mod 4 = 0 \<Longrightarrow> (t - k) div 4 * 4 = t - (k + 3) div 4 * 4" for t k :: nat
proof -
  assume "t mod 4 = 0"
  then obtain q where q: "t = 4 * q" by (auto simp: mod_eq_0_iff_dvd)
  define a b where "a = k div 4" and "b = k mod 4"
  have k: "k = 4 * a + b" "b < 4" by (simp_all add: a_def b_def)
  have up: "(k + 3) div 4 = (if b = 0 then a else a + 1)" using k by auto
  have down: "(t - k) div 4 = (if b = 0 then q - a else q - (a + 1))"
  proof (cases "a < q")
    case True
    then obtain c where c: "q = a + 1 + c" using less_imp_Suc_add [of a q] by auto
    with q k have "t - k = 4 * c + (4 - b)" by simp
    with k(2) c show ?thesis by auto
  qed (use q k in auto)
  have "(if b = 0 then q - a else q - (a + 1)) * 4 = t - (if b = 0 then a else a + 1) * 4" using q by auto
  then show ?thesis by (simp only: up down)
qed

lemma arg_base_unat:
  assumes "arg_size args \<le> unat tp" "unat tp mod 4 = 0"
  shows "unat (arg_base tp args) = unat tp - arg_size args"
    "unat (arg_base tp args + 8) = unat tp - arg_size args + 8"
    "unat (arg_base tp args + 8 + of_nat (length args + 1) * 4) = unat tp - str_words args"
proof -
  let ?n = "length args" and ?S = "string_space args"
  have tp: "unat tp < 2 ^ 32" by (rule unat_less)
  have S: "?S \<le> unat tp" using assms(1) str_words_le [of args] by (simp add: arg_size_def)
  show base: "unat (arg_base tp args) = unat tp - arg_size args"
  proof (cases "args = []")
    case True
    then have "unat (tp - 12) = unat tp - 12" using assms(1) by (subst unat_sub) (simp_all add: arg_size_def word_le_nat_alt)
    with True show ?thesis by (simp add: arg_base_def arg_size_def str_words_def)
  next
    case False
    let ?w = "tp - of_nat ?S"
    have w: "unat ?w = unat tp - ?S"
      using S tp by (subst unat_sub) (simp_all add: word_le_nat_alt unsigned_of_nat take_bit_nat_eq_self)
    have "unat (?w mod 4) = unat ?w mod 4" by (simp add: unat_mod)
    then have "unat (?w - ?w mod 4) = unat ?w div 4 * 4"
      by (subst unat_sub) (simp_all add: word_le_nat_alt minus_mod_eq_div_mult)
    then have al: "unat (?w - ?w mod 4) = unat tp - str_words args"
      using round_down [OF assms(2), of ?S] by (simp add: w str_words_def)
    have n4: "unat (of_nat (?n + 1) * 4 :: u32) = 4 * (?n + 1)"
      using assms(1) tp by (simp add: arg_size_def unat_word_ariths unsigned_of_nat take_bit_nat_eq_self)
    let ?a = "?w - ?w mod 4 - of_nat (?n + 1) * 4"
    have big: "4 * ?n + 12 \<le> unat tp - str_words args" using assms(1) by (simp add: arg_size_def)
    have a: "unat ?a = unat tp - str_words args - 4 * (?n + 1)"
      by (subst unat_sub) (use big n4 al in \<open>simp_all only: word_le_nat_alt, simp_all\<close>)
    then have b: "unat (?a - 4) = unat tp - str_words args - 4 * (?n + 1) - 4"
      using big by (subst unat_sub) (simp_all only: word_le_nat_alt a, simp_all)
    then have "unat (?a - 4 - 4) = unat tp - str_words args - 4 * (?n + 1) - 4 - 4"
      using big by (subst unat_sub) (simp_all only: word_le_nat_alt b, simp_all)
    moreover have "arg_base tp args = ?a - 4 - 4" using False by (simp only: arg_base_def Let_def if_False)
    moreover have "unat tp - str_words args - 4 * (?n + 1) - 4 - 4 = unat tp - arg_size args" by (simp add: arg_size_def)
    ultimately show ?thesis by (simp only:)
  qed
  show base8: "unat (arg_base tp args + 8) = unat tp - arg_size args + 8"
    using base tp assms(1) by (subst unat_add_small [where k = 8]) (simp_all add: arg_size_def)
  have n4: "unat (of_nat (?n + 1) * 4 :: u32) = 4 * (?n + 1)"
    using assms(1) tp by (simp add: arg_size_def unat_word_ariths unsigned_of_nat take_bit_nat_eq_self)
  show "unat (arg_base tp args + 8 + of_nat (?n + 1) * 4) = unat tp - str_words args"
    using base8 tp assms(1) by (subst unat_add_small [OF _ n4]) (simp_all add: arg_size_def)
qed

text \<open>The array a pointer refers to; the null pointer stands for an empty one.\<close>

definition args_of :: "umem \<Rightarrow> u32 \<Rightarrow> u8 list list \<Rightarrow> bool" where
  "args_of m argv args \<longleftrightarrow> (if argv = 0 then args = [] else has_args m argv args)"

lemma has_args_terminated: "has_args m p args \<Longrightarrow> s \<in> set args \<Longrightarrow> 0 \<notin> set s"
  by (induction m p args rule: has_args.induct) (auto simp: has_str_def)

lemma build_arg_spec:
  assumes args: "args_of m argv args" and size: "arg_size args \<le> unat tp" "unat tp mod 4 = 0"
  obtains bottom dest m' where "proc_build_arg m tp argv = Some (length args, bottom, dest, m')"
    "has_args m' dest args" "strs_within m' dest (unat tp - str_words args) (unat tp) args"
    "get32 m' (dest - 8) = of_nat (length args)" "get32 m' (dest - 4) = dest" "bottom = dest - 12"
    "unat dest = unat tp - arg_size args + 8" "dest \<noteq> 0"
    "\<And>x. unat x < unat tp - arg_size args \<or> unat tp \<le> unat x \<Longrightarrow> m' x = m x"
proof -
  let ?n = "length args" and ?b = "arg_base tp args"
  let ?p = "?b + 8 + of_nat (?n + 1) * 4"
  note B = arg_base_unat [OF size]
  have tp: "unat tp < 2 ^ 32" by (rule unat_less)
  have "(if argv = 0 then Some [] else argv_at m argv) = Some args" using args argv_at_has by (auto simp: args_of_def)
  moreover define m1 where "m1 = put32 m ?b (of_nat ?n)"
  moreover define m2 where "m2 = put32 m1 (?b + 4) (?b + 8)"
  moreover define m' where "m' = put_args m2 (?b + 8) ?p args"
  ultimately have run: "proc_build_arg m tp argv = Some (?n, ?b - 4, ?b + 8, m')" by (simp add: proc_build_arg_def Let_def)
  have zero: "\<forall>s \<in> set args. 0 \<notin> set s" using args by (auto simp: args_of_def dest: has_args_terminated split: if_splits)
  have sw: "string_space args \<le> str_words args" by (rule str_words_le)
  have b4: "unat (?b + 4) = unat tp - arg_size args + 4"
    using B(1) tp size(1) by (subst unat_add_small [where k = 4]) (simp_all add: arg_size_def)
  have P: "has_args m' (?b + 8) args" "strs_within m' (?b + 8) (unat ?p) (unat ?p + string_space args) args"
    "\<And>x. \<not> inside (?b + 8) (4 * (?n + 1)) x \<Longrightarrow> \<not> inside ?p (string_space args) x \<Longrightarrow> m' x = m2 x"
    using put_args_spec [OF zero, of "?b + 8" ?p m2] B(2,3) sw tp size(1) unfolding m'_def by (simp_all add: arg_size_def)
  have strs: "strs_within m' (?b + 8) (unat tp - str_words args) (unat tp) args"
    using strs_within_mono [OF P(2), of "unat tp - str_words args" "unat tp"] B(3) sw size(1) by (simp add: arg_size_def)
  have low: "m' x = m2 x" if "unat x < unat tp - arg_size args + 8" for x
    using that B(2,3) size(1) by (intro P(3)) (auto simp: inside_def arg_size_def)
  have "get32 m' ?b = get32 m2 ?b" using B(1) tp size(1) by (intro get32_same low) (auto simp: inside_def arg_size_def)
  also have "\<dots> = get32 m1 ?b"
    unfolding m2_def using B(1) b4 tp size(1) by (intro get32_same put32_outside) (auto simp: inside_def arg_size_def)
  finally have argc: "get32 m' ?b = of_nat ?n" by (simp add: m1_def)
  have "get32 m' (?b + 4) = get32 m2 (?b + 4)" using b4 tp size(1) by (intro get32_same low) (auto simp: inside_def arg_size_def)
  then have ptr: "get32 m' (?b + 4) = ?b + 8" by (simp add: m2_def)
  have frame: "m' x = m x" if "unat x < unat tp - arg_size args \<or> unat tp \<le> unat x" for x
  proof -
    have "m' x = m2 x" using that B(2,3) sw size(1) by (intro P(3)) (auto simp: inside_def arg_size_def)
    also have "\<dots> = m1 x" unfolding m2_def using that b4 tp size(1) by (intro put32_outside) (auto simp: inside_def arg_size_def)
    also have "\<dots> = m x" unfolding m1_def using that B(1) tp size(1) by (intro put32_outside) (auto simp: inside_def arg_size_def)
    finally show ?thesis .
  qed
  have "?b + 8 \<noteq> 0" using B(2) by (metis add_is_0 numeral_eq_Suc unsigned_0 zero_neq_numeral)
  have e: "?b + 8 - 8 = ?b" "?b + 8 - 4 = ?b + 4" "?b - 4 = ?b + 8 - 12" by simp_all
  from that [OF run P(1) strs, unfolded e, OF argc ptr refl B(2)] \<open>?b + 8 \<noteq> 0\<close> frame show ?thesis by blast
qed

text \<open>
  C36. What \<open>proc_build_arg\<close> builds is the array it was given: the number of strings, the address of the array
  behind it, and an array of the same strings with a null pointer at its end. It takes exactly \<open>arg_size\<close> bytes
  below the given address and writes nowhere else, so the block fits into a page if and only if this size does.
\<close>

theorem proc_build_arg_roundtrip:
  assumes "args_of m argv args" "arg_size args \<le> unat tp" "unat tp mod 4 = 0"
  shows "\<exists>bottom dest m'. proc_build_arg m tp argv = Some (length args, bottom, dest, m') \<and>
    argv_at m' dest = Some args \<and> get32 m' (dest - 8) = of_nat (length args) \<and> get32 m' (dest - 4) = dest \<and>
    unat (dest - 8) = unat tp - arg_size args \<and> bottom = dest - 12 \<and>
    (\<forall>x. \<not> inside (dest - 8) (arg_size args) x \<longrightarrow> m' x = m x)"
proof -
  obtain bottom dest m' where r: "proc_build_arg m tp argv = Some (length args, bottom, dest, m')"
    "has_args m' dest args" "get32 m' (dest - 8) = of_nat (length args)" "get32 m' (dest - 4) = dest" "bottom = dest - 12"
    "unat dest = unat tp - arg_size args + 8"
    "\<And>x. unat x < unat tp - arg_size args \<or> unat tp \<le> unat x \<Longrightarrow> m' x = m x"
    by (rule build_arg_spec [OF assms]) blast
  have d: "unat (dest - 8) = unat tp - arg_size args" using r(6) by (subst unat_sub) (simp_all add: word_le_nat_alt)
  have "m' x = m x" if "\<not> inside (dest - 8) (arg_size args) x" for x
    using that assms(2) d by (intro r(7)) (auto simp: inside_def)
  with r(1-5) d argv_at_has [OF r(2)] show ?thesis by blast
qed

definition demo_args :: umem where
  "demo_args = put_args (\<lambda>_. 0xff) 0x1000 0x2000 [[0x6c, 0x73], [0x2d, 0x6c]]"

theorem proc_build_arg_roundtrip_witness:
  "\<exists>bottom dest m'. proc_build_arg demo_args 0x80000000 0x1000 = Some (2, bottom, dest, m') \<and>
     argv_at m' dest = Some [[0x6c, 0x73], [0x2d, 0x6c]] \<and> unat (dest - 8) = 0x80000000 - 28"
proof -
  let ?args = "[[0x6c, 0x73], [0x2d, 0x6c]] :: u8 list list"
  have "has_args demo_args 0x1000 ?args"
    using put_args_spec [of ?args "0x1000" "0x2000" "\<lambda>_. 0xff"] by (simp add: demo_args_def)
  then have "args_of demo_args 0x1000 ?args" by (simp add: args_of_def)
  from proc_build_arg_roundtrip [OF this, of "0x80000000"] show ?thesis
    by (auto simp: arg_size_def str_words_def)
qed

end
