(* ===== verification/Exec.thy ===== *)
theory Exec
  imports VmSpace ProcArgs FsPath
begin

section \<open>Loading a program\<close>

text \<open>
  \<open>do_execute\<close> and \<open>sys_execve\<close> of \<open>src/src/task/exec.c\<close>, \<open>load_segment\<close> and \<open>proc_load_image\<close> of
  \<open>src/src/task/process.c\<close> and \<open>__proc_stack_init\<close> of \<open>src/src/arch/x86/mach-i386/task/task.c\<close>, as far as they build the
  memory of the new program; what they do to threads, triggers and descriptors is with those components. \<open>rd off n\<close>
  is what a seek to \<open>off\<close> and a read of \<open>n\<close> bytes of the program file return: the bytes, or \<open>None\<close> for an error.

  Memory is flat, user and kernel addresses alike. A write reaches a page that is mapped, or that the page fault
  maps; the contents of a page that was not mapped before are arbitrary, and nothing is assumed about them. The
  kernel's own writes of the argument block take its pages to be mapped. \<open>Panic\<close> also stands for a fault
  that repeats for ever and for a search that never ends.
\<close>

subsection \<open>The file format\<close>

text \<open>The fields that the code never reads are left out of the records.\<close>

definition mem_of :: "u8 list \<Rightarrow> umem" where
  "mem_of bs a = (if unat a < length bs then bs ! unat a else 0)"

definition get16 :: "umem \<Rightarrow> u32 \<Rightarrow> u16" where
  "get16 m a = ucast (m a) OR push_bit 8 (ucast (m (a + 1)))"

record Elf32_Ehdr =
  e_ident :: "u8 list"
  e_type :: u16
  e_machine :: u16
  e_version :: u32
  e_entry :: u32
  e_phoff :: u32
  e_phentsize :: u16
  e_phnum :: u16

record Elf32_Phdr =
  p_type :: u32
  p_offset :: u32
  p_vaddr :: u32
  p_filesz :: u32
  p_memsz :: u32
  p_flags :: u32

definition ehdr_of :: "u8 list \<Rightarrow> Elf32_Ehdr" where
  "ehdr_of bs = (let m = mem_of bs in \<lparr>e_ident = take 16 bs, e_type = get16 m 16, e_machine = get16 m 18,
     e_version = get32 m 20, e_entry = get32 m 24, e_phoff = get32 m 28, e_phentsize = get16 m 42, e_phnum = get16 m 44\<rparr>)"

definition phdr_of :: "u8 list \<Rightarrow> Elf32_Phdr" where
  "phdr_of bs = (let m = mem_of bs in \<lparr>p_type = get32 m 0, p_offset = get32 m 4, p_vaddr = get32 m 8,
     p_filesz = get32 m 16, p_memsz = get32 m 20, p_flags = get32 m 24\<rparr>)"

definition PT_LOAD :: u32 where "PT_LOAD = 1"
definition ELF32_PHDR_CODE :: u32 where "ELF32_PHDR_CODE = 5"
definition ELF32_PHDR_DATA :: u32 where "ELF32_PHDR_DATA = 6"
definition SIZEOF_EHDR :: u32 where "SIZEOF_EHDR = 52"
definition SIZEOF_PHDR :: u32 where "SIZEOF_PHDR = 32"

text \<open>The test of \<open>do_execute\<close>; the magic number is \<open>"\177ELF\1\1\1"\<close>.\<close>

definition elf_ok :: "Elf32_Ehdr \<Rightarrow> bool" where
  "elf_ok h \<longleftrightarrow> \<not> (take 7 (e_ident h) \<noteq> [0x7f, 0x45, 0x4c, 0x46, 1, 1, 1] \<or> e_type h \<noteq> 2 \<or> e_machine h \<noteq> 3 \<or>
     e_version h \<noteq> 1 \<or> e_phnum h > 1024 \<or> ucast (e_phentsize h) \<noteq> SIZEOF_PHDR)"

subsection \<open>The memory of the program\<close>

record image =
  ivm :: vmm
  umem :: umem
  code_start :: u32
  code_end :: u32
  data_start :: u32
  data_end :: u32
  stack_start :: u32
  stack_end :: u32

definition touch :: "vmm \<Rightarrow> u32 \<Rightarrow> vmm kret" where
  "touch vm a = (if mapped (vm_pages vm) a then Ret vm
     else case do_page_fault vm a 2 0 of Panic \<Rightarrow> Panic
          | Ret (_, vm, _) \<Rightarrow> if mapped (vm_pages vm) a then Ret vm else Panic)"

fun touch_all :: "vmm \<Rightarrow> u32 \<Rightarrow> nat \<Rightarrow> vmm kret" where
  "touch_all vm a 0 = Ret vm"
| "touch_all vm a (Suc n) = (case touch vm a of Panic \<Rightarrow> Panic | Ret vm \<Rightarrow> touch_all vm (a + 1) n)"

definition write_user :: "image \<Rightarrow> u32 \<Rightarrow> u8 list \<Rightarrow> image kret" where
  "write_user im a bs = (case touch_all (ivm im) a (length bs) of Panic \<Rightarrow> Panic
     | Ret vm \<Rightarrow> Ret (im\<lparr>ivm := vm, umem := write_mem (umem im) a bs\<rparr>))"

definition segment_pages :: "u32 \<Rightarrow> u32 \<Rightarrow> u32" where
  "segment_pages vaddr mem_sz =
     (let size_in_first_page = PAGE_SIZE - (vaddr AND (PAGE_SIZE - 1))
      in if mem_sz > size_in_first_page then DIV_ROUND_UP (mem_sz - size_in_first_page) PAGE_SIZE + 1 else 1)"

text \<open>The rounding of a huge segment wraps, and one page is mapped for it.\<close>

lemma segment_pages_wraps: "segment_pages 0x400ff8 0xfffff010 = 1"
  by (simp add: segment_pages_def DIV_ROUND_UP_def PAGE_SIZE_val)

text \<open>\<open>new\<close> is what \<open>kmalloc\<close> returns for the space.\<close>

definition load_segment :: "(u32 \<Rightarrow> u32 \<Rightarrow> u8 list option) \<Rightarrow> image \<Rightarrow> nat option \<Rightarrow> u32 \<Rightarrow> u32 \<Rightarrow> u32 \<Rightarrow> u32 \<Rightarrow>
    (int \<times> image) kret" where
  "load_segment rd im new off file_sz mem_sz vaddr =
     (case do_vmspace_map (ivm im) new (vaddr AND PAGE_ADDR_MASK) 0 (segment_pages vaddr mem_sz * PAGE_SIZE)
             (PROT_USER OR PROT_WRITE) VMS_MAP_FIXED of
        Panic \<Rightarrow> Panic
      | Ret (r, vm) \<Rightarrow>
          let im = im\<lparr>ivm := vm\<rparr>
          in if sint r < 0 then Ret (-1, im)
             else case rd off file_sz of None \<Rightarrow> Ret (-1, im)
                  | Some bs \<Rightarrow> (case write_user im vaddr bs of Panic \<Rightarrow> Panic
                      | Ret im \<Rightarrow> Ret (if length bs \<noteq> unat file_sz then -1 else 0, im)))"

definition set_heap :: "image \<Rightarrow> u32 \<Rightarrow> image" where
  "set_heap im e = im\<lparr>ivm := (ivm im)\<lparr>heap_start := PAGE_ALIGN (e + PAGE_SIZE), heap_end := PAGE_ALIGN (e + PAGE_SIZE)\<rparr>\<rparr>"

definition clear_bss :: "image \<Rightarrow> Elf32_Phdr \<Rightarrow> image kret" where
  "clear_bss im h = (if p_memsz h > p_filesz h
     then write_user im (p_vaddr h + p_filesz h) (replicate (unat (p_memsz h - p_filesz h)) 0) else Ret im)"

definition set_ranges :: "image \<Rightarrow> Elf32_Phdr \<Rightarrow> image" where
  "set_ranges im h =
     (let prog_end = p_vaddr h + p_memsz h;
          im = (if p_flags h = ELF32_PHDR_CODE
                then set_heap (im\<lparr>code_start := p_vaddr h, code_end := prog_end\<rparr>) prog_end
                else if p_flags h = ELF32_PHDR_DATA
                then set_heap (im\<lparr>data_start := p_vaddr h, data_end := prog_end\<rparr>) prog_end else im)
      in if heap_start (ivm im) = 0 \<and> heap_end (ivm im) = 0 then set_heap im prog_end else im)"

definition load_header :: "(u32 \<Rightarrow> u32 \<Rightarrow> u8 list option) \<Rightarrow> image \<Rightarrow> nat option \<Rightarrow> Elf32_Phdr \<Rightarrow> (int \<times> image) kret" where
  "load_header rd im new h =
     (if p_type h \<noteq> PT_LOAD then Ret (0, im)
      else case load_segment rd im new (p_offset h) (p_filesz h) (p_memsz h) (p_vaddr h) of
             Panic \<Rightarrow> Panic
           | Ret (r, im) \<Rightarrow> if r \<noteq> 0 then Ret (-1, im)
               else case clear_bss im h of Panic \<Rightarrow> Panic | Ret im \<Rightarrow> Ret (0, set_ranges im h))"

text \<open>The loop of \<open>proc_load_image\<close> over the \<open>n\<close> headers from number \<open>i\<close> on, of which the next is at \<open>off\<close>.\<close>

fun load_headers :: "(u32 \<Rightarrow> u32 \<Rightarrow> u8 list option) \<Rightarrow> (nat \<Rightarrow> nat option) \<Rightarrow> image \<Rightarrow> u32 \<Rightarrow> u32 \<Rightarrow> nat \<Rightarrow> nat \<Rightarrow>
    (int \<times> image) kret" where
  "load_headers rd new im off sz i 0 = Ret (0, im)"
| "load_headers rd new im off sz i (Suc n) =
     (case rd off sz of None \<Rightarrow> Ret (-1, im)
      | Some bs \<Rightarrow> if length bs \<noteq> unat sz then Ret (-1, im)
          else case load_header rd im (new i) (phdr_of bs) of
                 Panic \<Rightarrow> Panic
               | Ret (r, im) \<Rightarrow> if r \<noteq> 0 then Ret (-1, im) else load_headers rd new im (off + sz) sz (i + 1) n)"

definition proc_load_image :: "(u32 \<Rightarrow> u32 \<Rightarrow> u8 list option) \<Rightarrow> (nat \<Rightarrow> nat option) \<Rightarrow> image \<Rightarrow> Elf32_Ehdr \<Rightarrow>
    (int \<times> image) kret" where
  "proc_load_image rd new im h = load_headers rd new im (e_phoff h) (ucast (e_phentsize h)) 0 (unat (e_phnum h))"

subsection \<open>The stack and the registers\<close>

definition DEFAULT_STACK_SIZE :: u32 where "DEFAULT_STACK_SIZE = PAGE_SIZE * 4"
definition VMS_MAP_STACK :: u32 where "VMS_MAP_STACK = 0x20"
definition USER_STACK_TOP :: u32 where "USER_STACK_TOP = USER_VMM_SIZE"
definition VMS_MAP_START_ADDR :: u32 where "VMS_MAP_START_ADDR = 0x60000000"
definition MAX_VMS_MAP_SIZE :: u32 where "MAX_VMS_MAP_SIZE = 0x10000000"

text \<open>The registers of the frame that carry a value; \<open>esp\<close> and \<open>eip\<close> keep a value of the old frame until they are set.\<close>

record user_frame =
  u_ecx :: u32
  u_ebx :: u32
  u_edx :: u32
  u_esp :: u32
  u_ebp :: u32
  u_eip :: u32

definition user_trap_frame_init :: user_frame where
  "user_trap_frame_init = \<lparr>u_ecx = 0, u_ebx = 0, u_edx = 0, u_esp = 0, u_ebp = 0, u_eip = 0\<rparr>"

definition proc_stack_init :: "image \<Rightarrow> nat option \<Rightarrow> nat option \<Rightarrow> user_frame \<Rightarrow> u32 \<Rightarrow> u32 \<Rightarrow> (int \<times> image \<times> user_frame) kret" where
  "proc_stack_init im new new2 frame argv envp =
     (let top_end = USER_STACK_TOP; start = top_end - DEFAULT_STACK_SIZE;
          im = im\<lparr>stack_end := top_end, stack_start := start\<rparr>
      in case do_vmspace_map (ivm im) new start 0 (top_end - start) (PROT_USER OR PROT_WRITE)
                (VMS_MAP_FIXED OR VMS_MAP_STACK) of
           Panic \<Rightarrow> Panic
         | Ret (r, vm) \<Rightarrow>
             let im = im\<lparr>ivm := vm\<rparr>
             in if r = -1 then Ret (-1, im, frame)
                else case write_user im start (replicate (unat (top_end - start)) 0) of
                  Panic \<Rightarrow> Panic
                | Ret im \<Rightarrow> (case proc_build_arg (umem im) top_end envp of
                    None \<Rightarrow> Panic
                  | Some (_, bottom, new_envp, m) \<Rightarrow> (case proc_build_arg m bottom argv of
                      None \<Rightarrow> Panic
                    | Some (argc, bottom, new_argv, m) \<Rightarrow>
                        let im = im\<lparr>umem := m\<rparr>;
                            frame = frame\<lparr>u_ecx := of_nat argc, u_ebx := new_argv, u_edx := new_envp\<rparr>
                        in if bottom = 0
                           then Ret (-1, im\<lparr>ivm := snd (do_vmspace_unmap (ivm im) new2 start (top_end - start))\<rparr>, frame)
                           else Ret (0, im, frame\<lparr>u_esp := bottom, u_ebp := bottom\<rparr>))))"

definition proc_map_space_init :: "image \<Rightarrow> image" where
  "proc_map_space_init im = im\<lparr>ivm := (ivm im)\<lparr>map_start := VMS_MAP_START_ADDR,
     map_end := VMS_MAP_START_ADDR + MAX_VMS_MAP_SIZE\<rparr>\<rparr>"

subsection \<open>Replacing the image\<close>

datatype exec_result = ExecFails image | ExecExits image | ExecRuns image user_frame

definition release_image :: "image \<Rightarrow> image" where
  "release_image im = im\<lparr>ivm := snd (vmm_release_space (snd (vmm_unmap_space_maparea (ivm im)))),
     code_start := 0, code_end := 0, data_start := 0, data_end := 0, stack_start := 0, stack_end := 0\<rparr>"

text \<open>
  \<open>do_execute\<close> from the header on. \<open>tmp_arg\<close> is the page \<open>kmalloc\<close> returns for the arguments, \<open>new\<close> what it
  returns for the spaces of the segments, \<open>new1\<close> and \<open>new2\<close> for the stack.
\<close>

definition do_execute :: "(u32 \<Rightarrow> u32 \<Rightarrow> u8 list option) \<Rightarrow> (nat \<Rightarrow> nat option) \<Rightarrow> nat option \<Rightarrow> nat option \<Rightarrow> u32 option \<Rightarrow>
    image \<Rightarrow> u32 \<Rightarrow> u32 \<Rightarrow> exec_result kret" where
  "do_execute rd new new1 new2 tmp_arg im argv envp =
     (case rd 0 SIZEOF_EHDR of None \<Rightarrow> Ret (ExecFails im)
      | Some bs \<Rightarrow>
          if length bs \<noteq> unat SIZEOF_EHDR \<or> \<not> elf_ok (ehdr_of bs) then Ret (ExecFails im)
          else case tmp_arg of None \<Rightarrow> Ret (ExecFails im)
          | Some tmp \<Rightarrow> (case proc_build_arg (umem im) (tmp + PAGE_SIZE) envp of None \<Rightarrow> Panic
            | Some (_, arg_bottom, new_envp, m) \<Rightarrow> (case proc_build_arg m arg_bottom argv of None \<Rightarrow> Panic
              | Some (_, _, new_argv, m) \<Rightarrow>
                  let im = release_image (im\<lparr>umem := m\<rparr>)
                  in case proc_load_image rd new im (ehdr_of bs) of Panic \<Rightarrow> Panic
                     | Ret (r, im) \<Rightarrow>
                         if r < 0 then Ret (ExecFails im)
                         else case proc_stack_init im new1 new2 user_trap_frame_init new_argv new_envp of
                                Panic \<Rightarrow> Panic
                              | Ret (r, im, frame) \<Rightarrow>
                                  if r < 0 then Ret (ExecExits im)
                                  else Ret (ExecRuns (proc_map_space_init im)
                                              (frame\<lparr>u_eip := e_entry (ehdr_of bs)\<rparr>)))))"


subsection \<open>What a loaded program has in memory\<close>

text \<open>The headers the loop reads, the bytes a segment takes, and a memory that holds a segment.\<close>

fun phdrs :: "(u32 \<Rightarrow> u32 \<Rightarrow> u8 list option) \<Rightarrow> u32 \<Rightarrow> u32 \<Rightarrow> nat \<Rightarrow> Elf32_Phdr list option" where
  "phdrs rd off sz 0 = Some []"
| "phdrs rd off sz (Suc n) = (case rd off sz of None \<Rightarrow> None
     | Some bs \<Rightarrow> map_option (\<lambda>hs. phdr_of bs # hs) (phdrs rd (off + sz) sz n))"

definition extent :: "Elf32_Phdr \<Rightarrow> nat" where
  "extent h = (if p_type h = PT_LOAD then max (unat (p_filesz h)) (unat (p_memsz h)) else 0)"

definition loaded :: "(u32 \<Rightarrow> u32 \<Rightarrow> u8 list option) \<Rightarrow> Elf32_Phdr \<Rightarrow> umem \<Rightarrow> bool" where
  "loaded rd h m \<longleftrightarrow> p_type h \<noteq> PT_LOAD \<or> (case rd (p_offset h) (p_filesz h) of None \<Rightarrow> False
     | Some bs \<Rightarrow> length bs = unat (p_filesz h) \<and> (\<forall>i < length bs. m (p_vaddr h + of_nat i) = bs ! i) \<and>
         (\<forall>i < unat (p_memsz h). length bs \<le> i \<longrightarrow> m (p_vaddr h + of_nat i) = 0))"

text \<open>Segments that end at \<open>limit\<close> or below it and do not overlap.\<close>

fun segments_ok :: "nat \<Rightarrow> Elf32_Phdr list \<Rightarrow> bool" where
  "segments_ok limit [] = True"
| "segments_ok limit (h # hs) = ((p_type h = PT_LOAD \<longrightarrow> unat (p_vaddr h) + extent h \<le> limit) \<and>
     (\<forall>g \<in> set hs. extent h = 0 \<or> extent g = 0 \<or> unat (p_vaddr h) + extent h \<le> unat (p_vaddr g) \<or>
        unat (p_vaddr g) + extent g \<le> unat (p_vaddr h)) \<and> segments_ok limit hs)"

definition load_mem :: "umem \<Rightarrow> Elf32_Phdr \<Rightarrow> u8 list \<Rightarrow> umem" where
  "load_mem m h bs = write_mem (write_mem m (p_vaddr h) bs) (p_vaddr h + p_filesz h)
     (replicate (unat (p_memsz h) - unat (p_filesz h)) 0)"

lemma write_user_umem: "write_user im a bs = Ret im' \<Longrightarrow> umem im' = write_mem (umem im) a bs"
  by (auto simp: write_user_def split: kret.splits)

lemma load_segment_umem:
  assumes "load_segment rd im new off fsz msz v = Ret (0, im')"
  obtains bs where "rd off fsz = Some bs" "length bs = unat fsz" "umem im' = write_mem (umem im) v bs"
  using assms
  by (fastforce simp: load_segment_def Let_def dest: write_user_umem split: kret.splits option.splits if_splits)

lemma clear_bss_umem:
  assumes "clear_bss im h = Ret im'"
  shows "umem im' = write_mem (umem im) (p_vaddr h + p_filesz h) (replicate (unat (p_memsz h) - unat (p_filesz h)) 0)"
proof (cases "p_memsz h > p_filesz h")
  case True
  then have "unat (p_memsz h - p_filesz h) = unat (p_memsz h) - unat (p_filesz h)"
    by (intro unat_sub) (simp add: order_less_imp_le)
  with True assms show ?thesis by (auto simp: clear_bss_def dest!: write_user_umem)
next
  case False
  then have "unat (p_memsz h) - unat (p_filesz h) = 0" by (simp add: word_less_nat_alt)
  with False assms show ?thesis by (simp add: clear_bss_def)
qed

lemma set_ranges_umem [simp]: "umem (set_ranges im h) = umem im"
  by (simp add: set_ranges_def set_heap_def Let_def)

lemma load_header_umem:
  assumes "load_header rd im new h = Ret (0, im')"
  shows "if p_type h = PT_LOAD then \<exists>bs. rd (p_offset h) (p_filesz h) = Some bs \<and> length bs = unat (p_filesz h) \<and>
    umem im' = load_mem (umem im) h bs else im' = im"
proof (cases "p_type h = PT_LOAD")
  case True
  with assms obtain im1 im2 where "load_segment rd im new (p_offset h) (p_filesz h) (p_memsz h) (p_vaddr h) = Ret (0, im1)"
    "clear_bss im1 h = Ret im2" "im' = set_ranges im2 h"
    by (auto simp: load_header_def split: kret.splits if_splits)
  with True show ?thesis by (auto simp: load_mem_def clear_bss_umem elim!: load_segment_umem)
qed (use assms in \<open>simp add: load_header_def\<close>)

lemma load_mem_frame:
  assumes "p_type h = PT_LOAD" "length bs = unat (p_filesz h)" "unat (p_vaddr h) + extent h < 2 ^ 32"
    "\<not> inside (p_vaddr h) (extent h) x"
  shows "load_mem m h bs x = m x"
proof -
  have v: "unat (p_vaddr h + p_filesz h) = unat (p_vaddr h) + unat (p_filesz h)"
    using assms(1,3) by (intro unat_add_small) (simp_all add: extent_def)
  have "load_mem m h bs x = write_mem m (p_vaddr h) bs x"
    unfolding load_mem_def using assms v by (intro write_mem_outside) (auto simp: inside_def extent_def)
  also have "\<dots> = m x" using assms by (intro write_mem_outside) (auto simp: inside_def extent_def)
  finally show ?thesis .
qed

lemma loaded_mem:
  assumes "p_type h = PT_LOAD" "rd (p_offset h) (p_filesz h) = Some bs" "length bs = unat (p_filesz h)"
    "unat (p_vaddr h) + extent h < 2 ^ 32"
  shows "loaded rd h (load_mem m h bs)"
proof -
  let ?v = "p_vaddr h" and ?f = "unat (p_filesz h)" and ?n = "unat (p_memsz h)"
  have v: "unat (?v + p_filesz h) = unat ?v + ?f" using assms(1,4) by (intro unat_add_small) (simp_all add: extent_def)
  have "load_mem m h bs (?v + of_nat i) = bs ! i" if i: "i < length bs" for i
  proof -
    have "unat (?v + of_nat i) = unat ?v + i" using i assms(1,3,4) by (intro unat_add_nat) (simp add: extent_def)
    then have "load_mem m h bs (?v + of_nat i) = write_mem m ?v bs (?v + of_nat i)"
      unfolding load_mem_def using assms v i by (intro write_mem_outside) (auto simp: inside_def extent_def)
    then show ?thesis using i assms(3) unat_less [of "p_filesz h"] by (simp add: write_mem_nth)
  qed
  moreover have "load_mem m h bs (?v + of_nat i) = 0" if i: "i < ?n" "length bs \<le> i" for i
  proof -
    have "load_mem m h bs (?v + p_filesz h + of_nat (i - ?f)) = replicate (?n - ?f) 0 ! (i - ?f)"
      unfolding load_mem_def using i assms(3) unat_less [of "p_memsz h"] by (intro write_mem_nth) simp_all
    moreover have "?v + p_filesz h + of_nat (i - ?f) = ?v + of_nat i"
      using i assms(3) by (simp add: of_nat_diff)
    ultimately show ?thesis using i assms(3) by simp
  qed
  ultimately show ?thesis using assms(2,3) by (simp add: loaded_def)
qed

lemma loaded_same:
  assumes "loaded rd h m" "unat (p_vaddr h) + extent h < 2 ^ 32" "\<And>x. inside (p_vaddr h) (extent h) x \<Longrightarrow> m' x = m x"
  shows "loaded rd h m'"
proof (cases "p_type h = PT_LOAD")
  case True
  have "m' (p_vaddr h + of_nat i) = m (p_vaddr h + of_nat i)" if "i < extent h" for i
    using assms(2) that by (intro assms(3)) (simp add: inside_def unat_add_nat)
  with True assms(1) show ?thesis by (auto simp: loaded_def extent_def split: option.splits)
qed (simp add: loaded_def)

text \<open>The loop puts every segment in place and leaves the rest of the memory as it is.\<close>

lemma load_headers_mem:
  assumes "load_headers rd new im off sz i n = Ret (0, im')"
  obtains hs where "phdrs rd off sz n = Some hs"
    "segments_ok limit hs \<Longrightarrow> limit < 2 ^ 32 \<Longrightarrow> \<forall>h \<in> set hs. loaded rd h (umem im')"
    "segments_ok limit hs \<Longrightarrow> limit < 2 ^ 32 \<Longrightarrow> \<forall>x. (\<forall>h \<in> set hs. \<not> inside (p_vaddr h) (extent h) x) \<longrightarrow> umem im' x = umem im x"
  using assms
proof (induction n arbitrary: im off i thesis)
  case (Suc n)
  from Suc.prems(2) obtain bs im1 where bs: "rd off sz = Some bs"
    and h: "load_header rd im (new i) (phdr_of bs) = Ret (0, im1)"
    and rest: "load_headers rd new im1 (off + sz) sz (i + 1) n = Ret (0, im')"
    by (auto split: option.splits if_splits kret.splits)
  let ?h = "phdr_of bs"
  obtain hs where hs: "phdrs rd (off + sz) sz n = Some hs"
    "segments_ok limit hs \<Longrightarrow> limit < 2 ^ 32 \<Longrightarrow> \<forall>h \<in> set hs. loaded rd h (umem im')"
    "segments_ok limit hs \<Longrightarrow> limit < 2 ^ 32 \<Longrightarrow>
       \<forall>x. (\<forall>h \<in> set hs. \<not> inside (p_vaddr h) (extent h) x) \<longrightarrow> umem im' x = umem im1 x"
    using Suc.IH [OF _ rest] by blast
  show thesis
  proof (rule Suc.prems(1))
    show "phdrs rd off sz (Suc n) = Some (?h # hs)" using bs hs(1) by simp
    assume ok: "segments_ok limit (?h # hs)" and lim: "limit < 2 ^ 32"
    have ok': "segments_ok limit hs" using ok by simp
    have top_h: "unat (p_vaddr ?h) + extent ?h < 2 ^ 32 \<or> p_type ?h \<noteq> PT_LOAD" using ok lim by auto
    have frame1: "umem im1 x = umem im x" if "\<not> inside (p_vaddr ?h) (extent ?h) x" for x
      using load_header_umem [OF h] load_mem_frame [of ?h _ x "umem im"] that top_h by (auto split: if_splits)
    have "loaded rd ?h (umem im1)"
      using load_header_umem [OF h] loaded_mem [of ?h rd _ "umem im"] top_h by (cases "p_type ?h = PT_LOAD") (auto simp: loaded_def)
    moreover have "umem im' x = umem im1 x" if "inside (p_vaddr ?h) (extent ?h) x" for x
    proof (rule hs(3) [OF ok' lim, rule_format])
      fix g assume "g \<in> set hs"
      with ok have "extent ?h = 0 \<or> extent g = 0 \<or> unat (p_vaddr ?h) + extent ?h \<le> unat (p_vaddr g) \<or>
        unat (p_vaddr g) + extent g \<le> unat (p_vaddr ?h)" by auto
      with that show "\<not> inside (p_vaddr g) (extent g) x" by (auto simp: inside_def)
    qed
    ultimately have "loaded rd ?h (umem im')"
      using top_h by (cases "p_type ?h = PT_LOAD") (blast intro: loaded_same, simp add: loaded_def)
    then show "\<forall>h \<in> set (?h # hs). loaded rd h (umem im')" using hs(2) [OF ok' lim] by simp
    show "\<forall>x. (\<forall>h \<in> set (?h # hs). \<not> inside (p_vaddr h) (extent h) x) \<longrightarrow> umem im' x = umem im x"
      using hs(3) [OF ok' lim] frame1 by auto
  qed
qed auto


lemma load_headers_ret: "load_headers rd new im off sz i n = Ret (r, im') \<Longrightarrow> r = 0 \<or> r = -1"
  by (induction n arbitrary: im off i) (auto split: option.splits if_splits kret.splits)

lemma segments_below: "segments_ok limit hs \<Longrightarrow> h \<in> set hs \<Longrightarrow> unat (p_vaddr h) + extent h \<le> limit \<or> extent h = 0"
  by (induction hs) (auto simp: extent_def)

lemma loaded_frame:
  assumes "loaded rd h m" "unat (p_vaddr h) + extent h \<le> limit \<or> extent h = 0" "limit < 2 ^ 32"
    "\<And>x. unat x < limit \<Longrightarrow> m' x = m x"
  shows "loaded rd h m'"
proof (rule loaded_same [OF assms(1)])
  show "unat (p_vaddr h) + extent h < 2 ^ 32" using assms(2,3) unat_less [of "p_vaddr h"] by auto
  show "m' x = m x" if "inside (p_vaddr h) (extent h) x" for x
    using that assms(2) by (intro assms(4)) (auto simp: inside_def)
qed

subsection \<open>The arguments of the new program\<close>

text \<open>An array of strings that lies in a range of addresses with its strings.\<close>

definition args_in :: "umem \<Rightarrow> u32 \<Rightarrow> nat \<Rightarrow> nat \<Rightarrow> u8 list list \<Rightarrow> bool" where
  "args_in m p lo hi args \<longleftrightarrow> has_args m p args \<and> strs_within m p lo hi args \<and>
     lo \<le> unat p \<and> unat p + 4 * (length args + 1) \<le> hi"

definition args_from :: "umem \<Rightarrow> u32 \<Rightarrow> nat \<Rightarrow> nat \<Rightarrow> u8 list list \<Rightarrow> bool" where
  "args_from m p lo hi args \<longleftrightarrow> (if p = 0 then args = [] else args_in m p lo hi args)"

definition user_args :: "umem \<Rightarrow> u32 \<Rightarrow> u8 list list \<Rightarrow> bool" where
  "user_args m p args \<longleftrightarrow> args_from m p 0 0x80000000 args"

lemma args_in_same:
  assumes "args_in m p lo hi args" "hi \<le> 2 ^ 32" "\<And>x. lo \<le> unat x \<Longrightarrow> unat x < hi \<Longrightarrow> m' x = m x"
  shows "args_in m' p lo hi args"
proof -
  have "has_args m' p args \<and> strs_within m' p lo hi args"
    by (rule has_args_same) (use assms in \<open>auto simp: args_in_def inside_def\<close>)
  with assms(1) show ?thesis by (simp add: args_in_def)
qed

lemma args_from_of: "args_from m p lo hi args \<Longrightarrow> args_of m p args"
  by (simp add: args_from_def args_of_def args_in_def split: if_splits)

lemma args_from_same:
  assumes "args_from m p lo hi args" "hi \<le> 2 ^ 32" "\<And>x. lo \<le> unat x \<Longrightarrow> unat x < hi \<Longrightarrow> m' x = m x"
  shows "args_from m' p lo hi args"
  using args_in_same [OF _ assms(2,3)] assms(1) by (simp add: args_from_def)

text \<open>The environment and below it the arguments, as \<open>do_execute\<close> and \<open>__proc_stack_init\<close> build them.\<close>

definition block_size :: "u8 list list \<Rightarrow> u8 list list \<Rightarrow> nat" where
  "block_size as es = arg_size es + 4 + arg_size as"

lemma build_two:
  assumes src: "args_from m argv lo hi as" "args_from m envp lo hi es" "hi \<le> 2 ^ 32"
    and size: "block_size as es \<le> k" "k \<le> unat tp" "unat tp mod 4 = 0" and away: "hi \<le> unat tp - k \<or> unat tp \<le> lo"
  obtains b1 envp' m1 argv' m2 where
    "proc_build_arg m tp envp = Some (length es, b1, envp', m1)"
    "proc_build_arg m1 b1 argv = Some (length as, argv' - 12, argv', m2)"
    "args_in m2 argv' (unat tp - k) (unat tp) as" "args_in m2 envp' (unat tp - k) (unat tp) es" "argv' \<noteq> 0" "envp' \<noteq> 0"
    "\<And>x. unat x < unat tp - k \<or> unat tp \<le> unat x \<Longrightarrow> m2 x = m x"
proof -
  have tp: "unat tp < 2 ^ 32" by (rule unat_less)
  obtain b1 envp' m1 where e: "proc_build_arg m tp envp = Some (length es, b1, envp', m1)" "has_args m1 envp' es"
    "strs_within m1 envp' (unat tp - str_words es) (unat tp) es" "b1 = envp' - 12"
    "unat envp' = unat tp - arg_size es + 8" "envp' \<noteq> 0"
    "\<And>x. unat x < unat tp - arg_size es \<or> unat tp \<le> unat x \<Longrightarrow> m1 x = m x"
    by (rule build_arg_spec [OF args_from_of [OF src(2)], of tp]) (use size in \<open>auto simp: block_size_def\<close>)
  have b1: "unat b1 = unat tp - arg_size es - 4"
    using e(4,5) size by (subst e(4), subst unat_sub) (simp_all add: word_le_nat_alt block_size_def arg_size_def)
  have "arg_size es mod 4 = 0" by (simp add: arg_size_def str_words_def mod_simps)
  then have al: "unat b1 mod 4 = 0" using b1 size by (simp add: block_size_def arg_size_def) presburger
  have src1: "args_from m1 argv lo hi as"
    using src size away by (intro args_from_same [OF src(1)] e(7)) (auto simp: block_size_def)
  obtain b2 argv' m2 where a: "proc_build_arg m1 b1 argv = Some (length as, b2, argv', m2)" "has_args m2 argv' as"
    "strs_within m2 argv' (unat b1 - str_words as) (unat b1) as" "b2 = argv' - 12"
    "unat argv' = unat b1 - arg_size as + 8" "argv' \<noteq> 0"
    "\<And>x. unat x < unat b1 - arg_size as \<or> unat b1 \<le> unat x \<Longrightarrow> m2 x = m1 x"
    by (rule build_arg_spec [OF args_from_of [OF src1], of b1]) (use size b1 al in \<open>auto simp: block_size_def\<close>)
  have "args_in m2 argv' (unat tp - k) (unat tp) as"
    using a(2,5) strs_within_mono [OF a(3), of "unat tp - k" "unat tp"] b1 size
    by (simp add: args_in_def block_size_def arg_size_def)
  moreover have "args_in m1 envp' (unat tp - arg_size es) (unat tp) es"
    using e(2,5) strs_within_mono [OF e(3), of "unat tp - arg_size es" "unat tp"] size
    by (simp add: args_in_def block_size_def arg_size_def)
  then have "args_in m2 envp' (unat tp - arg_size es) (unat tp) es"
    using tp b1 by (elim args_in_same) (auto intro!: a(7))
  then have "args_in m2 envp' (unat tp - k) (unat tp) es"
    using size by (auto simp: args_in_def block_size_def intro: strs_within_mono)
  moreover have "m2 x = m x" if "unat x < unat tp - k \<or> unat tp \<le> unat x" for x
  proof -
    have "m2 x = m1 x" using that b1 size by (intro a(7)) (auto simp: block_size_def)
    also have "\<dots> = m x" using that size by (intro e(7)) (auto simp: block_size_def)
    finally show ?thesis .
  qed
  ultimately show ?thesis using that e(1,6) a(1,4,6) by blast
qed

lemma proc_stack_init_args:
  assumes "proc_stack_init im new new2 frame argv envp = Ret (r, im', f)" "\<not> r < 0"
    and src: "args_from (umem im) argv 0x80000000 hi as" "args_from (umem im) envp 0x80000000 hi es" "hi \<le> 2 ^ 32"
      "block_size as es \<le> 0x4000"
  shows "u_ecx f = of_nat (length as) \<and> argv_at (umem im') (u_ebx f) = Some as \<and> argv_at (umem im') (u_edx f) = Some es \<and>
    u_esp f = u_ebx f - 12 \<and> u_ebp f = u_esp f \<and> (\<forall>x. unat x < 0x7fffc000 \<longrightarrow> umem im' x = umem im x)"
proof -
  let ?s = "USER_STACK_TOP - DEFAULT_STACK_SIZE" and ?z = "replicate 0x4000 0 :: u8 list"
  have top: "unat USER_STACK_TOP = 0x80000000" "unat ?s = 0x7fffc000" "unat (USER_STACK_TOP - ?s) = 0x4000"
    by (simp_all add: USER_STACK_TOP_def USER_VMM_SIZE_def DEFAULT_STACK_SIZE_def PAGE_SIZE_val)
  define im0 where "im0 = im\<lparr>stack_end := USER_STACK_TOP, stack_start := ?s\<rparr>"
  note run = assms(1) [unfolded proc_stack_init_def Let_def, folded im0_def]
  obtain q vm where mp: "do_vmspace_map (ivm im0) new ?s 0 (USER_STACK_TOP - ?s) (PROT_USER OR PROT_WRITE)
      (VMS_MAP_FIXED OR VMS_MAP_STACK) = Ret (q, vm)"
    using run by (auto split: kret.splits)
  note run = run [unfolded mp, simplified]
  have q: "q \<noteq> -1" using run assms(2) by auto
  obtain im2 where w: "write_user (im0\<lparr>ivm := vm\<rparr>) ?s (replicate (unat (USER_STACK_TOP - ?s)) 0) = Ret im2"
    using run q by (auto split: kret.splits)
  note run = run [unfolded w if_not_P [OF q], simplified]
  obtain c1 b1 envp' m1 where b1: "proc_build_arg (umem im2) USER_STACK_TOP envp = Some (c1, b1, envp', m1)"
    using run q by (cases "proc_build_arg (umem im2) USER_STACK_TOP envp") (auto simp: w)
  obtain argc b2 argv' m2 where b2: "proc_build_arg m1 b1 argv = Some (argc, b2, argv', m2)"
    using run q by (cases "proc_build_arg m1 b1 argv") (auto simp: w b1)
  have f: "umem im' = m2" "u_ecx f = of_nat argc" "u_ebx f = argv'" "u_edx f = envp'" "u_esp f = b2" "u_ebp f = b2"
    using run q assms(2) by (auto simp: w b1 b2 split: if_splits)
  have w1: "umem (im0\<lparr>ivm := vm\<rparr>) = umem im" by (simp add: im0_def)
  have m: "umem im2 x = umem im x" if "unat x < 0x7fffc000 \<or> 0x80000000 \<le> unat x" for x
    unfolding write_user_umem [OF w] w1 top
    using that top(2) by (intro write_mem_outside) (auto simp: inside_def)
  have "args_from (umem im2) argv 0x80000000 hi as" "args_from (umem im2) envp 0x80000000 hi es"
    using src by (auto elim!: args_from_same intro: m)
  then obtain b1' envp'' m1' argv'' m2' where
    "proc_build_arg (umem im2) USER_STACK_TOP envp = Some (length es, b1', envp'', m1')"
    "proc_build_arg m1' b1' argv = Some (length as, argv'' - 12, argv'', m2')"
    "args_in m2' argv'' (unat USER_STACK_TOP - 0x4000) (unat USER_STACK_TOP) as"
    "args_in m2' envp'' (unat USER_STACK_TOP - 0x4000) (unat USER_STACK_TOP) es"
    "\<And>x. unat x < unat USER_STACK_TOP - 0x4000 \<or> unat USER_STACK_TOP \<le> unat x \<Longrightarrow> m2' x = umem im2 x"
    by (rule build_two [OF _ _ src(3,4), of "umem im2" _ _ _ USER_STACK_TOP]) (use top in auto)
  with b1 b2 f m top show ?thesis by (auto simp: args_in_def argv_at_has)
qed


subsection \<open>Running a program\<close>

definition program_headers :: "(u32 \<Rightarrow> u32 \<Rightarrow> u8 list option) \<Rightarrow> Elf32_Phdr list option" where
  "program_headers rd = Option.bind (rd 0 SIZEOF_EHDR) (\<lambda>bs. let h = ehdr_of bs
     in phdrs rd (e_phoff h) (ucast (e_phentsize h)) (unat (e_phnum h)))"

lemma release_image_umem [simp]: "umem (release_image im) = umem im"
  by (simp add: release_image_def)

text \<open>What a run of \<open>do_execute\<close> that starts the new program consists of.\<close>

lemma do_execute_runs:
  assumes "do_execute rd new new1 new2 (Some tmp) im argv envp = Ret (ExecRuns im' f)"
  obtains bs c1 b1 envp' m1 c2 b2 argv' m2 im1 r1 im2 r2 f' where
    "rd 0 SIZEOF_EHDR = Some bs" "length bs = 52" "elf_ok (ehdr_of bs)"
    "proc_build_arg (umem im) (tmp + PAGE_SIZE) envp = Some (c1, b1, envp', m1)"
    "proc_build_arg m1 b1 argv = Some (c2, b2, argv', m2)"
    "proc_load_image rd new (release_image (im\<lparr>umem := m2\<rparr>)) (ehdr_of bs) = Ret (r1, im1)" "\<not> r1 < 0"
    "proc_stack_init im1 new1 new2 user_trap_frame_init argv' envp' = Ret (r2, im2, f')" "\<not> r2 < 0"
    "im' = proc_map_space_init im2" "f = f'\<lparr>u_eip := e_entry (ehdr_of bs)\<rparr>"
proof -
  note run = assms [unfolded do_execute_def Let_def]
  obtain bs where bs: "rd 0 SIZEOF_EHDR = Some bs" using run by (auto split: option.splits)
  note run = run [unfolded bs option.case]
  have ok: "\<not> (length bs \<noteq> unat SIZEOF_EHDR \<or> \<not> elf_ok (ehdr_of bs))" using run by (auto split: if_splits)
  note run = run [unfolded if_not_P [OF ok]]
  obtain c1 b1 envp' m1 where b1: "proc_build_arg (umem im) (tmp + PAGE_SIZE) envp = Some (c1, b1, envp', m1)"
    using run by (cases "proc_build_arg (umem im) (tmp + PAGE_SIZE) envp") auto
  obtain c2 b2 argv' m2 where b2: "proc_build_arg m1 b1 argv = Some (c2, b2, argv', m2)"
    using run by (cases "proc_build_arg m1 b1 argv") (auto simp: b1)
  note run = run [unfolded b1 option.case prod.case b2]
  obtain r1 im1 where l: "proc_load_image rd new (release_image (im\<lparr>umem := m2\<rparr>)) (ehdr_of bs) = Ret (r1, im1)"
    using run by (auto split: kret.splits)
  have r1: "\<not> r1 < 0" using run by (auto simp: l split: if_splits)
  note run = run [unfolded l kret.case prod.case if_not_P [OF r1]]
  obtain r2 im2 f' where st: "proc_stack_init im1 new1 new2 user_trap_frame_init argv' envp' = Ret (r2, im2, f')"
    using run by (auto split: kret.splits)
  have r2: "\<not> r2 < 0" using run by (auto simp: st split: if_splits)
  from run have "im' = proc_map_space_init im2" "f = f'\<lparr>u_eip := e_entry (ehdr_of bs)\<rparr>"
    by (auto simp: st r2)
  with that bs ok b1 b2 l r1 st r2 show ?thesis by (simp add: SIZEOF_EHDR_def)
qed

text \<open>
  C37. A program that \<open>exec\<close> starts has in memory what its file says and gets the arguments of its caller. If the
  two blocks fit into the page for them and the segments do not overlap and end below the stack, then the file
  has a valid header, execution begins at its entry point, every segment holds the bytes of the file and zeros
  behind them, and the registers refer to copies of the arguments and of the environment on the new stack, although the
  memory they came from has been replaced.
\<close>

theorem exec_runs_program:
  assumes run: "do_execute rd new new1 new2 (Some tmp) im argv envp = Ret (ExecRuns im' f)"
    and args: "user_args (umem im) argv as" "user_args (umem im) envp es" "block_size as es \<le> 4096"
    and tmp: "0x80000000 \<le> unat tmp" "unat tmp mod 4 = 0" "unat tmp + 4096 < 2 ^ 32"
    and hs: "program_headers rd = Some hs" "segments_ok 0x7fffc000 hs"
  shows "\<exists>bs. rd 0 SIZEOF_EHDR = Some bs \<and> elf_ok (ehdr_of bs) \<and> u_eip f = e_entry (ehdr_of bs) \<and>
    u_ecx f = of_nat (length as) \<and> argv_at (umem im') (u_ebx f) = Some as \<and> argv_at (umem im') (u_edx f) = Some es \<and>
    u_esp f = u_ebx f - 12 \<and> u_ebp f = u_esp f \<and> (\<forall>h \<in> set hs. loaded rd h (umem im'))"
proof -
  obtain bs c1 b1 envp' m1 c2 b2 argv' m2 im1 r1 im2 r2 f' where
    bs: "rd 0 SIZEOF_EHDR = Some bs" "length bs = 52" "elf_ok (ehdr_of bs)"
    and b: "proc_build_arg (umem im) (tmp + PAGE_SIZE) envp = Some (c1, b1, envp', m1)"
      "proc_build_arg m1 b1 argv = Some (c2, b2, argv', m2)"
    and l: "proc_load_image rd new (release_image (im\<lparr>umem := m2\<rparr>)) (ehdr_of bs) = Ret (r1, im1)" "\<not> r1 < 0"
    and st: "proc_stack_init im1 new1 new2 user_trap_frame_init argv' envp' = Ret (r2, im2, f')" "\<not> r2 < 0"
    and res: "im' = proc_map_space_init im2" "f = f'\<lparr>u_eip := e_entry (ehdr_of bs)\<rparr>"
    by (rule do_execute_runs [OF run])
  have tp: "unat (tmp + PAGE_SIZE) = unat tmp + 4096" using tmp(3) by (intro unat_add_small) simp_all
  have src: "args_from (umem im) argv 0 0x80000000 as" "args_from (umem im) envp 0 0x80000000 es"
    using args by (simp_all add: user_args_def)
  have "args_in m2 argv' (unat tmp) (unat tmp + 4096) as \<and> args_in m2 envp' (unat tmp) (unat tmp + 4096) es \<and>
    argv' \<noteq> 0 \<and> envp' \<noteq> 0"
    by (rule build_two [OF src _ args(3), of "tmp + PAGE_SIZE"]) (use b tp tmp in \<open>auto simp: mod_simps\<close>)
  then have tmp_args: "args_in m2 argv' (unat tmp) (unat tmp + 4096) as" "args_in m2 envp' (unat tmp) (unat tmp + 4096) es"
    "argv' \<noteq> 0" "envp' \<noteq> 0" by simp_all
  have "r1 = 0" using l by (auto simp: proc_load_image_def dest: load_headers_ret)
  with l have "load_headers rd new (release_image (im\<lparr>umem := m2\<rparr>)) (e_phoff (ehdr_of bs))
      (ucast (e_phentsize (ehdr_of bs))) 0 (unat (e_phnum (ehdr_of bs))) = Ret (0, im1)"
    by (simp add: proc_load_image_def)
  then obtain hs' where hs': "phdrs rd (e_phoff (ehdr_of bs)) (ucast (e_phentsize (ehdr_of bs))) (unat (e_phnum (ehdr_of bs))) = Some hs'"
    "segments_ok 0x7fffc000 hs' \<Longrightarrow> \<forall>h \<in> set hs'. loaded rd h (umem im1)"
    "segments_ok 0x7fffc000 hs' \<Longrightarrow> \<forall>x. (\<forall>h \<in> set hs'. \<not> inside (p_vaddr h) (extent h) x) \<longrightarrow> umem im1 x = m2 x"
    by (rule load_headers_mem [where limit = "0x7fffc000"]) simp
  have "hs' = hs" using hs'(1) hs(1) bs(1) by (simp add: program_headers_def Let_def)
  note hs' = hs'(2,3) [unfolded this, OF hs(2)]
  have below: "unat (p_vaddr h) + extent h \<le> 0x7fffc000 \<or> extent h = 0" if "h \<in> set hs" for h
    using hs(2) that by (rule segments_below)
  have above: "umem im1 x = m2 x" if "0x80000000 \<le> unat x" for x
  proof (rule hs'(2) [rule_format])
    fix h assume "h \<in> set hs"
    from below [OF this] that show "\<not> inside (p_vaddr h) (extent h) x" by (auto simp: inside_def)
  qed
  have "args_in (umem im1) argv' (unat tmp) (unat tmp + 4096) as" "args_in (umem im1) envp' (unat tmp) (unat tmp + 4096) es"
    using tmp_args(1,2) tmp by (auto elim!: args_in_same intro!: above)
  then have "args_from (umem im1) argv' 0x80000000 (unat tmp + 4096) as" "args_from (umem im1) envp' 0x80000000 (unat tmp + 4096) es"
    using tmp_args(3,4) tmp(1) by (auto simp: args_from_def args_in_def intro: strs_within_mono)
  note stack = proc_stack_init_args [OF st this]
  have "block_size as es \<le> 0x4000" "unat tmp + 4096 \<le> 2 ^ 32" using args(3) tmp(3) by simp_all
  note stack = stack [OF this(2,1)]
  have "loaded rd h (umem im2)" if h: "h \<in> set hs" for h
  proof (rule loaded_frame)
    show "loaded rd h (umem im1)" using hs'(1) h by (rule bspec)
    show "unat (p_vaddr h) + extent h \<le> 0x7fffc000 \<or> extent h = 0" by (rule below [OF h])
    show "(0x7fffc000::nat) < 2 ^ 32" by simp
    show "umem im2 x = umem im1 x" if "unat x < 0x7fffc000" for x using stack that by (elim conjE) simp
  qed
  with stack res bs(1,3) show ?thesis by (auto simp: proc_map_space_init_def)
qed


text \<open>An example: a program of one segment of two bytes and two bytes of zeros, and arguments in memory.\<close>

definition demo_file :: "u8 list" where
  "demo_file = [0x7f, 0x45, 0x4c, 0x46, 1, 1, 1, 0, 0, 0, 0, 0, 0, 0, 0, 0, 2, 0, 3, 0, 1, 0, 0, 0, 0, 0, 0x40, 0, 52, 0, 0, 0] @
     replicate 10 0 @ [32, 0, 1, 0, 0, 0, 0, 0, 0, 0] @
     [1, 0, 0, 0, 84, 0, 0, 0, 0, 0, 0x40, 0, 0, 0, 0, 0, 2, 0, 0, 0, 4, 0, 0, 0, 5, 0, 0, 0, 0, 0, 0, 0] @ [0x90, 0xc3]"

definition demo_rd :: "u32 \<Rightarrow> u32 \<Rightarrow> u8 list option" where
  "demo_rd off n = Some (take (unat n) (drop (unat off) demo_file))"

definition demo_image :: image where
  "demo_image = \<lparr>ivm = \<lparr>vm_spaces = [], vm_freed = [], heap_start = 0, heap_end = 0, map_start = 0, map_end = 0,
      vm_pages = \<lparr>pde = (\<lambda>_. 7), ptab = (\<lambda>_ _. 7), phys = example_pmem\<rparr>\<rparr>, umem = demo_args,
     code_start = 0, code_end = 0, data_start = 0, data_end = 0, stack_start = 0, stack_end = 0\<rparr>"

definition demo_phdr :: Elf32_Phdr where
  "demo_phdr = \<lparr>p_type = 1, p_offset = 84, p_vaddr = 0x400000, p_filesz = 2, p_memsz = 4, p_flags = 5\<rparr>"

lemma demo_reads:
  "demo_rd 0 SIZEOF_EHDR = Some (take 52 demo_file)" "elf_ok (ehdr_of (take 52 demo_file))"
  "e_entry (ehdr_of (take 52 demo_file)) = 0x400000"
  "length (take 52 demo_file) = unat SIZEOF_EHDR" "e_phoff (ehdr_of (take 52 demo_file)) = 52"
  "e_phentsize (ehdr_of (take 52 demo_file)) = 32" "e_phnum (ehdr_of (take 52 demo_file)) = 1"
  "demo_rd 52 32 = Some (take 32 (drop 52 demo_file))" "length (take 32 (drop 52 demo_file)) = 32"
  "phdr_of (take 32 (drop 52 demo_file)) = demo_phdr" "demo_rd 84 2 = Some [0x90, 0xc3]"
  by code_simp+

lemma touch_all_mapped: "(\<And>a. mapped (vm_pages vm) a) \<Longrightarrow> touch_all vm a n = Ret vm"
  by (induction n arbitrary: a) (simp_all add: touch_def)

lemma map_safe_range_all:
  "(\<And>a. pde_present m a \<and> present (pte m a)) \<Longrightarrow> map_safe_range m a attr n = Ret (0, m)"
  by (induction n arbitrary: a) simp_all


definition demo_vm :: "vmspace list \<Rightarrow> u32 \<Rightarrow> vmm" where
  "demo_vm ss h = \<lparr>vm_spaces = ss, vm_freed = [], heap_start = h, heap_end = h, map_start = 0, map_end = 0,
     vm_pages = \<lparr>pde = (\<lambda>_. 7), ptab = (\<lambda>_ _. 7), phys = example_pmem\<rparr>\<rparr>"

definition demo_space :: vmspace where
  "demo_space = vmspace_init 0 0x400000 0x401000 (PROT_USER OR PROT_WRITE) VMS_MAP_FIXED"

definition demo_stack :: vmspace where
  "demo_stack = vmspace_init 1 0x7fffc000 0x80000000 (PROT_USER OR PROT_WRITE) (VMS_MAP_FIXED OR VMS_MAP_STACK)"

lemma demo_mapped: "mapped (vm_pages (demo_vm ss h)) a"
  by (simp add: demo_vm_def mapped_def pde_present_def pte_def present_def PG_P_1_def)

lemma demo_map_safe: "map_safe_range (vm_pages (demo_vm ss h)) a attr n = Ret (0, vm_pages (demo_vm ss h))"
  using demo_mapped by (intro map_safe_range_all) (simp add: mapped_def)

lemma demo_inserts:
  "vmspace_insert (demo_vm [] 0) demo_space = demo_vm [demo_space] 0"
  "vmspace_insert (demo_vm [demo_space] h) demo_stack = demo_vm [demo_space, demo_stack] h"
  by (simp_all add: vmspace_insert_def demo_vm_def demo_space_def demo_stack_def vmspace_init_def same_attr_def
    merge_prev_def merge_next_def VMS_MAP_FIXED_def VMS_MAP_STACK_def)

lemma demo_pages_upd: "demo_vm ss h\<lparr>vm_pages := vm_pages (demo_vm ss' h')\<rparr> = demo_vm ss h"
  by (simp add: demo_vm_def)

lemma demo_maps:
  "do_vmspace_map (demo_vm [] 0) (Some 0) 0x400000 0 PAGE_SIZE (PROT_USER OR PROT_WRITE) VMS_MAP_FIXED =
     Ret (0x400000, demo_vm [demo_space] 0)"
  "do_vmspace_map (demo_vm [demo_space] h) (Some 1) 0x7fffc000 0 0x4000 (PROT_USER OR PROT_WRITE)
     (VMS_MAP_FIXED OR VMS_MAP_STACK) = Ret (0x7fffc000, demo_vm [demo_space, demo_stack] h)"
proof -
  have "vmspace_find (demo_vm [] 0) 0x400000 = None" "vmspace_find (demo_vm [demo_space] h) 0x7fffc000 = None"
    by (simp_all add: vmspace_find_def demo_vm_def demo_space_def vmspace_init_def)
  then show
    "do_vmspace_map (demo_vm [] 0) (Some 0) 0x400000 0 PAGE_SIZE (PROT_USER OR PROT_WRITE) VMS_MAP_FIXED =
       Ret (0x400000, demo_vm [demo_space] 0)"
    "do_vmspace_map (demo_vm [demo_space] h) (Some 1) 0x7fffc000 0 0x4000 (PROT_USER OR PROT_WRITE)
       (VMS_MAP_FIXED OR VMS_MAP_STACK) = Ret (0x7fffc000, demo_vm [demo_space, demo_stack] h)"
    using demo_inserts
    by (simp_all add: do_vmspace_map_def map_pages_safe_def demo_map_safe demo_pages_upd PAGE_ALIGN_def PAGE_MASK_val
      PAGE_SIZE_val PROT_USER_def PROT_WRITE_def USER_VMM_SIZE_def VMS_MAP_FIXED_def VMS_MAP_STACK_def VMS_MAP_REMAP_def
      VMS_MAP_SHARED_def demo_space_def demo_stack_def)
qed


lemma write_user_demo: "ivm im = demo_vm ss h \<Longrightarrow> write_user im a bs = Ret (im\<lparr>umem := write_mem (umem im) a bs\<rparr>)"
  using touch_all_mapped [of "demo_vm ss h", OF demo_mapped] by (simp add: write_user_def)

lemma demo_load:
  assumes "ivm im = demo_vm [] 0"
  shows "\<exists>im'. load_header demo_rd im (Some 0) demo_phdr = Ret (0, im') \<and> ivm im' = demo_vm [demo_space] 0x402000 \<and>
    umem im' = load_mem (umem im) demo_phdr [0x90, 0xc3]"
proof -
  let ?im1 = "im\<lparr>ivm := demo_vm [demo_space] 0\<rparr>" and ?m1 = "write_mem (umem im) 0x400000 [0x90, 0xc3]"
  have pages: "0x400000 AND PAGE_ADDR_MASK = 0x400000" "segment_pages 0x400000 4 * PAGE_SIZE = PAGE_SIZE"
    by (simp_all add: PAGE_ADDR_MASK_def segment_pages_def PAGE_SIZE_val)
  have "load_segment demo_rd im (Some 0) 84 2 4 0x400000 = Ret (0, ?im1\<lparr>umem := ?m1\<rparr>)"
    using write_user_demo [of ?im1 "[demo_space]" 0 "0x400000" "[0x90, 0xc3]"] demo_maps(1) demo_reads(11)
    by (simp add: load_segment_def assms pages del: write_mem.simps)
  moreover have "clear_bss (?im1\<lparr>umem := ?m1\<rparr>) demo_phdr = Ret (?im1\<lparr>umem := load_mem (umem im) demo_phdr [0x90, 0xc3]\<rparr>)"
    using write_user_demo [of "?im1\<lparr>umem := ?m1\<rparr>" "[demo_space]" 0 "0x400002" "replicate 2 0"]
    by (simp add: clear_bss_def load_mem_def demo_phdr_def del: write_mem.simps)
  ultimately have "load_header demo_rd im (Some 0) demo_phdr =
      Ret (0, set_ranges (?im1\<lparr>umem := load_mem (umem im) demo_phdr [0x90, 0xc3]\<rparr>) demo_phdr)"
    by (simp add: load_header_def demo_phdr_def PT_LOAD_def del: write_mem.simps)
  moreover have "ivm (set_ranges (?im1\<lparr>umem := m\<rparr>) demo_phdr) = demo_vm [demo_space] 0x402000" for m
    by (simp add: set_ranges_def set_heap_def demo_phdr_def ELF32_PHDR_CODE_def demo_vm_def PAGE_ALIGN_def PAGE_MASK_val PAGE_SIZE_val)
  ultimately show ?thesis by simp
qed

lemma demo_stack_init:
  assumes "ivm im = demo_vm [demo_space] h"
    "args_from (umem im) argv 0x80000000 hi as" "args_from (umem im) envp 0x80000000 hi es" "hi \<le> 2 ^ 32"
    "block_size as es \<le> 0x4000"
  shows "\<exists>im' f. proc_stack_init im (Some 1) new2 user_trap_frame_init argv envp = Ret (0, im', f)"
proof -
  have top: "USER_STACK_TOP = 0x80000000" "DEFAULT_STACK_SIZE = 0x4000"
    by (simp_all add: USER_STACK_TOP_def USER_VMM_SIZE_def DEFAULT_STACK_SIZE_def PAGE_SIZE_val)
  let ?im1 = "im\<lparr>stack_end := 0x80000000, stack_start := 0x7fffc000, ivm := demo_vm [demo_space, demo_stack] h\<rparr>"
  let ?m = "write_mem (umem im) 0x7fffc000 (replicate 0x4000 0)"
  have m: "?m x = umem im x" if "0x80000000 \<le> unat x" for x
    using that by (intro write_mem_outside) (auto simp: inside_def)
  have "args_from ?m argv 0x80000000 hi as" "args_from ?m envp 0x80000000 hi es"
    using assms(2-4) by (auto elim!: args_from_same intro: m)
  then obtain b1 envp' m1 argv' m2 where b:
    "proc_build_arg ?m 0x80000000 envp = Some (length es, b1, envp', m1)"
    "proc_build_arg m1 b1 argv = Some (length as, argv' - 12, argv', m2)" "args_in m2 argv' (unat (0x80000000::u32) - 0x4000) (unat (0x80000000::u32)) as"
    by (rule build_two [OF _ _ assms(4,5), of ?m _ _ _ "0x80000000"]) simp_all
  then have "unat argv' > 12" by (simp add: args_in_def)
  then have "argv' - 12 \<noteq> 0" by auto
  with b show ?thesis
    using write_user_demo [of ?im1 "[demo_space, demo_stack]" h "0x7fffc000" "replicate 0x4000 0"] demo_maps(2) [of h] assms(1)
    by (simp add: proc_stack_init_def top Let_def del: write_mem.simps)
qed


lemma demo_user_args: "user_args demo_args 0x1000 [[0x6c, 0x73], [0x2d, 0x6c]]"
  using put_args_spec [of "[[0x6c, 0x73], [0x2d, 0x6c]]" "0x1000" "0x2000" "\<lambda>_. 0xff"]
    strs_within_mono [of demo_args "0x1000" "0x2000" "0x2006" _ 0 "0x80000000"]
  by (simp add: user_args_def args_from_def args_in_def demo_args_def)

lemma demo_headers: "program_headers demo_rd = Some [demo_phdr]"
  using demo_reads by (simp add: program_headers_def Let_def)

lemma exec_demo_run:
  "\<exists>im' f. do_execute demo_rd (\<lambda>_. Some 0) (Some 1) None (Some 0x80100000) demo_image 0x1000 0 = Ret (ExecRuns im' f)"
proof -
  let ?as = "[[0x6c, 0x73], [0x2d, 0x6c]] :: u8 list list"
  have sz: "block_size ?as [] \<le> 4096" by (simp add: block_size_def arg_size_def str_words_def)
  obtain b1 envp' m1 argv' m2 where
    b: "proc_build_arg (umem demo_image) 0x80101000 0 = Some (length ([] :: u8 list list), b1, envp', m1)"
      "proc_build_arg m1 b1 0x1000 = Some (length ?as, argv' - 12, argv', m2)"
      "args_in m2 argv' (unat (0x80101000::u32) - 4096) (unat (0x80101000::u32)) ?as"
      "args_in m2 envp' (unat (0x80101000::u32) - 4096) (unat (0x80101000::u32)) []" "argv' \<noteq> 0" "envp' \<noteq> 0"
    by (rule build_two [OF _ _ _ sz, of "umem demo_image" "0x1000" 0 "0x80000000" 0 "0x80101000"])
      (use demo_user_args in \<open>auto simp: user_args_def args_from_def demo_image_def\<close>)
  let ?im = "release_image (demo_image\<lparr>umem := m2\<rparr>)"
  have im: "ivm ?im = demo_vm [] 0" "umem ?im = m2"
    by (simp_all add: release_image_def demo_image_def demo_vm_def vmm_release_space_def vmm_unmap_space_maparea_def)
  obtain im1 where im1: "load_header demo_rd ?im (Some 0) demo_phdr = Ret (0, im1)" "ivm im1 = demo_vm [demo_space] 0x402000"
    "umem im1 = load_mem m2 demo_phdr [0x90, 0xc3]" using demo_load [OF im(1)] im(2) by auto
  have load: "proc_load_image demo_rd (\<lambda>_. Some 0) ?im (ehdr_of (take 52 demo_file)) = Ret (0, im1)"
    using demo_reads im1(1) by (simp add: proc_load_image_def)
  have keep: "umem im1 x = m2 x" if "0x80000000 \<le> unat x" for x
    unfolding im1(3) using that by (intro load_mem_frame) (auto simp: demo_phdr_def PT_LOAD_def extent_def inside_def)
  have "args_in (umem im1) argv' 0x80100000 0x80101000 ?as" "args_in (umem im1) envp' 0x80100000 0x80101000 []"
    using b(3,4) by (auto elim!: args_in_same intro: keep)
  then have "args_from (umem im1) argv' 0x80000000 0x80101000 ?as" "args_from (umem im1) envp' 0x80000000 0x80101000 []"
    using b(5,6) by (auto simp: args_from_def args_in_def intro: strs_within_mono)
  then obtain im2 f where "proc_stack_init im1 (Some 1) None user_trap_frame_init argv' envp' = Ret (0, im2, f)"
    using demo_stack_init [OF im1(2)] sz by fastforce
  then show ?thesis using b(1,2) load demo_reads by (simp add: do_execute_def PAGE_SIZE_val)
qed

theorem exec_runs_program_witness:
  "\<exists>im' f. do_execute demo_rd (\<lambda>_. Some 0) (Some 1) None (Some 0x80100000) demo_image 0x1000 0 = Ret (ExecRuns im' f) \<and>
     u_eip f = 0x400000 \<and> u_ecx f = 2 \<and> argv_at (umem im') (u_ebx f) = Some [[0x6c, 0x73], [0x2d, 0x6c]] \<and>
     loaded demo_rd demo_phdr (umem im')"
proof -
  obtain im' f where run: "do_execute demo_rd (\<lambda>_. Some 0) (Some 1) None (Some 0x80100000) demo_image 0x1000 0 = Ret (ExecRuns im' f)"
    using exec_demo_run by blast
  have "\<exists>bs. demo_rd 0 SIZEOF_EHDR = Some bs \<and> elf_ok (ehdr_of bs) \<and> u_eip f = e_entry (ehdr_of bs) \<and>
    u_ecx f = of_nat (length [[0x6c, 0x73], [0x2d, 0x6c :: u8]]) \<and> argv_at (umem im') (u_ebx f) = Some [[0x6c, 0x73], [0x2d, 0x6c]] \<and>
    argv_at (umem im') (u_edx f) = Some [] \<and>
    u_esp f = u_ebx f - 12 \<and> u_ebp f = u_esp f \<and> (\<forall>h \<in> set [demo_phdr]. loaded demo_rd h (umem im'))"
    by (rule exec_runs_program [OF run _ _ _ _ _ _ demo_headers])
      (use demo_user_args in \<open>simp_all add: demo_image_def user_args_def args_from_def block_size_def arg_size_def
        str_words_def demo_phdr_def extent_def PT_LOAD_def\<close>)
  with run demo_reads show ?thesis by (intro exI [of _ im'] exI [of _ f]) auto
qed

end
