(* ===== verification/Execve.thy ===== *)
theory Execve
  imports FsPath
begin

section \<open>Finding a program\<close>

text \<open>
  \<open>sys_execve\<close> of \<open>src/src/task/exec.c\<close>: which file is run for the name it is given. \<open>access\<close> tells whether
  \<open>sys_access\<close> finds a path, and \<open>execute\<close> what becomes of \<open>do_execute\<close> with one: it does not run the file, it
  fails when the old image is gone, it ends the process because there is no stack, or it starts the program.
  \<open>None\<close> is a write or a read outside a buffer, among them the copy of the process name in \<open>do_execute\<close>.
\<close>

definition MAX_TASK_NAMELEN :: nat where "MAX_TASK_NAMELEN = 32"

datatype outcome = Refused | LoadFails | Exits | Started

datatype execve_result = Returns_error | Exited string | Runs string string

definition base_name :: "string \<Rightarrow> string" where
  "base_name path = (case strrchr path slash of Some i \<Rightarrow> drop (i + 1) path | None \<Rightarrow> path)"

text \<open>\<open>do_execute\<close>: the result is -1 for an error, or it does not return.\<close>

definition try_execute :: "(string \<Rightarrow> outcome) \<Rightarrow> string \<Rightarrow> string \<Rightarrow> execve_result option" where
  "try_execute execute path name =
     (if execute path = Refused then Some Returns_error
      else map_option (\<lambda>name. case execute path of Started \<Rightarrow> Runs path name | Exits \<Rightarrow> Exited path | _ \<Rightarrow> Returns_error)
        (strcpy MAX_TASK_NAMELEN name))"

text \<open>The path of \<open>p\<close> in the directory \<open>q\<close>. An empty \<open>q\<close> makes the code read the byte before the buffer.\<close>

definition env_path :: "string \<Rightarrow> string \<Rightarrow> string option" where
  "env_path q p =
     Option.bind (strcpy MAX_PATH q)
       (\<lambda>newpath. if newpath = [] then None
          else Option.bind (if last newpath \<noteq> slash then strcat MAX_PATH newpath ''/'' else Some newpath)
            (\<lambda>newpath. Option.bind (strcat MAX_PATH newpath p) wash_path))"

fun search_env :: "(string \<Rightarrow> bool) \<Rightarrow> (string \<Rightarrow> outcome) \<Rightarrow> string \<Rightarrow> string list \<Rightarrow> execve_result option" where
  "search_env access execute p [] = Some Returns_error"
| "search_env access execute p (q # env) =
     Option.bind (env_path q p)
       (\<lambda>finalpath. if access finalpath
          then Option.bind (try_execute execute finalpath (base_name finalpath))
                 (\<lambda>r. if r = Returns_error then search_env access execute p env else Some r)
          else search_env access execute p env)"

definition sys_execve :: "(string \<Rightarrow> bool) \<Rightarrow> (string \<Rightarrow> outcome) \<Rightarrow> string option \<Rightarrow> string option \<Rightarrow> string list option \<Rightarrow>
    execve_result option" where
  "sys_execve access execute cwd pathname envp =
     (case pathname of None \<Rightarrow> Some Returns_error
      | Some p \<Rightarrow>
          if take 1 p = ''/''
          then Option.bind (wash_path p)
                 (\<lambda>newpath. if access newpath then try_execute execute p (base_name newpath) else Some Returns_error)
          else if take 2 p = ''./'' \<or> take 3 p = ''../''
          then Option.bind (build_path cwd p)
                 (\<lambda>newpath. if access newpath then try_execute execute newpath (base_name newpath) else Some Returns_error)
          else case envp of None \<Rightarrow> Some Returns_error | Some env \<Rightarrow> search_env access execute p env)"

subsection \<open>The search\<close>

text \<open>What a directory and a name denote.\<close>

definition program_path :: "string \<Rightarrow> string \<Rightarrow> string" where
  "program_path q p = unparse (resolve (components q @ components p))"

definition dir_ok :: "string \<Rightarrow> string \<Rightarrow> bool" where
  "dir_ok p q \<longleftrightarrow> q \<noteq> [] \<and> hd q = slash \<and> length q + 1 + length p < MAX_PATH"

lemma env_path_denotes:
  assumes "dir_ok p q"
  shows "env_path q p = Some (program_path q p)"
proof -
  from assms have q: "q \<noteq> []" "hd q = slash" "length q + 1 + length p < MAX_PATH" by (simp_all add: dir_ok_def)
  obtain a where a: "env_path q p = wash_path (a @ slash # p)" "a @ slash # p \<noteq> []" "hd (a @ slash # p) = slash"
    "length (a @ slash # p) < MAX_PATH" "components a = components q"
  proof (cases "last q = slash")
    case True
    then obtain a where e: "q = a @ [slash]" using q(1) by (metis append_butlast_last_id)
    then have "components a = components q" using components_append_slash [of a "[]"] by simp
    moreover have "hd (a @ slash # p) = slash" using e q(2) by (cases a) auto
    ultimately show ?thesis using that [of a] q e by (simp add: env_path_def strcpy_def strcat_def)
  next
    case False
    then show ?thesis using that [of q] q by (auto simp: env_path_def strcpy_def strcat_def)
  qed
  from a wash_path_resolves [OF a(2-4)] show ?thesis by (simp add: program_path_def components_append_slash)
qed

lemma base_name_path: "base_name (unparse cs) = (if cs = [] then [] else last cs)" if "\<forall>c \<in> set cs. comp_ok c" for cs
proof (cases cs rule: rev_cases)
  case Nil
  then show ?thesis by (simp add: base_name_def unparse_def)
next
  case (snoc ds c)
  with that have "slash \<notin> set c" by (simp add: comp_ok_def)
  with snoc strrchr_last [of c "below ds" 0 None] show ?thesis by (simp add: base_name_def unparse_def below_append)
qed

lemma program_path_name:
  assumes "resolve (components q @ components p) = ds @ [c]"
  shows "base_name (program_path q p) = c"
proof -
  have "components (q @ slash # p) = components q @ components p" by (rule components_append_slash)
  then have "\<forall>c \<in> set (ds @ [c]). comp_ok c" using resolve_ok [of _ "q @ slash # p"] assms by auto
  from base_name_path [OF this] show ?thesis using assms by (simp add: program_path_def)
qed

text \<open>
  C38. A name without a directory is looked up in the directories of the environment in their order: the program that
  runs is the first that exists and that \<open>do_execute\<close> starts, under its last component as the name of the process, and
  if there is none the call fails. Here no path overruns its buffer, process names are short, and no file is so broken
  that it destroys the image before it fails.
\<close>

theorem execve_searches:
  assumes name: "take 1 p \<noteq> ''/''" "take 2 p \<noteq> ''./''" "take 3 p \<noteq> ''../''"
    and env: "\<forall>q \<in> set env. dir_ok p q"
    and runs: "\<forall>q \<in> set env. execute (program_path q p) = Refused \<or> execute (program_path q p) = Started"
    and short: "\<forall>q \<in> set env. length (base_name (program_path q p)) < MAX_TASK_NAMELEN"
  shows "sys_execve access execute cwd (Some p) (Some env) =
    (case find (\<lambda>q. access (program_path q p) \<and> execute (program_path q p) = Started) env of
       None \<Rightarrow> Some Returns_error
     | Some q \<Rightarrow> Some (Runs (program_path q p) (base_name (program_path q p))))"
proof -
  have "search_env access execute p env =
    (case find (\<lambda>q. access (program_path q p) \<and> execute (program_path q p) = Started) env of
       None \<Rightarrow> Some Returns_error
     | Some q \<Rightarrow> Some (Runs (program_path q p) (base_name (program_path q p))))"
    using env runs short
    by (induction env) (auto simp: env_path_denotes try_execute_def strcpy_def)
  with name show ?thesis by (simp add: sys_execve_def)
qed

theorem execve_searches_witness:
  "sys_execve (\<lambda>f. f \<noteq> ''/sbin/ls'') (\<lambda>_. Started) None (Some ''ls'') (Some [''/sbin'', ''/usr/../bin/'']) =
     Some (Runs ''/bin/ls'' ''ls'')"
  using execve_searches [of "''ls''" "[''/sbin'', ''/usr/../bin/'']" "\<lambda>_. Started" "\<lambda>f. f \<noteq> ''/sbin/ls''" None]
  by (simp add: dir_ok_def MAX_PATH_def MAX_TASK_NAMELEN_def program_path_def components_def resolve_def unparse_def below_def base_name_def)

end
