(* ===== verification/KString.thy ===== *)
theory KString
  imports ProcArgs "HOL-Library.Signed_Division"
begin

section \<open>Memory and strings\<close>

text \<open>
  \<open>src/src/lib/string.c\<close>. What writes works on the flat memory of \<open>ProcArgs\<close>, byte by byte as the code does; what
  only reads strings works on the bytes in front of the terminating zero, and a pointer into a string is the rest of
  it. \<open>None\<close> is a loop that never ends or a read behind the end of a string. A \<open>char\<close> is signed.
\<close>

subsection \<open>Blocks of memory\<close>

fun set_loop :: "umem \<Rightarrow> u32 \<Rightarrow> u8 \<Rightarrow> nat \<Rightarrow> umem" where
  "set_loop m s v 0 = m"
| "set_loop m s v (Suc n) = set_loop (m(s := v)) (s + 1) v n"

definition memset :: "umem \<Rightarrow> u32 \<Rightarrow> u8 \<Rightarrow> u32 \<Rightarrow> umem" where
  "memset m src value sz = set_loop m src value (unat sz)"

definition put16 :: "umem \<Rightarrow> u32 \<Rightarrow> u16 \<Rightarrow> umem" where
  "put16 m a w = m(a := ucast w, a + 1 := ucast (drop_bit 8 w))"

fun set16_loop :: "umem \<Rightarrow> u32 \<Rightarrow> u16 \<Rightarrow> nat \<Rightarrow> umem" where
  "set16_loop m s v 0 = m"
| "set16_loop m s v (Suc n) = set16_loop (put16 m s v) (s + 2) v n"

definition memset16 :: "umem \<Rightarrow> u32 \<Rightarrow> u16 \<Rightarrow> u32 \<Rightarrow> umem" where
  "memset16 m src value sz = set16_loop m src value (unat sz)"

fun set32_loop :: "umem \<Rightarrow> u32 \<Rightarrow> u32 \<Rightarrow> nat \<Rightarrow> umem" where
  "set32_loop m s v 0 = m"
| "set32_loop m s v (Suc n) = set32_loop (put32 m s v) (s + 4) v n"

definition memset32 :: "umem \<Rightarrow> u32 \<Rightarrow> u32 \<Rightarrow> u32 \<Rightarrow> umem" where
  "memset32 m src value sz = set32_loop m src value (unat sz)"

fun copy_up :: "umem \<Rightarrow> u32 \<Rightarrow> u32 \<Rightarrow> nat \<Rightarrow> umem" where
  "copy_up m dst src 0 = m"
| "copy_up m dst src (Suc n) = copy_up (m(dst := m src)) (dst + 1) (src + 1) n"

fun copy_down :: "umem \<Rightarrow> u32 \<Rightarrow> u32 \<Rightarrow> nat \<Rightarrow> umem" where
  "copy_down m dst src 0 = m"
| "copy_down m dst src (Suc n) = copy_down (m(dst := m src)) (dst - 1) (src - 1) n"

definition memcpy :: "umem \<Rightarrow> u32 \<Rightarrow> u32 \<Rightarrow> u32 \<Rightarrow> umem" where
  "memcpy m dst src sz = copy_up m dst src (unat sz)"

definition memmove :: "umem \<Rightarrow> u32 \<Rightarrow> u32 \<Rightarrow> u32 \<Rightarrow> umem" where
  "memmove m dst src count =
     (if dst \<le> src \<or> dst \<ge> src + count then copy_up m dst src (unat count)
      else copy_down m (dst + count - 1) (src + count - 1) (unat count))"

fun memcmp_loop :: "umem \<Rightarrow> u32 \<Rightarrow> u32 \<Rightarrow> nat \<Rightarrow> int" where
  "memcmp_loop m p1 p2 0 = 0"
| "memcmp_loop m p1 p2 (Suc n) =
     (if m p1 \<noteq> m p2 then sint (m p1) - sint (m p2) else memcmp_loop m (p1 + 1) (p2 + 1) n)"

definition memcmp :: "umem \<Rightarrow> u32 \<Rightarrow> u32 \<Rightarrow> int \<Rightarrow> int" where
  "memcmp m s1 s2 n = (if s1 = 0 \<or> s2 = 0 then sint (s1 - s2) else memcmp_loop m s1 s2 (nat n))"

text \<open>The bytes from an address on.\<close>

definition block :: "umem \<Rightarrow> u32 \<Rightarrow> nat \<Rightarrow> u8 list" where
  "block m a n = map (\<lambda>i. m (a + of_nat i)) [0..<n]"

lemma length_block [simp]: "length (block m a n) = n"
  by (simp add: block_def)

lemma block_Suc: "block m a (Suc n) = m a # block m (a + 1) n"
proof -
  have "map (\<lambda>i. m (a + of_nat i)) [0..<Suc n] = map (\<lambda>i. m (a + of_nat i)) (0 # map Suc [0..<n])"
    by (simp only: upt_conv_Cons map_Suc_upt zero_less_Suc)
  then show ?thesis by (simp add: block_def ac_simps comp_def)
qed

lemma block_cong: "(\<And>i. i < n \<Longrightarrow> m' (a + of_nat i) = m (a + of_nat i)) \<Longrightarrow> block m' a n = block m a n"
  by (simp add: block_def)

lemma set_loop_write: "set_loop m s v n = write_mem m s (replicate n v)"
  by (induction n arbitrary: m s) simp_all

text \<open>An address that is followed by the others of a range.\<close>

lemma later_ne: "unat a + n < 2 ^ 32 \<Longrightarrow> i < n \<Longrightarrow> a + 1 + of_nat i \<noteq> a" for a :: u32
proof
  assume "unat a + n < 2 ^ 32" "i < n" "a + 1 + of_nat i = a"
  then have "unat (a + of_nat (Suc i)) = unat a + Suc i" by (intro unat_add_nat) simp
  with \<open>a + 1 + of_nat i = a\<close> show False by (simp add: ac_simps)
qed

text \<open>Copying upwards is right if the destination does not lie behind the source, or behind its end.\<close>

lemma copy_up_write:
  assumes "unat dst + n \<le> 2 ^ 32" "unat src + n \<le> 2 ^ 32" "unat dst \<le> unat src \<or> unat src + n \<le> unat dst"
  shows "copy_up m dst src n = write_mem m dst (block m src n)"
  using assms
proof (induction n arbitrary: m dst src)
  case (Suc n)
  show ?case
  proof (cases n)
    case 0
    then show ?thesis by (simp add: block_def)
  next
    case (Suc k)
    then have p: "unat (dst + 1) = unat dst + 1" "unat (src + 1) = unat src + 1"
      using Suc.prems by (simp_all add: unat_word_ariths)
    have IH: "copy_up (m(dst := m src)) (dst + 1) (src + 1) n =
        write_mem (m(dst := m src)) (dst + 1) (block (m(dst := m src)) (src + 1) n)"
      using Suc.prems p by (intro Suc.IH) auto
    have "block (m(dst := m src)) (src + 1) n = block m (src + 1) n"
    proof (rule block_cong)
      fix i assume i: "i < n"
      have "unat (src + 1 + of_nat i) = unat src + 1 + i" using Suc.prems i p by (subst unat_add_nat) auto
      then have "src + 1 + of_nat i \<noteq> dst" using Suc.prems(3) i by auto
      then show "(m(dst := m src)) (src + 1 + of_nat i) = m (src + 1 + of_nat i)" by simp
    qed
    with IH show ?thesis by (simp add: block_Suc)
  qed
qed (simp add: block_def)


text \<open>Copying downwards is right if the destination does not lie in front of the source.\<close>

lemma write_mem_append: "write_mem m a (xs @ ys) = write_mem (write_mem m a xs) (a + of_nat (length xs)) ys"
  by (induction xs arbitrary: m a) (simp_all add: ac_simps)

lemma write_mem_upd:
  "\<forall>i < length bs. x \<noteq> a + of_nat i \<Longrightarrow> write_mem (m(x := v)) a bs = (write_mem m a bs)(x := v)"
proof (induction bs arbitrary: m a)
  case (Cons b bs)
  have "\<forall>i < length bs. x \<noteq> a + 1 + of_nat i"
  proof (intro allI impI)
    fix i assume "i < length bs"
    with Cons.prems [rule_format, of "Suc i"] show "x \<noteq> a + 1 + of_nat i" by (simp add: ac_simps)
  qed
  moreover have "x \<noteq> a" using Cons.prems [rule_format, of 0] by simp
  then have "(m(x := v))(a := b) = (m(a := b))(x := v)" by (rule fun_upd_twist)
  ultimately show ?case using Cons.IH [of "a + 1" "m(a := b)"] by (simp only: write_mem.simps)
qed simp

lemma block_append: "block m a (Suc n) = block m a n @ [m (a + of_nat n)]"
  by (simp add: block_def)

lemma addr_inj:
  fixes a :: u32
  assumes "unat a + n \<le> 2 ^ 32" "i < n" "j < n" "a + of_nat i = a + of_nat j"
  shows "i = j"
proof -
  have "unat a + i = unat (a + of_nat i)" "unat a + j = unat (a + of_nat j)" using assms(1-3) by (simp_all add: unat_add_nat)
  with assms(4) show ?thesis by (metis add_left_cancel)
qed

lemma copy_down_write:
  assumes "unat dst + n \<le> 2 ^ 32" "unat src + n \<le> 2 ^ 32" "unat src \<le> unat dst"
  shows "copy_down m (dst + of_nat n - 1) (src + of_nat n - 1) n = write_mem m dst (block m src n)"
  using assms
proof (induction n arbitrary: m)
  case (Suc n)
  let ?d = "dst + of_nat n" and ?s = "src + of_nat n"
  have e: "dst + of_nat (Suc n) - 1 = ?d" "src + of_nat (Suc n) - 1 = ?s" by simp_all
  have IH: "copy_down (m(?d := m ?s)) (?d - 1) (?s - 1) n = write_mem (m(?d := m ?s)) dst (block (m(?d := m ?s)) src n)"
    using Suc.prems Suc.IH by simp
  have "block (m(?d := m ?s)) src n = block m src n"
  proof (rule block_cong)
    fix i assume i: "i < n"
    have "unat (src + of_nat i) = unat src + i" "unat ?d = unat dst + n"
      using Suc.prems i by (simp_all add: unat_add_nat)
    then have "src + of_nat i \<noteq> ?d" using Suc.prems(3) i by auto
    then show "(m(?d := m ?s)) (src + of_nat i) = m (src + of_nat i)" by simp
  qed
  moreover have "?d \<noteq> dst + of_nat i" if "i < n" for i
    using addr_inj [OF Suc.prems(1), of n i] that by auto
  then have "\<forall>i < length (block m src n). ?d \<noteq> dst + of_nat i" by simp
  then have "write_mem (m(?d := m ?s)) dst (block m src n) = (write_mem m dst (block m src n))(?d := m ?s)"
    by (rule write_mem_upd)
  ultimately have "copy_down m ?d ?s (Suc n) = (write_mem m dst (block m src n))(?d := m ?s)" using IH by simp
  moreover have "write_mem m dst (block m src (Suc n)) = (write_mem m dst (block m src n))(?d := m ?s)"
    by (simp add: block_append write_mem_append)
  ultimately show ?case by (simp only: e)
qed (simp add: block_def)

text \<open>
  \<open>memmove\<close> copies a block as if through a buffer, however the source and the destination overlap, and
  writes nothing else: the destination holds the bytes the source had before. \<open>memcpy\<close> does the same when the destination does not begin inside the source.
\<close>

theorem memmove_copies:
  assumes "unat dst + unat n \<le> 2 ^ 32" "unat src + unat n \<le> 2 ^ 32"
  shows "memmove m dst src n = write_mem m dst (block m src (unat n)) \<and>
    (unat dst \<le> unat src \<or> unat src + unat n \<le> unat dst \<longrightarrow> memcpy m dst src n = memmove m dst src n)"
proof -
  have up: "copy_up m dst src (unat n) = write_mem m dst (block m src (unat n))"
    if "unat dst \<le> unat src \<or> unat src + unat n \<le> unat dst"
    using assms that by (intro copy_up_write) simp_all
  have "copy_down m (dst + n - 1) (src + n - 1) (unat n) = write_mem m dst (block m src (unat n))"
    if "unat src \<le> unat dst"
    using assms that copy_down_write [of dst "unat n" src m] by simp
  moreover have "unat dst \<le> unat src \<or> unat src + unat n \<le> unat dst" if "src + n \<le> dst"
  proof (cases "unat src + unat n < 2 ^ 32")
    case True
    then show ?thesis using that by (simp add: word_le_nat_alt unat_word_ariths)
  qed (use assms in simp)
  ultimately show ?thesis using up by (auto simp: memmove_def memcpy_def word_le_nat_alt)
qed

theorem memmove_copies_witness:
  "memmove (\<lambda>a. ucast a) 0x11 0x10 3 = write_mem (\<lambda>a. ucast a) 0x11 [0x10, 0x11, 0x12]"
  using memmove_copies [of "0x11" 3 "0x10" "\<lambda>a. ucast a"] by (simp add: block_def upt_rec)


subsection \<open>Strings that are written\<close>

partial_function (option) strlen :: "umem \<Rightarrow> u32 \<Rightarrow> u32 option" where
  "strlen m p = (if m p = 0 then Some 0 else Option.bind (strlen m (p + 1)) (\<lambda>n. Some (n + 1)))"

partial_function (option) copy_string :: "umem \<Rightarrow> u32 \<Rightarrow> u32 \<Rightarrow> umem option" where
  "copy_string m dst src =
     (if m src = 0 then Some (m(dst := 0)) else copy_string (m(dst := m src)) (dst + 1) (src + 1))"

definition strcpy :: "umem \<Rightarrow> u32 \<Rightarrow> u32 \<Rightarrow> umem option" where
  "strcpy m dst src = copy_string m dst src"

partial_function (option) end_of :: "umem \<Rightarrow> u32 \<Rightarrow> u32 option" where
  "end_of m p = (if m p = 0 then Some p else end_of m (p + 1))"

definition strcat :: "umem \<Rightarrow> u32 \<Rightarrow> u32 \<Rightarrow> umem option" where
  "strcat m dst src = Option.bind (end_of m dst) (\<lambda>p. copy_string m p src)"

text \<open>The loop of \<open>strncpy\<close> tests \<open>n\<close> after it has copied a byte; \<open>n\<close> is an \<open>int\<close>.\<close>

fun strncpy_loop :: "umem \<Rightarrow> u32 \<Rightarrow> u32 \<Rightarrow> nat \<Rightarrow> umem" where
  "strncpy_loop m dst src 0 = m(dst := m src)"
| "strncpy_loop m dst src (Suc n) =
     (if m src = 0 then m(dst := 0) else strncpy_loop (m(dst := m src)) (dst + 1) (src + 1) n)"

definition strncpy :: "umem \<Rightarrow> u32 \<Rightarrow> u32 \<Rightarrow> int \<Rightarrow> umem" where
  "strncpy m dst src n = strncpy_loop m dst src (nat n)"

text \<open>\<open>strncat\<close> writes no zero of its own: its last assignment sets the pointer.\<close>

fun strncat_loop :: "umem \<Rightarrow> u32 \<Rightarrow> u32 \<Rightarrow> nat \<Rightarrow> umem" where
  "strncat_loop m dst src 0 = m"
| "strncat_loop m dst src (Suc n) =
     (if m src = 0 then m(dst := 0) else strncat_loop (m(dst := m src)) (dst + 1) (src + 1) n)"

definition strncat :: "umem \<Rightarrow> u32 \<Rightarrow> u32 \<Rightarrow> int \<Rightarrow> umem option" where
  "strncat m dst src n = Option.bind (end_of m dst)
     (\<lambda>p. if n < 0 then copy_string m p src else Some (strncat_loop m p src (nat n)))"

fun strmet_loop :: "umem \<Rightarrow> u32 \<Rightarrow> u8 list \<Rightarrow> u8 \<Rightarrow> umem" where
  "strmet_loop m buf [] ch = m(buf := 0)"
| "strmet_loop m buf (c # cs) ch = (if c = ch then m(buf := 0) else strmet_loop (m(buf := c)) (buf + 1) cs ch)"

definition strmet :: "umem \<Rightarrow> u8 list \<Rightarrow> u32 \<Rightarrow> u8 \<Rightarrow> nat \<times> umem" where
  "strmet m src buf ch = (length (takeWhile (\<lambda>c. c \<noteq> ch) src), strmet_loop m buf src ch)"

text \<open>A string at an address, and the copy of a string to a place apart from it.\<close>

definition apart :: "u32 \<Rightarrow> u32 \<Rightarrow> nat \<Rightarrow> bool" where
  "apart a b n \<longleftrightarrow> unat a + n \<le> 2 ^ 32 \<and> unat b + n \<le> 2 ^ 32 \<and> (unat a + n \<le> unat b \<or> unat b + n \<le> unat a)"

lemma apart_Suc: "apart a b (Suc (Suc n)) \<Longrightarrow> apart (a + 1) (b + 1) (Suc n)"
  by (auto simp: apart_def unat_word_ariths)

lemma has_str_Cons: "has_str m a (c # s) \<longleftrightarrow> c \<noteq> 0 \<and> m a = c \<and> has_str m (a + 1) s"
proof -
  have "(\<forall>i < Suc (length s). m (a + of_nat i) = (c # s) ! i) \<longleftrightarrow>
      m a = c \<and> (\<forall>i < length s. m (a + 1 + of_nat i) = s ! i)"
    by (simp add: All_less_Suc2 ac_simps)
  then show ?thesis by (auto simp: has_str_def ac_simps)
qed


lemma has_str_upd:
  assumes "has_str m src s" "apart dst src (length s + 1)"
  shows "has_str (m(dst := v)) src s"
proof (rule has_str_same [OF _ _ assms(1)])
  show "unat src + length s < 2 ^ 32" using assms(2) by (simp add: apart_def)
  show "(m(dst := v)) x = m x" if "inside src (length s + 1) x" for x
    using assms(2) that by (auto simp: apart_def inside_def)
qed

lemma copy_step:
  assumes "has_str m src (c # s)" "apart dst src (Suc (Suc (length s)))"
  shows "c \<noteq> 0" "m src = c" "has_str (m(dst := v)) (src + 1) s" "apart (dst + 1) (src + 1) (Suc (length s))"
proof -
  from has_str_upd [OF assms(1), of dst v] assms(2) have "has_str (m(dst := v)) src (c # s)" by simp
  then show "has_str (m(dst := v)) (src + 1) s" by (simp only: has_str_Cons)
qed (use assms apart_Suc in \<open>auto simp: has_str_Cons\<close>)

lemma copy_string_write:
  assumes "has_str m src s" "apart dst src (length s + 1)"
  shows "copy_string m dst src = Some (write_mem m dst (s @ [0]))"
  using assms
proof (induction s arbitrary: m dst src)
  case Nil
  then show ?case by (subst copy_string.simps) (simp add: has_str_def)
next
  case (Cons c s)
  have st: "c \<noteq> 0" "m src = c" "has_str (m(dst := c)) (src + 1) s" "apart (dst + 1) (src + 1) (length s + 1)"
    using copy_step [OF Cons.prems(1)] Cons.prems(2) by simp_all
  show ?case using Cons.IH [OF st(3,4)] st(1,2) by (subst copy_string.simps) (simp del: fun_upd_apply)
qed

lemma strncpy_loop_write:
  assumes "has_str m src s" "apart dst src (length s + 1)"
  shows "strncpy_loop m dst src n = write_mem m dst (take (n + 1) (s @ [0]))"
  using assms
proof (induction s arbitrary: m dst src n)
  case Nil
  then show ?case by (cases n) (simp_all add: has_str_def)
next
  case (Cons c s)
  have st: "c \<noteq> 0" "m src = c" "has_str (m(dst := c)) (src + 1) s" "apart (dst + 1) (src + 1) (length s + 1)"
    using copy_step [OF Cons.prems(1)] Cons.prems(2) by simp_all
  show ?case using Cons.IH [OF st(3,4)] st(1,2) by (cases n) (simp_all del: fun_upd_apply)
qed

lemma strncat_loop_write:
  assumes "has_str m src s" "apart dst src (length s + 1)"
  shows "strncat_loop m dst src n = write_mem m dst (take n (s @ [0]))"
  using assms
proof (induction s arbitrary: m dst src n)
  case Nil
  then show ?case by (cases n) (simp_all add: has_str_def)
next
  case (Cons c s)
  have st: "c \<noteq> 0" "m src = c" "has_str (m(dst := c)) (src + 1) s" "apart (dst + 1) (src + 1) (length s + 1)"
    using copy_step [OF Cons.prems(1)] Cons.prems(2) by simp_all
  show ?case using Cons.IH [OF st(3,4)] st(1,2) by (cases n) (simp_all del: fun_upd_apply)
qed

lemma end_of_has: "has_str m p s \<Longrightarrow> end_of m p = Some (p + of_nat (length s))"
proof (induction s arbitrary: p)
  case Nil
  then show ?case by (subst end_of.simps) (simp add: has_str_def)
next
  case (Cons c s)
  then show ?case by (subst end_of.simps) (simp add: has_str_Cons ac_simps)
qed

lemma strlen_has: "has_str m p s \<Longrightarrow> strlen m p = Some (of_nat (length s))"
proof (induction s arbitrary: p)
  case Nil
  then show ?case by (subst strlen.simps) (simp add: has_str_def)
next
  case (Cons c s)
  then show ?case by (subst strlen.simps) (simp add: has_str_Cons ac_simps)
qed

text \<open>
  \<open>strcpy\<close> copies the string with its zero. \<open>strncpy\<close> copies one byte more than it is told to, and puts no zero behind a
  string that is cut; \<open>strncat\<close> puts none behind one that is not shorter than \<open>n\<close>.
\<close>

theorem copies_of_strings:
  assumes "has_str m src s" "apart dst src (length s + 1)" "0 \<le> n"
  shows "strcpy m dst src = Some (write_mem m dst (s @ [0]))"
    "strncpy m dst src n = write_mem m dst (take (nat n + 1) (s @ [0]))"
    "has_str m p d \<Longrightarrow> apart (p + of_nat (length d)) src (length s + 1) \<Longrightarrow>
       strcat m p src = Some (write_mem m (p + of_nat (length d)) (s @ [0])) \<and>
       strncat m p src n = Some (write_mem m (p + of_nat (length d)) (take (nat n) (s @ [0])))"
  using assms by (simp_all add: strcpy_def strncpy_def strcat_def strncat_def copy_string_write strncpy_loop_write
    strncat_loop_write end_of_has)

lemma strmet_write: "snd (strmet m src buf ch) = write_mem m buf (takeWhile (\<lambda>c. c \<noteq> ch) src @ [0])"
proof -
  have "strmet_loop m buf src ch = write_mem m buf (takeWhile (\<lambda>c. c \<noteq> ch) src @ [0])"
    by (induction src arbitrary: m buf) simp_all
  then show ?thesis by (simp add: strmet_def)
qed


subsection \<open>Strings that are read\<close>

definition char_at :: "u8 list \<Rightarrow> u8" where
  "char_at s = (case s of [] \<Rightarrow> 0 | c # _ \<Rightarrow> c)"

function strcmp :: "u8 list \<Rightarrow> u8 list \<Rightarrow> int" where
  "strcmp a b =
     (if char_at a \<noteq> 0 \<and> char_at a = char_at b then strcmp (tl a) (tl b)
      else if sint (char_at a) < sint (char_at b) then -1 else if sint (char_at a) > sint (char_at b) then 1 else 0)"
  by pat_completeness auto
termination by (relation "measure (\<lambda>(a, b). length a)") (auto simp: char_at_def split: list.splits)

function strncmp_loop :: "u8 list \<Rightarrow> u8 list \<Rightarrow> int \<Rightarrow> int" where
  "strncmp_loop s1 s2 n =
     (if n - 1 \<noteq> 0 \<and> char_at s1 \<noteq> 0 \<and> char_at s1 = char_at s2 then strncmp_loop (tl s1) (tl s2) (n - 1)
      else sint (char_at s1) - sint (char_at s2))"
  by pat_completeness auto
termination by (relation "measure (\<lambda>(a, b, n). length a)") (auto simp: char_at_def split: list.splits)

definition strncmp :: "u8 list \<Rightarrow> u8 list \<Rightarrow> int \<Rightarrow> int" where
  "strncmp s1 s2 n = (if n = 0 then 0 else strncmp_loop s1 s2 n)"

declare strcmp.simps [simp del] strncmp_loop.simps [simp del]

fun strpos :: "u8 list \<Rightarrow> u8 \<Rightarrow> int" where
  "strpos [] ch = -1"
| "strpos (c # s) ch = (if c = ch then 0 else let r = strpos s ch in if r = -1 then -1 else r + 1)"

fun strspn :: "u8 list \<Rightarrow> u8 list \<Rightarrow> nat" where
  "strspn [] accept = 0"
| "strspn (c # s) accept = (if c \<in> set accept then 1 + strspn s accept else 0)"

fun strpbrk :: "u8 list \<Rightarrow> u8 list \<Rightarrow> u8 list option" where
  "strpbrk [] str2 = None"
| "strpbrk (c # s) str2 = (if c \<in> set str2 then Some (c # s) else strpbrk s str2)"

text \<open>Byte \<open>i\<close> of a string, the zero at its end included.\<close>

definition byte_at :: "u8 list \<Rightarrow> nat \<Rightarrow> u8 option" where
  "byte_at s i = (if i < length s then Some (s ! i) else if i = length s then Some 0 else None)"

text \<open>\<open>strstr\<close>; \<open>strlen - 1\<close> is unsigned, so that the bound of an empty string is no bound.\<close>

function strstr_loop :: "u8 list \<Rightarrow> u8 list \<Rightarrow> nat \<Rightarrow> nat \<Rightarrow> nat option option" where
  "strstr_loop dest src i j =
     (if (dest = [] \<or> i \<le> length dest - 1) \<and> (src = [] \<or> j \<le> length src - 1)
      then case byte_at dest i of None \<Rightarrow> None
           | Some a \<Rightarrow> (case byte_at src j of None \<Rightarrow> None
             | Some b \<Rightarrow> if a = b then strstr_loop dest src (i + 1) (j + 1) else strstr_loop dest src (i - j + 1) 0)
      else Some (if j = length src then Some (i - length src) else None))"
  by pat_completeness auto
termination
  by (relation "measures [\<lambda>(dest, src, i, j). length dest + 1 - (i - j), \<lambda>(dest, src, i, j). length src + 1 - j]")
    (auto simp: byte_at_def split: if_splits)

definition strstr :: "u8 list \<Rightarrow> u8 list \<Rightarrow> nat option option" where
  "strstr dest src = strstr_loop dest src 0 0"

declare strstr_loop.simps [simp del]

lemma strspn_takeWhile: "strspn s accept = length (takeWhile (\<lambda>c. c \<in> set accept) s)"
  by (induction s) simp_all

lemma strpbrk_dropWhile: "strpbrk s t = (let r = dropWhile (\<lambda>c. c \<notin> set t) s in if r = [] then None else Some r)"
  by (induction s) (simp_all add: Let_def)

lemma strpos_index: "strpos s ch = (if ch \<in> set s then int (length (takeWhile (\<lambda>c. c \<noteq> ch) s)) else -1)"
  by (induction s) (auto simp: Let_def)

lemma sint_inj: "sint a = sint b \<longleftrightarrow> a = b"
  by (auto intro: signed_word_eqI)

lemma sint_nonzero: "a \<noteq> 0 \<Longrightarrow> sint a \<noteq> 0"
  using sint_inj [of a 0] by simp

lemma strcmp_Cons:
  assumes "c \<noteq> 0" "d \<noteq> 0"
  shows "strcmp (c # a) (d # b) = (if c = d then strcmp a b else if sint c < sint d then -1 else 1)"
    "strcmp [] (d # b) = (if sint d > 0 then -1 else 1)" "strcmp (c # a) [] = (if sint c < 0 then -1 else 1)" "strcmp [] [] = 0"
  using assms by (subst strcmp.simps; use sint_inj [of c d] sint_nonzero [of c] sint_nonzero [of d] in \<open>auto simp: char_at_def\<close>)+

text \<open>
  \<open>strcmp\<close> orders strings by their bytes as signed numbers, the zero at the end included; it tells two strings apart
  exactly when they differ.
\<close>

lemma strcmp_order:
  assumes "0 \<notin> set a" "0 \<notin> set b"
  shows "(strcmp a b = 0 \<longleftrightarrow> a = b) \<and> strcmp b a = - strcmp a b \<and>
    (strcmp a b < 0 \<longleftrightarrow> ord_class.lexordp (map sint a @ [0]) (map sint b @ [0]))"
  using assms
proof (induction a arbitrary: b)
  case Nil
  have "strcmp [] [] = 0" by (simp add: strcmp.simps char_at_def)
  with Nil show ?case by (cases b) (auto simp: strcmp_Cons dest: sint_nonzero split: if_splits)
next
  case (Cons c a)
  show ?case
  proof (cases b)
    case Nil
    then show ?thesis using Cons.prems by (auto simp: strcmp_Cons dest: sint_nonzero split: if_splits)
  next
    case (Cons d b')
    with Cons.prems Cons.IH [of b'] show ?thesis by (auto simp: strcmp_Cons sint_inj)
  qed
qed


lemma strncmp_equal:
  assumes "0 \<notin> set a" "0 \<notin> set b"
  shows "strncmp a b (int n) = 0 \<longleftrightarrow> take n a = take n b"
proof -
  have "strncmp_loop a b (int (Suc k)) = 0 \<longleftrightarrow> take (Suc k) a = take (Suc k) b" for k
    using assms
  proof (induction k arbitrary: a b)
    case 0
    then show ?case
      by (cases a; cases b; subst strncmp_loop.simps) (auto simp: char_at_def sint_inj dest: sint_nonzero)
  next
    case (Suc k)
    then have IH: "strncmp_loop (tl a) (tl b) (int (Suc k)) = 0 \<longleftrightarrow> take (Suc k) (tl a) = take (Suc k) (tl b)"
      by (cases a; cases b) auto
    show ?case
      using Suc.prems IH
      by (cases a; cases b; subst strncmp_loop.simps) (auto simp: char_at_def sint_inj dest: sint_nonzero)
  qed
  then show ?thesis by (cases n) (simp_all add: strncmp_def)
qed

subsection \<open>Searching for a string\<close>

lemma length_pred [simp]: "s \<noteq> [] \<Longrightarrow> \<not> length s \<le> length s - Suc 0"
  by (cases s) auto

definition occurs :: "u8 list \<Rightarrow> u8 list \<Rightarrow> nat \<Rightarrow> bool" where
  "occurs dest src k \<longleftrightarrow> take (length src) (drop k dest) = src"

lemma find_first: "P k \<Longrightarrow> k < n \<Longrightarrow> \<forall>j < k. \<not> P j \<Longrightarrow> find P [0..<n] = Some k"
  by (subst find_Some_iff) (auto intro!: exI [of _ k])

lemma strstr_loop_finds:
  assumes "dest \<noteq> []" "src \<noteq> []" "0 \<notin> set dest"
    "j \<le> i" "i \<le> length dest" "j \<le> length src" "take j (drop (i - j) dest) = take j src" "\<forall>k < i - j. \<not> occurs dest src k"
  shows "strstr_loop dest src i j = Some (find (occurs dest src) [0..<length dest])"
  using assms
proof (induction dest src i j rule: strstr_loop.induct)
  case (1 dest src i j)
  consider "i < length dest" "j < length src" | "i = length dest" "j < length src" | "j = length src"
    using "1.prems" by linarith
  then show ?case
  proof cases
    case 1
    then have at: "byte_at dest i = Some (dest ! i)" "byte_at src j = Some (src ! j)" by (simp_all add: byte_at_def)
    have go: "(dest = [] \<or> i \<le> length dest - 1) \<and> (src = [] \<or> j \<le> length src - 1)" using 1 by auto
    have nth: "drop (i - j) dest ! j = dest ! i" using "1.prems"(4,5) by simp
    show ?thesis
    proof (cases "dest ! i = src ! j")
      case True
      have "take (Suc j) (drop (i - j) dest) = take (Suc j) src"
        using True nth 1 "1.prems"(4,7) by (simp add: take_Suc_conv_app_nth)
      then have "strstr_loop dest src (i + 1) (j + 1) = Some (find (occurs dest src) [0..<length dest])"
        using "1.IH"(1) [OF go at True] "1.prems" 1 by simp
      with True at go show ?thesis by (subst strstr_loop.simps) simp
    next
      case False
      have "take (length src) (drop (i - j) dest) ! j = dest ! i" using 1 nth by simp
      with False have "\<not> occurs dest src (i - j)" unfolding occurs_def by metis
      then have "\<forall>k < i - j + 1. \<not> occurs dest src k" using "1.prems"(8) by (auto simp: less_Suc_eq)
      then have "strstr_loop dest src (i - j + 1) 0 = Some (find (occurs dest src) [0..<length dest])"
        using "1.IH"(2) [OF go at False] "1.prems" 1 by simp
      with False at go show ?thesis by (subst strstr_loop.simps) simp
    qed
  next
    case 2
    have "\<not> occurs dest src k" if "k \<ge> i - j" for k
    proof
      assume "occurs dest src k"
      then have "length src \<le> length dest - k" by (metis occurs_def length_drop length_take min.cobounded1)
      with that 2 "1.prems"(4) show False by linarith
    qed
    then have "\<forall>k. \<not> occurs dest src k" using "1.prems"(8) by (meson not_le)
    then have "find (occurs dest src) [0..<length dest] = None" by (simp add: find_None_iff)
    then show ?thesis using 2 "1.prems"(1) by (subst strstr_loop.simps) auto
  next
    case 3
    then have "occurs dest src (i - j)" using "1.prems"(7) by (simp add: occurs_def)
    moreover have "i - j < length dest" using "1.prems"(1,2,5) 3 by (cases src; cases dest) auto
    ultimately have "find (occurs dest src) [0..<length dest] = Some (i - j)"
      using "1.prems"(8) by (intro find_first)
    with 3 "1.prems"(2) show ?thesis by (subst strstr_loop.simps) auto
  qed
qed

lemma strstr_empty_text: "strstr [] src = None" if "0 \<notin> set src"
proof (cases src)
  case Nil
  then show ?thesis by (simp add: strstr_def strstr_loop.simps byte_at_def)
next
  case (Cons c s)
  with that show ?thesis by (simp add: strstr_def strstr_loop.simps byte_at_def)
qed

lemma strstr_empty_string:
  assumes "0 \<notin> set dest" "dest \<noteq> []"
  shows "strstr dest [] = Some (Some (length dest))"
proof -
  have "strstr_loop dest [] i 0 = Some (Some (length dest))" if "i \<le> length dest" for i
    using that assms
  proof (induction "length dest - i" arbitrary: i)
    case (Suc k)
    then show ?case by (subst strstr_loop.simps) (auto simp: byte_at_def dest: nth_mem)
  next
    case 0
    then have "i = length dest" by simp
    with assms(2) show ?case by (subst strstr_loop.simps) auto
  qed
  then show ?thesis by (simp add: strstr_def)
qed

text \<open>
  C39. \<open>strstr\<close> returns the first place of a non-empty string in a non-empty text, and \<open>NULL\<close> if there is none; the search
  always ends. For an empty string the bounds of its loop are wrong: an empty text is read behind its end, and the empty
  string is found at the end of a text and not at its beginning.
\<close>

theorem strstr_first:
  assumes "0 \<notin> set dest" "0 \<notin> set src"
  shows "strstr dest src =
    (if dest = [] then None
     else if src = [] then Some (Some (length dest))
     else Some (find (\<lambda>k. take (length src) (drop k dest) = src) [0..<length dest]))"
  using strstr_loop_finds [of dest src 0 0] assms strstr_empty_text [of src] strstr_empty_string [of dest]
  by (simp add: strstr_def occurs_def [abs_def])

theorem strstr_first_witness: "strstr [1, 1, 2, 1] [1, 2] = Some (Some 1) \<and> strstr [1, 1] [2] = Some None"
  using strstr_first [of "[1, 1, 2, 1]" "[1, 2]"] strstr_first [of "[1, 1]" "[2]"] by (simp add: upt_rec)


subsection \<open>Numbers\<close>

abbreviation chr :: "int \<Rightarrow> u8" where
  "chr n \<equiv> word_of_int n"

text \<open>\<open>itoa\<close>; the remainder of a negative number is negative, and no sign is written.\<close>

partial_function (option) itoa :: "int \<Rightarrow> int \<Rightarrow> u8 list option" where
  "itoa val base =
     (if base = 0 then None
      else let m = val smod base; q = val sdiv base; c = (if m < 10 then chr (m + 48) else chr (m - 10 + 65))
           in if q \<noteq> 0 then Option.bind (itoa q base) (\<lambda>s. Some (s @ [c])) else Some [c])"

definition is_digit :: "u8 \<Rightarrow> bool" where
  "is_digit c \<longleftrightarrow> 48 \<le> c \<and> c \<le> 57"

text \<open>The number is an \<open>int\<close> of 32 bits, which wraps; the machine computes it as an unsigned one.\<close>

fun atoi_digits :: "u32 \<Rightarrow> u8 list \<Rightarrow> u32" where
  "atoi_digits s [] = s"
| "atoi_digits s (c # cs) = (if is_digit c then atoi_digits (s * 10 + ucast c - 48) cs else s)"

definition atoi :: "u8 list \<Rightarrow> int" where
  "atoi src =
     (let src = dropWhile (\<lambda>c. c = 32) src; c = char_at src
      in if c = 43 \<or> c = 45 then sint (if c = 45 then - atoi_digits 0 (tl src) else atoi_digits 0 (tl src))
         else if \<not> is_digit c then 2147483647
         else sint (atoi_digits 0 src))"

fun hex_digits :: "u32 \<Rightarrow> nat list \<Rightarrow> u8 list" where
  "hex_digits num [] = []"
| "hex_digits num (i # is) =
     (let ch = ucast (drop_bit i num AND 0xf) + 48 in (if ch > 57 then ch + 7 else ch) # hex_digits num is)"

definition itoa16_align :: "u32 \<Rightarrow> u8 list" where
  "itoa16_align num = (if num = 0 then [48] else hex_digits num [28, 24, 20, 16, 12, 8, 4, 0])"

text \<open>The digits of a number in a base, and the number that digits denote.\<close>

definition digit :: "nat \<Rightarrow> u8" where
  "digit d = (if d < 10 then of_nat (d + 48) else of_nat (d - 10 + 65))"

function digits_of :: "nat \<Rightarrow> nat \<Rightarrow> nat list" where
  "digits_of b n = (if n < b \<or> b < 2 then [n] else digits_of b (n div b) @ [n mod b])"
  by pat_completeness auto
termination by (relation "measure snd") (auto intro!: div_less_dividend)

declare digits_of.simps [simp del]

definition value_of :: "nat \<Rightarrow> nat list \<Rightarrow> nat" where
  "value_of b ds = foldl (\<lambda>a d. a * b + d) 0 ds"

lemma value_digits: "2 \<le> b \<Longrightarrow> value_of b (digits_of b n) = n"
proof (induction b n rule: digits_of.induct)
  case (1 b n)
  then show ?case by (subst digits_of.simps) (auto simp: value_of_def)
qed

lemma digits_below: "2 \<le> b \<Longrightarrow> d \<in> set (digits_of b n) \<Longrightarrow> d < b"
proof (induction b n rule: digits_of.induct)
  case (1 b n)
  then show ?case by (subst (asm) (2) digits_of.simps) (auto split: if_splits)
qed

lemma itoa_digits:
  assumes "2 \<le> b"
  shows "itoa (int n) (int b) = Some (map digit (digits_of b n))"
  using assms
proof (induction b n rule: digits_of.induct)
  case (1 b n)
  have q: "int n sdiv int b = int (n div b)" "int n smod int b = int (n mod b)"
    by (simp_all add: signed_divide_int_def signed_modulo_int_def sgn_if zdiv_int zmod_int)
  have c: "(if int k < 10 then chr (int k + 48) else chr (int k - 10 + 65)) = digit k" for k
    by (simp add: digit_def of_nat_diff)
  show ?case
  proof (cases "n < b")
    case True
    then show ?thesis using "1.prems" c [of n] by (subst itoa.simps) (simp add: q digits_of.simps [of b n] Let_def)
  next
    case False
    then have "n div b \<noteq> 0" using "1.prems" by (simp add: div_eq_0_iff)
    with False "1.prems" "1.IH" c [of "n mod b"] show ?thesis
      by (subst itoa.simps) (simp add: q digits_of.simps [of b n] Let_def)
  qed
qed

lemma digit_char:
  assumes "d < 10"
  shows "is_digit (digit d)" "ucast (digit d) = (of_nat d + 48 :: u32)" "digit d \<noteq> 32" "digit d \<noteq> 43" "digit d \<noteq> 45"
proof -
  have "\<forall>d \<in> set [0..<10]. is_digit (digit d) \<and> ucast (digit d) = (of_nat d + 48 :: u32) \<and> digit d \<noteq> 32 \<and>
    digit d \<noteq> 43 \<and> digit d \<noteq> 45" by code_simp
  with assms show "is_digit (digit d)" "ucast (digit d) = (of_nat d + 48 :: u32)" "digit d \<noteq> 32" "digit d \<noteq> 43" "digit d \<noteq> 45"
    by simp_all
qed

lemma of_nat_digits:
  "(of_nat x :: u32) = of_nat y \<Longrightarrow> (of_nat (foldl (\<lambda>a d. a * 10 + d) x ds) :: u32) = of_nat (foldl (\<lambda>a d. a * 10 + d) y ds)"
  by (induction ds arbitrary: x y) simp_all

lemma atoi_digits_value:
  assumes "\<forall>d \<in> set ds. d < 10"
  shows "atoi_digits a (map digit ds) = of_nat (foldl (\<lambda>a d. a * 10 + d) (unat a) ds)"
  using assms
proof (induction ds arbitrary: a)
  case (Cons d ds)
  then have d: "d < 10" by simp
  have "atoi_digits a (map digit (d # ds)) = atoi_digits (a * 10 + of_nat d) (map digit ds)"
    using digit_char [OF d] by (simp add: ac_simps)
  also have "\<dots> = of_nat (foldl (\<lambda>a d. a * 10 + d) (unat (a * 10 + of_nat d)) ds)" using Cons by simp
  also have "\<dots> = of_nat (foldl (\<lambda>a d. a * 10 + d) (unat a * 10 + d) ds)" by (rule of_nat_digits) simp
  finally show ?case by simp
qed simp

text \<open>
  What \<open>itoa\<close> writes in base 10 is read back by \<open>atoi\<close> as the same number, for every number that is not negative. The
  minus sign of a negative one is not written: \<open>itoa\<close> has no case for it.
\<close>

theorem atoi_itoa:
  assumes "n < 2 ^ 31"
  shows "\<exists>s. itoa (int n) 10 = Some s \<and> atoi s = int n"
proof -
  let ?ds = "digits_of 10 n"
  have b: "\<forall>d \<in> set ?ds. d < 10" using digits_below [of 10] by auto
  obtain d ds where dd: "?ds = d # ds" by (cases ?ds) (simp_all add: digits_of.simps [of 10 n] split: if_splits)
  with b have "d < 10" by simp
  note c = digit_char [OF this]
  have "atoi (map digit ?ds) = sint (atoi_digits 0 (map digit ?ds))"
    using c by (simp add: atoi_def dd char_at_def Let_def)
  also have "atoi_digits 0 (map digit ?ds) = of_nat n"
    using atoi_digits_value [OF b, of 0] value_digits [of 10 n] by (simp add: value_of_def)
  also have "sint (of_nat n :: u32) = int n"
    using assms by (simp add: signed_of_nat signed_take_bit_int_eq_self)
  finally show ?thesis using itoa_digits [of 10 n] by simp
qed

theorem atoi_itoa_witness: "\<exists>s. itoa 2147483647 10 = Some s \<and> atoi s = 2147483647"
  using atoi_itoa [of 2147483647] by simp

lemma itoa_negative: "itoa (-5) 10 = Some [chr 43]"
  by (subst itoa.simps) (simp add: signed_divide_int_def signed_modulo_int_def)


subsection \<open>Strings with a length\<close>

text \<open>\<open>string_t\<close>; the text is the block \<open>kmalloc\<close> returned, and \<open>None\<close> as a result is a write behind it.\<close>

definition STRING_MAX_LEN :: nat where "STRING_MAX_LEN = 256"

record string_t =
  str_length :: nat
  str_max_length :: nat
  str_text :: "u8 list option"

definition string_init :: string_t where
  "string_init = \<lparr>str_length = 0, str_max_length = STRING_MAX_LEN, str_text = None\<rparr>"

definition put_text :: "u8 list \<Rightarrow> u8 list \<Rightarrow> u8 list option" where
  "put_text blk bs = (if length bs < length blk then Some (bs @ 0 # drop (length bs + 1) blk) else None)"

definition string_new :: "string_t \<Rightarrow> u8 list option \<Rightarrow> nat \<Rightarrow> u8 list option \<Rightarrow> (int \<times> string_t) option" where
  "string_new st text maxlen new =
     (case text of None \<Rightarrow> Some (-1, st)
      | Some text \<Rightarrow> if maxlen < 1 then Some (-1, st)
          else case new of None \<Rightarrow> Some (-1, st\<lparr>str_text := None\<rparr>)
          | Some blk \<Rightarrow>
              let maxlen = (if maxlen \<ge> STRING_MAX_LEN then STRING_MAX_LEN - 1 else maxlen);
                  len = min (length text) maxlen; blk = replicate maxlen 0 @ drop maxlen blk
              in map_option (\<lambda>blk. (0, st\<lparr>str_length := len, str_max_length := maxlen, str_text := Some blk\<rparr>))
                   (put_text blk (take len text)))"

definition string_del :: "string_t \<Rightarrow> string_t" where
  "string_del st = st\<lparr>str_text := None, str_length := 0, str_max_length := STRING_MAX_LEN\<rparr>"

definition string_copy :: "string_t \<Rightarrow> u8 list \<Rightarrow> string_t option" where
  "string_copy st text =
     (case str_text st of None \<Rightarrow> None
      | Some blk \<Rightarrow> let len = min (length text) (str_max_length st)
          in map_option (\<lambda>blk. st\<lparr>str_length := len, str_text := Some blk\<rparr>) (put_text blk (take len text)))"

definition string_empty :: "string_t \<Rightarrow> string_t option" where
  "string_empty st =
     (case str_text st of None \<Rightarrow> None
      | Some blk \<Rightarrow> if str_max_length st \<le> length blk
          then Some (st\<lparr>str_text := Some (replicate (str_max_length st) 0 @ drop (str_max_length st) blk)\<rparr>) else None)"

text \<open>
  A new string holds the text up to the limit, with a zero behind it. If the text is not shorter than a block of less
  than 256 bytes, the zero is written behind the block; a later copy of such a text writes there too.
\<close>

lemma string_new_copy:
  assumes "length blk = maxlen" "0 < maxlen"
  shows "string_new st (Some text) maxlen (Some blk) = None \<longleftrightarrow> maxlen \<le> length text \<and> maxlen < STRING_MAX_LEN"
    "string_new st (Some text) maxlen (Some blk) = Some (r, st') \<Longrightarrow>
       \<exists>b. str_text st' = Some b \<and> length b = maxlen \<and> str_length st' = min (length text) (str_max_length st') \<and>
         take (str_length st' + 1) b = take (str_max_length st') text @ [0]"
    "string_new st (Some text) maxlen (Some blk) = Some (r, st') \<Longrightarrow>
       string_copy st' other = None \<longleftrightarrow> maxlen \<le> length other \<and> maxlen < STRING_MAX_LEN"
  using assms
  by (auto simp: string_new_def string_copy_def put_text_def STRING_MAX_LEN_def Let_def min_def split: if_splits)

end
