(* ===== verification/Vsprintf.thy ===== *)
theory Vsprintf
  imports KString
begin

section \<open>Formatted output\<close>

text \<open>
  \<open>src/src/lib/vsprintf.c\<close>. The result is what is written to the buffer in front of the terminating zero, and the
  counts that \<open>%n\<close> stores; \<open>None\<close> is an argument of the wrong kind, a missing one, or a write to the null pointer.
  The characters are bytes, a string ends at the end of its list.
\<close>

definition ZEROPAD :: u32 where "ZEROPAD = 1"
definition SIGN :: u32 where "SIGN = 2"
definition PLUS :: u32 where "PLUS = 4"
definition SPACE :: u32 where "SPACE = 8"
definition LEFT :: u32 where "LEFT = 16"
definition SPECIAL :: u32 where "SPECIAL = 32"
definition SMALL :: u32 where "SMALL = 64"

subsection \<open>Numbers\<close>

text \<open>\<open>digits[d]\<close> of the two tables of digits.\<close>

definition digit_char_of :: "bool \<Rightarrow> nat \<Rightarrow> u8" where
  "digit_char_of small d = (if d < 10 then of_nat (48 + d) else of_nat ((if small then 97 else 65) + (d - 10)))"

text \<open>The loop over \<open>do_div\<close>, which puts the digits into \<open>tmp\<close>, the last one first. The base is at least 2 there.\<close>

function tmp_digits :: "u32 \<Rightarrow> u32 \<Rightarrow> nat list" where
  "tmp_digits num base = (if num = 0 \<or> base < 2 then [] else unat (num mod base) # tmp_digits (num div base) base)"
  by pat_completeness auto
termination
proof (relation "measure (\<lambda>(num, base). unat num)")
  fix num base :: u32
  assume "\<not> (num = 0 \<or> base < 2)"
  then have "unat num > 0" "unat base > 1" by (auto simp: word_less_nat_alt unat_gt_0)
  then have "unat num div unat base < unat num" by (intro div_less_dividend) simp_all
  then show "((num div base, base), (num, base)) \<in> measure (\<lambda>(num, base). unat num)" by (simp add: unat_div)
qed simp

declare tmp_digits.simps [simp del]

text \<open>What is left of \<open>size\<close> after a loop \<open>while (size-- > 0)\<close>, which writes \<open>size\<close> characters.\<close>

definition after_pad :: "int \<Rightarrow> int" where
  "after_pad sz = min sz 0 - 1"

definition pad :: "int \<Rightarrow> u8 \<Rightarrow> u8 list" where
  "pad sz c = replicate (nat sz) c"

definition number :: "u32 \<Rightarrow> u32 \<Rightarrow> int \<Rightarrow> int \<Rightarrow> u32 \<Rightarrow> u8 list option" where
  "number num base sz precision type =
     (let small = (type AND SMALL \<noteq> 0);
          type = (if type AND LEFT \<noteq> 0 then type AND NOT ZEROPAD else type)
      in if base < 2 \<or> base > 36 then None
         else
          let c = (if type AND ZEROPAD \<noteq> 0 then 48 else 32);
              neg = (type AND SIGN \<noteq> 0 \<and> sint num < 0);
              sign = (if neg then [45] else if type AND PLUS \<noteq> 0 then [43] else if type AND SPACE \<noteq> 0 then [32] else []);
              num = (if neg then - num else num);
              prefix = (if type AND SPECIAL = 0 then [] else if base = 8 then [48]
                        else if base = 16 then [48, digit_char_of small 33] else []);
              sz = sz - int (length sign) - int (length prefix);
              tmp = (if num = 0 then [48] else map (digit_char_of small) (tmp_digits num base));
              i = int (length tmp);
              precision = (if i > precision then i else precision);
              sz = sz - precision;
              lead = (if type AND (ZEROPAD + LEFT) = 0 then pad sz 32 else []);
              sz = (if type AND (ZEROPAD + LEFT) = 0 then after_pad sz else sz);
              fill = (if type AND LEFT = 0 then pad sz c else []);
              sz = (if type AND LEFT = 0 then after_pad sz else sz)
          in Some (lead @ sign @ prefix @ fill @ pad (precision - i) 48 @ rev tmp @ pad sz 32))"

subsection \<open>Formats\<close>

datatype va = VNum u32 | VStr "u8 list" | VRef

fun skip_atoi :: "u32 \<Rightarrow> u8 list \<Rightarrow> u32 \<times> u8 list" where
  "skip_atoi i [] = (i, [])"
| "skip_atoi i (c # s) = (if is_digit c then skip_atoi (i * 10 + ucast c - 48) s else (i, c # s))"

text \<open>The flags behind a percent sign: \<open>-\<close>, \<open>+\<close>, a space, \<open>#\<close> and \<open>0\<close>.\<close>

fun parse_flags :: "u32 \<Rightarrow> u8 list \<Rightarrow> u32 \<times> u8 list" where
  "parse_flags flags [] = (flags, [])"
| "parse_flags flags (c # fmt) =
     (if c = 45 then parse_flags (flags OR LEFT) fmt
      else if c = 43 then parse_flags (flags OR PLUS) fmt
      else if c = 32 then parse_flags (flags OR SPACE) fmt
      else if c = 35 then parse_flags (flags OR SPECIAL) fmt
      else if c = 48 then parse_flags (flags OR ZEROPAD) fmt
      else (flags, c # fmt))"

text \<open>\<open>va_arg\<close> of a number.\<close>

definition arg_num :: "va list \<Rightarrow> (u32 \<times> va list) option" where
  "arg_num args = (case args of VNum w # args \<Rightarrow> Some (w, args) | _ \<Rightarrow> None)"

definition parse_width :: "u32 \<Rightarrow> u8 list \<Rightarrow> va list \<Rightarrow> (int \<times> u32 \<times> u8 list \<times> va list) option" where
  "parse_width flags fmt args =
     (if is_digit (char_at fmt) then case skip_atoi 0 fmt of (w, fmt) \<Rightarrow> Some (sint w, flags, fmt, args)
      else if char_at fmt = 42
      then map_option (\<lambda>(w, args). if sint w < 0 then (sint (- w), flags OR LEFT, tl fmt, args) else (sint w, flags, tl fmt, args))
             (arg_num args)
      else Some (-1, flags, fmt, args))"

definition parse_precision :: "u8 list \<Rightarrow> va list \<Rightarrow> (int \<times> u8 list \<times> va list) option" where
  "parse_precision fmt args =
     (if char_at fmt \<noteq> 46 then Some (-1, fmt, args)
      else let fmt = tl fmt
           in map_option (\<lambda>(p, fmt, args). (if p < 0 then 0 else p, fmt, args))
                (if is_digit (char_at fmt) then case skip_atoi 0 fmt of (w, fmt) \<Rightarrow> Some (sint w, fmt, args)
                 else if char_at fmt = 42 then map_option (\<lambda>(w, args). (sint w, tl fmt, args)) (arg_num args)
                 else Some (-1, fmt, args)))"

text \<open>A qualifier changes the type of the argument only, and all these types have 32 bits.\<close>

definition skip_qualifier :: "u8 list \<Rightarrow> u8 list" where
  "skip_qualifier fmt = (if char_at fmt \<in> {104, 108, 76, 90} then tl fmt else fmt)"

definition put_char :: "u32 \<Rightarrow> int \<Rightarrow> u8 \<Rightarrow> u8 list" where
  "put_char flags width c =
     (if flags AND LEFT = 0 then pad (width - 1) 32 @ [c] else c # pad (width - 1) 32)"

definition put_string :: "u32 \<Rightarrow> int \<Rightarrow> int \<Rightarrow> u8 list \<Rightarrow> u8 list" where
  "put_string flags width precision s =
     (let len = int (length s);
          len = (if precision < 0 then len else if len > precision then precision else len);
          spaces = pad (width - len) 32
      in (if flags AND LEFT = 0 then spaces else []) @ take (nat len) s @ (if flags AND LEFT = 0 then [] else spaces))"

text \<open>
  The conversion itself: the characters it writes, what \<open>%n\<close> stores (\<open>done\<close> is the number of characters written
  before), and what is left of the arguments.
\<close>

definition convert :: "u32 \<Rightarrow> int \<Rightarrow> int \<Rightarrow> u8 \<Rightarrow> va list \<Rightarrow> nat \<Rightarrow> (u8 list \<times> nat list \<times> va list) option" where
  "convert flags width precision c args written =
     (let num = (\<lambda>base width flags. Option.bind (arg_num args)
            (\<lambda>(w, args). map_option (\<lambda>bs. (bs, [], args)) (number w base width precision flags)))
      in if c = 99 then map_option (\<lambda>(w, args). (put_char flags width (ucast w), [], args)) (arg_num args)
         else if c = 115 then (case args of VStr s # args \<Rightarrow> Some (put_string flags width precision s, [], args) | _ \<Rightarrow> None)
         else if c = 111 then num 8 width flags
         else if c = 112 then (if width = -1 then num 16 8 (flags OR ZEROPAD) else num 16 width flags)
         else if c = 120 then num 16 width (flags OR SMALL)
         else if c = 88 then num 16 width flags
         else if c = 100 \<or> c = 105 then num 10 width (flags OR SIGN)
         else if c = 117 then num 10 width flags
         else if c = 110 then (case args of VRef # args \<Rightarrow> Some ([], [written], args) | _ \<Rightarrow> None)
         else if c = 37 then Some ([37], [], args)
         else Some (if c \<noteq> 0 then [37, c] else [37], [], args))"

text \<open>Everything behind a percent sign.\<close>

definition conversion :: "u8 list \<Rightarrow> va list \<Rightarrow> nat \<Rightarrow> (u8 list \<times> nat list \<times> u8 list \<times> va list) option" where
  "conversion fmt args written =
     (case parse_flags 0 fmt of (flags, fmt) \<Rightarrow>
        Option.bind (parse_width flags fmt args) (\<lambda>(width, flags, fmt, args).
          Option.bind (parse_precision fmt args) (\<lambda>(precision, fmt, args).
            let fmt = skip_qualifier fmt
            in map_option (\<lambda>(bs, ns, args). (bs, ns, tl fmt, args))
                 (convert flags width precision (char_at fmt) args written))))"

lemma skip_atoi_length: "length (snd (skip_atoi i s)) \<le> length s"
  by (induction i s rule: skip_atoi.induct) auto

lemma parse_flags_length: "length (snd (parse_flags flags s)) \<le> length s"
  by (induction flags s rule: parse_flags.induct) auto

lemma parse_width_length: "parse_width flags fmt args = Some (w, fl, fmt', args') \<Longrightarrow> length fmt' \<le> length fmt"
  using skip_atoi_length [of 0 fmt] by (auto simp: parse_width_def split: if_splits prod.splits)

lemma parse_precision_length: "parse_precision fmt args = Some (p, fmt', args') \<Longrightarrow> length fmt' \<le> length fmt"
  using skip_atoi_length [of 0 "tl fmt"] by (auto simp: parse_precision_def Let_def split: if_splits prod.splits)

lemma conversion_length:
  assumes "conversion fmt args n = Some (bs, ns, fmt', args')"
  shows "length fmt' \<le> length fmt"
proof -
  obtain fl f1 where f1: "parse_flags 0 fmt = (fl, f1)" by (cases "parse_flags 0 fmt")
  from assms f1 obtain w fl2 f2 a2 p f3 a3 where "parse_width fl f1 args = Some (w, fl2, f2, a2)"
    "parse_precision f2 a2 = Some (p, f3, a3)" "fmt' = tl (skip_qualifier f3)"
    by (auto simp: conversion_def Let_def bind_eq_Some_conv)
  then show ?thesis
    using parse_flags_length [of 0 fmt] parse_width_length [of fl f1 args] parse_precision_length [of f2 a2] f1
    by (fastforce simp: skip_qualifier_def)
qed

text \<open>The loop; \<open>limit\<close> is the counter \<open>buflen\<close> of \<open>vsnprintf\<close>, which is decremented for each character of the format.\<close>

function format_loop :: "int option \<Rightarrow> u8 list \<Rightarrow> va list \<Rightarrow> u8 list \<Rightarrow> nat list \<Rightarrow> (u8 list \<times> nat list) option" where
  "format_loop limit [] args out ns = Some (out, ns)"
| "format_loop limit (c # fmt) args out ns =
     (if limit = Some 0 then Some (out, ns)
      else let limit = map_option (\<lambda>n. n - 1) limit
           in if c \<noteq> 37 then format_loop limit fmt args (out @ [c]) ns
              else case conversion fmt args (length out) of
                     None \<Rightarrow> None
                   | Some (bs, ns', fmt', args') \<Rightarrow> format_loop limit fmt' args' (out @ bs) (ns @ ns'))"
  by pat_completeness auto
termination
  by (relation "measure (\<lambda>(limit, fmt, args, out, ns). length fmt)") (auto dest: conversion_length)

definition vsprintf :: "u8 list \<Rightarrow> va list \<Rightarrow> (u8 list \<times> nat list) option" where
  "vsprintf fmt args = format_loop None fmt args [] []"

definition vsnprintf :: "int \<Rightarrow> u8 list \<Rightarrow> va list \<Rightarrow> (u8 list \<times> nat list) option" where
  "vsnprintf buflen fmt args = format_loop (Some buflen) fmt args [] []"


subsection \<open>What a number looks like\<close>

lemma tmp_digits_value:
  assumes "2 \<le> base"
  shows "value_of (unat base) (rev (tmp_digits num base)) = unat num \<and> (\<forall>d \<in> set (tmp_digits num base). d < unat base)"
  using assms
proof (induction num base rule: tmp_digits.induct)
  case (1 num base)
  have b: "\<not> base < 2" "0 < unat base" using "1.prems" by (auto simp: not_less word_le_nat_alt)
  show ?case
  proof (cases "num = 0")
    case True
    then show ?thesis by (subst (1 2) tmp_digits.simps) (simp add: value_of_def)
  next
    case False
    then have "value_of (unat base) (rev (tmp_digits (num div base) base)) = unat num div unat base \<and>
        (\<forall>d \<in> set (tmp_digits (num div base) base). d < unat base)"
      using 1 b by (simp add: unat_div)
    with False b show ?thesis
      by (subst (1 2) tmp_digits.simps) (simp add: value_of_def unat_mod)
  qed
qed

text \<open>The digits fit into \<open>tmp\<close>, which has 50 places.\<close>

lemma tmp_digits_fit:
  assumes "2 \<le> base"
  shows "length (tmp_digits num base) \<le> 32"
proof -
  have "unat num < 2 ^ k \<Longrightarrow> length (tmp_digits num base) \<le> k" for k num
  proof (induction k arbitrary: num)
    case 0
    then show ?case by (subst tmp_digits.simps) (simp add: unat_eq_0)
  next
    case (Suc k)
    have "unat (num div base) \<le> unat num div 2"
      using assms by (simp add: unat_div word_le_nat_alt div_le_mono2)
    with Suc.prems have "unat (num div base) < 2 ^ k" by simp
    with Suc.IH have "length (tmp_digits (num div base) base) \<le> k" .
    then show ?case by (subst tmp_digits.simps) simp
  qed
  then show ?thesis using unat_less [of num] by blast
qed

lemma flag_bits:
  "(t AND NOT ZEROPAD) AND LEFT = t AND LEFT" "(t AND NOT ZEROPAD) AND ZEROPAD = 0"
  "(t AND NOT ZEROPAD) AND SIGN = t AND SIGN" "(t AND NOT ZEROPAD) AND PLUS = t AND PLUS"
  "(t AND NOT ZEROPAD) AND SPACE = t AND SPACE" "(t AND NOT ZEROPAD) AND SPECIAL = t AND SPECIAL"
  by (simp_all add: ZEROPAD_def LEFT_def SIGN_def PLUS_def SPACE_def SPECIAL_def and.assoc)

lemma pad_flags: "t AND (ZEROPAD + LEFT) = 0 \<longleftrightarrow> t AND ZEROPAD = 0 \<and> t AND LEFT = 0"
proof -
  have "ZEROPAD + LEFT = ZEROPAD OR LEFT" by (simp add: ZEROPAD_def LEFT_def)
  then have "t AND (ZEROPAD + LEFT) = (t AND ZEROPAD) OR (t AND LEFT)" by (simp add: bit.conj_disj_distrib)
  then show ?thesis by (simp add: or_eq_0_iff)
qed

lemma length_pad [simp]: "int (length (pad sz c)) = max sz 0"
  by (simp add: pad_def)

lemma pad_after [simp]: "pad (after_pad sz) c = []"
  by (simp add: pad_def after_pad_def)

lemma set_pad: "set (pad sz c) \<subseteq> {c}"
  by (auto simp: pad_def)

lemma sint_range: "- (2 ^ 31) \<le> sint w" "sint w < 2 ^ 31" for w :: u32
  using sint_greater_eq [of w] sint_less [of w] by simp_all

lemma unat_sint: "0 \<le> sint w \<Longrightarrow> unat w = nat (sint w)" for w :: u32
proof -
  assume "0 \<le> sint w"
  moreover have "uint w = sint w mod 2 ^ 32" by (simp add: uint_sint take_bit_eq_mod)
  ultimately have "uint w = sint w" using sint_range [of w] by simp
  then show ?thesis by (metis nat_uint_eq)
qed

lemma unat_minus_sint: "sint w < 0 \<Longrightarrow> unat (- w) = nat (- sint w)" for w :: u32
proof -
  assume neg: "sint w < 0"
  have "uint (word_of_int (- sint w) :: u32) = - sint w mod 2 ^ LENGTH(32)" by (rule uint_word_of_int)
  also have "\<dots> = - sint w" using neg sint_range [of w] by (intro mod_pos_pos_trivial) simp_all
  finally have "uint (- w) = - sint w" by simp
  then show ?thesis by (metis nat_uint_eq)
qed

lemma value_zeros: "value_of b (replicate k 0 @ ds) = value_of b ds"
  by (induction k) (simp_all add: value_of_def)

text \<open>
  What the number conversions write: the sign, the prefix and digits that denote the magnitude of the number in its base,
  at least as many as the precision asks for, in a field of the given width, with spaces on the side that the
  flag chooses, or zeros in front of the digits; it is wider only when the number needs it.
\<close>

lemma number_field:
  assumes "2 \<le> base" "base \<le> 36"
  shows "\<exists>l sg ks r. number num base sz precision type =
      Some (l @ sg @ map (digit_char_of (type AND SMALL \<noteq> 0)) ks @ r) \<and>
    value_of (unat base) ks = (if type AND SIGN \<noteq> 0 then nat \<bar>sint num\<bar> else unat num) \<and>
    (type AND SIGN \<noteq> 0 \<and> sint num < 0 \<longleftrightarrow> sg \<noteq> [] \<and> hd sg = 45) \<and> ks \<noteq> [] \<and> precision \<le> int (length ks) \<and>
    set l \<subseteq> {32} \<and> set r \<subseteq> {32} \<and> (if type AND LEFT \<noteq> 0 then l = [] else r = []) \<and>
    sz \<le> int (length l + length sg + length ks + length r) \<and>
    (l @ r \<noteq> [] \<longrightarrow> int (length l + length sg + length ks + length r) = sz) \<and>
    (\<forall>k \<in> set ks. k < unat base) \<and>
    (type AND PLUS = 0 \<and> type AND SPACE = 0 \<and> type AND SPECIAL = 0 \<longrightarrow> length sg \<le> 1 \<and> (sg \<noteq> [] \<longrightarrow> hd sg = 45))"
proof -
  define small where "small = (type AND SMALL \<noteq> 0)"
  define neg where "neg = (type AND SIGN \<noteq> 0 \<and> sint num < 0)"
  define mag where "mag = (if neg then - num else num)"
  define sign :: "u8 list" where "sign = (if neg then [45] else if type AND PLUS \<noteq> 0 then [43] else if type AND SPACE \<noteq> 0 then [32] else [])"
  define prefix where "prefix = (if type AND SPECIAL = 0 then [] else if base = 8 then [48]
                        else if base = 16 then [48, digit_char_of small 33] else [])"
  define ds where "ds = (if mag = 0 then [0] else rev (tmp_digits mag base))"
  define w where "w = sz - int (length sign) - int (length prefix)"
  define p where "p = (if int (length ds) > precision then int (length ds) else precision)"
  define l where "l = (if type AND (ZEROPAD + LEFT) = 0 then pad (w - p) 32 else [])"
  define f where "f = (if type AND LEFT = 0 \<and> type AND ZEROPAD \<noteq> 0 then nat (w - p) else 0)"
  define r where "r = (if type AND LEFT \<noteq> 0 then pad (w - p) 32 else [])"
  define ks where "ks = replicate f 0 @ replicate (nat (p - int (length ds))) 0 @ ds"
  have z: "digit_char_of small 0 = 48" by (simp add: digit_char_of_def)
  have base: "\<not> (base < 2 \<or> base > 36)" using assms by auto
  define ty where "ty = (if type AND LEFT \<noteq> 0 then type AND NOT ZEROPAD else type)"
  have ty: "ty AND LEFT = type AND LEFT" "ty AND SIGN = type AND SIGN" "ty AND PLUS = type AND PLUS"
    "ty AND SPACE = type AND SPACE" "ty AND SPECIAL = type AND SPECIAL"
    "ty AND (ZEROPAD + LEFT) = 0 \<longleftrightarrow> type AND (ZEROPAD + LEFT) = 0"
    "type AND LEFT = 0 \<Longrightarrow> ty = type"
    by (simp_all add: ty_def flag_bits pad_flags)
  have tmp: "(if mag = 0 then [48] else map (digit_char_of small) (tmp_digits mag base)) = map (digit_char_of small) (rev ds)"
    by (simp add: ds_def z)
  have run: "number num base sz precision type = Some (l @ (sign @ prefix) @ map (digit_char_of small) ks @ r)"
    unfolding number_def Let_def small_def [symmetric] ty_def [symmetric] if_not_P [OF base] ty(1-6) neg_def [symmetric]
      sign_def [symmetric] mag_def [symmetric] prefix_def [symmetric] tmp length_map length_rev w_def [symmetric] p_def [symmetric]
    by (cases "type AND LEFT = 0"; cases "type AND ZEROPAD = 0")
      (simp_all add: l_def f_def r_def ks_def pad_flags z ty(7), simp_all add: pad_def after_pad_def rev_map)
  have val: "value_of (unat base) ds = unat mag"
    using tmp_digits_value [OF assms(1), of mag] by (simp add: ds_def value_of_def)
  have mag: "unat mag = (if type AND SIGN \<noteq> 0 then nat \<bar>sint num\<bar> else unat num)"
    by (auto simp: mag_def neg_def unat_minus_sint unat_sint)
  have ne: "ds \<noteq> []" using base by (auto simp: ds_def tmp_digits.simps [of mag])
  have sgn: "neg \<longleftrightarrow> sign @ prefix \<noteq> [] \<and> hd (sign @ prefix) = 45"
    by (auto simp: sign_def prefix_def)
  have len: "int (length ks) = int f + p" by (simp add: ks_def p_def)
  have sides: "set l \<subseteq> {32}" "set r \<subseteq> {32}" using set_pad by (auto simp: l_def r_def)
  have total: "sz \<le> int (length l + length (sign @ prefix) + length ks + length r) \<and>
    (l @ r \<noteq> [] \<longrightarrow> int (length l + length (sign @ prefix) + length ks + length r) = sz)"
    using len by (auto simp: l_def r_def f_def w_def pad_flags pad_def)
  have plain: "type AND PLUS = 0 \<and> type AND SPACE = 0 \<and> type AND SPECIAL = 0 \<longrightarrow>
      length (sign @ prefix) \<le> 1 \<and> (sign @ prefix \<noteq> [] \<longrightarrow> hd (sign @ prefix) = 45)"
    by (simp add: sign_def prefix_def)
  have below: "\<forall>k \<in> set ks. k < unat base"
    using tmp_digits_value [OF assms(1), of mag] assms(1) by (auto simp: ks_def ds_def word_le_nat_alt split: if_splits)
  have "value_of (unat base) ks = unat mag" by (simp add: ks_def value_zeros val)
  moreover have "ks \<noteq> []" "precision \<le> int (length ks)" using ne len by (simp_all add: ks_def p_def)
  moreover have "if type AND LEFT \<noteq> 0 then l = [] else r = []" by (simp add: l_def r_def pad_flags)
  ultimately show ?thesis
    using run mag sgn sides total plain below unfolding small_def neg_def
    by (intro exI [of _ l] exI [of _ "sign @ prefix"] exI [of _ ks] exI [of _ r]) (simp only:, simp)
qed


subsection \<open>Whole formats\<close>

text \<open>Text without a percent sign is copied.\<close>

lemma format_text: "37 \<notin> set t \<Longrightarrow> format_loop None (t @ fmt) args out ns = format_loop None fmt args (out @ t) ns"
  by (induction t arbitrary: out) simp_all

lemma number_decimal:
  obtains ks where "number n 10 (-1) (-1) SIGN = Some ((if sint n < 0 then [45] else []) @ map digit ks)"
    "ks \<noteq> []" "\<forall>k \<in> set ks. k < 10" "value_of 10 ks = nat \<bar>sint n\<bar>"
proof -
  have fl: "SIGN AND SMALL = 0" "SIGN AND SIGN \<noteq> 0" "SIGN AND PLUS = 0" "SIGN AND SPACE = 0" "SIGN AND SPECIAL = 0"
    by (simp_all add: SIGN_def SMALL_def PLUS_def SPACE_def SPECIAL_def)
  have "2 \<le> (10 :: u32)" "(10 :: u32) \<le> 36" by simp_all
  from number_field [OF this, of n "-1" "-1" SIGN] fl obtain l sg ks r where
    raw: "number n 10 (-1) (-1) SIGN = Some (l @ sg @ map (digit_char_of False) ks @ r)"
      "value_of (unat (10 :: u32)) ks = nat \<bar>sint n\<bar>"
    and n: "sint n < 0 \<longleftrightarrow> sg \<noteq> [] \<and> hd sg = 45" "ks \<noteq> []" "\<forall>k \<in> set ks. k < unat (10 :: u32)" "length sg \<le> 1"
      "sg \<noteq> [] \<longrightarrow> hd sg = 45"
    and e: "l @ r \<noteq> [] \<longrightarrow> int (length l + length sg + length ks + length r) = - 1"
    by (simp only: simp_thms if_True if_False) blast
  have "\<not> int (length l + length sg + length ks + length r) = - 1" by linarith
  with e have "l = []" "r = []" by blast+
  have "sg = (if sint n < 0 then [45] else [])" using n(1,4,5) by (cases sg) auto
  moreover have "map (digit_char_of False) ks = map digit ks"
    using n(3) by (simp add: digit_char_of_def digit_def add.commute)
  ultimately show ?thesis using that [of ks] raw n(2,3) \<open>l = []\<close> \<open>r = []\<close> by simp
qed

lemma atoi_of_digits:
  assumes "\<forall>k \<in> set ks. k < 10" "ks \<noteq> []"
  shows "atoi (map digit ks) = sint (of_nat (value_of 10 ks) :: u32)"
    "atoi (45 # map digit ks) = sint (- of_nat (value_of 10 ks) :: u32)"
proof -
  obtain d ds where dd: "ks = d # ds" using assms(2) by (cases ks) auto
  with assms have "d < 10" by simp
  note c = digit_char [OF this]
  have v: "atoi_digits 0 (map digit ks) = of_nat (value_of 10 ks)"
    using atoi_digits_value [OF assms(1), of 0] by (simp add: value_of_def)
  have "atoi (map digit ks) = sint (atoi_digits 0 (map digit ks))"
    using c by (simp add: atoi_def dd char_at_def Let_def)
  then show "atoi (map digit ks) = sint (of_nat (value_of 10 ks) :: u32)" by (simp only: v)
  have "atoi (45 # map digit ks) = sint (- atoi_digits 0 (map digit ks))"
    by (simp add: atoi_def char_at_def)
  then show "atoi (45 # map digit ks) = sint (- of_nat (value_of 10 ks) :: u32)" by (simp only: v)
qed

text \<open>
  C40. A number that \<open>vsprintf\<close> writes with \<open>%d\<close> into a text is read back from there by \<open>atoi\<close>, for every 32-bit number, the
  least one included; the text in front of it is copied as it is.
\<close>

theorem vsprintf_atoi:
  assumes "37 \<notin> set t"
  shows "\<exists>s. vsprintf (t @ [37, 100]) [VNum n] = Some (t @ s, []) \<and> atoi s = sint n"
proof -
  obtain ks where ks: "number n 10 (-1) (-1) SIGN = Some ((if sint n < 0 then [45] else []) @ map digit ks)"
    "ks \<noteq> []" "\<forall>k \<in> set ks. k < 10" "value_of 10 ks = nat \<bar>sint n\<bar>" by (rule number_decimal)
  let ?s = "(if sint n < 0 then [45] else []) @ map digit ks"
  have "conversion [100] [VNum n] (length t) = Some (?s, [], [], [])"
    using ks(1) by (simp add: conversion_def parse_width_def parse_precision_def skip_qualifier_def convert_def arg_num_def
      char_at_def is_digit_def)
  then have "vsprintf (t @ [37, 100]) [VNum n] = Some (t @ ?s, [])"
    using format_text [OF assms, of "[37, 100]" "[VNum n]" "[]" "[]"] by (simp add: vsprintf_def)
  moreover have "atoi ?s = sint n"
  proof (cases "sint n < 0")
    case True
    then have "- (of_nat (nat \<bar>sint n\<bar>) :: u32) = n" by simp
    with True atoi_of_digits(2) [OF ks(3,2)] ks(4) show ?thesis by simp
  next
    case False
    then have "(of_nat (nat \<bar>sint n\<bar>) :: u32) = n" by simp
    with False atoi_of_digits(1) [OF ks(3,2)] ks(4) show ?thesis by simp
  qed
  ultimately show ?thesis by blast
qed

theorem vsprintf_atoi_witness:
  "\<exists>s. vsprintf [120, 61, 37, 100] [VNum 0x80000000] = Some ([120, 61] @ s, []) \<and> atoi s = - 2147483648"
  using vsprintf_atoi [of "[120, 61]" "0x80000000"] by simp

text \<open>
  The limit of \<open>vsnprintf\<close> counts the characters of the format and not those it writes: one \<open>%s\<close> writes a string of any
  length into a buffer of any size but 0.
\<close>

lemma vsnprintf_overrun:
  assumes "n \<noteq> 0"
  shows "vsnprintf n [37, 115] [VStr s] = Some (s, [])"
  using assms
  by (simp add: vsnprintf_def conversion_def parse_width_def parse_precision_def skip_qualifier_def convert_def put_string_def
    pad_def char_at_def is_digit_def Let_def)

end
