(* ===== verification/DeviceIO.thy ===== *)
theory DeviceIO
  imports Device KString MemCache
begin

section \<open>Device input and output\<close>

text \<open>
  Requests to drivers, the packet queues of devices, the buffers of input events, and the lists of drivers and devices, of
  \<open>src/src/kernel/driver.c\<close>. A driver is a function on the request and the state; it may call
  \<open>io_complete_request\<close>. The state has the memory, the lock of the device, and the numbers of request packets,
  buffers and memory descriptors that have been allocated and not freed. What the allocations return is an
  argument. \<open>Panic\<close> is a null pointer that is written, or a lock that is never free.
\<close>

subsection \<open>Requests\<close>

definition IO_SUCCESS :: u32 where "IO_SUCCESS = 0"
definition IO_FAILED :: u32 where "IO_FAILED = 1"
definition IOREQ_OPEN_OPERATION :: u32 where "IOREQ_OPEN_OPERATION = 1"
definition IOREQ_CLOSE_OPERATION :: u32 where "IOREQ_CLOSE_OPERATION = 2"
definition IOREQ_READ_OPERATION :: u32 where "IOREQ_READ_OPERATION = 4"
definition IOREQ_WRITE_OPERATION :: u32 where "IOREQ_WRITE_OPERATION = 8"
definition IOREQ_DEVCTL_OPERATION :: u32 where "IOREQ_DEVCTL_OPERATION = 16"
definition IOREQ_MMAP_OPERATION :: u32 where "IOREQ_MMAP_OPERATION = 32"
definition IOREQ_BUFFERED_IO :: u32 where "IOREQ_BUFFERED_IO = 64"
definition IOREQ_COMPLETION :: u32 where "IOREQ_COMPLETION = 0x80000000"
definition DO_BUFFERED_IO :: u32 where "DO_BUFFERED_IO = 1"
definition DO_DIRECT_IO :: u32 where "DO_DIRECT_IO = 2"

datatype io_function = IOREQ_OPEN | IOREQ_CLOSE | IOREQ_READ | IOREQ_WRITE | IOREQ_DEVCTL | IOREQ_MMAP

record io_request =
  rq_flags :: u32
  mdl_address :: bool
  system_buffer :: u32
  user_buffer :: u32
  rq_length :: u32
  rq_offset :: u32
  infomation :: u32
  io_status :: u32

record iostate =
  iomem :: umem
  dev_locked :: bool
  requests :: int
  buffers :: int
  mdls :: int

type_synonym dispatch = "io_request \<Rightarrow> iostate \<Rightarrow> (u32 \<times> io_request \<times> iostate) kret"

text \<open>A device as far as a request looks at it: its flags and whether its type has a lock.\<close>

record io_device =
  dev_flags :: u32
  has_lock :: bool
  dispatch_function :: "io_function \<Rightarrow> dispatch option"

definition io_complete_request :: "io_device \<Rightarrow> io_request \<Rightarrow> iostate \<Rightarrow> io_request \<times> iostate" where
  "io_complete_request dev rq st =
     (let rq = (if io_status rq = IO_FAILED then rq\<lparr>infomation := -1\<rparr> else rq)
      in (rq\<lparr>rq_flags := rq_flags rq OR IOREQ_COMPLETION\<rparr>, if has_lock dev then st\<lparr>dev_locked := False\<rparr> else st))"

definition default_device_dispatch :: "io_device \<Rightarrow> dispatch" where
  "default_device_dispatch dev rq st =
     (case io_complete_request dev (rq\<lparr>infomation := 0, io_status := IO_SUCCESS\<rparr>) st of (rq, st) \<Rightarrow> Ret (IO_SUCCESS, rq, st))"

definition operation_of :: "u32 \<Rightarrow> io_function option" where
  "operation_of flags =
     (if flags AND IOREQ_OPEN_OPERATION \<noteq> 0 then Some IOREQ_OPEN
      else if flags AND IOREQ_CLOSE_OPERATION \<noteq> 0 then Some IOREQ_CLOSE
      else if flags AND IOREQ_READ_OPERATION \<noteq> 0 then Some IOREQ_READ
      else if flags AND IOREQ_WRITE_OPERATION \<noteq> 0 then Some IOREQ_WRITE
      else if flags AND IOREQ_DEVCTL_OPERATION \<noteq> 0 then Some IOREQ_DEVCTL
      else if flags AND IOREQ_MMAP_OPERATION \<noteq> 0 then Some IOREQ_MMAP else None)"

definition io_call_dirver :: "io_device \<Rightarrow> dispatch" where
  "io_call_dirver dev rq st =
     (if has_lock dev \<and> dev_locked st then Panic
      else let st = (if has_lock dev then st\<lparr>dev_locked := True\<rparr> else st)
           in case Option.bind (operation_of (rq_flags rq)) (dispatch_function dev) of
                None \<Rightarrow> Ret (IO_SUCCESS, rq, st) | Some f \<Rightarrow> f rq st)"

definition set_operation :: "io_function \<Rightarrow> u32" where
  "set_operation f = (case f of IOREQ_OPEN \<Rightarrow> IOREQ_OPEN_OPERATION | IOREQ_CLOSE \<Rightarrow> IOREQ_CLOSE_OPERATION
     | IOREQ_READ \<Rightarrow> IOREQ_READ_OPERATION | IOREQ_WRITE \<Rightarrow> IOREQ_WRITE_OPERATION
     | IOREQ_DEVCTL \<Rightarrow> IOREQ_DEVCTL_OPERATION | IOREQ_MMAP \<Rightarrow> IOREQ_MMAP_OPERATION)"

text \<open>
  \<open>io_build_sync_request\<close>; the callers give no status block, so that without a packet the null pointer is written.
  \<open>ok\<close> tells whether the packet is allocated, \<open>sys\<close> is the buffer, \<open>md\<close> tells whether there is a descriptor.
\<close>

definition io_build_sync_request :: "bool \<Rightarrow> u32 option \<Rightarrow> bool \<Rightarrow> io_function \<Rightarrow> io_device \<Rightarrow> u32 \<Rightarrow> u32 \<Rightarrow> u32 \<Rightarrow>
    iostate \<Rightarrow> (io_request option \<times> iostate) kret" where
  "io_build_sync_request ok sys md f dev buffer len offset st =
     (if \<not> ok then Panic
      else let st = st\<lparr>requests := requests st + 1\<rparr>;
               rq = \<lparr>rq_flags = 0, mdl_address = False, system_buffer = 0, user_buffer = buffer, rq_length = 0, rq_offset = 0,
                     infomation = 0, io_status = IO_FAILED\<rparr>;
               buffered = (dev_flags dev AND DO_BUFFERED_IO \<noteq> 0); direct = (dev_flags dev AND DO_DIRECT_IO \<noteq> 0);
               len = (if buffer \<noteq> 0 \<and> buffered \<and> len \<ge> MAX_MEM_CACHE_SIZE then MAX_MEM_CACHE_SIZE else len)
           in if buffer \<noteq> 0 \<and> buffered \<and> sys = None \<or> buffer \<noteq> 0 \<and> \<not> buffered \<and> direct \<and> \<not> md
              then Ret (None, st\<lparr>requests := requests st - 1\<rparr>)
              else
               let rq = (if buffer \<noteq> 0 \<and> buffered
                         then rq\<lparr>system_buffer := the sys, rq_flags := IOREQ_BUFFERED_IO\<rparr>
                         else if buffer \<noteq> 0 \<and> direct then rq\<lparr>mdl_address := True\<rparr> else rq);
                   st = (if buffer \<noteq> 0 \<and> buffered then st\<lparr>buffers := buffers st + 1\<rparr>
                         else if buffer \<noteq> 0 \<and> direct then st\<lparr>mdls := mdls st + 1\<rparr> else st);
                   rq = rq\<lparr>rq_flags := rq_flags rq OR set_operation f\<rparr>;
                   rq = (if f \<in> {IOREQ_READ, IOREQ_WRITE, IOREQ_MMAP} then rq\<lparr>rq_length := len, rq_offset := offset\<rparr> else rq)
               in if f = IOREQ_WRITE \<and> buffered
                  then if system_buffer rq = 0 then Panic
                       else Ret (Some rq, st\<lparr>iomem := memcpy (iomem st) (system_buffer rq) buffer len\<rparr>)
                  else Ret (Some rq, st))"

definition io_complete_check :: "io_request \<Rightarrow> u32 \<Rightarrow> bool" where
  "io_complete_check rq status \<longleftrightarrow> status = IO_SUCCESS \<and> io_status rq = IO_SUCCESS \<and> rq_flags rq AND IOREQ_COMPLETION \<noteq> 0"

definition io_request_free :: "iostate \<Rightarrow> iostate" where
  "io_request_free st = st\<lparr>requests := requests st - 1\<rparr>"

definition free_mdl :: "io_device \<Rightarrow> iostate \<Rightarrow> iostate" where
  "free_mdl dev st = (if dev_flags dev AND DO_DIRECT_IO \<noteq> 0 then st\<lparr>mdls := mdls st - 1\<rparr> else st)"

text \<open>The operations on a handle; \<open>dev\<close> is the device the handle table has for it.\<close>

definition device_read :: "bool \<Rightarrow> u32 option \<Rightarrow> bool \<Rightarrow> io_device option \<Rightarrow> u32 \<Rightarrow> u32 \<Rightarrow> u32 \<Rightarrow> iostate \<Rightarrow> (int \<times> iostate) kret" where
  "device_read ok sys md dev buffer len offset st =
     (case dev of None \<Rightarrow> Ret (-1, st)
      | Some dev \<Rightarrow> (case io_build_sync_request ok sys md IOREQ_READ dev buffer len offset st of Panic \<Rightarrow> Panic
        | Ret (None, st) \<Rightarrow> Ret (-1, st)
        | Ret (Some rq, st) \<Rightarrow> (case io_call_dirver dev rq st of Panic \<Rightarrow> Panic
          | Ret (status, rq, st) \<Rightarrow>
              if io_complete_check rq status
              then let st = (if dev_flags dev AND DO_BUFFERED_IO \<noteq> 0
                       then st\<lparr>iomem := memcpy (iomem st) (user_buffer rq) (system_buffer rq) (infomation rq),
                               buffers := buffers st - 1\<rparr>
                       else free_mdl dev st)
                   in Ret (sint (infomation rq), io_request_free st)
              else Ret (-1, io_request_free st))))"

definition device_write :: "bool \<Rightarrow> u32 option \<Rightarrow> bool \<Rightarrow> io_device option \<Rightarrow> u32 \<Rightarrow> u32 \<Rightarrow> u32 \<Rightarrow> iostate \<Rightarrow> (int \<times> iostate) kret" where
  "device_write ok sys md dev buffer len offset st =
     (case dev of None \<Rightarrow> Ret (-1, st)
      | Some dev \<Rightarrow> (case io_build_sync_request ok sys md IOREQ_WRITE dev buffer len offset st of Panic \<Rightarrow> Panic
        | Ret (None, st) \<Rightarrow> Ret (-1, st)
        | Ret (Some rq, st) \<Rightarrow> (case io_call_dirver dev rq st of Panic \<Rightarrow> Panic
          | Ret (status, rq, st) \<Rightarrow>
              if io_complete_check rq status
              then Ret (sint (infomation rq), io_request_free (free_mdl dev st))
              else Ret (-1, io_request_free st))))"

definition device_devctl :: "bool \<Rightarrow> io_device option \<Rightarrow> u32 \<Rightarrow> u32 \<Rightarrow> iostate \<Rightarrow> (int \<times> iostate) kret" where
  "device_devctl ok dev code arg st =
     (case dev of None \<Rightarrow> Ret (-1, st)
      | Some dev \<Rightarrow> (case io_build_sync_request ok None False IOREQ_DEVCTL dev 0 0 0 st of Panic \<Rightarrow> Panic
        | Ret (None, st) \<Rightarrow> Ret (-1, st)
        | Ret (Some rq, st) \<Rightarrow> (case io_call_dirver dev (rq\<lparr>rq_length := code, rq_offset := arg\<rparr>) st of Panic \<Rightarrow> Panic
          | Ret (status, rq, st) \<Rightarrow>
              Ret (if io_complete_check rq status then sint (infomation rq) else -1, io_request_free st))))"


text \<open>\<open>device_mmap\<close>; \<open>map\<close> is the mapping of a physical address into the kernel or into the process.\<close>

definition IO_NOWAIT :: u32 where "IO_NOWAIT = 4"
definition IO_KERNEL :: u32 where "IO_KERNEL = 8"

definition device_mmap :: "bool \<Rightarrow> (bool \<Rightarrow> u32 \<Rightarrow> u32 \<Rightarrow> u32) \<Rightarrow> io_device option \<Rightarrow> u32 \<Rightarrow> u32 \<Rightarrow> iostate \<Rightarrow> (u32 \<times> iostate) kret" where
  "device_mmap ok map_phys dev len flags st =
     (case dev of None \<Rightarrow> Ret (0, st)
      | Some dev \<Rightarrow> (case io_build_sync_request ok None False IOREQ_MMAP dev 0 len flags st of Panic \<Rightarrow> Panic
        | Ret (None, st) \<Rightarrow> Ret (0, st)
        | Ret (Some rq, st) \<Rightarrow> (case io_call_dirver dev rq st of Panic \<Rightarrow> Panic
          | Ret (status, rq, st) \<Rightarrow>
              Ret (if io_complete_check rq status \<and> infomation rq \<noteq> 0
                   then map_phys (flags AND IO_KERNEL \<noteq> 0) (infomation rq) len else 0, io_request_free st))))"

subsection \<open>Reading and writing through a buffer\<close>

text \<open>A driver that answers a read with the bytes \<open>dat\<close> has for an offset and a length, and one that takes every write.\<close>

definition read_driver :: "io_device \<Rightarrow> (u32 \<Rightarrow> u32 \<Rightarrow> u8 list) \<Rightarrow> dispatch" where
  "read_driver dev dat rq st =
     (let bs = dat (rq_offset rq) (rq_length rq)
      in case io_complete_request dev (rq\<lparr>infomation := of_nat (length bs), io_status := IO_SUCCESS\<rparr>)
             (st\<lparr>iomem := write_mem (iomem st) (system_buffer rq) bs\<rparr>) of (rq, st) \<Rightarrow> Ret (IO_SUCCESS, rq, st))"

definition write_driver :: "io_device \<Rightarrow> dispatch" where
  "write_driver dev rq st =
     (case io_complete_request dev (rq\<lparr>infomation := rq_length rq, io_status := IO_SUCCESS\<rparr>) st of (rq, st) \<Rightarrow>
        Ret (IO_SUCCESS, rq, st))"

definition failing_driver :: "io_device \<Rightarrow> dispatch" where
  "failing_driver dev rq st =
     (case io_complete_request dev (rq\<lparr>io_status := IO_FAILED\<rparr>) st of (rq, st) \<Rightarrow> Ret (IO_FAILED, rq, st))"

lemma operation_of_set [simp]:
  "operation_of (set_operation f) = Some f" "operation_of (IOREQ_BUFFERED_IO OR set_operation f) = Some f"
  by (cases f; simp add: operation_of_def set_operation_def IOREQ_OPEN_OPERATION_def IOREQ_CLOSE_OPERATION_def
    IOREQ_READ_OPERATION_def IOREQ_WRITE_OPERATION_def IOREQ_DEVCTL_OPERATION_def IOREQ_MMAP_OPERATION_def IOREQ_BUFFERED_IO_def)+

lemma completed [simp]: "(w OR IOREQ_COMPLETION) AND IOREQ_COMPLETION \<noteq> 0"
proof -
  have "bit ((w OR IOREQ_COMPLETION) AND IOREQ_COMPLETION) 31" by (simp add: bit_simps IOREQ_COMPLETION_def)
  then show ?thesis by (metis bit_0_eq bot_apply bot_bool_def)
qed

lemma block_write_mem: "length bs \<le> 2 ^ 32 \<Longrightarrow> block (write_mem m a bs) a (length bs) = bs"
  by (rule nth_equalityI) (simp_all add: block_def write_mem_nth)

text \<open>
  A read through the buffer of the system returns what the driver supplied: the bytes are at the address of the
  caller and in the freed buffer, nothing else of the memory has changed, the device is unlocked and everything allocated
  is free again. After a write, and after a read that the driver fails, the buffer stays allocated: nothing frees it.
\<close>

theorem device_io_buffered:
  assumes dev: "dev_flags dev AND DO_BUFFERED_IO \<noteq> 0" "dev_flags dev AND DO_DIRECT_IO = 0" "\<not> dev_locked st" and buf: "buffer \<noteq> 0" "s \<noteq> 0"
    and len: "len < MAX_MEM_CACHE_SIZE" "\<forall>off n. length (dat off n) \<le> unat n" and away: "apart buffer s (unat len)"
  shows "dispatch_function dev IOREQ_READ = Some (read_driver dev dat) \<Longrightarrow>
      device_read True (Some s) md (Some dev) buffer len off st =
        Ret (int (length (dat off len)), st\<lparr>iomem := write_mem (write_mem (iomem st) s (dat off len)) buffer (dat off len)\<rparr>)"
    "dispatch_function dev IOREQ_READ = Some (failing_driver dev) \<Longrightarrow>
      device_read True (Some s) md (Some dev) buffer len off st = Ret (-1, st\<lparr>buffers := buffers st + 1\<rparr>)"
    "dispatch_function dev IOREQ_WRITE = Some (write_driver dev) \<Longrightarrow>
      device_write True (Some s) md (Some dev) buffer len off st =
        Ret (int (unat len), st\<lparr>iomem := memcpy (iomem st) s buffer len, buffers := buffers st + 1\<rparr>)"
proof -
  have c: "IOREQ_COMPLETION \<noteq> 0" by (simp add: IOREQ_COMPLETION_def)
  have nl: "\<not> MAX_MEM_CACHE_SIZE \<le> len" using len(1) by simp
  have lim: "unat len < 0x200000" using len(1) by (simp add: MAX_MEM_CACHE_SIZE_def word_less_nat_alt)
  have si: "sint (of_nat k :: u32) = int k" if "k < 0x200000" for k
    using that by (simp add: signed_of_nat signed_take_bit_int_eq_self)
  note unfold = device_read_def device_write_def io_build_sync_request_def io_call_dirver_def io_complete_check_def
    io_complete_request_def io_request_free_def Let_def
  show "device_read True (Some s) md (Some dev) buffer len off st = Ret (-1, st\<lparr>buffers := buffers st + 1\<rparr>)"
    if "dispatch_function dev IOREQ_READ = Some (failing_driver dev)"
    using that dev buf nl c by (simp add: unfold failing_driver_def IO_SUCCESS_def IO_FAILED_def)
  show "device_write True (Some s) md (Some dev) buffer len off st =
      Ret (int (unat len), st\<lparr>iomem := memcpy (iomem st) s buffer len, buffers := buffers st + 1\<rparr>)"
    if "dispatch_function dev IOREQ_WRITE = Some (write_driver dev)"
  proof -
    have "sint len = int (unat len)" using si [OF lim] by simp
    then show ?thesis
      using that dev buf nl c by (simp add: unfold write_driver_def free_mdl_def IO_SUCCESS_def IO_FAILED_def)
  qed
  show "device_read True (Some s) md (Some dev) buffer len off st =
      Ret (int (length (dat off len)), st\<lparr>iomem := write_mem (write_mem (iomem st) s (dat off len)) buffer (dat off len)\<rparr>)"
    if "dispatch_function dev IOREQ_READ = Some (read_driver dev dat)"
  proof -
    let ?bs = "dat off len" and ?m = "write_mem (iomem st) s (dat off len)"
    have n: "length ?bs \<le> unat len" "unat (of_nat (length ?bs) :: u32) = length ?bs"
      using len(2) lim by (simp, simp add: unsigned_of_nat take_bit_nat_eq_self le_less_trans [of _ "unat len"])
    have r: "sint (of_nat (length ?bs) :: u32) = int (length ?bs)" using n(1) lim by (intro si) simp
    have "memcpy ?m buffer s (of_nat (length ?bs)) = write_mem ?m buffer (block ?m s (length ?bs))"
      unfolding memcpy_def n(2) using away n(1) by (intro copy_up_write) (auto simp: apart_def)
    also have "block ?m s (length ?bs) = ?bs" using n lim by (intro block_write_mem) simp
    finally show ?thesis
      using that dev buf nl r c by (simp add: unfold read_driver_def IO_SUCCESS_def IO_FAILED_def)
  qed
qed


definition demo_dev :: "u32 \<Rightarrow> io_device" where
  "demo_dev fl = \<lparr>dev_flags = fl, has_lock = True, dispatch_function = (\<lambda>_. None)\<rparr>"

definition demo_disk :: io_device where
  "demo_disk = (demo_dev 1)\<lparr>dispatch_function := (\<lambda>f. if f = IOREQ_READ
     then Some (read_driver (demo_dev 1) (\<lambda>off n. take (unat n) [1, 2, 3])) else None)\<rparr>"

definition demo_io :: iostate where
  "demo_io = \<lparr>iomem = (\<lambda>_. 0), dev_locked = False, requests = 0, buffers = 0, mdls = 0\<rparr>"

lemma read_driver_lock: "has_lock d = has_lock e \<Longrightarrow> read_driver d = read_driver e"
  by (simp add: fun_eq_iff read_driver_def io_complete_request_def)

theorem device_io_buffered_witness:
  "device_read True (Some 0x80200000) False (Some demo_disk) 0x1000 2 0 demo_io =
     Ret (2, demo_io\<lparr>iomem := write_mem (write_mem (\<lambda>_. 0) 0x80200000 [1, 2]) 0x1000 [1, 2]\<rparr>)"
proof -
  have "dispatch_function demo_disk IOREQ_READ = Some (read_driver demo_disk (\<lambda>off n. take (unat n) [1, 2, 3]))"
    using read_driver_lock [of "demo_dev 1" demo_disk] by (simp add: demo_disk_def demo_dev_def)
  then show ?thesis
    using device_io_buffered(1) [of demo_disk demo_io "0x1000" "0x80200000" 2 "\<lambda>off n. take (unat n) [1, 2, 3]" False 0]
    by (simp add: demo_disk_def demo_dev_def demo_io_def DO_BUFFERED_IO_def DO_DIRECT_IO_def MAX_MEM_CACHE_SIZE_def apart_def)
qed

subsection \<open>Packet queues\<close>

text \<open>
  The queue of a network device. \<open>io_device_queue_pickup\<close> is cut where it sleeps; what follows is \<open>pickup_first\<close>, whose
  \<open>None\<close> is the first entry of an empty list. \<open>entry_count\<close> is a \<open>char\<close>, which the limit keeps small.
\<close>

definition DEVICE_QUEUE_ENTRY_NR :: int where "DEVICE_QUEUE_ENTRY_NR = 12"

record device_queue =
  list_head :: "u8 list list"
  entry_count :: int

definition io_device_queue_init :: device_queue where
  "io_device_queue_init = \<lparr>list_head = [], entry_count = 0\<rparr>"

definition io_device_queue_cleanup :: "device_queue \<Rightarrow> device_queue" where
  "io_device_queue_cleanup q = q\<lparr>list_head := []\<rparr>"

text \<open>The result is \<open>IO_SUCCESS\<close> or \<open>IO_FAILED\<close>; a packet that is appended wakes the first task that waits.\<close>

definition io_device_queue_append :: "device_queue \<Rightarrow> u8 list \<Rightarrow> bool \<Rightarrow> u32 \<times> device_queue" where
  "io_device_queue_append q buf alloc_ok =
     (if entry_count q > DEVICE_QUEUE_ENTRY_NR then (IO_FAILED, q)
      else if \<not> alloc_ok then (IO_FAILED, q)
      else (IO_SUCCESS, q\<lparr>list_head := list_head q @ [buf], entry_count := entry_count q + 1\<rparr>))"

datatype pickup = Empty_handed | Sleeps | Packet "u8 list" device_queue

definition pickup_first :: "device_queue \<Rightarrow> nat \<Rightarrow> pickup option" where
  "pickup_first q buflen =
     (case list_head q of [] \<Rightarrow> None
      | e # es \<Rightarrow> Some (Packet (take (min (length e) buflen) e) (q\<lparr>list_head := es, entry_count := entry_count q - 1\<rparr>)))"

definition io_device_queue_pickup :: "device_queue \<Rightarrow> nat \<Rightarrow> u32 \<Rightarrow> pickup option" where
  "io_device_queue_pickup q buflen flags =
     (if entry_count q = 0 then Some (if flags AND IO_NOWAIT \<noteq> 0 then Empty_handed else Sleeps)
      else pickup_first q buflen)"

definition queue_ok :: "device_queue \<Rightarrow> bool" where
  "queue_ok q \<longleftrightarrow> entry_count q = int (length (list_head q)) \<and> entry_count q \<le> DEVICE_QUEUE_ENTRY_NR + 1"

text \<open>
  The queue holds up to 13 packets, one more than its limit says, in their order; the counter counts them. The cleanup
  does not reset the counter: after it, the next pickup takes an entry from the empty list. So does the second of two
  tasks that slept, if the first one or another task took the only packet.
\<close>

lemma device_queue_fifo:
  assumes "queue_ok q"
  shows "length (list_head q) \<le> 13"
    "fst (io_device_queue_append q buf True) = IO_SUCCESS \<longleftrightarrow> length (list_head q) \<le> 12"
    "queue_ok (snd (io_device_queue_append q buf ok))"
    "io_device_queue_pickup q n flags \<noteq> None"
    "io_device_queue_pickup q n flags = Some (Packet bs q') \<Longrightarrow>
       queue_ok q' \<and> (\<exists>e. list_head q = e # list_head q' \<and> bs = take n e)"
  using assms
  by (auto simp: queue_ok_def io_device_queue_append_def io_device_queue_pickup_def pickup_first_def DEVICE_QUEUE_ENTRY_NR_def
    IO_SUCCESS_def IO_FAILED_def min_def split: list.splits if_splits)

lemma device_queue_cleanup_broken:
  assumes "queue_ok q" "list_head q \<noteq> []"
  shows "io_device_queue_pickup (io_device_queue_cleanup q) n flags = None"
  using assms by (simp add: queue_ok_def io_device_queue_pickup_def io_device_queue_cleanup_def pickup_first_def)

lemma device_queue_two_sleepers:
  assumes "fst (io_device_queue_append io_device_queue_init buf True) = IO_SUCCESS"
  shows "\<exists>q. pickup_first (snd (io_device_queue_append io_device_queue_init buf True)) n = Some (Packet (take n buf) q) \<and>
    pickup_first q n = None"
  by (simp add: io_device_queue_append_def io_device_queue_init_def pickup_first_def DEVICE_QUEUE_ENTRY_NR_def min_def)

subsection \<open>Input events\<close>

definition EVBUF_SIZE :: nat where "EVBUF_SIZE = 64"

record input_event =
  ev_type :: u16
  ev_code :: u16
  ev_value :: u32

record input_even_buf =
  evbuf :: "input_event list"
  ev_head :: nat
  ev_tail :: nat

definition input_even_init :: input_even_buf where
  "input_even_init = \<lparr>evbuf = replicate EVBUF_SIZE \<lparr>ev_type = 0, ev_code = 0, ev_value = 0\<rparr>, ev_head = 0, ev_tail = 0\<rparr>"

text \<open>\<open>head\<close> and \<open>tail\<close> are masked with \<open>EVBUF_SIZE - 1\<close>.\<close>

definition input_even_put :: "input_even_buf \<Rightarrow> input_event \<Rightarrow> input_even_buf" where
  "input_even_put b e = b\<lparr>evbuf := (evbuf b)[ev_head b := e], ev_head := (ev_head b + 1) mod EVBUF_SIZE\<rparr>"

definition input_even_get :: "input_even_buf \<Rightarrow> input_event option \<times> input_even_buf" where
  "input_even_get b =
     (if ev_head b = ev_tail b then (None, b)
      else (Some (evbuf b ! ev_tail b), b\<lparr>ev_tail := (ev_tail b + 1) mod EVBUF_SIZE\<rparr>))"

definition ev_ok :: "input_even_buf \<Rightarrow> bool" where
  "ev_ok b \<longleftrightarrow> length (evbuf b) = 64 \<and> ev_head b < 64 \<and> ev_tail b < 64"

definition pending :: "input_even_buf \<Rightarrow> input_event list" where
  "pending b = map (\<lambda>i. evbuf b ! ((ev_tail b + i) mod 64)) [0..<(ev_head b + 64 - ev_tail b) mod 64]"

definition ev_count :: "nat \<Rightarrow> nat \<Rightarrow> nat" where
  "ev_count h t = (if t \<le> h then h - t else h + 64 - t)"

lemma mod_64: "a < 128 \<Longrightarrow> a mod 64 = (if a < 64 then a else a - 64)" for a :: nat
  by (simp add: le_mod_geq)

lemma pending_eq: "ev_ok b \<Longrightarrow> pending b = map (\<lambda>i. evbuf b ! ((ev_tail b + i) mod 64)) [0..<ev_count (ev_head b) (ev_tail b)]"
proof -
  assume "ev_ok b"
  then have "(ev_head b + 64 - ev_tail b) mod 64 = ev_count (ev_head b) (ev_tail b)"
    by (cases "ev_tail b \<le> ev_head b") (auto simp: ev_ok_def ev_count_def mod_64)
  then show ?thesis by (simp add: pending_def)
qed

lemma ev_count_next:
  assumes "h < 64" "t < 64"
  shows "ev_count ((h + 1) mod 64) t = (if ev_count h t < 63 then ev_count h t + 1 else 0)"
    "ev_count h t \<noteq> 0 \<Longrightarrow> ev_count h ((t + 1) mod 64) = ev_count h t - 1" "ev_count h t = 0 \<longleftrightarrow> h = t"
    "i < ev_count h t \<Longrightarrow> (t + i) mod 64 \<noteq> h" "(t + ev_count h t) mod 64 = h" "ev_count h t < 64"
proof -
  consider "h = 63" | "h < 63" using assms by linarith
  then show "ev_count ((h + 1) mod 64) t = (if ev_count h t < 63 then ev_count h t + 1 else 0)"
    by cases (use assms in \<open>auto simp: ev_count_def\<close>)
  consider "t = 63" | "t < 63" using assms by linarith
  then show "ev_count h t \<noteq> 0 \<Longrightarrow> ev_count h ((t + 1) mod 64) = ev_count h t - 1"
    by cases (use assms in \<open>auto simp: ev_count_def split: if_splits\<close>)
  show "ev_count h t = 0 \<longleftrightarrow> h = t" "ev_count h t < 64" using assms by (auto simp: ev_count_def)
  show "i < ev_count h t \<Longrightarrow> (t + i) mod 64 \<noteq> h" "(t + ev_count h t) mod 64 = h"
    using assms by (auto simp: ev_count_def mod_64 split: if_splits)
qed

text \<open>
  C28. The event buffer is a queue of at most 63 events. An event that does not fit is not refused: it throws away all
  the events that wait, and itself.
\<close>

theorem input_even_refines:
  assumes "ev_ok b"
  shows "ev_ok (input_even_put b e) \<and>
    pending (input_even_put b e) = (if length (pending b) < 63 then pending b @ [e] else []) \<and>
    (case input_even_get b of (r, b') \<Rightarrow> ev_ok b' \<and>
       (case pending b of [] \<Rightarrow> r = None \<and> b' = b | x # xs \<Rightarrow> r = Some x \<and> pending b' = xs))"
proof (intro conjI)
  let ?h = "ev_head b" and ?t = "ev_tail b" and ?n = "ev_count (ev_head b) (ev_tail b)"
  have b: "length (evbuf b) = 64" "?h < 64" "?t < 64" using assms by (simp_all add: ev_ok_def)
  note N = ev_count_next [OF b(2,3)]
  show ok: "ev_ok (input_even_put b e)" using b by (simp add: ev_ok_def input_even_put_def EVBUF_SIZE_def)
  have "pending (input_even_put b e) = map (\<lambda>i. (evbuf b)[?h := e] ! ((?t + i) mod 64)) [0..<ev_count ((?h + 1) mod 64) ?t]"
    using pending_eq [OF ok] by (simp add: input_even_put_def EVBUF_SIZE_def)
  also have "\<dots> = (if ?n < 63 then map (\<lambda>i. evbuf b ! ((?t + i) mod 64)) [0..<?n] @ [e] else [])"
  proof -
    have "(evbuf b)[?h := e] ! ((?t + i) mod 64) = evbuf b ! ((?t + i) mod 64)" if "i < ?n" for i
      using N(4) [OF that] by (metis nth_list_update_neq)
    moreover have "(evbuf b)[?h := e] ! ((?t + ?n) mod 64) = e" using N(5) b by simp
    ultimately show ?thesis using N(1) by simp
  qed
  finally show "pending (input_even_put b e) = (if length (pending b) < 63 then pending b @ [e] else [])"
    by (simp add: pending_eq [OF assms])
  show "case input_even_get b of (r, b') \<Rightarrow> ev_ok b' \<and>
       (case pending b of [] \<Rightarrow> r = None \<and> b' = b | x # xs \<Rightarrow> r = Some x \<and> pending b' = xs)"
  proof (cases "?h = ?t")
    case True
    then have "pending b = []" using N(3) by (simp add: pending_eq [OF assms])
    with True assms show ?thesis by (simp add: input_even_get_def)
  next
    case False
    let ?b' = "b\<lparr>ev_tail := (?t + 1) mod EVBUF_SIZE\<rparr>"
    have ok': "ev_ok ?b'" using b by (simp add: ev_ok_def EVBUF_SIZE_def)
    obtain k where k: "?n = Suc k" using False N(3) by (cases ?n) auto
    have "pending ?b' = map (\<lambda>i. evbuf b ! (((?t + 1) mod 64 + i) mod 64)) [0..<k]"
      using pending_eq [OF ok'] N(2) k by (simp add: EVBUF_SIZE_def)
    also have "\<dots> = map (\<lambda>i. evbuf b ! ((?t + Suc i) mod 64)) [0..<k]" by (simp add: mod_simps)
    finally have "pending b = evbuf b ! ?t # pending ?b'"
      using k b(3) by (simp add: pending_eq [OF assms] upt_conv_Cons del: upt_Suc flip: map_Suc_upt)
    with False ok' show ?thesis by (simp add: input_even_get_def)
  qed
qed

theorem input_even_refines_witness:
  "pending (input_even_put input_even_init \<lparr>ev_type = 1, ev_code = 30, ev_value = 1\<rparr>) = [\<lparr>ev_type = 1, ev_code = 30, ev_value = 1\<rparr>]"
proof -
  have "ev_ok input_even_init" by (simp add: ev_ok_def input_even_init_def EVBUF_SIZE_def)
  moreover have "pending input_even_init = []" by (simp add: pending_def input_even_init_def)
  ultimately show ?thesis using input_even_refines [of input_even_init] by simp
qed


subsection \<open>Drivers and their devices\<close>

text \<open>
  The list of drivers, each with the list of its devices: names, types and reference counts. \<open>status\<close> and \<open>enter\<close> are what the
  functions of the driver return. \<open>None\<close> is a failed assertion or a write outside a buffer.
\<close>

definition DEVICE_NAME_LEN :: nat where "DEVICE_NAME_LEN = 32"

record driver_object =
  driver_name :: string
  device_list :: "device_object list"

definition driver_object_create :: "bool \<Rightarrow> u32 \<Rightarrow> u32 option \<Rightarrow> driver_object \<Rightarrow> driver_object list \<Rightarrow> int \<times> driver_object list" where
  "driver_object_create alloc_ok status enter drv ds =
     (if \<not> alloc_ok then (-1, ds)
      else if status \<noteq> IO_SUCCESS then (-1, ds)
      else let status = (case enter of None \<Rightarrow> status | Some r \<Rightarrow> r)
           in if status \<noteq> IO_SUCCESS then (-1, ds) else (0, ds @ [drv]))"

definition driver_object_delete :: "u32 option \<Rightarrow> nat \<Rightarrow> driver_object list \<Rightarrow> (int \<times> driver_object list) option" where
  "driver_object_delete exit_status i ds =
     (let status = (case exit_status of None \<Rightarrow> IO_SUCCESS | Some r \<Rightarrow> r)
      in if status \<noteq> IO_SUCCESS then Some (-1, ds)
         else if i < length ds then Some (0, take i ds @ drop (i + 1) ds) else None)"

definition io_search_driver_by_name :: "driver_object list \<Rightarrow> string \<Rightarrow> nat option" where
  "io_search_driver_by_name ds name = find_slot (\<lambda>d. driver_name d = name) ds"

definition io_uninstall_driver :: "u32 option \<Rightarrow> string \<Rightarrow> driver_object list \<Rightarrow> (int \<times> driver_object list) option" where
  "io_uninstall_driver exit_status name ds =
     (case io_search_driver_by_name ds name of None \<Rightarrow> Some (-1, ds)
      | Some i \<Rightarrow> map_option (\<lambda>(r, ds). (0, ds)) (driver_object_delete exit_status i ds))"

definition io_create_device :: "bool \<Rightarrow> bool \<Rightarrow> driver_object \<Rightarrow> string \<Rightarrow> nat \<Rightarrow> (u32 \<times> driver_object) option" where
  "io_create_device alloc_ok name_ok drv name type =
     (if \<not> alloc_ok then Some (IO_FAILED, drv)
      else if \<not> name_ok then Some (IO_FAILED, drv)
      else if length name \<ge> DEVICE_NAME_LEN then None
      else Some (IO_SUCCESS, drv\<lparr>device_list := device_list drv @ [\<lparr>dev_name = name, dev_type = type, reference = 0\<rparr>]\<rparr>))"

definition io_delete_device :: "driver_object \<Rightarrow> nat \<Rightarrow> driver_object option" where
  "io_delete_device drv i =
     (if i < length (device_list drv) then Some (drv\<lparr>device_list := take i (device_list drv) @ drop (i + 1) (device_list drv)\<rparr>)
      else None)"

text \<open>
  The search of \<open>sys_devscan\<close> and \<open>io_iterative_search_device_by_type\<close>: the device behind the one that is given, by its name
  or by its address, which is its place here.
\<close>

fun scan_devices :: "('k \<times> nat) list \<Rightarrow> nat \<Rightarrow> 'k option \<Rightarrow> bool \<Rightarrow> 'k option" where
  "scan_devices [] type de flag = None"
| "scan_devices ((k, t) # ds) type de flag =
     (if t = type
      then case de of None \<Rightarrow> Some k
           | Some d \<Rightarrow> if flag then Some k else scan_devices ds type de (d = k)
      else scan_devices ds type de flag)"

definition all_devices :: "driver_object list \<Rightarrow> device_object list" where
  "all_devices ds = concat (map device_list ds)"

definition sys_devscan :: "driver_object list \<Rightarrow> string option \<Rightarrow> nat \<Rightarrow> bool \<Rightarrow> string option" where
  "sys_devscan ds de type has_out =
     (if \<not> has_out then None else scan_devices (map (\<lambda>d. (dev_name d, dev_type d)) (all_devices ds)) type de False)"

definition io_iterative_search_device_by_type :: "driver_object list \<Rightarrow> nat option \<Rightarrow> nat \<Rightarrow> nat option" where
  "io_iterative_search_device_by_type ds devptr type =
     scan_devices (map (\<lambda>(i, d). (i, dev_type d)) (enumerate 0 (all_devices ds))) type devptr False"

text \<open>The name of an unused device; the write to \<open>buf[buflen - 1]\<close> is in front of a buffer of size 0.\<close>

definition device_probe_unused :: "driver_object list \<Rightarrow> string \<Rightarrow> nat \<Rightarrow> (int \<times> string) option" where
  "device_probe_unused ds name buflen =
     (case find (\<lambda>d. take (length name) (dev_name d) = name \<and> reference d = 0) (all_devices ds) of
        None \<Rightarrow> Some (-1, [])
      | Some d \<Rightarrow> if buflen = 0 then None else Some (0, take (buflen - 1) (dev_name d)))"

definition keys_of :: "('k \<times> nat) list \<Rightarrow> nat \<Rightarrow> 'k list" where
  "keys_of ds type = map fst (filter (\<lambda>(k, t). t = type) ds)"

lemma scan_flag: "scan_devices ds type (Some d) True = (case keys_of ds type of [] \<Rightarrow> None | k # _ \<Rightarrow> Some k)"
  by (induction ds) (auto simp: keys_of_def)

lemma scan_first: "scan_devices ds type None flag = (case keys_of ds type of [] \<Rightarrow> None | k # _ \<Rightarrow> Some k)"
  by (induction ds) (auto simp: keys_of_def)

lemma scan_next:
  "distinct (keys_of ds type) \<Longrightarrow> i < length (keys_of ds type) \<Longrightarrow>
   scan_devices ds type (Some (keys_of ds type ! i)) False =
     (if i + 1 < length (keys_of ds type) then Some (keys_of ds type ! (i + 1)) else None)"
proof (induction ds arbitrary: i)
  case (Cons x ds)
  obtain k t where x: "x = (k, t)" by (cases x)
  show ?case
  proof (cases "t = type")
    case False
    then have "keys_of (x # ds) type = keys_of ds type" by (simp add: keys_of_def x)
    with Cons False show ?thesis by (simp add: x)
  next
    case True
    then have ks: "keys_of (x # ds) type = k # keys_of ds type" by (simp add: keys_of_def x)
    show ?thesis
    proof (cases i)
      case 0
      then show ?thesis using True ks by (cases "keys_of ds type") (auto simp: x scan_flag)
    next
      case (Suc j)
      with Cons.prems ks have j: "j < length (keys_of ds type)" "distinct (keys_of ds type)" "keys_of ds type ! j \<noteq> k"
        by (auto dest: nth_mem)
      with Cons.IH [OF j(2,1)] Suc True ks show ?thesis by (simp add: x)
    qed
  qed
qed (simp add: keys_of_def)

text \<open>
  Scanning the devices of a type from the beginning, each time behind the one found last, meets every one of them
  once and in their order, if their names are distinct.
\<close>

theorem devscan_enumerates:
  assumes "names = map dev_name (filter (\<lambda>d. dev_type d = type) (all_devices ds))" "distinct names"
  shows "sys_devscan ds None type True = (case names of [] \<Rightarrow> None | n # _ \<Rightarrow> Some n) \<and>
    (\<forall>i < length names. sys_devscan ds (Some (names ! i)) type True =
       (if i + 1 < length names then Some (names ! (i + 1)) else None))"
proof -
  let ?l = "map (\<lambda>d. (dev_name d, dev_type d)) (all_devices ds)"
  have "keys_of ?l type = names" by (simp add: keys_of_def assms(1) filter_map comp_def)
  with assms(2) show ?thesis using scan_first [of ?l type False] scan_next [of ?l type] by (simp add: sys_devscan_def)
qed

end
